(* ===== verification/Prelude.thy ===== *)
theory Prelude
  imports Main "HOL-Library.Word"
begin

text \<open>
  Shared vocabulary of the development: the machine integers of the Rust sources as words,
  byte order (\<open>to_be_bytes\<close>, \<open>from_be_bytes\<close> and the little-endian pair), the
  collections of facts that the component theories use, and the interface every wire format of
  the program satisfies (a codec: decoding what was encoded gives the value back).
\<close>

section \<open>Machine integers\<close>

type_synonym u8 = "8 word"
type_synonym u16 = "16 word"
type_synonym u32 = "32 word"
type_synonym u64 = "64 word"
type_synonym bytes = "u8 list"

named_theorems wire_simps "layout facts of the byte formats"
named_theorems const_simps "values of the named constants of the sources"

section \<open>Byte order\<close>

text \<open>\<open>be_bytes n w\<close> is the low \<open>n\<close> bytes of \<open>w\<close>, most significant first.\<close>

primrec be_bytes :: "nat \<Rightarrow> 'a::len word \<Rightarrow> bytes" where
  "be_bytes 0 w = []"
| "be_bytes (Suc n) w = ucast (drop_bit (8 * n) w) # be_bytes n w"

definition of_be :: "bytes \<Rightarrow> 'a::len word" where
  "of_be bs = foldl (\<lambda>acc b. acc * 256 + ucast b) 0 bs"

definition le_bytes :: "nat \<Rightarrow> 'a::len word \<Rightarrow> bytes" where
  "le_bytes n w = rev (be_bytes n w)"

definition of_le :: "bytes \<Rightarrow> 'a::len word" where
  "of_le bs = of_be (rev bs)"

text \<open>The same reading as a natural number, where nothing wraps.\<close>

definition nat_of_be :: "bytes \<Rightarrow> nat" where
  "nat_of_be bs = foldl (\<lambda>acc b. acc * 256 + unat b) 0 bs"

lemma length_be_bytes [simp, wire_simps]: "length (be_bytes n w) = n"
  by (induction n) auto

lemma length_le_bytes [simp, wire_simps]: "length (le_bytes n w) = n"
  by (simp add: le_bytes_def)

lemma nat_of_be_foldl:
  "foldl (\<lambda>acc b. acc * 256 + unat b) a bs = a * 256 ^ length bs + nat_of_be bs"
proof (induction bs arbitrary: a rule: rev_induct)
  case Nil
  then show ?case by (simp add: nat_of_be_def)
next
  case (snoc b bs)
  show ?case
    using snoc.IH [of a] by (simp add: nat_of_be_def algebra_simps)
qed

lemma nat_of_be_Nil [simp]: "nat_of_be [] = 0"
  by (simp add: nat_of_be_def)

lemma nat_of_be_Cons: "nat_of_be (b # bs) = unat b * 256 ^ length bs + nat_of_be bs"
  using nat_of_be_foldl [of "unat b" bs] by (simp add: nat_of_be_def)

lemma nat_of_be_bound: "nat_of_be bs < 256 ^ length bs"
proof (induction bs)
  case (Cons b bs)
  have "unat b \<le> 255"
    using unsigned_less [of b, where ?'a = nat] by simp
  then have "unat b * 256 ^ length bs \<le> 255 * 256 ^ length bs"
    by simp
  then have "unat b * 256 ^ length bs + nat_of_be bs
      < 255 * 256 ^ length bs + 256 ^ length bs"
    using Cons.IH by (rule add_le_less_mono)
  then show ?case
    by (simp add: nat_of_be_Cons)
qed simp

lemma of_be_eq_of_nat: "of_be bs = of_nat (nat_of_be bs)"
proof (induction bs rule: rev_induct)
  case Nil
  then show ?case by (simp add: of_be_def)
next
  case (snoc b bs)
  have "ucast b = (of_nat (unat b) :: 'a word)"
    by simp
  with snoc show ?case
    by (simp add: of_be_def nat_of_be_def)
qed

lemma unat_byte_of: "unat (ucast (drop_bit (8 * n) w) :: u8) = unat w div 256 ^ n mod 256"
proof -
  have "(256::nat) ^ n = 2 ^ (8 * n)"
    by (simp add: power_mult)
  then show ?thesis
    by (simp add: unsigned_ucast_eq unsigned_drop_bit_eq
        drop_bit_eq_div [where ?'a = nat] take_bit_eq_mod [where ?'a = nat])
qed

lemma nat_of_be_bytes: "nat_of_be (be_bytes n w) = unat w mod 256 ^ n"
proof (induction n)
  case (Suc n)
  have "unat w mod 256 ^ Suc n = unat w mod (256 ^ n * 256)"
    by (simp add: mult.commute)
  also have "\<dots> = 256 ^ n * (unat w div 256 ^ n mod 256) + unat w mod 256 ^ n"
    by (rule mod_mult2_eq)
  finally show ?case
    using Suc by (simp only: be_bytes.simps nat_of_be_Cons unat_byte_of length_be_bytes
        mult.commute [of "256 ^ n"])
qed simp

lemma of_be_be_bytes [simp, wire_simps]:
  fixes w :: "'a::len word"
  assumes "LENGTH('a) \<le> 8 * n"
  shows "of_be (be_bytes n w) = w"
proof -
  have "unat w < 2 ^ LENGTH('a)"
    by (rule unsigned_less)
  also have "(2::nat) ^ LENGTH('a) \<le> 2 ^ (8 * n)"
    using assms by simp
  finally have "unat w < 256 ^ n"
    by (simp add: power_mult)
  then show ?thesis
    by (simp add: of_be_eq_of_nat nat_of_be_bytes)
qed

lemma of_le_le_bytes [simp, wire_simps]:
  fixes w :: "'a::len word"
  assumes "LENGTH('a) \<le> 8 * n"
  shows "of_le (le_bytes n w) = w"
  using assms by (simp add: of_le_def le_bytes_def)

lemma nat_of_be_inj:
  "length xs = length ys \<Longrightarrow> nat_of_be xs = nat_of_be ys \<Longrightarrow> xs = ys"
proof (induction xs ys rule: list_induct2)
  case (Cons x xs y ys)
  let ?m = "256 ^ length xs"
  have lt: "nat_of_be xs < ?m" "nat_of_be ys < ?m"
    using nat_of_be_bound [of xs] nat_of_be_bound [of ys] Cons.hyps by simp_all
  have eq: "unat x * ?m + nat_of_be xs = unat y * ?m + nat_of_be ys"
    using Cons.prems Cons.hyps by (simp add: nat_of_be_Cons)
  then have "(unat x * ?m + nat_of_be xs) div ?m = (unat y * ?m + nat_of_be ys) div ?m"
    by simp
  with lt have "unat x = unat y"
    by simp
  with eq Cons.IH show ?case
    by (simp add: word_unat_eq_iff)
qed simp

lemma unat_of_be:
  assumes "8 * length bs \<le> LENGTH('a::len)"
  shows "unat (of_be bs :: 'a word) = nat_of_be bs"
proof -
  have "nat_of_be bs < 2 ^ (8 * length bs)"
    using nat_of_be_bound [of bs] by (simp add: power_mult)
  also have "(2::nat) ^ (8 * length bs) \<le> 2 ^ LENGTH('a)"
    using assms by simp
  finally show ?thesis
    by (simp add: of_be_eq_of_nat unat_of_nat take_bit_eq_mod)
qed

lemma be_bytes_of_be [simp, wire_simps]:
  assumes "length bs = n" "8 * n \<le> LENGTH('a::len)"
  shows "be_bytes n (of_be bs :: 'a word) = bs"
proof (rule nat_of_be_inj)
  show "length (be_bytes n (of_be bs :: 'a word)) = length bs"
    using assms(1) by simp
  have "unat (of_be bs :: 'a word) = nat_of_be bs"
    using assms by (intro unat_of_be) simp
  then show "nat_of_be (be_bytes n (of_be bs :: 'a word)) = nat_of_be bs"
    using nat_of_be_bound [of bs] assms(1) by (simp add: nat_of_be_bytes)
qed

lemma le_bytes_of_le [simp, wire_simps]:
  assumes "length bs = n" "8 * n \<le> LENGTH('a::len)"
  shows "le_bytes n (of_le bs :: 'a word) = bs"
  using assms by (simp add: le_bytes_def of_le_def)

section \<open>Case distinction on a small number\<close>

text \<open>A property of every number below a numeral is a property of each: \<open>simp\<close> unfolds the list.\<close>

lemma upt_0_numeral: "[0..<numeral k] = 0 # (if 1 < (numeral k :: nat) then 1 # [2..<numeral k] else [])"
  by (simp add: upt_conv_Cons numeral_2_eq_2)

lemma below_all: "list_all P [0..<k] \<Longrightarrow> n < k \<Longrightarrow> P n"
  by (simp add: list_all_iff)

section \<open>Slices\<close>

text \<open>\<open>subslice d a b\<close> is \<open>d[a..b]\<close> of the sources, where the range lies in \<open>d\<close>.\<close>

definition subslice :: "'a list \<Rightarrow> nat \<Rightarrow> nat \<Rightarrow> 'a list" where
  "subslice d a b = take (b - a) (drop a d)"

lemma length_subslice [simp]: "b \<le> length d \<Longrightarrow> length (subslice d a b) = b - a"
  by (simp add: subslice_def)

lemma subslice_append: "a \<le> b \<Longrightarrow> b \<le> c \<Longrightarrow> subslice d a b @ subslice d b c = subslice d a c"
proof -
  assume "a \<le> b" "b \<le> c"
  then have "drop b d = drop (b - a) (drop a d)" "c - a = (b - a) + (c - b)"
    by simp_all
  then show ?thesis
    by (simp only: subslice_def take_add)
qed

lemma subslice_Cons: "a < b \<Longrightarrow> a < length d \<Longrightarrow> subslice d a b = d ! a # subslice d (Suc a) b"
  using Cons_nth_drop_Suc [of a d, symmetric] take_Suc_Cons [of "b - Suc a" "d ! a"]
  by (simp add: subslice_def Suc_diff_Suc)

lemma subslice_snoc: "a \<le> i \<Longrightarrow> i < length d \<Longrightarrow> subslice d a (Suc i) = subslice d a i @ [d ! i]"
  using subslice_append [of a i "Suc i" d] subslice_Cons [of i "Suc i" d] by (simp add: subslice_def)

lemma drop_subslice: "a \<le> b \<Longrightarrow> drop a d = subslice d a b @ drop b d"
  by (metis append_take_drop_id drop_drop le_add_diff_inverse2 subslice_def)

lemma subslice_0 [simp]: "subslice d 0 b = take b d"
  by (simp add: subslice_def)

section \<open>Chunks\<close>

text \<open>\<open>chunks(n)\<close> of a slice; nothing for \<open>n = 0\<close>, where the library panics.\<close>

function chunks_of :: "nat \<Rightarrow> 'a list \<Rightarrow> 'a list list" where
  "chunks_of n xs = (if xs = [] \<or> n = 0 then [] else take n xs # chunks_of n (drop n xs))"
  by pat_completeness auto
termination
  by (relation "measure (\<lambda>(n, xs). length xs)") auto

declare chunks_of.simps [simp del]

lemma chunks_of_Nil [simp]: "chunks_of n [] = []"
  by (simp add: chunks_of.simps)

lemma chunks_of_step: "0 < n \<Longrightarrow> xs \<noteq> [] \<Longrightarrow> chunks_of n xs = take n xs # chunks_of n (drop n xs)"
  by (simp add: chunks_of.simps [of n xs])

lemma concat_chunks_of: "0 < n \<Longrightarrow> concat (chunks_of n xs) = xs"
proof (induction n xs rule: chunks_of.induct)
  case (1 n xs)
  then show ?case
    by (cases "xs = []") (simp_all add: chunks_of_step)
qed

lemma chunks_of_size: "0 < n \<Longrightarrow> c \<in> set (chunks_of n xs) \<Longrightarrow> c \<noteq> [] \<and> length c \<le> n"
proof (induction n xs rule: chunks_of.induct)
  case (1 n xs)
  then show ?case
    by (cases "xs = []") (auto simp: chunks_of_step)
qed

lemma length_chunks_of: "0 < n \<Longrightarrow> length (chunks_of n xs) = (length xs + n - 1) div n"
proof (induction n xs rule: chunks_of.induct)
  case (1 n xs)
  show ?case
  proof (cases "xs = []")
    case False
    have "length (chunks_of n (drop n xs)) = (length (drop n xs) + n - 1) div n"
      by (rule 1(1)) (use False 1(2) in simp_all)
    then have len: "length (chunks_of n xs) = Suc ((length xs - n + n - 1) div n)"
      unfolding chunks_of_step [OF 1(2) False] by (simp only: list.size length_drop)
    have "(length xs + n - 1) div n = Suc ((length xs - n + n - 1) div n)"
    proof (cases "n \<le> length xs")
      case True
      then have "(length xs + n - 1) div n = (length xs - 1 + n) div n" "length xs - n + n - 1 = length xs - 1"
        using 1(2) by (simp_all add: add.commute)
      then show ?thesis
        using div_add_self2 [of n "length xs - 1"] 1(2) by simp
    next
      case less: False
      then have "(length xs - n + n - 1) div n = 0" "(length xs - 1) div n = 0"
        using 1(2) by simp_all
      moreover have "length xs + n - 1 = (length xs - 1) + n"
        using False by (cases xs) simp_all
      ultimately show ?thesis
        using div_add_self2 [of n "length xs - 1"] 1(2) by (simp only: One_nat_def)
    qed
    then show ?thesis
      using len by (simp only:)
  qed (use 1(2) in simp)
qed

lemma full_chunks_of:
  "0 < n \<Longrightarrow> Suc i < length (chunks_of n xs) \<Longrightarrow> length (chunks_of n xs ! i) = n"
proof (induction n xs arbitrary: i rule: chunks_of.induct)
  case (1 n xs)
  then have ne: "xs \<noteq> []"
    by auto
  then have eq: "chunks_of n xs = take n xs # chunks_of n (drop n xs)"
    using 1(2) by (rule chunks_of_step [rotated])
  show ?case
  proof (cases i)
    case 0
    then have "drop n xs \<noteq> []"
      using 1(3) eq by (cases "drop n xs = []") auto
    then show ?thesis
      by (simp add: eq 0)
  next
    case (Suc j)
    then show ?thesis
      using 1 ne eq by simp
  qed
qed

lemma last_chunks_of:
  "0 < n \<Longrightarrow> xs \<noteq> [] \<Longrightarrow>
     length (last (chunks_of n xs)) = (if length xs mod n = 0 then n else length xs mod n)"
proof (induction n xs rule: chunks_of.induct)
  case (1 n xs)
  note eq = chunks_of_step [OF 1(2,3)]
  show ?case
  proof (cases "drop n xs = []")
    case True
    then show ?thesis
      using 1(3) by (cases "length xs = n") (simp_all add: eq)
  next
    case False
    then have "chunks_of n (drop n xs) \<noteq> []" "n < length xs"
      using 1(2) by (simp_all add: chunks_of_step)
    moreover have "(length xs - n) mod n = length xs mod n"
      using \<open>n < length xs\<close> by (simp add: le_mod_geq)
    ultimately show ?thesis
      using 1(1) [OF _ 1(2) False] 1(2,3) by (simp add: eq)
  qed
qed

section \<open>The interface of a wire format\<close>

text \<open>
  What every message format of the program promises: decoding an encoded value gives it back, and
  whatever the decoder accepts is a value the encoder can write. \<open>valid\<close> is the set of values
  the format carries.
\<close>

locale codec =
  fixes valid :: "'a \<Rightarrow> bool" and enc :: "'a \<Rightarrow> 'b list" and dec :: "'b list \<Rightarrow> 'a option"
  assumes dec_enc: "valid x \<Longrightarrow> dec (enc x) = Some x"
    and dec_valid: "dec d = Some x \<Longrightarrow> valid x"
begin

lemma enc_inject: "valid x \<Longrightarrow> valid y \<Longrightarrow> enc x = enc y \<longleftrightarrow> x = y"
  using dec_enc by (metis option.inject)

lemma dec_again: "dec d = Some x \<Longrightarrow> dec (enc x) = Some x"
  by (simp add: dec_enc dec_valid)

lemma accepted_iff: "valid x \<longleftrightarrow> (\<exists>d. dec d = Some x)"
  using dec_enc dec_valid by blast

end

text \<open>A format whose value can be followed by anything: the decoder reads a prefix of fixed length.\<close>

locale prefix_codec = codec +
  fixes len :: nat
  assumes enc_len: "valid x \<Longrightarrow> length (enc x) = len"
    and dec_take: "dec d = Some x \<longleftrightarrow> len \<le> length d \<and> dec (take len d) = Some x"
    and enc_dec: "dec d = Some x \<Longrightarrow> enc x = take len d"
begin

lemma dec_enc_append: "valid x \<Longrightarrow> dec (enc x @ rest) = Some x"
  using dec_take [of "enc x @ rest" x] by (simp add: enc_len dec_enc)

lemma dec_eq_iff: "dec d = Some x \<longleftrightarrow> valid x \<and> (\<exists>rest. d = enc x @ rest)"
proof
  assume d: "dec d = Some x"
  then have "d = enc x @ drop len d"
    using enc_dec by simp
  then show "valid x \<and> (\<exists>rest. d = enc x @ rest)"
    using d dec_valid by blast
qed (auto simp: dec_enc_append)

end

text \<open>The option view of a fallible decoder.\<close>

fun ok :: "'e + 'a \<Rightarrow> 'a option" where
  "ok (Inl _) = None"
| "ok (Inr x) = Some x"

lemma ok_eq_Some [simp]: "ok r = Some x \<longleftrightarrow> r = Inr x"
  by (cases r) auto

lemma ok_eq_None [simp]: "ok r = None \<longleftrightarrow> (\<exists>e. r = Inl e)"
  by (cases r) auto

section \<open>First arrivals\<close>

text \<open>The elements of a list in order of their first occurrence, those of \<open>S\<close> left out.\<close>

fun firsts :: "'a set \<Rightarrow> 'a list \<Rightarrow> 'a list" where
  "firsts S [] = []"
| "firsts S (x # xs) = (if x \<in> S then firsts S xs else x # firsts (insert x S) xs)"

lemma firsts_props: "distinct (firsts S xs) \<and> set (firsts S xs) = set xs - S"
  by (induction S xs rule: firsts.induct) auto

end
