(* ===== verification/Text_Basics.thy ===== *)
theory Text_Basics
  imports Prelude
begin

text \<open>
  Rust strings. A \<open>str\<close> is the list of its code points; its length in bytes is that of its
  UTF-8 encoding. The functions are those of the standard library the sources call:
  \<open>split\<close>, \<open>split_once\<close>, \<open>rsplit_once\<close>, \<open>trim\<close>, \<open>starts_with\<close>, \<open>ends_with\<close>,
  \<open>contains\<close>, the ASCII case functions, and hexadecimal digits. The Unicode case tables
  (\<open>to_lowercase\<close>, \<open>to_uppercase\<close>) are arguments of the definitions that use them.
\<close>

type_synonym rstr = "nat list"

text \<open>A literal of the source.\<close>

definition lit :: "string \<Rightarrow> rstr" where
  "lit s = map of_char s"

definition utf8_len_char :: "nat \<Rightarrow> nat" where
  "utf8_len_char c = (if c < 128 then 1 else if c < 2048 then 2 else if c < 65536 then 3 else 4)"

definition utf8_len :: "rstr \<Rightarrow> nat" where
  "utf8_len s = sum_list (map utf8_len_char s)"

section \<open>Splitting and searching\<close>

fun split_once :: "nat \<Rightarrow> rstr \<Rightarrow> (rstr \<times> rstr) option" where
  "split_once c [] = None"
| "split_once c (x # xs) =
     (if x = c then Some ([], xs)
      else case split_once c xs of None \<Rightarrow> None | Some (a, b) \<Rightarrow> Some (x # a, b))"

definition rsplit_once :: "nat \<Rightarrow> rstr \<Rightarrow> (rstr \<times> rstr) option" where
  "rsplit_once c s =
     (case split_once c (rev s) of None \<Rightarrow> None | Some (a, b) \<Rightarrow> Some (rev b, rev a))"

text \<open>\<open>str::split\<close> on one character: always at least one part.\<close>

fun split_on :: "nat \<Rightarrow> rstr \<Rightarrow> rstr list" where
  "split_on c [] = [[]]"
| "split_on c (x # xs) =
     (if x = c then [] # split_on c xs
      else case split_on c xs of [] \<Rightarrow> [[x]] | p # ps \<Rightarrow> (x # p) # ps)"

definition starts_with :: "rstr \<Rightarrow> rstr \<Rightarrow> bool" where
  "starts_with p s = (take (length p) s = p)"

definition ends_with :: "rstr \<Rightarrow> rstr \<Rightarrow> bool" where
  "ends_with p s = starts_with (rev p) (rev s)"

fun contains_str :: "rstr \<Rightarrow> rstr \<Rightarrow> bool" where
  "contains_str p [] = (p = [])"
| "contains_str p (x # xs) = (starts_with p (x # xs) \<or> contains_str p xs)"

section \<open>Classes of characters\<close>

definition is_control :: "nat \<Rightarrow> bool" where
  "is_control c = (c < 32 \<or> 127 \<le> c \<and> c < 160)"

definition is_whitespace :: "nat \<Rightarrow> bool" where
  "is_whitespace c =
     (9 \<le> c \<and> c \<le> 13 \<or> 8192 \<le> c \<and> c \<le> 8202 \<or> List.member [32, 133, 160, 5760, 8232, 8233, 8239, 8287, 12288] c)"

definition is_ascii_digit :: "nat \<Rightarrow> bool" where
  "is_ascii_digit c = (48 \<le> c \<and> c \<le> 57)"

definition ascii_lower :: "nat \<Rightarrow> nat" where
  "ascii_lower c = (if 65 \<le> c \<and> c \<le> 90 then c + 32 else c)"

definition ascii_lowercase :: "rstr \<Rightarrow> rstr" where
  "ascii_lowercase s = map ascii_lower s"

definition eq_ignore_ascii_case :: "rstr \<Rightarrow> rstr \<Rightarrow> bool" where
  "eq_ignore_ascii_case a b = (ascii_lowercase a = ascii_lowercase b)"

definition trim_matches :: "(nat \<Rightarrow> bool) \<Rightarrow> rstr \<Rightarrow> rstr" where
  "trim_matches f s = rev (dropWhile f (rev (dropWhile f s)))"

definition trim :: "rstr \<Rightarrow> rstr" where
  "trim s = trim_matches is_whitespace s"

section \<open>Digits\<close>

definition hex_digit :: "nat \<Rightarrow> nat" where
  "hex_digit n = (if n < 10 then 48 + n else 87 + n)"

text \<open>\<open>char::to_digit(16)\<close>: upper and lower case.\<close>

definition digit16 :: "nat \<Rightarrow> nat option" where
  "digit16 c =
     (if 48 \<le> c \<and> c \<le> 57 then Some (c - 48)
      else if 97 \<le> c \<and> c \<le> 102 then Some (c - 87)
      else if 65 \<le> c \<and> c \<le> 70 then Some (c - 55) else None)"

text \<open>\<open>{b:02x}\<close> of a byte.\<close>

definition hex2 :: "u8 \<Rightarrow> rstr" where
  "hex2 b = [hex_digit (unat b div 16), hex_digit (unat b mod 16)]"

text \<open>
  \<open>u8::from_str_radix(s, 16)\<close> of a text of two characters: two digits, or a plus sign and one digit
  (the standard library takes a leading \<open>+\<close>).
\<close>

fun radix16_u8 :: "rstr \<Rightarrow> u8 option" where
  "radix16_u8 [a, b] =
     (case digit16 b of
        None \<Rightarrow> None
      | Some y \<Rightarrow>
          if a = 43 then Some (of_nat y)
          else (case digit16 a of None \<Rightarrow> None | Some x \<Rightarrow> Some (of_nat (16 * x + y))))"
| "radix16_u8 _ = None"

lemma radix16_u8_hex2 [simp]: "radix16_u8 (hex2 b) = Some b"
proof -
  have digit: "digit16 (hex_digit n) = Some n" "hex_digit n \<noteq> 43" if "n < 16" for n
    using that by (auto simp: digit16_def hex_digit_def)
  have "unat b div 16 < 16"
    using unsigned_less [of b, where ?'a = nat] by simp
  then show ?thesis
    by (simp add: hex2_def digit)
qed

lemma length_hex2 [simp]: "length (hex2 b) = 2"
  by (simp add: hex2_def)

lemma hex2_ascii: "c \<in> set (hex2 b) \<Longrightarrow> c < 128"
proof -
  have "unat b div 16 < 16"
    using unsigned_less [of b, where ?'a = nat] by simp
  then show "c \<in> set (hex2 b) \<Longrightarrow> c < 128"
    by (auto simp: hex2_def hex_digit_def split: if_splits)
qed

section \<open>Facts about the functions\<close>

lemma split_once_eq: "split_once c s = Some (a, b) \<Longrightarrow> s = a @ c # b \<and> c \<notin> set a"
  by (induction s arbitrary: a) (auto split: if_splits option.splits)

lemma split_once_append: "c \<notin> set a \<Longrightarrow> split_once c (a @ c # b) = Some (a, b)"
  by (induction a) auto

lemma rsplit_once_eq:
  assumes "rsplit_once c s = Some (a, b)"
  shows "s = a @ c # b \<and> c \<notin> set b"
proof -
  obtain x y where "split_once c (rev s) = Some (x, y)" "a = rev y" "b = rev x"
    using assms by (auto simp: rsplit_once_def split: option.splits)
  then have "rev s = x @ c # y" "c \<notin> set x"
    by (auto dest: split_once_eq)
  then show ?thesis
    using \<open>a = rev y\<close> \<open>b = rev x\<close> by (metis rev_append rev_rev_ident rev.simps(2) append_assoc
        append_Cons append_Nil set_rev)
qed

lemma split_on_parts: "p \<in> set (split_on c s) \<Longrightarrow> set p \<subseteq> set s - {c}"
proof (induction s arbitrary: p)
  case (Cons x xs)
  then show ?case
    by (cases "split_on c xs") (force split: if_splits)+
qed auto

lemma split_on_not_Nil [simp]: "split_on c s \<noteq> []"
  by (induction s) (auto split: list.splits)

lemma utf8_len_ge: "length s \<le> utf8_len s"
  by (induction s) (auto simp: utf8_len_def utf8_len_char_def)

lemma utf8_len_ascii: "(\<And>c. c \<in> set s \<Longrightarrow> c < 128) \<Longrightarrow> utf8_len s = length s"
  by (induction s) (auto simp: utf8_len_def utf8_len_char_def)

lemma utf8_len_append [simp]: "utf8_len (a @ b) = utf8_len a + utf8_len b"
  by (simp add: utf8_len_def)

lemma utf8_len_Nil [simp]: "utf8_len [] = 0"
  by (simp add: utf8_len_def)

lemma lit_Nil [simp]: "lit [] = []"
  by (simp add: lit_def)

lemma lit_Cons [simp]: "lit (c # cs) = of_char c # lit cs"
  by (simp add: lit_def)

end
