(* ===== verification/Accounts_Policy.thy ===== *)
theory Accounts_Policy
  imports Text_Basics
begin

text \<open>
  Who may connect and what they may do (\<open>accounts/src/policy.rs\<close>, \<open>Account\<close> and \<open>Method\<close> of
  \<open>accounts/src/lib.rs\<close>): the ordered rules, the decision, the window limits, and the two glob
  matchers of the program, the loop of the accounts crate and the recursion of the protocol crate
  (\<open>protocol/src/files.rs\<close>). \<open>lower\<close> is the standard library's \<open>to_lowercase\<close>.
\<close>

section \<open>Accounts\<close>

datatype sign_method = Password | Oidc | Kerberos

fun method_name :: "sign_method \<Rightarrow> rstr" where
  "method_name Password = lit ''password''"
| "method_name Oidc = lit ''oidc''"
| "method_name Kerberos = lit ''kerberos''"

record account =
  acc_name :: rstr
  acc_groups :: "rstr list"
  acc_method :: sign_method
  acc_provider :: rstr

section \<open>The two glob matchers\<close>

text \<open>
  The loop of \<open>policy::glob\<close> on the lower-cased pattern and text: \<open>pi\<close> and \<open>ti\<close> are the
  positions, \<open>star\<close> the last star with the place its run ends. \<open>None\<close> is a loop that never ends.
\<close>

partial_function (option) glob_loop ::
  "nat list \<Rightarrow> nat list \<Rightarrow> nat \<Rightarrow> nat \<Rightarrow> (nat \<times> nat) option \<Rightarrow> bool option" where
  "glob_loop p t pi ti star =
     (if ti < length t
      then if pi < length p \<and> (p ! pi = 63 \<or> p ! pi = t ! ti) then glob_loop p t (pi + 1) (ti + 1) star
           else if pi < length p \<and> p ! pi = 42 then glob_loop p t (pi + 1) ti (Some (pi, ti))
           else (case star of
               Some (sp, st) \<Rightarrow> glob_loop p t (sp + 1) (st + 1) (Some (sp, st + 1))
             | None \<Rightarrow> Some False)
      else Some (list_all (\<lambda>c. c = 42) (drop pi p)))"

definition policy_glob :: "(rstr \<Rightarrow> rstr) \<Rightarrow> rstr \<Rightarrow> rstr \<Rightarrow> bool option" where
  "policy_glob lower pattern txt = glob_loop (lower pattern) (lower txt) 0 0 None"

text \<open>\<open>glob_matches\<close> of the protocol crate: \<open>go\<close> tries every run for a star.\<close>

fun glob_go :: "nat list \<Rightarrow> nat list \<Rightarrow> bool" where
  "glob_go [] n = (n = [])"
| "glob_go (c # rest) n =
     (if c = 42 then list_ex (\<lambda>skip. glob_go rest (drop skip n)) [0..<length n + 1]
      else if c = 63 then n \<noteq> [] \<and> glob_go rest (tl n)
      else n \<noteq> [] \<and> hd n = c \<and> glob_go rest (tl n))"

definition glob_matches :: "(rstr \<Rightarrow> rstr) \<Rightarrow> rstr \<Rightarrow> rstr \<Rightarrow> bool" where
  "glob_matches lower pattern name = glob_go (lower pattern) (lower name)"

text \<open>The result of the loop, which always ends (shown below).\<close>

definition glob :: "(rstr \<Rightarrow> rstr) \<Rightarrow> rstr \<Rightarrow> rstr \<Rightarrow> bool" where
  "glob lower pattern txt = (policy_glob lower pattern txt = Some True)"

section \<open>Rules and decisions\<close>

record rule =
  rl_who :: "rstr list"
  rl_hosts :: "rstr list"
  rl_allow :: bool
  rl_windows :: "rstr list"
  rl_input :: "bool option"
  rl_commands :: "bool option"

definition rule_default :: rule where
  "rule_default = \<lparr>rl_who = [], rl_hosts = [], rl_allow = True, rl_windows = [],
     rl_input = None, rl_commands = None\<rparr>"

record policy =
  rules :: "rule list"

record decision =
  dn_allow :: bool
  dn_windows :: "rstr list"
  dn_input :: "bool option"
  dn_commands :: "bool option"
  dn_device_windows :: "rstr list"

definition passes :: "(rstr \<Rightarrow> rstr) \<Rightarrow> rstr list \<Rightarrow> rstr \<Rightarrow> rstr \<Rightarrow> bool" where
  "passes lower globs app_id title =
     (globs = [] \<or> list_ex (\<lambda>pattern. glob lower pattern app_id \<or> glob lower pattern title) globs)"

definition window_allowed :: "(rstr \<Rightarrow> rstr) \<Rightarrow> decision \<Rightarrow> rstr \<Rightarrow> rstr \<Rightarrow> bool" where
  "window_allowed lower d app_id title =
     (passes lower (dn_windows d) app_id title \<and> passes lower (dn_device_windows d) app_id title)"

definition limited_to :: "decision \<Rightarrow> rstr list \<Rightarrow> decision" where
  "limited_to d globs = d\<lparr>dn_device_windows := globs\<rparr>"

definition who_matches :: "rstr \<Rightarrow> account option \<Rightarrow> bool" where
  "who_matches who acc =
     (if who = lit ''*'' then True
      else case split_once 58 who of
        None \<Rightarrow> False
      | Some (kind, value) \<Rightarrow>
          (case acc of
             None \<Rightarrow> kind = lit ''method'' \<and> value = lit ''pin''
           | Some a \<Rightarrow>
               if kind = lit ''method'' then value = method_name (acc_method a)
               else if kind = lit ''user'' then value = acc_name a
               else if kind = lit ''group'' then list_ex (\<lambda>g. g = value) (acc_groups a)
               else if kind = lit ''provider'' then value = acc_provider a
               else False))"

definition rule_applies :: "(rstr \<Rightarrow> rstr) \<Rightarrow> account option \<Rightarrow> rstr \<Rightarrow> rule \<Rightarrow> bool" where
  "rule_applies lower acc host r =
     ((rl_hosts r = [] \<or> list_ex (\<lambda>h. glob lower h host) (rl_hosts r))
      \<and> list_ex (\<lambda>who. who_matches who acc) (rl_who r))"

definition decide :: "(rstr \<Rightarrow> rstr) \<Rightarrow> policy \<Rightarrow> account option \<Rightarrow> rstr \<Rightarrow> decision" where
  "decide lower p acc host =
     (if rules p = []
      then \<lparr>dn_allow = True, dn_windows = [], dn_input = None, dn_commands = None,
             dn_device_windows = []\<rparr>
      else case find (rule_applies lower acc host) (rules p) of
        Some r \<Rightarrow> \<lparr>dn_allow = rl_allow r, dn_windows = rl_windows r, dn_input = rl_input r,
                     dn_commands = rl_commands r, dn_device_windows = []\<rparr>
      | None \<Rightarrow> \<lparr>dn_allow = False, dn_windows = [], dn_input = Some False, dn_commands = Some False,
                  dn_device_windows = []\<rparr>)"

section \<open>The loop against the recursion\<close>

lemma glob_go_star_Nil: "glob_go (42 # r) [] = glob_go r []"
  by simp

lemma glob_go_star: "glob_go (42 # r) n \<longleftrightarrow> (\<exists>k\<le>length n. glob_go r (drop k n))"
proof -
  have "glob_go (42 # r) n \<longleftrightarrow> (\<exists>k\<in>set [0..<length n + 1]. glob_go r (drop k n))"
    by (simp only: glob_go.simps list_ex_iff if_True refl)
  then show ?thesis
    by (simp del: glob_go.simps upt_Suc add: less_Suc_eq_le Bex_def)
qed

lemma glob_go_literal:
  "c \<noteq> 42 \<Longrightarrow> glob_go (c # r) n \<longleftrightarrow> n \<noteq> [] \<and> (c = 63 \<or> hd n = c) \<and> glob_go r (tl n)"
  by auto

lemma glob_go_Nil_right: "glob_go p [] \<longleftrightarrow> list_all (\<lambda>c. c = 42) p"
  by (induction p) auto

text \<open>A part of the pattern without stars is as long as what it matches.\<close>

lemma glob_go_segment:
  "glob_go (seg @ r) u \<Longrightarrow> 42 \<notin> set seg \<Longrightarrow> length seg \<le> length u \<and> glob_go r (drop (length seg) u)"
proof (induction seg arbitrary: u)
  case (Cons c seg)
  then have "c \<noteq> 42"
    by auto
  with Cons.prems have "u \<noteq> []" "glob_go (seg @ r) (tl u)"
    using glob_go_literal [of c "seg @ r" u] by simp_all
  with Cons.IH [of "tl u"] Cons.prems show ?case
    by (cases u) auto
qed simp

lemma glob_go_star_drop:
  "glob_go (42 # r) (drop n u) \<Longrightarrow> m \<le> n \<Longrightarrow> n \<le> length u \<Longrightarrow> glob_go (42 # r) (drop m u)"
proof -
  assume h: "glob_go (42 # r) (drop n u)" "m \<le> n" "n \<le> length u"
  then obtain k where k: "k \<le> length u - n" "glob_go r (drop k (drop n u))"
    using glob_go_star [of r "drop n u"] by (metis length_drop)
  have "drop (k + (n - m)) (drop m u) = drop k (drop n u)" "k + (n - m) \<le> length (drop m u)"
    using h k(1) by simp_all
  with k(2) show ?thesis
    using glob_go_star by metis
qed

text \<open>
  What the loop keeps. The positions: the last star lies before the pattern's position, and since
  then the loop read as many characters of the text as of the pattern. When the text has no star,
  the part of the pattern it read since then has none either.
\<close>

definition pos_ok :: "nat list \<Rightarrow> nat list \<Rightarrow> nat \<Rightarrow> nat \<Rightarrow> (nat \<times> nat) option \<Rightarrow> bool" where
  "pos_ok p t pi ti star =
     (pi \<le> length p \<and> ti \<le> length t \<and>
      (case star of None \<Rightarrow> True | Some (sp, st) \<Rightarrow> sp < pi \<and> st \<le> ti \<and> ti - st = pi - sp - 1))"

definition seg_ok :: "nat list \<Rightarrow> nat \<Rightarrow> (nat \<times> nat) option \<Rightarrow> bool" where
  "seg_ok p pi star = (case star of None \<Rightarrow> True | Some (sp, st) \<Rightarrow> 42 \<notin> set (subslice p (sp + 1) pi))"

definition later_star :: "nat list \<Rightarrow> nat list \<Rightarrow> (nat \<times> nat) option \<Rightarrow> bool" where
  "later_star p t star =
     (case star of
        None \<Rightarrow> False
      | Some (sp, st) \<Rightarrow> \<exists>k>st. k \<le> length t \<and> glob_go (drop (sp + 1) p) (drop k t))"

definition glob_order ::
  "nat list \<Rightarrow> nat list \<Rightarrow> ((nat \<times> nat \<times> (nat \<times> nat) option) \<times> nat \<times> nat \<times> (nat \<times> nat) option) set" where
  "glob_order p t = inv_image (less_than <*lex*> less_than)
     (\<lambda>(pi, ti, star). (case star of None \<Rightarrow> length t + 1 | Some (sp, st) \<Rightarrow> length t - st,
        (length t - ti) + (length p - pi)))"

lemma wf_glob_order: "wf (glob_order p t)"
  unfolding glob_order_def by (intro wf_inv_image wf_lex_prod wf_less_than)

lemma glob_advance:
  "pos_ok p t pi ti star \<Longrightarrow> ti < length t \<Longrightarrow> pi < length p \<Longrightarrow>
   pos_ok p t (pi + 1) (ti + 1) star \<and> ((pi + 1, ti + 1, star), (pi, ti, star)) \<in> glob_order p t"
  by (auto simp: pos_ok_def glob_order_def split: option.splits)

lemma glob_star:
  "pos_ok p t pi ti star \<Longrightarrow> ti < length t \<Longrightarrow> pi < length p \<Longrightarrow>
   pos_ok p t (pi + 1) ti (Some (pi, ti)) \<and> ((pi + 1, ti, Some (pi, ti)), (pi, ti, star)) \<in> glob_order p t"
  by (auto simp: pos_ok_def glob_order_def split: option.splits)

lemma glob_back:
  "pos_ok p t pi ti (Some (sp, st)) \<Longrightarrow> ti < length t \<Longrightarrow>
   pos_ok p t (sp + 1) (st + 1) (Some (sp, st + 1))
   \<and> ((sp + 1, st + 1, Some (sp, st + 1)), (pi, ti, Some (sp, st))) \<in> glob_order p t"
  by (auto simp: pos_ok_def glob_order_def)

lemma glob_loop_total:
  "pos_ok p t pi ti star \<Longrightarrow> \<exists>b. glob_loop p t pi ti star = Some b"
proof (induction "(pi, ti, star)" arbitrary: pi ti star rule: wf_induct_rule [OF wf_glob_order [of p t]])
  case 1
  note adv = 1(1) [OF conjunct2 [OF glob_advance [OF 1(2)]] conjunct1 [OF glob_advance [OF 1(2)]]]
  note str = 1(1) [OF conjunct2 [OF glob_star [OF 1(2)]] conjunct1 [OF glob_star [OF 1(2)]]]
  note unfold = glob_loop.simps [of p t pi ti star]
  show ?case
  proof (cases "ti < length t \<and> \<not> (pi < length p \<and> (p ! pi = 63 \<or> p ! pi = t ! ti)) \<and> \<not> (pi < length p \<and> p ! pi = 42)")
    case False
    then show ?thesis
      unfolding unfold using adv str by auto
  next
    case stuck: True
    then show ?thesis
    proof (cases star)
      case (Some x)
      obtain sp st where x: "x = (sp, st)"
        by (cases x) auto
      have "pos_ok p t pi ti (Some (sp, st))"
        using 1(2) Some x by simp
      then have "\<exists>b. glob_loop p t (sp + 1) (st + 1) (Some (sp, st + 1)) = Some b"
        using 1(1) [of "sp + 1" "st + 1" "Some (sp, st + 1)"] glob_back [of p t pi ti sp st] stuck Some x by auto
      then show ?thesis
        unfolding unfold using stuck Some x by auto
    qed (use unfold in auto)
  qed
qed

lemma glob_go_at:
  assumes "i < length p" "j < length t" "p ! i \<noteq> 42"
  shows "glob_go (drop i p) (drop j t) \<longleftrightarrow>
     (p ! i = 63 \<or> p ! i = t ! j) \<and> glob_go (drop (i + 1) p) (drop (j + 1) t)"
proof -
  have "drop i p = p ! i # drop (i + 1) p" "drop j t = t ! j # drop (j + 1) t"
    using assms by (simp_all add: Cons_nth_drop_Suc)
  then show ?thesis
    using assms(3) by auto
qed

lemma later_star_drop:
  assumes "pos_ok p t pi ti (Some (sp, st))" "seg_ok p pi (Some (sp, st))"
    and "st < k" "k \<le> length t" "glob_go (drop (sp + 1) p) (drop k t)"
  shows "ti < k + (pi - sp - 1)" "k + (pi - sp - 1) \<le> length t"
    "glob_go (drop pi p) (drop (k + (pi - sp - 1)) t)"
proof -
  let ?seg = "subslice p (sp + 1) pi"
  have len: "length ?seg = pi - sp - 1" "sp + 1 \<le> pi"
    using assms(1) by (auto simp: pos_ok_def)
  have "glob_go (?seg @ drop pi p) (drop k t)"
    using assms(5) drop_subslice [OF len(2), of p] by simp
  from glob_go_segment [OF this] assms(2)
  have seg: "length ?seg \<le> length (drop k t)" "glob_go (drop pi p) (drop (length ?seg) (drop k t))"
    by (simp_all add: seg_ok_def)
  then show "k + (pi - sp - 1) \<le> length t" "glob_go (drop pi p) (drop (k + (pi - sp - 1)) t)"
    using len assms(4) by (simp_all add: add.commute)
  show "ti < k + (pi - sp - 1)"
    using assms(1,3) by (auto simp: pos_ok_def)
qed

lemma later_star_end:
  assumes "pos_ok p t pi (length t) star" "seg_ok p pi star"
  shows "\<not> later_star p t star"
  using later_star_drop(1,2) assms
  by (fastforce simp: later_star_def split: option.splits)

lemma later_star_here:
  assumes "pos_ok p t pi ti star" "seg_ok p pi star" "pi < length p" "p ! pi = 42" "later_star p t star"
  shows "glob_go (drop pi p) (drop ti t)"
proof -
  obtain sp st k where star: "star = Some (sp, st)"
    and k: "st < k" "k \<le> length t" "glob_go (drop (sp + 1) p) (drop k t)"
    using assms(5) by (auto simp: later_star_def split: option.splits)
  have "drop pi p = 42 # drop (pi + 1) p"
    using assms(3,4) by (metis Cons_nth_drop_Suc Suc_eq_plus1)
  then show ?thesis
    using later_star_drop [OF assms(1) [unfolded star] assms(2) [unfolded star] k]
    by (auto intro: glob_go_star_drop simp del: glob_go.simps)
qed

lemma glob_go_later:
  assumes "ti \<le> length t" "pi < length p" "p ! pi = 42"
  shows "glob_go (drop pi p) (drop ti t) \<longleftrightarrow>
     glob_go (drop (pi + 1) p) (drop ti t) \<or> later_star p t (Some (pi, ti))"
proof -
  have "drop pi p = 42 # drop (pi + 1) p"
    using assms(2,3) by (metis Cons_nth_drop_Suc Suc_eq_plus1)
  then have "glob_go (drop pi p) (drop ti t) \<longleftrightarrow>
      (\<exists>k\<le>length t - ti. glob_go (drop (pi + 1) p) (drop (k + ti) t))"
    using glob_go_star [of "drop (pi + 1) p" "drop ti t"] by simp
  also have "\<dots> \<longleftrightarrow> (\<exists>k\<ge>ti. k \<le> length t \<and> glob_go (drop (pi + 1) p) (drop k t))"
    using assms(1) by (metis diff_add_inverse2 le_add2 le_diff_conv2 le_add_diff_inverse2)
  also have "\<dots> \<longleftrightarrow> glob_go (drop (pi + 1) p) (drop ti t) \<or> later_star p t (Some (pi, ti))"
    using assms(1) by (auto simp: later_star_def le_less)
  finally show ?thesis .
qed

lemma later_star_back:
  "st < length t \<Longrightarrow> later_star p t (Some (sp, st)) \<longleftrightarrow>
     glob_go (drop (sp + 1) p) (drop (st + 1) t) \<or> later_star p t (Some (sp, st + 1))"
  by (auto simp: later_star_def) (metis Suc_lessI, metis Suc_lessD)

lemma glob_loop_correct:
  assumes "42 \<notin> set t" "pos_ok p t pi ti star" "seg_ok p pi star"
  shows "glob_loop p t pi ti star = Some (glob_go (drop pi p) (drop ti t) \<or> later_star p t star)"
  using assms(2,3)
proof (induction "(pi, ti, star)" arbitrary: pi ti star rule: wf_induct_rule [OF wf_glob_order [of p t]])
  case 1
  note unfold = glob_loop.simps [of p t pi ti star]
  have bounds: "pi \<le> length p" "ti \<le> length t"
    using 1(2) by (simp_all add: pos_ok_def)
  consider (fin) "ti = length t"
    | (adv) "ti < length t" "pi < length p" "p ! pi = 63 \<or> p ! pi = t ! ti"
    | (str) "ti < length t" "pi < length p" "\<not> (p ! pi = 63 \<or> p ! pi = t ! ti)" "p ! pi = 42"
    | (stuck) "ti < length t" "\<not> (pi < length p \<and> (p ! pi = 63 \<or> p ! pi = t ! ti))"
        "\<not> (pi < length p \<and> p ! pi = 42)"
    using bounds by linarith
  then show ?case
  proof cases
    case fin
    then show ?thesis
      unfolding unfold using 1(2,3) later_star_end by (simp add: glob_go_Nil_right)
  next
    case adv
    have lit: "p ! pi \<noteq> 42"
      using adv assms(1) nth_mem [OF adv(1)] by (elim disjE) (simp, metis)
    have "seg_ok p (pi + 1) star"
      using 1(2,3) lit adv(2) by (auto simp: seg_ok_def pos_ok_def subslice_snoc split: option.splits)
    then have "glob_loop p t (pi + 1) (ti + 1) star =
        Some (glob_go (drop (pi + 1) p) (drop (ti + 1) t) \<or> later_star p t star)"
      using 1(1) glob_advance [OF 1(2) adv(1,2)] by blast
    then show ?thesis
      unfolding unfold using adv glob_go_at [OF adv(2,1) lit] by simp
  next
    case str
    have "seg_ok p (pi + 1) (Some (pi, ti))"
      by (simp add: seg_ok_def subslice_def)
    then have "glob_loop p t (pi + 1) ti (Some (pi, ti)) =
        Some (glob_go (drop (pi + 1) p) (drop ti t) \<or> later_star p t (Some (pi, ti)))"
      using 1(1) glob_star [OF 1(2) str(1,2)] by blast
    then show ?thesis
      unfolding unfold
      using str glob_go_later [OF bounds(2) str(2,4)] later_star_here [OF 1(2,3) str(2,4)] by auto
  next
    case stuck
    have no: "\<not> glob_go (drop pi p) (drop ti t)"
    proof (cases "pi < length p")
      case True
      then show ?thesis
        using stuck glob_go_at [OF True stuck(1)] by simp
    next
      case False
      then show ?thesis
        using stuck(1) by simp
    qed
    show ?thesis
    proof (cases star)
      case None
      then show ?thesis
        unfolding unfold using stuck no by (auto simp: later_star_def)
    next
      case (Some x)
      obtain sp st where star: "star = Some (sp, st)"
        using Some by (cases x) auto
      have "pos_ok p t pi ti (Some (sp, st))" "st < length t"
        using 1(2) stuck(1) by (simp_all add: pos_ok_def star)
      moreover have "seg_ok p (sp + 1) (Some (sp, st + 1))"
        by (simp add: seg_ok_def subslice_def)
      ultimately have "glob_loop p t (sp + 1) (st + 1) (Some (sp, st + 1)) = Some (later_star p t star)"
        using 1(1) glob_back [of p t pi ti sp st] stuck(1) later_star_back [of st t p sp] star by simp
      then show ?thesis
        unfolding unfold using stuck no star by auto
    qed
  qed
qed

text \<open>
  The policy's glob always gives an answer: its loop ends on every pattern and text.
\<close>

theorem policy_glob_terminates: "\<exists>b. policy_glob lower pattern txt = Some b"
  by (simp add: policy_glob_def glob_loop_total pos_ok_def)

text \<open>
  C39. On a text without a star the policy's backtracking loop computes what the protocol's recursive
  matcher computes, for every pattern.
\<close>

theorem policy_glob_is_glob_matches:
  assumes "42 \<notin> set (lower txt)"
  shows "policy_glob lower pattern txt = Some (glob_matches lower pattern txt)"
proof -
  have "pos_ok (lower pattern) (lower txt) 0 0 None" "seg_ok (lower pattern) 0 None"
    by (simp_all add: pos_ok_def seg_ok_def)
  from glob_loop_correct [OF assms this] show ?thesis
    by (simp add: policy_glob_def glob_matches_def later_star_def)
qed

theorem policy_glob_is_glob_matches_witness:
  "policy_glob ascii_lowercase (lit ''*Terminal*'') (lit ''Windows Terminal - bash'')
     = Some (glob_matches ascii_lowercase (lit ''*Terminal*'') (lit ''Windows Terminal - bash''))"
  by (rule policy_glob_is_glob_matches) code_simp

text \<open>
  A star in the text is taken for a literal: the pattern that matches everything does not match a
  text that starts with a star and goes on, though the protocol's matcher does.
\<close>

theorem glob_misses_star:
  "policy_glob ascii_lowercase (lit ''*'') (lit ''*Untitled'') = Some False
   \<and> glob_matches ascii_lowercase (lit ''*'') (lit ''*Untitled'')"
proof -
  have "policy_glob ascii_lowercase (lit ''*'') (lit ''*Untitled'') = Some False"
    by (simp add: policy_glob_def ascii_lowercase_def ascii_lower_def glob_loop.simps)
  moreover have "glob_matches ascii_lowercase (lit ''*'') (lit ''*Untitled'')"
    by code_simp
  ultimately show ?thesis ..
qed

end
