(* ===== verification/Identity.thy ===== *)
theory Identity
  imports Text_Basics
begin

text \<open>
  Device keys and the list of trusted devices (\<open>identity/src/lib.rs\<close>): the hexadecimal form of a
  key and the \<open>TrustStore\<close> with its file. Ed25519 itself is a third-party crate; a \<open>peer_id\<close> is
  the 32 bytes of its public key. A panic of the source is the outer \<open>None\<close>.
\<close>

section \<open>Hexadecimal keys\<close>

datatype identity_error = Io | Corrupt

type_synonym peer_id = bytes

definition to_hex :: "peer_id \<Rightarrow> rstr" where
  "to_hex p = concat (map hex2 p)"

text \<open>
  \<open>&s[i..i + 2]\<close> counts bytes and panics inside a character: the first two bytes of a text and what
  follows them.
\<close>

fun two_bytes :: "rstr \<Rightarrow> (rstr \<times> rstr) option" where
  "two_bytes [] = None"
| "two_bytes (c # s) =
     (if utf8_len_char c = 2 then Some ([c], s)
      else case s of
        [] \<Rightarrow> None
      | d # s \<Rightarrow> if utf8_len_char c = 1 \<and> utf8_len_char d = 1 then Some ([c, d], s) else None)"

text \<open>The loop of \<open>from_hex\<close> over \<open>n\<close> bytes: \<open>None\<close> is a panic.\<close>

fun hex_bytes :: "nat \<Rightarrow> rstr \<Rightarrow> (identity_error + peer_id) option" where
  "hex_bytes 0 s = Some (Inr [])"
| "hex_bytes (Suc n) s =
     (case two_bytes s of
        None \<Rightarrow> None
      | Some (digits, rest) \<Rightarrow>
          (case radix16_u8 digits of
             None \<Rightarrow> Some (Inl Corrupt)
           | Some b \<Rightarrow>
               (case hex_bytes n rest of
                  None \<Rightarrow> None
                | Some (Inl e) \<Rightarrow> Some (Inl e)
                | Some (Inr bs) \<Rightarrow> Some (Inr (b # bs)))))"

definition from_hex :: "rstr \<Rightarrow> (identity_error + peer_id) option" where
  "from_hex s = (if utf8_len s \<noteq> 64 then Some (Inl Corrupt) else hex_bytes 32 s)"

section \<open>The trust store\<close>

record trust_store =
  pinned :: "peer_id set"

text \<open>\<open>str::lines\<close>: a last line without an end counts, an empty one after the last end does not.\<close>

definition strip_cr :: "rstr \<Rightarrow> rstr" where
  "strip_cr l = (if l \<noteq> [] \<and> last l = 13 then butlast l else l)"

definition lines_of :: "rstr \<Rightarrow> rstr list" where
  "lines_of s =
     (let parts = split_on 10 s
      in map strip_cr (if last parts = [] then butlast parts else parts))"

text \<open>The loop of \<open>TrustStore::load\<close> over the lines, in order, stopping at the first bad one.\<close>

fun load_lines :: "rstr list \<Rightarrow> peer_id set \<Rightarrow> (identity_error + peer_id set) option" where
  "load_lines [] ps = Some (Inr ps)"
| "load_lines (l # ls) ps =
     (if trim l = [] then load_lines ls ps
      else case from_hex (trim l) of
        None \<Rightarrow> None
      | Some (Inl e) \<Rightarrow> Some (Inl e)
      | Some (Inr p) \<Rightarrow> load_lines ls (insert p ps))"

text \<open>The contents are what \<open>read_to_string\<close> gives: \<open>None\<close> when it cannot be read.\<close>

definition trust_load :: "rstr option \<Rightarrow> (identity_error + trust_store) option" where
  "trust_load disk =
     (case disk of
        None \<Rightarrow> Some (Inr \<lparr>pinned = {}\<rparr>)
      | Some contents \<Rightarrow>
          (case load_lines (lines_of contents) {} of
             None \<Rightarrow> None
           | Some (Inl e) \<Rightarrow> Some (Inl e)
           | Some (Inr ps) \<Rightarrow> Some (Inr \<lparr>pinned = ps\<rparr>)))"

text \<open>
  \<open>save\<close> writes a temporary file and renames it over the list. \<open>io\<close> says whether the two calls
  succeed, \<open>order\<close> is the order in which the \<open>HashSet\<close> is walked.
\<close>

definition trust_contents :: "peer_id list \<Rightarrow> rstr" where
  "trust_contents ps = concat (map (\<lambda>p. to_hex p @ [10]) ps)"

definition trust_save ::
  "(peer_id set \<Rightarrow> peer_id list) \<Rightarrow> bool \<times> bool \<Rightarrow> trust_store \<Rightarrow> rstr option \<Rightarrow>
     (identity_error + unit) \<times> rstr option" where
  "trust_save order io store disk =
     (let contents = trust_contents (order (pinned store))
      in if \<not> fst io then (Inl Io, disk)
         else if \<not> snd io then (Inl Io, disk)
         else (Inr (), Some contents))"

definition trust_pin :: "peer_id \<Rightarrow> trust_store \<Rightarrow> trust_store" where
  "trust_pin p store = store\<lparr>pinned := insert p (pinned store)\<rparr>"

definition trust_revoke :: "peer_id \<Rightarrow> trust_store \<Rightarrow> trust_store" where
  "trust_revoke p store = store\<lparr>pinned := pinned store - {p}\<rparr>"

definition is_pinned :: "trust_store \<Rightarrow> peer_id \<Rightarrow> bool" where
  "is_pinned store p = (p \<in> pinned store)"

definition trust_update ::
  "(peer_id set \<Rightarrow> peer_id list) \<Rightarrow> bool \<times> bool \<Rightarrow> (trust_store \<Rightarrow> trust_store) \<Rightarrow> rstr option \<Rightarrow>
     ((identity_error + trust_store) \<times> rstr option) option" where
  "trust_update order io change disk =
     (case trust_load disk of
        None \<Rightarrow> None
      | Some (Inl e) \<Rightarrow> Some (Inl e, disk)
      | Some (Inr store) \<Rightarrow>
          let store = change store
          in case trust_save order io store disk of
               (Inl e, disk) \<Rightarrow> Some (Inl e, disk)
             | (Inr _, disk) \<Rightarrow> Some (Inr store, disk))"

section \<open>Reading back what was written\<close>

lemma length_to_hex: "length (to_hex p) = 2 * length p"
  by (induction p) (auto simp: to_hex_def)

lemma to_hex_ascii: "c \<in> set (to_hex p) \<Longrightarrow> c < 128"
  by (auto simp: to_hex_def dest: hex2_ascii)

lemma two_bytes_hex2: "two_bytes (hex2 b @ s) = Some (hex2 b, s)"
proof -
  obtain x y where xy: "hex2 b = [x, y]"
    by (simp add: hex2_def)
  then have "x < 128" "y < 128"
    using hex2_ascii [of _ b] by auto
  then show ?thesis
    by (simp add: xy utf8_len_char_def)
qed

lemma hex_bytes_to_hex: "hex_bytes (length p) (to_hex p) = Some (Inr p)"
  by (induction p) (simp_all add: to_hex_def two_bytes_hex2)

lemma from_hex_to_hex: "length p = 32 \<Longrightarrow> from_hex (to_hex p) = Some (Inr p)"
  using hex_bytes_to_hex [of p] utf8_len_ascii [of "to_hex p"] to_hex_ascii
  by (simp add: from_hex_def length_to_hex)

lemma hex_digit_range: "n < 16 \<Longrightarrow> 48 \<le> hex_digit n \<and> hex_digit n \<le> 57 \<or> 97 \<le> hex_digit n \<and> hex_digit n \<le> 102"
  by (simp add: hex_digit_def)

lemma to_hex_range: "c \<in> set (to_hex p) \<Longrightarrow> 48 \<le> c \<and> c \<le> 57 \<or> 97 \<le> c \<and> c \<le> 102"
proof -
  have "unat b div 16 < 16" for b :: u8
    using unsigned_less [of b, where ?'a = nat] by simp
  then have "c \<in> set (hex2 b) \<Longrightarrow> 48 \<le> c \<and> c \<le> 57 \<or> 97 \<le> c \<and> c \<le> 102" for b
    using hex_digit_range [of "unat b div 16"] hex_digit_range [of "unat b mod 16"]
    unfolding hex2_def by auto
  then show "c \<in> set (to_hex p) \<Longrightarrow> ?thesis"
    unfolding to_hex_def by auto
qed

lemma to_hex_chars: "c \<in> set (to_hex p) \<Longrightarrow> c \<noteq> 10 \<and> c \<noteq> 13 \<and> \<not> is_whitespace c"
  by (drule to_hex_range) (auto simp: is_whitespace_def)

lemma trim_hex: "trim (to_hex p) = to_hex p"
proof -
  have id: "dropWhile is_whitespace s = s" if "\<And>c. c \<in> set s \<Longrightarrow> \<not> is_whitespace c" for s
    using that by (cases s) auto
  have plain: "\<And>c. c \<in> set (to_hex p) \<Longrightarrow> \<not> is_whitespace c"
    using to_hex_chars by blast
  then have "dropWhile is_whitespace (rev (to_hex p)) = rev (to_hex p)"
    by (intro id) simp
  then show ?thesis
    by (simp add: trim_def trim_matches_def id plain)
qed

lemma split_on_lines:
  "\<forall>l\<in>set ls. c \<notin> set l \<Longrightarrow> split_on c (concat (map (\<lambda>l. l @ [c]) ls)) = ls @ [[]]"
proof (induction ls)
  case (Cons l ls)
  have "split_on c (l @ c # s) = l # split_on c s" if "c \<notin> set l" for l s
    using that by (induction l) auto
  with Cons show ?case by simp
qed simp

lemma lines_of_contents: "lines_of (trust_contents ps) = map to_hex ps"
proof -
  have "split_on 10 (trust_contents ps) = map to_hex ps @ [[]]"
    using split_on_lines [of "map to_hex ps" 10] to_hex_chars
    by (force simp: trust_contents_def comp_def)
  moreover have "strip_cr (to_hex p) = to_hex p" for p
  proof -
    have "to_hex p \<noteq> [] \<Longrightarrow> last (to_hex p) \<noteq> 13"
      using to_hex_chars last_in_set by blast
    then show ?thesis
      by (cases "to_hex p = []") (simp_all add: strip_cr_def)
  qed
  ultimately show ?thesis
    by (simp add: lines_of_def Let_def)
qed

lemma load_lines_hex:
  "\<forall>p\<in>set ps. length p = 32 \<Longrightarrow> load_lines (map to_hex ps) acc = Some (Inr (acc \<union> set ps))"
proof (induction ps arbitrary: acc)
  case (Cons p ps)
  then have "to_hex p \<noteq> []"
    using length_to_hex [of p] by auto
  with Cons show ?case
    by (simp add: trim_hex from_hex_to_hex)
qed simp

lemma trust_load_contents:
  "\<forall>p\<in>set ps. length p = 32 \<Longrightarrow> trust_load (Some (trust_contents ps)) = Some (Inr \<lparr>pinned = set ps\<rparr>)"
  by (simp add: trust_load_def lines_of_contents load_lines_hex)

section \<open>Histories of updates\<close>

text \<open>One call of \<open>TrustStore::update\<close> by some process, as the host application makes them.\<close>

datatype trust_op = Pin peer_id | Revoke peer_id

fun op_change :: "trust_op \<Rightarrow> trust_store \<Rightarrow> trust_store" where
  "op_change (Pin p) = trust_pin p"
| "op_change (Revoke p) = trust_revoke p"

fun op_peer :: "trust_op \<Rightarrow> peer_id" where
  "op_peer (Pin p) = p"
| "op_peer (Revoke p) = p"

text \<open>The contents of the file after a history; \<open>None\<close> when a call panicked.\<close>

fun run_updates ::
  "(trust_op \<times> (peer_id set \<Rightarrow> peer_id list) \<times> bool \<times> bool) list \<Rightarrow> rstr option \<Rightarrow> rstr option option" where
  "run_updates [] disk = Some disk"
| "run_updates ((c, order, io) # rest) disk =
     (case trust_update order io (op_change c) disk of
        None \<Rightarrow> None
      | Some (_, disk) \<Rightarrow> run_updates rest disk)"

text \<open>The last change of \<open>p\<close> that reached the disk.\<close>

definition last_change ::
  "peer_id \<Rightarrow> (trust_op \<times> (peer_id set \<Rightarrow> peer_id list) \<times> bool \<times> bool) list \<Rightarrow> trust_op option" where
  "last_change p ops =
     (let mine = filter (\<lambda>(c, order, io). op_peer c = p \<and> fst io \<and> snd io) ops
      in if mine = [] then None else Some (fst (last mine)))"

lemma last_change_snoc:
  "last_change p (ops @ [(c, order, io)]) =
     (if op_peer c = p \<and> fst io \<and> snd io then Some c else last_change p ops)"
  by (simp add: last_change_def Let_def)

lemma pinned_op_change:
  "pinned (op_change c s) = (case c of Pin p \<Rightarrow> insert p (pinned s) | Revoke p \<Rightarrow> pinned s - {p})"
  by (cases c) (simp_all add: trust_pin_def trust_revoke_def)

lemma run_updates_append:
  "run_updates (xs @ [(c, order, io)]) disk =
     (case run_updates xs disk of
        None \<Rightarrow> None
      | Some disk \<Rightarrow> map_option snd (trust_update order io (op_change c) disk))"
  by (induction xs arbitrary: disk) (auto split: option.splits)

lemma run_updates_pinned:
  assumes "\<forall>(c, order, io)\<in>set ops. length (op_peer c) = 32 \<and> (\<forall>S. finite S \<longrightarrow> set (order S) = S)"
  shows "\<exists>disk S. run_updates ops None = Some disk \<and> trust_load disk = Some (Inr \<lparr>pinned = S\<rparr>)
     \<and> finite S \<and> (\<forall>p\<in>S. length p = 32) \<and> (\<forall>p. p \<in> S \<longleftrightarrow> last_change p ops = Some (Pin p))"
  using assms
proof (induction ops rule: rev_induct)
  case Nil
  then show ?case by (simp add: trust_load_def last_change_def)
next
  case (snoc a ops)
  obtain c order io where a: "a = (c, order, io)"
    by (cases a) auto
  obtain disk S where ih: "run_updates ops None = Some disk" "trust_load disk = Some (Inr \<lparr>pinned = S\<rparr>)"
    "finite S" "\<forall>p\<in>S. length p = 32" "\<forall>p. p \<in> S \<longleftrightarrow> last_change p ops = Some (Pin p)"
    using snoc by auto
  let ?S = "pinned (op_change c \<lparr>pinned = S\<rparr>)"
  have fin: "finite ?S" "\<forall>p\<in>?S. length p = 32"
    using ih snoc.prems by (auto simp: pinned_op_change a split: trust_op.splits)
  have order: "set (order ?S) = ?S"
    using snoc.prems fin(1) by (simp add: a)
  have step: "run_updates (ops @ [a]) None
      = Some (if fst io \<and> snd io then Some (trust_contents (order ?S)) else disk)"
    by (auto simp: a run_updates_append ih trust_update_def trust_save_def Let_def)
  show ?case
  proof (cases "fst io \<and> snd io")
    case True
    have "p \<in> ?S \<longleftrightarrow> last_change p (ops @ [a]) = Some (Pin p)" for p
      using True spec [OF ih(5), of p, symmetric]
      by (cases c; cases "op_peer c = p") (auto simp: trust_pin_def trust_revoke_def a last_change_snoc)
    moreover have "run_updates (ops @ [a]) None = Some (Some (trust_contents (order ?S)))"
      using True step by simp
    moreover have "trust_load (Some (trust_contents (order ?S))) = Some (Inr \<lparr>pinned = ?S\<rparr>)"
      using trust_load_contents [of "order ?S"] fin(2) unfolding order by blast
    ultimately show ?thesis
      using fin by blast
  next
    case False
    then have "last_change p (ops @ [a]) = last_change p ops" for p
      by (auto simp: a last_change_snoc)
    then show ?thesis
      using False step ih by auto
  qed
qed

text \<open>
  The trust list on disk is exactly what the successful updates made it: starting from no file,
  after any sequence of pins and revocations by any processes, some of them failing to write, loading
  the file succeeds and trusts exactly the devices whose last change that reached the disk was a pin.
\<close>

theorem trust_file_exact:
  assumes "\<forall>(c, order, io)\<in>set ops. length (op_peer c) = 32 \<and> (\<forall>S. finite S \<longrightarrow> set (order S) = S)"
  shows "\<exists>disk store. run_updates ops None = Some disk \<and> trust_load disk = Some (Inr store)
     \<and> (\<forall>p. is_pinned store p \<longleftrightarrow> last_change p ops = Some (Pin p))"
proof -
  obtain disk S where "run_updates ops None = Some disk" "trust_load disk = Some (Inr \<lparr>pinned = S\<rparr>)"
    "\<forall>p. p \<in> S \<longleftrightarrow> last_change p ops = Some (Pin p)"
    using run_updates_pinned [OF assms] by blast
  then show ?thesis
    by (intro exI [of _ disk] exI [of _ "\<lparr>pinned = S\<rparr>"]) (simp add: is_pinned_def)
qed

theorem trust_file_exact_witness:
  "\<exists>disk store. run_updates [(Pin (replicate 32 7), \<lambda>S :: peer_id set. SOME ps. set ps = S, True, True),
       (Revoke (replicate 32 7), \<lambda>S :: peer_id set. SOME ps. set ps = S, True, False)] None = Some disk
     \<and> trust_load disk = Some (Inr store) \<and> is_pinned store (replicate 32 7)"
proof -
  have order: "finite S \<Longrightarrow> set (SOME ps. set ps = S) = S" for S :: "peer_id set"
    by (rule someI_ex) (rule finite_list)
  let ?ops = "[(Pin (replicate 32 7), \<lambda>S :: peer_id set. SOME ps. set ps = S, True, True),
       (Revoke (replicate 32 7), \<lambda>S :: peer_id set. SOME ps. set ps = S, True, False)]"
  have "\<forall>(c, order, io)\<in>set ?ops. length (op_peer c) = 32 \<and> (\<forall>S. finite S \<longrightarrow> set (order S) = S)"
    using order by (auto simp: split_beta)
  from trust_file_exact [OF this] obtain disk store where
    "run_updates ?ops None = Some disk" "trust_load disk = Some (Inr store)"
    "is_pinned store (replicate 32 7) \<longleftrightarrow> last_change (replicate 32 7) ?ops = Some (Pin (replicate 32 7))"
    by blast
  then show ?thesis
    by (auto simp: last_change_def)
qed

text \<open>
  C39. A key text that is not ASCII stops the program instead of being refused: \<open>from_hex\<close> checks the
  length in bytes and then cuts the text inside a character.
\<close>

theorem from_hex_panics:
  "from_hex (97 # replicate 31 233 @ [98]) = None"
  by (simp add: from_hex_def utf8_len_def utf8_len_char_def eval_nat_numeral digit16_def)

end
