(* ===== verification/Accounts.thy ===== *)
theory Accounts
  imports Accounts_Policy Identity
begin

text \<open>
  A host's accounts: the local accounts (\<open>accounts/src/local.rs\<close>), the checking of credentials
  against the configured sources (\<open>accounts/src/lib.rs\<close>) and the devices that sign-ins registered
  (\<open>accounts/src/registrations.rs\<close>). Argon2id, PAM, LDAP, OpenID Connect and Kerberos are
  arguments. A \<open>HashMap\<close> is a map; the file it is kept in is the map that was serialised.
\<close>

section \<open>Local accounts\<close>

datatype local_error = NotFound rstr | AlreadyExists rstr | WrongPassword | HashError rstr

record local_account =
  la_username :: rstr
  la_password_hash :: rstr
  la_groups :: "rstr list"
  la_revoked :: bool

type_synonym local_accounts = "rstr \<rightharpoonup> local_account"

text \<open>
  \<open>hash pw salt\<close> is \<open>hash_password\<close> with the salt the system's generator gave; \<open>argon h pw\<close> parses
  the PHC string \<open>h\<close> (\<open>None\<close> when it cannot) and compares.
\<close>

definition local_create ::
  "(rstr \<Rightarrow> 's \<Rightarrow> local_error + rstr) \<Rightarrow> rstr \<Rightarrow> rstr \<Rightarrow> 's \<Rightarrow> rstr list \<Rightarrow> local_accounts \<Rightarrow>
     (local_error + unit) \<times> local_accounts" where
  "local_create hash username pw salt groups accs =
     (if accs username \<noteq> None then (Inl (AlreadyExists username), accs)
      else case hash pw salt of
        Inl e \<Rightarrow> (Inl e, accs)
      | Inr h \<Rightarrow> (Inr (), accs(username \<mapsto>
          \<lparr>la_username = username, la_password_hash = h, la_groups = groups, la_revoked = False\<rparr>)))"

text \<open>\<open>get_mut\<close> followed by an assignment to the account.\<close>

definition change_account ::
  "rstr \<Rightarrow> (local_account \<Rightarrow> local_account) \<Rightarrow> local_accounts \<Rightarrow> (local_error + unit) \<times> local_accounts" where
  "change_account username f accs =
     (case accs username of
        None \<Rightarrow> (Inl (NotFound username), accs)
      | Some a \<Rightarrow> (Inr (), accs(username \<mapsto> f a)))"

definition set_password ::
  "(rstr \<Rightarrow> 's \<Rightarrow> local_error + rstr) \<Rightarrow> rstr \<Rightarrow> rstr \<Rightarrow> 's \<Rightarrow> local_accounts \<Rightarrow>
     (local_error + unit) \<times> local_accounts" where
  "set_password hash username pw salt accs =
     (case hash pw salt of
        Inl e \<Rightarrow> (Inl e, accs)
      | Inr h \<Rightarrow> change_account username (\<lambda>a. a\<lparr>la_password_hash := h\<rparr>) accs)"

definition set_groups ::
  "rstr \<Rightarrow> rstr list \<Rightarrow> local_accounts \<Rightarrow> (local_error + unit) \<times> local_accounts" where
  "set_groups username groups = change_account username (\<lambda>a. a\<lparr>la_groups := groups\<rparr>)"

definition revoke_account :: "rstr \<Rightarrow> local_accounts \<Rightarrow> (local_error + unit) \<times> local_accounts" where
  "revoke_account username = change_account username (\<lambda>a. a\<lparr>la_revoked := True\<rparr>)"

definition remove_account :: "rstr \<Rightarrow> local_accounts \<Rightarrow> (local_error + unit) \<times> local_accounts" where
  "remove_account username accs =
     (case accs username of
        None \<Rightarrow> (Inl (NotFound username), accs)
      | Some _ \<Rightarrow> (Inr (), accs(username := None)))"

definition account_active :: "rstr \<Rightarrow> local_accounts \<Rightarrow> bool" where
  "account_active username accs = (case accs username of None \<Rightarrow> False | Some a \<Rightarrow> \<not> la_revoked a)"

definition verify_password ::
  "(rstr \<Rightarrow> rstr \<Rightarrow> bool option) \<Rightarrow> rstr \<Rightarrow> rstr \<Rightarrow> local_accounts \<Rightarrow> local_error + local_account" where
  "verify_password argon username pw accs =
     (case accs username of
        None \<Rightarrow> Inl (NotFound username)
      | Some a \<Rightarrow>
          if la_revoked a then Inl WrongPassword
          else case argon (la_password_hash a) pw of
            None \<Rightarrow> Inl (HashError (la_password_hash a))
          | Some good \<Rightarrow> if good then Inr a else Inl WrongPassword)"

section \<open>Checking credentials\<close>

datatype password_source = SrcLocal | SrcOs | SrcLdap

text \<open>The reason of a refusal is the value its message is made from.\<close>

datatype refusal = LocalRefusal local_error | NoSource rstr | Elsewhere rstr

datatype check_error = Refused refusal | NotOffered rstr | Unavailable rstr

record 'l config =
  cf_password :: "password_source list"
  cf_pam_service :: rstr
  cf_ldap :: "'l option"
  cf_oidc :: "rstr list"
  cf_kerberos :: "rstr option"
  cf_registration_days :: u32
  cf_host_name :: rstr
  cf_policy :: policy

text \<open>What the sources outside this program answer. \<open>Err(None)\<close> of the source, "does not know the
  user", is \<open>Inl None\<close>.\<close>

record 'l sources =
  src_os :: "rstr \<Rightarrow> rstr \<Rightarrow> rstr \<Rightarrow> check_error option + account"
  src_ldap :: "'l \<Rightarrow> rstr \<Rightarrow> rstr \<Rightarrow> check_error option + account"
  src_oidc :: "rstr \<Rightarrow> rstr \<Rightarrow> peer_id \<Rightarrow> check_error + account"
  src_kerberos :: "rstr \<Rightarrow> bytes \<Rightarrow> check_error + rstr"
  src_ldap_groups :: "'l \<Rightarrow> rstr \<Rightarrow> rstr list option"

definition check_ldap ::
  "'l sources \<Rightarrow> 'l config \<Rightarrow> rstr \<Rightarrow> rstr \<Rightarrow> check_error option + account" where
  "check_ldap src c username pw =
     (case cf_ldap c of Some l \<Rightarrow> src_ldap src l username pw | None \<Rightarrow> Inl None)"

definition check_local ::
  "(rstr \<Rightarrow> rstr \<Rightarrow> bool option) \<Rightarrow> local_accounts \<Rightarrow> rstr \<Rightarrow> rstr \<Rightarrow> check_error option + account" where
  "check_local argon accs username pw =
     (case verify_password argon username pw accs of
        Inr a \<Rightarrow> Inr \<lparr>acc_name = la_username a, acc_groups = la_groups a, acc_method = Password,
                       acc_provider = lit ''local''\<rparr>
      | Inl (NotFound _) \<Rightarrow> Inl None
      | Inl e \<Rightarrow> Inl (Some (Refused (LocalRefusal e))))"

definition ask_source ::
  "(rstr \<Rightarrow> rstr \<Rightarrow> bool option) \<Rightarrow> 'l sources \<Rightarrow> 'l config \<Rightarrow> local_accounts \<Rightarrow> password_source \<Rightarrow>
     rstr \<Rightarrow> rstr \<Rightarrow> check_error option + account" where
  "ask_source argon src c accs source username pw =
     (case source of
        SrcLocal \<Rightarrow> check_local argon accs username pw
      | SrcOs \<Rightarrow> src_os src (cf_pam_service c) username pw
      | SrcLdap \<Rightarrow> check_ldap src c username pw)"

text \<open>The loop of \<open>check_password\<close>: the first source that knows the user decides.\<close>

fun ask_sources ::
  "(rstr \<Rightarrow> rstr \<Rightarrow> bool option) \<Rightarrow> 'l sources \<Rightarrow> 'l config \<Rightarrow> local_accounts \<Rightarrow> password_source list \<Rightarrow>
     rstr \<Rightarrow> rstr \<Rightarrow> check_error + account" where
  "ask_sources argon src c accs [] username pw = Inl (Refused (NoSource username))"
| "ask_sources argon src c accs (source # rest) username pw =
     (case ask_source argon src c accs source username pw of
        Inr a \<Rightarrow> Inr a
      | Inl (Some e) \<Rightarrow> Inl e
      | Inl None \<Rightarrow> ask_sources argon src c accs rest username pw)"

definition check_password ::
  "(rstr \<Rightarrow> rstr \<Rightarrow> bool option) \<Rightarrow> 'l sources \<Rightarrow> 'l config \<Rightarrow> local_accounts \<Rightarrow> rstr \<Rightarrow> rstr \<Rightarrow>
     check_error + account" where
  "check_password argon src c accs username pw =
     (if cf_password c = [] then Inl (NotOffered (lit ''password''))
      else ask_sources argon src c accs (cf_password c) username pw)"

definition check_kerberos :: "'l sources \<Rightarrow> 'l config \<Rightarrow> bytes \<Rightarrow> check_error + account" where
  "check_kerberos src c token =
     (case cf_kerberos c of
        None \<Rightarrow> Inl (NotOffered (lit ''Kerberos''))
      | Some service \<Rightarrow>
          (case src_kerberos src service token of
             Inl e \<Rightarrow> Inl e
           | Inr pname \<Rightarrow>
               let (name, realm) = (case rsplit_once 64 pname of Some nr \<Rightarrow> nr | None \<Rightarrow> (pname, []));
                   groups = (case cf_ldap c of
                     Some l \<Rightarrow> (case src_ldap_groups src l name of Some gs \<Rightarrow> gs | None \<Rightarrow> [])
                   | None \<Rightarrow> [])
               in Inr \<lparr>acc_name = name, acc_groups = groups, acc_method = Kerberos, acc_provider = realm\<rparr>))"

datatype credential =
    CrPassword rstr rstr
  | CrOidc rstr rstr
  | CrKerberos bytes

definition check_credential ::
  "(rstr \<Rightarrow> rstr \<Rightarrow> bool option) \<Rightarrow> 'l sources \<Rightarrow> 'l config \<Rightarrow> local_accounts \<Rightarrow> credential \<Rightarrow> peer_id \<Rightarrow>
     check_error + account" where
  "check_credential argon src c accs cred client =
     (case cred of
        CrPassword username pw \<Rightarrow> check_password argon src c accs username pw
      | CrOidc provider id_token \<Rightarrow>
          if List.member (cf_oidc c) provider then src_oidc src provider id_token client
          else Inl (NotOffered (lit ''this provider's''))
      | CrKerberos token \<Rightarrow> check_kerberos src c token)"

datatype sign_in_method = OfferPassword | OfferOidc | OfferKerberos

definition offer :: "'l config \<Rightarrow> sign_in_method list \<times> rstr list \<times> rstr option" where
  "offer c =
     ((if cf_password c \<noteq> [] then [OfferPassword] else []) @
      (if cf_oidc c \<noteq> [] then [OfferOidc] else []) @
      (if cf_kerberos c \<noteq> None then [OfferKerberos] else []),
      cf_oidc c, cf_kerberos c)"

text \<open>\<open>os_name\<close> is the machine's own name.\<close>

definition policy_host_name :: "rstr \<Rightarrow> 'l config \<Rightarrow> rstr" where
  "policy_host_name os_name c = (if cf_host_name c = [] then os_name else cf_host_name c)"

definition accounts_decide :: "(rstr \<Rightarrow> rstr) \<Rightarrow> rstr \<Rightarrow> 'l config \<Rightarrow> account option \<Rightarrow> decision" where
  "accounts_decide lower os_name c acc = decide lower (cf_policy c) acc (policy_host_name os_name c)"

definition admits :: "(rstr \<Rightarrow> rstr) \<Rightarrow> rstr \<Rightarrow> 'l config \<Rightarrow> account option \<Rightarrow> bool" where
  "admits lower os_name c acc = dn_allow (accounts_decide lower os_name c acc)"

section \<open>Registered devices\<close>

record registration =
  rg_account :: account
  rg_registered :: u64
  rg_expires :: u64

record registrations =
  devices :: "rstr \<rightharpoonup> registration"
  saved :: "rstr \<rightharpoonup> registration"

text \<open>
  What became of writing a file: it was written, it could not be opened and is as it was, or it was emptied and not
  wholly written, so that it does not read as a table.
\<close>

datatype file_write = Written | NotOpened | Torn

text \<open>\<open>save\<close> leaves the expired ones out of the file, and says whether it was written; \<open>load\<close> reads the file.\<close>

definition reg_save :: "file_write \<Rightarrow> u64 \<Rightarrow> registrations \<Rightarrow> bool \<times> registrations" where
  "reg_save wr now rs =
     (let kept = (\<lambda>k. case devices rs k of Some r \<Rightarrow> if now < rg_expires r then Some r else None | None \<Rightarrow> None)
      in (wr = Written, rs\<lparr>saved := (case wr of Written \<Rightarrow> kept | NotOpened \<Rightarrow> saved rs | Torn \<Rightarrow> Map.empty)\<rparr>))"

text \<open>Loading: a file that is not there or cannot be read is none.\<close>

definition reg_load :: "bool \<Rightarrow> registrations \<Rightarrow> registrations" where
  "reg_load readable rs = rs\<lparr>devices := (if readable then saved rs else Map.empty)\<rparr>"

definition register :: "file_write \<Rightarrow> u64 \<Rightarrow> peer_id \<Rightarrow> account \<Rightarrow> u32 \<Rightarrow> registrations \<Rightarrow> bool \<times> registrations" where
  "register wr now device acc days rs =
     (if days = 0 then (True, rs)
      else reg_save wr now (rs\<lparr>devices := (devices rs)(to_hex device \<mapsto>
        \<lparr>rg_account = acc, rg_registered = now, rg_expires = now + ucast days * 24 * 60 * 60\<rparr>)\<rparr>))"

definition reg_get :: "u64 \<Rightarrow> peer_id \<Rightarrow> registrations \<Rightarrow> registration option" where
  "reg_get now device rs =
     (case devices rs (to_hex device) of
        Some r \<Rightarrow> if now < rg_expires r then Some r else None
      | None \<Rightarrow> None)"

text \<open>\<open>active\<close>: the devices whose key text reads back, unexpired.\<close>

definition reg_active :: "u64 \<Rightarrow> registrations \<Rightarrow> peer_id set" where
  "reg_active now rs =
     {p. \<exists>k r. devices rs k = Some r \<and> now < rg_expires r \<and> from_hex k = Some (Inr p)}"

definition reg_remove :: "file_write \<Rightarrow> u64 \<Rightarrow> peer_id \<Rightarrow> registrations \<Rightarrow> bool \<times> registrations" where
  "reg_remove wr now device rs = reg_save wr now (rs\<lparr>devices := (devices rs)(to_hex device := None)\<rparr>)"

definition reg_remove_account :: "file_write \<Rightarrow> u64 \<Rightarrow> rstr \<Rightarrow> rstr \<Rightarrow> registrations \<Rightarrow> bool \<times> registrations" where
  "reg_remove_account wr now name provider rs =
     reg_save wr now (rs\<lparr>devices := (\<lambda>k. case devices rs k of
       Some r \<Rightarrow> if acc_name (rg_account r) = name \<and> acc_provider (rg_account r) = provider then None else Some r
     | None \<Rightarrow> None)\<rparr>)"

section \<open>Histories of the local accounts\<close>

datatype 's local_op =
    Create rstr rstr 's "rstr list"
  | SetPassword rstr rstr 's
  | SetGroups rstr "rstr list"
  | RevokeAccount rstr
  | RemoveAccount rstr

fun local_step ::
  "(rstr \<Rightarrow> 's \<Rightarrow> local_error + rstr) \<Rightarrow> 's local_op \<Rightarrow> local_accounts \<Rightarrow> (local_error + unit) \<times> local_accounts" where
  "local_step hash (Create u pw salt gs) = local_create hash u pw salt gs"
| "local_step hash (SetPassword u pw salt) = set_password hash u pw salt"
| "local_step hash (SetGroups u gs) = set_groups u gs"
| "local_step hash (RevokeAccount u) = revoke_account u"
| "local_step hash (RemoveAccount u) = remove_account u"

definition local_run ::
  "(rstr \<Rightarrow> 's \<Rightarrow> local_error + rstr) \<Rightarrow> 's local_op list \<Rightarrow> local_accounts \<Rightarrow> local_accounts" where
  "local_run hash ops accs = foldl (\<lambda>accs c. snd (local_step hash c accs)) accs ops"

lemmas local_defs = local_create_def change_account_def set_password_def set_groups_def
  revoke_account_def remove_account_def

lemma local_run_simps [simp]:
  "local_run hash [] accs = accs"
  "local_run hash (c # ops) accs = local_run hash ops (snd (local_step hash c accs))"
  "local_run hash (xs @ ys) accs = local_run hash ys (local_run hash xs accs)"
  by (simp_all add: local_run_def)

text \<open>Every key holds the account of that name.\<close>

definition names_ok :: "local_accounts \<Rightarrow> bool" where
  "names_ok accs = (\<forall>u a. accs u = Some a \<longrightarrow> la_username a = u)"

lemma names_ok_step: "names_ok accs \<Longrightarrow> names_ok (snd (local_step hash c accs))"
  by (cases c) (auto simp: names_ok_def local_defs split: option.splits sum.splits)

lemma names_ok_run: "names_ok accs \<Longrightarrow> names_ok (local_run hash ops accs)"
  by (induction ops arbitrary: accs) (simp_all add: names_ok_step)

definition revoked_in :: "local_accounts \<Rightarrow> rstr \<Rightarrow> bool" where
  "revoked_in accs u = (case accs u of None \<Rightarrow> False | Some a \<Rightarrow> la_revoked a)"

lemma revoked_step:
  "revoked_in accs u \<Longrightarrow> c \<noteq> RemoveAccount u \<Longrightarrow> revoked_in (snd (local_step hash c accs)) u"
  by (cases c) (auto simp: revoked_in_def local_defs split: option.splits sum.splits)

lemma revoked_run:
  "revoked_in accs u \<Longrightarrow> RemoveAccount u \<notin> set ops \<Longrightarrow> revoked_in (local_run hash ops accs) u"
proof (induction ops arbitrary: accs)
  case (Cons c ops)
  then have "revoked_in (snd (local_step hash c accs)) u"
    by (intro revoked_step) auto
  with Cons show ?case
    by simp
qed simp

lemma revoked_refuses:
  "revoked_in accs u \<Longrightarrow> verify_password argon u pw accs = Inl WrongPassword"
  by (auto simp: revoked_in_def verify_password_def split: option.splits)

lemma ask_sources_local_first:
  assumes "verify_password argon u pw accs = Inl WrongPassword"
    and "\<forall>s\<in>set before. \<exists>e. ask_source argon src c accs s u pw = Inl e"
  shows "\<exists>e. ask_sources argon src c accs (before @ SrcLocal # after) u pw = Inl e"
  using assms(2)
proof (induction before)
  case Nil
  then show ?case
    using assms(1) by (simp add: ask_source_def check_local_def)
next
  case (Cons s before)
  then obtain e where "ask_source argon src c accs s u pw = Inl e"
    by auto
  with Cons show ?case
    by (cases e) auto
qed

text \<open>
  A revoked local account signs in with no password: once it was revoked, whatever is done to the
  accounts later short of removing it (a new password, a repeated creation), every password is refused,
  no source listed after the local one is asked, and the account no longer counts as active.
\<close>

theorem revoked_stays_out:
  assumes "u \<in> dom (local_run hash before accs)" "RemoveAccount u \<notin> set after"
    and "cf_password c = sources @ SrcLocal # rest"
    and "let accs' = local_run hash (before @ RevokeAccount u # after) accs
         in \<forall>s\<in>set sources. \<exists>e. ask_source argon src c accs' s u pw = Inl e"
  shows "let accs' = local_run hash (before @ RevokeAccount u # after) accs
         in (\<exists>e. check_password argon src c accs' u pw = Inl e) \<and> \<not> account_active u accs'"
proof -
  define accs' where "accs' = local_run hash (before @ RevokeAccount u # after) accs"
  obtain a where "local_run hash before accs u = Some a"
    using assms(1) by auto
  then have "revoked_in (snd (local_step hash (RevokeAccount u) (local_run hash before accs))) u"
    by (simp add: local_defs revoked_in_def)
  then have rev: "revoked_in accs' u"
    using revoked_run assms(2) by (simp add: accs'_def)
  have "\<forall>s\<in>set sources. \<exists>e. ask_source argon src c accs' s u pw = Inl e"
    using assms(4) by (simp add: accs'_def Let_def)
  from ask_sources_local_first [OF revoked_refuses [OF rev] this, of rest]
  have "\<exists>e. check_password argon src c accs' u pw = Inl e"
    using assms(3) by (simp add: check_password_def)
  moreover have "\<not> account_active u accs'"
    using rev by (auto simp: account_active_def revoked_in_def split: option.splits)
  ultimately show ?thesis
    by (simp add: accs'_def Let_def)
qed

definition plain_hash :: "rstr \<Rightarrow> nat \<Rightarrow> local_error + rstr" where
  "plain_hash pw salt = Inr (salt # pw)"

definition plain_argon :: "rstr \<Rightarrow> rstr \<Rightarrow> bool option" where
  "plain_argon h pw = (case h of [] \<Rightarrow> None | _ # p \<Rightarrow> Some (p = pw))"

definition sample_sources :: "unit sources" where
  "sample_sources = \<lparr>src_os = \<lambda>_ _ _. Inl None, src_ldap = \<lambda>_ _ _. Inl None,
     src_oidc = \<lambda>_ _ _. Inl (Unavailable []), src_kerberos = \<lambda>_ _. Inl (Unavailable []),
     src_ldap_groups = \<lambda>_ _. None\<rparr>"

definition sample_config :: "unit config" where
  "sample_config = \<lparr>cf_password = [SrcLocal, SrcOs], cf_pam_service = lit ''login'', cf_ldap = None,
     cf_oidc = [], cf_kerberos = None, cf_registration_days = 30, cf_host_name = [],
     cf_policy = \<lparr>rules = []\<rparr>\<rparr>"

theorem revoked_stays_out_witness:
  "let accs' = local_run plain_hash ([Create (lit ''eve'') (lit ''a'') 1 []] @ RevokeAccount (lit ''eve'')
         # [SetPassword (lit ''eve'') (lit ''b'') 2]) Map.empty
   in (\<exists>e. check_password plain_argon sample_sources sample_config accs' (lit ''eve'') (lit ''b'') = Inl e)
      \<and> \<not> account_active (lit ''eve'') accs'"
  by (rule revoked_stays_out [where sources = "[]" and rest = "[SrcOs]"])
     (simp_all add: sample_config_def local_defs plain_hash_def Let_def)

lemma other_step:
  assumes "\<forall>gs salt pw. c \<noteq> Create u pw salt gs" "\<forall>pw salt. c \<noteq> SetPassword u pw salt"
    "\<forall>gs. c \<noteq> SetGroups u gs" "c \<noteq> RevokeAccount u" "c \<noteq> RemoveAccount u"
  shows "snd (local_step hash c accs) u = accs u"
  using assms by (cases c) (auto simp: local_defs split: option.splits sum.splits)

fun op_user :: "'s local_op \<Rightarrow> rstr" where
  "op_user (Create u _ _ _) = u"
| "op_user (SetPassword u _ _) = u"
| "op_user (SetGroups u _) = u"
| "op_user (RevokeAccount u) = u"
| "op_user (RemoveAccount u) = u"

lemma other_run: "\<forall>c\<in>set ops. op_user c \<noteq> u \<Longrightarrow> local_run hash ops accs u = accs u"
proof (induction ops arbitrary: accs)
  case (Cons c ops)
  then have "snd (local_step hash c accs) u = accs u"
    by (intro other_step) auto
  with Cons show ?case
    by simp
qed simp

text \<open>
  The last password set is the one that signs in: when an account is made, given a password and a
  list of groups, and nothing is done to it afterwards, the host gives exactly that account for exactly
  that password, whatever was done to other accounts.
\<close>

theorem last_password_signs_in:
  assumes "hash pw1 salt1 = Inr h1" "hash pw2 salt2 = Inr h2" "\<And>pw. argon h2 pw = Some (pw = pw2)"
    and "local_run hash before accs u = None" "names_ok accs"
    and "\<forall>c\<in>set mid1 \<union> set mid2 \<union> set after. op_user c \<noteq> u"
    and "cf_password c = SrcLocal # rest"
  shows "check_password argon src c
      (local_run hash (before @ Create u pw1 salt1 gs1 # mid1 @ SetPassword u pw2 salt2 # mid2
         @ SetGroups u gs2 # after) accs) u pw =
    (if pw = pw2 then Inr \<lparr>acc_name = u, acc_groups = gs2, acc_method = Password, acc_provider = lit ''local''\<rparr>
     else Inl (Refused (LocalRefusal WrongPassword)))"
proof -
  let ?accs = "local_run hash (before @ Create u pw1 salt1 gs1 # mid1 @ SetPassword u pw2 salt2 # mid2
         @ SetGroups u gs2 # after) accs"
  have run: "\<forall>c\<in>set ops. op_user c \<noteq> u \<Longrightarrow> local_run hash ops accs' u = accs' u" for ops accs'
    by (rule other_run)
  have "?accs u = Some \<lparr>la_username = u, la_password_hash = h2, la_groups = gs2, la_revoked = False\<rparr>"
    using assms(1,2,4,6) by (simp add: run local_defs)
  then show ?thesis
    using assms(3,7) by (auto simp: check_password_def ask_source_def check_local_def verify_password_def)
qed

theorem last_password_signs_in_witness:
  "check_password plain_argon sample_sources sample_config
      (local_run plain_hash ([] @ Create (lit ''bob'') (lit ''a'') 1 [] # [RevokeAccount (lit ''eve'')]
         @ SetPassword (lit ''bob'') (lit ''b'') 2 # [] @ SetGroups (lit ''bob'') [lit ''staff''] # [])
         Map.empty) (lit ''bob'') (lit ''b'') =
    (if lit ''b'' = lit ''b''
     then Inr \<lparr>acc_name = lit ''bob'', acc_groups = [lit ''staff''], acc_method = Password, acc_provider = lit ''local''\<rparr>
     else Inl (Refused (LocalRefusal WrongPassword)))"
  by (rule last_password_signs_in [where ?h1.0 = "1 # lit ''a''" and ?h2.0 = "2 # lit ''b''" and rest = "[SrcOs]"])
     (simp_all add: plain_hash_def plain_argon_def names_ok_def sample_config_def eq_commute)

end
