(* ===== verification/Share_Paths.thy ===== *)
theory Share_Paths
  imports Text_Basics
begin

text \<open>
  File transfer's messages and the check on the paths a client names (\<open>protocol/src/files.rs\<close>).
  \<open>lower\<close> and \<open>upper\<close> are the standard library's \<open>to_lowercase\<close> and \<open>to_uppercase\<close>. The reason
  a request is refused for is the value its message is made from.
\<close>

definition MAX_CHUNK :: nat where "MAX_CHUNK = 16 * 1024"
definition FILE_CHUNK :: nat where "FILE_CHUNK = MAX_CHUNK - 256"
definition ACK_EVERY :: nat where "ACK_EVERY = 256 * 1024"
definition MAX_PATH :: nat where "MAX_PATH = 1024"
definition MAX_ENTRIES :: nat where "MAX_ENTRIES = 5000"
definition PART_SUFFIX :: rstr where "PART_SUFFIX = lit ''.wcpart''"

datatype path_error =
    PathTooLong
  | PathAbsolute
  | DotPart
  | BadCharacter rstr
  | BadEnd rstr
  | ReservedName rstr
  | PartName

record share_info =
  si_name :: rstr
  si_writable :: bool

record entry =
  en_name :: rstr
  en_dir :: bool
  en_size :: nat
  en_modified :: "u64 option"

datatype file_request =
    ReqShares
  | ReqList rstr rstr
  | ReqStat rstr rstr
  | ReqRead rstr rstr u64
  | ReqWrite rstr rstr u64 bool
  | ReqChunk bytes
  | ReqFinish

datatype 'e file_reply =
    RepShares "share_info list"
  | RepEntries "entry list"
  | RepInfo entry
  | RepChunk bytes
  | RepEnd nat
  | RepReady nat
  | RepAck nat
  | RepDone nat
  | RepError 'e

definition RESERVED :: "rstr list" where
  "RESERVED = map lit [''CON'', ''PRN'', ''AUX'', ''NUL'', ''COM1'', ''COM2'', ''COM3'', ''COM4'', ''COM5'',
     ''COM6'', ''COM7'', ''COM8'', ''COM9'', ''LPT1'', ''LPT2'', ''LPT3'', ''LPT4'', ''LPT5'', ''LPT6'',
     ''LPT7'', ''LPT8'', ''LPT9'']"

text \<open>The characters a part may not have besides control characters.\<close>

definition special :: "nat \<Rightarrow> bool" where
  "special c = List.member (lit [CHR 0x5C, CHR '':'', CHR ''*'', CHR ''?'', CHR 0x22, CHR ''<'', CHR ''>'', CHR ''|'']) c"

definition clean_part :: "(rstr \<Rightarrow> rstr) \<Rightarrow> (rstr \<Rightarrow> rstr) \<Rightarrow> rstr \<Rightarrow> path_error + rstr" where
  "clean_part lower upper part =
     (if part = lit ''.'' \<or> part = lit ''..'' then Inl DotPart
      else if list_ex (\<lambda>c. is_control c \<or> special c) part then Inl (BadCharacter part)
      else if ends_with (lit ''.'') part \<or> ends_with (lit '' '') part then Inl (BadEnd part)
      else if List.member RESERVED (upper (hd (split_on 46 part))) then Inl (ReservedName part)
      else if ends_with PART_SUFFIX (lower part) then Inl PartName
      else Inr part)"

fun clean_parts :: "(rstr \<Rightarrow> rstr) \<Rightarrow> (rstr \<Rightarrow> rstr) \<Rightarrow> rstr list \<Rightarrow> path_error + rstr list" where
  "clean_parts lower upper [] = Inr []"
| "clean_parts lower upper (part # rest) =
     (case clean_part lower upper part of
        Inl e \<Rightarrow> Inl e
      | Inr p \<Rightarrow> (case clean_parts lower upper rest of Inl e \<Rightarrow> Inl e | Inr ps \<Rightarrow> Inr (p # ps)))"

definition clean :: "(rstr \<Rightarrow> rstr) \<Rightarrow> (rstr \<Rightarrow> rstr) \<Rightarrow> rstr \<Rightarrow> path_error + rstr list" where
  "clean lower upper path =
     (if MAX_PATH < utf8_len path then Inl PathTooLong
      else if starts_with (lit ''/'') path then Inl PathAbsolute
      else clean_parts lower upper (filter (\<lambda>p. p \<noteq> []) (split_on 47 path)))"

section \<open>What passes the check\<close>

text \<open>A name that stays in its folder and is no device, no stream and no unfinished upload.\<close>

definition safe_part :: "(rstr \<Rightarrow> rstr) \<Rightarrow> (rstr \<Rightarrow> rstr) \<Rightarrow> rstr \<Rightarrow> bool" where
  "safe_part lower upper p =
     (p \<noteq> [] \<and> 47 \<notin> set p \<and> p \<noteq> lit ''.'' \<and> p \<noteq> lit ''..'' \<and> (\<forall>c\<in>set p. \<not> is_control c \<and> \<not> special c)
      \<and> \<not> ends_with (lit ''.'') p \<and> \<not> ends_with (lit '' '') p
      \<and> upper (hd (split_on 46 p)) \<notin> set RESERVED \<and> \<not> ends_with PART_SUFFIX (lower p))"

lemma clean_part_Inr: "clean_part lower upper part = Inr p \<Longrightarrow> p = part"
  by (simp add: clean_part_def split: if_splits)

lemma clean_part_safe:
  "clean_part lower upper part = Inr p \<Longrightarrow> part \<noteq> [] \<Longrightarrow> 47 \<notin> set part \<Longrightarrow> safe_part lower upper p"
  by (auto simp: clean_part_def safe_part_def list_ex_iff split: if_splits)

lemma clean_part_of_safe: "safe_part lower upper p \<Longrightarrow> clean_part lower upper p = Inr p"
  by (auto simp: clean_part_def safe_part_def list_ex_iff)

lemma clean_parts_Inr: "clean_parts lower upper parts = Inr ps \<Longrightarrow> ps = parts"
  by (induction parts arbitrary: ps) (auto dest: clean_part_Inr split: sum.splits)

lemma clean_parts_safe:
  "clean_parts lower upper parts = Inr ps \<Longrightarrow> \<forall>p\<in>set parts. p \<noteq> [] \<and> 47 \<notin> set p \<Longrightarrow>
     \<forall>p\<in>set ps. safe_part lower upper p"
  by (induction parts arbitrary: ps) (auto dest: clean_part_safe split: sum.splits)

lemma clean_parts_of_safe:
  "\<forall>p\<in>set ps. safe_part lower upper p \<Longrightarrow> clean_parts lower upper ps = Inr ps"
  by (induction ps) (simp_all add: clean_part_of_safe)

lemma clean_safe:
  assumes "clean lower upper path = Inr ps"
  shows "\<forall>p\<in>set ps. safe_part lower upper p"
proof (rule clean_parts_safe)
  show "clean_parts lower upper (filter (\<lambda>p. p \<noteq> []) (split_on 47 path)) = Inr ps"
    using assms by (simp add: clean_def split: if_splits)
  show "\<forall>p\<in>set (filter (\<lambda>p. p \<noteq> []) (split_on 47 path)). p \<noteq> [] \<and> 47 \<notin> set p"
    using split_on_parts by fastforce
qed

definition join_parts :: "rstr list \<Rightarrow> rstr" where
  "join_parts ps = (case ps of [] \<Rightarrow> [] | p # ps \<Rightarrow> p @ concat (map (\<lambda>q. 47 # q) ps))"

lemma split_on_plain: "c \<notin> set p \<Longrightarrow> split_on c p = [p]"
  by (induction p) auto

lemma split_on_append: "c \<notin> set p \<Longrightarrow> split_on c (p @ c # s) = p # split_on c s"
  by (induction p) auto

lemma join_parts_Cons: "ps \<noteq> [] \<Longrightarrow> join_parts (p # ps) = p @ 47 # join_parts ps"
  by (cases ps) (simp_all add: join_parts_def)

lemma split_on_join: "ps \<noteq> [] \<Longrightarrow> \<forall>p\<in>set ps. 47 \<notin> set p \<Longrightarrow> split_on 47 (join_parts ps) = ps"
proof (induction ps)
  case (Cons p ps)
  then show ?case
    by (cases ps) (simp_all add: split_on_plain split_on_append join_parts_Cons, simp add: join_parts_def split_on_plain)
qed simp

lemma utf8_len_split:
  "sum_list (map utf8_len (split_on c s)) + length (split_on c s) \<le> Suc (utf8_len s)"
proof (induction s)
  case (Cons x s)
  obtain p ps where "split_on c s = p # ps"
    using split_on_not_Nil by (metis list.exhaust)
  with Cons show ?case
    by (auto simp: utf8_len_def utf8_len_char_def)
qed simp

lemma utf8_len_join:
  "ps \<noteq> [] \<Longrightarrow> Suc (utf8_len (join_parts ps)) = sum_list (map utf8_len ps) + length ps"
proof (induction ps)
  case (Cons p ps)
  then show ?case
    by (cases ps) (simp_all add: join_parts_Cons, simp_all add: join_parts_def utf8_len_def utf8_len_char_def)
qed simp

lemma sum_list_filter_le: "sum_list (map f (filter P xs)) + length (filter P xs) \<le> sum_list (map f xs) + length (xs :: 'a list)"
  for f :: "'a \<Rightarrow> nat"
  by (induction xs) auto

text \<open>
  A path that passes the check names a place inside the share and keeps its meaning: each of its
  parts is a plain name (not empty, no separator, no dots, no device, no stream, no unfinished upload),
  and the parts written out again with single separators pass the check as the same parts.
\<close>

theorem clean_is_safe_and_stable:
  assumes "clean lower upper path = Inr ps"
  shows "(\<forall>p\<in>set ps. safe_part lower upper p) \<and> clean lower upper (join_parts ps) = Inr ps"
proof
  show safe: "\<forall>p\<in>set ps. safe_part lower upper p"
    by (rule clean_safe [OF assms])
  have ps: "ps = filter (\<lambda>p. p \<noteq> []) (split_on 47 path)" and len: "utf8_len path \<le> MAX_PATH"
    using assms clean_parts_Inr by (auto simp: clean_def split: if_splits)
  show "clean lower upper (join_parts ps) = Inr ps"
  proof (cases ps)
    case Nil
    then show ?thesis
      by (simp add: clean_def join_parts_def starts_with_def MAX_PATH_def)
  next
    case (Cons p rest)
    have ne: "\<forall>p\<in>set ps. p \<noteq> [] \<and> 47 \<notin> set p"
      using safe by (simp add: safe_part_def)
    have "Suc (utf8_len (join_parts ps)) \<le> Suc (utf8_len path)"
      using utf8_len_join [of ps] Cons sum_list_filter_le [of utf8_len "\<lambda>p. p \<noteq> []" "split_on 47 path"]
        utf8_len_split [of 47 path] ps by simp
    moreover have "\<not> starts_with (lit ''/'') (join_parts ps)"
      using ne Cons by (cases p) (auto simp: starts_with_def join_parts_def)
    moreover have "filter (\<lambda>p. p \<noteq> []) (split_on 47 (join_parts ps)) = ps"
      using ne Cons split_on_join [of ps] by (simp add: filter_id_conv)
    ultimately show ?thesis
      using len clean_parts_of_safe [OF safe] by (simp add: clean_def)
  qed
qed

theorem clean_is_safe_and_stable_witness:
  "list_all (safe_part ascii_lowercase ascii_lowercase) [lit ''saves'', lit ''slot1.sav'']
   \<and> clean ascii_lowercase ascii_lowercase (join_parts [lit ''saves'', lit ''slot1.sav'']) = Inr [lit ''saves'', lit ''slot1.sav'']"
  unfolding list_all_iff
  by (rule clean_is_safe_and_stable [where path = "lit ''saves//slot1.sav/''"]) code_simp

end
