(* ===== verification/Command_Stream.thy ===== *)
theory Command_Stream
  imports Accounts Share_Paths "HOL-Library.AList"
begin

text \<open>
  The command stream: its messages (\<open>protocol/src/command.rs\<close>), the host's table of a session's channels
  with the threads that serve them (\<open>host-core/src/command.rs\<close>), and the client's routes
  (\<open>client-core/src/command.rs\<close>). The host is a step relation: the session's task, the input and output
  threads and the thread that waits for a command's end interleave in any way. What the system starts,
  when a command writes and when it ends, are arguments of the steps.
\<close>

section \<open>Messages\<close>

type_synonym channel_id = u32

record terminal_size =
  ts_cols :: u16
  ts_rows :: u16

definition TERMINAL_MAX :: u16 where "TERMINAL_MAX = 1000"

definition clamped :: "terminal_size \<Rightarrow> terminal_size" where
  "clamped t = \<lparr>ts_cols = min (max (ts_cols t) 1) TERMINAL_MAX, ts_rows = min (max (ts_rows t) 1) TERMINAL_MAX\<rparr>"

record pty =
  pt_size :: terminal_size
  pt_term :: rstr

datatype channel_kind =
    Shell pty
  | Exec "rstr list" "pty option"
  | Launch "rstr list" bool "rstr option"
  | FilesChannel
  | WatchChannel rstr rstr "rstr option" bool
  | ChatChannel

datatype command_message =
    Open channel_id channel_kind
  | Opened channel_id "u32 option"
  | PasswordNeeded channel_id rstr
  | Refused channel_id rstr
  | Data channel_id bytes
  | Resize channel_id terminal_size
  | Eof channel_id
  | CloseChannel channel_id
  | Exited channel_id "u32 option"

definition MAX_CHANNELS :: nat where "MAX_CHANNELS = 8"

definition data_messages :: "channel_id \<Rightarrow> bytes \<Rightarrow> command_message list" where
  "data_messages ident bs = map (Data ident) (chunks_of MAX_CHUNK bs)"

section \<open>Who may open what\<close>

record asker =
  ak_peer :: bytes
  ak_account :: "account option"

datatype remote_app_refusal = AppPassword rstr | AppRefused rstr

type_synonym authorizer = "asker \<Rightarrow> channel_kind \<Rightarrow> rstr + unit"

definition paired_devices :: authorizer where
  "paired_devices who kind = Inr ()"

definition no_commands :: authorizer where
  "no_commands who kind = Inl (lit ''this host does not allow commands'')"

text \<open>\<open>decision_of\<close> is the policy's decision for an account, read at the moment of the open.\<close>

definition account_policy :: "(account option \<Rightarrow> decision) \<Rightarrow> authorizer \<Rightarrow> authorizer" where
  "account_policy decision_of next_check who kind =
     (let decision = decision_of (ak_account who)
      in if \<not> dn_allow decision then Inl (lit ''policy does not admit this account'')
         else case dn_commands decision of
           Some False \<Rightarrow> Inl (lit ''policy does not allow commands for this account'')
         | Some True \<Rightarrow> Inr ()
         | None \<Rightarrow> next_check who kind)"

section \<open>The host's channels\<close>

text \<open>
  A command that was started, with what its threads share: whether its channel was closed, whether it was
  asked to end, whether the waiting thread is still there, the input on its way and the input it was given.
\<close>

record running =
  rn_id :: channel_id
  rn_kind :: channel_kind
  rn_closed :: bool
  rn_killed :: bool
  rn_waiting :: bool
  rn_size :: "terminal_size option"
  rn_input :: "bytes option list"
  rn_given :: "bytes option list"
  rn_writable :: bool

text \<open>
  The channels of a session: the table by channel, the commands by serial, the statuses a host application
  sees, the next serial, the answers the session's task has yet to send, and what went to the client,
  each message with the command whose thread sent it.
\<close>

record channels =
  cs_open :: "(channel_id \<times> nat) list"
  cs_running :: "nat \<rightharpoonup> running"
  cs_status :: "(nat \<times> channel_id \<times> rstr) list"
  cs_serial :: nat
  cs_queue :: "command_message list"
  cs_sent :: "(nat option \<times> command_message) list"

definition channels_new :: "nat \<Rightarrow> channels" where
  "channels_new serial = \<lparr>cs_open = [], cs_running = Map.empty, cs_status = [], cs_serial = serial, cs_queue = [], cs_sent = []\<rparr>"

text \<open>What the system does with one open: its own starts, its services, and the RemoteApps.\<close>

record host_env =
  he_auth :: authorizer
  he_start :: "channel_kind \<Rightarrow> rstr + u32 option"
  he_shares :: bool
  he_chat :: bool
  he_watch :: "rstr + unit"
  he_apps :: "(asker \<Rightarrow> rstr list \<Rightarrow> rstr option \<Rightarrow> (remote_app_refusal + unit) option) option"

definition what_is :: "channel_kind \<Rightarrow> rstr" where
  "what_is kind =
     (case kind of
        Shell _ \<Rightarrow> lit ''shell''
      | FilesChannel \<Rightarrow> lit ''files''
      | WatchChannel _ _ _ _ \<Rightarrow> lit ''watch''
      | ChatChannel \<Rightarrow> lit ''chat''
      | Exec argv _ \<Rightarrow> (case argv of [] \<Rightarrow> [] | a # _ \<Rightarrow> a)
      | Launch argv _ _ \<Rightarrow> (case argv of [] \<Rightarrow> [] | a # _ \<Rightarrow> a))"

definition start_channel :: "(channel_kind \<Rightarrow> rstr + u32 option) \<Rightarrow> channel_kind \<Rightarrow> rstr + u32 option" where
  "start_channel starter kind =
     (case kind of
        Shell _ \<Rightarrow> starter kind
      | Exec argv _ \<Rightarrow> if argv = [] then Inl (lit ''no command'') else starter kind
      | Launch _ _ _ \<Rightarrow> Inl (lit ''a launch is not a stream'')
      | _ \<Rightarrow> Inl (lit ''files and chat are not a process''))"

definition is_service :: "channel_kind \<Rightarrow> bool" where
  "is_service kind = (case kind of FilesChannel \<Rightarrow> True | WatchChannel _ _ _ _ \<Rightarrow> True | ChatChannel \<Rightarrow> True | _ \<Rightarrow> False)"

text \<open>The part of \<open>start\<close> that starts something: the process id or why not.\<close>

definition start_process :: "host_env \<Rightarrow> channel_kind \<Rightarrow> rstr + u32 option" where
  "start_process env kind =
     (if is_service kind then
        if kind \<noteq> ChatChannel \<and> \<not> he_shares env then Inl (lit ''this host shares no folders'')
        else (case kind of
            ChatChannel \<Rightarrow> if he_chat env then Inr None else Inl (lit ''this host has no chat'')
          | WatchChannel _ _ _ _ \<Rightarrow> map_sum id (\<lambda>_. None) (he_watch env)
          | _ \<Rightarrow> Inr None)
      else start_channel (he_start env) kind)"

definition new_running :: "channel_id \<Rightarrow> channel_kind \<Rightarrow> running" where
  "new_running ident kind =
     \<lparr>rn_id = ident, rn_kind = kind, rn_closed = False, rn_killed = False, rn_waiting = True, rn_size = None,
       rn_input = [], rn_given = [], rn_writable = True\<rparr>"

definition channels_start ::
  "host_env \<Rightarrow> asker \<Rightarrow> channel_id \<Rightarrow> channel_kind \<Rightarrow> channels \<Rightarrow> (rstr + u32 option) \<times> channels" where
  "channels_start env who ident kind cs =
     (let cs = cs\<lparr>cs_open := filter (\<lambda>(_, s). case cs_running cs s of None \<Rightarrow> False | Some r \<Rightarrow> \<not> rn_closed r) (cs_open cs)\<rparr>
      in if map_of (cs_open cs) ident \<noteq> None then (Inl (lit ''that channel is already open''), cs)
         else if MAX_CHANNELS \<le> length (cs_open cs) then (Inl (lit ''too many channels open''), cs)
         else case he_auth env who kind of
           Inl reason \<Rightarrow> (Inl reason, cs)
         | Inr _ \<Rightarrow>
             (case kind of
                Launch argv _ _ \<Rightarrow> (if argv = [] then Inl (lit ''no application'') else he_start env kind, cs)
              | _ \<Rightarrow>
                  (case start_process env kind of
                     Inl reason \<Rightarrow> (Inl reason, cs)
                   | Inr pid \<Rightarrow>
                       (let serial = cs_serial cs
                        in (Inr pid, cs\<lparr>cs_open := cs_open cs @ [(ident, serial)],
                             cs_running := (cs_running cs)(serial \<mapsto> new_running ident kind),
                             cs_status := cs_status cs @ [(serial, ident, what_is kind)],
                             cs_serial := serial + 1\<rparr>)))))"

definition serve_remote_app :: "host_env \<Rightarrow> asker \<Rightarrow> channel_kind \<Rightarrow> (remote_app_refusal + unit) option" where
  "serve_remote_app env who kind =
     (case kind of
        Launch argv True password \<Rightarrow>
          (case he_apps env of
             None \<Rightarrow> None
           | Some provider \<Rightarrow>
               (case he_auth env who kind of
                  Inl reason \<Rightarrow> Some (Inl (AppRefused reason))
                | Inr _ \<Rightarrow> provider who argv password))
      | _ \<Rightarrow> None)"

definition is_launch :: "channel_kind \<Rightarrow> bool" where
  "is_launch kind = (case kind of Launch _ _ _ \<Rightarrow> True | _ \<Rightarrow> False)"

definition on_terminal :: "channel_kind \<Rightarrow> bool" where
  "on_terminal kind = (case kind of Shell _ \<Rightarrow> True | Exec _ (Some _) \<Rightarrow> True | _ \<Rightarrow> False)"

definition with_channel :: "channel_id \<Rightarrow> (running \<Rightarrow> running) \<Rightarrow> channels \<Rightarrow> channels" where
  "with_channel ident f cs =
     (case map_of (cs_open cs) ident of
        None \<Rightarrow> cs
      | Some s \<Rightarrow> cs\<lparr>cs_running := (cs_running cs)(s := map_option f (cs_running cs s))\<rparr>)"

text \<open>
  Closing a channel, by the client or with the session: the flag is set, the command is asked to end and
  its status goes.
\<close>

definition close_one :: "nat \<Rightarrow> channels \<Rightarrow> channels" where
  "close_one s cs =
     cs\<lparr>cs_running := (cs_running cs)(s := map_option (\<lambda>r. r\<lparr>rn_closed := True, rn_killed := True\<rparr>) (cs_running cs s)),
       cs_status := filter (\<lambda>(s', _). s' \<noteq> s) (cs_status cs)\<rparr>"

fun channels_handle :: "host_env \<Rightarrow> asker \<Rightarrow> command_message \<Rightarrow> channels \<Rightarrow> channels" where
  "channels_handle env who (Open ident kind) cs =
     (case serve_remote_app env who kind of
        Some answer \<Rightarrow>
          cs\<lparr>cs_queue := (case answer of
              Inr _ \<Rightarrow> [Opened ident None, Exited ident None]
            | Inl (AppPassword username) \<Rightarrow> [PasswordNeeded ident username]
            | Inl (AppRefused reason) \<Rightarrow> [Refused ident reason])\<rparr>
      | None \<Rightarrow>
          (case channels_start env who ident kind cs of
             (Inr pid, cs) \<Rightarrow> cs\<lparr>cs_queue := Opened ident pid # (if is_launch kind then [Exited ident None] else [])\<rparr>
           | (Inl reason, cs) \<Rightarrow> cs\<lparr>cs_queue := [Refused ident reason]\<rparr>))"
| "channels_handle env who (Data ident bs) cs = with_channel ident (\<lambda>r. r\<lparr>rn_input := rn_input r @ [Some bs]\<rparr>) cs"
| "channels_handle env who (Eof ident) cs = with_channel ident (\<lambda>r. r\<lparr>rn_input := rn_input r @ [None]\<rparr>) cs"
| "channels_handle env who (Resize ident sz) cs =
     with_channel ident (\<lambda>r. if on_terminal (rn_kind r) then r\<lparr>rn_size := Some (clamped sz)\<rparr> else r) cs"
| "channels_handle env who (CloseChannel ident) cs =
     (case map_of (cs_open cs) ident of
        None \<Rightarrow> cs
      | Some s \<Rightarrow> close_one s (cs\<lparr>cs_open := filter (\<lambda>(i, _). i \<noteq> ident) (cs_open cs)\<rparr>))"
| "channels_handle env who _ cs = cs"

text \<open>The session ends: every open channel is closed.\<close>

definition channels_drop :: "channels \<Rightarrow> channels" where
  "channels_drop cs = foldl (\<lambda>cs (_, s). close_one s cs) cs (cs_open cs)"

text \<open>
  The waiting thread when its command has ended. It takes the command out of the status list just before it sets the
  closed flag; the two are one step here, as nothing is sent between them.
\<close>

definition command_ends :: "nat \<Rightarrow> u32 option \<Rightarrow> running \<Rightarrow> channels \<Rightarrow> channels" where
  "command_ends s code r cs =
     cs\<lparr>cs_running := (cs_running cs)(s \<mapsto> r\<lparr>rn_closed := True, rn_waiting := False\<rparr>),
       cs_status := filter (\<lambda>(s', _). s' \<noteq> s) (cs_status cs),
       cs_sent := cs_sent cs @ (if rn_closed r then [] else [(Some s, Exited (rn_id r) code)])\<rparr>"

text \<open>
  The steps: the task takes the next message once it has sent its answers, and sends them; a command's
  input thread gives it one input, which a write error ends; a reader (or a service) sends bytes while the
  waiting thread is there; the waiting thread ends; another session takes a serial.
\<close>

inductive channels_step :: "asker \<Rightarrow> channels \<Rightarrow> channels \<Rightarrow> bool" for who where
  handles: "cs_queue cs = [] \<Longrightarrow> channels_step who cs (channels_handle env who m cs)"
| sends: "cs_queue cs = m # ms \<Longrightarrow> channels_step who cs (cs\<lparr>cs_queue := ms, cs_sent := cs_sent cs @ [(None, m)]\<rparr>)"
| gives: "cs_running cs s = Some r \<Longrightarrow> rn_input r = x # xs \<Longrightarrow> rn_writable r
    \<Longrightarrow> channels_step who cs (cs\<lparr>cs_running := (cs_running cs)(s \<mapsto> r\<lparr>rn_input := xs, rn_given := rn_given r @ [x]\<rparr>)\<rparr>)"
| breaks: "cs_running cs s = Some r \<Longrightarrow> rn_input r = Some bs # xs \<Longrightarrow> rn_writable r
    \<Longrightarrow> channels_step who cs (cs\<lparr>cs_running := (cs_running cs)(s \<mapsto> r\<lparr>rn_input := xs, rn_writable := False\<rparr>)\<rparr>)"
| writes: "cs_running cs s = Some r \<Longrightarrow> rn_waiting r \<or> is_service (rn_kind r)
    \<Longrightarrow> channels_step who cs (cs\<lparr>cs_sent := cs_sent cs @ [(Some s, Data (rn_id r) bs)]\<rparr>)"
| ends: "cs_running cs s = Some r \<Longrightarrow> rn_waiting r \<Longrightarrow> channels_step who cs (command_ends s code r cs)"
| elsewhere: "channels_step who cs (cs\<lparr>cs_serial := cs_serial cs + 1\<rparr>)"

inductive channels_reach :: "asker \<Rightarrow> channels \<Rightarrow> bool" for who where
  begins: "channels_reach who (channels_new serial)"
| steps: "channels_reach who cs \<Longrightarrow> channels_step who cs cs' \<Longrightarrow> channels_reach who cs'"

section \<open>What holds of a session's channels\<close>

text \<open>
  The table holds commands that were started, each under its number and at most eight; a command whose
  channel is not closed is in the table and its waiting thread is there; the statuses are of those.
\<close>

definition table_ok :: "channels \<Rightarrow> bool" where
  "table_ok cs = (distinct (map fst (cs_open cs)) \<and> length (cs_open cs) \<le> MAX_CHANNELS
     \<and> (\<forall>i s. (i, s) \<in> set (cs_open cs) \<longrightarrow> map_option rn_id (cs_running cs s) = Some i)
     \<and> (\<forall>s r. cs_running cs s = Some r \<longrightarrow> s < cs_serial cs
          \<and> (\<not> rn_closed r \<longrightarrow> rn_waiting r \<and> (rn_id r, s) \<in> set (cs_open cs)))
     \<and> fst ` set (cs_status cs) = {s. \<exists>r. cs_running cs s = Some r \<and> \<not> rn_closed r})"

lemma table_ok_new: "table_ok (channels_new serial)"
  by (simp add: table_ok_def channels_new_def)

lemma table_ok_cong:
  assumes "cs_open cs' = cs_open cs" "cs_running cs' = cs_running cs" "cs_status cs' = cs_status cs" "cs_serial cs \<le> cs_serial cs'"
  shows "table_ok cs \<Longrightarrow> table_ok cs'"
  using assms unfolding table_ok_def by (metis order.strict_trans2)

lemma table_ok_prune:
  "table_ok cs \<Longrightarrow> table_ok (cs\<lparr>cs_open := filter (\<lambda>(_, s). case cs_running cs s of None \<Rightarrow> False | Some r \<Rightarrow> \<not> rn_closed r) (cs_open cs)\<rparr>)"
  unfolding table_ok_def
  by (intro conjI) (auto simp: distinct_map_filter intro: order.trans [OF length_filter_le])

lemma table_ok_add:
  assumes "table_ok cs" "map_of (cs_open cs) ident = None" "length (cs_open cs) < MAX_CHANNELS"
  shows "table_ok (cs\<lparr>cs_open := cs_open cs @ [(ident, cs_serial cs)], cs_running := (cs_running cs)(cs_serial cs \<mapsto> new_running ident kind),
      cs_status := cs_status cs @ [(cs_serial cs, ident, what)], cs_serial := cs_serial cs + 1\<rparr>)"
proof -
  have "cs_running cs (cs_serial cs) = None"
    using assms(1) by (auto simp: table_ok_def) (metis less_irrefl not_None_eq)
  moreover have "ident \<notin> fst ` set (cs_open cs)"
    using assms(2) by (simp add: map_of_eq_None_iff)
  ultimately show ?thesis
    using assms(1,3) unfolding table_ok_def
    by (auto simp: new_running_def image_iff less_Suc_eq split: if_splits) blast+
qed

lemma table_ok_id: "table_ok cs \<Longrightarrow> cs_running cs s = Some r \<Longrightarrow> (i, s) \<in> set (cs_open cs) \<Longrightarrow> rn_id r = i"
  unfolding table_ok_def by (metis option.map(2) option.inject)

text \<open>A change of a command that keeps its number, its flag and its waiting thread.\<close>

lemma table_ok_change:
  assumes "table_ok cs" "cs_running cs s = Some r" "rn_id r' = rn_id r" "rn_closed r' = rn_closed r" "rn_waiting r' = rn_waiting r"
  shows "table_ok (cs\<lparr>cs_running := (cs_running cs)(s \<mapsto> r')\<rparr>)"
  using assms table_ok_id [OF assms(1,2)] unfolding table_ok_def by auto

lemma table_ok_with:
  assumes "table_ok cs" "\<And>r. rn_id (f r) = rn_id r \<and> rn_closed (f r) = rn_closed r \<and> rn_waiting (f r) = rn_waiting r"
  shows "table_ok (with_channel ident f cs)"
proof (cases "map_of (cs_open cs) ident")
  case (Some s)
  then obtain r where "cs_running cs s = Some r"
    using map_of_SomeD [OF Some] assms(1) unfolding table_ok_def by blast
  with Some assms show ?thesis
    by (simp add: with_channel_def table_ok_change)
qed (use assms in \<open>simp add: with_channel_def\<close>)

lemma table_ok_close:
  assumes "table_ok cs" "map_of (cs_open cs) ident = Some s"
  shows "table_ok (close_one s (cs\<lparr>cs_open := filter (\<lambda>(i, _). i \<noteq> ident) (cs_open cs)\<rparr>))"
proof -
  define cs' where "cs' = close_one s (cs\<lparr>cs_open := filter (\<lambda>(i, _). i \<noteq> ident) (cs_open cs)\<rparr>)"
  have mem: "(ident, s) \<in> set (cs_open cs)"
    using assms(2) by (rule map_of_SomeD)
  have opened: "(i, s') \<in> set (cs_open cs') \<longleftrightarrow> (i, s') \<in> set (cs_open cs) \<and> i \<noteq> ident" for i s'
    by (auto simp: cs'_def close_one_def)
  have running: "cs_running cs' s' = (if s' = s then map_option (\<lambda>r. r\<lparr>rn_closed := True, rn_killed := True\<rparr>) (cs_running cs s) else cs_running cs s')" for s'
    by (simp add: cs'_def close_one_def)
  have status: "fst ` set (cs_status cs') = fst ` set (cs_status cs) - {s}"
    by (force simp: cs'_def close_one_def)
  have elsewhere: "s' \<noteq> s" if "(i, s') \<in> set (cs_open cs)" "i \<noteq> ident" for i s'
    using assms(1) mem that unfolding table_ok_def by (metis option.inject)
  have ids: "map_option rn_id (cs_running cs s') = Some i" if "(i, s') \<in> set (cs_open cs)" for i s'
    using assms(1) that unfolding table_ok_def by blast
  have 1: "map_option rn_id (cs_running cs' s') = Some i" if "(i, s') \<in> set (cs_open cs')" for i s'
    using that elsewhere [of i s'] ids [of i s'] unfolding opened running by auto
  have "i \<noteq> ident" if "(i, s') \<in> set (cs_open cs)" "s' \<noteq> s" for i s'
    using assms that unfolding table_ok_def by (metis map_of_is_SomeI option.inject)
  then have kept: "i \<noteq> ident" if "(i, s') \<in> set (cs_open cs)" "s' \<noteq> s" for i s'
    using that by blast
  have 2: "s' < cs_serial cs' \<and> (\<not> rn_closed r \<longrightarrow> rn_waiting r \<and> (rn_id r, s') \<in> set (cs_open cs'))" if "cs_running cs' s' = Some r" for s' r
    using assms(1) that kept unfolding table_ok_def opened running
    by (auto simp: cs'_def close_one_def split: if_splits) blast
  have 3: "distinct (map fst (cs_open cs'))" "length (cs_open cs') \<le> MAX_CHANNELS"
    using assms(1) unfolding table_ok_def by (auto simp: cs'_def close_one_def distinct_map_filter intro: order.trans [OF length_filter_le])
  have 4: "fst ` set (cs_status cs') = {s'. \<exists>r. cs_running cs' s' = Some r \<and> \<not> rn_closed r}"
    using assms(1) unfolding table_ok_def status running by auto
  show ?thesis
    using 1 2 3 4 unfolding table_ok_def cs'_def [symmetric] by blast
qed

lemma table_ok_ends:
  assumes "table_ok cs" "cs_running cs s = Some r"
  shows "table_ok (command_ends s code r cs)"
proof -
  have status: "fst ` {x \<in> set (cs_status cs). (\<lambda>(s', _). s' \<noteq> s) x} = fst ` set (cs_status cs) - {s}"
    by force
  show ?thesis
    using assms table_ok_id [OF assms] unfolding table_ok_def command_ends_def by (auto simp: status)
qed

lemma table_ok_start:
  assumes "table_ok cs"
  shows "table_ok (snd (channels_start env who ident kind cs))"
proof -
  define pruned where "pruned = cs\<lparr>cs_open := filter (\<lambda>(_, s). case cs_running cs s of None \<Rightarrow> False | Some r \<Rightarrow> \<not> rn_closed r) (cs_open cs)\<rparr>"
  have ok: "table_ok pruned"
    unfolding pruned_def by (rule table_ok_prune [OF assms])
  show ?thesis
    using ok table_ok_add [OF ok, where kind = kind and what = "what_is kind"]
    by (auto simp: channels_start_def Let_def simp flip: pruned_def split: sum.split channel_kind.split)
qed

lemma table_ok_handle:
  assumes "table_ok cs"
  shows "table_ok (channels_handle env who m cs)"
proof (cases m)
  case (Open ident kind)
  have "table_ok (cs'\<lparr>cs_queue := q\<rparr>)" if "table_ok cs'" for cs' q
    using that by (rule table_ok_cong [rotated 4]) simp_all
  with table_ok_start [OF assms, of env who ident kind] assms show ?thesis
    by (auto simp: Open split: option.split sum.split prod.split)
next
  case (CloseChannel ident)
  with assms table_ok_close show ?thesis
    by (auto split: option.split)
next
  case (Resize ident sz)
  have "table_ok (with_channel ident (\<lambda>r. if on_terminal (rn_kind r) then r\<lparr>rn_size := Some (clamped sz)\<rparr> else r) cs)"
    by (rule table_ok_with [OF assms]) simp
  then show ?thesis
    by (simp add: Resize)
qed (use assms in \<open>auto intro!: table_ok_with\<close>)

lemma table_ok_step: "channels_step who cs cs' \<Longrightarrow> table_ok cs \<Longrightarrow> table_ok cs'"
proof (induction rule: channels_step.induct)
  case (sends cs m ms)
  then show ?case
    by (rule_tac table_ok_cong [of _ cs]) simp_all
next
  case (writes cs s r bs)
  then show ?case
    by (rule_tac table_ok_cong [of _ cs]) simp_all
next
  case (elsewhere cs)
  then show ?case
    by (rule_tac table_ok_cong [of _ cs]) simp_all
qed (auto intro: table_ok_handle table_ok_ends table_ok_change)

lemma table_ok_reach: "channels_reach who cs \<Longrightarrow> table_ok cs"
  by (induction rule: channels_reach.induct) (auto intro: table_ok_new table_ok_step)

section \<open>The order of a command's messages\<close>

text \<open>What the threads of a command have sent.\<close>

definition said_by :: "nat \<Rightarrow> channels \<Rightarrow> command_message list" where
  "said_by s cs = map snd (filter (\<lambda>(t, _). t = Some s) (cs_sent cs))"

text \<open>The messages are data, then the exit at most once, and it only when the waiting thread is done.\<close>

definition says_ok :: "channels \<Rightarrow> nat \<Rightarrow> running \<Rightarrow> bool" where
  "says_ok cs s r = (\<exists>bss codes. said_by s cs = map (Data (rn_id r)) bss @ map (Exited (rn_id r)) codes
     \<and> length codes \<le> 1 \<and> (rn_waiting r \<longrightarrow> codes = []))"

text \<open>A command after a step of the task: what its threads rely on stays.\<close>

definition same_command :: "running \<Rightarrow> running \<Rightarrow> bool" where
  "same_command r r' = (rn_id r' = rn_id r \<and> rn_kind r' = rn_kind r \<and> rn_waiting r' = rn_waiting r \<and> (rn_closed r \<longrightarrow> rn_closed r'))"

lemma same_command_refl [simp]: "same_command r r"
  by (simp add: same_command_def)

definition commands_kept :: "channels \<Rightarrow> channels \<Rightarrow> bool" where
  "commands_kept cs cs' = (cs_sent cs' = cs_sent cs
     \<and> (\<forall>s r. cs_running cs s = Some r \<longrightarrow> (\<exists>r'. cs_running cs' s = Some r' \<and> same_command r r'))
     \<and> (\<forall>s. cs_running cs s = None \<longrightarrow> cs_running cs' s \<noteq> None \<longrightarrow> s = cs_serial cs))"

lemma commands_kept_refl: "cs_sent cs' = cs_sent cs \<Longrightarrow> cs_running cs' = cs_running cs \<Longrightarrow> commands_kept cs cs'"
  by (simp add: commands_kept_def)

lemma commands_kept_map:
  assumes "cs_sent cs' = cs_sent cs" "cs_running cs' = (cs_running cs)(s := map_option f (cs_running cs s))" "\<And>r. same_command r (f r)"
  shows "commands_kept cs cs'"
  using assms by (auto simp: commands_kept_def)

lemma commands_kept_handle:
  assumes "table_ok cs"
  shows "commands_kept cs (channels_handle env who m cs)"
proof (cases m)
  case (Open ident kind)
  have fresh: "cs_running cs (cs_serial cs) = None"
    using assms unfolding table_ok_def by (metis less_irrefl not_None_eq)
  have "commands_kept cs ((snd (channels_start env who ident kind cs))\<lparr>cs_queue := q\<rparr>)" for q
    using fresh by (auto simp: commands_kept_def channels_start_def Let_def split: sum.split channel_kind.split)
  then show ?thesis
    by (auto simp: Open commands_kept_refl split: option.split sum.split prod.split)
next
  case (Data ident bs)
  show ?thesis
    by (auto simp: Data with_channel_def same_command_def intro: commands_kept_refl commands_kept_map split: option.split)
next
  case (Eof ident)
  show ?thesis
    by (auto simp: Eof with_channel_def same_command_def intro: commands_kept_refl commands_kept_map split: option.split)
next
  case (Resize ident sz)
  show ?thesis
    by (auto simp: Resize with_channel_def same_command_def intro: commands_kept_refl commands_kept_map split: option.split)
next
  case (CloseChannel ident)
  show ?thesis
    by (auto simp: CloseChannel close_one_def same_command_def intro: commands_kept_refl commands_kept_map split: option.split)
qed (simp_all add: commands_kept_refl)

definition order_ok :: "channels \<Rightarrow> bool" where
  "order_ok cs = ((\<forall>t s. (t, s) \<in> set (cs_sent cs) \<longrightarrow> t \<noteq> None \<longrightarrow> cs_running cs (the t) \<noteq> None)
     \<and> (\<forall>s r. cs_running cs s = Some r \<longrightarrow> \<not> is_service (rn_kind r) \<longrightarrow> says_ok cs s r))"

lemma order_ok_kept:
  assumes "order_ok cs" "commands_kept cs cs'"
  shows "order_ok cs'"
proof -
  have sent: "cs_sent cs' = cs_sent cs" and said: "said_by s cs' = said_by s cs" for s
    using assms(2) by (simp_all add: commands_kept_def said_by_def)
  have "says_ok cs' s r'" if r': "cs_running cs' s = Some r'" "\<not> is_service (rn_kind r')" for s r'
  proof (cases "cs_running cs s")
    case None
    then have "said_by s cs = []"
      using assms(1) by (fastforce simp: order_ok_def said_by_def filter_empty_conv)
    then show ?thesis
      by (simp add: says_ok_def said)
  next
    case (Some r)
    with r' assms(2) have "same_command r r'"
      unfolding commands_kept_def by fastforce
    with Some r' assms(1) show ?thesis
      unfolding order_ok_def says_ok_def said same_command_def by metis
  qed
  moreover have "cs_running cs' (the t) \<noteq> None" if "(t, m) \<in> set (cs_sent cs')" "t \<noteq> None" for t m
    using assms that sent unfolding order_ok_def commands_kept_def by (metis option.exhaust option.distinct(1))
  ultimately show ?thesis
    by (auto simp: order_ok_def)
qed

lemma said_by_snoc: "said_by s (cs\<lparr>cs_sent := cs_sent cs @ [(t, m)]\<rparr>) = said_by s cs @ (if t = Some s then [m] else [])"
  by (simp add: said_by_def)

lemma order_ok_step: "channels_step who cs cs' \<Longrightarrow> table_ok cs \<Longrightarrow> order_ok cs \<Longrightarrow> order_ok cs'"
proof (induction rule: channels_step.induct)
  case (handles cs env m)
  then show ?case
    by (blast intro: order_ok_kept commands_kept_handle)
next
  case (sends cs m ms)
  then show ?case
    by (auto simp: order_ok_def says_ok_def said_by_def)
next
  case (gives cs s r x xs)
  show ?case
    by (rule order_ok_kept [OF gives(5)]) (use gives(1) in \<open>auto simp: commands_kept_def same_command_def\<close>)
next
  case (breaks cs s r bs xs)
  show ?case
    by (rule order_ok_kept [OF breaks(5)]) (use breaks(1) in \<open>auto simp: commands_kept_def same_command_def\<close>)
next
  case (writes cs s r bs)
  show ?case
    unfolding order_ok_def
  proof (intro conjI allI impI)
    fix s' r'
    assume r': "cs_running (cs\<lparr>cs_sent := cs_sent cs @ [(Some s, Data (rn_id r) bs)]\<rparr>) s' = Some r'" "\<not> is_service (rn_kind r')"
    then obtain bss codes where said: "said_by s' cs = map (Data (rn_id r')) bss @ map (Exited (rn_id r')) codes"
        "length codes \<le> 1" "rn_waiting r' \<longrightarrow> codes = []"
      using writes(4) unfolding order_ok_def says_ok_def by auto blast
    show "says_ok (cs\<lparr>cs_sent := cs_sent cs @ [(Some s, Data (rn_id r) bs)]\<rparr>) s' r'"
    proof (cases "s' = s")
      case True
      then have "codes = []" "r' = r"
        using writes(1,2) r' said(3) by auto
      then show ?thesis
        using said True unfolding says_ok_def said_by_snoc
        by (intro exI [of _ "bss @ [bs]"] exI [of _ "[]"]) simp
    next
      case False
      with said show ?thesis
        unfolding says_ok_def said_by_snoc by auto
    qed
  qed (use writes in \<open>auto simp: order_ok_def\<close>)
next
  case (ends cs s r code)
  have said: "said_by s' (command_ends s code r cs) = said_by s' cs @ (if s' = s \<and> \<not> rn_closed r then [Exited (rn_id r) code] else [])" for s'
    by (simp add: said_by_def command_ends_def)
  show ?case
    unfolding order_ok_def
  proof (intro conjI allI impI)
    fix s' r'
    assume r': "cs_running (command_ends s code r cs) s' = Some r'" "\<not> is_service (rn_kind r')"
    show "says_ok (command_ends s code r cs) s' r'"
    proof (cases "s' = s")
      case True
      then have r'_eq: "r' = r\<lparr>rn_closed := True, rn_waiting := False\<rparr>"
        using r'(1) by (simp add: command_ends_def)
      obtain bss where "said_by s cs = map (Data (rn_id r)) bss"
        using ends r' unfolding r'_eq order_ok_def says_ok_def by fastforce
      then show ?thesis
        unfolding says_ok_def said True r'_eq
        by (intro exI [of _ bss] exI [of _ "if rn_closed r then [] else [code]"]) simp
    next
      case False
      then have "says_ok cs s' r'"
        using r' ends(4) by (simp add: command_ends_def order_ok_def)
      with False show ?thesis
        by (simp add: says_ok_def said)
    qed
  qed (use ends in \<open>auto simp: order_ok_def command_ends_def split: if_splits\<close>)
next
  case (elsewhere cs)
  then show ?case
    by (auto simp: order_ok_def says_ok_def said_by_def)
qed

lemma order_ok_reach: "channels_reach who cs \<Longrightarrow> order_ok cs"
proof (induction rule: channels_reach.induct)
  case (begins serial)
  show ?case
    by (simp add: order_ok_def channels_new_def)
next
  case (steps cs cs')
  then show ?case
    by (blast intro: order_ok_step table_ok_reach)
qed

text \<open>
  C26. The channels of a session keep to their bounds whatever a client sends and however the threads
  interleave: at most eight are open, each under its own number; the statuses shown are exactly those of the
  commands whose channel is not closed, and each of those is open and still waited for.
\<close>

theorem session_channels_ok:
  assumes "channels_reach who cs"
  shows "length (cs_open cs) \<le> 8 \<and> distinct (map fst (cs_open cs))
    \<and> fst ` set (cs_status cs) = {s. \<exists>r. cs_running cs s = Some r \<and> \<not> rn_closed r}
    \<and> {s. \<exists>r. cs_running cs s = Some r \<and> \<not> rn_closed r}
        \<subseteq> {s. \<exists>r. cs_running cs s = Some r \<and> rn_waiting r \<and> (rn_id r, s) \<in> set (cs_open cs)}"
  using table_ok_reach [OF assms] unfolding table_ok_def MAX_CHANNELS_def by blast

text \<open>
  What a command's threads send is in order however they interleave with the rest: its output, each
  message under its own channel's number, and after that at most one exit, which is there only when the
  waiting thread is done.
\<close>

theorem command_output_in_order:
  assumes "channels_reach who cs" "cs_running cs s = Some r" "\<not> is_service (rn_kind r)"
  shows "\<exists>bss codes. said_by s cs = map (Data (rn_id r)) bss @ map (Exited (rn_id r)) codes
    \<and> length codes \<le> (if rn_waiting r then 0 else 1)"
proof -
  have "says_ok cs s r"
    using order_ok_reach [OF assms(1)] assms(2,3) by (simp add: order_ok_def)
  then show ?thesis
    unfolding says_ok_def by fastforce
qed

text \<open>A closed channel's command says no exit any more.\<close>

lemma closed_says_no_exit:
  assumes "channels_step who cs cs'" "table_ok cs" "cs_running cs s = Some r" "rn_closed r"
  shows "(\<exists>r'. cs_running cs' s = Some r' \<and> rn_closed r')
    \<and> filter (\<lambda>m. case m of Exited _ _ \<Rightarrow> True | _ \<Rightarrow> False) (said_by s cs')
      = filter (\<lambda>m. case m of Exited _ _ \<Rightarrow> True | _ \<Rightarrow> False) (said_by s cs)"
  using assms
proof (induction rule: channels_step.induct)
  case (handles cs env m)
  have "commands_kept cs (channels_handle env who m cs)"
    using handles(2) by (rule commands_kept_handle)
  with handles(3,4) show ?case
    by (fastforce simp: commands_kept_def same_command_def said_by_def)
qed (auto simp: said_by_def command_ends_def)

section \<open>Sessions of the client: routes\<close>

text \<open>
  The answer an open waits for, and what a channel reports. A route has the place of the answer until it
  was used; the answers that came, and the answers that can no longer come because their place was
  dropped, are kept for the waiting calls.
\<close>

datatype open_answer = PidAnswer "u32 option" | PasswordAnswer rstr | RefusedAnswer rstr | NoAnswer

datatype channel_event = DataEvent bytes | ExitedEvent "u32 option" | ClosedEvent

record routes =
  ro_map :: "(channel_id \<times> bool) list"
  ro_next :: u32
  ro_answers :: "(channel_id \<times> open_answer) list"
  ro_events :: "(channel_id \<times> channel_event) list"

definition routes_new :: routes where
  "routes_new = \<lparr>ro_map = [], ro_next = 0, ro_answers = [], ro_events = []\<rparr>"

definition route_open :: "routes \<Rightarrow> channel_id \<times> routes" where
  "route_open ro = (ro_next ro, ro\<lparr>ro_map := AList.update (ro_next ro) True (ro_map ro), ro_next := ro_next ro + 1\<rparr>)"

text \<open>A route goes with its place for the answer; \<open>answer\<close> is what was put there first, if anything.\<close>

definition route_remove :: "channel_id \<Rightarrow> open_answer option \<Rightarrow> routes \<Rightarrow> routes" where
  "route_remove ident answer ro =
     (case map_of (ro_map ro) ident of
        None \<Rightarrow> ro
      | Some waits \<Rightarrow> ro\<lparr>ro_map := AList.delete ident (ro_map ro),
          ro_answers := ro_answers ro @ (if waits then [(ident, case answer of Some a \<Rightarrow> a | None \<Rightarrow> NoAnswer)] else [])\<rparr>)"

definition route_event :: "channel_id \<Rightarrow> channel_event list \<Rightarrow> routes \<Rightarrow> routes" where
  "route_event ident es ro =
     (if map_of (ro_map ro) ident = None then ro else ro\<lparr>ro_events := ro_events ro @ map (Pair ident) es\<rparr>)"

fun routes_handle :: "command_message \<Rightarrow> routes \<Rightarrow> routes" where
  "routes_handle (Opened ident pid) ro =
     (if map_of (ro_map ro) ident = Some True
      then ro\<lparr>ro_map := AList.update ident False (ro_map ro), ro_answers := ro_answers ro @ [(ident, PidAnswer pid)]\<rparr>
      else ro)"
| "routes_handle (PasswordNeeded ident username) ro = route_remove ident (Some (PasswordAnswer username)) ro"
| "routes_handle (Refused ident reason) ro = route_remove ident (Some (RefusedAnswer reason)) ro"
| "routes_handle (Data ident bs) ro = route_event ident [DataEvent bs] ro"
| "routes_handle (Exited ident code) ro = route_remove ident None (route_event ident [ExitedEvent code, ClosedEvent] ro)"
| "routes_handle _ ro = ro"

definition close_all :: "routes \<Rightarrow> routes" where
  "close_all ro = ro\<lparr>ro_map := [],
     ro_answers := ro_answers ro @ map (\<lambda>(i, _). (i, RefusedAnswer (lit ''the session ended''))) (filter snd (ro_map ro)),
     ro_events := ro_events ro @ map (\<lambda>(i, _). (i, ClosedEvent)) (ro_map ro)\<rparr>"

definition events_of :: "channel_id \<Rightarrow> routes \<Rightarrow> channel_event list" where
  "events_of ident ro = map snd (filter (\<lambda>(i, _). i = ident) (ro_events ro))"

definition answers_of :: "channel_id \<Rightarrow> routes \<Rightarrow> open_answer list" where
  "answers_of ident ro = map snd (filter (\<lambda>(i, _). i = ident) (ro_answers ro))"

text \<open>The channel a message is about.\<close>

fun about :: "command_message \<Rightarrow> channel_id" where
  "about (Open i _) = i"
| "about (Opened i _) = i"
| "about (PasswordNeeded i _) = i"
| "about (Refused i _) = i"
| "about (Data i _) = i"
| "about (Resize i _) = i"
| "about (Eof i) = i"
| "about (CloseChannel i) = i"
| "about (Exited i _) = i"

definition route_view :: "channel_id \<Rightarrow> routes \<Rightarrow> bool option \<times> open_answer list \<times> channel_event list" where
  "route_view ident ro = (map_of (ro_map ro) ident, answers_of ident ro, events_of ident ro)"

lemma route_view_other: "about m \<noteq> ident \<Longrightarrow> route_view ident (routes_handle m ro) = route_view ident ro"
  by (cases m) (auto simp: route_view_def route_remove_def route_event_def answers_of_def events_of_def
      update_conv' delete_conv' split: option.split)

text \<open>What a message about a channel does to the view of it.\<close>

fun view_step :: "command_message \<Rightarrow> bool option \<times> open_answer list \<times> channel_event list \<Rightarrow> bool option \<times> open_answer list \<times> channel_event list" where
  "view_step (Opened i pid) (w, as, es) = (if w = Some True then (Some False, as @ [PidAnswer pid], es) else (w, as, es))"
| "view_step (PasswordNeeded i u) (w, as, es) = (None, as @ (if w = Some True then [PasswordAnswer u] else []), es)"
| "view_step (Refused i reason) (w, as, es) = (None, as @ (if w = Some True then [RefusedAnswer reason] else []), es)"
| "view_step (Data i bs) (w, as, es) = (w, as, es @ (if w = None then [] else [DataEvent bs]))"
| "view_step (Exited i code) (w, as, es) =
     (None, as @ (if w = Some True then [NoAnswer] else []), es @ (if w = None then [] else [ExitedEvent code, ClosedEvent]))"
| "view_step _ v = v"

lemma route_view_own: "about m = ident \<Longrightarrow> route_view ident (routes_handle m ro) = view_step m (route_view ident ro)"
  by (cases m) (auto simp: route_view_def route_remove_def route_event_def answers_of_def events_of_def
      update_conv' delete_conv' comp_def split: option.split)

lemma routes_view:
  "route_view ident (foldl (\<lambda>ro m. routes_handle m ro) ro ms)
    = foldl (\<lambda>v m. view_step m v) (route_view ident ro) (filter (\<lambda>m. about m = ident) ms)"
  by (induction ms arbitrary: ro) (auto simp: route_view_own route_view_other)

lemma view_data: "w \<noteq> None \<Longrightarrow>
    foldl (\<lambda>v m. view_step m v) (w, as, es) (map (Data i) bss) = (w, as, es @ map DataEvent bss)"
  by (induction bss arbitrary: es) auto

lemma view_new: "route_view (ro_next ro) (snd (route_open ro)) = (Some True, answers_of (ro_next ro) ro, events_of (ro_next ro) ro)"
  by (simp add: route_view_def route_open_def update_conv' answers_of_def events_of_def)

text \<open>What \<open>open\<close> makes of the first answer that comes in time.\<close>

definition open_result :: "open_answer option \<Rightarrow> rstr + open_answer" where
  "open_result answer =
     (case answer of
        Some (RefusedAnswer reason) \<Rightarrow> Inl reason
      | Some NoAnswer \<Rightarrow> Inl (lit ''the host did not answer (it may not support commands)'')
      | None \<Rightarrow> Inl (lit ''the host did not answer (it may not support commands)'')
      | Some a \<Rightarrow> Inr a)"

section \<open>Host and client together\<close>

text \<open>
  C17. A command opened on a new channel reports to the client what it said, when its answer went out before
  its threads spoke: the open gives the process id the host gave, and the channel's events are the command's
  output in order, then its exit code and the close once the command has ended.
\<close>

theorem client_sees_the_command:
  assumes reach: "channels_reach who cs" "cs_running cs s = Some r" "\<not> is_service (rn_kind r)"
    and first: "filter (\<lambda>m. about m = rn_id r) (map snd (cs_sent cs)) = Opened (rn_id r) pid # said_by s cs"
    and fresh: "ro_next ro = rn_id r" "answers_of (rn_id r) ro = []" "events_of (rn_id r) ro = []"
  shows "\<exists>bss codes. said_by s cs = map (Data (rn_id r)) bss @ map (Exited (rn_id r)) codes
    \<and> answers_of (rn_id r) (foldl (\<lambda>ro m. routes_handle m ro) (snd (route_open ro)) (map snd (cs_sent cs))) = [PidAnswer pid]
    \<and> events_of (rn_id r) (foldl (\<lambda>ro m. routes_handle m ro) (snd (route_open ro)) (map snd (cs_sent cs)))
      = map DataEvent bss @ concat (map (\<lambda>code. [ExitedEvent code, ClosedEvent]) codes)"
proof -
  obtain bss codes where said: "said_by s cs = map (Data (rn_id r)) bss @ map (Exited (rn_id r)) codes" "length codes \<le> 1"
    using order_ok_reach [OF reach(1)] reach(2,3) unfolding order_ok_def says_ok_def by blast
  have "route_view (rn_id r) (foldl (\<lambda>ro m. routes_handle m ro) (snd (route_open ro)) (map snd (cs_sent cs)))
      = foldl (\<lambda>v m. view_step m v) (Some True, [], []) (Opened (rn_id r) pid # said_by s cs)"
    using view_new [of ro] by (simp add: routes_view first fresh)
  also have "\<dots> = foldl (\<lambda>v m. view_step m v) (Some False, [PidAnswer pid], map DataEvent bss) (map (Exited (rn_id r)) codes)"
    by (simp add: said view_data)
  finally show ?thesis
    using said by (intro exI [of _ bss] exI [of _ codes], cases codes) (auto simp: route_view_def)
qed

text \<open>A host that starts what it is asked for, and one command on it.\<close>

definition plain_env :: host_env where
  "plain_env = \<lparr>he_auth = paired_devices, he_start = \<lambda>_. Inr (Some 7), he_shares = False, he_chat = False, he_watch = Inr (), he_apps = None\<rparr>"

definition someone :: asker where
  "someone = \<lparr>ak_peer = [], ak_account = None\<rparr>"

definition ls_channel :: channel_kind where
  "ls_channel = Exec [[108, 115]] None"

definition opened_ls :: "command_message list \<Rightarrow> (nat option \<times> command_message) list \<Rightarrow> bool \<Rightarrow> channels" where
  "opened_ls q sent over = \<lparr>cs_open = [(0, 0)],
     cs_running = [0 \<mapsto> (new_running 0 ls_channel)\<lparr>rn_closed := over, rn_waiting := \<not> over\<rparr>],
     cs_status = (if over then [] else [(0, 0, [108, 115])]), cs_serial = 1, cs_queue = q, cs_sent = sent\<rparr>"

lemma ls_opens: "channels_reach someone (opened_ls [Opened 0 (Some 7)] [] False)"
proof -
  have "channels_handle plain_env someone (Open 0 ls_channel) (channels_new 0) = opened_ls [Opened 0 (Some 7)] [] False"
    by (simp add: opened_ls_def channels_new_def ls_channel_def serve_remote_app_def channels_start_def plain_env_def paired_devices_def
        start_process_def is_service_def start_channel_def is_launch_def what_is_def new_running_def MAX_CHANNELS_def)
  moreover have "channels_step someone (channels_new 0) (channels_handle plain_env someone (Open 0 ls_channel) (channels_new 0))"
    by (rule channels_step.handles) (simp add: channels_new_def)
  ultimately show ?thesis
    using channels_reach.steps [OF channels_reach.begins] by metis
qed

lemma ls_answers: "channels_reach someone (opened_ls (m # q) sent over) \<Longrightarrow> channels_reach someone (opened_ls q (sent @ [(None, m)]) over)"
  using channels_reach.steps [OF _ channels_step.sends, of someone "opened_ls (m # q) sent over" m q]
  by (simp add: opened_ls_def)

lemma ls_ends:
  "channels_reach someone (opened_ls q sent False) \<Longrightarrow> channels_reach someone (opened_ls q (sent @ [(Some 0, Exited 0 (Some 0))]) True)"
  using channels_reach.steps [OF _ channels_step.ends, of someone "opened_ls q sent False" 0 "new_running 0 ls_channel" "Some 0"]
  by (simp add: opened_ls_def command_ends_def new_running_def)

theorem client_sees_the_command_witness:
  "\<exists>cs r. channels_reach someone cs \<and> cs_running cs 0 = Some r
    \<and> answers_of (rn_id r) (foldl (\<lambda>ro m. routes_handle m ro) (snd (route_open routes_new)) (map snd (cs_sent cs))) = [PidAnswer (Some 7)]"
proof -
  let ?cs = "opened_ls [] [(None, Opened 0 (Some 7)), (Some 0, Exited 0 (Some 0))] True"
  have reach: "channels_reach someone ?cs"
    using ls_ends [OF ls_answers [OF ls_opens]] by simp
  have running: "cs_running ?cs 0 = Some ((new_running 0 ls_channel)\<lparr>rn_closed := True, rn_waiting := False\<rparr>)"
    by (simp add: opened_ls_def)
  have first: "filter (\<lambda>m. about m = 0) (map snd (cs_sent ?cs)) = Opened 0 (Some 7) # said_by 0 ?cs"
    by (simp add: opened_ls_def said_by_def)
  have number: "rn_id ((new_running 0 ls_channel)\<lparr>rn_closed := True, rn_waiting := False\<rparr>) = 0"
    and kind: "\<not> is_service (rn_kind ((new_running 0 ls_channel)\<lparr>rn_closed := True, rn_waiting := False\<rparr>))"
    by (simp_all add: new_running_def ls_channel_def is_service_def)
  have fresh: "ro_next routes_new = 0" "answers_of 0 routes_new = []" "events_of 0 routes_new = []"
    by (simp_all add: routes_new_def answers_of_def events_of_def)
  have "answers_of 0 (foldl (\<lambda>ro m. routes_handle m ro) (snd (route_open routes_new)) (map snd (cs_sent ?cs))) = [PidAnswer (Some 7)]"
    using client_sees_the_command [OF reach running kind, of "Some 7" routes_new] first fresh unfolding number by blast
  with reach running show ?thesis
    by (intro exI [of _ ?cs] exI [of _ "(new_running 0 ls_channel)\<lparr>rn_closed := True, rn_waiting := False\<rparr>"]) (simp add: new_running_def)
qed

theorem command_output_in_order_witness:
  "\<exists>cs r. channels_reach someone cs \<and> cs_running cs 0 = Some r \<and> rn_waiting r
    \<and> (\<exists>bss codes. said_by 0 cs = map (Data (rn_id r)) bss @ map (Exited (rn_id r)) codes \<and> length codes \<le> 0)"
proof -
  let ?cs = "opened_ls [Opened 0 (Some 7)] [] False"
  have running: "cs_running ?cs 0 = Some (new_running 0 ls_channel)"
    by (simp add: opened_ls_def new_running_def)
  show ?thesis
    using command_output_in_order [OF ls_opens running] running ls_opens
    by (intro exI [of _ ?cs] exI [of _ "new_running 0 ls_channel"]) (simp add: new_running_def ls_channel_def is_service_def)
qed

theorem session_channels_ok_witness:
  "length (cs_open (opened_ls [] [(None, Opened 0 (Some 7))] False)) \<le> 8"
  using session_channels_ok [OF ls_answers [OF ls_opens]] by simp

text \<open>
  The answer to an open can come too late: the session's task sends it after the command's threads were
  started, and they may send the exit first. The client then drops the route with the place of the answer,
  and the open fails with "the host did not answer" although the command ran and its exit code arrived.
\<close>

theorem quick_command_looks_refused:
  "\<exists>cs. channels_reach someone cs \<and> map snd (cs_sent cs) = [Exited 0 (Some 0), Opened 0 (Some 7)]
    \<and> events_of 0 (foldl (\<lambda>ro m. routes_handle m ro) (snd (route_open routes_new)) (map snd (cs_sent cs))) = [ExitedEvent (Some 0), ClosedEvent]
    \<and> map (open_result \<circ> Some) (answers_of 0 (foldl (\<lambda>ro m. routes_handle m ro) (snd (route_open routes_new)) (map snd (cs_sent cs))))
      = [Inl (lit ''the host did not answer (it may not support commands)'')]"
proof -
  let ?cs = "opened_ls [] [(Some 0, Exited 0 (Some 0)), (None, Opened 0 (Some 7))] True"
  have "channels_reach someone ?cs"
    using ls_answers [OF ls_ends [OF ls_opens]] by simp
  then show ?thesis
    by (intro exI [of _ ?cs]) (simp add: opened_ls_def routes_new_def route_open_def route_event_def route_remove_def answers_of_def events_of_def open_result_def)
qed

end
