(* ===== verification/Float32.thy ===== *)
theory Float32
  imports Prelude Complex_Main
begin

unbundle bit_operations_syntax

text \<open>
  The \<open>f32\<close> operations the sources use, on the bits of IEEE binary32: the value of a finite number as a
  rational, rounding to nearest with ties to even, the conversions from and to integers, and comparison
  with a finite bound. A quiet NaN is kept as it is.
\<close>

type_synonym f32 = u32

definition f32_exp :: "f32 \<Rightarrow> nat" where
  "f32_exp b = unat (drop_bit 23 b AND 0xFF)"

definition f32_frac :: "f32 \<Rightarrow> nat" where
  "f32_frac b = unat (b AND 0x7FFFFF)"

definition f32_neg :: "f32 \<Rightarrow> bool" where
  "f32_neg b = bit b 31"

definition f32_nan :: "f32 \<Rightarrow> bool" where
  "f32_nan b = (f32_exp b = 255 \<and> f32_frac b \<noteq> 0)"

definition f32_inf :: "f32 \<Rightarrow> bool" where
  "f32_inf b = (f32_exp b = 255 \<and> f32_frac b = 0)"

definition pow2 :: "int \<Rightarrow> rat" where
  "pow2 e = (if 0 \<le> e then 2 ^ nat e else 1 / 2 ^ nat (- e))"

text \<open>The value of a finite number.\<close>

definition f32_val :: "f32 \<Rightarrow> rat" where
  "f32_val b =
     (let m = (if f32_exp b = 0 then of_nat (f32_frac b) * pow2 (- 149)
               else of_nat (2 ^ 23 + f32_frac b) * pow2 (int (f32_exp b) - 150))
      in if f32_neg b then - m else m)"

definition round_even :: "rat \<Rightarrow> int" where
  "round_even q =
     (let f = \<lfloor>q\<rfloor>; r = q - of_int f
      in if r < 1 / 2 then f else if 1 / 2 < r then f + 1 else if even f then f else f + 1)"

definition f32_round :: "rat \<Rightarrow> f32" where
  "f32_round q =
     (let a = \<bar>q\<bar>;
          e = (case List.find (\<lambda>e. pow2 e \<le> a) (rev [- 126..127]) of Some e \<Rightarrow> e | None \<Rightarrow> - 126);
          bits = (e + 126) * 2 ^ 23 + round_even (a * pow2 (23 - e))
      in (if q < 0 then 0x80000000 else 0) OR (if 0x7F800000 \<le> bits then 0x7F800000 else of_int bits))"

definition f32_of_int :: "int \<Rightarrow> f32" where
  "f32_of_int n = f32_round (of_int n)"

text \<open>Division of finite numbers by a positive one.\<close>

definition f32_div :: "f32 \<Rightarrow> f32 \<Rightarrow> f32" where
  "f32_div a b = (if f32_val a = 0 then a AND 0x80000000 else f32_round (f32_val a / f32_val b))"

text \<open>Multiplication by a positive finite number.\<close>

definition f32_scale :: "f32 \<Rightarrow> f32 \<Rightarrow> f32" where
  "f32_scale a b =
     (if f32_exp a = 255 then a
      else if f32_val a = 0 then a AND 0x80000000
      else f32_round (f32_val a * f32_val b))"

text \<open>\<open>clamp(0.0, 1.0)\<close>.\<close>

definition f32_clamp01 :: "f32 \<Rightarrow> f32" where
  "f32_clamp01 a =
     (if f32_nan a then a
      else if f32_inf a then if f32_neg a then 0 else 0x3F800000
      else if f32_val a < 0 then 0
      else if 1 < f32_val a then 0x3F800000 else a)"

definition f32_nonzero :: "f32 \<Rightarrow> bool" where
  "f32_nonzero a = (f32_exp a = 255 \<or> f32_val a \<noteq> 0)"

text \<open>\<open>as i16\<close>: towards zero, saturating, a NaN is 0.\<close>

definition f32_to_i16 :: "f32 \<Rightarrow> u16" where
  "f32_to_i16 a =
     (if f32_nan a then 0
      else if f32_inf a then if f32_neg a then 0x8000 else 0x7FFF
      else let t = (if f32_val a < 0 then - \<lfloor>- f32_val a\<rfloor> else \<lfloor>f32_val a\<rfloor>)
        in of_int (max (- 32768) (min 32767 t)))"

end
