(* ===== verification/Protocol.thy ===== *)
theory Protocol
  imports Command_Stream Float32
begin

text \<open>
  The wire types of sessions and signaling (\<open>protocol/src/lib.rs\<close>), the choice of a backend
  (\<open>protocol/src/selection.rs\<close>) and the scan codes (\<open>protocol/src/keys.rs\<close>). The byte form of messages is
  bincode's, a third-party library: reading and writing are parameters.
\<close>

section \<open>Windows\<close>

type_synonym window_id = u64

definition PROTOCOL_VERSION :: u16 where "PROTOCOL_VERSION = 16"
definition SECURE_DESKTOP_WINDOW_ID :: window_id where "SECURE_DESKTOP_WINDOW_ID = - 1"

datatype window_kind = NormalWindow | DialogWindow | PopupWindow | MenuWindow

datatype content_hint = GeneralContent | TextContent | GameContent | VideoContent

record window_info =
  wi_id :: window_id
  wi_title :: rstr
  wi_app_id :: rstr
  wi_width :: u32
  wi_height :: u32
  wi_focused :: bool
  wi_content :: content_hint
  wi_owner :: "window_id option"
  wi_kind :: window_kind
  wi_position :: "(u32 \<times> u32) option"

record cursor_image =
  ci_id :: u64
  ci_width :: u32
  ci_height :: u32
  ci_hotspot :: "u32 \<times> u32"
  ci_rgba :: bytes

section \<open>Input\<close>

datatype touch_phase = TouchStart | TouchMove | TouchEnd | TouchCancel

datatype pointer_button = LeftButton | RightButton | MiddleButton | BackButton | ForwardButton

record gamepad_state =
  gp_buttons :: u32
  gp_left_x :: u16
  gp_left_y :: u16
  gp_right_x :: u16
  gp_right_y :: u16
  gp_left_trigger :: u8
  gp_right_trigger :: u8

datatype input_event =
    PointerMove window_id f32 f32
  | PointerButton window_id pointer_button bool
  | PointerScroll window_id f32 f32
  | KeyInput u32 bool
  | TextInput rstr
  | TouchInput window_id u32 f32 f32 touch_phase
  | GamepadInput u8 gamepad_state
  | GamepadGone u8

section \<open>Streams\<close>

datatype stream_target = WindowTarget window_id | GameTarget u32 | DesktopTarget

record game_entry =
  ge_id :: u32
  ge_name :: rstr
  ge_artwork :: "rstr option"

datatype video_codec = H264 | H265 | Av1

datatype stream_backend =
    NativeStream video_codec
  | PassthroughStream video_codec
  | DesktopStream video_codec
  | GameStreamStream
  | RdpStream
  | VncStream
  | OtherStream rstr

datatype backend_kind = Native | Passthrough | DesktopBackend | GameStream | Rdp | Vnc | OtherBackend

fun backend_kind_of :: "stream_backend \<Rightarrow> backend_kind" where
  "backend_kind_of (NativeStream _) = Native"
| "backend_kind_of (PassthroughStream _) = Passthrough"
| "backend_kind_of (DesktopStream _) = DesktopBackend"
| "backend_kind_of GameStreamStream = GameStream"
| "backend_kind_of RdpStream = Rdp"
| "backend_kind_of VncStream = Vnc"
| "backend_kind_of (OtherStream _) = OtherBackend"

fun session_codec :: "stream_backend \<Rightarrow> video_codec option" where
  "session_codec (NativeStream c) = Some c"
| "session_codec (PassthroughStream c) = Some c"
| "session_codec (DesktopStream c) = Some c"
| "session_codec _ = None"

record handoff_target =
  ht_address :: rstr
  ht_port :: u16
  ht_username :: rstr
  ht_password :: rstr
  ht_certificate :: "bytes option"

datatype compat_endpoint =
    RdpEndpoint handoff_target
  | GameStreamEndpoint u16 u32 rstr
  | VncEndpoint u16 rstr

record stream_limits =
  sl_bitrate :: "u32 option"
  sl_fps :: "u32 option"
  sl_height :: "u32 option"

record stream_options =
  so_backend :: backend_kind
  so_codecs :: "video_codec list"
  so_limits :: stream_limits

record stream_quality =
  sq_target :: "u32 option"
  sq_sent :: u32
  sq_fps :: u32
  sq_width :: u32
  sq_height :: u32
  sq_loss :: f32
  sq_rtt :: "u32 option"

section \<open>Messages of a session\<close>

datatype private_session = PrivateOff | PrivateUnavailable rstr | PrivateAvailable | PrivateActive

record host_state =
  st_locked :: bool
  st_private :: private_session

datatype sdp_kind = SdpOffer | SdpAnswer

datatype control_message =
    ListWindowsRequest
  | ListWindowsResponse "window_info list"
  | ListGamesRequest
  | ListGamesResponse "game_entry list"
  | StreamStartRequest stream_target stream_options u32
  | StreamStartResponse stream_target u32 bool stream_backend "rstr option" "handoff_target option" "rstr option"
  | StreamStopRequest stream_target
  | CarrierStop window_id u32
  | StreamStopped stream_target
  | TrackEnded window_id
  | Input input_event
  | Clipboard rstr
  | Ping
  | Pong
  | StreamLimits window_id stream_limits
  | StreamQuality window_id stream_quality
  | SessionDescription sdp_kind rstr
  | WindowResized window_id u32 u32
  | WindowFocused window_id
  | HostState host_state
  | PrivateSessionRequest bool "rstr option"
  | PrivateSessionRefused rstr bool
  | CompatibilityRequest window_id bool
  | CompatibilityAnswer window_id "compat_endpoint list" "rstr option"
  | CursorAt window_id f32 f32 bool u64
  | CursorShape cursor_image
  | Goodbye
  | SshCertificateRequest rstr
  | SshCertificateResponse "rstr + rstr"
  | RendezvousId rstr
  | CommandControl command_message

datatype 'e protocol_error = VersionMismatch u16 u16 | DecodeError 'e

text \<open>An envelope: the version and the message, written and read by the parameters.\<close>

definition encode_control :: "(u16 \<times> control_message \<Rightarrow> bytes) \<Rightarrow> control_message \<Rightarrow> bytes" where
  "encode_control serialize message = serialize (PROTOCOL_VERSION, message)"

definition decode_control :: "(bytes \<Rightarrow> 'e + u16 \<times> control_message) \<Rightarrow> bytes \<Rightarrow> 'e protocol_error + control_message" where
  "decode_control deserialize bs =
     (case deserialize bs of
        Inl e \<Rightarrow> Inl (DecodeError e)
      | Inr (version, message) \<Rightarrow>
          if version \<noteq> PROTOCOL_VERSION then Inl (VersionMismatch version PROTOCOL_VERSION) else Inr message)"

section \<open>Messages of signaling\<close>

datatype connect_mode = PairMode | ResumeMode | AccountMode

datatype offered_method = PasswordMethod | OidcMethod | KerberosMethod

record oidc_provider_info =
  op_name :: rstr
  op_issuer :: rstr
  op_client :: rstr
  op_scopes :: "rstr list"

record account_offer =
  ao_methods :: "offered_method list"
  ao_providers :: "oidc_provider_info list"
  ao_kerberos :: "rstr option"
  ao_seal_key :: bytes

datatype account_credential =
    PasswordCredential rstr rstr
  | OidcCredential rstr rstr
  | KerberosCredential bytes

datatype signal_message =
    Hello u16 bytes bytes connect_mode
  | Pake bytes
  | AccountOffer account_offer bytes
  | AccountProof bytes bytes
  | AccountAccepted
  | Description sdp_kind rstr bytes "bytes option"
  | Reject rstr

definition decode_signal :: "(bytes \<Rightarrow> 'e + signal_message) \<Rightarrow> bytes \<Rightarrow> 'e protocol_error + signal_message" where
  "decode_signal deserialize bs =
     (case deserialize bs of
        Inl e \<Rightarrow> Inl (DecodeError e)
      | Inr m \<Rightarrow>
          (case m of
             Hello version _ _ _ \<Rightarrow> if version \<noteq> PROTOCOL_VERSION then Inl (VersionMismatch version PROTOCOL_VERSION) else Inr m
           | _ \<Rightarrow> Inr m))"

section \<open>The choice of a backend\<close>

record window_match =
  wm_app_id :: "rstr option"
  wm_title :: "rstr option"
  wm_content :: "content_hint option"

record backend_rule =
  br_when :: window_match
  br_backend :: backend_kind

text \<open>\<open>lower\<close> is the standard library's Unicode lower case.\<close>

definition window_matches :: "(rstr \<Rightarrow> rstr) \<Rightarrow> window_match \<Rightarrow> window_info \<Rightarrow> bool" where
  "window_matches lower wm w =
     ((case wm_app_id wm of None \<Rightarrow> True | Some a \<Rightarrow> eq_ignore_ascii_case a (wi_app_id w))
      \<and> (case wm_title wm of None \<Rightarrow> True | Some t \<Rightarrow> contains_str (lower t) (lower (wi_title w)))
      \<and> (case wm_content wm of None \<Rightarrow> True | Some c \<Rightarrow> c = wi_content w))"

definition default_rules :: "backend_rule list" where
  "default_rules = map (\<lambda>(c, b). \<lparr>br_when = \<lparr>wm_app_id = None, wm_title = None, wm_content = Some c\<rparr>, br_backend = b\<rparr>)
     [(TextContent, Rdp), (GameContent, GameStream), (VideoContent, Passthrough)]"

definition choose_backend :: "(rstr \<Rightarrow> rstr) \<Rightarrow> window_info \<Rightarrow> backend_rule list \<Rightarrow> backend_kind" where
  "choose_backend lower w user_rules =
     (case find (\<lambda>r. window_matches lower (br_when r) w) (user_rules @ default_rules) of
        None \<Rightarrow> Native
      | Some r \<Rightarrow> br_backend r)"

definition serve_backend :: "backend_kind \<Rightarrow> backend_kind list \<Rightarrow> backend_kind" where
  "serve_backend requested available = (if List.member available requested then requested else Native)"

definition TEXT_APPS :: "rstr list" where
  "TEXT_APPS = map lit [''foot'', ''alacritty'', ''kitty'', ''org.wezfurlong.wezterm'', ''org.gnome.terminal'',
     ''org.gnome.ptyxis'', ''org.kde.konsole'', ''xterm'', ''windowsterminal.exe'', ''cmd.exe'', ''powershell.exe'',
     ''pwsh.exe'', ''code'', ''code.exe'', ''codium'', ''org.gnome.texteditor'', ''org.kde.kate'', ''gedit'', ''emacs'',
     ''neovide'', ''notepad.exe'', ''notepad++.exe'', ''devenv.exe'', ''libreoffice-writer'', ''winword.exe'']"

definition VIDEO_APPS :: "rstr list" where
  "VIDEO_APPS = map lit [''mpv'', ''vlc'', ''org.videolan.vlc'', ''io.github.celluloid_player.celluloid'',
     ''org.gnome.totem'', ''vlc.exe'', ''mpv.exe'', ''mpc-hc64.exe'', ''mpc-be64.exe'']"

definition BROWSERS :: "rstr list" where
  "BROWSERS = map lit [''firefox'', ''org.mozilla.firefox'', ''chromium'', ''google-chrome'', ''brave-browser'',
     ''firefox.exe'', ''floorp.exe'', ''chrome.exe'', ''msedge.exe'', ''brave.exe'', ''opera.exe'', ''vivaldi.exe'']"

definition VIDEO_SITES :: "rstr list" where
  "VIDEO_SITES = map lit [''youtube'', ''netflix'', ''twitch'', ''prime video'', ''vimeo'']"

definition classify :: "(rstr \<Rightarrow> rstr) \<Rightarrow> rstr \<Rightarrow> rstr \<Rightarrow> content_hint" where
  "classify lower app_id title =
     (let app_id = ascii_lowercase app_id; title = lower title
      in if starts_with (lit ''steam_app_'') app_id \<or> app_id = lit ''gamescope'' then GameContent
         else if List.member TEXT_APPS app_id then TextContent
         else if List.member VIDEO_APPS app_id
             \<or> List.member BROWSERS app_id \<and> list_ex (\<lambda>site. contains_str site title) VIDEO_SITES then VideoContent
         else GeneralContent)"

text \<open>The client: whether a launch asks for a RemoteApp.\<close>

definition program_name :: "rstr \<Rightarrow> rstr" where
  "program_name program = last (split_on 47 (map (\<lambda>c. if c = 92 then 47 else c) program))"

definition wants_remote_app :: "(rstr \<Rightarrow> rstr) \<Rightarrow> backend_rule list \<Rightarrow> rstr list \<Rightarrow> bool" where
  "wants_remote_app lower user_rules argv =
     (case argv of
        [] \<Rightarrow> False
      | program # _ \<Rightarrow>
          (let app_id = program_name program
           in choose_backend lower \<lparr>wi_id = 0, wi_title = [], wi_app_id = app_id, wi_width = 0, wi_height = 0, wi_focused = False,
                wi_content = classify lower app_id [], wi_owner = None, wi_kind = NormalWindow, wi_position = None\<rparr> user_rules = Rdp))"

text \<open>The first rule of the user that matches decides; else the content does.\<close>

lemma choose_backend_cases:
  "choose_backend lower w user_rules =
    (case find (\<lambda>r. window_matches lower (br_when r) w) user_rules of
       Some r \<Rightarrow> br_backend r
     | None \<Rightarrow> (case wi_content w of GeneralContent \<Rightarrow> Native | TextContent \<Rightarrow> Rdp | GameContent \<Rightarrow> GameStream | VideoContent \<Rightarrow> Passthrough))"
proof -
  have "find P (xs @ ys) = (case find P xs of Some x \<Rightarrow> Some x | None \<Rightarrow> find P ys)" for P :: "backend_rule \<Rightarrow> bool" and xs ys
    by (induction xs) auto
  then show ?thesis
    by (simp add: choose_backend_def default_rules_def window_matches_def split: option.split content_hint.split)
qed

section \<open>Scan codes\<close>

definition EXTENDED :: "(u16 \<times> u32) list" where
  "EXTENDED = [(0x1c, 96), (0x1d, 97), (0x35, 98), (0x37, 99), (0x38, 100), (0x47, 102), (0x48, 103), (0x49, 104), (0x4b, 105),
     (0x4d, 106), (0x4f, 107), (0x50, 108), (0x51, 109), (0x52, 110), (0x53, 111), (0x5b, 125), (0x5c, 126), (0x5d, 127)]"

definition evdev_from_scan :: "u16 \<Rightarrow> bool \<Rightarrow> u32 option" where
  "evdev_from_scan scan extended =
     (if \<not> extended then (if 1 \<le> scan \<and> scan \<le> 88 then Some (ucast scan) else None)
      else map_option snd (find (\<lambda>(s, _). s = scan) EXTENDED))"

definition scan_from_evdev :: "u32 \<Rightarrow> (u16 \<times> bool) option" where
  "scan_from_evdev keycode =
     (if 1 \<le> keycode \<and> keycode \<le> 88 then Some (ucast keycode, False)
      else map_option (\<lambda>(s, _). (s, True)) (find (\<lambda>(_, e). e = keycode) EXTENDED))"

text \<open>Each key has one scan code and is what the scan code reads as.\<close>

lemma find_mem: "find P xs = Some x \<Longrightarrow> x \<in> set xs"
  by (auto simp: find_Some_iff)

lemma find_both: "find (\<lambda>(_, e). e = k) xs = Some (s, e) \<Longrightarrow> distinct (map fst xs) \<Longrightarrow> find (\<lambda>(s', _). s' = s) xs = Some (s, k)"
proof (induction xs)
  case (Cons a xs)
  then show ?case
    using find_mem [of "\<lambda>(_, e). e = k" xs "(s, e)"] by (cases a) (force split: if_splits)
qed simp

lemma scan_round_trip: "scan_from_evdev keycode = Some (scan, extended) \<longrightarrow> evdev_from_scan scan extended = Some keycode"
proof (cases "1 \<le> keycode \<and> keycode \<le> 88")
  case True
  then have small: "1 \<le> unat keycode" "unat keycode \<le> 88"
    by (simp_all add: word_le_nat_alt)
  then have "unat (ucast keycode :: u16) = unat keycode"
    by (simp add: unsigned_ucast_eq take_bit_nat_eq_self_iff)
  with small have "1 \<le> (ucast keycode :: u16)" "(ucast keycode :: u16) \<le> 88"
    by (simp_all add: word_le_nat_alt)
  moreover have "ucast (ucast keycode :: u16) = keycode"
    using small by (simp add: word_unat_eq_iff unsigned_ucast_eq unsigned_take_bit_eq take_bit_nat_eq_self_iff)
  ultimately show ?thesis
    using True by (auto simp: scan_from_evdev_def evdev_from_scan_def)
next
  case False
  have "distinct (map fst EXTENDED)"
    by (simp add: EXTENDED_def)
  with False show ?thesis
    by (auto simp: scan_from_evdev_def evdev_from_scan_def dest: find_both)
qed

end
