(* ===== verification/Client_Frames.thy ===== *)
theory Client_Frames
  imports Protocol
begin

text \<open>
  The client's frame and sound queues (\<open>client-core/src/lib.rs\<close>): a window's slot with the two ends of its bounded
  channel, the task that moves a track's frames into it, and the calls that take frames out. A slot is shared by
  reference, so the slots are an indexed store and the map of the session holds indices; the sending end is in the
  slot until the track's task takes it. A caller that waits keeps its slot, and with it the receiving end, alive
  after the map has dropped it: which callers do is an argument of the steps.
\<close>

section \<open>Slots\<close>

record wframe =
  wf_data :: bytes
  wf_codec :: video_codec
  wf_timestamp :: u32
  wf_keyframe :: bool

definition FRAME_QUEUE :: nat where "FRAME_QUEUE = 8"
definition AUDIO_QUEUE :: nat where "AUDIO_QUEUE = 50"

text \<open>\<open>fs_pump\<close>: the task that holds the sender, with its \<open>skipping\<close>.\<close>

record frame_slot =
  fs_queue :: "wframe list"
  fs_held :: "wframe option"
  fs_sender :: bool
  fs_pump :: "bool option"
  fs_keyframe :: bool

record frames =
  fr_slots :: "frame_slot list"
  fr_map :: "window_id \<rightharpoonup> nat"
  fr_seen :: "window_id \<rightharpoonup> u64"

definition new_slot :: frame_slot where
  "new_slot = \<lparr>fs_queue = [], fs_held = None, fs_sender = True, fs_pump = None, fs_keyframe = False\<rparr>"

definition frames_new :: frames where
  "frames_new = \<lparr>fr_slots = [], fr_map = Map.empty, fr_seen = Map.empty\<rparr>"

definition slot_update :: "nat \<Rightarrow> (frame_slot \<Rightarrow> frame_slot) \<Rightarrow> frames \<Rightarrow> frames" where
  "slot_update i g fr = fr\<lparr>fr_slots := (fr_slots fr)[i := g (fr_slots fr ! i)]\<rparr>"

definition put_slot :: "window_id \<Rightarrow> frame_slot \<Rightarrow> frames \<Rightarrow> frames" where
  "put_slot w s fr = fr\<lparr>fr_slots := fr_slots fr @ [s], fr_map := (fr_map fr)(w \<mapsto> length (fr_slots fr))\<rparr>"

text \<open>\<open>Shared::slot\<close>: the window's slot, a new one when it has none.\<close>

definition slot_for :: "window_id \<Rightarrow> frames \<Rightarrow> frames" where
  "slot_for w fr = (case fr_map fr w of Some _ \<Rightarrow> fr | None \<Rightarrow> put_slot w new_slot fr)"

definition take_sender :: "window_id \<Rightarrow> frames \<Rightarrow> nat \<times> frames" where
  "take_sender w fr =
     (let fr = slot_for w fr; i = the (fr_map fr w); taken = (\<lambda>s. s\<lparr>fs_sender := False, fs_pump := Some False\<rparr>)
      in if fs_sender (fr_slots fr ! i) then (i, slot_update i taken fr)
         else (length (fr_slots fr), put_slot w (taken new_slot) fr))"

definition end_queue :: "window_id \<Rightarrow> frames \<Rightarrow> frames" where
  "end_queue w fr =
     (case fr_map fr w of
        None \<Rightarrow> fr
      | Some i \<Rightarrow> slot_update i (\<lambda>s. s\<lparr>fs_sender := False\<rparr>) (fr\<lparr>fr_map := (fr_map fr)(w := None)\<rparr>))"

section \<open>The track's task\<close>

datatype frame_out = TookFrame nat wframe | AskedKeyframe nat | HandedNew nat wframe | HandedHeld nat wframe

text \<open>
  One frame of the track of slot \<open>i\<close>; \<open>waited\<close> says that a caller still holds the slot. The receiving end is gone
  when neither the map nor a caller has the slot.
\<close>

definition pump_frame :: "nat \<Rightarrow> bool \<Rightarrow> wframe \<Rightarrow> frames \<Rightarrow> frame_out list \<times> frames" where
  "pump_frame i waited f fr =
     (let s = fr_slots fr ! i
      in case fs_pump s of
           None \<Rightarrow> ([], fr)
         | Some skipping \<Rightarrow>
             let asked = TookFrame i f # (if fs_keyframe s then [AskedKeyframe i] else []); s = s\<lparr>fs_keyframe := False\<rparr>
             in if skipping \<and> \<not> wf_keyframe f then (asked, slot_update i (\<lambda>_. s) fr)
                else if i \<notin> ran (fr_map fr) \<and> \<not> waited then (asked, slot_update i (\<lambda>_. s\<lparr>fs_pump := None\<rparr>) fr)
                else if FRAME_QUEUE \<le> length (fs_queue s)
                then (asked @ [AskedKeyframe i], slot_update i (\<lambda>_. s\<lparr>fs_pump := Some True\<rparr>) fr)
                else (asked, slot_update i (\<lambda>_. s\<lparr>fs_queue := fs_queue s @ [f], fs_pump := Some False\<rparr>) fr))"

section \<open>The calls of the client\<close>

datatype frame_poll = PolledFrame wframe | FrameTimeout | FramesEnded

definition sender_alive :: "frame_slot \<Rightarrow> bool" where
  "sender_alive s = (fs_sender s \<or> fs_pump s \<noteq> None)"

text \<open>The part of \<open>next_frame\<close> after the caller has the slot: what the wait ends with.\<close>

definition next_on :: "window_id \<Rightarrow> nat \<Rightarrow> frames \<Rightarrow> frame_poll \<times> frame_out list \<times> frames" where
  "next_on w i fr =
     (let s = fr_slots fr ! i
      in case fs_held s of
           Some f \<Rightarrow> (PolledFrame f, [HandedHeld i f], slot_update i (\<lambda>s. s\<lparr>fs_held := None\<rparr>) fr)
         | None \<Rightarrow>
             (case fs_queue s of
                f # fs \<Rightarrow>
                  (PolledFrame f, [HandedNew i f],
                   (slot_update i (\<lambda>s. s\<lparr>fs_queue := fs\<rparr>) fr)
                     \<lparr>fr_seen := (fr_seen fr)(w \<mapsto> (case fr_seen fr w of None \<Rightarrow> 0 | Some n \<Rightarrow> n) + 1)\<rparr>)
              | [] \<Rightarrow>
                  if sender_alive s then (FrameTimeout, [], fr)
                  else (FramesEnded, [], if fr_map fr w = Some i then fr\<lparr>fr_map := (fr_map fr)(w := None)\<rparr> else fr)))"

definition next_frame :: "window_id \<Rightarrow> frames \<Rightarrow> frame_poll \<times> frame_out list \<times> frames" where
  "next_frame w fr = (case fr_map fr w of None \<Rightarrow> (FramesEnded, [], fr) | Some i \<Rightarrow> next_on w i fr)"

definition hold_frame :: "window_id \<Rightarrow> wframe \<Rightarrow> frames \<Rightarrow> frames" where
  "hold_frame w f fr = (case fr_map fr w of None \<Rightarrow> fr | Some i \<Rightarrow> slot_update i (\<lambda>s. s\<lparr>fs_held := Some f\<rparr>) fr)"

definition request_keyframe :: "window_id \<Rightarrow> frames \<Rightarrow> frames" where
  "request_keyframe w fr = (case fr_map fr w of None \<Rightarrow> fr | Some i \<Rightarrow> slot_update i (\<lambda>s. s\<lparr>fs_keyframe := True\<rparr>) fr)"

section \<open>Sound\<close>

record sound_packet =
  sp_data :: bytes
  sp_timestamp :: u32
  sp_after_loss :: bool

record sounds =
  au_queues :: "(sound_packet list \<times> bool) list"
  au_map :: "window_id \<rightharpoonup> nat"

datatype audio_poll = PolledPacket sound_packet | AudioTimeout | AudioEnded

definition audio_arrives :: "window_id \<Rightarrow> sounds \<Rightarrow> sounds" where
  "audio_arrives w au = \<lparr>au_queues = au_queues au @ [([], True)], au_map = (au_map au)(w \<mapsto> length (au_queues au))\<rparr>"

text \<open>A queue's flag: its task runs and holds the sender.\<close>

definition pump_audio :: "nat \<Rightarrow> bool \<Rightarrow> sound_packet \<Rightarrow> sounds \<Rightarrow> sounds" where
  "pump_audio i waited p au =
     (let (ps, running) = au_queues au ! i
      in if \<not> running then au
         else if i \<notin> ran (au_map au) \<and> \<not> waited then au\<lparr>au_queues := (au_queues au)[i := (ps, False)]\<rparr>
         else if AUDIO_QUEUE \<le> length ps then au
         else au\<lparr>au_queues := (au_queues au)[i := (ps @ [p], True)]\<rparr>)"

definition next_audio :: "window_id \<Rightarrow> sounds \<Rightarrow> audio_poll \<times> sounds" where
  "next_audio w au =
     (case au_map au w of
        None \<Rightarrow> (AudioTimeout, au)
      | Some i \<Rightarrow>
          (case au_queues au ! i of
             (p # ps, running) \<Rightarrow> (PolledPacket p, au\<lparr>au_queues := (au_queues au)[i := (ps, running)]\<rparr>)
           | ([], True) \<Rightarrow> (AudioTimeout, au)
           | ([], False) \<Rightarrow> (AudioEnded, au\<lparr>au_map := (au_map au)(w := None)\<rparr>)))"

text \<open>
  A full queue keeps its fifty oldest packets and drops the new one; the comment at \<open>AUDIO_QUEUE\<close> says that the
  oldest are dropped.
\<close>

lemma full_sound_queue_drops_the_newest:
  assumes "au_queues au ! i = (ps, True)" "AUDIO_QUEUE \<le> length ps" "i \<in> ran (au_map au)"
  shows "pump_audio i waited p au = au"
  using assms by (simp add: pump_audio_def)

section \<open>Runs\<close>

datatype frame_event =
    SlotWanted window_id
  | TrackArrives window_id
  | TrackFrame nat bool wframe
  | TrackOver nat
  | PollSlot window_id nat
  | PollWindow window_id
  | HoldFrame window_id wframe
  | KeyframeWanted window_id
  | QueueEnds window_id

text \<open>\<open>PollSlot\<close> is the end of a wait of a caller that took the slot some time ago.\<close>

fun frame_step :: "frame_event \<Rightarrow> frames \<Rightarrow> frame_out list \<times> frames" where
  "frame_step (SlotWanted w) fr = ([], slot_for w fr)"
| "frame_step (TrackArrives w) fr = ([], snd (take_sender w fr))"
| "frame_step (TrackFrame i waited f) fr = (if i < length (fr_slots fr) then pump_frame i waited f fr else ([], fr))"
| "frame_step (TrackOver i) fr =
     (if i < length (fr_slots fr) then ([], slot_update i (\<lambda>s. s\<lparr>fs_pump := None\<rparr>) fr) else ([], fr))"
| "frame_step (PollSlot w i) fr = (if i < length (fr_slots fr) then snd (next_on w i fr) else ([], fr))"
| "frame_step (PollWindow w) fr = snd (next_frame w fr)"
| "frame_step (HoldFrame w f) fr = ([], hold_frame w f fr)"
| "frame_step (KeyframeWanted w) fr = ([], request_keyframe w fr)"
| "frame_step (QueueEnds w) fr = ([], end_queue w fr)"

definition frame_run :: "frame_event list \<Rightarrow> frame_out list \<times> frames" where
  "frame_run evs = foldl (\<lambda>(out, fr) e. (out @ fst (frame_step e fr), snd (frame_step e fr))) ([], frames_new) evs"

definition handed_new :: "nat \<Rightarrow> frame_out list \<Rightarrow> wframe list" where
  "handed_new i out = concat (map (\<lambda>x. case x of HandedNew j f \<Rightarrow> if j = i then [f] else [] | _ \<Rightarrow> []) out)"

definition keyframes_asked :: "nat \<Rightarrow> frame_out list \<Rightarrow> nat" where
  "keyframes_asked i out = length (filter (\<lambda>x. x = AskedKeyframe i) out)"

definition frames_taken :: "nat \<Rightarrow> frame_out list \<Rightarrow> wframe list" where
  "frames_taken i out = concat (map (\<lambda>x. case x of TookFrame j f \<Rightarrow> if j = i then [f] else [] | _ \<Rightarrow> []) out)"

text \<open>
  \<open>resumes gap n xs ys\<close>: of the frames \<open>ys\<close>, those of \<open>xs\<close> went through, with \<open>n\<close> gaps, and the first after each
  gap is a keyframe; \<open>gap\<close> says that one is open.
\<close>

inductive resumes :: "bool \<Rightarrow> nat \<Rightarrow> wframe list \<Rightarrow> wframe list \<Rightarrow> bool" where
  resumes_Nil: "resumes False 0 [] []"
| resumes_sent: "resumes gap n xs ys \<Longrightarrow> (gap \<longrightarrow> wf_keyframe f) \<Longrightarrow> resumes False n (xs @ [f]) (ys @ [f])"
| resumes_dropped: "resumes gap n xs ys \<Longrightarrow> resumes True (if gap then n else Suc n) xs (ys @ [f])"

text \<open>What holds of a slot, given the frames its task took, the requests it made and the frames handed out.\<close>

definition went_through :: "wframe list \<Rightarrow> nat \<Rightarrow> wframe list \<Rightarrow> bool option \<Rightarrow> bool" where
  "went_through took asked xs pump =
     (\<exists>gap n ys rest. took = ys @ rest \<and> length rest \<le> 1 \<and> n \<le> asked \<and> resumes gap n xs ys
        \<and> (pump \<noteq> None \<longrightarrow> rest = [] \<and> pump = Some gap))"

definition slot_ok :: "wframe list \<Rightarrow> nat \<Rightarrow> wframe list \<Rightarrow> frame_slot \<Rightarrow> bool" where
  "slot_ok took asked handed s =
     (length (fs_queue s) \<le> FRAME_QUEUE
      \<and> (fs_sender s \<longrightarrow> fs_pump s = None \<and> took = [] \<and> handed = [] \<and> fs_queue s = [])
      \<and> went_through took asked (handed @ fs_queue s) (fs_pump s))"

definition frames_ok :: "frame_out list \<Rightarrow> frames \<Rightarrow> bool" where
  "frames_ok out fr =
     ((\<forall>i < length (fr_slots fr). slot_ok (frames_taken i out) (keyframes_asked i out) (handed_new i out) (fr_slots fr ! i))
      \<and> (\<forall>i \<ge> length (fr_slots fr). frames_taken i out = [] \<and> handed_new i out = [])
      \<and> (\<forall>w i. fr_map fr w = Some i \<longrightarrow> i < length (fr_slots fr)))"

lemma tags_simps [simp]:
  "handed_new i [] = []" "frames_taken i [] = []" "keyframes_asked i [] = 0"
  "handed_new i (a @ b) = handed_new i a @ handed_new i b"
  "frames_taken i (a @ b) = frames_taken i a @ frames_taken i b"
  "keyframes_asked i (a @ b) = keyframes_asked i a + keyframes_asked i b"
  "handed_new i (HandedNew j f # out) = (if j = i then f # handed_new i out else handed_new i out)"
  "handed_new i (HandedHeld j f # out) = handed_new i out"
  "handed_new i (AskedKeyframe j # out) = handed_new i out"
  "handed_new i (TookFrame j f # out) = handed_new i out"
  "frames_taken i (TookFrame j f # out) = (if j = i then f # frames_taken i out else frames_taken i out)"
  "frames_taken i (HandedHeld j f # out) = frames_taken i out"
  "frames_taken i (HandedNew j f # out) = frames_taken i out"
  "frames_taken i (AskedKeyframe j # out) = frames_taken i out"
  "keyframes_asked i (AskedKeyframe j # out) = (if j = i then Suc (keyframes_asked i out) else keyframes_asked i out)"
  "keyframes_asked i (HandedNew j f # out) = keyframes_asked i out"
  "keyframes_asked i (HandedHeld j f # out) = keyframes_asked i out"
  "keyframes_asked i (TookFrame j f # out) = keyframes_asked i out"
  by (simp_all add: handed_new_def frames_taken_def keyframes_asked_def)

lemma went_through_Nil: "went_through [] asked [] None"
  unfolding went_through_def by (intro exI [of _ False] exI [of _ 0] exI [of _ "[]"]) (simp add: resumes_Nil)

lemma went_through_running:
  "went_through took asked xs (Some gap) = (\<exists>n \<le> asked. resumes gap n xs took)"
  unfolding went_through_def by auto

lemma went_through_over: "went_through took asked xs pump \<Longrightarrow> went_through took asked xs None"
  unfolding went_through_def by blast

lemma went_through_lost: "resumes gap n xs took \<Longrightarrow> n \<le> asked \<Longrightarrow> went_through (took @ [f]) asked xs None"
  unfolding went_through_def by (intro exI [of _ gap] exI [of _ n] exI [of _ took] exI [of _ "[f]"]) simp

lemma went_through_asked: "went_through took asked xs pump \<Longrightarrow> asked \<le> asked' \<Longrightarrow> went_through took asked' xs pump"
  unfolding went_through_def by (blast intro: le_trans)

lemma slot_ok_new: "slot_ok [] asked [] new_slot"
  by (simp add: slot_ok_def new_slot_def went_through_Nil)

lemma slot_ok_taken:
  assumes "slot_ok took asked handed s" "fs_sender s"
  shows "slot_ok took asked handed (s\<lparr>fs_sender := False, fs_pump := Some False\<rparr>)"
  using assms resumes_Nil by (auto simp: slot_ok_def went_through_running)

lemma slot_ok_cong:
  assumes "slot_ok took asked handed s" "fs_queue t = fs_queue s" "fs_pump t = fs_pump s"
    "fs_sender t \<longrightarrow> fs_sender s"
  shows "slot_ok took asked handed t"
  using assms by (simp add: slot_ok_def)

lemma slot_ok_over: "slot_ok took asked handed s \<Longrightarrow> slot_ok took asked handed (s\<lparr>fs_pump := None\<rparr>)"
  by (auto simp: slot_ok_def intro: went_through_over)

lemma slot_ok_handed:
  assumes "slot_ok took asked handed s" "fs_queue s = f # fs"
  shows "slot_ok took asked (handed @ [f]) (s\<lparr>fs_queue := fs\<rparr>)"
  using assms by (simp add: slot_ok_def)

lemma slot_ok_asked: "slot_ok took asked handed s \<Longrightarrow> asked \<le> asked' \<Longrightarrow> slot_ok took asked' handed s"
  by (auto simp: slot_ok_def intro: went_through_asked)

text \<open>One frame of a running task, whatever it does with it.\<close>

lemma pump_frame_ok:
  assumes "i < length (fr_slots fr)" "slot_ok took asked handed (fr_slots fr ! i)"
    and "pump_frame i waited f fr = (out, fr')"
  shows "slot_ok (took @ frames_taken i out) (asked + keyframes_asked i out) (handed @ handed_new i out) (fr_slots fr' ! i)"
proof (cases "fs_pump (fr_slots fr ! i)")
  case None
  then show ?thesis using assms by (simp add: pump_frame_def Let_def)
next
  case (Some skipping)
  let ?s = "fr_slots fr ! i"
  have s: "\<not> fs_sender ?s" "length (fs_queue ?s) \<le> FRAME_QUEUE"
    using assms(2) Some by (auto simp: slot_ok_def)
  obtain n where n: "n \<le> asked" "resumes skipping n (handed @ fs_queue ?s) took"
    using assms(2) Some by (auto simp: slot_ok_def went_through_running)
  let ?seen = "asked + (if fs_keyframe ?s then 1 else 0)"
  have n': "n \<le> ?seen" using n(1) by simp
  have sent: "went_through (took @ [f]) ?seen (handed @ fs_queue ?s @ [f]) (Some False)" if "skipping \<longrightarrow> wf_keyframe f"
    using resumes_sent [OF n(2), of f] that n' by (auto simp: went_through_running)
  have skipped: "went_through (took @ [f]) ?seen (handed @ fs_queue ?s) (Some True)" if skipping
    using resumes_dropped [OF n(2), of f] that n' by (auto simp: went_through_running)
  have dropped: "went_through (took @ [f]) (Suc ?seen) (handed @ fs_queue ?s) (Some True)"
    unfolding went_through_running
  proof (intro exI conjI)
    show "resumes True (if skipping then n else Suc n) (handed @ fs_queue ?s) (took @ [f])"
      by (rule resumes_dropped [OF n(2)])
  qed (use n' in simp)
  note run = assms(3) [unfolded pump_frame_def Let_def Some option.case]
  consider (skip) "skipping" "\<not> wf_keyframe f"
    | (gone) "skipping \<longrightarrow> wf_keyframe f" "i \<notin> ran (fr_map fr)" "\<not> waited"
    | (full) "skipping \<longrightarrow> wf_keyframe f" "\<not> (i \<notin> ran (fr_map fr) \<and> \<not> waited)" "FRAME_QUEUE \<le> length (fs_queue ?s)"
    | (room) "skipping \<longrightarrow> wf_keyframe f" "\<not> (i \<notin> ran (fr_map fr) \<and> \<not> waited)" "\<not> FRAME_QUEUE \<le> length (fs_queue ?s)"
    by blast
  then show ?thesis
  proof cases
    case skip
    then show ?thesis
      using run assms(1) s Some skipped by (auto simp: slot_update_def slot_ok_def)
  next
    case gone
    then show ?thesis
      using run assms(1) s Some went_through_lost [OF n(2) n', of f] by (auto simp: slot_update_def slot_ok_def)
  next
    case full
    then show ?thesis
      using run assms(1) s Some dropped by (auto simp: slot_update_def slot_ok_def)
  next
    case room
    then show ?thesis
      using run assms(1) s Some sent by (auto simp: slot_update_def slot_ok_def)
  qed
qed

lemma frames_ok_change:
  assumes "frames_ok out fr" "fr_map fr' = fr_map fr" "length (fr_slots fr') = length (fr_slots fr)" "i < length (fr_slots fr)"
    and "\<And>j. j \<noteq> i \<Longrightarrow> fr_slots fr' ! j = fr_slots fr ! j \<and> handed_new j o' = [] \<and> frames_taken j o' = []"
    and "slot_ok (frames_taken i (out @ o')) (keyframes_asked i (out @ o')) (handed_new i (out @ o')) (fr_slots fr' ! i)"
  shows "frames_ok (out @ o') fr'"
  unfolding frames_ok_def
proof (intro conjI allI impI)
  fix j assume "j < length (fr_slots fr')"
  with assms show "slot_ok (frames_taken j (out @ o')) (keyframes_asked j (out @ o')) (handed_new j (out @ o')) (fr_slots fr' ! j)"
    by (cases "j = i") (auto simp: frames_ok_def intro: slot_ok_asked)
qed (use assms in \<open>auto simp: frames_ok_def\<close>)

lemma frames_ok_update:
  assumes "frames_ok out fr" "i < length (fr_slots fr)"
    and "\<And>t a h. slot_ok t a h (fr_slots fr ! i) \<Longrightarrow> slot_ok t a h (g (fr_slots fr ! i))"
  shows "frames_ok out (slot_update i g fr)"
  using frames_ok_change [of out fr "slot_update i g fr" i "[]"] assms by (auto simp: slot_update_def frames_ok_def)

lemma frames_ok_put:
  assumes "frames_ok out fr" "\<And>a. slot_ok [] a [] s"
  shows "frames_ok out (put_slot w s fr)"
  using assms by (auto simp: frames_ok_def put_slot_def nth_append less_Suc_eq)

lemma frames_ok_unmap: "frames_ok out fr \<Longrightarrow> frames_ok out (fr\<lparr>fr_map := (fr_map fr)(w := None)\<rparr>)"
  by (auto simp: frames_ok_def)

lemma frames_ok_seen: "frames_ok out (fr\<lparr>fr_seen := m\<rparr>) = frames_ok out fr"
  by (simp add: frames_ok_def)

lemma frames_ok_held: "frames_ok (out @ [HandedHeld i f]) fr = frames_ok out fr"
  by (simp add: frames_ok_def)

lemma frames_ok_lookup: "frames_ok out fr \<Longrightarrow> fr_map fr w = Some i \<Longrightarrow> i < length (fr_slots fr)"
  by (auto simp: frames_ok_def)

lemma slot_for_ok: "frames_ok out fr \<Longrightarrow> frames_ok out (slot_for w fr)"
  by (auto simp: slot_for_def slot_ok_new intro: frames_ok_put split: option.split)

lemma slot_for_has: "\<exists>i. fr_map (slot_for w fr) w = Some i"
  by (auto simp: slot_for_def put_slot_def split: option.split)

lemma slot_ok_fresh: "slot_ok [] a [] (new_slot\<lparr>fs_sender := False, fs_pump := Some False\<rparr>)"
  by (rule slot_ok_taken [OF slot_ok_new]) (simp add: new_slot_def)

lemma take_sender_ok: "frames_ok out fr \<Longrightarrow> frames_ok out (snd (take_sender w fr))"
  using slot_for_has [of w fr] frames_ok_lookup [OF slot_for_ok, of out fr w w]
  by (auto simp: take_sender_def Let_def slot_ok_fresh slot_for_ok intro: frames_ok_put frames_ok_update slot_ok_taken)

lemma end_queue_ok: "frames_ok out fr \<Longrightarrow> frames_ok out (end_queue w fr)"
  by (auto simp: end_queue_def frames_ok_unmap intro!: frames_ok_update elim: slot_ok_cong dest: frames_ok_lookup split: option.split)

lemma next_on_ok:
  assumes "frames_ok out fr" "i < length (fr_slots fr)"
  shows "frames_ok (out @ fst (snd (next_on w i fr))) (snd (snd (next_on w i fr)))"
proof (cases "fs_held (fr_slots fr ! i)")
  case (Some f)
  have "frames_ok out (slot_update i (\<lambda>s. s\<lparr>fs_held := None\<rparr>) fr)"
    using assms by (auto intro!: frames_ok_update elim: slot_ok_cong)
  with Some show ?thesis by (simp add: next_on_def frames_ok_held)
next
  case held: None
  show ?thesis
  proof (cases "fs_queue (fr_slots fr ! i)")
    case Nil
    then show ?thesis using assms held by (simp add: next_on_def Let_def frames_ok_unmap)
  next
    case (Cons f fs)
    have ok: "slot_ok (frames_taken i out) (keyframes_asked i out) (handed_new i out) (fr_slots fr ! i)"
      using assms by (simp add: frames_ok_def)
    show ?thesis
      using assms held Cons slot_ok_handed [OF ok Cons]
      by (auto simp: next_on_def Let_def slot_update_def frames_ok_seen intro!: frames_ok_change [of out fr _ i])
  qed
qed

lemma pump_frame_rest:
  assumes "pump_frame i waited f fr = (o', fr')"
  shows "fr_map fr' = fr_map fr" "length (fr_slots fr') = length (fr_slots fr)"
    "j \<noteq> i \<Longrightarrow> fr_slots fr' ! j = fr_slots fr ! j \<and> handed_new j o' = [] \<and> frames_taken j o' = []"
  using assms by (auto simp: pump_frame_def Let_def slot_update_def split: option.splits if_splits)

lemma frame_step_ok: "frames_ok out fr \<Longrightarrow> frames_ok (out @ fst (frame_step e fr)) (snd (frame_step e fr))"
proof (cases e)
  case (TrackFrame i waited f)
  assume ok: "frames_ok out fr"
  obtain o' fr' where p: "pump_frame i waited f fr = (o', fr')" by fastforce
  show ?thesis
  proof (cases "i < length (fr_slots fr)")
    case True
    have "slot_ok (frames_taken i out) (keyframes_asked i out) (handed_new i out) (fr_slots fr ! i)"
      using ok True by (simp add: frames_ok_def)
    from pump_frame_ok [OF True this p] pump_frame_rest [OF p] show ?thesis
      using TrackFrame p True ok by (auto intro!: frames_ok_change [of out fr fr' i])
  qed (use TrackFrame ok in simp)
next
  case (TrackOver i)
  then show "frames_ok out fr \<Longrightarrow> ?thesis" by (auto intro: frames_ok_update slot_ok_over)
next
  case (HoldFrame w f)
  then show "frames_ok out fr \<Longrightarrow> ?thesis"
    by (auto simp: hold_frame_def intro!: frames_ok_update elim: slot_ok_cong dest: frames_ok_lookup split: option.split)
next
  case (KeyframeWanted w)
  then show "frames_ok out fr \<Longrightarrow> ?thesis"
    by (auto simp: request_keyframe_def intro!: frames_ok_update elim: slot_ok_cong dest: frames_ok_lookup split: option.split)
next
  case (PollWindow w)
  then show "frames_ok out fr \<Longrightarrow> ?thesis"
    by (auto simp: next_frame_def intro: next_on_ok dest: frames_ok_lookup split: option.split)
qed (auto intro: slot_for_ok take_sender_ok end_queue_ok next_on_ok)

lemma frame_run_snoc:
  "frame_run (evs @ [e]) = (fst (frame_run evs) @ fst (frame_step e (snd (frame_run evs))), snd (frame_step e (snd (frame_run evs))))"
  by (simp add: frame_run_def split_beta)

lemma frame_run_ok: "frames_ok (fst (frame_run evs)) (snd (frame_run evs))"
proof (induction evs rule: rev_induct)
  case Nil
  then show ?case by (simp add: frame_run_def frames_new_def frames_ok_def)
next
  case (snoc e evs)
  from frame_step_ok [OF this] show ?case by (simp add: frame_run_snoc)
qed

text \<open>
  C28. Whatever order tracks, frames, waits, held frames, keyframe requests and ends of streams come in: a queue
  never holds more than eight frames; and of the frames a slot's task took, those handed out and then those still
  queued are, in order, all but the dropped ones, where the first frame after every gap is a keyframe and one was
  asked for at every gap (a last frame may be lost when nobody can receive any more).
\<close>

theorem frames_resume_at_keyframes:
  assumes "frame_run evs = (out, fr)" "i < length (fr_slots fr)"
  shows "length (fs_queue (fr_slots fr ! i)) \<le> FRAME_QUEUE
    \<and> (\<exists>gap n ys rest. frames_taken i out = ys @ rest \<and> length rest \<le> 1
         \<and> (fs_pump (fr_slots fr ! i) \<noteq> None \<longrightarrow> rest = [])
         \<and> n \<le> keyframes_asked i out
         \<and> resumes gap n (handed_new i out @ fs_queue (fr_slots fr ! i)) ys)"
proof -
  have "slot_ok (frames_taken i out) (keyframes_asked i out) (handed_new i out) (fr_slots fr ! i)"
    using frame_run_ok [of evs] assms by (simp add: frames_ok_def)
  then have "length (fs_queue (fr_slots fr ! i)) \<le> FRAME_QUEUE"
    and "went_through (frames_taken i out) (keyframes_asked i out) (handed_new i out @ fs_queue (fr_slots fr ! i)) (fs_pump (fr_slots fr ! i))"
    by (simp_all add: slot_ok_def)
  then show ?thesis
    unfolding went_through_def by blast
qed

text \<open>Nine frames fill the queue of window 1; the tenth is dropped, and after a poll a keyframe goes through.\<close>

definition some_frame :: "bool \<Rightarrow> wframe" where
  "some_frame key = \<lparr>wf_data = [1], wf_codec = H264, wf_timestamp = 0, wf_keyframe = key\<rparr>"

definition full_queue :: "frame_event list" where
  "full_queue = [SlotWanted 1, TrackArrives 1, TrackFrame 0 False (some_frame True)]
     @ replicate 9 (TrackFrame 0 False (some_frame False)) @ [PollWindow 1, TrackFrame 0 False (some_frame True)]"

lemma frames_resume_at_keyframes_witness:
  "keyframes_asked 0 (fst (frame_run full_queue)) = 1 \<and> length (frames_taken 0 (fst (frame_run full_queue))) = 11
   \<and> handed_new 0 (fst (frame_run full_queue)) @ fs_queue (fr_slots (snd (frame_run full_queue)) ! 0)
       = [some_frame True] @ replicate 7 (some_frame False) @ [some_frame True]
   \<and> (\<exists>gap n ys rest. frames_taken 0 (fst (frame_run full_queue)) = ys @ rest \<and> length rest \<le> 1
         \<and> (fs_pump (fr_slots (snd (frame_run full_queue)) ! 0) \<noteq> None \<longrightarrow> rest = [])
         \<and> n \<le> keyframes_asked 0 (fst (frame_run full_queue))
         \<and> resumes gap n (handed_new 0 (fst (frame_run full_queue)) @ fs_queue (fr_slots (snd (frame_run full_queue)) ! 0)) ys)"
proof -
  have steps: "full_queue = [SlotWanted 1, TrackArrives 1, TrackFrame 0 False (some_frame True),
      TrackFrame 0 False (some_frame False), TrackFrame 0 False (some_frame False), TrackFrame 0 False (some_frame False),
      TrackFrame 0 False (some_frame False), TrackFrame 0 False (some_frame False), TrackFrame 0 False (some_frame False),
      TrackFrame 0 False (some_frame False), TrackFrame 0 False (some_frame False), TrackFrame 0 False (some_frame False),
      PollWindow 1, TrackFrame 0 False (some_frame True)]"
    by (simp add: full_queue_def numeral_eq_Suc)
  have key: "wf_keyframe (some_frame b) = b" for b by (simp add: some_frame_def)
  note evals = steps key frame_run_def frames_new_def slot_for_def put_slot_def new_slot_def take_sender_def Let_def slot_update_def
    pump_frame_def next_frame_def next_on_def FRAME_QUEUE_def ran_def
  have "0 < length (fr_slots (snd (frame_run full_queue)))"
    by (simp add: evals)
  note claim = frames_resume_at_keyframes [OF prod.collapse [symmetric] this]
  have "keyframes_asked 0 (fst (frame_run full_queue)) = 1" "length (frames_taken 0 (fst (frame_run full_queue))) = 11"
    "handed_new 0 (fst (frame_run full_queue)) @ fs_queue (fr_slots (snd (frame_run full_queue)) ! 0)
       = [some_frame True] @ replicate 7 (some_frame False) @ [some_frame True]"
    by (simp_all add: evals numeral_eq_Suc)
  with claim show ?thesis by blast
qed

end
