(* ===== verification/Client_Selector.thy ===== *)
theory Client_Selector
  imports Protocol
begin

text \<open>
  The automatic choice of a window's carrier (\<open>client-core/src/selector.rs\<close>): the smoothed share of time a
  window changes, the score of each carrier, the dwell, the interval between switches and the backoff. Instants
  are nanoseconds of a monotonic clock; \<open>duration_since\<close> saturates at zero, as the subtraction of naturals
  does. The \<open>f32\<close> operations are IEEE binary32, rounded to nearest.
\<close>

section \<open>Arithmetic on finite \<open>f32\<close>s\<close>

definition f32_add :: "f32 \<Rightarrow> f32 \<Rightarrow> f32" where
  "f32_add a b =
     (let s = f32_val a + f32_val b
      in if s \<noteq> 0 then f32_round s
         else if f32_val a = 0 \<and> f32_neg a \<and> f32_neg b then 0x80000000 else 0)"

definition f32_minus :: "f32 \<Rightarrow> f32 \<Rightarrow> f32" where
  "f32_minus a b =
     (let s = f32_val a - f32_val b
      in if s \<noteq> 0 then f32_round s
         else if f32_val a = 0 \<and> f32_neg a \<and> \<not> f32_neg b then 0x80000000 else 0)"

definition f32_less :: "f32 \<Rightarrow> f32 \<Rightarrow> bool" where
  "f32_less a b = (f32_val a < f32_val b)"

text \<open>\<open>Duration::as_secs_f32\<close>.\<close>

definition as_secs_f32 :: "nat \<Rightarrow> f32" where
  "as_secs_f32 d =
     f32_add (f32_of_int (int (d div 1000000000)))
             (f32_div (f32_of_int (int (d mod 1000000000))) (f32_of_int 1000000000))"

section \<open>Constants\<close>

definition SECONDS :: nat where "SECONDS = 1000000000"

definition MARGIN :: f32 where "MARGIN = f32_round (5 / 4)"
definition DWELL :: nat where "DWELL = 3 * SECONDS"
definition MIN_INTERVAL :: nat where "MIN_INTERVAL = 15 * SECONDS"
definition BACKOFF :: nat where "BACKOFF = 30 * SECONDS"
definition MAX_BACKOFF :: nat where "MAX_BACKOFF = 300 * SECONDS"
definition MOVING_FPS :: f32 where "MOVING_FPS = f32_of_int 24"
definition MOTION_SECONDS :: f32 where "MOTION_SECONDS = f32_of_int 2"

section \<open>What the selector knows of a window\<close>

record sel_window =
  sw_motion :: f32
  sw_count :: "(u64 \<times> nat) option"
  sw_better :: "(backend_kind \<times> nat) option"
  sw_last_switch :: nat
  sw_backoff :: "backend_kind \<rightharpoonup> nat \<times> nat"
  sw_pinned :: bool
  sw_pending :: "(u32 \<times> backend_kind) option"

definition sel_new :: "nat \<Rightarrow> sel_window" where
  "sel_new now = \<lparr>sw_motion = 0, sw_count = None, sw_better = None, sw_last_switch = now,
     sw_backoff = Map.empty, sw_pinned = False, sw_pending = None\<rparr>"

definition sel_arrived :: "u64 \<Rightarrow> nat \<Rightarrow> sel_window \<Rightarrow> sel_window" where
  "sel_arrived count now w =
     (let w' = (case sw_count w of
          None \<Rightarrow> w
        | Some (then_count, since) \<Rightarrow>
            let seconds = as_secs_f32 (now - since)
            in if f32_less 0 seconds \<and> then_count \<le> count then
                 let rate = f32_div (f32_of_int (uint (count - then_count))) seconds;
                     sample = f32_clamp01 (f32_div rate MOVING_FPS);
                     weight = f32_clamp01 (f32_div seconds MOTION_SECONDS)
                 in w\<lparr>sw_motion := f32_add (sw_motion w) (f32_scale (f32_minus sample (sw_motion w)) weight)\<rparr>
               else w)
      in w'\<lparr>sw_count := Some (count, now)\<rparr>)"

definition sel_switched :: "backend_kind \<Rightarrow> nat \<Rightarrow> sel_window \<Rightarrow> sel_window" where
  "sel_switched to now w =
     w\<lparr>sw_last_switch := now, sw_better := None, sw_count := None, sw_backoff := (sw_backoff w)(to := None)\<rparr>"

definition sel_failed :: "backend_kind \<Rightarrow> nat \<Rightarrow> sel_window \<Rightarrow> sel_window" where
  "sel_failed to now w =
     (let wait = (case sw_backoff w to of None \<Rightarrow> BACKOFF | Some (_, wait) \<Rightarrow> min (wait * 2) MAX_BACKOFF)
      in w\<lparr>sw_backoff := (sw_backoff w)(to \<mapsto> (now + wait, wait)), sw_better := None, sw_last_switch := now\<rparr>)"

section \<open>The choice\<close>

definition carrier_score :: "backend_kind \<Rightarrow> content_hint \<Rightarrow> f32 \<Rightarrow> bool \<Rightarrow> f32" where
  "carrier_score kind content motion rdp_possible =
     (case kind of
        Native \<Rightarrow> f32_add (f32_round (1 / 5)) motion
      | Rdp \<Rightarrow>
          if \<not> rdp_possible then 0
          else (case content of
                  TextContent \<Rightarrow> f32_minus (f32_round (6 / 5)) motion
                | GeneralContent \<Rightarrow> f32_minus (f32_round (3 / 10)) motion
                | GameContent \<Rightarrow> 0
                | VideoContent \<Rightarrow> 0)
      | _ \<Rightarrow> 0)"

text \<open>\<open>max_by\<close> returns the last of equal maxima; the scores it compares are positive numbers.\<close>

definition better_of :: "(backend_kind \<times> f32) option \<Rightarrow> backend_kind \<times> f32 \<Rightarrow> (backend_kind \<times> f32) option" where
  "better_of acc ks =
     (case acc of None \<Rightarrow> Some ks | Some m \<Rightarrow> if f32_less (snd ks) (snd m) then Some m else Some ks)"

definition best_carrier :: "sel_window \<Rightarrow> backend_kind \<Rightarrow> content_hint \<Rightarrow> bool \<Rightarrow> nat \<Rightarrow> backend_kind option" where
  "best_carrier w current content rdp_possible now =
     (let score = (\<lambda>kind. carrier_score kind content (sw_motion w) rdp_possible);
          mine = score current;
          free = (\<lambda>k. case sw_backoff w k of None \<Rightarrow> True | Some (until, _) \<Rightarrow> until \<le> now);
          scored = map (\<lambda>k. (k, score k)) (filter free (filter (\<lambda>k. k \<noteq> current) [Native, Rdp]));
          good = filter (\<lambda>(_, s). f32_less (f32_scale mine MARGIN) s \<and> f32_less 0 s) scored
      in map_option fst (foldl better_of None good))"

definition sel_choose ::
    "backend_kind \<Rightarrow> content_hint \<Rightarrow> bool \<Rightarrow> nat \<Rightarrow> sel_window \<Rightarrow> backend_kind option \<times> sel_window" where
  "sel_choose current content rdp_possible now w =
     (if sw_pinned w then (None, w)
      else (case best_carrier w current content rdp_possible now of
              None \<Rightarrow> (None, w\<lparr>sw_better := None\<rparr>)
            | Some kind \<Rightarrow>
                (case sw_better w of
                   Some (was, since) \<Rightarrow>
                     if was = kind then
                       (if DWELL \<le> now - since \<and> MIN_INTERVAL \<le> now - sw_last_switch w then Some kind else None, w)
                     else (None, w\<lparr>sw_better := Some (kind, now)\<rparr>)
                 | None \<Rightarrow> (None, w\<lparr>sw_better := Some (kind, now)\<rparr>))))"

section \<open>Facts of one choice\<close>

lemma better_of_mem: "foldl better_of acc ks = Some m \<Longrightarrow> acc = Some m \<or> m \<in> set ks"
proof (induction ks arbitrary: acc)
  case (Cons k ks)
  then have "better_of acc k = Some m \<or> m \<in> set ks"
    by simp
  then show ?case
    by (auto simp: better_of_def split: option.splits if_splits)
qed simp

lemma best_carrier_is:
  assumes "best_carrier w current content rdp now = Some kind"
  shows "kind \<in> {Native, Rdp}" "kind \<noteq> current"
    "\<And>until wait. sw_backoff w kind = Some (until, wait) \<Longrightarrow> until \<le> now"
    "f32_less 0 (carrier_score kind content (sw_motion w) rdp)"
proof -
  obtain s where m: "(kind, s) \<in> set (filter (\<lambda>(_, s). f32_less (f32_scale (carrier_score current content (sw_motion w) rdp) MARGIN) s \<and> f32_less 0 s)
      (map (\<lambda>k. (k, carrier_score k content (sw_motion w) rdp))
        (filter (\<lambda>k. case sw_backoff w k of None \<Rightarrow> True | Some (until, _) \<Rightarrow> until \<le> now)
          (filter (\<lambda>k. k \<noteq> current) [Native, Rdp]))))"
    using assms by (auto simp: best_carrier_def Let_def simp del: filter.simps dest!: better_of_mem)
  then show "kind \<in> {Native, Rdp}" "kind \<noteq> current"
    "f32_less 0 (carrier_score kind content (sw_motion w) rdp)"
    by (auto split: if_splits)
  show "\<And>until wait. sw_backoff w kind = Some (until, wait) \<Longrightarrow> until \<le> now"
    using m by (auto split: option.splits if_splits)
qed

lemma f32_zero: "f32_val 0 = 0"
  by (simp add: f32_val_def f32_exp_def f32_frac_def)

lemma rdp_out_of_reach: "best_carrier w current content False now \<noteq> Some Rdp"
  using best_carrier_is(4) [of w current content False now Rdp]
  by (auto simp: carrier_score_def f32_less_def)

lemma sel_choose_waits:
  assumes "sel_choose current content rdp now w = (Some kind, w')"
  shows "\<not> sw_pinned w" "w' = w" "MIN_INTERVAL \<le> now - sw_last_switch w"
    "\<exists>since. sw_better w = Some (kind, since) \<and> DWELL \<le> now - since"
    "best_carrier w current content rdp now = Some kind"
  using assms by (auto simp: sel_choose_def split: if_splits option.splits prod.splits)

lemma sel_choose_fields:
  "sw_last_switch (snd (sel_choose current content rdp now w)) = sw_last_switch w"
  "sw_pinned (snd (sel_choose current content rdp now w)) = sw_pinned w"
  "sw_pending (snd (sel_choose current content rdp now w)) = sw_pending w"
  "sw_backoff (snd (sel_choose current content rdp now w)) = sw_backoff w"
  by (auto simp: sel_choose_def split: option.splits prod.splits)

lemma sel_arrived_fields:
  "sw_last_switch (sel_arrived count now w) = sw_last_switch w"
  "sw_pinned (sel_arrived count now w) = sw_pinned w"
  "sw_pending (sel_arrived count now w) = sw_pending w"
  "sw_backoff (sel_arrived count now w) = sw_backoff w"
  by (auto simp: sel_arrived_def Let_def split: option.splits prod.splits)

lemma sel_new_fields:
  "sw_last_switch (sel_new now) = now" "\<not> sw_pinned (sel_new now)" "sw_pending (sel_new now) = None"
  "sw_backoff (sel_new now) = Map.empty"
  by (simp_all add: sel_new_def)

lemma sel_switched_fields:
  "sw_last_switch (sel_switched to now w) = now" "sw_pinned (sel_switched to now w) = sw_pinned w"
  "sw_pending (sel_switched to now w) = sw_pending w" "sw_backoff (sel_switched to now w) to = None"
  by (simp_all add: sel_switched_def)

lemma sel_failed_fields:
  "sw_last_switch (sel_failed to now w) = now" "sw_pinned (sel_failed to now w) = sw_pinned w"
  "sw_pending (sel_failed to now w) = sw_pending w"
  by (simp_all add: sel_failed_def Let_def)

lemmas sel_fields = sel_choose_fields sel_arrived_fields sel_new_fields sel_switched_fields sel_failed_fields

section \<open>The backoff\<close>

text \<open>Failures one after another wait 30 s, then twice as long each time, five minutes at the most.\<close>

definition wait_after :: "nat \<Rightarrow> nat" where
  "wait_after n = min (BACKOFF * 2 ^ n) MAX_BACKOFF"

lemma wait_after_Suc: "min (wait_after n * 2) MAX_BACKOFF = wait_after (Suc n)"
  by (simp add: wait_after_def mult.assoc min_def)

primrec fails :: "backend_kind \<Rightarrow> nat list \<Rightarrow> sel_window \<Rightarrow> sel_window" where
  "fails to [] w = w"
| "fails to (t # ts) w = fails to ts (sel_failed to t w)"

lemma fails_wait:
  "sw_backoff w to = Some (until, wait_after n) \<Longrightarrow>
     sw_backoff (fails to (ts @ [now]) w) to = Some (now + wait_after (Suc (n + length ts)), wait_after (Suc (n + length ts)))"
proof (induction ts arbitrary: w until n)
  case Nil
  then show ?case by (simp add: sel_failed_def Let_def wait_after_Suc)
next
  case (Cons t ts)
  have "sw_backoff (sel_failed to t w) to = Some (t + wait_after (Suc n), wait_after (Suc n))"
    using Cons.prems by (simp add: sel_failed_def Let_def wait_after_Suc)
  from Cons.IH [OF this] show ?case by simp
qed

lemma failures_back_off:
  assumes "sw_backoff w to = None"
  shows "sw_backoff (fails to (ts @ [now]) w) to = Some (now + wait_after (length ts), wait_after (length ts))"
proof (cases ts)
  case Nil
  with assms show ?thesis by (simp add: sel_failed_def Let_def wait_after_def BACKOFF_def MAX_BACKOFF_def SECONDS_def)
next
  case (Cons t us)
  have "sw_backoff (sel_failed to t w) to = Some (t + wait_after 0, wait_after 0)"
    using assms by (simp add: sel_failed_def Let_def wait_after_def BACKOFF_def MAX_BACKOFF_def SECONDS_def)
  from fails_wait [OF this] Cons show ?thesis by simp
qed

text \<open>
  A switch the session started counts as happened at once, which clears the backoff: when it is refused later,
  the wait starts from 30 s again.
\<close>

lemma refused_switch_waits_the_least:
  "sw_backoff (sel_failed to later (sel_switched to now w)) to = Some (later + BACKOFF, BACKOFF)"
  by (simp add: sel_failed_def sel_switched_def Let_def)

end
