(* ===== verification/Text_Numbers.thy ===== *)
theory Text_Numbers
  imports Text_Basics
begin

text \<open>
  Decimal numbers in texts: what \<open>format!\<close> writes of an unsigned number and what \<open>parse\<close> of an unsigned type reads
  (digits after an optional plus sign, refused when empty or above the type's largest value).
\<close>

definition digit10 :: "nat \<Rightarrow> nat option" where
  "digit10 c = (if is_ascii_digit c then Some (c - 48) else None)"

fun read_digits :: "nat \<Rightarrow> rstr \<Rightarrow> nat option" where
  "read_digits acc [] = Some acc"
| "read_digits acc (c # cs) = (case digit10 c of None \<Rightarrow> None | Some d \<Rightarrow> read_digits (10 * acc + d) cs)"

text \<open>\<open>str::parse\<close> of an unsigned type whose largest value is \<open>limit\<close>.\<close>

definition parse_unsigned :: "nat \<Rightarrow> rstr \<Rightarrow> nat option" where
  "parse_unsigned limit s =
     (let ds = (case s of [] \<Rightarrow> [] | c # cs \<Rightarrow> if c = 43 then cs else s)
      in if ds = [] then None
         else case read_digits 0 ds of None \<Rightarrow> None | Some n \<Rightarrow> if n \<le> limit then Some n else None)"

fun decimal :: "nat \<Rightarrow> rstr" where
  "decimal n = (if n < 10 then [48 + n] else decimal (n div 10) @ [48 + n mod 10])"

declare decimal.simps [simp del]

lemma decimal_not_Nil [simp]: "decimal n \<noteq> []"
  by (subst decimal.simps) simp

lemma decimal_digits: "c \<in> set (decimal n) \<Longrightarrow> is_ascii_digit c"
proof (induction n rule: decimal.induct)
  case (1 n)
  then show ?case
    by (subst (asm) decimal.simps) (auto simp: is_ascii_digit_def split: if_splits)
qed

lemma read_digits_append: "read_digits acc (a @ b) = (case read_digits acc a of None \<Rightarrow> None | Some n \<Rightarrow> read_digits n b)"
  by (induction a arbitrary: acc) (auto split: option.split)

lemma read_decimal: "read_digits 0 (decimal n) = Some n"
proof (induction n rule: decimal.induct)
  case (1 n)
  show ?case
  proof (cases "n < 10")
    case True
    then show ?thesis
      by (subst decimal.simps) (simp add: digit10_def is_ascii_digit_def)
  next
    case False
    then have "read_digits 0 (decimal (n div 10)) = Some (n div 10)"
      by (rule 1)
    with False show ?thesis
      by (subst decimal.simps) (simp add: read_digits_append digit10_def is_ascii_digit_def)
  qed
qed

lemma parse_decimal [simp]: "parse_unsigned limit (decimal n) = (if n \<le> limit then Some n else None)"
proof -
  obtain c cs where d: "decimal n = c # cs"
    by (cases "decimal n") simp_all
  then have "c \<noteq> 43"
    using decimal_digits [of c n] by (auto simp: is_ascii_digit_def)
  then show ?thesis
    using read_decimal [of n] by (simp add: parse_unsigned_def d)
qed

end
