(* ===== verification/Rendezvous.thy ===== *)
theory Rendezvous
  imports Text_Numbers
begin

unbundle bit_operations_syntax

text \<open>
  Finding a paired device away from home (\<open>rendezvous/src/lib.rs\<close>): device identities of the discovery network with
  their check characters, the lists of servers and what their answers mean, the STUN messages, and the
  keeper of a NAT mapping. The digest of a certificate is an argument.
\<close>

section \<open>Device identities\<close>

definition BASE32 :: rstr where
  "BASE32 = lit ''ABCDEFGHIJKLMNOPQRSTUVWXYZ234567''"

text \<open>The inner loop: characters while five bits are at hand.\<close>

function base32_drain :: "u32 \<Rightarrow> nat \<Rightarrow> rstr \<Rightarrow> nat \<times> rstr" where
  "base32_drain buffer bits out =
     (if 5 \<le> bits then base32_drain buffer (bits - 5) (out @ [BASE32 ! unat (drop_bit (bits - 5) buffer AND 31)]) else (bits, out))"
  by pat_completeness auto
termination
  by (relation "measure (\<lambda>(buffer, bits, out). bits)") auto

declare base32_drain.simps [simp del]

fun base32_loop :: "bytes \<Rightarrow> u32 \<Rightarrow> nat \<Rightarrow> rstr \<Rightarrow> u32 \<times> nat \<times> rstr" where
  "base32_loop [] buffer bits out = (buffer, bits, out)"
| "base32_loop (b # bs) buffer bits out =
     (let buffer = push_bit 8 buffer OR ucast b; (bits, out) = base32_drain buffer (bits + 8) out
      in base32_loop bs buffer bits out)"

definition base32 :: "bytes \<Rightarrow> rstr" where
  "base32 d =
     (let (buffer, bits, out) = base32_loop d 0 0 []
      in if 0 < bits then out @ [BASE32 ! unat (push_bit (5 - bits) buffer AND 31)] else out)"

definition code_point :: "nat \<Rightarrow> nat" where
  "code_point c = (case List.find (\<lambda>i. BASE32 ! i = c) [0..<32] of None \<Rightarrow> 0 | Some i \<Rightarrow> i)"

fun luhn_sum :: "nat \<Rightarrow> nat \<Rightarrow> rstr \<Rightarrow> nat" where
  "luhn_sum factor acc [] = acc"
| "luhn_sum factor acc (c # cs) =
     (let addend = factor * code_point c
      in luhn_sum (if factor = 2 then 1 else 2) (acc + (addend div 32 + addend mod 32)) cs)"

definition luhn32 :: "rstr \<Rightarrow> nat" where
  "luhn32 s = BASE32 ! ((32 - luhn_sum 1 0 s mod 32) mod 32)"

fun join_dash :: "rstr list \<Rightarrow> rstr" where
  "join_dash [] = []"
| "join_dash [s] = s"
| "join_dash (s # ss) = s @ 45 # join_dash ss"

definition checked_id :: "rstr \<Rightarrow> rstr" where
  "checked_id b32 = concat (map (\<lambda>i. let part = subslice b32 (i * 13) ((i + 1) * 13) in part @ [luhn32 part]) [0..<4])"

definition device_id :: "(bytes \<Rightarrow> bytes) \<Rightarrow> bytes \<Rightarrow> rstr" where
  "device_id sha cert = join_dash (chunks_of 7 (checked_id (base32 (sha cert))))"

definition plain_id :: "rstr \<Rightarrow> rstr" where
  "plain_id s = filter (\<lambda>c. c \<noteq> 45) s"

definition valid_device_id :: "rstr \<Rightarrow> bool" where
  "valid_device_id s =
     (let plain = plain_id s
      in utf8_len plain = 56 \<and> list_all (List.member BASE32) plain
         \<and> list_all (\<lambda>i. luhn32 (subslice plain (i * 14) (i * 14 + 13)) = plain ! (i * 14 + 13)) [0..<4])"

lemma length_BASE32 [simp]: "length BASE32 = 32"
  by (simp add: BASE32_def)

lemma BASE32_ascii: "c \<in> set BASE32 \<Longrightarrow> c < 128 \<and> c \<noteq> 45"
  by (auto simp: BASE32_def)

lemma distinct_BASE32: "distinct BASE32"
  by (simp add: BASE32_def)

lemma BASE32_nth [simp]: "i < 32 \<Longrightarrow> BASE32 ! i \<in> set BASE32"
  by simp

lemma find_upt: "List.find P [0..<n] = Some i \<Longrightarrow> i < n \<and> P i"
  by (auto simp: find_Some_iff)

lemma find_upt_None: "List.find P [0..<n] = None \<Longrightarrow> i < n \<Longrightarrow> \<not> P i"
  by (auto simp: find_None_iff)

lemma code_point_lt: "code_point c < 32"
proof (cases "List.find (\<lambda>i. BASE32 ! i = c) [0..<32]")
  case (Some i)
  then show ?thesis
    using find_upt [OF Some] by (simp only: code_point_def option.case)
qed (simp only: code_point_def option.case)

lemma BASE32_code_point: "c \<in> set BASE32 \<Longrightarrow> BASE32 ! code_point c = c"
proof -
  assume "c \<in> set BASE32"
  then obtain k where k: "k < 32" "BASE32 ! k = c"
    by (metis in_set_conv_nth length_BASE32)
  show ?thesis
  proof (cases "List.find (\<lambda>i. BASE32 ! i = c) [0..<32]")
    case None
    then show ?thesis
      using find_upt_None [OF None k(1)] k(2) by blast
  next
    case (Some i)
    then show ?thesis
      using find_upt [OF Some] by (simp only: code_point_def option.case)
  qed
qed

lemma code_point_inj: "c \<in> set BASE32 \<Longrightarrow> c' \<in> set BASE32 \<Longrightarrow> code_point c = code_point c' \<Longrightarrow> c = c'"
  by (metis BASE32_code_point)

text \<open>What the check adds for a character: a number below 32, another for each character.\<close>

definition luhn_add :: "nat \<Rightarrow> nat \<Rightarrow> nat" where
  "luhn_add factor c = factor * code_point c div 32 + factor * code_point c mod 32"

lemma luhn_add_lt: "factor = 1 \<or> factor = 2 \<Longrightarrow> luhn_add factor c < 32"
proof -
  have "2 * p div 32 + 2 * p mod 32 < 32" if "p < 32" for p :: nat
  proof (cases "p < 16")
    case False
    with that have "2 * p div 32 = 1" "2 * p mod 32 = 2 * p - 32"
      by (simp_all add: div_nat_eqI mod_if [of "2 * p"])
    with that show ?thesis
      by simp
  qed simp
  then show "factor = 1 \<or> factor = 2 \<Longrightarrow> luhn_add factor c < 32"
    using code_point_lt [of c] by (auto simp: luhn_add_def)
qed

lemma luhn_add_inj:
  assumes "factor = 1 \<or> factor = 2" "luhn_add factor c = luhn_add factor c'" "c \<in> set BASE32" "c' \<in> set BASE32"
  shows "c = c'"
proof -
  have undo: "q = (if even v then v div 2 else (v + 31) div 2)"
    if "q < 32" and "v = 2 * q div 32 + 2 * q mod 32" for q v :: nat
  proof (cases "q < 16")
    case True
    with that show ?thesis by simp
  next
    case False
    with that have "2 * q div 32 = 1" "2 * q mod 32 = 2 * q - 32"
      by (simp_all add: div_nat_eqI mod_if [of "2 * q"])
    with that False show ?thesis
      by (auto simp: elim: oddE)
  qed
  have "code_point c = code_point c'"
    using assms(1)
  proof
    assume "factor = 1"
    with assms(2) show ?thesis
      using code_point_lt [of c] code_point_lt [of c'] by (simp add: luhn_add_def)
  next
    assume "factor = 2"
    with assms(2) have eq: "2 * code_point c div 32 + 2 * code_point c mod 32 = 2 * code_point c' div 32 + 2 * code_point c' mod 32"
      by (simp add: luhn_add_def)
    show ?thesis
      using undo [OF code_point_lt refl, of c] undo [OF code_point_lt refl, of c'] unfolding eq by simp
  qed
  with assms(3,4) show ?thesis
    using code_point_inj by blast
qed

lemma luhn_sum_add: "luhn_sum f s cs = s + luhn_sum f 0 cs"
proof (induction cs arbitrary: f s)
  case (Cons c cs)
  show ?case
    unfolding luhn_sum.simps Let_def Cons.IH [of _ "s + _"] Cons.IH [of _ "0 + _"] by simp
qed simp

lemma luhn_sum_Cons: "luhn_sum f 0 (c # cs) = luhn_add f c + luhn_sum (if f = 2 then 1 else 2) 0 cs"
  using luhn_sum_add [of _ "luhn_add f c" cs] by (simp add: luhn_add_def Let_def)

lemma mod_add_cancel: "(r + a) mod n = (r + b) mod n \<longleftrightarrow> a mod n = b mod n" for a b r n :: nat
proof -
  have "(int r + int a) mod int n = (int r + int b) mod int n \<longleftrightarrow> int a mod int n = int b mod int n"
    by (simp add: mod_eq_dvd_iff)
  then show ?thesis
    by (simp flip: of_nat_add of_nat_mod)
qed

lemma luhn_sum_change:
  assumes "f = 1 \<or> f = 2" "i < length cs" "cs ! i \<in> set BASE32" "c \<in> set BASE32" "c \<noteq> cs ! i"
  shows "luhn_sum f 0 (cs[i := c]) mod 32 \<noteq> luhn_sum f 0 cs mod 32"
  using assms
proof (induction cs arbitrary: f i)
  case (Cons x cs)
  show ?case
  proof (cases i)
    case 0
    have lt: "luhn_add f x < 32" "luhn_add f c < 32"
      using Cons.prems(1) luhn_add_lt by blast+
    have ne: "luhn_add f c \<noteq> luhn_add f x"
      using Cons.prems luhn_add_inj [of f c x] by (auto simp: 0)
    then show ?thesis
      using lt unfolding 0 list_update.simps nat.case luhn_sum_Cons
      by (simp add: mod_add_cancel add.commute [of "luhn_add _ _"] split del: if_split)
  next
    case (Suc j)
    have "luhn_sum (if f = 2 then 1 else 2) 0 (cs[j := c]) mod 32 \<noteq> luhn_sum (if f = 2 then 1 else 2) 0 cs mod 32"
      using Cons.prems by (intro Cons.IH) (auto simp: Suc)
    then show ?thesis
      unfolding Suc list_update.simps nat.case luhn_sum_Cons by (simp add: mod_add_cancel)
  qed
qed simp

lemma luhn32_in: "luhn32 s \<in> set BASE32"
  by (simp add: luhn32_def)

lemma luhn32_change:
  assumes "i < length cs" "cs ! i \<in> set BASE32" "c \<in> set BASE32" "c \<noteq> cs ! i"
  shows "luhn32 (cs[i := c]) \<noteq> luhn32 cs"
proof -
  let ?a = "luhn_sum 1 0 (cs[i := c]) mod 32" and ?b = "luhn_sum 1 0 cs mod 32"
  have "?a \<noteq> ?b"
    using assms by (intro luhn_sum_change) simp_all
  moreover have "?a < 32" "?b < 32"
    by simp_all
  ultimately have "(32 - ?a) mod 32 \<noteq> (32 - ?b) mod 32"
    by (cases "?a = 0"; cases "?b = 0") simp_all
  then show ?thesis
    by (simp add: luhn32_def nth_eq_iff_index_eq [OF distinct_BASE32])
qed

lemma plain_update:
  assumes "i < length s" "s ! i \<noteq> 45" "c \<noteq> 45"
  shows "\<exists>j < length (plain_id s). plain_id s ! j = s ! i \<and> plain_id (s[i := c]) = (plain_id s)[j := c]"
proof -
  let ?j = "length (plain_id (take i s))"
  have s: "plain_id s = plain_id (take i s) @ s ! i # plain_id (drop (Suc i) s)"
    by (subst id_take_nth_drop [OF assms(1)]) (simp add: plain_id_def assms(2) del: append_take_drop_id)
  moreover have "plain_id (s[i := c]) = plain_id (take i s) @ c # plain_id (drop (Suc i) s)"
    using assms by (simp add: plain_id_def upd_conv_take_nth_drop)
  ultimately show ?thesis
    by (intro exI [of _ ?j]) (simp add: nth_append list_update_append)
qed

lemma valid_plain:
  assumes "valid_device_id s"
  shows "length (plain_id s) = 56" "set (plain_id s) \<subseteq> set BASE32"
    "i < 4 \<Longrightarrow> luhn32 (subslice (plain_id s) (i * 14) (i * 14 + 13)) = plain_id s ! (i * 14 + 13)"
proof -
  have all: "utf8_len (plain_id s) = 56" "list_all (List.member BASE32) (plain_id s)"
    "list_all (\<lambda>i. luhn32 (subslice (plain_id s) (i * 14) (i * 14 + 13)) = plain_id s ! (i * 14 + 13)) [0..<4]"
    using assms unfolding valid_device_id_def Let_def by blast+
  show base: "set (plain_id s) \<subseteq> set BASE32"
    using all(2) by (auto simp: list_all_iff)
  have "utf8_len (plain_id s) = length (plain_id s)"
    using subsetD [OF base] BASE32_ascii by (intro utf8_len_ascii) metis
  then show "length (plain_id s) = 56"
    using all(1) by simp
  show "i < 4 \<Longrightarrow> luhn32 (subslice (plain_id s) (i * 14) (i * 14 + 13)) = plain_id s ! (i * 14 + 13)"
    using all(3) by (simp add: list_all_iff)
qed

lemma subslice_update:
  "subslice (xs[j := c]) a b = (if a \<le> j \<and> j < b then (subslice xs a b)[j - a := c] else subslice xs a b)"
proof (cases "j < a")
  case True
  then show ?thesis
    by (simp add: subslice_def drop_update_cancel)
next
  case False
  then have "drop a (xs[j := c]) = (drop a xs)[j - a := c]"
    by (simp add: drop_update_swap)
  moreover have "take (b - a) ((drop a xs)[j - a := c]) = (if j - a < b - a then (take (b - a) (drop a xs))[j - a := c] else take (b - a) (drop a xs))"
    by (cases "j - a < b - a") (simp_all add: take_update_swap list_update_beyond not_less)
  ultimately show ?thesis
    using False by (auto simp: subslice_def)
qed

text \<open>
  A mistyped device identity is recognised: changing any one character of a valid identity, other than to
  or from a dash, makes it invalid.
\<close>

theorem device_id_detects_a_typo:
  assumes "valid_device_id s" "i < length s" "s ! i \<noteq> 45" "c \<noteq> 45" "c \<noteq> s ! i"
  shows "\<not> valid_device_id (s[i := c])"
proof
  assume bad: "valid_device_id (s[i := c])"
  define p where "p = plain_id s"
  obtain j where j: "j < length p" "p ! j = s ! i" "plain_id (s[i := c]) = p[j := c]"
    using plain_update [OF assms(2-4)] by (auto simp: p_def)
  note good = valid_plain [OF assms(1), folded p_def] and wrong = valid_plain [OF bad, unfolded j(3)]
  let ?k = "j div 14"
  have k: "?k < 4" "?k * 14 \<le> j" "j < ?k * 14 + 14"
    using j(1) good(1) by (simp_all add: div_less_iff_less_mult)
  have c: "c \<in> set BASE32"
    using wrong(2) j(1) set_update_memI by fastforce
  show False
  proof (cases "j < ?k * 14 + 13")
    case True
    let ?part = "subslice p (?k * 14) (?k * 14 + 13)"
    have "j - ?k * 14 < length ?part" "?part ! (j - ?k * 14) = p ! j"
      using True k good(1) by (simp_all add: subslice_def)
    then have "luhn32 (?part[j - ?k * 14 := c]) \<noteq> luhn32 ?part"
      using nth_mem [OF j(1)] good(2) j(2) assms(5) c by (intro luhn32_change) auto
    then show False
      using good(3) [OF k(1)] wrong(3) [OF k(1)] True k(2) by (simp add: subslice_update)
  next
    case False
    then have "j = ?k * 14 + 13"
      using k(3) by simp
    then show False
      using good(3) [OF k(1)] wrong(3) [OF k(1)] j assms(5) by (simp add: subslice_update)
  qed
qed

lemma base32_drain_out:
  "base32_drain buffer bits out = (bits', out') \<Longrightarrow>
     bits' < 5 \<and> 5 * length out' + bits' = 5 * length out + bits \<and> (set out \<subseteq> set BASE32 \<longrightarrow> set out' \<subseteq> set BASE32)"
proof (induction buffer bits out rule: base32_drain.induct)
  case (1 buffer bits out)
  have small: "unat (w AND 31 :: u32) < 32" for w
  proof -
    have "w AND 31 \<le> 31"
      by (rule word_and_le1)
    then show ?thesis
      by (simp add: word_le_nat_alt)
  qed
  show ?case
  proof (cases "5 \<le> bits")
    case True
    then have "base32_drain buffer (bits - 5) (out @ [BASE32 ! unat (drop_bit (bits - 5) buffer AND 31)]) = (bits', out')"
      using 1(2) by (subst (asm) base32_drain.simps) simp
    from 1(1) [OF True this] True small show ?thesis
      by auto
  next
    case False
    with 1(2) show ?thesis
      by (subst (asm) base32_drain.simps) auto
  qed
qed

lemma base32_loop_out:
  "base32_loop bs buffer bits out = (buffer', bits', out') \<Longrightarrow> bits < 5 \<Longrightarrow> set out \<subseteq> set BASE32 \<Longrightarrow>
     bits' < 5 \<and> 5 * length out' + bits' = 5 * length out + bits + 8 * length bs \<and> set out' \<subseteq> set BASE32"
proof (induction bs arbitrary: buffer bits out)
  case (Cons b bs)
  obtain bits1 out1 where d: "base32_drain (push_bit 8 buffer OR ucast b) (bits + 8) out = (bits1, out1)"
    by fastforce
  note one = base32_drain_out [OF d]
  have "base32_loop bs (push_bit 8 buffer OR ucast b) bits1 out1 = (buffer', bits', out')"
    using Cons.prems(1) by (simp add: Let_def d)
  from Cons.IH [OF this] one Cons.prems(3) show ?case
    by auto
qed auto

lemma base32_32:
  assumes "length d = 32"
  shows "length (base32 d) = 52 \<and> set (base32 d) \<subseteq> set BASE32"
proof -
  obtain buffer bits out where l: "base32_loop d 0 0 [] = (buffer, bits, out)"
    by (metis prod_cases3)
  have o: "bits < 5" "5 * length out + bits = 256" "set out \<subseteq> set BASE32"
    using base32_loop_out [OF l] assms by auto
  then have "bits = 1" "length out = 51"
    by presburger+
  moreover have "unat (w AND 31 :: u32) < 32" for w
    using word_and_le1 [of w 31] by (simp add: word_le_nat_alt)
  ultimately show ?thesis
    using o(3) by (simp add: base32_def l)
qed

lemma plain_join: "plain_id (join_dash ss) = plain_id (concat ss)"
  by (induction ss rule: join_dash.induct) (auto simp: plain_id_def)

text \<open>
  The identity derived from any certificate is a valid one, for every digest of 32 bytes.
\<close>

theorem device_id_is_valid:
  assumes "\<And>m. length (sha m) = 32"
  shows "valid_device_id (device_id sha cert)"
proof -
  define b where "b = base32 (sha cert)"
  have b: "length b = 52" "set b \<subseteq> set BASE32"
    using base32_32 [OF assms] by (simp_all add: b_def)
  define q where "q i = subslice b (i * 13) ((i + 1) * 13)" for i
  have q: "length (q 0) = 13" "length (q 1) = 13" "length (q 2) = 13" "length (q 3) = 13"
    using b(1) by (simp_all add: q_def)
  have sub: "set (q i) \<subseteq> set BASE32" for i
    using b(2) by (auto simp: q_def subslice_def dest: in_set_takeD in_set_dropD)
  have up: "[0..<4] = [0, 1, 2, 3::nat]"
    by (simp add: upt_rec)
  have checked: "checked_id b = q 0 @ [luhn32 (q 0)] @ q 1 @ [luhn32 (q 1)] @ q 2 @ [luhn32 (q 2)] @ q 3 @ [luhn32 (q 3)]"
    by (simp add: checked_id_def up q_def Let_def)
  have base: "set (checked_id b) \<subseteq> set BASE32"
    using sub luhn32_in unfolding checked by simp
  then have "45 \<notin> set (checked_id b)"
    using BASE32_ascii by blast
  then have plain: "plain_id (device_id sha cert) = checked_id b"
    by (simp add: device_id_def b_def plain_join concat_chunks_of) (auto simp: plain_id_def filter_id_conv)
  have "utf8_len (checked_id b) = length (checked_id b)"
    using base BASE32_ascii by (intro utf8_len_ascii) blast
  moreover have "length (checked_id b) = 56"
    unfolding checked using q by simp
  moreover have "luhn32 (subslice (checked_id b) (i * 14) (i * 14 + 13)) = checked_id b ! (i * 14 + 13)" if "i \<in> set [0..<4]" for i
    using that q unfolding up checked by (auto simp: subslice_def nth_append)
  ultimately show ?thesis
    using base unfolding valid_device_id_def plain Let_def by (auto simp: list_all_iff)
qed

lemma device_id_is_valid_witness: "valid_device_id (device_id (\<lambda>_. replicate 32 7) [1, 2, 3])"
  by (rule device_id_is_valid) simp

lemma luhn_A: "luhn_sum f 0 (replicate n 65) = 0"
proof (induction n arbitrary: f)
  case (Suc n)
  have "code_point 65 = 0"
    by (simp add: code_point_def upt_conv_Cons BASE32_def)
  then show ?case
    using Suc by (simp add: Let_def)
qed simp

lemma device_id_detects_a_typo_witness:
  "\<not> valid_device_id ((lit ''AAAAAAA-AAAAAAA-AAAAAAA-AAAAAAA-AAAAAAA-AAAAAAA-AAAAAAA-AAAAAAA'')[62 := 66])"
proof (rule device_id_detects_a_typo)
  let ?s = "lit ''AAAAAAA-AAAAAAA-AAAAAAA-AAAAAAA-AAAAAAA-AAAAAAA-AAAAAAA-AAAAAAA''"
  have plain: "plain_id ?s = replicate 56 65"
    by (simp add: plain_id_def numeral_eq_Suc)
  have "subslice (replicate 56 65) (i * 14) (i * 14 + 13) = replicate 13 (65 :: nat)" "replicate 56 65 ! (i * 14 + 13) = (65 :: nat)" if "i < 4" for i
    using that by (auto simp: subslice_def)
  moreover have "luhn32 (replicate 13 65) = 65"
    unfolding luhn32_def luhn_A by (simp add: BASE32_def)
  moreover have "65 \<in> set BASE32"
    by (simp add: BASE32_def)
  ultimately show "valid_device_id ?s"
    unfolding valid_device_id_def Let_def plain by (simp add: list_all_iff utf8_len_def utf8_len_char_def sum_list_replicate)
qed simp_all

section \<open>The servers of the discovery network\<close>

text \<open>Times are nanoseconds.\<close>

definition SECOND :: nat where "SECOND = 1000000000"
definition REANNOUNCE :: nat where "REANNOUNCE = 30 * 60 * SECOND"
definition RETRY_AFTER_FAILURE :: nat where "RETRY_AFTER_FAILURE = 5 * 60 * SECOND"
definition FOUND_CACHE :: nat where "FOUND_CACHE = 5 * 60 * SECOND"
definition NOT_FOUND_CACHE :: nat where "NOT_FOUND_CACHE = 60 * SECOND"
definition STUN_KEEPALIVE_START :: nat where "STUN_KEEPALIVE_START = 180 * SECOND"
definition STUN_KEEPALIVE_MIN :: nat where "STUN_KEEPALIVE_MIN = 20 * SECOND"

record server =
  sr_url :: rstr
  sr_announce :: bool
  sr_lookup :: bool

definition SYNCTHING_DISCOVERY :: "rstr list" where
  "SYNCTHING_DISCOVERY =
     [lit ''https://discovery-lookup.syncthing.net/v2/?noannounce'', lit ''https://discovery-announce-v4.syncthing.net/v2/?nolookup'',
      lit ''https://discovery-announce-v6.syncthing.net/v2/?nolookup'']"

definition server_parse :: "rstr \<Rightarrow> server option" where
  "server_parse s =
     (let s = trim s
      in if \<not> starts_with (lit ''https://'') s then None
         else
           (let (base, query) = (case split_once 63 s of None \<Rightarrow> (s, []) | Some p \<Rightarrow> p);
                words = split_on 38 query
            in Some \<lparr>sr_url = base, sr_announce = \<not> List.member words (lit ''noannounce''),
                 sr_lookup = \<not> List.member words (lit ''nolookup'')\<rparr>))"

definition server_list :: "rstr list \<Rightarrow> server list" where
  "server_list texts =
     List.map_filter server_parse (concat (map (\<lambda>t. if trim t = lit ''default'' then SYNCTHING_DISCOVERY else [t]) texts))"

datatype answer = Announced nat | FoundAt "rstr list" | WaitFor nat

text \<open>What one server answered: a success with a header or a body, a refusal with a header, or nothing.\<close>

datatype announce_reply = AnnounceTaken "rstr option" | AnnounceRefused "rstr option" | AnnounceFailed
datatype lookup_reply = LookupBody "rstr list option" | LookupRefused "rstr option" | LookupFailed

definition header_seconds :: "rstr option \<Rightarrow> nat option" where
  "header_seconds header =
     (case header of
        None \<Rightarrow> None
      | Some h \<Rightarrow>
          (case parse_unsigned (2 ^ 64 - 1) (trim h) of
             None \<Rightarrow> None
           | Some s \<Rightarrow> if 0 < s then Some (s * SECOND) else None))"

definition or_else :: "nat option \<Rightarrow> nat \<Rightarrow> nat" where
  "or_else given d = (case given of None \<Rightarrow> d | Some x \<Rightarrow> x)"

definition announce_after :: "announce_reply \<Rightarrow> nat" where
  "announce_after r =
     (case r of
        AnnounceTaken h \<Rightarrow> or_else (header_seconds h) REANNOUNCE
      | AnnounceRefused h \<Rightarrow> or_else (header_seconds h) RETRY_AFTER_FAILURE
      | AnnounceFailed \<Rightarrow> RETRY_AFTER_FAILURE)"

text \<open>The answer of the servers asked one after the other; \<open>reply\<close> is what each says.\<close>

fun announce_loop :: "(server \<Rightarrow> announce_reply) \<Rightarrow> server list \<Rightarrow> bool \<Rightarrow> nat option \<Rightarrow> bool \<times> nat option" where
  "announce_loop reply [] any due = (any, due)"
| "announce_loop reply (s # ss) any due =
     (let after = announce_after (reply s)
      in announce_loop reply ss (any \<or> (case reply s of AnnounceTaken _ \<Rightarrow> True | _ \<Rightarrow> False))
           (Some (case due of None \<Rightarrow> after | Some n \<Rightarrow> min n after)))"

definition announce :: "bool \<Rightarrow> (server \<Rightarrow> announce_reply) \<Rightarrow> server list \<Rightarrow> answer" where
  "announce agent reply servers =
     (if \<not> agent then WaitFor RETRY_AFTER_FAILURE
      else case announce_loop reply (filter sr_announce servers) False None of
          (True, Some n) \<Rightarrow> Announced n
        | (_, n) \<Rightarrow> WaitFor (or_else n RETRY_AFTER_FAILURE))"

fun lookup_loop :: "(server \<Rightarrow> lookup_reply) \<Rightarrow> server list \<Rightarrow> nat \<Rightarrow> answer" where
  "lookup_loop reply [] wait = WaitFor wait"
| "lookup_loop reply (s # ss) wait =
     (case reply s of
        LookupBody (Some addresses) \<Rightarrow> if addresses \<noteq> [] then FoundAt addresses else lookup_loop reply ss wait
      | LookupBody None \<Rightarrow> lookup_loop reply ss wait
      | LookupRefused h \<Rightarrow> lookup_loop reply ss (max wait (or_else (header_seconds h) NOT_FOUND_CACHE))
      | LookupFailed \<Rightarrow> lookup_loop reply ss wait)"

definition lookup_device :: "bool \<Rightarrow> (server \<Rightarrow> lookup_reply) \<Rightarrow> server list \<Rightarrow> rstr \<Rightarrow> answer" where
  "lookup_device agent reply servers device =
     (if \<not> valid_device_id device \<or> \<not> agent then WaitFor NOT_FOUND_CACHE
      else lookup_loop reply (filter sr_lookup servers) NOT_FOUND_CACHE)"

text \<open>A wait is never shorter than a minute, whatever the servers say; one after a refusal not shorter than it asked.\<close>

lemma lookup_loop_waits: "lookup_loop reply ss wait = WaitFor w \<Longrightarrow> wait \<le> w"
proof (induction ss arbitrary: wait)
  case (Cons s ss)
  then show ?case
    by (fastforce split: lookup_reply.splits option.splits if_splits dest: Cons.IH)
qed simp

lemma lookup_waits: "lookup_device agent reply servers device = WaitFor w \<Longrightarrow> NOT_FOUND_CACHE \<le> w"
  using lookup_loop_waits by (auto simp: lookup_device_def split: if_splits)

section \<open>STUN\<close>

type_synonym socket_addr = "bytes \<times> u16"

definition COOKIE :: bytes where "COOKIE = [0x21, 0x12, 0xa4, 0x42]"

text \<open>\<open>tx\<close>: the twelve random bytes of the transaction.\<close>

definition binding_request :: "bytes \<Rightarrow> bytes" where
  "binding_request tx = [0, 1, 0, 0] @ COOKIE @ tx"

definition is_stun :: "bytes \<Rightarrow> bool" where
  "is_stun d = (20 \<le> length d \<and> d ! 0 AND 0xc0 = 0 \<and> subslice d 1 4 \<noteq> [0, 0, 0] \<and> subslice d 4 8 = COOKIE)"

text \<open>The attributes from \<open>at\<close> on; \<open>plain\<close> is the address an earlier one gave.\<close>

function stun_attrs :: "bytes \<Rightarrow> nat \<Rightarrow> socket_addr option \<Rightarrow> socket_addr option" where
  "stun_attrs body pos plain =
     (if pos + 4 \<le> length body then
        (let kind = (of_be (subslice body pos (pos + 2)) :: u16);
             len = unat (of_be (subslice body (pos + 2) (pos + 4)) :: u16)
         in if length body < pos + 4 + len then None
            else
              (let v = subslice body (pos + 4) (pos + 4 + len);
                   port = (of_be (subslice v 2 4) :: u16); ip = subslice v 4 8;
                   after = pos + 4 + (len + 3) div 4 * 4
               in if (kind = 0x0020 \<or> kind = 0x0001) \<and> 8 \<le> length v \<and> v ! 1 = 1 then
                    (if kind = 0x0020 then Some (map2 (XOR) ip COOKIE, port XOR 0x2112)
                     else stun_attrs body after (Some (ip, port)))
                  else stun_attrs body after plain))
      else plain)"
  by pat_completeness auto
termination
  by (relation "measure (\<lambda>(body, pos, plain). length body - pos)") auto

declare stun_attrs.simps [simp del]

definition mapped_address :: "bytes \<Rightarrow> bytes \<Rightarrow> socket_addr option" where
  "mapped_address d tx =
     (if \<not> is_stun d \<or> take 2 d \<noteq> [1, 1] \<or> subslice d 8 20 \<noteq> tx then None
      else
        (let len = unat (of_be (subslice d 2 4) :: u16)
         in if length d < 20 + len then None else stun_attrs (subslice d 20 (20 + len)) 0 None))"

section \<open>The keeper of the mapping\<close>

record keeper =
  kp_servers :: "socket_addr list"
  kp_next :: nat
  kp_tx :: "bytes option"
  kp_sent :: "nat option"
  kp_interval :: nat
  kp_mapped :: "socket_addr option"

definition keeper_new :: "socket_addr list \<Rightarrow> keeper" where
  "keeper_new servers =
     \<lparr>kp_servers = servers, kp_next = 0, kp_tx = None, kp_sent = None, kp_interval = STUN_KEEPALIVE_START, kp_mapped = None\<rparr>"

definition keeper_due :: "bytes \<Rightarrow> nat \<Rightarrow> keeper \<Rightarrow> (bytes \<times> socket_addr) option \<times> keeper" where
  "keeper_due tx now k =
     (if kp_servers k = [] then (None, k)
      else
        (let due = (case (kp_sent k, kp_tx k) of
              (None, _) \<Rightarrow> True
            | (Some t, Some _) \<Rightarrow> 5 * SECOND < now - t
            | (Some t, None) \<Rightarrow> kp_interval k < now - t)
         in if \<not> due then (None, k)
            else
              (let nxt = (if kp_tx k \<noteq> None then (kp_next k + 1) mod length (kp_servers k) else kp_next k)
               in (Some (binding_request tx, kp_servers k ! nxt), k\<lparr>kp_next := nxt, kp_tx := Some tx, kp_sent := Some now\<rparr>))))"

definition keeper_heard :: "bytes \<Rightarrow> keeper \<Rightarrow> bool \<times> keeper" where
  "keeper_heard d k =
     (if \<not> is_stun d then (False, k)
      else
        (True,
         case kp_tx k of
           None \<Rightarrow> k
         | Some tx \<Rightarrow>
             (case mapped_address d tx of
                None \<Rightarrow> k
              | Some addr \<Rightarrow>
                  k\<lparr>kp_interval := (if kp_mapped k \<noteq> None \<and> kp_mapped k \<noteq> Some addr
                      then max (kp_interval k div 2) STUN_KEEPALIVE_MIN else kp_interval k),
                    kp_mapped := Some addr, kp_tx := None\<rparr>)))"

text \<open>What a server answers: attributes, each padded to four bytes; the first XOR-mapped IPv4 address counts.\<close>

definition attr_bytes :: "u16 \<times> bytes \<Rightarrow> bytes" where
  "attr_bytes = (\<lambda>(kind, v). be_bytes 2 kind @ be_bytes 2 (of_nat (length v) :: u16) @ v @ replicate ((length v + 3) div 4 * 4 - length v) 0)"

definition stun_reply :: "bytes \<Rightarrow> (u16 \<times> bytes) list \<Rightarrow> bytes" where
  "stun_reply tx attrs =
     (let body = concat (map attr_bytes attrs)
      in [1, 1] @ be_bytes 2 (of_nat (length body) :: u16) @ COOKIE @ tx @ body)"

definition xor_mapped :: "bytes \<Rightarrow> u16 \<Rightarrow> u16 \<times> bytes" where
  "xor_mapped ip port = (0x20, [0, 1] @ be_bytes 2 (port XOR 0x2112) @ map2 (XOR) ip COOKIE)"

lemma subslice_append_right: "length a = i \<Longrightarrow> i \<le> j \<Longrightarrow> subslice (a @ b) i j = take (j - i) b"
  by (simp add: subslice_def)

lemma length_attr_bytes: "length (attr_bytes (kind, v)) = 4 + (length v + 3) div 4 * 4"
proof -
  have "length v \<le> (length v + 3) div 4 * 4"
    by presburger
  then show ?thesis
    by (simp add: attr_bytes_def)
qed

lemma stun_attrs_step:
  assumes "length v < 65536" "pos = length pre"
  shows "stun_attrs (pre @ attr_bytes (kind, v) @ rest) pos plain =
    (let after = pos + length (attr_bytes (kind, v))
     in if (kind = 0x20 \<or> kind = 1) \<and> 8 \<le> length v \<and> v ! 1 = 1 then
          (if kind = 0x20 then Some (map2 (XOR) (subslice v 4 8) COOKIE, of_be (subslice v 2 4) XOR 0x2112)
           else stun_attrs (pre @ attr_bytes (kind, v) @ rest) after (Some (subslice v 4 8, of_be (subslice v 2 4))))
        else stun_attrs (pre @ attr_bytes (kind, v) @ rest) after plain)"
proof -
  let ?body = "pre @ attr_bytes (kind, v) @ rest"
  have d: "drop pos ?body = be_bytes 2 kind @ be_bytes 2 (of_nat (length v) :: u16) @ v @ replicate ((length v + 3) div 4 * 4 - length v) 0 @ rest"
    by (simp add: assms(2) attr_bytes_def)
  have k: "subslice ?body pos (pos + 2) = be_bytes 2 kind"
    unfolding subslice_def d by simp
  have "drop (pos + 2) ?body = drop 2 (drop pos ?body)" "drop (pos + 4) ?body = drop 4 (drop pos ?body)"
    by (simp_all only: drop_drop add.commute)
  then have l: "subslice ?body (pos + 2) (pos + 4) = be_bytes 2 (of_nat (length v) :: u16)"
    and v: "subslice ?body (pos + 4) (pos + 4 + length v) = v"
    unfolding subslice_def d by simp_all
  have len: "unat (of_be (be_bytes 2 (of_nat (length v) :: u16)) :: u16) = length v"
    using assms(1) by (simp add: unat_of_nat take_bit_eq_mod)
  have kind: "(of_be (be_bytes 2 kind) :: u16) = kind"
    by simp
  have len_body: "length ?body = pos + 4 + (length v + 3) div 4 * 4 + length rest"
    by (simp add: assms(2) length_attr_bytes)
  have le: "pos + 4 \<le> length ?body" "\<not> length ?body < pos + 4 + length v"
    unfolding len_body by presburger+
  have after: "pos + 4 + (length v + 3) div 4 * 4 = pos + length (attr_bytes (kind, v))"
    by (simp add: length_attr_bytes)
  show ?thesis
    by (subst stun_attrs.simps) (simp only: le if_True if_False Let_def k l v len kind after)
qed

lemma stun_attrs_first:
  assumes "\<forall>(kind, v) \<in> set before. kind \<noteq> 0x20 \<and> length v < 65536" "length ip = 4"
  shows "stun_attrs (pre @ concat (map attr_bytes before) @ attr_bytes (xor_mapped ip port) @ rest) (length pre) plain = Some (ip, port)"
  using assms(1)
proof (induction before arbitrary: pre plain)
  case Nil
  obtain a b c d where ip: "ip = [a, b, c, d]"
    using assms(2) by (auto simp: numeral_eq_Suc length_Suc_conv)
  have "stun_attrs (pre @ attr_bytes (xor_mapped ip port) @ rest) (length pre) plain
      = Some (map2 (XOR) (map2 (XOR) ip COOKIE) COOKIE, (port XOR 0x2112) XOR 0x2112)"
    unfolding xor_mapped_def by (subst stun_attrs_step) (simp_all add: ip COOKIE_def subslice_def)
  then show ?case
    by (simp add: ip COOKIE_def xor.assoc)
next
  case (Cons x before)
  obtain kind v where x: "x = (kind, v)"
    by (cases x)
  have v: "length v < 65536" "kind \<noteq> 0x20"
    using Cons.prems by (auto simp: x)
  have next': "stun_attrs (pre @ attr_bytes (kind, v) @ concat (map attr_bytes before) @ attr_bytes (xor_mapped ip port) @ rest)
      (length pre + length (attr_bytes (kind, v))) plain' = Some (ip, port)" for plain'
    using Cons.IH [of "pre @ attr_bytes (kind, v)" plain'] Cons.prems by simp
  have "stun_attrs (pre @ attr_bytes (kind, v) @ concat (map attr_bytes before) @ attr_bytes (xor_mapped ip port) @ rest)
      (length pre) plain = Some (ip, port)"
    unfolding stun_attrs_step [OF v(1) refl] Let_def next' using v(2) by (simp only: if_False if_cancel)
  then show ?case
    by (simp add: x)
qed

lemma stun_reply_is_read:
  assumes "\<forall>(kind, v) \<in> set before. kind \<noteq> 0x20 \<and> length v < 65536" "length ip = 4" "length tx = 12"
    "length (concat (map attr_bytes (before @ xor_mapped ip port # rest))) < 65536"
  shows "mapped_address (stun_reply tx (before @ xor_mapped ip port # rest) @ junk) tx = Some (ip, port)"
proof -
  define body where "body = concat (map attr_bytes (before @ xor_mapped ip port # rest))"
  have d: "stun_reply tx (before @ xor_mapped ip port # rest) @ junk
      = [1, 1] @ be_bytes 2 (of_nat (length body) :: u16) @ COOKIE @ tx @ body @ junk" (is "?d = _")
    by (simp only: stun_reply_def Let_def body_def append_assoc)
  have len: "unat (of_be (subslice ?d 2 4) :: u16) = length body"
    unfolding d using assms(4) [folded body_def] by (simp add: subslice_def unat_of_nat take_bit_eq_mod)
  have tx: "subslice ?d 8 20 = tx" and body: "subslice ?d 20 (20 + length body) = body" and enough: "20 + length body \<le> length ?d"
    and cookie: "subslice ?d 4 8 = COOKIE"
    unfolding d using assms(3) by (simp_all add: subslice_def COOKIE_def)
  have "?d ! 0 = 1" "take 2 ?d = [1, 1]"
    unfolding d by simp_all
  moreover have "subslice ?d 1 4 \<noteq> [0, 0, 0]"
    unfolding d by (simp add: subslice_def)
  ultimately have "is_stun ?d"
    using enough cookie by (simp add: is_stun_def)
  moreover have "stun_attrs body 0 None = Some (ip, port)"
    using stun_attrs_first [OF assms(1,2), of "[]" port "concat (map attr_bytes rest)" None] by (simp add: body_def)
  ultimately show ?thesis
    using tx body enough len \<open>take 2 ?d = [1, 1]\<close> by (simp add: mapped_address_def Let_def)
qed

text \<open>
  The answer of a STUN server gives the address it saw: whatever other attributes come before and after the
  XOR-mapped address and whatever follows the message, an answer to the transaction reads as exactly that address
  and port.
\<close>

theorem stun_answer_gives_the_address:
  assumes "\<forall>(kind, v) \<in> set before. kind \<noteq> 0x20 \<and> length v < 65536" "length ip = 4" "length tx = 12"
    "length (concat (map attr_bytes (before @ xor_mapped ip port # rest))) < 65536"
  shows "mapped_address (stun_reply tx (before @ xor_mapped ip port # rest) @ junk) tx = Some (ip, port)"
  using assms by (rule stun_reply_is_read)

lemma stun_answer_gives_the_address_witness:
  "mapped_address (stun_reply (replicate 12 5) ([(0x8022, [83, 117, 110])] @ xor_mapped [198, 51, 100, 9] 40000 # []) @ [1, 2]) (replicate 12 5)
     = Some ([198, 51, 100, 9], 40000)"
  by (rule stun_answer_gives_the_address) (simp_all add: attr_bytes_def xor_mapped_def COOKIE_def)

text \<open>An answer moves the mapping only when it answers the request that is out.\<close>

lemma keeper_heard_own:
  "snd (keeper_heard d k) \<noteq> k \<Longrightarrow> \<exists>tx. kp_tx k = Some tx \<and> subslice d 8 20 = tx \<and> kp_mapped (snd (keeper_heard d k)) = mapped_address d tx"
  by (auto simp: keeper_heard_def mapped_address_def Let_def split: option.splits if_splits)

text \<open>The keeper's life: looks at the clock and datagrams, and the times it sends a request at.\<close>

datatype keeper_event = KeeperDue bytes nat | KeeperHeard bytes

fun keeper_step :: "keeper_event \<Rightarrow> keeper \<Rightarrow> nat list \<times> keeper" where
  "keeper_step (KeeperDue tx now) k = (let (sent, k) = keeper_due tx now k in (if sent = None then [] else [now], k))"
| "keeper_step (KeeperHeard d) k = ([], snd (keeper_heard d k))"

fun keeper_sends :: "keeper_event list \<Rightarrow> keeper \<Rightarrow> nat list \<times> keeper" where
  "keeper_sends [] k = ([], k)"
| "keeper_sends (e # es) k =
     (let (ts, k) = keeper_step e k; (rest, k) = keeper_sends es k in (ts @ rest, k))"

definition keeper_ok :: "keeper \<Rightarrow> bool" where
  "keeper_ok k = (STUN_KEEPALIVE_MIN \<le> kp_interval k \<and> kp_interval k \<le> STUN_KEEPALIVE_START
     \<and> (kp_servers k \<noteq> [] \<longrightarrow> kp_next k < length (kp_servers k)))"

lemma keeper_heard_rest:
  "keeper_ok k \<Longrightarrow> keeper_ok (snd (keeper_heard d k)) \<and> kp_sent (snd (keeper_heard d k)) = kp_sent k"
  by (auto simp: keeper_heard_def keeper_ok_def STUN_KEEPALIVE_MIN_def STUN_KEEPALIVE_START_def split: option.split)

lemma keeper_due_rest:
  assumes "keeper_ok k" "keeper_due tx now k = (sent, k')"
  shows "keeper_ok k'" "sent = None \<Longrightarrow> k' = k"
    "sent = Some m \<Longrightarrow> kp_sent k' = Some now \<and> (case kp_sent k of None \<Rightarrow> True | Some t \<Rightarrow> t + 5 * SECOND < now)"
  using assms by (auto simp: keeper_due_def keeper_ok_def Let_def STUN_KEEPALIVE_MIN_def SECOND_def split: if_splits option.splits)

lemma keeper_sends_paced:
  assumes "keeper_ok k" "keeper_sends es k = (ts, k')"
  shows "keeper_ok k' \<and> sorted_wrt (\<lambda>a b. a + 5 * SECOND < b) ts
    \<and> (\<forall>t \<in> set ts. case kp_sent k of None \<Rightarrow> True | Some t0 \<Rightarrow> t0 + 5 * SECOND < t)"
  using assms
proof (induction es arbitrary: k ts)
  case (Cons e es)
  show ?case
  proof (cases e)
    case (KeeperHeard d)
    then show ?thesis
      using Cons.IH [of "snd (keeper_heard d k)" ts] keeper_heard_rest [OF Cons.prems(1), of d] Cons.prems(2)
      by (auto simp: Let_def split: prod.splits)
  next
    case (KeeperDue tx now)
    obtain sent k1 where due: "keeper_due tx now k = (sent, k1)"
      by fastforce
    obtain ts1 where rest: "keeper_sends es k1 = (ts1, k')" and ts: "ts = (if sent = None then [] else [now]) @ ts1"
      using Cons.prems(2) by (auto simp: KeeperDue due Let_def split: prod.splits)
    note one = keeper_due_rest [OF Cons.prems(1) due]
    have ih: "keeper_ok k' \<and> sorted_wrt (\<lambda>a b. a + 5 * SECOND < b) ts1
        \<and> (\<forall>t \<in> set ts1. case kp_sent k1 of None \<Rightarrow> True | Some t0 \<Rightarrow> t0 + 5 * SECOND < t)"
      by (rule Cons.IH [OF one(1) rest])
    show ?thesis
    proof (cases sent)
      case None
      then show ?thesis
        using ih one(2) by (simp add: ts)
    next
      case (Some m)
      then show ?thesis
        using ih one(3) [OF Some] by (fastforce simp: ts split: option.splits)
    qed
  qed
qed simp

text \<open>
  C35. The keeper never asks STUN servers in quick succession: over any looks at the clock and any datagrams, two
  requests are more than five seconds apart, the keepalive stays between 20 and 180 seconds, and the next server is
  one of the list.
\<close>

theorem keeper_paces:
  "sorted_wrt (\<lambda>a b. a + 5 * SECOND < b) (fst (keeper_sends es (keeper_new servers)))
     \<and> keeper_ok (snd (keeper_sends es (keeper_new servers)))"
proof -
  have "keeper_ok (keeper_new servers)"
    by (simp add: keeper_ok_def keeper_new_def STUN_KEEPALIVE_MIN_def STUN_KEEPALIVE_START_def)
  then show ?thesis
    using keeper_sends_paced [of "keeper_new servers" es] by (cases "keeper_sends es (keeper_new servers)") auto
qed

end
