(* ===== verification/Host_Remote.thy ===== *)
theory Host_Remote
  imports Rendezvous "HOL-Library.AList"
begin

text \<open>
  The host's rendezvous loop (\<open>host-core/src/remote.rs\<close>) and the peers' identities it keeps
  (\<open>transport/src/remote.rs\<close>): when the mapping is announced, when trusted clients are looked up, and which
  addresses are punched towards. What the directory answers and the times at which it does are arguments.
\<close>

section \<open>The peers' discovery identities\<close>

type_synonym remote_peers = "(bytes \<times> rstr) list"

definition peers_set :: "bytes \<Rightarrow> rstr \<Rightarrow> remote_peers \<Rightarrow> remote_peers" where
  "peers_set peer d ids =
     (if \<not> valid_device_id d then ids else if map_of ids peer = Some d then ids else AList.update peer d ids)"

definition peers_get :: "bytes \<Rightarrow> remote_peers \<Rightarrow> rstr option" where
  "peers_get peer ids = map_of ids peer"

lemma peers_set_get:
  "peers_get p (peers_set peer d ids) = (if p = peer \<and> valid_device_id d then Some d else peers_get p ids)"
  by (auto simp: peers_get_def peers_set_def update_conv')

section \<open>One turn of the loop\<close>

definition SETTLE :: nat where "SETTLE = 5 * SECOND"
definition PUNCH_FOR :: nat where "PUNCH_FOR = FOUND_CACHE"

record remote_state =
  rm_announced :: "socket_addr option"
  rm_candidate :: "(socket_addr \<times> nat) option"
  rm_announce_after :: nat
  rm_retry_after :: nat
  rm_lookup_after :: "(rstr \<times> nat) list"
  rm_punch :: "(socket_addr \<times> nat) list"
  rm_found :: "(bytes \<times> socket_addr list) list"

definition remote_new :: "nat \<Rightarrow> remote_state" where
  "remote_new now = \<lparr>rm_announced = None, rm_candidate = None, rm_announce_after = now, rm_retry_after = now,
     rm_lookup_after = [], rm_punch = [], rm_found = []\<rparr>"

text \<open>
  The outside of one turn: the time it starts, the mapping, when the announcement and each lookup are answered and
  what with, the clients trusted now with what was kept of them, and the reading of an address.
\<close>

record turn_env =
  te_now :: nat
  te_mapped :: "socket_addr option"
  te_announce :: "socket_addr \<Rightarrow> answer"
  te_announced_at :: nat
  te_trusted :: "bytes list"
  te_peers :: remote_peers
  te_lookup :: "rstr \<Rightarrow> answer"
  te_looked_at :: "rstr \<Rightarrow> nat"
  te_endpoints :: "rstr list \<Rightarrow> socket_addr list"
  te_end :: nat

definition announce_turn :: "turn_env \<Rightarrow> remote_state \<Rightarrow> answer option \<times> remote_state" where
  "announce_turn e s =
     (case te_mapped e of
        None \<Rightarrow> (None, s)
      | Some m \<Rightarrow>
          (let (due, s) =
             (if rm_announced s = Some m then (rm_announce_after s \<le> te_now e, s)
              else
                (let s = (case rm_candidate s of
                      None \<Rightarrow> s\<lparr>rm_candidate := Some (m, te_now e)\<rparr>
                    | Some (a, _) \<Rightarrow> if a = m then s else s\<lparr>rm_candidate := Some (m, te_now e)\<rparr>)
                 in ((case rm_candidate s of None \<Rightarrow> False | Some (_, since) \<Rightarrow> SETTLE \<le> te_now e - since) \<and> rm_retry_after s \<le> te_now e, s)))
           in if \<not> due then (None, s)
              else
                (let a = te_announce e m
                 in (Some a,
                     case a of
                       Announced after \<Rightarrow> s\<lparr>rm_announced := Some m, rm_announce_after := te_announced_at e + after\<rparr>
                     | WaitFor after \<Rightarrow> s\<lparr>rm_retry_after := te_announced_at e + after, rm_announce_after := te_announced_at e + after\<rparr>
                     | FoundAt _ \<Rightarrow> s))))"

text \<open>A client is looked up when it is trusted and its identity is due; the result is whether it was asked for.\<close>

definition lookup_turn :: "turn_env \<Rightarrow> bytes \<times> rstr \<Rightarrow> remote_state \<Rightarrow> bool \<times> remote_state" where
  "lookup_turn e = (\<lambda>(peer, d) s.
     (if \<not> List.member (te_trusted e) peer then (False, s)
      else if (case map_of (rm_lookup_after s) d of None \<Rightarrow> False | Some t \<Rightarrow> te_now e < t) then (False, s)
      else
        (True,
         case te_lookup e d of
           FoundAt addresses \<Rightarrow>
             (let ends = te_endpoints e addresses
              in s\<lparr>rm_punch := fold (\<lambda>a. AList.update a (te_looked_at e d + PUNCH_FOR)) ends (rm_punch s),
                   rm_found := AList.update peer ends (rm_found s),
                   rm_lookup_after := AList.update d (te_looked_at e d + FOUND_CACHE) (rm_lookup_after s)\<rparr>)
         | WaitFor after \<Rightarrow> s\<lparr>rm_lookup_after := AList.update d (te_looked_at e d + max after NOT_FOUND_CACHE) (rm_lookup_after s)\<rparr>
         | Announced after \<Rightarrow> s\<lparr>rm_lookup_after := AList.update d (te_looked_at e d + max after NOT_FOUND_CACHE) (rm_lookup_after s)\<rparr>)))"

fun lookups :: "turn_env \<Rightarrow> remote_peers \<Rightarrow> remote_state \<Rightarrow> rstr list \<times> remote_state" where
  "lookups e [] s = ([], s)"
| "lookups e (p # ps) s =
     (let (asked, s) = lookup_turn e p s; (rest, s) = lookups e ps s in ((if asked then [snd p] else []) @ rest, s))"

text \<open>What a turn does outside: the announcement, the lookups, and the addresses punched towards.\<close>

definition remote_turn :: "turn_env \<Rightarrow> remote_state \<Rightarrow> (answer option \<times> rstr list \<times> socket_addr list) \<times> remote_state" where
  "remote_turn e s =
     (let (a, s) = announce_turn e s;
          (asked, s) = lookups e (te_peers e) s;
          s = s\<lparr>rm_punch := filter (\<lambda>(_, until). te_end e < until) (rm_punch s)\<rparr>
      in ((a, asked, map fst (rm_punch s)), s))"

fun remote_run :: "turn_env list \<Rightarrow> remote_state \<Rightarrow> (turn_env \<times> answer option \<times> rstr list \<times> socket_addr list) list \<times> remote_state" where
  "remote_run [] s = ([], s)"
| "remote_run (e # es) s =
     (let (out, s) = remote_turn e s; (rest, s) = remote_run es s in ((e, out) # rest, s))"

section \<open>Waiting as told\<close>

text \<open>Time passes: a turn ends after it started, and the next starts after that.\<close>

fun turns_in_order :: "nat \<Rightarrow> turn_env list \<Rightarrow> bool" where
  "turns_in_order t [] = True"
| "turns_in_order t (e # es) = (t \<le> te_now e \<and> te_now e \<le> te_announced_at e \<and> list_all (\<lambda>(_, d). te_announced_at e \<le> te_looked_at e d) (te_peers e)
     \<and> list_all (\<lambda>(_, d). te_looked_at e d \<le> te_end e) (te_peers e) \<and> te_announced_at e \<le> te_end e \<and> turns_in_order (te_end e) es)"

lemma lookup_turn_rest:
  "rm_announced (snd (lookup_turn e p s)) = rm_announced s" "rm_announce_after (snd (lookup_turn e p s)) = rm_announce_after s"
  "rm_retry_after (snd (lookup_turn e p s)) = rm_retry_after s" "rm_candidate (snd (lookup_turn e p s)) = rm_candidate s"
  by (auto simp: lookup_turn_def Let_def split: prod.split answer.split)

lemma lookups_rest:
  "rm_announced (snd (lookups e ps s)) = rm_announced s" "rm_announce_after (snd (lookups e ps s)) = rm_announce_after s"
  "rm_retry_after (snd (lookups e ps s)) = rm_retry_after s" "rm_candidate (snd (lookups e ps s)) = rm_candidate s"
proof (induction ps arbitrary: s)
  case (Cons p ps)
  {
    case 1 show ?case using Cons(1) [of "snd (lookup_turn e p s)"] by (simp add: Let_def split_beta lookup_turn_rest)
  next
    case 2 show ?case using Cons(2) [of "snd (lookup_turn e p s)"] by (simp add: Let_def split_beta lookup_turn_rest)
  next
    case 3 show ?case using Cons(3) [of "snd (lookup_turn e p s)"] by (simp add: Let_def split_beta lookup_turn_rest)
  next
    case 4 show ?case using Cons(4) [of "snd (lookup_turn e p s)"] by (simp add: Let_def split_beta lookup_turn_rest)
  }
qed simp_all

lemma remote_turn_parts:
  "fst (fst (remote_turn e s)) = fst (announce_turn e s)"
  "rm_retry_after (snd (remote_turn e s)) = rm_retry_after (snd (announce_turn e s))"
  "rm_announce_after (snd (remote_turn e s)) = rm_announce_after (snd (announce_turn e s))"
  "rm_announced (snd (remote_turn e s)) = rm_announced (snd (announce_turn e s))"
  "rm_candidate (snd (remote_turn e s)) = rm_candidate (snd (announce_turn e s))"
  by (simp_all add: remote_turn_def Let_def split_beta lookups_rest)

text \<open>Until \<open>d\<close> the loop does not announce.\<close>

definition holds_until :: "nat \<Rightarrow> remote_state \<Rightarrow> bool" where
  "holds_until d s = (d \<le> rm_retry_after s \<and> d \<le> rm_announce_after s)"

lemma announce_turn_holds:
  assumes "holds_until d s" "te_now e \<le> te_announced_at e"
  shows "holds_until d (snd (announce_turn e s))" "fst (announce_turn e s) \<noteq> None \<Longrightarrow> d \<le> te_now e"
    "fst (announce_turn e s) = Some (WaitFor w) \<Longrightarrow> holds_until (te_announced_at e + w) (snd (announce_turn e s))"
  using assms by (auto simp: announce_turn_def holds_until_def Let_def split: option.splits if_splits answer.splits prod.splits)

lemma remote_run_holds:
  assumes "holds_until d s" "turns_in_order t es" "(e, out) \<in> set (fst (remote_run es s))" "fst out \<noteq> None"
  shows "d \<le> te_now e"
  using assms
proof (induction es arbitrary: s t)
  case (Cons x es)
  obtain o1 s1 where one: "remote_turn x s = (o1, s1)"
    by fastforce
  have "holds_until d s1"
    using announce_turn_holds(1) [OF Cons.prems(1), of x] Cons.prems(2) remote_turn_parts [of x s]
    by (simp add: one holds_until_def)
  moreover have "d \<le> te_now e" if "(e, out) = (x, o1)"
    using that announce_turn_holds(2) [OF Cons.prems(1), of x] Cons.prems(2,4) remote_turn_parts(1) [of x s] by (auto simp: one)
  ultimately show ?case
    using Cons.IH [of s1 "te_end x"] Cons.prems by (auto simp: one Let_def split: prod.splits)
qed simp

lemma remote_run_waits:
  assumes "turns_in_order t es" "i < j" "j < length es"
    "fst (snd (fst (remote_run es s) ! i)) = Some (WaitFor w)" "fst (snd (fst (remote_run es s) ! j)) \<noteq> None"
  shows "te_announced_at (es ! i) + w \<le> te_now (es ! j)"
  using assms
proof (induction es arbitrary: s t i j)
  case (Cons x es)
  obtain o1 s1 where one: "remote_turn x s = (o1, s1)"
    by fastforce
  have run: "fst (remote_run (x # es) s) = (x, o1) # fst (remote_run es s1)"
    by (simp add: one Let_def split_beta)
  have len: "length (fst (remote_run es s)) = length es \<and> map fst (fst (remote_run es s)) = es" for s
    by (induction es arbitrary: s) (simp_all add: Let_def split_beta)
  obtain k where j: "j = Suc k" "k < length es"
    using Cons.prems(2,3) by (cases j) auto
  have kth: "fst (fst (remote_run es s1) ! k) = es ! k" "fst (remote_run es s1) ! k \<in> set (fst (remote_run es s1))"
    using len [of s1] j(2) by (metis nth_map, metis nth_mem)
  show ?case
  proof (cases i)
    case 0
    then have "fst o1 = Some (WaitFor w)"
      using Cons.prems(4) by (simp add: run del: remote_run.simps)
    then have "holds_until (te_announced_at x + w) s1"
      using announce_turn_holds(3) [of 0 s x w] Cons.prems(1) remote_turn_parts [of x s] by (simp add: one holds_until_def)
    moreover have "turns_in_order (te_end x) es"
      using Cons.prems(1) by simp
    moreover have "fst (snd (fst (remote_run es s1) ! k)) \<noteq> None"
      using Cons.prems(5) by (simp add: run j del: remote_run.simps)
    ultimately have "te_announced_at x + w \<le> te_now (es ! k)"
      using remote_run_holds [of _ s1 "te_end x" es "es ! k" "snd (fst (remote_run es s1) ! k)"] kth by (metis prod.collapse)
    then show ?thesis
      by (simp add: 0 j)
  next
    case (Suc n)
    then show ?thesis
      using Cons.IH [of "te_end x" n k s1] Cons.prems j by (simp add: run del: remote_run.simps)
  qed
qed simp

text \<open>
  The host waits as long as the discovery servers tell it to: after an announcement answered with a wait, no
  announcement of this or any other mapping starts before that wait is over.
\<close>

theorem announcements_wait_as_told:
  assumes "turns_in_order t es" "i < j" "j < length es"
    "fst (snd (fst (remote_run es (remote_new t)) ! i)) = Some (WaitFor w)" "fst (snd (fst (remote_run es (remote_new t)) ! j)) \<noteq> None"
  shows "te_announced_at (es ! i) + w \<le> te_now (es ! j)"
  using assms by (rule remote_run_waits)

text \<open>
  A mapping that came back is announced at once: the time a candidate was first seen is kept while the announced
  mapping is back in between, so a change back to it does not wait to settle.
\<close>

lemma flapping_mapping_skips_settling:
  assumes "rm_announced s = Some a" "rm_candidate s = Some (m, t0)" "a \<noteq> m"
    "te_mapped e1 = Some a" "te_now e1 < rm_announce_after s"
    "te_mapped e2 = Some m" "t0 + SETTLE \<le> te_now e2" "rm_retry_after s \<le> te_now e2"
  shows "fst (fst (remote_turn e2 (snd (remote_turn e1 s)))) = Some (te_announce e2 m)"
proof -
  have one: "snd (announce_turn e1 s) = s"
    using assms(1,4,5) by (simp add: announce_turn_def)
  define s1 where "s1 = snd (remote_turn e1 s)"
  have "rm_announced s1 = Some a" "rm_candidate s1 = Some (m, t0)" "rm_retry_after s1 = rm_retry_after s"
    using assms(1,2) by (simp_all add: s1_def remote_turn_parts one)
  then have "fst (announce_turn e2 s1) = Some (te_announce e2 m)"
    using assms(3,6-8) by (simp add: announce_turn_def Let_def)
  then show ?thesis
    by (simp add: remote_turn_parts s1_def)
qed

definition sample_turn :: "nat \<Rightarrow> answer \<Rightarrow> turn_env" where
  "sample_turn now a = \<lparr>te_now = now, te_mapped = Some ([1, 2, 3, 4], 5), te_announce = (\<lambda>_. a), te_announced_at = now, te_trusted = [],
     te_peers = [], te_lookup = (\<lambda>_. WaitFor 0), te_looked_at = (\<lambda>_. now), te_endpoints = (\<lambda>_. []), te_end = now\<rparr>"

lemma announcements_wait_as_told_witness:
  "\<exists>es. te_announced_at (es ! 1) + 7 * SECOND \<le> te_now (es ! 2) \<and> fst (snd (fst (remote_run es (remote_new 0)) ! 2)) = Some (Announced 9)"
proof -
  let ?es = "[sample_turn 0 (WaitFor 0), sample_turn (5 * SECOND) (WaitFor (7 * SECOND)), sample_turn (13 * SECOND) (Announced 9)]"
  have run: "map (\<lambda>r. fst (snd r)) (fst (remote_run ?es (remote_new 0))) = [None, Some (WaitFor (7 * SECOND)), Some (Announced 9)]"
    by (simp add: remote_turn_def announce_turn_def sample_turn_def remote_new_def SETTLE_def SECOND_def)
  have len: "length (fst (remote_run ?es (remote_new 0))) = 3"
    using arg_cong [OF run, of length] by simp
  have second: "fst (snd (fst (remote_run ?es (remote_new 0)) ! 1)) = Some (WaitFor (7 * SECOND))"
    and third: "fst (snd (fst (remote_run ?es (remote_new 0)) ! 2)) = Some (Announced 9)"
    using arg_cong [OF run, of "\<lambda>xs. xs ! 1"] arg_cong [OF run, of "\<lambda>xs. xs ! 2"] len by (simp_all add: nth_map del: remote_run.simps)
  have "te_announced_at (?es ! 1) + 7 * SECOND \<le> te_now (?es ! 2)"
  proof (rule announcements_wait_as_told)
    show "turns_in_order 0 ?es"
      by (simp add: sample_turn_def SECOND_def)
  qed (use second third in simp_all)
  then show ?thesis
    using third by blast
qed

section \<open>Lookups\<close>

text \<open>An identity that was looked up is not asked for again within a minute of the answer.\<close>

lemma lookup_turn_waits:
  "fst (lookup_turn e (p, d) s) \<Longrightarrow> \<exists>t. map_of (rm_lookup_after (snd (lookup_turn e (p, d) s))) d = Some t \<and> te_looked_at e d + NOT_FOUND_CACHE \<le> t"
  by (auto simp: lookup_turn_def update_conv' Let_def FOUND_CACHE_def NOT_FOUND_CACHE_def split: if_splits answer.splits)

text \<open>The addresses punched towards were found for a trusted client less than five minutes before.\<close>

lemma lookups_ask_trusted: "d \<in> set (fst (lookups e ps s)) \<Longrightarrow> \<exists>p. (p, d) \<in> set ps \<and> p \<in> set (te_trusted e)"
proof (induction ps arbitrary: s)
  case (Cons x ps)
  obtain asked s1 where one: "lookup_turn e x s = (asked, s1)"
    by fastforce
  have "asked \<Longrightarrow> fst x \<in> set (te_trusted e)"
    using one by (cases x) (auto simp: lookup_turn_def split: if_splits)
  moreover have "asked \<and> d = snd x \<or> d \<in> set (fst (lookups e ps s1))"
    using Cons.prems by (auto simp: one Let_def split_beta split: if_splits)
  ultimately show ?case
    using Cons.IH [of s1] by (cases x) auto
qed simp

end
