(* ===== verification/Client_Messages.thy ===== *)
theory Client_Messages
  imports Client_Session
begin

text \<open>
  What the client does with each message of the host (\<open>pump_events\<close> and the functions it calls in
  \<open>client-core/src/lib.rs\<close>), the end of a log-in over RDP, the smaller requests of the app, and the steps of a
  session: one of these, a call of the app, a timer, or time going by.
\<close>

section \<open>Answers to a start\<close>

definition with_slot :: "window_id \<Rightarrow> stream_backend \<Rightarrow> client \<Rightarrow> client" where
  "with_slot w backend c =
     (if session_codec backend \<noteq> None then c\<lparr>cn_frames := slot_for w (cn_frames c)\<rparr> else c)"

definition reason_text :: "rstr option \<Rightarrow> rstr" where
  "reason_text r = (case r of None \<Rightarrow> [] | Some s \<Rightarrow> s)"

definition stream_start_event ::
    "window_id \<Rightarrow> u32 \<Rightarrow> bool \<Rightarrow> stream_backend \<Rightarrow> rstr option \<Rightarrow> client \<Rightarrow> session_event \<times> client" where
  "stream_start_event w generation accepted backend reason c =
     (let switching = is_switching w generation c
      in if switching \<and> \<not> accepted then
           (CarrierRefusedEvent w generation (reason_text reason), snd (end_switch False w c))
         else if switching then
           (CarrierStartedEvent w generation (backend_kind_of backend) (session_codec backend), with_slot w backend c)
         else if accepted then
           (StreamStartedEvent w (backend_kind_of backend) (session_codec backend),
            carrier_started w generation (backend_kind_of backend) (with_slot w backend c))
         else (StreamRefusedEvent w (reason_text reason), c))"

section \<open>A log-in over RDP\<close>

text \<open>\<open>connect_rdp\<close> starts the log-in; the picture is as large as the window in the last list.\<close>

definition connect_rdp :: "window_id \<Rightarrow> u32 \<Rightarrow> handoff_target \<Rightarrow> client \<Rightarrow> client" where
  "connect_rdp w generation target c =
     (let size = (case listed w c of None \<Rightarrow> (1280, 720) | Some i \<Rightarrow> (ucast (wi_width i), ucast (wi_height i)))
      in c\<lparr>cn_logging_in := cn_logging_in c @ [((w, generation), target, size)]\<rparr>)"

definition rdp_address :: "client_env \<Rightarrow> handoff_target \<Rightarrow> client \<Rightarrow> rstr option" where
  "rdp_address env target c =
     (case ce_parse_ip env (ht_address target) of
        Some ip \<Rightarrow> Some ip
      | None \<Rightarrow> if ht_address target = [] then cn_host_ip c else None)"

text \<open>The \<open>k\<close>-th log-in ends; \<open>answer\<close> is the library's: connected, or why not.\<close>

definition rdp_ends :: "client_env \<Rightarrow> nat \<Rightarrow> rstr + unit \<Rightarrow> client \<Rightarrow> client" where
  "rdp_ends env k answer c =
     (let ((w, generation), target, _) = cn_logging_in c ! k;
          c = c\<lparr>cn_logging_in := take k (cn_logging_in c) @ drop (Suc k) (cn_logging_in c)\<rparr>;
          result = (case rdp_address env target c of
                      Some _ \<Rightarrow> answer
                    | None \<Rightarrow> Inl (lit ''the host's RDP address is not reachable from here''));
          switching = is_switching w generation c
      in case result of
           Inr _ \<Rightarrow>
             let c = c\<lparr>cn_rdp := insert w (cn_rdp c)\<rparr>
             in if switching then emit_event (CarrierStartedEvent w generation Rdp None) c
                else emit_event (StreamStartedEvent w Rdp None) (carrier_started w generation Rdp c)
         | Inl reason \<Rightarrow>
             if switching then abandon_switch w generation (lit ''RDP: '' @ reason) False c
             else emit_event (StreamRefusedEvent w (lit ''RDP: '' @ reason)) (snd (send_message (StreamStopRequest (WindowTarget w)) c)))"

section \<open>Events made of messages\<close>

definition host_state_event :: "host_state \<Rightarrow> session_event" where
  "host_state_event st =
     (case st_private st of
        PrivateOff \<Rightarrow> HostStateEvent (st_locked st) (lit ''off'') None
      | PrivateUnavailable reason \<Rightarrow> HostStateEvent (st_locked st) (lit ''unavailable'') (Some reason)
      | PrivateAvailable \<Rightarrow> HostStateEvent (st_locked st) (lit ''available'') None
      | PrivateActive \<Rightarrow> HostStateEvent (st_locked st) (lit ''active'') None)"

text \<open>\<open>CompatEndpoint::describe\<close>.\<close>

fun describe_endpoint :: "rstr \<Rightarrow> compat_endpoint \<Rightarrow> rstr" where
  "describe_endpoint host (RdpEndpoint t) =
     lit ''RDP (Remote Desktop Connection, FreeRDP): '' @ (if ht_address t = [] then host else ht_address t)
       @ lit '':'' @ decimal (unat (ht_port t)) @ lit '', user '' @ ht_username t @ lit '', password '' @ ht_password t"
| "describe_endpoint host (GameStreamEndpoint _ _ title) =
     lit ''Moonlight: add '' @ host @ lit '', pair it (type the PIN Moonlight shows on the host), then start '' @ [34]
       @ title @ [34]"
| "describe_endpoint host (VncEndpoint port password) =
     lit ''VNC: '' @ host @ lit '':'' @ decimal (unat port) @ lit '' (display :'' @ decimal (unat port - 5900)
       @ lit ''), password '' @ password"

fun filled_in :: "rstr \<Rightarrow> compat_endpoint \<Rightarrow> compat_endpoint" where
  "filled_in host (RdpEndpoint t) = RdpEndpoint (if ht_address t = [] then t\<lparr>ht_address := host\<rparr> else t)"
| "filled_in host e = e"

definition compatibility_event :: "window_id \<Rightarrow> compat_endpoint list \<Rightarrow> rstr option \<Rightarrow> client \<Rightarrow> session_event" where
  "compatibility_event w endpoints refused c =
     (let host = (case cn_host_ip c of None \<Rightarrow> [] | Some ip \<Rightarrow> ip); endpoints = map (filled_in host) endpoints
      in CompatibilityEvent w endpoints (map (describe_endpoint host) endpoints) refused)"

definition cursor_event :: "window_id \<Rightarrow> cursor \<Rightarrow> client \<Rightarrow> session_event \<times> client" where
  "cursor_event w cu c =
     (CursorEvent w (cu_x cu) (cu_y cu) (cu_visible cu) (cu_shape cu),
      c\<lparr>cn_cursors := (\<lambda>v. if v = w then Some cu else map_option (\<lambda>l. l\<lparr>cu_visible := False\<rparr>) (cn_cursors c v))\<rparr>)"

section \<open>The loop over the host's messages\<close>

text \<open>One message: the event it becomes, if any, with the session after it.\<close>

fun handle_control :: "control_message \<Rightarrow> client \<Rightarrow> session_event option \<times> client" where
  "handle_control (CommandControl m) c = (None, c\<lparr>cn_channels := routes_handle m (cn_channels c)\<rparr>)"
| "handle_control (ListWindowsResponse ws) c = (Some (WindowsEvent ws), c\<lparr>cn_windows := ws\<rparr>)"
| "handle_control (StreamStartResponse (WindowTarget w) generation accepted backend reason handoff _) c =
     (case handoff of
        Some target \<Rightarrow>
          if accepted \<and> backend = RdpStream then (None, connect_rdp w generation target c)
          else (let (e, c) = stream_start_event w generation accepted backend reason c in (Some e, c))
      | None \<Rightarrow> (let (e, c) = stream_start_event w generation accepted backend reason c in (Some e, c)))"
| "handle_control (TrackEnded w) c = (None, c\<lparr>cn_frames := end_queue w (cn_frames c)\<rparr>)"
| "handle_control (StreamStopped (WindowTarget w)) c =
     (Some (StreamStoppedEvent w),
      c\<lparr>cn_frames := end_queue w (cn_frames c), cn_rdp := cn_rdp c - {w}, cn_carriers := (cn_carriers c)(w := None),
        cn_cursors := (cn_cursors c)(w := None)\<rparr>)"
| "handle_control (WindowResized w width height) c = (Some (WindowResizedEvent w width height), c)"
| "handle_control (WindowFocused w) c = (Some (WindowFocusedEvent w), c)"
| "handle_control (HostState st) c = (Some (host_state_event st), c)"
| "handle_control (PrivateSessionRefused reason password_needed) c = (Some (PrivateRefusedEvent reason password_needed), c)"
| "handle_control (CompatibilityAnswer w endpoints refused) c = (Some (compatibility_event w endpoints refused c), c)"
| "handle_control (CursorShape shape) c = (None, c\<lparr>cn_shapes := (cn_shapes c)(ci_id shape \<mapsto> shape)\<rparr>)"
| "handle_control (CursorAt w x y visible shape) c =
     (let (e, c) = cursor_event w \<lparr>cu_x = x, cu_y = y, cu_visible = visible, cu_shape = shape\<rparr> c in (Some e, c))"
| "handle_control (Clipboard text) c = (Some (ClipboardEvent text), c)"
| "handle_control (SshCertificateResponse answer) c =
     (Some (case answer of
              Inr certificate \<Rightarrow> SshCertificateEvent (Some certificate) None
            | Inl err \<Rightarrow> SshCertificateEvent None (Some err)), c)"
| "handle_control Pong c =
     (None, case fst (cn_ping c) of None \<Rightarrow> c | Some sent \<Rightarrow> c\<lparr>cn_ping := (None, Some (cn_now c - sent))\<rparr>)"
| "handle_control (RendezvousId d) c = (None, c\<lparr>cn_hosts := peers_set (cn_host c) d (cn_hosts c)\<rparr>)"
| "handle_control Ping c =
     (let (answer, c) = send_message Pong c
      in case answer of Inr _ \<Rightarrow> (None, c) | Inl _ \<Rightarrow> (Some SessionClosedEvent, c\<lparr>cn_pumping := False\<rparr>))"
| "handle_control (StreamQuality w q) c = (Some (StreamQualityEvent w q), c)"
| "handle_control _ c = (None, c)"

definition pump_message :: "control_message \<Rightarrow> client \<Rightarrow> client" where
  "pump_message m c =
     (if \<not> cn_pumping c then c
      else (case handle_control m c of (None, c) \<Rightarrow> c | (Some e, c) \<Rightarrow> emit_event e c))"

text \<open>Nothing more comes: the channels close, and the app is told.\<close>

definition pump_ends :: "client \<Rightarrow> client" where
  "pump_ends c =
     (if \<not> cn_pumping c then c
      else emit_event SessionClosedEvent (c\<lparr>cn_channels := close_all (cn_channels c), cn_pumping := False\<rparr>))"

section \<open>The smaller calls of the app\<close>

definition set_stream_limits :: "window_id \<Rightarrow> stream_limits \<Rightarrow> client \<Rightarrow> (client_error + unit) \<times> client" where
  "set_stream_limits w l c = send_message (StreamLimits w l) (c\<lparr>cn_limits := (cn_limits c)(w \<mapsto> l)\<rparr>)"

definition ask_private :: "bool \<Rightarrow> rstr option \<Rightarrow> client \<Rightarrow> (client_error + unit) \<times> client" where
  "ask_private start password c =
     (let password = (case password of Some p \<Rightarrow> Some p | None \<Rightarrow> if start then cn_password c else None)
      in send_message (PrivateSessionRequest start password) c)"

definition ping_host :: "client \<Rightarrow> (client_error + unit) \<times> client" where
  "ping_host c = send_message Ping (c\<lparr>cn_ping := (Some (cn_now c), snd (cn_ping c))\<rparr>)"

datatype picture_poll = PolledPicture rgba_picture | PictureTimeout | PicturesEnded

text \<open>\<open>arrived\<close> is what the wait on the connection ends with.\<close>

definition next_picture :: "window_id \<Rightarrow> picture_poll \<Rightarrow> client \<Rightarrow> picture_poll \<times> client" where
  "next_picture w arrived c =
     (case cn_held_pictures c w of
        Some p \<Rightarrow> (PolledPicture p, c\<lparr>cn_held_pictures := (cn_held_pictures c)(w := None)\<rparr>)
      | None \<Rightarrow> if w \<in> cn_rdp c then (arrived, c) else (PicturesEnded, c))"

definition hold_picture :: "window_id \<Rightarrow> rgba_picture \<Rightarrow> client \<Rightarrow> client" where
  "hold_picture w p c = c\<lparr>cn_held_pictures := (cn_held_pictures c)(w \<mapsto> p)\<rparr>"

section \<open>Steps of a session\<close>

datatype client_step =
    TimePasses nat
  | HostSays control_message
  | HostGone
  | TimerFires window_id u32
  | LogInEnds nat "rstr + unit"
  | AppEvent "window_id \<Rightarrow> u64" "window_id list"
  | AppStart window_id "video_codec list"
  | AppStop window_id
  | AppSwitch window_id backend_kind "video_codec list"
  | AppShown window_id u32
  | AppLimits window_id stream_limits
  | AppRules "backend_rule list"
  | AppPictures bool
  | AppFollow bool
  | AppAuto bool
  | AppPing
  | AppPrivate bool "rstr option"
  | AppSends control_message
  | AppHolds window_id rgba_picture
  | AppPolls window_id picture_poll
  | AppPassword "rstr option"
  | FrameStep frame_event

text \<open>
  \<open>AppSends\<close> stands for the calls that only send: the window list, input, the clipboard, compatibility mode, SSH
  certificates. \<open>HostGone\<close> is the end of the connection, after which nothing can be sent. The windows the selector
  switched, with the time, are the step's result beside the session.
\<close>

fun client_does :: "client_env \<Rightarrow> client_step \<Rightarrow> client \<Rightarrow> (nat \<times> window_id) list \<times> client" where
  "client_does env (TimePasses d) c = ([], c\<lparr>cn_now := cn_now c + d\<rparr>)"
| "client_does env (HostSays m) c = ([], pump_message m c)"
| "client_does env HostGone c = ([], pump_ends (c\<lparr>cn_open := False\<rparr>))"
| "client_does env (TimerFires w g) c = ([], timer_fires w g c)"
| "client_does env (LogInEnds k answer) c = ([], if k < length (cn_logging_in c) then rdp_ends env k answer c else c)"
| "client_does env (AppEvent pictures order) c = snd (next_event env pictures order c)"
| "client_does env (AppStart w codecs) c = ([], snd (start_window env w codecs c))"
| "client_does env (AppStop w) c = ([], case stop_window w c of None \<Rightarrow> c | Some (_, c) \<Rightarrow> c)"
| "client_does env (AppSwitch w kind codecs) c = ([], snd (switch_window w kind codecs c))"
| "client_does env (AppShown w g) c = ([], snd (carrier_shown w g c))"
| "client_does env (AppLimits w l) c = ([], snd (set_stream_limits w l c))"
| "client_does env (AppRules rs) c = ([], c\<lparr>cn_rules := rs\<rparr>)"
| "client_does env (AppPictures b) c = ([], c\<lparr>cn_pictures := b\<rparr>)"
| "client_does env (AppFollow b) c = ([], c\<lparr>cn_follow := b\<rparr>)"
| "client_does env (AppAuto b) c = ([], c\<lparr>cn_auto := b\<rparr>)"
| "client_does env AppPing c = ([], snd (ping_host c))"
| "client_does env (AppPrivate start password) c = ([], snd (ask_private start password c))"
| "client_does env (AppSends m) c = ([], snd (send_message m c))"
| "client_does env (AppHolds w p) c = ([], hold_picture w p c)"
| "client_does env (AppPolls w arrived) c = ([], snd (next_picture w arrived c))"
| "client_does env (AppPassword p) c = ([], c\<lparr>cn_password := p\<rparr>)"
| "client_does env (FrameStep e) c = ([], c\<lparr>cn_frames := snd (frame_step e (cn_frames c))\<rparr>)"

definition client_run :: "client_env \<Rightarrow> client_step list \<Rightarrow> client \<Rightarrow> (nat \<times> window_id) list \<times> client" where
  "client_run env steps c =
     foldl (\<lambda>(l, c) s. (l @ fst (client_does env s c), snd (client_does env s c))) ([], c) steps"

lemma client_run_Nil [simp]: "client_run env [] c = ([], c)"
  by (simp add: client_run_def)

lemma client_run_snoc:
  "client_run env (steps @ [s]) c =
     (fst (client_run env steps c) @ fst (client_does env s (snd (client_run env steps c))),
      snd (client_does env s (snd (client_run env steps c))))"
  by (simp add: client_run_def split_beta)

end
