(* ===== verification/Client_Safety.thy ===== *)
theory Client_Safety
  imports Client_Messages
begin

text \<open>
  What holds in every session of the client: the carrier on screen changes only for a picture the app reported, a
  stream the host started or the end of the stream, and stopping a window stops those it owns.
\<close>

section \<open>What the parts leave alone\<close>

definition calm :: "client \<Rightarrow> client \<Rightarrow> bool" where
  "calm c c' =
     (cn_carriers c' = cn_carriers c \<and> cn_timers c' = cn_timers c \<and> cn_open c' = cn_open c \<and> cn_now c' = cn_now c
      \<and> cn_selection c' = cn_selection c \<and> cn_cursors c' = cn_cursors c \<and> cn_events c' = cn_events c)"

lemma quiet_refl: "calm c c"
  by (simp add: calm_def)

lemma quiet_trans: "calm a b \<Longrightarrow> calm b c \<Longrightarrow> calm a c"
  by (simp add: calm_def)

lemma send_message_quiet: "calm c (snd (send_message m c))"
  by (simp add: send_message_def calm_def)

lemma quiet_send: "calm a c \<Longrightarrow> calm a (snd (send_message m c))"
  by (rule quiet_trans [OF _ send_message_quiet])

lemma start_window_quiet: "calm c (snd (start_window env w codecs c))"
  by (auto simp: start_window_def Let_def next_generation_def split_beta intro!: quiet_send) (simp_all add: calm_def)

lemma fold_quiet: "(\<And>x c. x \<in> set xs \<Longrightarrow> calm c (f c x)) \<Longrightarrow> calm c (foldl f c xs)"
  by (induction xs arbitrary: c) (auto intro: quiet_refl quiet_trans)

lemma follow_windows_quiet: "calm c (follow_windows env ws c)"
proof -
  have forget: "calm c (c\<lparr>cn_shown := x\<rparr>)" for x by (simp add: calm_def)
  have "calm d (foldl (\<lambda>c (w, codecs). snd (start_window env w codecs c)) d xs)" for d xs
    by (rule fold_quiet) (simp add: split_beta start_window_quiet)
  then show ?thesis
    unfolding follow_windows_def Let_def by (auto intro: forget quiet_trans [OF forget])
qed

lemma stop_fuel_quiet: "stop_fuel n w c = Some (r, c') \<Longrightarrow> calm c c'"
proof (induction n arbitrary: w c r c')
  case (Suc n)
  let ?step = "\<lambda>oc p. case oc of None \<Rightarrow> None | Some c \<Rightarrow> map_option snd (stop_fuel n p c)"
  let ?c = "c\<lparr>cn_shown := AList.delete w (cn_shown c)\<rparr>"
  have all: "foldl ?step (Some d) ps = Some d' \<Longrightarrow> calm d d'" for ps d d'
  proof (induction ps arbitrary: d)
    case (Cons p ps)
    show ?case
    proof (cases "stop_fuel n p d")
      case None
      have "foldl ?step None ps = None" by (induction ps) auto
      with None Cons.prems show ?thesis by simp
    next
      case (Some rd)
      with Cons.prems Cons.IH [of "snd rd"] Suc.IH [of p d "fst rd" "snd rd"] show ?thesis
        by (auto intro: quiet_trans)
    qed
  qed (simp add: quiet_refl)
  obtain d where d: "foldl ?step (Some ?c) (owned_shown w ?c) = Some d"
    and c': "(r, c') = send_message (StreamStopRequest (WindowTarget w)) (d\<lparr>cn_rdp := cn_rdp d - {w}\<rparr>)"
    using Suc.prems by (auto simp: Let_def split: option.splits)
  have "calm c ?c" "calm d (d\<lparr>cn_rdp := cn_rdp d - {w}\<rparr>)"
    by (simp_all add: calm_def)
  moreover have "calm ?c d" by (rule all [OF d])
  moreover have "calm (d\<lparr>cn_rdp := cn_rdp d - {w}\<rparr>) c'"
    using send_message_quiet [of "d\<lparr>cn_rdp := cn_rdp d - {w}\<rparr>" "StreamStopRequest (WindowTarget w)"]
    by (simp add: c' [symmetric])
  ultimately show ?case by (blast intro: quiet_trans)
qed simp

text \<open>Calls that leave the carriers, the selector and the pointer alone.\<close>

lemma small_calls_quiet:
  "calm c (snd (set_stream_limits w l c))" "calm c (snd (ping_host c))" "calm c (snd (ask_private b p c))"
  "calm c (snd (next_picture w a c))" "calm c (hold_picture w q c)"
  by (auto simp: set_stream_limits_def ping_host_def ask_private_def Let_def next_picture_def hold_picture_def
      send_message_def calm_def split: option.split)

section \<open>The fuel of \<open>stop_window\<close>\<close>

definition stop_need :: "window_id \<Rightarrow> client \<Rightarrow> nat" where
  "stop_need w c = 2 * length (cn_shown c) + (if map_of (cn_shown c) w = None then 1 else 0)"

definition shown_ids :: "client \<Rightarrow> window_id set" where
  "shown_ids c = fst ` set (cn_shown c)"

text \<open>
  Going from \<open>c\<close> to \<open>c'\<close> stopped the windows of \<open>stopped\<close>, perhaps among others: those are no longer shown, no
  window still shown is owned by one that was stopped, and the host was told of each.
\<close>

definition stops :: "window_id set \<Rightarrow> client \<Rightarrow> client \<Rightarrow> bool" where
  "stops stopped c c' =
     ((\<exists>P. cn_shown c' = filter (\<lambda>x. P (fst x)) (cn_shown c))
      \<and> cn_windows c' = cn_windows c \<and> cn_open c' = cn_open c
      \<and> stopped \<inter> shown_ids c' = {}
      \<and> (\<exists>ms. cn_sent c' = cn_sent c @ ms
           \<and> (cn_open c \<longrightarrow> (\<forall>v \<in> stopped \<union> (shown_ids c - shown_ids c'). StreamStopRequest (WindowTarget v) \<in> set ms)))
      \<and> (\<forall>i \<in> set (cn_windows c). \<forall>v \<in> stopped \<union> (shown_ids c - shown_ids c'). wi_owner i = Some v \<longrightarrow> wi_id i \<notin> shown_ids c'))"

lemma shown_filter: "cn_shown c' = filter (\<lambda>x. P (fst x)) (cn_shown c) \<Longrightarrow> shown_ids c' \<subseteq> shown_ids c"
  by (auto simp: shown_ids_def)

lemma stops_refl: "stops {} c c"
  by (auto simp: stops_def intro!: exI [of _ "\<lambda>_. True"])

lemma stops_trans:
  assumes "stops X a b" "stops Y b c"
  shows "stops (X \<union> Y) a c"
proof -
  obtain P Q where P: "cn_shown b = filter (\<lambda>x. P (fst x)) (cn_shown a)"
    and Q: "cn_shown c = filter (\<lambda>x. Q (fst x)) (cn_shown b)"
    using assms by (auto simp: stops_def)
  obtain ms ns where ms: "cn_sent b = cn_sent a @ ms" "cn_sent c = cn_sent b @ ns"
    "cn_open a \<longrightarrow> (\<forall>v \<in> X \<union> (shown_ids a - shown_ids b). StreamStopRequest (WindowTarget v) \<in> set ms)"
    "cn_open b \<longrightarrow> (\<forall>v \<in> Y \<union> (shown_ids b - shown_ids c). StreamStopRequest (WindowTarget v) \<in> set ns)"
    using assms by (auto simp: stops_def)
  have sub: "shown_ids b \<subseteq> shown_ids a" "shown_ids c \<subseteq> shown_ids b"
    using shown_filter [of b P a] shown_filter [of c Q b] P Q by auto
  have either: "v \<in> X \<union> (shown_ids a - shown_ids b) \<or> v \<in> Y \<union> (shown_ids b - shown_ids c)"
    if "v \<in> X \<union> Y \<union> (shown_ids a - shown_ids c)" for v
    using that by blast
  have opens: "cn_open b = cn_open a" using assms(1) by (simp add: stops_def)
  have own: "\<forall>i \<in> set (cn_windows a). \<forall>v \<in> X \<union> (shown_ids a - shown_ids b). wi_owner i = Some v \<longrightarrow> wi_id i \<notin> shown_ids b"
    "\<forall>i \<in> set (cn_windows a). \<forall>v \<in> Y \<union> (shown_ids b - shown_ids c). wi_owner i = Some v \<longrightarrow> wi_id i \<notin> shown_ids c"
    using assms by (simp_all add: stops_def)
  show ?thesis
    unfolding stops_def
  proof (intro conjI)
    show "\<exists>P. cn_shown c = filter (\<lambda>x. P (fst x)) (cn_shown a)"
      using P Q by (intro exI [of _ "\<lambda>k. P k \<and> Q k"]) (auto intro: filter_cong)
    show "\<exists>ms. cn_sent c = cn_sent a @ ms \<and> (cn_open a \<longrightarrow>
        (\<forall>v \<in> X \<union> Y \<union> (shown_ids a - shown_ids c). StreamStopRequest (WindowTarget v) \<in> set ms))"
    proof (intro exI conjI impI ballI)
      show "cn_sent c = cn_sent a @ ms @ ns" using ms by simp
      fix v assume "cn_open a" "v \<in> X \<union> Y \<union> (shown_ids a - shown_ids c)"
      with either [of v] ms(3,4) opens show "StreamStopRequest (WindowTarget v) \<in> set (ms @ ns)" by auto
    qed
    show "\<forall>i \<in> set (cn_windows a). \<forall>v \<in> X \<union> Y \<union> (shown_ids a - shown_ids c). wi_owner i = Some v \<longrightarrow> wi_id i \<notin> shown_ids c"
    proof (intro ballI impI)
      fix i v assume "i \<in> set (cn_windows a)" "v \<in> X \<union> Y \<union> (shown_ids a - shown_ids c)" "wi_owner i = Some v"
      with either [of v] own have "wi_id i \<notin> shown_ids b \<or> wi_id i \<notin> shown_ids c" by blast
      with sub show "wi_id i \<notin> shown_ids c" by blast
    qed
  qed (use assms sub in \<open>auto simp: stops_def\<close>)
qed

lemma stop_need_child:
  assumes "cn_shown d = filter (\<lambda>x. P (fst x)) (cn_shown c)" "p \<in> shown_ids c"
  shows "stop_need p d \<le> 2 * length (cn_shown c)"
proof (cases "map_of (cn_shown d) p")
  case None
  obtain v where v: "(p, v) \<in> set (cn_shown c)"
    using assms(2) by (auto simp: shown_ids_def)
  have "\<not> P p"
    using None v assms(1) by (auto simp: map_of_eq_None_iff image_iff)
  with v have "length (cn_shown d) < length (cn_shown c)"
    unfolding assms(1) by (intro length_filter_less) auto
  with None show ?thesis by (simp add: stop_need_def)
qed (auto simp: stop_need_def assms(1))

lemma stop_fuel_stops: "stop_need w c < n \<Longrightarrow> \<exists>r c'. stop_fuel n w c = Some (r, c') \<and> stops {w} c c'"
proof (induction n arbitrary: w c)
  case (Suc n)
  let ?step = "\<lambda>oc p. case oc of None \<Rightarrow> None | Some c \<Rightarrow> map_option snd (stop_fuel n p c)"
  let ?c = "c\<lparr>cn_shown := AList.delete w (cn_shown c)\<rparr>"
  have del: "cn_shown ?c = filter (\<lambda>x. fst x \<noteq> w) (cn_shown c)"
    by (auto simp: AList.delete_eq intro: filter_cong)
  have room: "2 * length (cn_shown ?c) < n"
  proof (cases "map_of (cn_shown c) w")
    case None
    then show ?thesis using Suc.prems length_delete_le [of w "cn_shown c"] by (simp add: stop_need_def)
  next
    case (Some v)
    have "length (cn_shown ?c) < length (cn_shown c)"
      unfolding del using map_of_SomeD [OF Some] by (intro length_filter_less) auto
    with Some Suc.prems show ?thesis by (simp add: stop_need_def)
  qed
  have all: "set ps \<subseteq> shown_ids ?c \<Longrightarrow> \<exists>P. cn_shown d = filter (\<lambda>x. P (fst x)) (cn_shown ?c)
      \<Longrightarrow> \<exists>d'. foldl ?step (Some d) ps = Some d' \<and> stops (set ps) d d'" for ps d
  proof (induction ps arbitrary: d)
    case Nil
    then show ?case by (simp add: stops_refl)
  next
    case (Cons p ps)
    obtain P where P: "cn_shown d = filter (\<lambda>x. P (fst x)) (cn_shown ?c)" using Cons.prems(2) by blast
    have "stop_need p d < n"
      using stop_need_child [OF P, of p] Cons.prems(1) room by simp
    from Suc.IH [OF this] obtain r e where e: "stop_fuel n p d = Some (r, e)" "stops {p} d e" by blast
    obtain Q where "cn_shown e = filter (\<lambda>x. Q (fst x)) (cn_shown d)" using e(2) by (auto simp: stops_def)
    with P have "\<exists>P. cn_shown e = filter (\<lambda>x. P (fst x)) (cn_shown ?c)"
      by (intro exI [of _ "\<lambda>k. P k \<and> Q k"]) (auto intro: filter_cong)
    with Cons.IH [of e] Cons.prems(1) obtain d' where "foldl ?step (Some e) ps = Some d'" "stops (set ps) e d'"
      by auto
    with e stops_trans [OF e(2), of "set ps" d'] show ?case by auto
  qed
  have owned: "set (owned_shown w ?c) \<subseteq> shown_ids ?c"
    by (auto simp: owned_shown_def shown_ids_def dest: map_of_SomeD intro: rev_image_eqI)
  obtain d where d: "foldl ?step (Some ?c) (owned_shown w ?c) = Some d" "stops (set (owned_shown w ?c)) ?c d"
  proof -
    have "\<exists>P. cn_shown ?c = filter (\<lambda>x. P (fst x)) (cn_shown ?c)"
      by (rule exI [of _ "\<lambda>_. True"]) simp
    from all [OF owned this] show thesis using that by blast
  qed
  obtain r c' where c': "send_message (StreamStopRequest (WindowTarget w)) (d\<lparr>cn_rdp := cn_rdp d - {w}\<rparr>) = (r, c')"
    by fastforce
  have "stop_fuel (Suc n) w c = Some (r, c')"
    using d(1) c' by (simp add: Let_def)
  moreover have "stops {w} c c'"
  proof -
    obtain P where P: "cn_shown d = filter (\<lambda>x. P (fst x)) (cn_shown ?c)" using d(2) by (auto simp: stops_def)
    have c'_is: "cn_shown c' = cn_shown d" "cn_windows c' = cn_windows d" "cn_open c' = cn_open d"
      "cn_sent c' = cn_sent d @ (if cn_open d then [StreamStopRequest (WindowTarget w)] else [])"
      using c' by (auto simp: send_message_def split: if_splits)
    have ids: "shown_ids ?c = shown_ids c - {w}" "shown_ids c' = shown_ids d"
      by (auto simp: shown_ids_def del c'_is(1) image_iff)
    have w_gone: "w \<notin> shown_ids d"
      using shown_filter [OF P] ids by blast
    obtain ms where ms: "cn_sent d = cn_sent c @ ms"
      "cn_open c \<longrightarrow> (\<forall>v \<in> set (owned_shown w ?c) \<union> (shown_ids ?c - shown_ids d). StreamStopRequest (WindowTarget v) \<in> set ms)"
      using d(2) by (auto simp: stops_def)
    have own: "wi_id i \<notin> shown_ids d" if "i \<in> set (cn_windows c)" "wi_owner i = Some w" for i
    proof (cases "wi_id i \<in> shown_ids ?c")
      case True
      then have "wi_id i \<in> set (owned_shown w ?c)"
        using that by (auto simp: owned_shown_def shown_ids_def map_of_eq_None_iff)
      with d(2) show ?thesis by (auto simp: stops_def)
    next
      case False
      with shown_filter [OF P] show ?thesis by blast
    qed
    show ?thesis
      unfolding stops_def
    proof (intro conjI)
      show "\<exists>P. cn_shown c' = filter (\<lambda>x. P (fst x)) (cn_shown c)"
        using P del c'_is(1) by (intro exI [of _ "\<lambda>k. k \<noteq> w \<and> P k"]) (auto intro: filter_cong)
      show "\<exists>ms. cn_sent c' = cn_sent c @ ms \<and> (cn_open c \<longrightarrow>
          (\<forall>v \<in> {w} \<union> (shown_ids c - shown_ids c'). StreamStopRequest (WindowTarget v) \<in> set ms))"
        using ms d(2) c'_is ids
        by (intro exI [of _ "ms @ (if cn_open d then [StreamStopRequest (WindowTarget w)] else [])"]) (auto simp: stops_def)
      show "\<forall>i \<in> set (cn_windows c). \<forall>v \<in> {w} \<union> (shown_ids c - shown_ids c'). wi_owner i = Some v \<longrightarrow> wi_id i \<notin> shown_ids c'"
        using d(2) own ids by (auto simp: stops_def)
    qed (use d(2) c'_is ids w_gone in \<open>auto simp: stops_def\<close>)
  qed
  ultimately show ?case by blast
qed simp

text \<open>
  Stopping a window always returns, and takes with it every window it owns, directly or through others: none
  that is still shown is listed as owned by it or by another window that went, and the host was told of each.
\<close>

theorem stop_window_takes_the_owned:
  "\<exists>r c'. stop_window w c = Some (r, c') \<and> stops {w} c c'"
  unfolding stop_window_def by (rule stop_fuel_stops) (simp add: stop_need_def)

section \<open>The carrier on screen\<close>

text \<open>The pending carrier of a window, and the one on screen.\<close>

definition pending_of :: "window_id \<Rightarrow> client \<Rightarrow> carrier option" where
  "pending_of w c = ca_next (carriers_of w c)"

definition shown_of :: "window_id \<Rightarrow> client \<Rightarrow> carrier option" where
  "shown_of w c = ca_shown (carriers_of w c)"

lemma is_switching_pending: "is_switching w g c = (\<exists>n. pending_of w c = Some n \<and> cr_generation n = g)"
  by (auto simp: is_switching_def pending_of_def carriers_of_def no_carriers_def split: option.splits)

lemma carriers_simps [simp]:
  "carriers_of v (set_carriers w e c) = (if v = w then e else carriers_of v c)"
  "shown_of v (set_carriers w e c) = (if v = w then ca_shown e else shown_of v c)"
  "pending_of v (set_carriers w e c) = (if v = w then ca_next e else pending_of v c)"
  "shown_of v (emit_event x c) = shown_of v c" "pending_of v (emit_event x c) = pending_of v c"
  "shown_of v (snd (send_message m c)) = shown_of v c" "pending_of v (snd (send_message m c)) = pending_of v c"
  "shown_of v (c\<lparr>cn_timers := t\<rparr>) = shown_of v c" "pending_of v (c\<lparr>cn_timers := t\<rparr>) = pending_of v c"
  "shown_of v (c\<lparr>cn_rdp := r\<rparr>) = shown_of v c" "pending_of v (c\<lparr>cn_rdp := r\<rparr>) = pending_of v c"
  "shown_of v (c\<lparr>cn_selection := s\<rparr>) = shown_of v c" "pending_of v (c\<lparr>cn_selection := s\<rparr>) = pending_of v c"
  "shown_of v (c\<lparr>cn_logging_in := ls\<rparr>) = shown_of v c" "pending_of v (c\<lparr>cn_logging_in := ls\<rparr>) = pending_of v c"
  "shown_of v (c\<lparr>cn_frames := fs\<rparr>) = shown_of v c" "pending_of v (c\<lparr>cn_frames := fs\<rparr>) = pending_of v c"
  "shown_of v (c\<lparr>cn_generations := gs\<rparr>) = shown_of v c" "pending_of v (c\<lparr>cn_generations := gs\<rparr>) = pending_of v c"
  "shown_of v (c\<lparr>cn_cursors := us\<rparr>) = shown_of v c" "shown_of v (c\<lparr>cn_windows := ws\<rparr>) = shown_of v c"
  "shown_of v (c\<lparr>cn_channels := ch\<rparr>) = shown_of v c" "shown_of v (c\<lparr>cn_shapes := sh\<rparr>) = shown_of v c"
  "shown_of v (c\<lparr>cn_ping := pg\<rparr>) = shown_of v c" "shown_of v (c\<lparr>cn_hosts := hs\<rparr>) = shown_of v c"
  "shown_of v (c\<lparr>cn_pumping := pu\<rparr>) = shown_of v c" "shown_of v (c\<lparr>cn_open := op\<rparr>) = shown_of v c"
  "shown_of v (c\<lparr>cn_now := no\<rparr>) = shown_of v c" "shown_of v (c\<lparr>cn_looked := lo\<rparr>) = shown_of v c"
  "shown_of v (c\<lparr>cn_events := es\<rparr>) = shown_of v c" "shown_of v (c\<lparr>cn_shown := sn\<rparr>) = shown_of v c"
  "shown_of v (c\<lparr>cn_rules := rs\<rparr>) = shown_of v c" "shown_of v (c\<lparr>cn_pictures := b\<rparr>) = shown_of v c"
  "shown_of v (c\<lparr>cn_follow := b\<rparr>) = shown_of v c" "shown_of v (c\<lparr>cn_auto := b\<rparr>) = shown_of v c"
  "shown_of v (c\<lparr>cn_password := pw\<rparr>) = shown_of v c"
  "shown_of v (with_slot w sb c) = shown_of v c" "shown_of v (connect_rdp w g target c) = shown_of v c"
  "shown_of v (set_selection w sel c) = shown_of v c" "pending_of v (set_selection w sel c) = pending_of v c"
  by (simp_all add: carriers_of_def set_carriers_def shown_of_def pending_of_def emit_event_def send_message_def with_slot_def
      connect_rdp_def set_selection_def)

lemma quiet_shown: "calm c c' \<Longrightarrow> shown_of w c' = shown_of w c"
  by (simp add: calm_def shown_of_def carriers_of_def)

lemma end_switch_simps [simp]:
  "fst (end_switch b w c) = pending_of w c"
  "shown_of v (snd (end_switch b w c)) = shown_of v c"
  "pending_of v (snd (end_switch b w c)) = (if v = w then None else pending_of v c)"
  by (simp_all add: end_switch_def Let_def pending_of_def shown_of_def set_carriers_def carriers_of_def)

lemma carrier_started_simps [simp]:
  "shown_of v (carrier_started w g k c) = (if v = w then Some \<lparr>cr_generation = g, cr_backend = k\<rparr> else shown_of v c)"
  "pending_of v (carrier_started w g k c) = pending_of v c"
  by (auto simp: carrier_started_def pending_of_def shown_of_def)

lemma abandon_switch_simps [simp]: "shown_of v (abandon_switch w g r b c) = shown_of v c"
  by (auto simp: abandon_switch_def Let_def split_beta split: option.splits)

lemma ca_shown_of [simp]: "ca_shown (carriers_of w c) = shown_of w c" "ca_next (carriers_of w c) = pending_of w c"
  by (simp_all add: shown_of_def pending_of_def)

lemma start_switch_shown [simp]: "shown_of v (snd (start_switch w k cs c)) = shown_of v c"
  by (simp add: start_switch_def Let_def split_beta next_generation_def split: option.split sum.split)

lemma select_shown [simp]: "shown_of v (snd (select_one env pictures wc c)) = shown_of v c"
  by (simp add: select_one_def Let_def split_beta split: option.split sum.split)

lemma select_all_shown [simp]: "shown_of v (snd (select_all env pictures wcs c)) = shown_of v c"
  by (induction wcs arbitrary: c) (simp_all add: split_beta)

lemma selection_event_shown [simp]: "shown_of v (selection_event e c) = shown_of v c"
  by (cases e) (simp_all add: selection_event_def split: option.split)

lemma next_event_shown [simp]: "shown_of v (snd (snd (next_event env pictures order c))) = shown_of v c"
  by (simp add: next_event_def select_turn_def Let_def split_beta quiet_shown [OF follow_windows_quiet]
      split: list.split session_event.split)

text \<open>How the carrier on screen can change in one step.\<close>

definition takes_the_screen :: "window_id \<Rightarrow> client_step \<Rightarrow> client \<Rightarrow> client \<Rightarrow> bool" where
  "takes_the_screen w s c c' =
     ((\<exists>n. s = AppShown w (cr_generation n) \<and> pending_of w c = Some n \<and> shown_of w c' = Some n)
      \<or> s = HostSays (StreamStopped (WindowTarget w)) \<and> shown_of w c' = None
      \<or> (\<exists>g sb reason handoff rest. s = HostSays (StreamStartResponse (WindowTarget w) g True sb reason handoff rest)
           \<and> \<not> is_switching w g c \<and> shown_of w c' = Some \<lparr>cr_generation = g, cr_backend = backend_kind_of sb\<rparr>)
      \<or> (\<exists>k g target sz. s = LogInEnds k (Inr ()) \<and> k < length (cn_logging_in c) \<and> cn_logging_in c ! k = ((w, g), target, sz)
           \<and> \<not> is_switching w g c \<and> shown_of w c' = Some \<lparr>cr_generation = g, cr_backend = Rdp\<rparr>))"

lemma stream_start_shown [simp]:
  "shown_of v (snd (stream_start_event w g accepted sb r c)) =
     (if v = w \<and> accepted \<and> \<not> is_switching w g c then Some \<lparr>cr_generation = g, cr_backend = backend_kind_of sb\<rparr>
      else shown_of v c)"
  by (simp add: stream_start_event_def Let_def)

lemma stopped_shown: "shown_of v (c\<lparr>cn_carriers := (cn_carriers c)(w := None)\<rparr>) = (if v = w then None else shown_of v c)"
  by (simp add: shown_of_def carriers_of_def no_carriers_def)

lemma handle_control_shown:
  "shown_of w (snd (handle_control m c)) = shown_of w c
   \<or> m = StreamStopped (WindowTarget w) \<and> shown_of w (snd (handle_control m c)) = None
   \<or> (\<exists>g sb reason handoff rest. m = StreamStartResponse (WindowTarget w) g True sb reason handoff rest \<and> \<not> is_switching w g c
        \<and> shown_of w (snd (handle_control m c)) = Some \<lparr>cr_generation = g, cr_backend = backend_kind_of sb\<rparr>)"
proof (induction m c rule: handle_control.induct)
  case (5 v c)
  have "shown_of w (snd (handle_control (StreamStopped (WindowTarget v)) c)) = (if w = v then None else shown_of w c)"
    by (simp add: shown_of_def carriers_of_def no_carriers_def)
  then show ?case by simp
qed (auto simp: split_beta Let_def cursor_event_def split: option.split sum.split)

lemma pump_message_shown: "cn_pumping c \<Longrightarrow> shown_of w (pump_message m c) = shown_of w (snd (handle_control m c))"
  by (auto simp: pump_message_def split: prod.split option.split)

lemma host_says_shown:
  "shown_of w (pump_message m c) = shown_of w c \<or> takes_the_screen w (HostSays m) c (pump_message m c)"
proof (cases "cn_pumping c")
  case True
  with handle_control_shown [of w m c] show ?thesis by (auto simp: takes_the_screen_def pump_message_shown)
qed (simp add: pump_message_def)

lemma log_in_shown:
  assumes "k < length (cn_logging_in c)"
  shows "shown_of w (rdp_ends env k answer c) = shown_of w c \<or> takes_the_screen w (LogInEnds k answer) c (rdp_ends env k answer c)"
proof -
  obtain v g target sz where k: "cn_logging_in c ! k = ((v, g), target, sz)"
    by (cases "cn_logging_in c ! k") auto
  have "is_switching v g (c\<lparr>cn_logging_in := l\<rparr>) = is_switching v g c" for l
    by (simp add: is_switching_def)
  with k show ?thesis
    by (auto simp: rdp_ends_def Let_def takes_the_screen_def assms split: sum.split option.split)
qed

lemma app_shows_shown:
  "shown_of v (snd (carrier_shown w g c)) = shown_of v c
   \<or> v = w \<and> (\<exists>n. g = cr_generation n \<and> pending_of w c = Some n \<and> shown_of w (snd (carrier_shown w g c)) = Some n)"
  by (auto simp: carrier_shown_def Let_def split_beta is_switching_pending split: option.split)


text \<open>
  An acceptance that comes after the switch was given up is taken for a new start: the window is then counted as shown
  by the carrier the host was told to stop.
\<close>

lemma late_acceptance_takes_the_screen:
  assumes "cn_pumping c" "is_switching w g c" "(w, g) \<in> cn_timers c"
  shows "CarrierStop w g \<in> set (cn_sent (timer_fires w g c)) \<or> \<not> cn_open c"
    "shown_of w (timer_fires w g c) = shown_of w c"
    "shown_of w (pump_message (StreamStartResponse (WindowTarget w) g True sb reason None rest) (timer_fires w g c))
      = Some \<lparr>cr_generation = g, cr_backend = backend_kind_of sb\<rparr>"
proof -
  obtain n where n: "pending_of w c = Some n" "cr_generation n = g"
    using assms(2) by (auto simp: is_switching_pending)
  have "is_switching w g (c\<lparr>cn_timers := t\<rparr>)" for t
    using assms(2) by (simp add: is_switching_def)
  then have t: "timer_fires w g c = abandon_switch w g (lit ''no picture within 5 s'') True (c\<lparr>cn_timers := cn_timers c - {(w, g)}\<rparr>)"
    using assms(3) by (simp add: timer_fires_def)
  show "CarrierStop w g \<in> set (cn_sent (timer_fires w g c)) \<or> \<not> cn_open c"
    using assms by (auto simp: timer_fires_def abandon_switch_def is_switching_def end_switch_def set_carriers_def Let_def
        send_message_def emit_event_def split: option.splits)
  show "shown_of w (timer_fires w g c) = shown_of w c"
    by (simp add: t)
  have "pending_of w (timer_fires w g c) = None" "cn_pumping (timer_fires w g c)"
    using assms by (auto simp: timer_fires_def abandon_switch_def is_switching_def end_switch_def set_carriers_def Let_def
        send_message_def emit_event_def pending_of_def carriers_of_def split: option.splits)
  then show "shown_of w (pump_message (StreamStartResponse (WindowTarget w) g True sb reason None rest) (timer_fires w g c))
      = Some \<lparr>cr_generation = g, cr_backend = backend_kind_of sb\<rparr>"
    by (simp add: pump_message_shown is_switching_pending split_beta)
qed

end
