(* ===== verification/Client_Spacing.thy ===== *)
theory Client_Spacing
  imports Client_Safety
begin

text \<open>
  The switches the selector makes on its own, in any session of the client: they are far enough apart.
\<close>

section \<open>The selector's switches\<close>

text \<open>The selector's memory and the clock agree with the switches noted so far.\<close>

definition spaced :: "(nat \<times> window_id) list \<Rightarrow> bool" where
  "spaced l = sorted_wrt (\<lambda>a b. snd a = snd b \<longrightarrow> fst a + MIN_INTERVAL \<le> fst b) l"

definition noted_ok :: "(nat \<times> window_id) list \<Rightarrow> client \<Rightarrow> bool" where
  "noted_ok l c =
     (spaced l \<and> (\<forall>(t, w) \<in> set l. t \<le> cn_now c)
      \<and> (\<forall>w s. cn_selection c w = Some s \<longrightarrow> sw_last_switch s \<le> cn_now c \<and> (\<forall>t. (t, w) \<in> set l \<longrightarrow> t \<le> sw_last_switch s)))"

lemma noted_ok_same:
  "noted_ok l c \<Longrightarrow> cn_selection c' = cn_selection c \<Longrightarrow> cn_now c' = cn_now c \<Longrightarrow> noted_ok l c'"
  by (simp add: noted_ok_def)

lemma noted_quiet: "calm c c' \<Longrightarrow> noted_ok l c \<Longrightarrow> noted_ok l c'"
  by (rule noted_ok_same) (simp_all add: calm_def)

lemma noted_set:
  assumes "noted_ok l c" "sw_last_switch s \<in> {sw_last_switch (selection_of w c), cn_now c}"
  shows "noted_ok l (set_selection w s c)"
  using assms by (auto simp: noted_ok_def set_selection_def selection_of_def sel_fields split: option.splits)

lemma noted_drop: "noted_ok l c \<Longrightarrow> noted_ok l (c\<lparr>cn_selection := (cn_selection c)(w := None)\<rparr>)"
  by (auto simp: noted_ok_def)

lemma spaced_snoc: "spaced (l @ [(t, w)]) = (spaced l \<and> (\<forall>t'. (t', w) \<in> set l \<longrightarrow> t' + MIN_INTERVAL \<le> t))"
  by (auto simp: spaced_def sorted_wrt_append)

text \<open>A choice that is carried out is noted, and late enough.\<close>

lemma noted_switch:
  assumes "noted_ok l c" "MIN_INTERVAL \<le> cn_now c - sw_last_switch (selection_of w c)" "sw_last_switch s = cn_now c"
  shows "noted_ok (l @ [(cn_now c, w)]) (set_selection w s c)"
proof -
  have "0 < MIN_INTERVAL" by (simp add: MIN_INTERVAL_def SECONDS_def)
  then show ?thesis
    using assms by (fastforce simp: noted_ok_def set_selection_def selection_of_def sel_fields spaced_snoc split: option.splits)
qed

lemma start_switch_rest:
  "cn_selection (snd (start_switch w k cs c)) = cn_selection c" "cn_now (snd (start_switch w k cs c)) = cn_now c"
  by (auto simp: start_switch_def Let_def set_carriers_def next_generation_def send_message_def split_beta split: option.splits sum.splits)

lemma select_one_ok:
  assumes "noted_ok l c"
  shows "noted_ok (l @ fst (select_one env pictures wc c)) (snd (select_one env pictures wc c))"
proof -
  obtain w on where wc: "wc = (w, on)" by (rule prod.exhaust)
  show ?thesis
  proof (cases "listed w c")
    case None
    with assms show ?thesis by (simp add: select_one_def wc)
  next
    case (Some i)
    obtain choice s where s: "sel_look env pictures w on i c = (choice, s)"
      by (rule prod.exhaust)
    have last: "sw_last_switch s = sw_last_switch (selection_of w c)"
      using arg_cong [OF s, of "\<lambda>x. sw_last_switch (snd x)"] by (auto simp: sel_look_def Let_def sel_fields split: if_splits)
    have late: "MIN_INTERVAL \<le> cn_now c - sw_last_switch (selection_of w c)" if "choice = Some kind" for kind
      using s that sel_choose_waits(3) [of "cr_backend on" "wi_content i" "rdp_possible c" "cn_now c" _ kind s]
      by (fastforce simp: sel_look_def Let_def sel_fields split: if_splits)
    let ?c = "set_selection w s c"
    have ok: "noted_ok l ?c" using assms last by (intro noted_set) simp_all
    let ?codecs = "case map_of (cn_shown ?c) w of None \<Rightarrow> [] | Some cs \<Rightarrow> cs"
    have same: "noted_ok m (set_selection w t (snd (start_switch w kind codecs ?c))) = noted_ok m (set_selection w t c)" for m t kind codecs
      by (simp add: noted_ok_def set_selection_def start_switch_rest)
    have one: "select_one env pictures wc c = (case choice of None \<Rightarrow> ([], ?c)
      | Some kind \<Rightarrow> (case start_switch w kind ?codecs ?c of (result, c') \<Rightarrow>
          (case result of
             Inr generation \<Rightarrow> ([(cn_now c, w)],
               set_selection w (sel_switched kind (cn_now c) (s\<lparr>sw_pending := Some (generation, kind)\<rparr>)) c')
           | Inl _ \<Rightarrow> ([], set_selection w (sel_failed kind (cn_now c) s) c'))))"
      by (simp only: select_one_def wc Let_def prod.case Some option.case s)
    show ?thesis
    proof (cases choice)
      case None
      with ok show ?thesis by (simp add: one)
    next
      case kind: (Some kind)
      obtain result c' where c': "start_switch w kind ?codecs ?c = (result, c')" by (rule prod.exhaust)
      then have c'_same: "noted_ok m (set_selection w t c') = noted_ok m (set_selection w t c)" for m t
        using same [of m t kind ?codecs] by simp
      show ?thesis
      proof (cases result)
        case (Inl e)
        have "noted_ok l (set_selection w (sel_failed kind (cn_now c) s) c)"
          using assms by (rule noted_set) (simp add: sel_fields)
        with one kind c' Inl show ?thesis by (simp add: c'_same)
      next
        case (Inr generation)
        have "noted_ok (l @ [(cn_now c, w)])
            (set_selection w (sel_switched kind (cn_now c) (s\<lparr>sw_pending := Some (generation, kind)\<rparr>)) c)"
          by (rule noted_switch [OF assms late [OF kind]]) (simp add: sel_fields)
        with one kind c' Inr show ?thesis by (simp add: c'_same)
      qed
    qed
  qed
qed

lemma select_all_ok:
  assumes "noted_ok l c"
  shows "noted_ok (l @ fst (select_all env pictures wcs c)) (snd (select_all env pictures wcs c))"
  using assms
proof (induction wcs arbitrary: l c)
  case (Cons wc wcs)
  show ?case
    using Cons.IH [OF select_one_ok [OF Cons.prems, of env pictures wc]] by (simp add: split_beta)
qed simp

lemma select_turn_ok:
  assumes "noted_ok l c"
  shows "noted_ok (l @ fst (select_turn env pictures order c)) (snd (select_turn env pictures order c))"
proof -
  have "noted_ok l (c\<lparr>cn_looked := x\<rparr>)" for x
    by (rule noted_ok_same [OF assms]) simp_all
  from assms select_all_ok [OF this] this show ?thesis
    by (auto simp: select_turn_def Let_def)
qed

lemma selection_event_ok:
  assumes "noted_ok l c"
  shows "noted_ok l (selection_event e c)"
proof (cases e)
  case (CarrierRefusedEvent w generation reason)
  have "noted_ok l (set_selection w (sel_failed kind (cn_now c) t) c)" for kind t
    using assms by (rule noted_set) (simp add: sel_fields)
  then show ?thesis using assms CarrierRefusedEvent by (simp add: selection_event_def split: option.split)
next
  case (StreamStoppedEvent w)
  have "noted_ok l (selection_event e c) = noted_ok l (c\<lparr>cn_selection := (cn_selection c)(w := None)\<rparr>)"
    by (simp add: selection_event_def StreamStoppedEvent noted_ok_def)
  with noted_drop [OF assms, of w] show ?thesis by simp
qed (use assms in \<open>simp_all add: selection_event_def\<close>)

lemma noted_fields:
  "noted_ok l (c\<lparr>cn_rules := rs\<rparr>) = noted_ok l c" "noted_ok l (c\<lparr>cn_pictures := b\<rparr>) = noted_ok l c"
  "noted_ok l (c\<lparr>cn_follow := b\<rparr>) = noted_ok l c" "noted_ok l (c\<lparr>cn_auto := b\<rparr>) = noted_ok l c"
  "noted_ok l (c\<lparr>cn_password := p\<rparr>) = noted_ok l c" "noted_ok l (c\<lparr>cn_frames := fs\<rparr>) = noted_ok l c"
  by (simp_all add: noted_ok_def)

lemma noted_shown: "noted_ok l (c\<lparr>cn_shown := x\<rparr>) = noted_ok l c"
  by (simp add: noted_ok_def)

lemma next_event_ok:
  assumes "noted_ok l c"
  shows "noted_ok (l @ fst (snd (next_event env pictures order c))) (snd (snd (next_event env pictures order c)))"
proof -
  obtain l' c' where turn: "select_turn env pictures order c = (l', c')" by (rule prod.exhaust)
  have ok: "noted_ok (l @ l') c'" using select_turn_ok [OF assms, of env pictures order] turn by simp
  have ev: "noted_ok (l @ l') (selection_event e (c'\<lparr>cn_events := es\<rparr>))" for e es
    by (rule selection_event_ok, rule noted_ok_same [OF ok]) simp_all
  show ?thesis
    using turn ok ev by (auto simp: next_event_def Let_def split: list.split session_event.split
        simp: noted_shown intro: noted_quiet [OF follow_windows_quiet])
qed

definition keeps :: "client \<Rightarrow> client \<Rightarrow> bool" where
  "keeps c c' = (cn_selection c' = cn_selection c \<and> cn_now c' = cn_now c)"

lemma noted_keeps: "keeps c c' \<Longrightarrow> noted_ok l c \<Longrightarrow> noted_ok l c'"
  by (simp add: keeps_def noted_ok_same)

lemma keeps_parts [simp]:
  "keeps c c" "keeps c (set_carriers w e d) = keeps c d" "keeps c (snd (end_switch b w d)) = keeps c d"
  "keeps c (carrier_started w g k d) = keeps c d" "keeps c (emit_event x d) = keeps c d"
  "keeps c (snd (send_message m d)) = keeps c d" "keeps c (with_slot w sb d) = keeps c d"
  "keeps c (connect_rdp w g t d) = keeps c d"
  "keeps c (d\<lparr>cn_frames := fs\<rparr>) = keeps c d" "keeps c (d\<lparr>cn_rdp := rs\<rparr>) = keeps c d"
  "keeps c (d\<lparr>cn_carriers := cs\<rparr>) = keeps c d" "keeps c (d\<lparr>cn_cursors := us\<rparr>) = keeps c d"
  "keeps c (d\<lparr>cn_windows := ws\<rparr>) = keeps c d" "keeps c (d\<lparr>cn_channels := ch\<rparr>) = keeps c d"
  "keeps c (d\<lparr>cn_shapes := sh\<rparr>) = keeps c d" "keeps c (d\<lparr>cn_ping := pg\<rparr>) = keeps c d"
  "keeps c (d\<lparr>cn_hosts := hs\<rparr>) = keeps c d" "keeps c (d\<lparr>cn_pumping := pu\<rparr>) = keeps c d"
  "keeps c (d\<lparr>cn_timers := ti\<rparr>) = keeps c d" "keeps c (d\<lparr>cn_logging_in := li\<rparr>) = keeps c d"
  "keeps c (d\<lparr>cn_open := op\<rparr>) = keeps c d"
  by (simp_all add: keeps_def set_carriers_def end_switch_def Let_def carrier_started_def emit_event_def send_message_def
      with_slot_def connect_rdp_def)

lemma stream_start_keeps [simp]: "keeps c (snd (stream_start_event w g a b r d)) = keeps c d"
  by (simp add: stream_start_event_def Let_def)

lemma handle_control_keeps: "keeps c (snd (handle_control m c))"
  by (induction m c rule: handle_control.induct) (simp_all add: split_beta Let_def cursor_event_def split: option.split sum.split)

lemma pump_message_keeps: "keeps c (pump_message m c)"
  using handle_control_keeps [of c m] by (auto simp: pump_message_def split: prod.split option.split)

lemma abandon_keeps [simp]: "keeps c (abandon_switch w g r b d) = keeps c d"
  by (simp add: abandon_switch_def Let_def split_beta split: option.split)

lemma parts_keep:
  "keeps c (pump_ends (c\<lparr>cn_open := False\<rparr>))" "keeps c (timer_fires w g c)" "keeps c (rdp_ends env k a c)"
  by (simp_all add: pump_ends_def timer_fires_def rdp_ends_def Let_def split_beta split: sum.split)

text \<open>The carrier shown ends a wait of the selector; its memory is otherwise kept.\<close>

lemma carrier_shown_noted:
  assumes "noted_ok l c"
  shows "noted_ok l (snd (carrier_shown w g c))"
proof -
  let ?d = "case cn_selection c w of None \<Rightarrow> c
     | Some s \<Rightarrow> (case sw_pending s of
         Some (g', _) \<Rightarrow> if g' = g then set_selection w (s\<lparr>sw_pending := None\<rparr>) c else c | None \<Rightarrow> c)"
  have "noted_ok l (set_selection w (s\<lparr>sw_pending := None\<rparr>) c)" if "cn_selection c w = Some s" for s
    using that assms by (intro noted_set) (simp_all add: selection_of_def)
  then have "noted_ok l ?d" using assms by (simp split: option.split)
  moreover have "keeps ?d (snd (carrier_shown w g c))"
    unfolding carrier_shown_def Let_def by (simp add: split_beta split: option.split)
  ultimately show ?thesis by (rule noted_keeps [rotated])
qed

lemma client_does_noted:
  assumes "noted_ok l c"
  shows "noted_ok (l @ fst (client_does env s c)) (snd (client_does env s c))"
proof (cases s)
  case (TimePasses d)
  with assms show ?thesis by (force simp: noted_ok_def)
next
  case (AppEvent pictures order)
  with next_event_ok [OF assms, of env pictures order] show ?thesis by simp
next
  case (AppStop w)
  have "noted_ok l c'" if "stop_window w c = Some (r, c')" for r c'
    using that unfolding stop_window_def by (rule noted_quiet [OF stop_fuel_quiet assms])
  with assms AppStop show ?thesis by (simp split: option.split)
next
  case (AppSwitch w kind codecs)
  have "noted_ok l (set_selection w ((selection_of w c)\<lparr>sw_pinned := True\<rparr>) c)"
    using assms by (intro noted_set) simp_all
  from noted_ok_same [OF this, of "snd (switch_window w kind codecs c)"] AppSwitch show ?thesis
    by (simp add: switch_window_def start_switch_rest)
next
  case (AppShown w g)
  with carrier_shown_noted [OF assms] show ?thesis by simp
next
  case (LogInEnds k answer)
  with assms show ?thesis by (simp add: noted_keeps [OF parts_keep(3)])
qed (use assms in \<open>simp_all add: noted_keeps [OF pump_message_keeps] noted_keeps [OF parts_keep(1)] noted_keeps [OF parts_keep(2)]
   noted_quiet [OF small_calls_quiet(1)] noted_quiet [OF small_calls_quiet(2)] noted_quiet [OF small_calls_quiet(3)]
   noted_quiet [OF small_calls_quiet(4)] noted_quiet [OF small_calls_quiet(5)] noted_quiet [OF start_window_quiet]
   noted_quiet [OF send_message_quiet] noted_fields\<close>)

lemma client_run_noted:
  "noted_ok (fst (client_run env steps (client_new host ip peers own now))) (snd (client_run env steps (client_new host ip peers own now)))"
proof (induction steps rule: rev_induct)
  case Nil
  show ?case by (simp add: noted_ok_def spaced_def client_new_def)
next
  case (snoc s steps)
  from client_does_noted [OF this, of env s] show ?case by (simp add: client_run_snoc)
qed

text \<open>
  The selector does not flap: in any session, whatever the host says, the app does and the pictures received are,
  two switches the selector makes of one window on its own are at least fifteen seconds apart, even when the
  stream of the window ended and began again between them.
\<close>

theorem automatic_switches_are_spaced:
  assumes "fst (client_run env steps (client_new host ip peers own now)) = before @ (t, w) # between @ (t', w) # after"
  shows "t + 15 * 1000000000 \<le> t'"
  using client_run_noted [of env steps host ip peers own now] unfolding assms
  by (simp add: noted_ok_def spaced_def sorted_wrt_append MIN_INTERVAL_def SECONDS_def)

end
