(* ===== verification/Utf8.thy ===== *)
theory Utf8
  imports Text_Basics
begin

text \<open>
  The bytes of a \<open>str\<close>: \<open>as_bytes\<close> is its UTF-8 encoding, \<open>from_utf8\<close> the strict reading of
  the standard library (no overlong forms, no surrogates, nothing past U+10FFFF). Both are inverse to
  each other on texts of Unicode scalar values.
\<close>

definition utf8_char :: "nat \<Rightarrow> nat list" where
  "utf8_char c =
     (if c < 128 then [c]
      else if c < 2048 then [192 + c div 64, 128 + c mod 64]
      else if c < 65536 then [224 + c div 4096, 128 + c div 64 mod 64, 128 + c mod 64]
      else [240 + c div 262144, 128 + c div 4096 mod 64, 128 + c div 64 mod 64, 128 + c mod 64])"

definition as_bytes :: "rstr \<Rightarrow> bytes" where
  "as_bytes s = map of_nat (concat (map utf8_char s))"

definition scalar :: "nat \<Rightarrow> bool" where
  "scalar c = (c < 55296 \<or> 57344 \<le> c \<and> c < 1114112)"

definition cont :: "nat \<Rightarrow> bool" where
  "cont b = (128 \<le> b \<and> b < 192)"

text \<open>The character at the start of the bytes, with what follows it.\<close>

fun utf8_first :: "nat list \<Rightarrow> (nat \<times> nat list) option" where
  "utf8_first [] = None"
| "utf8_first (a # bs) =
     (if a < 128 then Some (a, bs)
      else case bs of
        [] \<Rightarrow> None
      | b # cs \<Rightarrow>
          if \<not> cont b then None
          else if 194 \<le> a \<and> a < 224 then Some ((a - 192) * 64 + (b - 128), cs)
          else case cs of
            [] \<Rightarrow> None
          | c # ds \<Rightarrow>
              if \<not> cont c then None
              else if 224 \<le> a \<and> a < 240 then
                let x = (a - 224) * 4096 + (b - 128) * 64 + (c - 128)
                in if 2048 \<le> x \<and> scalar x then Some (x, ds) else None
              else case ds of
                [] \<Rightarrow> None
              | d # es \<Rightarrow>
                  let x = (a - 240) * 262144 + (b - 128) * 4096 + (c - 128) * 64 + (d - 128)
                  in if cont d \<and> 240 \<le> a \<and> a < 245 \<and> 65536 \<le> x \<and> scalar x then Some (x, es) else None)"

lemma utf8_first_shorter: "utf8_first bs = Some (c, rest) \<Longrightarrow> length rest < length bs"
  by (cases bs) (auto split: if_splits list.splits simp: Let_def)

function utf8_decode :: "nat list \<Rightarrow> rstr option" where
  "utf8_decode bs =
     (if bs = [] then Some []
      else case utf8_first bs of
        None \<Rightarrow> None
      | Some (c, rest) \<Rightarrow> map_option (Cons c) (utf8_decode rest))"
  by pat_completeness auto
termination
  by (relation "measure length") (auto dest: utf8_first_shorter)

declare utf8_decode.simps [simp del]

definition from_utf8 :: "bytes \<Rightarrow> rstr option" where
  "from_utf8 bs = utf8_decode (map unat bs)"

lemma split64: "c = c div 64 * 64 + c mod 64" "c div 64 = c div 4096 * 64 + c div 64 mod 64"
  "c div 4096 = c div 262144 * 64 + c div 4096 mod 64" for c :: nat
  by (simp_all add: div_mult2_eq [of c 64 64, simplified] div_mult2_eq [of c 4096 64, simplified])

lemma digit64: "c = k * 64 + x \<Longrightarrow> x < 64 \<Longrightarrow> c div 64 = k" "c = k * 64 + x \<Longrightarrow> x < 64 \<Longrightarrow> c mod 64 = x" for c :: nat
  by simp_all

lemma utf8_first_char:
  assumes "scalar c"
  shows "utf8_first (utf8_char c @ bs) = Some (c, bs)"
proof -
  have m: "c mod 64 < 64" "c div 64 mod 64 < 64" "c div 4096 mod 64 < 64"
    by simp_all
  consider "c < 128" | "128 \<le> c" "c < 2048" | "2048 \<le> c" "c < 65536" | "65536 \<le> c" "c < 1114112"
    using assms unfolding scalar_def by linarith
  then show ?thesis
  proof cases
    case 2
    define q where "q = c div 64"
    have q: "2 \<le> q" "q < 32" "q * 64 + c mod 64 = c"
      using 2 unfolding q_def by simp_all
    have "utf8_char c = [192 + q, 128 + c mod 64]"
      using 2 by (simp add: utf8_char_def q_def)
    then show ?thesis
      using q m by (simp add: cont_def)
  next
    case 3
    then have "c div 4096 < 16"
      by simp
    moreover have "c div 4096 * 4096 + (c div 64 mod 64) * 64 + c mod 64 = c"
      using split64 [of c] by linarith
    ultimately show ?thesis
      using 3 m assms by (simp add: utf8_char_def cont_def Let_def)
  next
    case 4
    then have "c div 262144 < 5"
      by simp
    moreover have "c div 262144 * 262144 + (c div 4096 mod 64) * 4096 + (c div 64 mod 64) * 64 + c mod 64 = c"
      using split64 [of c] by linarith
    ultimately show ?thesis
      using 4 m assms by (simp add: utf8_char_def cont_def Let_def)
  qed (simp add: utf8_char_def)
qed

lemma utf8_char_bytes: "scalar c \<Longrightarrow> b \<in> set (utf8_char c) \<Longrightarrow> b < 256"
proof -
  assume "scalar c" and b: "b \<in> set (utf8_char c)"
  have m: "c mod 64 < 64" "c div 64 mod 64 < 64" "c div 4096 mod 64 < 64"
    by simp_all
  have "c < 2048 \<Longrightarrow> c div 64 < 32" "c < 65536 \<Longrightarrow> c div 4096 < 16" "c < 1114112 \<Longrightarrow> c div 262144 < 5"
    by simp_all
  then show "b < 256"
    using b m \<open>scalar c\<close> by (auto simp: utf8_char_def scalar_def split: if_splits)
qed

lemma utf8_decode_encode: "list_all scalar s \<Longrightarrow> utf8_decode (concat (map utf8_char s)) = Some s"
proof (induction s)
  case (Cons c s)
  have "utf8_char c \<noteq> []"
    by (simp add: utf8_char_def)
  then show ?case
    using Cons by (subst utf8_decode.simps) (simp add: utf8_first_char)
qed (simp add: utf8_decode.simps)

lemma unat_of_nat_u8: "b < 256 \<Longrightarrow> unat (of_nat b :: u8) = b"
  by (simp add: unat_of_nat take_bit_eq_mod)

lemma from_utf8_as_bytes: "list_all scalar s \<Longrightarrow> from_utf8 (as_bytes s) = Some s"
proof -
  assume s: "list_all scalar s"
  have "map (\<lambda>b. unat (of_nat b :: u8)) (concat (map utf8_char s)) = concat (map utf8_char s)"
    using s by (intro map_idI) (auto simp: list_all_iff intro!: unat_of_nat_u8 dest: utf8_char_bytes)
  then show ?thesis
    using utf8_decode_encode [OF s] by (simp add: from_utf8_def as_bytes_def comp_def)
qed

text \<open>What the reading accepts is the encoding of what it gives.\<close>

lemma utf8_first_Some:
  assumes "utf8_first bs = Some (c, rest)"
  shows "bs = utf8_char c @ rest \<and> scalar c"
proof -
  obtain a as where bs: "bs = a # as"
    using assms by (cases bs) auto
  show ?thesis
  proof (cases "a < 128")
    case True
    then show ?thesis
      using assms by (auto simp: bs utf8_char_def scalar_def)
  next
    case a: False
    obtain b cs where as: "as = b # cs" "cont b"
      using assms a by (auto simp: bs split: list.splits if_splits)
    have b: "128 + (b - 128) = b" "b - 128 < 64"
      using as(2) by (auto simp: cont_def)
    show ?thesis
    proof (cases "194 \<le> a \<and> a < 224")
      case True
      then have c: "c = (a - 192) * 64 + (b - 128)" "rest = cs"
        using assms a as by (auto simp: bs)
      have "c div 64 = a - 192" "c mod 64 = b - 128"
        using b(2) by (simp_all add: c(1))
      moreover have "128 \<le> c" "c < 2048"
        using True b(2) by (auto simp: c(1))
      ultimately show ?thesis
        using True b by (simp add: utf8_char_def scalar_def bs as c(2))
    next
      case a2: False
      obtain x ds where cs: "cs = x # ds" "cont x"
        using assms a a2 as by (auto simp: bs split: list.splits if_splits)
      have x: "128 + (x - 128) = x" "x - 128 < 64"
        using cs(2) by (auto simp: cont_def)
      show ?thesis
      proof (cases "224 \<le> a \<and> a < 240")
        case True
        then have c: "c = (a - 224) * 4096 + (b - 128) * 64 + (x - 128)" "rest = ds" "2048 \<le> c" "scalar c"
          using assms a a2 as cs by (auto simp: bs Let_def split: if_splits)
        have "c = ((a - 224) * 64 + (b - 128)) * 64 + (x - 128)"
          by (simp add: c(1) algebra_simps)
        note d1 = digit64 [OF this x(2)]
        note d2 = digit64 [OF d1(1) b(2)]
        have "c div 4096 = a - 224"
          using d2(1) by (simp only: div_mult2_eq [symmetric]) simp
        moreover have "c < 65536"
          using True b(2) x(2) unfolding c(1) by linarith
        ultimately show ?thesis
          using True b x c(3,4) d1(2) d2(2) by (simp add: utf8_char_def bs as cs c(2))
      next
        case a3: False
        obtain y es where ds: "ds = y # es" "cont y"
          using assms a a2 a3 as cs by (auto simp: bs Let_def split: list.splits if_splits)
        have y: "128 + (y - 128) = y" "y - 128 < 64"
          using ds(2) by (auto simp: cont_def)
        have c: "c = (a - 240) * 262144 + (b - 128) * 4096 + (x - 128) * 64 + (y - 128)" "rest = es" "65536 \<le> c" "scalar c"
          "240 \<le> a"
          using assms a a2 a3 as cs ds by (auto simp: bs Let_def split: if_splits)
        have "c = (((a - 240) * 64 + (b - 128)) * 64 + (x - 128)) * 64 + (y - 128)"
          by (simp add: c(1) algebra_simps)
        note d1 = digit64 [OF this y(2)]
        note d2 = digit64 [OF d1(1) x(2)]
        note d3 = digit64 [OF d2(1) b(2)]
        have "c div 4096 = c div 64 div 64" "c div 262144 = c div 64 div 64 div 64"
          by (simp_all only: div_mult2_eq [symmetric]) simp_all
        then show ?thesis
          using b x y c(3-5) d1(2) d2(2) d3 by (simp add: utf8_char_def bs as cs ds c(2))
      qed
    qed
  qed
qed

lemma utf8_decode_Some: "utf8_decode bs = Some s \<Longrightarrow> concat (map utf8_char s) = bs \<and> list_all scalar s"
proof (induction bs arbitrary: s rule: utf8_decode.induct)
  case (1 bs)
  show ?case
  proof (cases "bs = []")
    case False
    then obtain c rest t where "utf8_first bs = Some (c, rest)" "utf8_decode rest = Some t" "s = c # t"
      using 1(2) by (subst (asm) utf8_decode.simps) (auto split: option.splits)
    then show ?thesis
      using 1(1) [OF False, of "(c, rest)"] utf8_first_Some by fastforce
  qed (use 1(2) in \<open>simp add: utf8_decode.simps\<close>)
qed

lemma from_utf8_Some: "from_utf8 bs = Some s \<Longrightarrow> as_bytes s = bs \<and> list_all scalar s"
proof -
  assume "from_utf8 bs = Some s"
  then have "concat (map utf8_char s) = map unat bs" "list_all scalar s"
    unfolding from_utf8_def by (auto dest: utf8_decode_Some)
  then show ?thesis
    by (simp add: as_bytes_def comp_def)
qed

lemma length_as_bytes: "length (as_bytes s) = utf8_len s"
  by (induction s) (simp_all add: as_bytes_def utf8_len_def utf8_char_def utf8_len_char_def)

end
