(* ===== verification/Gs_Input.thy ===== *)
theory Gs_Input
  imports Protocol Utf8 "HOL-Library.Monad_Syntax"
begin

unbundle bit_operations_syntax

text \<open>
  GameStream's input packets (\<open>gamestream/src/input.rs\<close>), read on the host and written by the client. An
  \<open>i16\<close> is its bits as a \<open>u16\<close>; floats are their bits.
\<close>

definition KEY_DOWN :: u32 where "KEY_DOWN = 0x03"
definition KEY_UP :: u32 where "KEY_UP = 0x04"
definition MOUSE_ABSOLUTE :: u32 where "MOUSE_ABSOLUTE = 0x05"
definition MOUSE_RELATIVE :: u32 where "MOUSE_RELATIVE = 0x07"
definition MOUSE_BUTTON_DOWN :: u32 where "MOUSE_BUTTON_DOWN = 0x08"
definition MOUSE_BUTTON_UP :: u32 where "MOUSE_BUTTON_UP = 0x09"
definition SCROLL :: u32 where "SCROLL = 0x0A"
definition MULTI_CONTROLLER :: u32 where "MULTI_CONTROLLER = 0x0C"
definition TEXT :: u32 where "TEXT = 0x17"
definition HORIZONTAL_SCROLL :: u32 where "HORIZONTAL_SCROLL = 0x55000001"
definition TOUCH :: u32 where "TOUCH = 0x55000002"
definition PEN :: u32 where "PEN = 0x55000003"

lemmas input_magics = KEY_DOWN_def KEY_UP_def MOUSE_ABSOLUTE_def MOUSE_RELATIVE_def MOUSE_BUTTON_DOWN_def
  MOUSE_BUTTON_UP_def SCROLL_def MULTI_CONTROLLER_def TEXT_def HORIZONTAL_SCROLL_def TOUCH_def PEN_def

definition CHANNEL_KEYBOARD :: u8 where "CHANNEL_KEYBOARD = 0x02"
definition CHANNEL_MOUSE :: u8 where "CHANNEL_MOUSE = 0x03"
definition CHANNEL_TOUCH :: u8 where "CHANNEL_TOUCH = 0x05"
definition CHANNEL_TEXT :: u8 where "CHANNEL_TEXT = 0x06"
definition CHANNEL_GAMEPAD :: u8 where "CHANNEL_GAMEPAD = 0x10"

datatype input =
    PointerTo f32 f32
  | PointerBy u16 u16
  | PressButton pointer_button bool
  | Scroll f32 f32
  | PressKey u32 bool
  | TypeText rstr
  | Touch u32 f32 f32 touch_phase
  | Gamepad u8 u16 gamepad_state

section \<open>Keys\<close>

definition KEYS :: "(u8 \<times> u32) list" where
  "KEYS =
  [
   (0x08, 14), (0x09, 15), (0x0D, 28), (0x10, 42), (0x11, 29), (0x12, 56), (0x13, 119), (0x14, 58), (0x1B, 1),
   (0x20, 57), (0x21, 104), (0x22, 109), (0x23, 107), (0x24, 102), (0x25, 105), (0x26, 103), (0x27, 106),
   (0x28, 108), (0x2C, 99), (0x2D, 110), (0x2E, 111), (0x30, 11), (0x31, 2), (0x32, 3), (0x33, 4), (0x34, 5),
   (0x35, 6), (0x36, 7), (0x37, 8), (0x38, 9), (0x39, 10), (0x41, 30), (0x42, 48), (0x43, 46), (0x44, 32),
   (0x45, 18), (0x46, 33), (0x47, 34), (0x48, 35), (0x49, 23), (0x4A, 36), (0x4B, 37), (0x4C, 38), (0x4D, 50),
   (0x4E, 49), (0x4F, 24), (0x50, 25), (0x51, 16), (0x52, 19), (0x53, 31), (0x54, 20), (0x55, 22), (0x56, 47),
   (0x57, 17), (0x58, 45), (0x59, 21), (0x5A, 44), (0x5B, 125), (0x5C, 126), (0x5D, 127), (0x60, 82), (0x61, 79),
   (0x62, 80), (0x63, 81), (0x64, 75), (0x65, 76), (0x66, 77), (0x67, 71), (0x68, 72), (0x69, 73), (0x6A, 55),
   (0x6B, 78), (0x6D, 74), (0x6E, 83), (0x6F, 98), (0x70, 59), (0x71, 60), (0x72, 61), (0x73, 62), (0x74, 63),
   (0x75, 64), (0x76, 65), (0x77, 66), (0x78, 67), (0x79, 68), (0x7A, 87), (0x7B, 88), (0x7C, 183), (0x7D, 184),
   (0x7E, 185), (0x7F, 186), (0x80, 187), (0x81, 188), (0x82, 189), (0x83, 190), (0x84, 191), (0x85, 192),
   (0x86, 193), (0x87, 194), (0x90, 69), (0x91, 70), (0xA0, 42), (0xA1, 54), (0xA2, 29), (0xA3, 97), (0xA4, 56),
   (0xA5, 100), (0xAD, 113), (0xAE, 114), (0xAF, 115), (0xB0, 163), (0xB1, 165), (0xB2, 166), (0xB3, 164),
   (0xBA, 39), (0xBB, 13), (0xBC, 51), (0xBD, 12), (0xBE, 52), (0xBF, 53), (0xC0, 41), (0xDB, 26), (0xDC, 43),
   (0xDD, 27), (0xDE, 40), (0xE2, 86)
  ]"

definition evdev_of_vk :: "u8 \<Rightarrow> u32 option" where
  "evdev_of_vk vk = map_option snd (List.find (\<lambda>(v, _). v = vk) KEYS)"

definition vk_of_evdev :: "u32 \<Rightarrow> u8 option" where
  "vk_of_evdev keycode =
     map_option fst (List.find (\<lambda>(_, e). e = keycode) (filter (\<lambda>(v, _). \<not> (0x10 \<le> v \<and> v \<le> 0x12)) KEYS))"

section \<open>Reading\<close>

definition get_range :: "bytes \<Rightarrow> nat \<Rightarrow> nat \<Rightarrow> bytes option" where
  "get_range b i j = (if i \<le> j \<and> j \<le> length b then Some (subslice b i j) else None)"

definition be16 :: "bytes \<Rightarrow> nat \<Rightarrow> u16 option" where
  "be16 b i = map_option of_be (get_range b i (i + 2))"

definition le16 :: "bytes \<Rightarrow> nat \<Rightarrow> u16 option" where
  "le16 b i = map_option of_le (get_range b i (i + 2))"

definition le32 :: "bytes \<Rightarrow> nat \<Rightarrow> u32 option" where
  "le32 b i = map_option of_le (get_range b i (i + 4))"

definition float_at :: "bytes \<Rightarrow> nat \<Rightarrow> f32 option" where
  "float_at b i = map_option of_le (get_range b i (i + 4))"

definition byte_at :: "bytes \<Rightarrow> nat \<Rightarrow> u8 option" where
  "byte_at b i = (if i < length b then Some (b ! i) else None)"

definition button_of :: "u8 \<Rightarrow> pointer_button option" where
  "button_of number =
     (if number = 1 then Some LeftButton else if number = 2 then Some MiddleButton
      else if number = 3 then Some RightButton else if number = 4 then Some BackButton
      else if number = 5 then Some ForwardButton else None)"

definition phase_of :: "u8 \<Rightarrow> touch_phase option" where
  "phase_of event =
     (if event = 0x01 then Some TouchStart else if event = 0x02 then Some TouchEnd
      else if event = 0x03 then Some TouchMove else if event = 0x04 \<or> event = 0x07 then Some TouchCancel else None)"

text \<open>The reference size is sent less one; sums of an \<open>i16\<close> and one are exact in \<open>f32\<close>.\<close>

definition pointer_to_of :: "bytes \<Rightarrow> input option" where
  "pointer_to_of body = do {
     x \<leftarrow> be16 body 0;
     y \<leftarrow> be16 body 2;
     w \<leftarrow> be16 body 6;
     h \<leftarrow> be16 body 8;
     if sint w + 1 \<le> 1 \<or> sint h + 1 \<le> 1 then None
     else Some (PointerTo (f32_clamp01 (f32_div (f32_of_int (sint x)) (f32_of_int (sint w))))
       (f32_clamp01 (f32_div (f32_of_int (sint y)) (f32_of_int (sint h)))))
   }"

definition gamepad_of :: "bytes \<Rightarrow> input option" where
  "gamepad_of body = do {
     pad \<leftarrow> le16 body 2;
     active \<leftarrow> le16 body 4;
     low \<leftarrow> le16 body 8;
     high \<leftarrow> le16 body 22;
     pad \<leftarrow> (if 0 \<le> sint pad \<and> sint pad \<le> 255 then Some (ucast pad) else None);
     left_trigger \<leftarrow> byte_at body 10;
     right_trigger \<leftarrow> byte_at body 11;
     left_x \<leftarrow> le16 body 12;
     left_y \<leftarrow> le16 body 14;
     right_x \<leftarrow> le16 body 16;
     right_y \<leftarrow> le16 body 18;
     Some (Gamepad pad active
       \<lparr>gp_buttons = (ucast low OR push_bit 16 (ucast high)) AND 0xffff, gp_left_x = left_x, gp_left_y = left_y,
        gp_right_x = right_x, gp_right_y = right_y, gp_left_trigger = left_trigger, gp_right_trigger = right_trigger\<rparr>)
   }"

definition touch_of :: "u32 \<Rightarrow> bytes \<Rightarrow> input option" where
  "touch_of magic body = do {
     event \<leftarrow> byte_at body 0;
     (ident, i) \<leftarrow> (if magic = TOUCH then map_option (\<lambda>n. (n, 8)) (le32 body 4) else Some (- 1, 4));
     phase \<leftarrow> phase_of event;
     x \<leftarrow> float_at body i;
     y \<leftarrow> float_at body (i + 4);
     Some (Touch ident (f32_clamp01 x) (f32_clamp01 y) phase)
   }"

definition parse_body :: "u32 \<Rightarrow> bytes \<Rightarrow> input option" where
  "parse_body magic body =
     (if magic = KEY_DOWN \<or> magic = KEY_UP then do {
        vk \<leftarrow> le16 body 1;
        keycode \<leftarrow> evdev_of_vk (ucast (vk AND 0xff));
        Some (PressKey keycode (magic = KEY_DOWN))
      }
      else if magic = TEXT then map_option TypeText (from_utf8 body)
      else if magic = MOUSE_RELATIVE then do { dx \<leftarrow> be16 body 0; dy \<leftarrow> be16 body 2; Some (PointerBy dx dy) }
      else if magic = MOUSE_ABSOLUTE then pointer_to_of body
      else if magic = MOUSE_BUTTON_DOWN \<or> magic = MOUSE_BUTTON_UP then do {
        number \<leftarrow> byte_at body 0;
        button \<leftarrow> button_of number;
        Some (PressButton button (magic = MOUSE_BUTTON_DOWN))
      }
      else if magic = SCROLL then
        map_option (\<lambda>a. Scroll 0 (f32_div (f32_of_int (sint a)) (f32_of_int 120))) (be16 body 0)
      else if magic = HORIZONTAL_SCROLL then
        map_option (\<lambda>a. Scroll (f32_div (f32_of_int (sint a)) (f32_of_int 120)) 0) (be16 body 0)
      else if magic = MULTI_CONTROLLER then gamepad_of body
      else if magic = TOUCH \<or> magic = PEN then touch_of magic body
      else None)"

definition parse_one :: "bytes \<Rightarrow> input list option" where
  "parse_one data = do {
     size \<leftarrow> get_range data 0 4;
     data \<leftarrow> get_range data 0 (4 + unat (of_be size :: u32));
     magic \<leftarrow> le32 data 4;
     map_option (\<lambda>i. [i]) (parse_body magic (drop 8 data))
   }"

definition input_parse :: "bytes \<Rightarrow> input list" where
  "input_parse data = (case parse_one data of None \<Rightarrow> [] | Some inputs \<Rightarrow> inputs)"

section \<open>Writing\<close>

definition input_packet :: "u32 \<Rightarrow> bytes \<Rightarrow> bytes" where
  "input_packet magic body = be_bytes 4 (4 + of_nat (length body) :: u32) @ le_bytes 4 magic @ body"

fun button_number :: "pointer_button \<Rightarrow> u8" where
  "button_number LeftButton = 1"
| "button_number MiddleButton = 2"
| "button_number RightButton = 3"
| "button_number BackButton = 4"
| "button_number ForwardButton = 5"

fun phase_number :: "touch_phase \<Rightarrow> u8" where
  "phase_number TouchStart = 0x01"
| "phase_number TouchEnd = 0x02"
| "phase_number TouchMove = 0x03"
| "phase_number TouchCancel = 0x04"

definition gamepad_body :: "u8 \<Rightarrow> u16 \<Rightarrow> gamepad_state \<Rightarrow> bytes" where
  "gamepad_body pad active state =
     concat (map (le_bytes 2) [0x001A :: u16, ucast pad, active, 0x0014]) @ le_bytes 2 (ucast (gp_buttons state) :: u16)
     @ [gp_left_trigger state, gp_right_trigger state]
     @ concat (map (le_bytes 2) [gp_left_x state, gp_left_y state, gp_right_x state, gp_right_y state, 0x009C,
         ucast (drop_bit 16 (gp_buttons state)), 0x0055])"

fun input_encode :: "input \<Rightarrow> (bytes \<times> u8) option" where
  "input_encode (PressKey keycode pressed) = do {
     vk \<leftarrow> vk_of_evdev keycode;
     Some (input_packet (if pressed then KEY_DOWN else KEY_UP) ([0] @ le_bytes 2 (0x8000 OR ucast vk :: u16) @ [0, 0, 0]),
       CHANNEL_KEYBOARD)
   }"
| "input_encode (TypeText txt) = Some (input_packet TEXT (as_bytes txt), CHANNEL_TEXT)"
| "input_encode (PointerBy dx dy) = Some (input_packet MOUSE_RELATIVE (be_bytes 2 dx @ be_bytes 2 dy), CHANNEL_MOUSE)"
| "input_encode (PointerTo x y) =
     Some (input_packet MOUSE_ABSOLUTE
       (be_bytes 2 (f32_to_i16 (f32_scale (f32_clamp01 x) (f32_of_int 4095)))
        @ be_bytes 2 (f32_to_i16 (f32_scale (f32_clamp01 y) (f32_of_int 4095)))
        @ [0, 0] @ be_bytes 2 (4095 :: u16) @ be_bytes 2 (4095 :: u16)), CHANNEL_MOUSE)"
| "input_encode (PressButton button pressed) =
     Some (input_packet (if pressed then MOUSE_BUTTON_DOWN else MOUSE_BUTTON_UP) [button_number button], CHANNEL_MOUSE)"
| "input_encode (Scroll dx dy) =
     (if f32_nonzero dx
      then Some (input_packet HORIZONTAL_SCROLL (be_bytes 2 (f32_to_i16 (f32_scale dx (f32_of_int 120)))), CHANNEL_MOUSE)
      else let amount = f32_to_i16 (f32_scale dy (f32_of_int 120))
        in Some (input_packet SCROLL (be_bytes 2 amount @ be_bytes 2 amount @ [0, 0]), CHANNEL_MOUSE))"
| "input_encode (Touch ident x y phase) =
     Some (input_packet TOUCH ([phase_number phase, 0, 0, 0] @ le_bytes 4 ident @ le_bytes 4 x @ le_bytes 4 y
       @ le_bytes 4 (0x3F800000 :: f32) @ le_bytes 4 (0 :: f32) @ le_bytes 4 (0 :: f32)), CHANNEL_TOUCH)"
| "input_encode (Gamepad pad active state) =
     Some (input_packet MULTI_CONTROLLER (gamepad_body pad active state), CHANNEL_GAMEPAD + (pad AND 0x0f))"

section \<open>What is written reads back\<close>

lemma KEYS_ascending: "sorted_wrt (<) (map fst KEYS)"
  unfolding KEYS_def list.map fst_conv by (simp add: sorted_wrt2_simps del: sorted_wrt.simps)

lemma find_in: "List.find P xs = Some x \<Longrightarrow> x \<in> set xs \<and> P x"
  by (induction xs) (auto split: if_splits)

lemma find_key: "(v, e) \<in> set kvs \<Longrightarrow> distinct (map fst kvs) \<Longrightarrow> List.find (\<lambda>(w, _). w = v) kvs = Some (v, e)"
  by (induction kvs) (force simp: rev_image_eqI)+

lemma vk_round_trip: "vk_of_evdev keycode = Some vk \<Longrightarrow> evdev_of_vk vk = Some keycode"
proof -
  assume "vk_of_evdev keycode = Some vk"
  then obtain e where "List.find (\<lambda>(_, e). e = keycode) (filter (\<lambda>(v, _). \<not> (0x10 \<le> v \<and> v \<le> 0x12)) KEYS) = Some (vk, e)"
    by (auto simp: vk_of_evdev_def)
  from find_in [OF this] have "(vk, keycode) \<in> set KEYS"
    by auto
  moreover have "distinct (map fst KEYS)"
    using KEYS_ascending by (simp only: strict_sorted_iff)
  ultimately show ?thesis
    by (simp only: evdev_of_vk_def find_key) simp
qed

lemma parse_packet:
  assumes "length body < 2 ^ 32 - 4"
  shows "input_parse (input_packet magic body) = (case parse_body magic body of None \<Rightarrow> [] | Some i \<Rightarrow> [i])"
proof -
  let ?n = "4 + of_nat (length body) :: u32"
  have "unat ?n = 4 + length body"
    using assms unat_of_nat [of "4 + length body", where ?'a = 32] by (simp add: take_bit_eq_mod)
  moreover have "of_be (be_bytes 4 ?n) = ?n"
    by (rule of_be_be_bytes) simp
  moreover have "of_le (le_bytes 4 magic) = magic"
    by (rule of_le_le_bytes) simp
  ultimately show ?thesis
    by (cases "parse_body magic body") (simp_all add: input_parse_def parse_one_def input_packet_def get_range_def le32_def subslice_def)
qed

text \<open>The events whose packets carry them exactly; positions and scroll amounts are rounded.\<close>

fun carried :: "input \<Rightarrow> bool" where
  "carried (PressKey keycode _) = (vk_of_evdev keycode \<noteq> None)"
| "carried (TypeText txt) = (list_all scalar txt \<and> utf8_len txt < 2 ^ 32 - 4)"
| "carried (PointerBy _ _) = True"
| "carried (PressButton _ _) = True"
| "carried (Touch _ x y _) = (f32_clamp01 x = x \<and> f32_clamp01 y = y)"
| "carried (Gamepad _ _ state) = (gp_buttons state < 0x10000)"
| "carried _ = False"

lemma number_round_trip: "button_of (button_number b) = Some b" "phase_of (phase_number p) = Some p"
  by (cases b; simp add: button_of_def) (cases p; simp add: phase_of_def)

lemma bytes_at:
  "length a = i \<Longrightarrow> be16 (a @ be_bytes 2 w @ r) i = Some w" "length a = i \<Longrightarrow> le16 (a @ le_bytes 2 w @ r) i = Some w"
  "length a = i \<Longrightarrow> le32 (a @ le_bytes 4 v @ r) i = Some v" "length a = i \<Longrightarrow> float_at (a @ le_bytes 4 v @ r) i = Some v"
  "length a = i \<Longrightarrow> byte_at (a @ b # r) i = Some b"
  by (simp_all add: be16_def le16_def le32_def float_at_def byte_at_def get_range_def subslice_def nth_append)

lemma ucast_ucast_byte: "ucast (ucast b :: u16) = (b :: u8)"
  by (rule bit_word_eqI) (simp add: bit_simps)

lemma key_word: "ucast ((0x8000 OR ucast vk :: u16) AND 0xff) = (vk :: u8)"
proof -
  have low: "bit (0xff :: int) n \<longleftrightarrow> n < 8" for n
    using bit_mask_iff [of 8 n, where ?'a = int] by (auto simp: mask_eq_exp_minus_1)
  have top: "bit (0x8000 :: int) n \<Longrightarrow> 15 \<le> n" for n
    using bit_push_bit_iff [of 15 "1 :: int" n] by simp
  have "(0x8000 OR ucast vk :: u16) AND 0xff = ucast vk"
    by (rule bit_word_eqI) (auto simp: bit_and_iff bit_or_iff bit_unsigned_iff low dest: top bit_imp_le_length)
  then show ?thesis
    by (simp only: ucast_ucast_byte)
qed

lemma parse_key:
  assumes "vk_of_evdev keycode = Some vk" "magic = KEY_DOWN \<or> magic = KEY_UP"
  shows "parse_body magic ([0] @ le_bytes 2 (0x8000 OR ucast vk :: u16) @ [0, 0, 0]) = Some (PressKey keycode (magic = KEY_DOWN))"
  using assms vk_round_trip bytes_at(2) [of "[0]" 1 "0x8000 OR ucast vk :: u16" "[0, 0, 0]"]
  by (simp add: parse_body_def key_word)

lemma parse_touch:
  assumes "f32_clamp01 x = x" "f32_clamp01 y = y"
  shows "parse_body TOUCH ([phase_number phase, 0, 0, 0] @ le_bytes 4 n @ le_bytes 4 x @ le_bytes 4 y @ rest) = Some (Touch n x y phase)"
proof -
  let ?b = "[phase_number phase, 0, 0, 0] @ le_bytes 4 n @ le_bytes 4 x @ le_bytes 4 y @ rest"
  have "byte_at ?b 0 = Some (phase_number phase)"
    by (simp add: byte_at_def)
  moreover have "le32 ?b 4 = Some n"
    by (rule bytes_at(3)) simp
  moreover have "float_at ?b 8 = Some x"
    using bytes_at(4) [of "[phase_number phase, 0, 0, 0] @ le_bytes 4 n" 8 x "le_bytes 4 y @ rest"] by simp
  moreover have "float_at ?b 12 = Some y"
    using bytes_at(4) [of "[phase_number phase, 0, 0, 0] @ le_bytes 4 n @ le_bytes 4 x" 12 y rest] by simp
  ultimately show ?thesis
    unfolding parse_body_def touch_of_def
    using assms number_round_trip(2) [of phase] by (simp add: input_magics del: append.simps)
qed

lemma small_buttons:
  fixes w :: u32
  assumes "w < 0x10000"
  shows "(ucast (ucast w :: u16) OR push_bit 16 (ucast (ucast (drop_bit 16 w) :: u16))) AND 0xffff = w"
proof -
  have "unat w < 2 ^ 16"
    using assms by (simp add: word_less_nat_alt)
  then have "unat (take_bit 16 w) = unat w"
    by (simp only: unsigned_take_bit_eq take_bit_nat_eq_self)
  then have "take_bit 16 w = w"
    by (simp only: word_unat_eq_iff)
  then have high: "bit w i \<Longrightarrow> i < 16" for i
    by (metis bit_take_bit_iff)
  have low: "bit (0xffff :: int) n \<longleftrightarrow> n < 16" for n
    using bit_mask_iff [of 16 n, where ?'a = int] by (auto simp: mask_eq_exp_minus_1)
  show ?thesis
    by (rule bit_word_eqI) (auto simp: bit_simps low dest: high)
qed

lemma le_bytes_pair: "le_bytes 2 (w :: u16) = [ucast w, ucast (drop_bit 8 w)]" "of_le [ucast w, ucast (drop_bit 8 w)] = (w :: u16)"
proof -
  show pair: "le_bytes 2 (w :: u16) = [ucast w, ucast (drop_bit 8 w)]" for w
    by (simp add: le_bytes_def numeral_2_eq_2)
  have "of_le (le_bytes 2 w) = w"
    by (rule of_le_le_bytes) simp
  then show "of_le [ucast w, ucast (drop_bit 8 w)] = (w :: u16)"
    unfolding pair .
qed

lemma pad_number: "0 \<le> sint (ucast pad :: u16) \<and> sint (ucast pad :: u16) \<le> 255" "ucast (ucast pad :: u16) = (pad :: u8)"
proof -
  have low: "- (2 ^ 15) \<le> uint pad"
    by (rule order_trans [OF _ uint_ge_0]) simp
  have u: "uint (ucast pad :: u16) = uint pad" and small: "uint pad < 256"
    using unsigned_less [of pad, where ?'a = int] by (simp_all add: unsigned_ucast_eq take_bit_eq_mod)
  have "sint (ucast pad :: u16) = uint pad"
    using small low unfolding sint_uint u by (intro signed_take_bit_int_eq_self) simp_all
  then show "0 \<le> sint (ucast pad :: u16) \<and> sint (ucast pad :: u16) \<le> 255"
    using small by simp
  show "ucast (ucast pad :: u16) = (pad :: u8)"
    by (rule ucast_ucast_byte)
qed

lemma parse_gamepad:
  assumes "gp_buttons state < 0x10000"
  shows "parse_body MULTI_CONTROLLER (gamepad_body pad active state) = Some (Gamepad pad active state)"
    (is "parse_body _ ?b = _")
proof -
  define low where "low = (ucast (gp_buttons state) :: u16)"
  define high where "high = (ucast (drop_bit 16 (gp_buttons state)) :: u16)"
  define n where "n = (ucast pad :: u16)"
  have buttons: "(ucast low OR push_bit 16 (ucast high)) AND 0xffff = gp_buttons state"
    unfolding low_def high_def by (rule small_buttons [OF assms])
  have b: "?b = [ucast (0x001A :: u16), ucast (drop_bit 8 (0x001A :: u16)), ucast n, ucast (drop_bit 8 n), ucast active,
      ucast (drop_bit 8 active), ucast (0x0014 :: u16), ucast (drop_bit 8 (0x0014 :: u16)), ucast low, ucast (drop_bit 8 low),
      gp_left_trigger state, gp_right_trigger state, ucast (gp_left_x state), ucast (drop_bit 8 (gp_left_x state)),
      ucast (gp_left_y state), ucast (drop_bit 8 (gp_left_y state)), ucast (gp_right_x state),
      ucast (drop_bit 8 (gp_right_x state)), ucast (gp_right_y state), ucast (drop_bit 8 (gp_right_y state)),
      ucast (0x009C :: u16), ucast (drop_bit 8 (0x009C :: u16)), ucast high, ucast (drop_bit 8 high), ucast (0x0055 :: u16),
      ucast (drop_bit 8 (0x0055 :: u16))]"
    unfolding gamepad_body_def low_def high_def n_def le_bytes_pair(1) list.map concat.simps append.simps ..
  have fields: "le16 ?b 2 = Some n" "le16 ?b 4 = Some active" "le16 ?b 8 = Some low" "le16 ?b 22 = Some high"
    "byte_at ?b 10 = Some (gp_left_trigger state)" "byte_at ?b 11 = Some (gp_right_trigger state)"
    "le16 ?b 12 = Some (gp_left_x state)" "le16 ?b 14 = Some (gp_left_y state)"
    "le16 ?b 16 = Some (gp_right_x state)" "le16 ?b 18 = Some (gp_right_y state)"
    unfolding b by (simp_all only: le16_def byte_at_def get_range_def subslice_def) (simp_all add: le_bytes_pair(2))
  show ?thesis
    unfolding parse_body_def gamepad_of_def fields
    using pad_number [of pad] buttons by (simp add: input_magics n_def)
qed

text \<open>
  C38. An input event that a client sends is the event that the host reads, for keys of the table, text,
  relative motion, buttons, touches inside the picture and gamepads; the packet goes on the channel of its
  kind.
\<close>

theorem input_comes_back:
  assumes "carried event"
  shows "\<exists>packet channel. input_encode event = Some (packet, channel) \<and> input_parse packet = [event]"
proof (cases event)
  case (PressKey keycode pressed)
  then obtain vk where vk: "vk_of_evdev keycode = Some vk"
    using assms by auto
  let ?magic = "if pressed then KEY_DOWN else KEY_UP"
  have "parse_body ?magic ([0] @ le_bytes 2 (0x8000 OR ucast vk :: u16) @ [0, 0, 0]) = Some (PressKey keycode (?magic = KEY_DOWN))"
    by (rule parse_key [OF vk]) simp
  moreover have "(?magic = KEY_DOWN) = pressed"
    by (simp add: input_magics)
  ultimately show ?thesis
    using vk by (simp add: PressKey parse_packet del: append.simps)
next
  case (TypeText t)
  then have "list_all scalar t" "length (as_bytes t) < 2 ^ 32 - 4"
    using assms by (simp_all add: length_as_bytes)
  then show ?thesis
    by (simp add: TypeText parse_packet parse_body_def from_utf8_as_bytes) (simp add: input_magics)
next
  case (PointerBy dx dy)
  have "be16 (be_bytes 2 dx @ be_bytes 2 dy) 0 = Some dx" "be16 (be_bytes 2 dx @ be_bytes 2 dy) 2 = Some dy"
    using bytes_at(1) [of "[]" 0 dx "be_bytes 2 dy"] bytes_at(1) [of "be_bytes 2 dx" 2 dy "[]"] by simp_all
  then show ?thesis
    by (simp add: PointerBy parse_packet parse_body_def) (simp add: input_magics)
next
  case (PressButton button pressed)
  then show ?thesis
    by (simp add: parse_packet parse_body_def byte_at_def number_round_trip) (simp add: input_magics)
next
  case (Touch n x y phase)
  then have "f32_clamp01 x = x" "f32_clamp01 y = y"
    using assms by simp_all
  from parse_touch [OF this] show ?thesis
    by (simp add: Touch parse_packet del: append.simps)
next
  case (Gamepad pad active state)
  then have "gp_buttons state < 0x10000"
    using assms by simp
  note parsed = parse_gamepad [OF this, of pad active]
  have "length (gamepad_body pad active state) = 26"
    by (simp add: gamepad_body_def)
  then show ?thesis
    using parsed by (simp add: Gamepad parse_packet)
qed (use assms in simp_all)

theorem input_comes_back_witness:
  "\<exists>packet channel. input_encode (PressButton BackButton True) = Some (packet, channel) \<and> input_parse packet = [PressButton BackButton True]"
  by (rule input_comes_back) simp

end
