(* ===== verification/Gs_Control.thy ===== *)
theory Gs_Control
  imports Prelude
begin

text \<open>
  The messages of GameStream's control stream (\<open>gamestream/src/control.rs\<close>). AES-128-GCM is a pair of
  arguments: \<open>seal key nonce data\<close> gives the cipher text and the tag, \<open>unseal key nonce tag data\<close> the
  data when the tag is genuine.
\<close>

definition control_nonce :: "u32 \<Rightarrow> bool \<Rightarrow> bytes" where
  "control_nonce sequence from_client = le_bytes 4 sequence @ replicate 6 0 @ [if from_client then 67 else 72, 67]"

definition control_seal ::
  "(bytes \<Rightarrow> bytes \<Rightarrow> bytes \<Rightarrow> bytes \<times> bytes) \<Rightarrow> bytes \<Rightarrow> u32 \<Rightarrow> bool \<Rightarrow> u16 \<Rightarrow> bytes \<Rightarrow> bytes" where
  "control_seal seal key sequence from_client kind payload =
     (let inner = le_bytes 2 kind @ le_bytes 2 (of_nat (length payload) :: u16) @ payload;
          (body, tag) = seal key (control_nonce sequence from_client) inner
      in le_bytes 2 (1 :: u16) @ le_bytes 2 (of_nat (4 + 16 + length body) :: u16) @ le_bytes 4 sequence @ tag @ body)"

definition control_open ::
  "(bytes \<Rightarrow> bytes \<Rightarrow> bytes \<Rightarrow> bytes \<Rightarrow> bytes option) \<Rightarrow> bytes \<Rightarrow> bool \<Rightarrow> bytes \<Rightarrow> (u16 \<times> bytes) option" where
  "control_open unseal key from_client data =
     (if length data < 8 + 16 + 4 \<or> of_le [data ! 0, data ! 1] \<noteq> (1 :: u16) then None
      else let len = unat (of_le [data ! 2, data ! 3] :: u16)
        in if len + 4 \<noteq> length data then None
           else let sequence = of_le (subslice data 4 8); tag = subslice data 8 24
             in (case unseal key (control_nonce sequence from_client) tag (drop 24 data) of
                   None \<Rightarrow> None
                 | Some inner \<Rightarrow>
                     let kind = of_le [inner ! 0, inner ! 1]; len = unat (of_le [inner ! 2, inner ! 3] :: u16)
                     in if 4 + len \<le> length inner then Some (kind, subslice inner 4 (4 + len)) else None))"

text \<open>
  What is relied on of the cipher: it opens exactly what it sealed, keeps the length and has tags of 16
  bytes.
\<close>

definition aead_laws ::
  "(bytes \<Rightarrow> bytes \<Rightarrow> bytes \<Rightarrow> bytes \<times> bytes) \<Rightarrow> (bytes \<Rightarrow> bytes \<Rightarrow> bytes \<Rightarrow> bytes \<Rightarrow> bytes option) \<Rightarrow> bool" where
  "aead_laws seal unseal =
     ((\<forall>key nonce tag body m. unseal key nonce tag body = Some m \<longleftrightarrow> seal key nonce m = (body, tag))
      \<and> (\<forall>key nonce m. length (snd (seal key nonce m)) = 16 \<and> length (fst (seal key nonce m)) = length m))"

lemma le2_pair: "\<exists>x y. le_bytes 2 w = [x, y] \<and> of_le [x, y] = (w :: u16)"
proof -
  obtain x y where xy: "le_bytes 2 w = [x, y]"
    by (auto simp: le_bytes_def numeral_2_eq_2)
  have "of_le (le_bytes 2 w) = w"
    by (rule of_le_le_bytes) simp
  then show ?thesis
    using xy by auto
qed

lemma unat_u16: "n < 65536 \<Longrightarrow> unat (of_nat n :: u16) = n"
  by (simp add: unat_of_nat take_bit_eq_mod)

text \<open>
  A control message opens at the other end as what was sent, for any payload whose length the format
  can tell; a longer one is refused as a whole, never cut.
\<close>

theorem control_message_comes_back:
  assumes "aead_laws seal unseal"
  shows "control_open unseal key from_client (control_seal seal key sequence from_client kind payload)
    = (if length payload \<le> 65511 then Some (kind, payload) else None)"
proof -
  let ?inner = "le_bytes 2 kind @ le_bytes 2 (of_nat (length payload) :: u16) @ payload"
  let ?nonce = "control_nonce sequence from_client"
  obtain body tag where bt: "seal key ?nonce ?inner = (body, tag)"
    by (cases "seal key ?nonce ?inner")
  then have len: "length tag = 16" "length body = 4 + length payload" and opened: "unseal key ?nonce tag body = Some ?inner"
    using assms unfolding aead_laws_def by (metis snd_conv, metis (no_types) fst_conv length_append length_le_bytes
        add.assoc numeral_Bit0, metis)
  obtain o1 o2 where one: "le_bytes 2 (1 :: u16) = [o1, o2]" "of_le [o1, o2] = (1 :: u16)"
    using le2_pair by blast
  obtain l1 l2 where l: "le_bytes 2 (of_nat (4 + 16 + length body) :: u16) = [l1, l2]" "of_le [l1, l2] = (of_nat (4 + 16 + length body) :: u16)"
    using le2_pair by blast
  define total :: u16 where "total = of_nat (4 + 16 + length body)"
  define d where "d = [o1, o2, l1, l2] @ le_bytes 4 sequence @ tag @ body"
  have sealed: "control_seal seal key sequence from_client kind payload = d"
    unfolding control_seal_def Let_def bt prod.case one l by (simp add: d_def)
  have parts: "length d = 28 + length payload" "subslice d 4 8 = le_bytes 4 sequence" "subslice d 8 24 = tag" "drop 24 d = body"
    "[d ! 0, d ! 1] = [o1, o2]" "[d ! 2, d ! 3] = [l1, l2]"
    using len by (simp_all add: d_def subslice_def)
  have sq: "of_le (le_bytes 4 sequence) = sequence"
    by (rule of_le_le_bytes) simp
  have reading: "control_open unseal key from_client d = (if unat total + 4 \<noteq> length d then None
      else (let kind' = of_le [?inner ! 0, ?inner ! 1]; len = unat (of_le [?inner ! 2, ?inner ! 3] :: u16)
        in if 4 + len \<le> length ?inner then Some (kind', subslice ?inner 4 (4 + len)) else None))"
    unfolding control_open_def Let_def parts(2-6) one(2) l(2) sq opened total_def using parts(1) by simp
  obtain k1 k2 where k: "le_bytes 2 kind = [k1, k2]" "of_le [k1, k2] = kind"
    using le2_pair by blast
  obtain n1 n2 where n: "le_bytes 2 (of_nat (length payload) :: u16) = [n1, n2]" "of_le [n1, n2] = (of_nat (length payload) :: u16)"
    using le2_pair by blast
  show ?thesis
  proof (cases "length payload \<le> 65511")
    case True
    then have "unat total + 4 = length d"
      unfolding total_def using len parts(1) by (simp add: unat_u16 del: of_nat_add of_nat_numeral)
    then show ?thesis
      unfolding sealed reading using True k n by (simp add: Let_def subslice_def unat_u16)
  next
    case False
    have "unat total < 65536"
      using unsigned_less [of total, where ?'a = nat] by simp
    then have "unat total + 4 \<noteq> length d"
      using False parts(1) by linarith
    then show ?thesis
      unfolding sealed reading using False by simp
  qed
qed

theorem control_message_comes_back_witness:
  "control_open (\<lambda>_ _ tag body. if tag = replicate 16 0 then Some body else None) [1] True
     (control_seal (\<lambda>_ _ m. (m, replicate 16 0)) [1] 7 True 0x206 [5, 6]) = Some (0x206, [5, 6])"
proof -
  have "aead_laws (\<lambda>_ _ m. (m, replicate 16 0)) (\<lambda>_ _ tag body. if tag = replicate 16 0 then Some body else None)"
    unfolding aead_laws_def by auto
  from control_message_comes_back [OF this, of "[1]" True 7 "0x206" "[5, 6]"] show ?thesis
    by simp
qed

end
