(* ===== verification/Gs_Xml.thy ===== *)
theory Gs_Xml
  imports Identity Text_Numbers
begin

text \<open>
  GameStream's XML (\<open>gamestream/src/xml.rs\<close>): flat documents written and read by hand, with entities and
  hexadecimal values. A panic of the source is the outer \<open>None\<close>.
\<close>

section \<open>Searching\<close>

text \<open>What comes before the first occurrence of a text, and what after.\<close>

fun cut_at :: "rstr \<Rightarrow> rstr \<Rightarrow> (rstr \<times> rstr) option" where
  "cut_at p [] = (if p = [] then Some ([], []) else None)"
| "cut_at p (x # xs) =
     (if starts_with p (x # xs) then Some ([], drop (length p) (x # xs))
      else map_option (\<lambda>(a, b). (x # a, b)) (cut_at p xs))"

text \<open>\<open>str::replace\<close>, for a pattern that is not empty.\<close>

function str_replace :: "rstr \<Rightarrow> rstr \<Rightarrow> rstr \<Rightarrow> rstr" where
  "str_replace p r [] = []"
| "str_replace p r (x # xs) =
     (if p \<noteq> [] \<and> starts_with p (x # xs) then r @ str_replace p r (drop (length p) (x # xs)) else x # str_replace p r xs)"
  by pat_completeness auto
termination
  by (relation "measure (\<lambda>(p, r, s). length s)") auto

section \<open>Entities\<close>

definition xml_escape :: "rstr \<Rightarrow> rstr" where
  "xml_escape s =
     str_replace [39] (lit ''&apos;'') (str_replace [34] (lit ''&quot;'') (str_replace [62] (lit ''&gt;'')
       (str_replace [60] (lit ''&lt;'') (str_replace [38] (lit ''&amp;'') s))))"

definition xml_unescape :: "rstr \<Rightarrow> rstr" where
  "xml_unescape s =
     str_replace (lit ''&amp;'') [38] (str_replace (lit ''&apos;'') [39] (str_replace (lit ''&quot;'') [34]
       (str_replace (lit ''&gt;'') [62] (str_replace (lit ''&lt;'') [60] s))))"

section \<open>Reading\<close>

definition open_tag :: "rstr \<Rightarrow> rstr" where "open_tag name = [60] @ name @ [62]"
definition close_tag :: "rstr \<Rightarrow> rstr" where "close_tag name = [60, 47] @ name @ [62]"

definition xml_text :: "rstr \<Rightarrow> rstr \<Rightarrow> rstr option" where
  "xml_text xml name =
     (case cut_at (open_tag name) xml of
        None \<Rightarrow> None
      | Some (_, r) \<Rightarrow> (case cut_at (close_tag name) r of None \<Rightarrow> None | Some (inner, _) \<Rightarrow> Some (xml_unescape (trim inner))))"

lemma two_bytes_shorter: "two_bytes s = Some (d, rest) \<Longrightarrow> length rest < length s"
  by (cases s) (auto split: if_splits list.splits)

function hex_pairs :: "rstr \<Rightarrow> bytes option option" where
  "hex_pairs s =
     (if s = [] then Some (Some [])
      else case two_bytes s of
          None \<Rightarrow> None
        | Some (digits, rest) \<Rightarrow>
            (case radix16_u8 digits of
               None \<Rightarrow> Some None
             | Some b \<Rightarrow> map_option (map_option ((#) b)) (hex_pairs rest)))"
  by pat_completeness auto
termination
  by (relation "measure length") (auto dest: two_bytes_shorter)

declare hex_pairs.simps [simp del]

definition decode_hex :: "rstr \<Rightarrow> bytes option option" where
  "decode_hex s = (let s = trim s in if utf8_len s mod 2 \<noteq> 0 then Some None else hex_pairs s)"

definition encode_hex :: "bytes \<Rightarrow> rstr" where
  "encode_hex bs = concat (map hex2 bs)"

definition xml_hex :: "rstr \<Rightarrow> rstr \<Rightarrow> bytes option option" where
  "xml_hex xml name = (case xml_text xml name of None \<Rightarrow> Some None | Some s \<Rightarrow> decode_hex s)"

function xml_blocks :: "rstr \<Rightarrow> rstr \<Rightarrow> rstr list" where
  "xml_blocks xml name =
     (case cut_at (open_tag name) xml of
        None \<Rightarrow> []
      | Some (_, inner) \<Rightarrow>
          (case cut_at (close_tag name) inner of
             None \<Rightarrow> []
           | Some (block, rest) \<Rightarrow> block # (if length rest < length xml then xml_blocks rest name else [])))"
  by pat_completeness auto
termination
  by (relation "measure (\<lambda>(xml, name). length xml)") auto

declare xml_blocks.simps [simp del]

text \<open>A signed number, \<open>str::parse\<close> of an \<open>i64\<close>.\<close>

definition parse_i64 :: "rstr \<Rightarrow> int option" where
  "parse_i64 s =
     (case s of
        c # cs \<Rightarrow> if c = 45 then (if take 1 cs = [43] then None else map_option (\<lambda>n. - int n) (parse_unsigned (2 ^ 63) cs))
          else map_option int (parse_unsigned (2 ^ 63 - 1) s)
      | [] \<Rightarrow> None)"

definition xml_attribute :: "rstr \<Rightarrow> rstr \<Rightarrow> rstr option" where
  "xml_attribute xml name =
     (case cut_at (lit ''<root'') xml of
        None \<Rightarrow> None
      | Some (_, r) \<Rightarrow>
          (case cut_at [62] (lit ''<root'' @ r) of
             None \<Rightarrow> None
           | Some (root, _) \<Rightarrow>
               (case cut_at (name @ [61, 34]) root of
                  None \<Rightarrow> None
                | Some (_, v) \<Rightarrow> (case cut_at [34] v of None \<Rightarrow> None | Some (v, _) \<Rightarrow> Some (xml_unescape v)))))"

definition xml_status :: "rstr \<Rightarrow> int option \<times> rstr option" where
  "xml_status xml =
     (case xml_attribute xml (lit ''status_code'') of None \<Rightarrow> None | Some c \<Rightarrow> parse_i64 c,
      xml_attribute xml (lit ''status_message''))"

definition xml_ok :: "rstr \<Rightarrow> (int \<times> rstr) + unit" where
  "xml_ok xml =
     (case xml_status xml of
        (Some c, message) \<Rightarrow> if c = 200 then Inr () else Inl (c, case message of None \<Rightarrow> [] | Some s \<Rightarrow> s)
      | (None, message) \<Rightarrow> Inl (0, case message of None \<Rightarrow> [] | Some s \<Rightarrow> s))"

section \<open>Writing\<close>

definition xml_element :: "rstr \<times> rstr \<Rightarrow> rstr" where
  "xml_element = (\<lambda>(name, v). open_tag name @ xml_escape v @ close_tag name)"

definition xml_head :: "nat \<Rightarrow> rstr option \<Rightarrow> rstr" where
  "xml_head status_code message =
     lit ''<?xml version=\"1.0\" encoding=\"utf-8\"?>'' @ [10] @ lit ''<root status_code=\"'' @ decimal status_code @ [34]
       @ (case message of None \<Rightarrow> [] | Some s \<Rightarrow> lit '' status_message=\"'' @ xml_escape s @ [34]) @ [62]"

definition xml_response :: "nat \<Rightarrow> rstr option \<Rightarrow> (rstr \<times> rstr) list \<Rightarrow> rstr" where
  "xml_response status_code message elements =
     xml_head status_code message @ concat (map xml_element elements) @ lit ''</root>''"

section \<open>Entities come back\<close>

text \<open>
  Escaped text is a list of tokens: characters other than \<open>&\<close>, and entities, which start with \<open>&\<close> and end at their
  first semicolon. Replacing one entity replaces that token.
\<close>

definition entity :: "rstr \<Rightarrow> bool" where
  "entity t = (\<exists>w. t = 38 # w @ [59] \<and> 38 \<notin> set w \<and> 59 \<notin> set w)"

definition token :: "rstr \<Rightarrow> bool" where
  "token t = ((\<exists>c. t = [c] \<and> c \<noteq> 38) \<or> entity t)"

lemma entity_prefix:
  assumes "entity p" "entity t" "starts_with p (t @ rest)"
  shows "p = t"
proof -
  obtain v w where p: "p = 38 # v @ [59]" "59 \<notin> set v" and t: "t = 38 # w @ [59]" "59 \<notin> set w"
    using assms by (auto simp: entity_def)
  have "v @ 59 # drop (length p) (t @ rest) = w @ 59 # rest"
    using assms(3) p(1) t(1) append_take_drop_id [of "length p" "t @ rest"] by (simp add: starts_with_def)
  then have "split_once 59 (v @ 59 # drop (length p) (t @ rest)) = split_once 59 (w @ 59 # rest)"
    by simp
  then have "v = w"
    unfolding split_once_append [OF p(2)] split_once_append [OF t(2)] by simp
  then show ?thesis
    by (simp add: p t)
qed

lemma replace_skip: "p \<noteq> [] \<Longrightarrow> hd p \<notin> set a \<Longrightarrow> str_replace p r (a @ s) = a @ str_replace p r s"
  by (induction a) (cases p; simp add: starts_with_def)+

lemma replace_here: "p \<noteq> [] \<Longrightarrow> str_replace p r (p @ s) = r @ str_replace p r s"
  by (cases p) (simp_all add: starts_with_def)

lemma replace_tokens:
  assumes "entity p" "list_all token ts"
  shows "str_replace p r (concat ts) = concat (map (\<lambda>t. if t = p then r else t) ts)"
  using assms(2)
proof (induction ts)
  case (Cons t ts)
  have p: "p \<noteq> []" "hd p = 38"
    using assms(1) by (auto simp: entity_def)
  consider c where "t = [c]" "c \<noteq> 38" | "entity t"
    using Cons.prems by (auto simp: token_def)
  then show ?case
  proof cases
    case 1
    then have "str_replace p r (t @ concat ts) = t @ str_replace p r (concat ts)"
      using p by (intro replace_skip) auto
    moreover have "t \<noteq> p"
      using 1 p by auto
    ultimately show ?thesis
      using Cons by simp
  next
    case 2
    then obtain w where w: "t = 38 # w @ [59]" "38 \<notin> set w"
      by (auto simp: entity_def)
    show ?thesis
    proof (cases "t = p")
      case True
      then show ?thesis
        using Cons replace_here [OF p(1)] by simp
    next
      case False
      then have no: "\<not> starts_with p (38 # w @ 59 # concat ts)"
        using entity_prefix [OF assms(1) 2, of "concat ts"] by (auto simp: w)
      have "str_replace p r ((w @ [59]) @ concat ts) = (w @ [59]) @ str_replace p r (concat ts)"
        using p w(2) by (intro replace_skip) auto
      then show ?thesis
        using no False Cons by (simp add: w)
    qed
  qed
qed simp

definition escape_char :: "nat \<Rightarrow> rstr" where
  "escape_char c =
     (if c = 38 then lit ''&amp;'' else if c = 60 then lit ''&lt;'' else if c = 62 then lit ''&gt;''
      else if c = 34 then lit ''&quot;'' else if c = 39 then lit ''&apos;'' else [c])"

lemma replace_char: "str_replace [c] r s = concat (map (\<lambda>x. if x = c then r else [x]) s)"
  by (induction s) (auto simp: starts_with_def)

lemma escape_append: "xml_escape (a @ b) = xml_escape a @ xml_escape b"
  by (simp only: xml_escape_def replace_char map_append concat_append)

lemma escape_one: "xml_escape [c] = escape_char c"
  by (simp only: xml_escape_def replace_char) (simp add: escape_char_def)

lemma escape_chars: "xml_escape s = concat (map escape_char s)"
proof (induction s)
  case (Cons c s)
  then show ?case
    using escape_append [of "[c]" s] escape_one [of c] by simp
qed (simp add: xml_escape_def)

lemma entityI: "38 \<notin> set w \<Longrightarrow> 59 \<notin> set w \<Longrightarrow> entity (38 # w @ [59])"
  by (auto simp: entity_def)

lemma entities:
  "entity (lit ''&lt;'')" "entity (lit ''&gt;'')" "entity (lit ''&quot;'')" "entity (lit ''&apos;'')" "entity (lit ''&amp;'')"
  using entityI [of "lit ''lt''"] entityI [of "lit ''gt''"] entityI [of "lit ''quot''"] entityI [of "lit ''apos''"] entityI [of "lit ''amp''"]
  by simp_all

lemma token_escape_char: "token (escape_char c)"
  using entities by (auto simp: token_def escape_char_def)

lemma tokens_replaced: "list_all token ts \<Longrightarrow> c \<noteq> 38 \<Longrightarrow> list_all token (map (\<lambda>t. if t = p then [c] else t) ts)"
  by (auto simp: list_all_iff token_def)

lemma unescape_escape: "xml_unescape (xml_escape s) = s"
proof -
  define r where "r p c = (\<lambda>t :: rstr. if t = p then [c] else t)" for p :: rstr and c :: nat
  have step: "str_replace p [c] (concat ts) = concat (map (r p c) ts)" if "entity p" "list_all token ts" for p c ts
    using replace_tokens [OF that] by (simp add: r_def)
  have keep: "list_all token (map (r p c) ts)" if "list_all token ts" "c \<noteq> 38" for p c ts
    using tokens_replaced [OF that] by (simp add: r_def)
  define t0 where "t0 = map escape_char s"
  define t1 where "t1 = map (r (lit ''&lt;'') 60) t0"
  define t2 where "t2 = map (r (lit ''&gt;'') 62) t1"
  define t3 where "t3 = map (r (lit ''&quot;'') 34) t2"
  define t4 where "t4 = map (r (lit ''&apos;'') 39) t3"
  have tok0: "list_all token t0"
    by (simp add: t0_def list_all_iff token_escape_char)
  have tok1: "list_all token t1"
    unfolding t1_def by (rule keep [OF tok0]) simp
  have tok2: "list_all token t2"
    unfolding t2_def by (rule keep [OF tok1]) simp
  have tok3: "list_all token t3"
    unfolding t3_def by (rule keep [OF tok2]) simp
  have tok4: "list_all token t4"
    unfolding t4_def by (rule keep [OF tok3]) simp
  note tok = tok0 tok1 tok2 tok3 tok4
  have "xml_unescape (xml_escape s) = concat (map (r (lit ''&amp;'') 38) t4)"
    unfolding xml_unescape_def escape_chars t0_def [symmetric]
    by (simp only: step entities tok flip: t1_def t2_def t3_def t4_def)
  also have "\<dots> = concat (map (\<lambda>c. [c]) s)"
    unfolding t4_def t3_def t2_def t1_def t0_def map_map comp_def
    by (intro arg_cong [where f = concat] map_cong refl) (simp add: r_def escape_char_def)
  finally show ?thesis
    by simp
qed

text \<open>The value of an element is found again when no earlier tag and no part of the head reads as its name.\<close>

lemma cut_skip: "p \<noteq> [] \<Longrightarrow> hd p \<notin> set a \<Longrightarrow> cut_at p (a @ s) = map_option (\<lambda>(x, y). (a @ x, y)) (cut_at p s)"
proof (induction a)
  case Nil
  then show ?case
    by (cases "cut_at p s") auto
next
  case (Cons c a)
  have "\<not> starts_with p ((c # a) @ s)"
    using Cons.prems by (cases p) (auto simp: starts_with_def)
  then show ?case
    using Cons by (cases "cut_at p s") auto
qed

lemma cut_here: "p \<noteq> [] \<Longrightarrow> cut_at p (p @ s) = Some ([], s)"
  by (cases p) (simp_all add: starts_with_def)

lemma escape_no_lt: "60 \<notin> set (xml_escape s)"
  by (auto simp: escape_chars escape_char_def split: if_splits)

definition alphanumeric :: "nat \<Rightarrow> bool" where
  "alphanumeric c = (48 \<le> c \<and> c \<le> 57 \<or> 65 \<le> c \<and> c \<le> 90 \<or> 97 \<le> c \<and> c \<le> 122)"

definition plain_name :: "rstr \<Rightarrow> bool" where
  "plain_name name = (name \<noteq> [] \<and> list_all alphanumeric name)"

lemma plain_name_chars: "plain_name name \<Longrightarrow> name \<noteq> [] \<and> 60 \<notin> set name \<and> 62 \<notin> set name \<and> 47 \<notin> set name"
  by (auto simp: plain_name_def list_all_iff alphanumeric_def)

lemma tag_differs:
  assumes "plain_name name" "plain_name other" "other \<noteq> name"
  shows "\<not> starts_with (open_tag name) (open_tag other @ s)" "\<not> starts_with (open_tag name) (close_tag other @ s)"
proof -
  show "\<not> starts_with (open_tag name) (open_tag other @ s)"
  proof
    assume "starts_with (open_tag name) (open_tag other @ s)"
    then have "name @ 62 # drop (length (open_tag name)) (open_tag other @ s) = other @ 62 # s"
      using append_take_drop_id [of "length (open_tag name)" "open_tag other @ s"] by (simp add: starts_with_def open_tag_def)
    then have "split_once 62 (name @ 62 # drop (length (open_tag name)) (open_tag other @ s)) = split_once 62 (other @ 62 # s)"
      by simp
    then show False
      using assms plain_name_chars [OF assms(1)] plain_name_chars [OF assms(2)] by (simp add: split_once_append)
  qed
  show "\<not> starts_with (open_tag name) (close_tag other @ s)"
    using plain_name_chars [OF assms(1)] by (cases name) (auto simp: starts_with_def open_tag_def close_tag_def)
qed

lemma cut_tag:
  assumes "plain_name name" "plain_name other" "other \<noteq> name"
  shows "cut_at (open_tag name) (xml_element (other, v) @ s) = map_option (\<lambda>(x, y). (xml_element (other, v) @ x, y)) (cut_at (open_tag name) s)"
proof -
  have p: "open_tag name \<noteq> []" "hd (open_tag name) = 60"
    by (simp_all add: open_tag_def)
  have other: "60 \<notin> set (other @ [62])" "60 \<notin> set ([47] @ other @ [62])"
    using plain_name_chars [OF assms(2)] by simp_all
  have step: "cut_at (open_tag name) (60 # a @ r) = map_option (\<lambda>(x, y). (60 # a @ x, y)) (cut_at (open_tag name) r)"
    if "\<not> starts_with (open_tag name) (60 # a @ r)" "60 \<notin> set a" for a r
    using that cut_skip [of "open_tag name" a r] p by (cases "cut_at (open_tag name) r") auto
  let ?c = "cut_at (open_tag name) s"
  have one: "cut_at (open_tag name) (close_tag other @ s) = map_option (\<lambda>(x, y). (close_tag other @ x, y)) ?c"
    using step [of "[47] @ other @ [62]" s] other(2) tag_differs(2) [OF assms, of s] by (simp add: close_tag_def)
  have "60 \<notin> set ((other @ [62]) @ xml_escape v)"
    using other(1) escape_no_lt by simp
  then have "cut_at (open_tag name) (60 # ((other @ [62]) @ xml_escape v) @ close_tag other @ s)
      = map_option (\<lambda>(x, y). (60 # ((other @ [62]) @ xml_escape v) @ x, y)) (cut_at (open_tag name) (close_tag other @ s))"
    using tag_differs(1) [OF assms, of "xml_escape v @ close_tag other @ s"] by (intro step) (simp_all add: open_tag_def)
  then show ?thesis
    unfolding one by (cases ?c) (auto simp: xml_element_def open_tag_def)
qed

lemma xml_text_element:
  assumes "plain_name name"
  shows "xml_text (xml_element (name, v) @ s) name = Some (xml_unescape (trim (xml_escape v)))"
proof -
  have "cut_at (close_tag name) (xml_escape v @ close_tag name @ s) = Some (xml_escape v, s)"
    using escape_no_lt by (subst cut_skip) (simp_all add: close_tag_def cut_here [of "[60, 47] @ name @ [62]", simplified])
  moreover have "cut_at (open_tag name) (open_tag name @ xml_escape v @ close_tag name @ s) = Some ([], xml_escape v @ close_tag name @ s)"
    by (rule cut_here) (simp add: open_tag_def)
  ultimately show ?thesis
    by (simp add: xml_text_def xml_element_def)
qed

lemma trim_id_iff: "trim s = s \<longleftrightarrow> s = [] \<or> \<not> is_whitespace (hd s) \<and> \<not> is_whitespace (last s)"
proof (cases s)
  case (Cons c cs)
  note drop = dropWhile_eq_self_iff [of is_whitespace]
  have len: "length (dropWhile is_whitespace xs) \<le> length xs" for xs
    by (rule length_dropWhile_le)
  show ?thesis
  proof
    assume "trim s = s"
    then have "length (dropWhile is_whitespace (rev (dropWhile is_whitespace s))) = length s"
      unfolding trim_def trim_matches_def by (metis length_rev)
    then have "length (dropWhile is_whitespace s) = length s"
      using len [of "rev (dropWhile is_whitespace s)"] len [of s] by simp
    moreover have "length (takeWhile is_whitespace s) + length (dropWhile is_whitespace s) = length s"
      by (metis length_append takeWhile_dropWhile_id)
    ultimately have "takeWhile is_whitespace s = []"
      by simp
    then have first: "dropWhile is_whitespace s = s"
      by (metis append_Nil takeWhile_dropWhile_id)
    then have "dropWhile is_whitespace (rev s) = rev s"
      using \<open>trim s = s\<close> by (simp add: trim_def trim_matches_def) (metis rev_swap)
    then show "s = [] \<or> \<not> is_whitespace (hd s) \<and> \<not> is_whitespace (last s)"
      using first drop [of s] drop [of "rev s"] hd_rev [of s] by (cases "s = []") auto
  next
    assume "s = [] \<or> \<not> is_whitespace (hd s) \<and> \<not> is_whitespace (last s)"
    then have "dropWhile is_whitespace s = s" "dropWhile is_whitespace (rev s) = rev s"
      using drop [of s] drop [of "rev s"] hd_rev [of s] by (cases "s = []"; auto)+
    then show "trim s = s"
      by (simp add: trim_def trim_matches_def)
  qed
qed (simp add: trim_def trim_matches_def)

lemma escape_char_ends: "escape_char c \<noteq> [] \<and> is_whitespace (hd (escape_char c)) = is_whitespace c \<and> is_whitespace (last (escape_char c)) = is_whitespace c"
  by (simp add: escape_char_def is_whitespace_def)

lemma trim_escape:
  assumes "trim v = v"
  shows "trim (xml_escape v) = xml_escape v"
proof (cases v rule: rev_cases)
  case (snoc ys y)
  have "hd (xml_escape v) = hd (escape_char (hd v))"
    using escape_char_ends by (cases v) (auto simp: escape_chars snoc)
  moreover have "last (xml_escape v) = last (escape_char y)"
    using escape_char_ends [of y] by (simp add: escape_chars snoc)
  ultimately show ?thesis
    using assms escape_char_ends by (simp add: trim_id_iff snoc)
qed (simp add: escape_chars trim_def trim_matches_def)

lemma head_has_no_tag:
  assumes "plain_name name"
  shows "cut_at (open_tag name) (xml_head code message @ s) = map_option (\<lambda>(x, y). (xml_head code message @ x, y)) (cut_at (open_tag name) s)"
proof -
  define a where "a = lit ''?xml version=\"1.0\" encoding=\"utf-8\"?>'' @ [10]"
  define b where "b = lit ''root status_code=\"'' @ decimal code @ [34]
       @ (case message of None \<Rightarrow> [] | Some s \<Rightarrow> lit '' status_message=\"'' @ xml_escape s @ [34]) @ [62]"
  have head: "xml_head code message = 60 # a @ 60 # b"
    by (simp add: xml_head_def a_def b_def)
  have "60 \<notin> set (decimal code)"
    using decimal_digits [of 60 code] by (auto simp: is_ascii_digit_def)
  then have no: "60 \<notin> set a" "60 \<notin> set b"
    using escape_no_lt by (auto simp: a_def b_def split: option.splits)
  have name: "list_all alphanumeric name" "name \<noteq> []"
    using assms by (simp_all add: plain_name_def)
  have upto: "takeWhile alphanumeric (name @ 62 # x) = name" for x
    using name(1) by (simp add: takeWhile_append list_all_iff alphanumeric_def)
  have skip: "cut_at (open_tag name) (60 # x @ r) = map_option (\<lambda>(u, v). (60 # x @ u, v)) (cut_at (open_tag name) r)"
    if "\<not> starts_with (open_tag name) (60 # x @ r)" "60 \<notin> set x" for x r
    using that cut_skip [of "open_tag name" x r] by (cases "cut_at (open_tag name) r") (auto simp: open_tag_def)
  have prefix: "\<exists>z. x = name @ 62 # z" if "starts_with (open_tag name) (60 # x)" for x
    using that append_take_drop_id [of "length (open_tag name)" "60 # x"]
    by (intro exI [of _ "drop (Suc (length name)) x"]) (simp add: starts_with_def open_tag_def)
  have "\<not> starts_with (open_tag name) (60 # a @ r)" for r
  proof
    assume "starts_with (open_tag name) (60 # a @ r)"
    then obtain z where z: "a @ r = name @ 62 # z"
      using prefix by blast
    then have "hd (name @ 62 # z) = 63"
      by (simp add: a_def flip: z)
    then show False
      using name by (cases name) (auto simp: alphanumeric_def)
  qed
  moreover have "\<not> starts_with (open_tag name) (60 # b @ r)" for r
  proof
    assume "starts_with (open_tag name) (60 # b @ r)"
    then obtain z where z: "b @ r = name @ 62 # z"
      using prefix by blast
    have "takeWhile alphanumeric (b @ r) = lit ''root''"
      by (simp add: b_def alphanumeric_def)
    then have "name = lit ''root''"
      using upto [of z] by (simp add: z)
    then show False
      using z by (simp add: b_def)
  qed
  ultimately have "cut_at (open_tag name) (60 # a @ 60 # b @ s) = map_option (\<lambda>(u, v). (60 # a @ u, v)) (cut_at (open_tag name) (60 # b @ s))"
    "cut_at (open_tag name) (60 # b @ s) = map_option (\<lambda>(u, v). (60 # b @ u, v)) (cut_at (open_tag name) s)"
    using no by (intro skip; simp)+
  moreover have "xml_head code message @ s = 60 # a @ 60 # b @ s"
    by (simp add: head)
  ultimately show ?thesis
    by (cases "cut_at (open_tag name) s") (auto simp only: head append_Cons append_assoc option.map prod.case)
qed

lemma cut_elements:
  assumes "plain_name name" "list_all (\<lambda>(other, _). plain_name other \<and> other \<noteq> name) els"
  shows "cut_at (open_tag name) (concat (map xml_element els) @ s)
    = map_option (\<lambda>(x, y). (concat (map xml_element els) @ x, y)) (cut_at (open_tag name) s)"
  using assms(2)
proof (induction els)
  case Nil
  then show ?case
    by (cases "cut_at (open_tag name) s") auto
next
  case (Cons e els)
  obtain other v where e: "e = (other, v)"
    by (cases e)
  show ?case
    using Cons cut_tag [OF assms(1), of other v "concat (map xml_element els) @ s"]
    by (cases "cut_at (open_tag name) s") (auto simp: e)
qed

text \<open>What \<open>response\<close> writes under a name is what \<open>text\<close> reads there.\<close>

lemma xml_text_of_response:
  assumes "plain_name name" "list_all (\<lambda>(other, _). plain_name other \<and> other \<noteq> name) before" "trim v = v"
  shows "xml_text (xml_response code message (before @ (name, v) # after)) name = Some v"
proof -
  let ?rest = "concat (map xml_element after) @ lit ''</root>''"
  have x: "xml_response code message (before @ (name, v) # after)
      = xml_head code message @ concat (map xml_element before) @ xml_element (name, v) @ ?rest"
    by (simp add: xml_response_def)
  obtain a r where cut: "cut_at (open_tag name) (xml_element (name, v) @ ?rest) = Some (a, r)"
    using cut_here [of "open_tag name" "xml_escape v @ close_tag name @ ?rest"] by (simp add: xml_element_def open_tag_def)
  have "cut_at (open_tag name) (xml_response code message (before @ (name, v) # after))
      = Some (xml_head code message @ concat (map xml_element before) @ a, r)"
    unfolding x head_has_no_tag [OF assms(1)] cut_elements [OF assms(1,2)] cut by simp
  then have "xml_text (xml_response code message (before @ (name, v) # after)) name = xml_text (xml_element (name, v) @ ?rest) name"
    unfolding xml_text_def cut by simp
  also have "\<dots> = Some v"
    by (simp add: xml_text_element [OF assms(1)] trim_escape [OF assms(3)] unescape_escape)
  finally show ?thesis .
qed

text \<open>The status of a document.\<close>

lemma escape_plain: "list_all (\<lambda>c. escape_char c = [c]) s \<Longrightarrow> xml_escape s = s"
  by (induction s) (auto simp: escape_chars)

lemma unescape_plain: "list_all (\<lambda>c. escape_char c = [c]) s \<Longrightarrow> xml_unescape s = s"
  using unescape_escape [of s] by (simp add: escape_plain)

lemma decimal_plain: "xml_unescape (decimal n) = decimal n" "c \<in> set (decimal n) \<Longrightarrow> 48 \<le> c \<and> c \<le> 57"
proof -
  show digit: "c \<in> set (decimal n) \<Longrightarrow> 48 \<le> c \<and> c \<le> 57" for c
    using decimal_digits [of c n] by (simp add: is_ascii_digit_def)
  then show "xml_unescape (decimal n) = decimal n"
    by (intro unescape_plain) (auto simp: list_all_iff escape_char_def dest: digit)
qed

lemma escape_no: "62 \<notin> set (xml_escape s)" "34 \<notin> set (xml_escape s)"
  by (auto simp: escape_chars escape_char_def split: if_splits)

lemma xml_status_of_head:
  assumes "code < 2 ^ 63"
  shows "xml_status (xml_head code message @ rest) = (Some (int code), message)"
proof -
  define m where "m = (case message of None \<Rightarrow> [] | Some s \<Rightarrow> lit '' status_message=\"'' @ xml_escape s @ [34])"
  define r where "r = lit '' status_code=\"'' @ decimal code @ [34] @ m"
  have m: "62 \<notin> set m"
    using escape_no(1) by (auto simp: m_def split: option.split)
  have digits: "c \<notin> set (decimal code)" if "c < 48 \<or> 57 < c" for c
    using decimal_plain(2) [of c code] that by auto
  have x: "xml_head code message @ rest = lit ''<?xml version=\"1.0\" encoding=\"utf-8\"?>'' @ [10] @ lit ''<root'' @ r @ [62] @ rest"
    by (simp add: xml_head_def r_def m_def)
  have root: "\<exists>a. cut_at (lit ''<root'') (xml_head code message @ rest) = Some (a, r @ [62] @ rest)"
    unfolding x by (simp add: starts_with_def)
  have "62 \<notin> set (lit ''<root'' @ r)"
    using m digits [of 62] by (simp add: r_def)
  then have "cut_at [62] ((lit ''<root'' @ r) @ [62] @ rest) = Some (lit ''<root'' @ r, rest)"
    by (subst cut_skip) (simp_all add: starts_with_def)
  then have tag: "cut_at [62] (lit ''<root'' @ r @ [62] @ rest) = Some (lit ''<root'' @ r, rest)"
    by simp
  have attr: "xml_attribute (xml_head code message @ rest) name
      = (case cut_at (name @ [61, 34]) (lit ''<root'' @ r) of None \<Rightarrow> None
         | Some (_, v) \<Rightarrow> (case cut_at [34] v of None \<Rightarrow> None | Some (v, _) \<Rightarrow> Some (xml_unescape v)))" for name
    using root tag by (auto simp: xml_attribute_def)
  have "cut_at (lit ''status_code'' @ [61, 34]) (lit ''<root'' @ r) = Some (lit ''<root '', decimal code @ [34] @ m)"
    by (simp add: r_def starts_with_def)
  moreover have "cut_at [34] (decimal code @ [34] @ m) = Some (decimal code, m)"
    using digits [of 34] by (subst cut_skip) (simp_all add: starts_with_def)
  ultimately have code: "xml_attribute (xml_head code message @ rest) (lit ''status_code'') = Some (decimal code)"
    by (simp only: attr option.case prod.case decimal_plain)
  obtain d ds where dec: "decimal code = d # ds"
    by (cases "decimal code") simp_all
  then have "d \<noteq> 45"
    using digits [of 45] by auto
  then have parsed: "parse_i64 (decimal code) = Some (int code)"
    using assms parse_decimal [of "2 ^ 63 - 1" code] by (simp add: parse_i64_def dec)
  let ?p = "lit ''status_message'' @ [61, 34]"
  have literal: "cut_at ?p (lit ''<root status_code=\"'' @ s) = map_option (\<lambda>(a, b). (lit ''<root status_code=\"'' @ a, b)) (cut_at ?p s)" for s
    by (cases "cut_at ?p s") (auto simp: starts_with_def)
  have after: "cut_at ?p (decimal code @ [34] @ m) = map_option (\<lambda>(a, b). ((decimal code @ [34]) @ a, b)) (cut_at ?p m)"
    using digits [of 115] cut_skip [of ?p "decimal code @ [34]" m] by simp
  have "xml_attribute (xml_head code message @ rest) (lit ''status_message'') = message"
  proof (cases message)
    case None
    then have "cut_at ?p (lit ''<root'' @ r) = None"
      using literal [of "decimal code @ [34] @ m"] after by (simp add: r_def m_def)
    then show ?thesis
      unfolding attr by (simp only: option.case None)
  next
    case (Some s)
    have "cut_at ?p m = Some ([32], xml_escape s @ [34])"
      by (simp add: m_def Some starts_with_def)
    then have "\<exists>a. cut_at ?p (lit ''<root'' @ r) = Some (a, xml_escape s @ [34])"
      using literal [of "decimal code @ [34] @ m"] after by (simp add: r_def)
    moreover have "cut_at [34] (xml_escape s @ [34]) = Some (xml_escape s, [])"
      using escape_no(2) [of s] by (subst cut_skip) (simp_all add: starts_with_def)
    ultimately show ?thesis
      unfolding attr by (auto simp: unescape_escape Some)
  qed
  with code parsed show ?thesis
    by (simp add: xml_status_def)
qed

lemma xml_status_of_response: "code < 2 ^ 63 \<Longrightarrow> xml_status (xml_response code message els) = (Some (int code), message)"
  unfolding xml_response_def by (rule xml_status_of_head)

text \<open>
  A document the host writes says to its reader what was written: the status, the message, and under each
  plain name the first value written there, whatever characters message and values hold, when the value has no
  space at its ends.
\<close>

theorem xml_document_comes_back:
  assumes "code < 2 ^ 63" "plain_name name" "list_all (\<lambda>(other, _). plain_name other \<and> other \<noteq> name) before" "trim v = v"
  shows "xml_status (xml_response code message (before @ (name, v) # after)) = (Some (int code), message)
    \<and> xml_text (xml_response code message (before @ (name, v) # after)) name = Some v"
  using xml_status_of_response [OF assms(1)] xml_text_of_response [OF assms(2-4)] by simp

lemma xml_document_comes_back_witness:
  "xml_text (xml_response 400 (Some (lit ''a<b'')) ([(lit ''paired'', lit ''1'')] @ (lit ''hostname'', lit ''PC & co'') # [])) (lit ''hostname'') = Some (lit ''PC & co'')"
  using xml_document_comes_back [of 400 "lit ''hostname''" "[(lit ''paired'', lit ''1'')]" "lit ''PC & co''" "Some (lit ''a<b'')" "[]"]
  by (simp add: plain_name_def alphanumeric_def trim_def trim_matches_def is_whitespace_def)

section \<open>Hexadecimal values\<close>

lemma hex_pairs_encode: "hex_pairs (encode_hex bs) = Some (Some bs)"
proof (induction bs)
  case Nil
  then show ?case
    by (simp add: encode_hex_def hex_pairs.simps)
next
  case (Cons b bs)
  obtain x y where h: "hex2 b = [x, y]"
    by (simp add: hex2_def)
  then have "encode_hex (b # bs) \<noteq> []"
    by (simp add: encode_hex_def)
  have two: "two_bytes (encode_hex (b # bs)) = Some (hex2 b, encode_hex bs)"
    using h hex2_ascii [of x b] hex2_ascii [of y b] by (simp add: encode_hex_def utf8_len_char_def)
  then show ?case
    using \<open>encode_hex (b # bs) \<noteq> []\<close>
    by (subst hex_pairs.simps) (simp only: two if_False option.case prod.case radix16_u8_hex2 Cons.IH option.map)
qed

lemma encode_hex_ends: "c \<in> set (encode_hex bs) \<Longrightarrow> c < 128 \<and> \<not> is_whitespace c"
proof -
  have "c \<in> set (hex2 b) \<Longrightarrow> c < 128 \<and> 48 \<le> c" for b
    using hex2_ascii [of c b] by (auto simp: hex2_def hex_digit_def split: if_splits)
  then show "c \<in> set (encode_hex bs) \<Longrightarrow> c < 128 \<and> \<not> is_whitespace c"
    by (force simp: encode_hex_def is_whitespace_def)
qed

lemma trim_encode_hex: "trim (encode_hex bs) = encode_hex bs"
  unfolding trim_id_iff using encode_hex_ends [of _ bs] by (cases "encode_hex bs = []") auto

lemma decode_encode_hex [simp]: "decode_hex (encode_hex bs) = Some (Some bs)"
proof -
  have "utf8_len (encode_hex bs) = length (encode_hex bs)"
    using encode_hex_ends by (intro utf8_len_ascii) blast
  also have "\<dots> = 2 * length bs"
    by (induction bs) (simp_all add: encode_hex_def)
  finally show ?thesis
    by (simp add: decode_hex_def trim_encode_hex hex_pairs_encode)
qed

text \<open>A value with a character of two bytes between two others makes the reader panic.\<close>

lemma decode_hex_panics: "decode_hex (lit ''a'' @ [233] @ lit ''b'') = None"
  by (simp add: decode_hex_def trim_def trim_matches_def is_whitespace_def utf8_len_def utf8_len_char_def hex_pairs.simps)

end
