(* ===== verification/Gs_Rtsp.thy ===== *)
theory Gs_Rtsp
  imports Utf8 Text_Numbers
begin

text \<open>
  GameStream's RTSP (\<open>gamestream/src/rtsp.rs\<close>): messages and their text, and the reading of a request from a
  connection that gives its bytes in pieces.
\<close>

section \<open>Messages\<close>

definition MAX_MESSAGE :: nat where "MAX_MESSAGE = 64 * 1024"

record rtsp_message =
  rm_command :: rstr
  rm_target :: rstr
  rm_status :: nat
  rm_reason :: rstr
  rm_options :: "(rstr \<times> rstr) list"
  rm_payload :: bytes

definition rtsp_default :: rtsp_message where
  "rtsp_default = \<lparr>rm_command = [], rm_target = [], rm_status = 0, rm_reason = [], rm_options = [], rm_payload = []\<rparr>"

definition rtsp_request :: "rstr \<Rightarrow> rstr \<Rightarrow> rtsp_message" where
  "rtsp_request command target = rtsp_default\<lparr>rm_command := command, rm_target := target\<rparr>"

definition rtsp_response :: "nat \<Rightarrow> rstr \<Rightarrow> rstr option \<Rightarrow> rtsp_message" where
  "rtsp_response status reason cseq =
     (let m = rtsp_default\<lparr>rm_status := status, rm_reason := reason\<rparr>
      in case cseq of None \<Rightarrow> m | Some c \<Rightarrow> m\<lparr>rm_options := rm_options m @ [(lit ''CSeq'', c)]\<rparr>)"

definition rtsp_with :: "rstr \<Rightarrow> rstr \<Rightarrow> rtsp_message \<Rightarrow> rtsp_message" where
  "rtsp_with name v m = m\<lparr>rm_options := rm_options m @ [(name, v)]\<rparr>"

definition rtsp_option :: "rstr \<Rightarrow> rtsp_message \<Rightarrow> rstr option" where
  "rtsp_option name m = map_option snd (List.find (\<lambda>(k, _). eq_ignore_ascii_case k name) (rm_options m))"

definition is_request :: "rtsp_message \<Rightarrow> bool" where
  "is_request m = (rm_command m \<noteq> [])"

definition CRLF :: rstr where "CRLF = [13, 10]"

definition rtsp_first_line :: "rtsp_message \<Rightarrow> rstr" where
  "rtsp_first_line m =
     (if is_request m then rm_command m @ lit '' '' @ rm_target m @ lit '' RTSP/1.0''
      else lit ''RTSP/1.0 '' @ decimal (rm_status m) @ lit '' '' @ rm_reason m)"

definition rtsp_serialize :: "rtsp_message \<Rightarrow> bytes" where
  "rtsp_serialize m =
     as_bytes (rtsp_first_line m @ CRLF @ concat (map (\<lambda>(name, v). name @ lit '': '' @ v @ CRLF) (rm_options m)) @ CRLF) @ rm_payload m"

section \<open>Parsing\<close>

fun find_bytes :: "bytes \<Rightarrow> bytes \<Rightarrow> nat option" where
  "find_bytes needle [] = None"
| "find_bytes needle (b # bs) =
     (if take (length needle) (b # bs) = needle then Some 0 else map_option Suc (find_bytes needle bs))"

definition END_OF_HEAD :: bytes where "END_OF_HEAD = [13, 10, 13, 10]"

fun split_crlf :: "rstr \<Rightarrow> rstr list" where
  "split_crlf [] = [[]]"
| "split_crlf (x # xs) =
     (if x = 13 \<and> take 1 xs = [10] then [] # split_crlf (drop 1 xs)
      else case split_crlf xs of [] \<Rightarrow> [[x]] | p # ps \<Rightarrow> (x # p) # ps)"

definition splitn3 :: "rstr \<Rightarrow> rstr list" where
  "splitn3 s =
     (case split_once 32 s of
        None \<Rightarrow> [s]
      | Some (a, r) \<Rightarrow> (case split_once 32 r of None \<Rightarrow> [a, r] | Some (b, c) \<Rightarrow> [a, b, c]))"

text \<open>The first line of a message.\<close>

definition parse_first :: "rstr \<Rightarrow> rstr + rtsp_message" where
  "parse_first line =
     (let parts = splitn3 line
      in if starts_with (lit ''RTSP/'') line then
           (case (case parts of _ # s # _ \<Rightarrow> parse_unsigned 65535 s | _ \<Rightarrow> None) of
              None \<Rightarrow> Inl (lit ''bad status line'')
            | Some status \<Rightarrow>
                Inr (rtsp_default\<lparr>rm_status := status, rm_reason := (case parts of [_, _, r] \<Rightarrow> r | _ \<Rightarrow> [])\<rparr>))
         else case parts of
             [a, b, _] \<Rightarrow> Inr (rtsp_default\<lparr>rm_command := a, rm_target := b\<rparr>)
           | _ \<Rightarrow> Inl (lit ''bad request line''))"

definition parse_option_line :: "rstr \<Rightarrow> (rstr \<times> rstr) option" where
  "parse_option_line line = map_option (\<lambda>(name, v). (trim name, trim v)) (split_once 58 line)"

definition rtsp_parse :: "bytes \<Rightarrow> rstr + rtsp_message" where
  "rtsp_parse bs =
     (case find_bytes END_OF_HEAD bs of
        None \<Rightarrow> Inl (lit ''no end of header'')
      | Some n \<Rightarrow>
          (case from_utf8 (take n bs) of
             None \<Rightarrow> Inl (lit ''not text'')
           | Some head \<Rightarrow>
               (case parse_first (hd (split_crlf head)) of
                  Inl e \<Rightarrow> Inl e
                | Inr m \<Rightarrow>
                    Inr (m\<lparr>rm_options := List.map_filter parse_option_line (tl (split_crlf head)), rm_payload := drop (n + 4) bs\<rparr>))))"

section \<open>Reading a request from a connection\<close>

text \<open>The reads of the connection: bytes, or a failure; after the last one it is closed. An empty read is a close.\<close>

datatype rtsp_error = RtspError rstr | RtspIo

fun read_payload :: "nat \<Rightarrow> bytes \<Rightarrow> bytes option list \<Rightarrow> rtsp_error + rtsp_message" where
  "read_payload n buf chunks =
     (if n \<le> length buf then (case rtsp_parse (take n buf) of Inl e \<Rightarrow> Inl (RtspError e) | Inr m \<Rightarrow> Inr m)
      else case chunks of
          [] \<Rightarrow> Inl (RtspError (lit ''closed mid-payload''))
        | None # _ \<Rightarrow> Inl RtspIo
        | Some [] # _ \<Rightarrow> Inl (RtspError (lit ''closed mid-payload''))
        | Some c # cs \<Rightarrow> read_payload n (buf @ c) cs)"

definition content_length :: "rtsp_message \<Rightarrow> nat" where
  "content_length head =
     (case rtsp_option (lit ''Content-length'') head of
        None \<Rightarrow> 0
      | Some l \<Rightarrow> (case parse_unsigned (2 ^ 64 - 1) l of None \<Rightarrow> 0 | Some n \<Rightarrow> n))"

fun read_request :: "bytes \<Rightarrow> bytes option list \<Rightarrow> rtsp_error + rtsp_message" where
  "read_request buf chunks =
     (case find_bytes END_OF_HEAD buf of
        Some n \<Rightarrow>
          (case rtsp_parse (take (n + 4) buf) of
             Inl e \<Rightarrow> Inl (RtspError e)
           | Inr head \<Rightarrow>
               if MAX_MESSAGE < content_length head then Inl (RtspError (lit ''payload too large''))
               else read_payload (n + 4 + content_length head) buf chunks)
      | None \<Rightarrow>
          if MAX_MESSAGE < length buf then Inl (RtspError (lit ''header too large''))
          else case chunks of
              [] \<Rightarrow> Inl (RtspError (lit ''closed before a request''))
            | None # _ \<Rightarrow> Inl RtspIo
            | Some [] # _ \<Rightarrow> Inl (RtspError (lit ''closed before a request''))
            | Some c # cs \<Rightarrow> read_request (buf @ c) cs)"

declare read_payload.simps [simp del] read_request.simps [simp del]

section \<open>Finding the end of a head\<close>

lemma find_bytes_skip:
  assumes "needle \<noteq> []" "hd needle \<notin> set a"
  shows "find_bytes needle (a @ bs) = map_option (\<lambda>n. length a + n) (find_bytes needle bs)"
  using assms(2)
proof (induction a)
  case (Cons x a)
  have "take (length needle) ((x # a) @ bs) \<noteq> needle"
    using Cons.prems assms(1) by (cases needle) auto
  then show ?case
    using Cons by (simp add: option.map_comp comp_def)
qed (cases "find_bytes needle bs"; simp)

lemma find_bytes_short: "length bs < length needle \<Longrightarrow> find_bytes needle bs = None"
  by (induction bs) auto

lemma find_bytes_prefix:
  assumes "find_bytes needle (a @ bs) = Some n" "needle \<noteq> []"
  shows "find_bytes needle a = (if n + length needle \<le> length a then Some n else None)"
  using assms(1)
proof (induction a arbitrary: n)
  case Nil
  with assms(2) show ?case by simp
next
  case (Cons x a)
  show ?case
  proof (cases "take (length needle) ((x # a) @ bs) = needle")
    case True
    then have n: "n = 0"
      using Cons.prems by simp
    show ?thesis
    proof (cases "length needle \<le> length (x # a)")
      case True': True
      then have "take (length needle) ((x # a) @ bs) = take (length needle) (x # a)"
        by (simp only: take_append) simp
      with True' True show ?thesis
        by (simp add: n)
    next
      case False
      then have "find_bytes needle (x # a) = None"
        by (intro find_bytes_short) simp
      with False show ?thesis
        by (simp add: n)
    qed
  next
    case False
    then obtain k where k: "find_bytes needle (a @ bs) = Some k" "n = Suc k"
      using Cons.prems by auto
    have "take (length needle) (x # a) \<noteq> needle"
    proof
      assume eq: "take (length needle) (x # a) = needle"
      then have "length needle \<le> length (x # a)"
        by (metis length_take min.absorb_iff2 min.commute)
      then have "take (length needle) ((x # a) @ bs) = take (length needle) (x # a)"
        by (simp only: take_append) simp
      with eq False show False
        by metis
    qed
    then show ?thesis
      using Cons.IH [OF k(1)] by (simp add: k(2))
  qed
qed

section \<open>Round trips\<close>

text \<open>Texts that fit on a line, and the messages whose parts stay apart in their text.\<close>

definition line_text :: "rstr \<Rightarrow> bool" where
  "line_text s = (list_all scalar s \<and> 13 \<notin> set s \<and> 10 \<notin> set s)"

definition option_ok :: "rstr \<times> rstr \<Rightarrow> bool" where
  "option_ok = (\<lambda>(name, v). line_text name \<and> line_text v \<and> 58 \<notin> set name \<and> trim name = name \<and> trim v = v)"

definition rtsp_ok :: "rtsp_message \<Rightarrow> bool" where
  "rtsp_ok m =
     (list_all option_ok (rm_options m)
      \<and> (if is_request m then line_text (rm_command m) \<and> line_text (rm_target m) \<and> 32 \<notin> set (rm_command m) \<and> 32 \<notin> set (rm_target m)
            \<and> \<not> starts_with (lit ''RTSP/'') (rm_command m @ [32]) \<and> rm_status m = 0 \<and> rm_reason m = []
         else line_text (rm_reason m) \<and> rm_target m = [] \<and> rm_status m \<le> 65535))"

definition option_line :: "rstr \<times> rstr \<Rightarrow> rstr" where
  "option_line = (\<lambda>(name, v). name @ lit '': '' @ v)"

definition join_lines :: "rstr list \<Rightarrow> rstr" where
  "join_lines ls = concat (map (\<lambda>l. l @ CRLF) ls)"

lemma serialize_lines:
  "rtsp_serialize m = as_bytes (join_lines (rtsp_first_line m # map option_line (rm_options m))) @ as_bytes CRLF @ rm_payload m"
proof -
  have "concat (map (\<lambda>(name, v). name @ lit '': '' @ v @ CRLF) os) = join_lines (map option_line os)" for os
    by (induction os) (auto simp: join_lines_def option_line_def)
  then show ?thesis
    by (simp add: rtsp_serialize_def join_lines_def as_bytes_def)
qed

lemma as_bytes_append: "as_bytes (a @ b) = as_bytes a @ as_bytes b"
  by (simp add: as_bytes_def)

lemma as_bytes_CRLF [simp]: "as_bytes CRLF = [13, 10]"
  by (simp add: as_bytes_def CRLF_def utf8_char_def)

text \<open>The bytes of a text hold a carriage return only where the text does.\<close>

lemma utf8_char_ascii: "scalar c \<Longrightarrow> b \<in> set (utf8_char c) \<Longrightarrow> b < 128 \<Longrightarrow> c = b"
  by (auto simp: utf8_char_def split: if_splits)

lemma as_bytes_no_CR:
  assumes "line_text s"
  shows "13 \<notin> set (as_bytes s)"
proof
  assume "13 \<in> set (as_bytes s)"
  then obtain c b where c: "c \<in> set s" "b \<in> set (utf8_char c)" "(13 :: u8) = of_nat b"
    by (auto simp: as_bytes_def)
  moreover have "scalar c"
    using assms c(1) by (simp add: line_text_def list_all_iff)
  ultimately have "b = 13"
    using utf8_char_bytes [of c b] unat_of_nat_u8 [of b] by auto
  then show False
    using utf8_char_ascii [OF \<open>scalar c\<close> c(2)] c(1) assms by (simp add: line_text_def)
qed

lemma as_bytes_Nil_iff: "as_bytes s = [] \<longleftrightarrow> s = []"
  by (cases s) (auto simp: as_bytes_def utf8_char_def split: if_splits)

lemma find_end_of_lines:
  assumes "list_all (\<lambda>l. line_text l \<and> l \<noteq> []) ls" "ls \<noteq> []"
  shows "find_bytes END_OF_HEAD (as_bytes (join_lines ls) @ [13, 10] @ payload) = Some (length (as_bytes (join_lines ls)) - 2)"
  using assms
proof (induction ls)
  case (Cons l ls)
  have l: "13 \<notin> set (as_bytes l)"
    using Cons.prems by (intro as_bytes_no_CR) simp
  have eq: "as_bytes (join_lines (l # ls)) = as_bytes l @ [13, 10] @ as_bytes (join_lines ls)"
    by (simp add: join_lines_def as_bytes_append)
  show ?case
  proof (cases "ls = []")
    case True
    then show ?thesis
      using l by (simp add: eq find_bytes_skip END_OF_HEAD_def) (simp add: join_lines_def as_bytes_append as_bytes_Nil_iff True find_bytes_skip [of "[13, 10, 13, 10]"])
  next
    case False
    then obtain k ks where ls: "ls = k # ks"
      by (cases ls) simp_all
    have k: "as_bytes k \<noteq> []" "13 \<notin> set (as_bytes k)"
      using Cons.prems ls as_bytes_no_CR [of k] by (simp_all add: as_bytes_Nil_iff)
    have "as_bytes (join_lines ls) = as_bytes k @ [13, 10] @ as_bytes (join_lines ks)"
      by (simp add: ls join_lines_def as_bytes_append)
    then obtain b rest where rest: "as_bytes (join_lines ls) = b # rest" "b \<noteq> 13"
      using k by (cases "as_bytes k") auto
    have "find_bytes END_OF_HEAD ([13, 10] @ as_bytes (join_lines ls) @ [13, 10] @ payload)
        = Some (length (as_bytes (join_lines ls)))"
    proof -
      have "find_bytes END_OF_HEAD (as_bytes (join_lines ls) @ [13, 10] @ payload) = Some (length (as_bytes (join_lines ls)) - 2)"
        using Cons.IH False Cons.prems by simp
      moreover have "2 \<le> length (as_bytes (join_lines ls))"
        unfolding \<open>as_bytes (join_lines ls) = as_bytes k @ [13, 10] @ as_bytes (join_lines ks)\<close> by simp
      ultimately show ?thesis
        unfolding rest(1) using rest(2) by (simp add: END_OF_HEAD_def) (metis Suc_pred Suc_le_eq)
    qed
    then show ?thesis
      using l by (simp add: eq find_bytes_skip END_OF_HEAD_def)
  qed
qed simp

lemma split_crlf_line: "13 \<notin> set l \<Longrightarrow> split_crlf (l @ CRLF @ rest) = l # split_crlf rest"
  by (induction l) (auto simp: CRLF_def)

lemma split_crlf_last: "13 \<notin> set l \<Longrightarrow> split_crlf l = [l]"
  by (induction l) auto

lemma split_join_lines:
  assumes "list_all (\<lambda>l. line_text l \<and> l \<noteq> []) ls" "ls \<noteq> []"
  shows "\<exists>head. join_lines ls = head @ CRLF \<and> split_crlf head = ls"
  using assms
proof (induction ls)
  case (Cons l ls)
  have l: "13 \<notin> set l"
    using Cons.prems by (simp add: line_text_def)
  show ?case
  proof (cases "ls = []")
    case True
    then show ?thesis
      using l by (intro exI [of _ l]) (simp add: join_lines_def split_crlf_last)
  next
    case False
    then obtain head where "join_lines ls = head @ CRLF" "split_crlf head = ls"
      using Cons by auto
    then show ?thesis
      using l by (intro exI [of _ "l @ CRLF @ head"]) (simp add: join_lines_def split_crlf_line)
  qed
qed simp

lemma trim_space: "trim (32 # s) = trim s"
  by (simp add: trim_def trim_matches_def is_whitespace_def)

lemma parse_option_line_ok:
  assumes "option_ok x"
  shows "parse_option_line (option_line x) = Some x" "line_text (option_line x)" "option_line x \<noteq> []"
  using assms split_once_append [of 58 "fst x" "32 # snd x"]
  by (auto simp: option_ok_def parse_option_line_def option_line_def trim_space line_text_def scalar_def)

lemma parse_first_ok:
  assumes "rtsp_ok m"
  shows "parse_first (rtsp_first_line m) = Inr (m\<lparr>rm_options := [], rm_payload := []\<rparr>)" "line_text (rtsp_first_line m)" "rtsp_first_line m \<noteq> []"
proof -
  have digits: "32 \<notin> set (decimal n)" "line_text (decimal n)" for n
    using decimal_digits [of _ n] by (force simp: line_text_def list_all_iff is_ascii_digit_def scalar_def)+
  show "line_text (rtsp_first_line m)"
    using assms digits(2) by (auto simp: rtsp_ok_def rtsp_first_line_def line_text_def scalar_def split: if_splits)
  show "rtsp_first_line m \<noteq> []"
    by (simp add: rtsp_first_line_def)
  show "parse_first (rtsp_first_line m) = Inr (m\<lparr>rm_options := [], rm_payload := []\<rparr>)"
  proof (cases "is_request m")
    case True
    have split: "splitn3 (rtsp_first_line m) = [rm_command m, rm_target m, lit ''RTSP/1.0'']"
      using True assms split_once_append [of 32 "rm_command m" "rm_target m @ 32 # lit ''RTSP/1.0''"]
        split_once_append [of 32 "rm_target m" "lit ''RTSP/1.0''"]
      by (simp add: splitn3_def rtsp_first_line_def rtsp_ok_def)
    have "\<not> starts_with (lit ''RTSP/'') (rtsp_first_line m)"
    proof
      assume "starts_with (lit ''RTSP/'') (rtsp_first_line m)"
      moreover have line: "rtsp_first_line m = rm_command m @ [32] @ rm_target m @ lit '' RTSP/1.0''"
        using True by (simp add: rtsp_first_line_def)
      moreover have "length (lit ''RTSP/'') = 5"
        by simp
      ultimately have take: "take 5 (rm_command m @ [32] @ rm_target m @ lit '' RTSP/1.0'') = lit ''RTSP/''"
        by (simp only: line starts_with_def)
      have "\<not> starts_with (lit ''RTSP/'') (rm_command m @ [32])"
        using True assms by (simp add: rtsp_ok_def)
      then have "length (rm_command m) < 5"
        using take by (cases "5 \<le> length (rm_command m)") (auto simp: starts_with_def numeral_eq_Suc)
      then have "32 \<in> set (take 5 (rm_command m @ [32] @ rm_target m @ lit '' RTSP/1.0''))"
        by (simp add: take_Cons' split: if_splits)
      then show False
        unfolding take by simp
    qed
    then show ?thesis
      using True assms by (simp add: parse_first_def split rtsp_default_def rtsp_ok_def)
  next
    case False
    have split: "splitn3 (rtsp_first_line m) = [lit ''RTSP/1.0'', decimal (rm_status m), rm_reason m]"
      using False split_once_append [of 32 "lit ''RTSP/1.0''" "decimal (rm_status m) @ 32 # rm_reason m"]
        split_once_append [of 32 "decimal (rm_status m)" "rm_reason m"] digits
      by (simp add: splitn3_def rtsp_first_line_def)
    have "starts_with (lit ''RTSP/'') (rtsp_first_line m)"
      using False by (simp add: starts_with_def rtsp_first_line_def)
    then show ?thesis
      using False assms by (simp add: parse_first_def split rtsp_default_def rtsp_ok_def is_request_def)
  qed
qed

lemma parse_serialize:
  assumes "rtsp_ok m"
  shows "rtsp_parse (rtsp_serialize m) = Inr m"
    "find_bytes END_OF_HEAD (rtsp_serialize m) = Some (length (rtsp_serialize m) - length (rm_payload m) - 4)"
    "4 + length (rm_payload m) \<le> length (rtsp_serialize m)"
proof -
  define ls where "ls = rtsp_first_line m # map option_line (rm_options m)"
  note first = parse_first_ok [OF assms]
  have opts: "list_all option_ok (rm_options m)"
    using assms by (simp add: rtsp_ok_def)
  then have lines: "list_all (\<lambda>l. line_text l \<and> l \<noteq> []) ls"
    using first parse_option_line_ok by (auto simp: ls_def list_all_iff)
  then obtain head where head: "join_lines ls = head @ CRLF" "split_crlf head = ls"
    using split_join_lines [of ls] by (auto simp: ls_def)
  have ser: "rtsp_serialize m = as_bytes (join_lines ls) @ [13, 10] @ rm_payload m"
    by (simp add: serialize_lines ls_def)
  have "find_bytes END_OF_HEAD (rtsp_serialize m) = Some (length (as_bytes (join_lines ls)) - 2)"
    unfolding ser by (rule find_end_of_lines [OF lines]) (simp add: ls_def)
  moreover have "length (as_bytes (join_lines ls)) - 2 = length (as_bytes head)"
    by (simp add: head as_bytes_append)
  ultimately have find: "find_bytes END_OF_HEAD (rtsp_serialize m) = Some (length (as_bytes head))"
    by simp
  have parts: "rtsp_serialize m = as_bytes head @ [13, 10, 13, 10] @ rm_payload m"
    by (simp add: ser head as_bytes_append)
  then show "4 + length (rm_payload m) \<le> length (rtsp_serialize m)"
    "find_bytes END_OF_HEAD (rtsp_serialize m) = Some (length (rtsp_serialize m) - length (rm_payload m) - 4)"
    using find by simp_all
  have "list_all scalar (join_lines ls)"
    using lines by (auto simp: join_lines_def list_all_iff line_text_def CRLF_def scalar_def)
  then have "from_utf8 (as_bytes head) = Some head"
    by (intro from_utf8_as_bytes) (simp add: head)
  moreover have "list_all option_ok os \<Longrightarrow> List.map_filter parse_option_line (map option_line os) = os" for os
    by (induction os) (simp_all add: List.map_filter_def parse_option_line_ok(1))
  note this [OF opts]
  ultimately show "rtsp_parse (rtsp_serialize m) = Inr m"
    using first(1) by (simp add: rtsp_parse_def find) (simp add: parts head(2) ls_def)
qed

text \<open>
  An RTSP message is read back as it was written: command, target or status, reason, options in order and
  payload, when each part fits its place in the text.
\<close>

theorem rtsp_message_comes_back:
  assumes "rtsp_ok m"
  shows "rtsp_parse (rtsp_serialize m) = Inr m"
  by (rule parse_serialize(1) [OF assms])

lemmas rtsp_example_simps = rtsp_ok_def rtsp_with_def rtsp_request_def rtsp_default_def is_request_def line_text_def option_ok_def
  scalar_def starts_with_def trim_def trim_matches_def is_whitespace_def

lemma rtsp_message_comes_back_witness:
  "rtsp_parse (rtsp_serialize (rtsp_with (lit ''CSeq'') (lit ''3'') (rtsp_request (lit ''SETUP'') (lit ''streamid=video''))))
     = Inr (rtsp_with (lit ''CSeq'') (lit ''3'') (rtsp_request (lit ''SETUP'') (lit ''streamid=video'')))"
proof (rule rtsp_message_comes_back)
  show "rtsp_ok (rtsp_with (lit ''CSeq'') (lit ''3'') (rtsp_request (lit ''SETUP'') (lit ''streamid=video'')))"
    by (simp add: rtsp_example_simps)
qed

text \<open>The head alone parses to the message without its payload.\<close>

lemma parse_head:
  assumes "rtsp_ok m"
  shows "rtsp_parse (take (length (rtsp_serialize m) - length (rm_payload m)) (rtsp_serialize m)) = Inr (m\<lparr>rm_payload := []\<rparr>)"
proof -
  have "rtsp_serialize m = rtsp_serialize (m\<lparr>rm_payload := []\<rparr>) @ rm_payload m"
    by (simp add: rtsp_serialize_def rtsp_first_line_def is_request_def)
  then have "take (length (rtsp_serialize m) - length (rm_payload m)) (rtsp_serialize m) = rtsp_serialize (m\<lparr>rm_payload := []\<rparr>)"
    by simp
  moreover have "rtsp_ok (m\<lparr>rm_payload := []\<rparr>)"
    using assms by (simp add: rtsp_ok_def is_request_def del: lit_Cons)
  ultimately show ?thesis
    using parse_serialize(1) by metis
qed

lemma read_payload_chunks:
  assumes "list_all (\<lambda>c. c \<noteq> []) cs" "n \<le> length (buf @ concat cs)"
  shows "read_payload n buf (map Some cs @ later) = (case rtsp_parse (take n (buf @ concat cs)) of Inl e \<Rightarrow> Inl (RtspError e) | Inr m \<Rightarrow> Inr m)"
  using assms
proof (induction cs arbitrary: buf)
  case Nil
  then show ?case
    by (subst read_payload.simps) simp
next
  case (Cons c cs)
  obtain b bs where c: "c = b # bs"
    using Cons.prems(1) by (cases c) simp_all
  show ?case
  proof (cases "n \<le> length buf")
    case True
    then show ?thesis
      by (subst read_payload.simps) simp
  next
    case False
    have "read_payload n (buf @ c) (map Some cs @ later)
        = (case rtsp_parse (take n ((buf @ c) @ concat cs)) of Inl e \<Rightarrow> Inl (RtspError e) | Inr m \<Rightarrow> Inr m)"
      by (rule Cons.IH) (use Cons.prems in simp_all)
    then show ?thesis
      using False by (subst read_payload.simps) (simp add: c)
  qed
qed

lemma find_bytes_append: "find_bytes needle a = Some n \<Longrightarrow> find_bytes needle (a @ b) = Some n"
proof (induction a arbitrary: n)
  case (Cons x a)
  show ?case
  proof (cases "take (length needle) (x # a) = needle")
    case True
    then have "length needle \<le> length (x # a)"
      by (metis length_take min.absorb_iff2 min.commute)
    then have "take (length needle) ((x # a) @ b) = take (length needle) (x # a)"
      by (simp only: take_append) simp
    then show ?thesis
      using True Cons.prems by simp
  next
    case False
    then obtain k where k: "find_bytes needle a = Some k" "n = Suc k"
      using Cons.prems by auto
    show ?thesis
    proof (cases "take (length needle) ((x # a) @ b) = needle")
      case True
      then have "find_bytes needle (x # a) = (if 0 + length needle \<le> length (x # a) then Some 0 else None)"
        by (intro find_bytes_prefix [where bs = b]) (use False in auto)
      then show ?thesis
        using Cons.prems False by (auto split: if_splits)
    next
      case False
      then show ?thesis
        using Cons.IH [OF k(1)] by (simp add: k(2))
    qed
  qed
qed simp

lemma read_request_head:
  assumes "rtsp_ok m" "content_length m = length (rm_payload m)" "length (rm_payload m) \<le> MAX_MESSAGE"
    "list_all (\<lambda>c. c \<noteq> []) cs" "buf @ concat cs = rtsp_serialize m @ extra"
  defines "n \<equiv> length (rtsp_serialize m) - length (rm_payload m)"
  shows "find_bytes END_OF_HEAD buf = (if n \<le> length buf then Some (n - 4) else None)"
    "n \<le> length buf \<Longrightarrow> read_request buf (map Some cs @ later) = Inr m"
proof -
  have four: "4 \<le> n" "n + length (rm_payload m) = length (rtsp_serialize m)"
    using parse_serialize(3) [OF assms(1)] by (simp_all add: n_def)
  have "find_bytes END_OF_HEAD (buf @ concat cs) = Some (n - 4)"
    unfolding assms(5) n_def using find_bytes_append [OF parse_serialize(2) [OF assms(1)]] by simp
  then show find: "find_bytes END_OF_HEAD buf = (if n \<le> length buf then Some (n - 4) else None)"
    using four(1) by (subst find_bytes_prefix) (auto simp: END_OF_HEAD_def)
  assume le: "n \<le> length buf"
  have "take n buf = take n (buf @ concat cs)"
    using le by simp
  also have "\<dots> = take n (rtsp_serialize m)"
    unfolding assms(5) using four by simp
  finally have head: "rtsp_parse (take n buf) = Inr (m\<lparr>rm_payload := []\<rparr>)"
    using parse_head [OF assms(1)] by (simp add: n_def)
  have len: "content_length (m\<lparr>rm_payload := []\<rparr>) = length (rm_payload m)"
    using assms(2) by (simp add: content_length_def rtsp_option_def)
  have "length (rtsp_serialize m) \<le> length (buf @ concat cs)"
    unfolding assms(5) by simp
  then have "read_payload (length (rtsp_serialize m)) buf (map Some cs @ later) = Inr m"
    using read_payload_chunks [OF assms(4), of "length (rtsp_serialize m)" buf later] parse_serialize(1) [OF assms(1)]
    unfolding assms(5) by simp
  then show "read_request buf (map Some cs @ later) = Inr m"
    using find le four assms(3) head len by (subst read_request.simps) simp
qed

lemma read_request_chunks:
  assumes "rtsp_ok m" "content_length m = length (rm_payload m)" "length (rm_payload m) \<le> MAX_MESSAGE"
    "length (rtsp_serialize m) - length (rm_payload m) \<le> MAX_MESSAGE"
    "list_all (\<lambda>c. c \<noteq> []) cs" "buf @ concat cs = rtsp_serialize m @ extra"
  shows "read_request buf (map Some cs @ later) = Inr m"
  using assms(5,6)
proof (induction cs arbitrary: buf)
  case Nil
  then have "length (rtsp_serialize m) \<le> length buf"
    by simp
  then show ?case
    by (intro read_request_head(2) [OF assms(1-3) Nil]) simp
next
  case (Cons c cs)
  note head = read_request_head [OF assms(1-3) Cons.prems]
  show ?case
  proof (cases "length (rtsp_serialize m) - length (rm_payload m) \<le> length buf")
    case True
    then show ?thesis
      by (rule head(2))
  next
    case False
    obtain b bs where c: "c = b # bs"
      using Cons.prems(1) by (cases c) simp_all
    have "read_request (buf @ c) (map Some cs @ later) = Inr m"
      by (rule Cons.IH) (use Cons.prems in simp_all)
    then show ?thesis
      using False assms(4) head(1) by (subst read_request.simps) (simp add: c)
  qed
qed

text \<open>
  C32. A request is read from a connection whatever pieces its bytes come in: a message whose head fits 64 KiB and
  whose \<open>Content-length\<close> is that of its payload (at most 64 KiB) is what the host reads, and nothing that follows it.
\<close>

theorem rtsp_request_is_read_in_pieces:
  assumes "rtsp_ok m" "content_length m = length (rm_payload m)" "length (rm_payload m) \<le> MAX_MESSAGE"
    "length (rtsp_serialize m) - length (rm_payload m) \<le> MAX_MESSAGE"
    "list_all (\<lambda>c. c \<noteq> []) cs" "concat cs = rtsp_serialize m @ extra"
  shows "read_request [] (map Some cs @ later) = Inr m"
  by (rule read_request_chunks [OF assms(1-5)]) (simp add: assms(6))

lemma rtsp_request_is_read_in_pieces_witness:
  "\<exists>m. length (rm_payload m) = 2 \<and> read_request [] (map Some [take 9 (rtsp_serialize m), drop 9 (rtsp_serialize m) @ [7]] @ [None]) = Inr m"
proof -
  let ?m = "(rtsp_with (lit ''Content-length'') (lit ''2'') (rtsp_request (lit ''ANNOUNCE'') (lit ''streamid=1'')))\<lparr>rm_payload := [65, 66]\<rparr>"
  have len: "length (rtsp_serialize ?m) = 53"
    by (simp add: rtsp_serialize_def rtsp_first_line_def rtsp_with_def rtsp_request_def rtsp_default_def is_request_def as_bytes_def CRLF_def utf8_char_def)
  have "read_request [] (map Some [take 9 (rtsp_serialize ?m), drop 9 (rtsp_serialize ?m) @ [7]] @ [None]) = Inr ?m"
  proof (rule rtsp_request_is_read_in_pieces)
    show "rtsp_ok ?m"
      by (simp add: rtsp_example_simps)
    show "content_length ?m = length (rm_payload ?m)"
      by (simp add: content_length_def rtsp_option_def rtsp_with_def rtsp_request_def rtsp_default_def parse_unsigned_def digit10_def
          eq_ignore_ascii_case_def ascii_lowercase_def ascii_lower_def is_ascii_digit_def)
    show "list_all (\<lambda>c. c \<noteq> []) [take 9 (rtsp_serialize ?m), drop 9 (rtsp_serialize ?m) @ [7]]"
      using len by auto
    show "concat [take 9 (rtsp_serialize ?m), drop 9 (rtsp_serialize ?m) @ [7]] = rtsp_serialize ?m @ [7]"
      by simp
  qed (use len in \<open>simp_all add: MAX_MESSAGE_def\<close>)
  then show ?thesis
    by (intro exI [of _ ?m]) simp
qed

text \<open>The client's end: the answer, read to the close, of at most 64 KiB.\<close>

definition transact_answer :: "bytes \<Rightarrow> rstr + rtsp_message" where
  "transact_answer buf = (if MAX_MESSAGE < length buf then Inl (lit ''answer too large'') else rtsp_parse buf)"

lemma answer_comes_back: "rtsp_ok m \<Longrightarrow> length (rtsp_serialize m) \<le> MAX_MESSAGE \<Longrightarrow> transact_answer (rtsp_serialize m) = Inr m"
  by (simp add: transact_answer_def parse_serialize(1))

section \<open>Session descriptions\<close>

text \<open>
  The attributes of a description whose text is given: the lines that name one, the last of a name counting, in
  the order of the names.
\<close>

fun split_lines :: "rstr \<Rightarrow> rstr list" where
  "split_lines [] = [[]]"
| "split_lines (x # xs) =
     (if x = 13 \<or> x = 10 then [] # split_lines xs
      else case split_lines xs of [] \<Rightarrow> [[x]] | p # ps \<Rightarrow> (x # p) # ps)"

definition trim_end :: "rstr \<Rightarrow> rstr" where
  "trim_end s = rev (dropWhile is_whitespace (rev s))"

definition sdp_attribute :: "rstr \<Rightarrow> (rstr \<times> rstr) option" where
  "sdp_attribute line =
     (if starts_with (lit ''a='') line then map_option (\<lambda>(name, v). (name, trim_end v)) (split_once 58 (drop 2 line)) else None)"

definition sdp_attributes :: "rstr \<Rightarrow> rstr \<Rightarrow> rstr option" where
  "sdp_attributes s = map_of (rev (List.map_filter sdp_attribute (split_lines s)))"

end
