(* ===== verification/Gs_Http.thy ===== *)
theory Gs_Http
  imports Gs_Xml Gs_Rtsp
begin

text \<open>
  The HTTP of GameStream: the host reads one request per connection (\<open>gamestream/src/server.rs\<close>, \<open>read_request\<close>
  and \<open>urldecode\<close>), the client writes its address and reads what the host says (\<open>gamestream/src/client.rs\<close>).
\<close>

section \<open>Reading a text that may be broken\<close>

text \<open>\<open>String::from_utf8_lossy\<close>: the longest beginning of a character that cannot be finished is one U+FFFD.\<close>

definition second_byte_ok :: "nat \<Rightarrow> nat \<Rightarrow> bool" where
  "second_byte_ok a b =
     (cont b \<and> (a = 224 \<longrightarrow> 160 \<le> b) \<and> (a = 237 \<longrightarrow> b < 160) \<and> (a = 240 \<longrightarrow> 144 \<le> b) \<and> (a = 244 \<longrightarrow> b < 144))"

definition broken_len :: "nat list \<Rightarrow> nat" where
  "broken_len bs =
     (case bs of
        a # b # c # _ \<Rightarrow>
          if 224 \<le> a \<and> a < 245 \<and> second_byte_ok a b then if 240 \<le> a \<and> cont c then 3 else 2 else 1
      | [a, b] \<Rightarrow> if 224 \<le> a \<and> a < 245 \<and> second_byte_ok a b then 2 else 1
      | _ \<Rightarrow> 1)"

function utf8_lossy :: "nat list \<Rightarrow> rstr" where
  "utf8_lossy bs =
     (if bs = [] then []
      else case utf8_first bs of
          Some (c, rest) \<Rightarrow> c # utf8_lossy rest
        | None \<Rightarrow> 65533 # utf8_lossy (drop (max 1 (broken_len bs)) bs))"
  by pat_completeness auto
termination
  by (relation "measure length") (auto dest: utf8_first_shorter)

declare utf8_lossy.simps [simp del]

definition from_utf8_lossy :: "bytes \<Rightarrow> rstr" where
  "from_utf8_lossy bs = utf8_lossy (map unat bs)"

lemma utf8_lossy_encode: "list_all scalar s \<Longrightarrow> utf8_lossy (concat (map utf8_char s)) = s"
proof (induction s)
  case Nil
  then show ?case
    by (simp add: utf8_lossy.simps)
next
  case (Cons c s)
  then have "utf8_first (utf8_char c @ concat (map utf8_char s)) = Some (c, concat (map utf8_char s))"
    by (simp add: utf8_first_char)
  moreover have "utf8_char c \<noteq> []"
    by (simp add: utf8_char_def)
  ultimately show ?case
    using Cons by (subst utf8_lossy.simps) simp
qed

lemma unat_as_bytes: "list_all scalar s \<Longrightarrow> map unat (as_bytes s) = concat (map utf8_char s)"
  unfolding as_bytes_def map_map comp_def
  by (intro map_idI) (auto simp: list_all_iff intro!: unat_of_nat_u8 dest: utf8_char_bytes)

lemma lossy_as_bytes: "list_all scalar s \<Longrightarrow> from_utf8_lossy (as_bytes s) = s"
  by (simp add: from_utf8_lossy_def unat_as_bytes utf8_lossy_encode)

section \<open>Values in an address\<close>

definition unreserved :: "u8 \<Rightarrow> bool" where
  "unreserved b = (alphanumeric (unat b) \<or> b = 45 \<or> b = 95 \<or> b = 46 \<or> b = 126)"

definition upper_digit :: "nat \<Rightarrow> nat" where
  "upper_digit n = (if n < 10 then 48 + n else 55 + n)"

definition urlencode :: "rstr \<Rightarrow> rstr" where
  "urlencode v =
     concat (map (\<lambda>b. if unreserved b then [unat b] else [37, upper_digit (unat b div 16), upper_digit (unat b mod 16)]) (as_bytes v))"

text \<open>\<open>text.get(i + 1..i + 3)\<close> on the bytes after a percent sign: two of them, cut at the ends of characters.\<close>

definition get_two :: "bytes \<Rightarrow> rstr option" where
  "get_two bs =
     (case bs of
        a # b # rest \<Rightarrow>
          if cont (unat a) \<or> rest \<noteq> [] \<and> cont (unat (hd rest)) then None else Some [unat a, unat b]
      | _ \<Rightarrow> None)"

fun urldecode_bytes :: "bytes \<Rightarrow> bytes" where
  "urldecode_bytes [] = []"
| "urldecode_bytes (b # bs) =
     (case (if b = 37 then case get_two bs of None \<Rightarrow> None | Some h \<Rightarrow> radix16_u8 h else None) of
        Some x \<Rightarrow> x # urldecode_bytes (drop 2 bs)
      | None \<Rightarrow> (if b = 43 then 32 else b) # urldecode_bytes bs)"

definition urldecode :: "rstr \<Rightarrow> rstr" where
  "urldecode text = from_utf8_lossy (urldecode_bytes (as_bytes text))"

section \<open>One request\<close>

text \<open>Bytes come one at a time; \<open>None\<close> is the end, an error, or ten seconds of nothing.\<close>

fun read_head :: "bytes \<Rightarrow> u8 option list \<Rightarrow> bytes option" where
  "read_head head events =
     (if drop (length head - 4) head = [13, 10, 13, 10] then Some head
      else if 64 * 1024 < length head then None
      else case events of
          Some b # rest \<Rightarrow> read_head (head @ [b]) rest
        | _ \<Rightarrow> None)"

declare read_head.simps [simp del]

definition query_pair :: "rstr \<Rightarrow> rstr \<times> rstr" where
  "query_pair p = (let (k, v) = (case split_once 61 p of None \<Rightarrow> (p, []) | Some kv \<Rightarrow> kv) in (urldecode k, urldecode v))"

definition parse_target :: "rstr \<Rightarrow> rstr \<times> (rstr \<times> rstr) list" where
  "parse_target target =
     (let (path, query) = (case split_once 63 target of None \<Rightarrow> (target, []) | Some pq \<Rightarrow> pq)
      in (path, map query_pair (filter (\<lambda>p. p \<noteq> []) (split_on 38 query))))"

definition read_http :: "u8 option list \<Rightarrow> (rstr \<times> (rstr \<times> rstr) list) option" where
  "read_http events =
     (case read_head [] events of
        None \<Rightarrow> None
      | Some head \<Rightarrow>
          (case lines_of (from_utf8_lossy head) of
             [] \<Rightarrow> None
           | line # _ \<Rightarrow>
               (case split_on 32 line of
                  _ # target # _ \<Rightarrow> Some (parse_target target)
                | _ \<Rightarrow> None)))"

section \<open>The client\<close>

definition url_address :: "rstr \<Rightarrow> rstr" where
  "url_address address = (if 58 \<in> set address \<and> \<not> starts_with [91] address then [91] @ address @ [93] else address)"

definition query_text :: "(rstr \<times> rstr) list \<Rightarrow> rstr" where
  "query_text query = concat (map (\<lambda>(k, v). [38] @ k @ [61] @ urlencode v) query)"

text \<open>What follows the host and the port, and the whole address; \<open>nonce\<close> is 16 random bytes.\<close>

definition url_target :: "rstr \<Rightarrow> bytes \<Rightarrow> rstr \<Rightarrow> (rstr \<times> rstr) list \<Rightarrow> rstr" where
  "url_target unique_id nonce path query =
     [47] @ path @ lit ''?uniqueid='' @ unique_id @ lit ''&uuid='' @ encode_hex nonce @ query_text query"

definition gs_url :: "rstr \<Rightarrow> bytes \<Rightarrow> rstr \<Rightarrow> rstr \<Rightarrow> nat \<Rightarrow> rstr \<Rightarrow> (rstr \<times> rstr) list \<Rightarrow> rstr" where
  "gs_url unique_id nonce scheme address port path query =
     scheme @ lit ''://'' @ url_address address @ [58] @ decimal port @ url_target unique_id nonce path query"

record server_info =
  si_hostname :: rstr
  si_app_version :: rstr
  si_unique_id :: rstr
  si_https_port :: "16 word"
  si_paired :: bool
  si_current_game :: "32 word"
  si_codec_modes :: "32 word"

definition text_or_empty :: "rstr \<Rightarrow> rstr \<Rightarrow> rstr" where
  "text_or_empty a name = (case xml_text a name of None \<Rightarrow> [] | Some v \<Rightarrow> v)"

definition xml_number :: "rstr \<Rightarrow> rstr \<Rightarrow> int option" where
  "xml_number a name = (case xml_text a name of None \<Rightarrow> None | Some v \<Rightarrow> parse_i64 v)"

definition read_server_info :: "rstr \<Rightarrow> (int \<times> rstr) + server_info" where
  "read_server_info a =
     (case xml_ok a of
        Inl e \<Rightarrow> Inl e
      | Inr _ \<Rightarrow>
          Inr \<lparr>si_hostname = text_or_empty a (lit ''hostname''), si_app_version = text_or_empty a (lit ''appversion''),
            si_unique_id = text_or_empty a (lit ''uniqueid''),
            si_https_port = (case xml_number a (lit ''HttpsPort'') of None \<Rightarrow> 47984 | Some p \<Rightarrow> of_int p),
            si_paired = (xml_number a (lit ''PairStatus'') = Some 1),
            si_current_game = (case xml_number a (lit ''currentgame'') of None \<Rightarrow> 0 | Some n \<Rightarrow> of_int n),
            si_codec_modes = (case xml_number a (lit ''ServerCodecModeSupport'') of None \<Rightarrow> 1 | Some n \<Rightarrow> of_int n)\<rparr>)"

record gs_app =
  ga_id :: nat
  ga_title :: rstr
  ga_hdr :: bool

definition read_app :: "rstr \<Rightarrow> gs_app option" where
  "read_app app =
     (case xml_text app (lit ''ID'') of
        None \<Rightarrow> None
      | Some v \<Rightarrow>
          (case parse_unsigned (2 ^ 32 - 1) v of
             None \<Rightarrow> None
           | Some n \<Rightarrow> Some \<lparr>ga_id = n, ga_title = text_or_empty app (lit ''AppTitle''), ga_hdr = (xml_text app (lit ''IsHdrSupported'') = Some (lit ''1''))\<rparr>))"

definition read_apps :: "rstr \<Rightarrow> (int \<times> rstr) + gs_app list" where
  "read_apps a =
     (case xml_ok a of
        Inl e \<Rightarrow> Inl e
      | Inr _ \<Rightarrow> Inr (List.map_filter read_app (xml_blocks a (lit ''App''))))"

record launch_request =
  lr_app :: nat
  lr_width :: nat
  lr_height :: nat
  lr_fps :: nat
  lr_key :: bytes
  lr_key_id :: "32 word"
  lr_host_audio :: bool
  lr_surround :: nat
  lr_gamepads :: nat

text \<open>A signed number, \<open>i32::to_string\<close>.\<close>

definition signed_decimal :: "int \<Rightarrow> rstr" where
  "signed_decimal n = (if n < 0 then [45] @ decimal (nat (- n)) else decimal (nat n))"

definition flag_text :: "bool \<Rightarrow> rstr" where
  "flag_text b = (if b then lit ''1'' else lit ''0'')"

definition launch_query :: "launch_request \<Rightarrow> (rstr \<times> rstr) list" where
  "launch_query l =
     [(lit ''appid'', decimal (lr_app l)),
      (lit ''mode'', decimal (lr_width l) @ lit ''x'' @ decimal (lr_height l) @ lit ''x'' @ decimal (lr_fps l)),
      (lit ''additionalStates'', lit ''1''), (lit ''sops'', lit ''0''),
      (lit ''rikey'', encode_hex (lr_key l)), (lit ''rikeyid'', signed_decimal (sint (lr_key_id l))),
      (lit ''localAudioPlayMode'', flag_text (lr_host_audio l)), (lit ''surroundAudioInfo'', decimal (lr_surround l)),
      (lit ''remoteControllersBitmap'', decimal (lr_gamepads l)), (lit ''gcmap'', decimal (lr_gamepads l)),
      (lit ''gcpersist'', lit ''0'')]"

text \<open>What \<open>launch\<close> takes from the answer; \<open>None\<close> in \<open>Inr\<close> is the error \<open>the host gave no session URL\<close>.\<close>

definition launch_answer :: "rstr \<Rightarrow> (int \<times> rstr) + rstr option" where
  "launch_answer a = (case xml_ok a of Inl e \<Rightarrow> Inl e | Inr _ \<Rightarrow> Inr (xml_text a (lit ''sessionUrl0'')))"

section \<open>What the client writes is what the host reads\<close>

definition enc_byte :: "u8 \<Rightarrow> rstr" where
  "enc_byte b = (if unreserved b then [unat b] else [37, upper_digit (unat b div 16), upper_digit (unat b mod 16)])"

lemma urlencode_bytes: "urlencode v = concat (map enc_byte (as_bytes v))"
  by (simp add: urlencode_def enc_byte_def [abs_def])

lemma upper_digit_reads: "n < 16 \<Longrightarrow> digit16 (upper_digit n) = Some n"
  "n < 16 \<Longrightarrow> 48 \<le> upper_digit n \<and> upper_digit n < 58 \<or> 65 \<le> upper_digit n \<and> upper_digit n < 71"
  by (auto simp: digit16_def upper_digit_def)

lemma enc_byte_chars: "c \<in> set (enc_byte b) \<Longrightarrow> alphanumeric c \<or> c \<in> {45, 95, 46, 126, 37}"
proof -
  have lt: "unat b div 16 < 16"
    using unsigned_less [of b, where ?'a = nat] by simp
  assume c: "c \<in> set (enc_byte b)"
  show ?thesis
  proof (cases "unreserved b")
    case True
    then show ?thesis
      using c by (auto simp: enc_byte_def unreserved_def)
  next
    case False
    then show ?thesis
      using c upper_digit_reads(2) [OF lt] upper_digit_reads(2) [of "unat b mod 16"]
      by (auto simp: enc_byte_def alphanumeric_def)
  qed
qed

lemma urlencode_chars: "c \<in> set (urlencode v) \<Longrightarrow> alphanumeric c \<or> c \<in> {45, 95, 46, 126, 37}"
  using enc_byte_chars by (auto simp: urlencode_bytes)

lemma urlencode_ascii: "c \<in> set (urlencode v) \<Longrightarrow> 32 < c \<and> c < 128"
  using urlencode_chars [of c v] by (auto simp: alphanumeric_def)

lemma ascii_bytes: "list_all (\<lambda>c. c < 128) s \<Longrightarrow> as_bytes s = map of_nat s"
  by (induction s) (simp_all add: as_bytes_def utf8_char_def)

lemma decode_enc_byte:
  assumes "list_all (\<lambda>b. unat b < 128) rest"
  shows "urldecode_bytes (map of_nat (enc_byte b) @ rest) = b # urldecode_bytes rest"
proof (cases "unreserved b")
  case True
  then show ?thesis
    by (auto simp: enc_byte_def unreserved_def alphanumeric_def)
next
  case False
  let ?x = "unat b div 16" and ?y = "unat b mod 16"
  have x: "?x < 16" "?y < 16"
    using unsigned_less [of b, where ?'a = nat] by simp_all
  note d = upper_digit_reads(2) [OF x(1)] upper_digit_reads(2) [OF x(2)]
  have u: "unat (of_nat (upper_digit ?x) :: u8) = upper_digit ?x" "unat (of_nat (upper_digit ?y) :: u8) = upper_digit ?y"
    using d by (auto intro!: unat_of_nat_u8)
  have "rest = [] \<or> \<not> cont (unat (hd rest))"
    using assms by (cases rest) (auto simp: cont_def)
  then have "get_two (of_nat (upper_digit ?x) # of_nat (upper_digit ?y) # rest) = Some [upper_digit ?x, upper_digit ?y]"
    using d u by (auto simp: get_two_def cont_def)
  moreover have "radix16_u8 [upper_digit ?x, upper_digit ?y] = Some b"
    using d upper_digit_reads(1) [OF x(1)] upper_digit_reads(1) [OF x(2)] by auto
  ultimately show ?thesis
    using False by (simp add: enc_byte_def)
qed

lemma urldecode_urlencode:
  assumes "list_all scalar s"
  shows "urldecode (urlencode s) = s"
proof -
  have ascii: "list_all (\<lambda>c. c < 128) (concat (map enc_byte bs))" for bs
    using enc_byte_chars by (fastforce simp: list_all_iff alphanumeric_def)
  have small: "list_all (\<lambda>b. unat (b :: u8) < 128) (map of_nat (concat (map enc_byte bs)))" for bs
    using ascii [of bs] by (fastforce simp: list_all_iff intro: ord_eq_less_trans [OF unat_of_nat_u8])
  have "urldecode_bytes (map of_nat (concat (map enc_byte bs))) = bs" for bs
  proof (induction bs)
    case (Cons b bs)
    then show ?case
      using decode_enc_byte [OF small [of bs], of b] by simp
  qed simp
  then show ?thesis
    using assms by (simp add: urldecode_def urlencode_bytes ascii_bytes [OF ascii] lossy_as_bytes)
qed

lemma alnum_byte: "alphanumeric c \<Longrightarrow> utf8_char c = [c] \<and> unat (of_nat c :: u8) = c \<and> scalar c"
  by (auto simp: unat_of_nat_u8 alphanumeric_def utf8_char_def scalar_def)

lemma alnum_scalar: "list_all alphanumeric s \<Longrightarrow> list_all scalar s"
  using alnum_byte by (simp add: list_all_iff)

lemma urlencode_plain: "list_all alphanumeric k \<Longrightarrow> urlencode k = k"
proof (induction k)
  case (Cons c k)
  have "urlencode (c # k) = urlencode [c] @ urlencode k"
    by (simp add: urlencode_bytes as_bytes_def)
  moreover have "urlencode [c] = [c]"
    using Cons.prems alnum_byte [of c] by (simp add: urlencode_bytes as_bytes_def enc_byte_def unreserved_def)
  ultimately show ?case
    using Cons by simp
qed (simp add: urlencode_bytes as_bytes_def)

lemma urldecode_plain: "list_all alphanumeric k \<Longrightarrow> urldecode k = k"
  using urldecode_urlencode [of k] alnum_scalar [of k] by (simp add: urlencode_plain)

text \<open>An argument as the client puts it in an address.\<close>

definition query_part :: "rstr \<times> rstr \<Rightarrow> rstr" where
  "query_part = (\<lambda>(k, v). k @ [61] @ urlencode v)"

definition argument_ok :: "rstr \<times> rstr \<Rightarrow> bool" where
  "argument_ok = (\<lambda>(k, v). plain_name k \<and> list_all scalar v)"

lemma query_part_reads:
  assumes "argument_ok kv"
  shows "query_pair (query_part kv) = kv" "38 \<notin> set (query_part kv)" "query_part kv \<noteq> []"
    "c \<in> set (query_part kv) \<Longrightarrow> 32 < c \<and> c < 128"
proof -
  obtain k v where kv: "kv = (k, v)"
    by (cases kv)
  have k: "plain_name k" "list_all scalar v"
    using assms by (simp_all add: kv argument_ok_def)
  have alnum: "c \<in> set k \<Longrightarrow> alphanumeric c" for c
    using k(1) by (simp add: plain_name_def list_all_iff)
  have "61 \<notin> set k" "38 \<notin> set k"
    using alnum [of 61] alnum [of 38] by (auto simp: alphanumeric_def)
  then show "query_pair (query_part kv) = kv"
    using k by (simp add: kv query_part_def query_pair_def split_once_append urldecode_plain plain_name_def urldecode_urlencode)
  show "38 \<notin> set (query_part kv)" "query_part kv \<noteq> []"
    using \<open>38 \<notin> set k\<close> urlencode_chars [of 38 v] by (auto simp: kv query_part_def alphanumeric_def)
  show "c \<in> set (query_part kv) \<Longrightarrow> 32 < c \<and> c < 128"
    using alnum [of c] urlencode_ascii [of c v] by (auto simp: kv query_part_def alphanumeric_def)
qed

lemma split_on_joined: "c \<notin> set a \<Longrightarrow> \<forall>l\<in>set ls. c \<notin> set l \<Longrightarrow> split_on c (a @ concat (map (\<lambda>l. c # l) ls)) = a # ls"
proof (induction ls arbitrary: a)
  case Nil
  then show ?case
    by (induction a) auto
next
  case (Cons l ls)
  have "split_on c (a @ c # s) = a # split_on c s" if "c \<notin> set a" for s
    using that by (induction a) auto
  with Cons show ?case
    by simp
qed

lemma split_query:
  assumes "list_all argument_ok (kv # query)"
  shows "split_on 38 (query_part kv @ query_text query) = map query_part (kv # query)"
proof -
  have "query_text query = concat (map (\<lambda>l. 38 # l) (map query_part query))"
    by (simp add: query_text_def query_part_def case_prod_unfold comp_def)
  moreover have "\<forall>l\<in>set (map query_part query). 38 \<notin> set l"
    using assms query_part_reads(2) by (auto simp: list_all_iff)
  ultimately show ?thesis
    using assms query_part_reads(2) [of kv] split_on_joined [of 38 "query_part kv" "map query_part query"] by simp
qed

definition client_arguments :: "rstr \<Rightarrow> bytes \<Rightarrow> (rstr \<times> rstr) list \<Rightarrow> (rstr \<times> rstr) list" where
  "client_arguments unique_id nonce query = (lit ''uniqueid'', unique_id) # (lit ''uuid'', encode_hex nonce) # query"

lemma encode_hex_alnum: "list_all alphanumeric (encode_hex bs)"
proof -
  have "list_all alphanumeric (hex2 b)" for b
  proof -
    have "unat b div 16 < 16"
      using unsigned_less [of b, where ?'a = nat] by simp
    then show ?thesis
      using hex_digit_range [of "unat b div 16"] hex_digit_range [of "unat b mod 16"]
      by (auto simp: hex2_def alphanumeric_def)
  qed
  then show ?thesis
    by (auto simp: encode_hex_def list_all_iff)
qed

lemma url_target_parts:
  assumes "list_all alphanumeric unique_id"
  shows "url_target unique_id nonce path query
    = ([47] @ path) @ 63 # query_part (lit ''uniqueid'', unique_id) @ query_text ((lit ''uuid'', encode_hex nonce) # query)"
  using assms encode_hex_alnum [of nonce] by (simp add: url_target_def query_part_def query_text_def urlencode_plain)

lemma target_comes_back:
  assumes "list_all alphanumeric unique_id" "list_all alphanumeric path" "list_all argument_ok query"
  shows "parse_target (url_target unique_id nonce path query) = ([47] @ path, client_arguments unique_id nonce query)"
    "c \<in> set (url_target unique_id nonce path query) \<Longrightarrow> 32 < c \<and> c < 128"
proof -
  let ?kvs = "client_arguments unique_id nonce query"
  have ok: "list_all argument_ok ?kvs"
    using assms alnum_scalar [OF encode_hex_alnum [of nonce]] alnum_scalar [OF assms(1)]
    by (simp add: client_arguments_def argument_ok_def plain_name_def) (simp add: alphanumeric_def)
  have path: "63 \<notin> set ([47] @ path)"
    using assms(2) by (auto simp: list_all_iff alphanumeric_def)
  have parts: "split_on 38 (query_part (lit ''uniqueid'', unique_id) @ query_text ((lit ''uuid'', encode_hex nonce) # query)) = map query_part ?kvs"
    using split_query ok unfolding client_arguments_def by blast
  have "filter (\<lambda>p. p \<noteq> []) (map query_part ?kvs) = map query_part ?kvs"
    using ok query_part_reads(3) by (auto simp: filter_id_conv list_all_iff)
  moreover have "map query_pair (map query_part ?kvs) = ?kvs"
    using ok query_part_reads(1) by (auto simp: list_all_iff intro!: map_idI)
  ultimately show "parse_target (url_target unique_id nonce path query) = ([47] @ path, ?kvs)"
    unfolding url_target_parts [OF assms(1)] parse_target_def split_once_append [OF path]
    by (simp only: option.case prod.case Let_def parts)
  have q: "list_all argument_ok kvs \<Longrightarrow> c \<in> set (query_text kvs) \<Longrightarrow> 32 < c \<and> c < 128" for kvs c
    using query_part_reads(4) by (fastforce simp: query_text_def query_part_def list_all_iff)
  show "c \<in> set (url_target unique_id nonce path query) \<Longrightarrow> 32 < c \<and> c < 128"
    unfolding url_target_parts [OF assms(1)]
    using assms(2) ok query_part_reads(4) [of "(lit ''uniqueid'', unique_id)"] q [of "(lit ''uuid'', encode_hex nonce) # query" c]
    by (auto simp: client_arguments_def list_all_iff alphanumeric_def simp del: lit_Cons)
qed

text \<open>The head of a request is read up to its empty line, one byte at a time.\<close>

lemma find_bytes_least: "find_bytes needle bs = Some n \<Longrightarrow> i < n \<Longrightarrow> take (length needle) (drop i bs) \<noteq> needle"
proof (induction bs arbitrary: i n)
  case (Cons b bs)
  then show ?case
    by (cases i) (auto split: if_splits)
qed simp

lemma read_head_bytes:
  assumes "find_bytes END_OF_HEAD head = Some (length head - 4)" "length head \<le> 64 * 1024 + 1" "acc @ bs = head"
    "4 \<le> length head" "drop (length head - 4) head = END_OF_HEAD"
  shows "read_head acc (map Some bs @ later) = Some head"
  using assms(3)
proof (induction bs arbitrary: acc)
  case Nil
  then show ?case
    using assms(5) by (subst read_head.simps) (simp add: END_OF_HEAD_def)
next
  case (Cons b bs)
  have shorter: "length acc < length head"
    unfolding Cons.prems [symmetric] by simp
  have "drop (length acc - 4) acc \<noteq> END_OF_HEAD"
  proof
    assume e: "drop (length acc - 4) acc = END_OF_HEAD"
    then have four: "4 \<le> length acc"
      by (cases "length acc < 4") (simp_all add: END_OF_HEAD_def)
    have "take 4 (drop (length acc - 4) head) = END_OF_HEAD"
      using e four unfolding Cons.prems [symmetric] by (simp add: END_OF_HEAD_def)
    moreover have "length END_OF_HEAD = 4"
      by (simp add: END_OF_HEAD_def)
    moreover have "length acc - 4 < length head - 4"
      using shorter four by simp
    ultimately show False
      using find_bytes_least [OF assms(1), of "length acc - 4"] by simp
  qed
  moreover have "read_head (acc @ [b]) (map Some bs @ later) = Some head"
    by (rule Cons.IH) (use Cons.prems in simp)
  ultimately show ?case
    using shorter assms(2) by (subst read_head.simps) (simp add: END_OF_HEAD_def)
qed

definition request_line :: "rstr \<Rightarrow> rstr" where
  "request_line target = lit ''GET '' @ target @ lit '' HTTP/1.1''"

lemma first_line:
  assumes "10 \<notin> set l" "13 \<notin> set l"
  shows "\<exists>more. lines_of (l @ CRLF @ rest) = l # more"
proof -
  have s: "split_on 10 (l @ CRLF @ rest) = (l @ [13]) # split_on 10 rest"
    using assms(1) by (induction l) (auto simp: CRLF_def)
  have "lines_of (l @ CRLF @ rest) = l # map strip_cr (if last (split_on 10 rest) = [] then butlast (split_on 10 rest) else split_on 10 rest)"
    unfolding lines_of_def s Let_def by (simp add: strip_cr_def)
  then show ?thesis
    by simp
qed

lemma target_is_read:
  assumes target: "\<And>c. c \<in> set target \<Longrightarrow> 32 < c \<and> c < 128"
    and headers: "list_all (\<lambda>l. line_text l \<and> l \<noteq> []) headers"
    and fits: "length (as_bytes (join_lines (request_line target # headers))) < 64 * 1024"
  shows "read_http (map Some (as_bytes (join_lines (request_line target # headers) @ CRLF)) @ later) = Some (parse_target target)"
proof -
  let ?text = "join_lines (request_line target # headers)"
  let ?head = "as_bytes (?text @ CRLF)"
  have sc: "scalar c" if "c \<in> set target" for c
    using target [OF that] by (simp add: scalar_def)
  have no: "10 \<notin> set target" "13 \<notin> set target" "32 \<notin> set target"
    using target [of 10] target [of 13] target [of 32] by auto
  have line: "line_text (request_line target)"
    using sc no by (auto simp: line_text_def request_line_def list_all_iff scalar_def)
  have lines: "list_all (\<lambda>l. line_text l \<and> l \<noteq> []) (request_line target # headers)"
    using line headers by (simp add: request_line_def)
  have "list_all scalar (join_lines ls)" if "list_all line_text ls" for ls
    using that by (induction ls) (auto simp: join_lines_def line_text_def CRLF_def scalar_def)
  from this [of "request_line target # headers"] have sc_all: "list_all scalar (?text @ CRLF)"
    using line headers by (auto simp: CRLF_def scalar_def list_all_iff)
  have crlf: "\<exists>front. ?text = front @ CRLF"
    using split_join_lines [OF lines] by auto
  then have ends: "\<exists>front. ?head = front @ END_OF_HEAD"
    by (auto simp: as_bytes_append END_OF_HEAD_def)
  have find: "find_bytes END_OF_HEAD ?head = Some (length ?head - 4)"
    using find_end_of_lines [OF lines, of "[]"] by (simp add: as_bytes_append)
  have "read_head [] (map Some ?head @ later) = Some ?head"
    by (rule read_head_bytes [OF find]) (use fits ends in \<open>auto simp: as_bytes_append END_OF_HEAD_def\<close>)
  moreover obtain more where "lines_of (?text @ CRLF) = request_line target # more"
    using first_line [of "request_line target" "join_lines headers @ CRLF"] line by (auto simp: line_text_def join_lines_def)
  moreover have "split_on 32 (request_line target) = [lit ''GET'', target, lit ''HTTP/1.1'']"
    using no(3) split_on_joined [of 32 "lit ''GET''" "[target, lit ''HTTP/1.1'']"] by (simp add: request_line_def)
  ultimately show ?thesis
    by (simp only: read_http_def option.case list.case lossy_as_bytes [OF sc_all])
qed

text \<open>
  C23. What the client puts into an address is what the host takes out of the request: for an id and a path of letters
  and digits, whatever arguments with plain names and any values, and whatever further header lines are sent (the head
  within 64 KiB), the host reads the path, the client's id, the nonce and the arguments in their order.
\<close>

theorem client_request_is_understood:
  assumes "list_all alphanumeric unique_id" "list_all alphanumeric path" "list_all argument_ok query"
    and "list_all (\<lambda>l. line_text l \<and> l \<noteq> []) headers"
    and "length (as_bytes (join_lines (request_line (url_target unique_id nonce path query) # headers))) < 64 * 1024"
  shows "read_http (map Some (as_bytes (join_lines (request_line (url_target unique_id nonce path query) # headers) @ CRLF)) @ later)
    = Some ([47] @ path, client_arguments unique_id nonce query)"
  using target_is_read [OF target_comes_back(2) [OF assms(1-3)] assms(4,5)] target_comes_back(1) [OF assms(1-3)] by simp

lemma client_request_is_understood_witness:
  "read_http (map Some (as_bytes (join_lines (request_line (url_target (lit ''ab12'') [7] (lit ''pair'') [(lit ''devicename'', [233, 38, 32])])
      # [lit ''Accept: text'']) @ CRLF)) @ [None])
    = Some ([47] @ lit ''pair'', client_arguments (lit ''ab12'') [7] [(lit ''devicename'', [233, 38, 32])])"
proof (rule client_request_is_understood)
  show "list_all argument_ok [(lit ''devicename'', [233, 38, 32])]"
    by (simp add: argument_ok_def plain_name_def scalar_def alphanumeric_def)
  show "length (as_bytes (join_lines (request_line (url_target (lit ''ab12'') [7] (lit ''pair'') [(lit ''devicename'', [233, 38, 32])])
      # [lit ''Accept: text'']))) < 64 * 1024"
    by (simp add: length_as_bytes join_lines_def request_line_def url_target_def query_text_def urlencode_bytes utf8_len_def
        utf8_len_char_def CRLF_def encode_hex_def hex2_def as_bytes_def utf8_char_def enc_byte_def unreserved_def alphanumeric_def
        upper_digit_def hex_digit_def)
qed (simp_all add: alphanumeric_def line_text_def scalar_def)

end
