(* ===== verification/Gs_Pairing.thy ===== *)
theory Gs_Pairing
  imports Gs_Xml Utf8
begin

unbundle bit_operations_syntax

text \<open>
  GameStream pairing (\<open>gamestream/src/pairing.rs\<close>) and the use it makes of cryptography
  (\<open>gamestream/src/crypto.rs\<close>): the client's five requests, the host's phases, the key a PIN makes, and the two
  modes of the block cipher. Digests, the block cipher, certificates and signatures are arguments; random bytes are
  arguments too. A panic of the source is the outer \<open>None\<close>.
\<close>

section \<open>Cryptography\<close>

text \<open>Blocks of 16 bytes, digests, the reading of certificates, and the check of a signature.\<close>

record gs_crypto =
  gc_sha1 :: "bytes \<Rightarrow> bytes"
  gc_sha256 :: "bytes \<Rightarrow> bytes"
  gc_encrypt :: "bytes \<Rightarrow> bytes \<Rightarrow> bytes"
  gc_decrypt :: "bytes \<Rightarrow> bytes \<Rightarrow> bytes"
  gc_pem_to_der :: "bytes \<Rightarrow> bytes option"
  gc_signature :: "bytes \<Rightarrow> bytes option"
  gc_verify :: "bytes \<Rightarrow> bytes \<Rightarrow> bytes \<Rightarrow> bool"

record credentials =
  cr_pem :: rstr
  cr_der :: bytes
  cr_sign :: "bytes \<Rightarrow> bytes"
  cr_signature :: bytes

datatype gs_hash = Sha1 | Sha256

definition hash_for :: "rstr \<Rightarrow> gs_hash" where
  "hash_for version =
     (if 7 \<le> (case parse_i64 (trim (hd (split_on 46 version))) of None \<Rightarrow> 7 | Some major \<Rightarrow> major) then Sha256 else Sha1)"

definition output_len :: "gs_hash \<Rightarrow> nat" where
  "output_len hash = (case hash of Sha1 \<Rightarrow> 20 | Sha256 \<Rightarrow> 32)"

definition digest :: "gs_crypto \<Rightarrow> gs_hash \<Rightarrow> bytes \<Rightarrow> bytes" where
  "digest c hash d = (case hash of Sha1 \<Rightarrow> gc_sha1 c d | Sha256 \<Rightarrow> gc_sha256 c d)"

definition pin_key :: "gs_crypto \<Rightarrow> gs_hash \<Rightarrow> bytes \<Rightarrow> rstr \<Rightarrow> bytes" where
  "pin_key c hash salt pin = take 16 (digest c hash (salt @ as_bytes pin))"

text \<open>Whole blocks only; a shorter last one is left out.\<close>

definition whole_blocks :: "bytes \<Rightarrow> bytes list" where
  "whole_blocks d = filter (\<lambda>b. length b = 16) (chunks_of 16 d)"

definition ecb_encrypt :: "gs_crypto \<Rightarrow> bytes \<Rightarrow> bytes \<Rightarrow> bytes" where
  "ecb_encrypt c key d = concat (map (gc_encrypt c key) (whole_blocks d))"

definition ecb_decrypt :: "gs_crypto \<Rightarrow> bytes \<Rightarrow> bytes \<Rightarrow> bytes" where
  "ecb_decrypt c key d = concat (map (gc_decrypt c key) (whole_blocks d))"

fun cbc_blocks :: "gs_crypto \<Rightarrow> bytes \<Rightarrow> bytes \<Rightarrow> bytes list \<Rightarrow> bytes" where
  "cbc_blocks c key previous [] = []"
| "cbc_blocks c key previous (b # bs) =
     (let sealed = gc_encrypt c key (map2 (XOR) b previous) in sealed @ cbc_blocks c key sealed bs)"

definition cbc_encrypt :: "gs_crypto \<Rightarrow> bytes \<Rightarrow> bytes \<Rightarrow> bytes \<Rightarrow> bytes" where
  "cbc_encrypt c key iv d =
     (let pad = 16 - length d mod 16
      in cbc_blocks c key iv (whole_blocks (d @ replicate pad (of_nat pad))))"

fun cbc_open :: "gs_crypto \<Rightarrow> bytes \<Rightarrow> bytes \<Rightarrow> bytes list \<Rightarrow> bytes" where
  "cbc_open c key previous [] = []"
| "cbc_open c key previous (b # bs) = map2 (XOR) (gc_decrypt c key b) previous @ cbc_open c key b bs"

definition cbc_decrypt :: "gs_crypto \<Rightarrow> bytes \<Rightarrow> bytes \<Rightarrow> bytes \<Rightarrow> bytes option" where
  "cbc_decrypt c key iv d =
     (if d = [] \<or> length d mod 16 \<noteq> 0 then None
      else
        (let out = cbc_open c key iv (whole_blocks d)
         in if out = [] then None
            else
              (let pad = unat (last out)
               in if pad = 0 \<or> 16 < pad \<or> list_ex (\<lambda>b. unat b \<noteq> pad) (drop (length out - pad) out) then None
                  else Some (take (length out - pad) out))))"

text \<open>
  What is relied on: a block comes back from the cipher, digests have their lengths, a certificate reads as its
  own, and a signature by its key is accepted.
\<close>

definition cipher_ok :: "gs_crypto \<Rightarrow> bool" where
  "cipher_ok c = (\<forall>key b. length b = 16 \<longrightarrow> length (gc_encrypt c key b) = 16 \<and> gc_decrypt c key (gc_encrypt c key b) = b)"

definition digests_ok :: "gs_crypto \<Rightarrow> bool" where
  "digests_ok c = (\<forall>d. length (gc_sha1 c d) = 20 \<and> length (gc_sha256 c d) = 32)"

definition credentials_ok :: "gs_crypto \<Rightarrow> credentials \<Rightarrow> bool" where
  "credentials_ok c cr =
     (cr_pem cr \<noteq> [] \<and> gc_pem_to_der c (as_bytes (cr_pem cr)) = Some (cr_der cr) \<and> gc_signature c (cr_der cr) = Some (cr_signature cr)
      \<and> (\<forall>d. cr_sign cr d \<noteq> [] \<and> gc_verify c (cr_der cr) d (cr_sign cr d)))"

section \<open>The client\<close>

type_synonym gs_query = "(rstr \<times> rstr) list"

datatype pairing_error = PairStatus int rstr | PairCertificate | Pairing rstr | WrongPin | NotPaired | PairTransport

text \<open>A host answers a request (over HTTPS or not) and changes; \<open>None\<close> is a panic while it is made.\<close>

type_synonym 'h pair_requests = "bool \<Rightarrow> gs_query \<Rightarrow> 'h \<Rightarrow> (pairing_error + rstr) option \<times> 'h"

record client_random =
  rn_salt :: bytes
  rn_challenge :: bytes
  rn_secret :: bytes

definition pair_base :: "rstr \<Rightarrow> rstr \<times> rstr \<Rightarrow> gs_query" where
  "pair_base device_name extra = [(lit ''devicename'', device_name), (lit ''updateState'', lit ''1''), extra]"

definition says_paired :: "rstr \<Rightarrow> bool" where
  "says_paired a = (xml_text a (lit ''paired'') = Some (lit ''1''))"

definition unpair :: "'h pair_requests \<Rightarrow> 'h \<Rightarrow> 'h" where
  "unpair host h = snd (host False [(lit ''phrase'', lit ''unpair'')] h)"

text \<open>One request: its answer goes on, a transport error ends the pairing.\<close>

type_synonym 'h pair_result = "(pairing_error + bytes) option \<times> 'h"

definition ask :: "'h pair_requests \<Rightarrow> bool \<Rightarrow> gs_query \<Rightarrow> 'h \<Rightarrow> (rstr \<Rightarrow> 'h \<Rightarrow> 'h pair_result) \<Rightarrow> 'h pair_result" where
  "ask host https query h go =
     (case host https query h of
        (None, h) \<Rightarrow> (None, h)
      | (Some (Inl e), h) \<Rightarrow> (Some (Inl e), h)
      | (Some (Inr a), h) \<Rightarrow> go a h)"

text \<open>A hexadecimal value of an answer.\<close>

definition with_hex :: "rstr \<Rightarrow> rstr \<Rightarrow> 'h \<Rightarrow> (bytes option \<Rightarrow> 'h pair_result) \<Rightarrow> 'h pair_result" where
  "with_hex a name h go = (case xml_hex a name of None \<Rightarrow> (None, h) | Some v \<Rightarrow> go v)"

definition give_up :: "'h pair_requests \<Rightarrow> pairing_error \<Rightarrow> 'h \<Rightarrow> 'h pair_result" where
  "give_up host e h = (Some (Inl e), unpair host h)"

definition or_empty :: "'a list option \<Rightarrow> 'a list" where
  "or_empty v = (case v of None \<Rightarrow> [] | Some x \<Rightarrow> x)"

text \<open>Steps 4 and 5: the secret, and the check over HTTPS.\<close>

definition client_finish :: "'h pair_requests \<Rightarrow> credentials \<Rightarrow> rstr \<Rightarrow> client_random \<Rightarrow> bytes \<Rightarrow> 'h \<Rightarrow> 'h pair_result" where
  "client_finish host cr device_name rnd server_der h =
     ask host False (pair_base device_name (lit ''clientpairingsecret'', encode_hex (rn_secret rnd @ cr_sign cr (rn_secret rnd)))) h
       (\<lambda>a h. if \<not> says_paired a then give_up host (Pairing (lit ''the host did not accept our secret'')) h
         else ask host True (pair_base device_name (lit ''phrase'', lit ''pairchallenge'')) h
           (\<lambda>a h. if \<not> says_paired a then give_up host (Pairing (lit ''the host'' @ [39] @ lit ''s HTTPS pairing check failed'')) h
             else (Some (Inr server_der), h)))"

text \<open>Step 3: the answer to the host's challenge, then the host's secret, its signature and its hash of step 2.\<close>

definition pad32 :: "bytes \<Rightarrow> bytes" where
  "pad32 d = take 32 (d @ replicate (32 - length d) 0)"

definition client_answer :: "'h pair_requests \<Rightarrow> gs_crypto \<Rightarrow> credentials \<Rightarrow> gs_hash \<Rightarrow> bytes \<Rightarrow> rstr \<Rightarrow> client_random \<Rightarrow> bytes \<Rightarrow> bytes
    \<Rightarrow> bytes \<Rightarrow> 'h \<Rightarrow> 'h pair_result" where
  "client_answer host c cr hash key device_name rnd server_der server_response server_challenge h =
     (let padded = pad32 (digest c hash (server_challenge @ cr_signature cr @ rn_secret rnd))
      in ask host False (pair_base device_name (lit ''serverchallengeresp'', encode_hex (ecb_encrypt c key padded))) h
        (\<lambda>a h. if \<not> says_paired a then give_up host (Pairing (lit ''the host refused our answer'')) h
          else with_hex a (lit ''pairingsecret'') h (\<lambda>v.
            let pairing_secret = or_empty v; server_secret = take 16 pairing_secret
            in if length pairing_secret \<le> 16 then give_up host (Pairing (lit ''the host'' @ [39] @ lit ''s pairing secret is short'')) h
               else if \<not> gc_verify c server_der server_secret (drop 16 pairing_secret)
               then give_up host (Pairing (lit ''the host'' @ [39] @ lit ''s secret is not signed by its certificate: someone in the middle'')) h
               else case gc_signature c server_der of
                   None \<Rightarrow> (Some (Inl PairCertificate), h)
                 | Some signature \<Rightarrow>
                     if digest c hash (rn_challenge rnd @ signature @ server_secret) \<noteq> server_response then give_up host WrongPin h
                     else client_finish host cr device_name rnd server_der h)))"

text \<open>Step 2: a challenge.\<close>

definition client_challenge :: "'h pair_requests \<Rightarrow> gs_crypto \<Rightarrow> credentials \<Rightarrow> gs_hash \<Rightarrow> bytes \<Rightarrow> rstr \<Rightarrow> client_random \<Rightarrow> bytes \<Rightarrow> 'h
    \<Rightarrow> 'h pair_result" where
  "client_challenge host c cr hash key device_name rnd server_der h =
     ask host False (pair_base device_name (lit ''clientchallenge'', encode_hex (ecb_encrypt c key (rn_challenge rnd)))) h
       (\<lambda>a h. if \<not> says_paired a then give_up host (Pairing (lit ''the host refused our challenge'')) h
         else with_hex a (lit ''challengeresponse'') h (\<lambda>v.
           let response = ecb_decrypt c key (or_empty v); n = output_len hash
           in if length response < n + 16 then give_up host (Pairing (lit ''the host'' @ [39] @ lit ''s challenge response is short'')) h
              else client_answer host c cr hash key device_name rnd server_der (take n response) (take 16 (drop n response)) h))"

text \<open>Step 1, and the whole of it.\<close>

definition pair_client :: "'h pair_requests \<Rightarrow> gs_crypto \<Rightarrow> credentials \<Rightarrow> rstr \<Rightarrow> rstr \<Rightarrow> rstr \<Rightarrow> client_random \<Rightarrow> 'h \<Rightarrow> 'h pair_result" where
  "pair_client host c cr app_version pin device_name rnd h =
     (let hash = hash_for app_version; key = pin_key c hash (rn_salt rnd) pin
      in ask host False
        (pair_base device_name (lit ''phrase'', lit ''getservercert'')
          @ [(lit ''salt'', encode_hex (rn_salt rnd)), (lit ''clientcert'', encode_hex (as_bytes (cr_pem cr)))]) h
        (\<lambda>a h. case xml_ok a of
            Inl (code, message) \<Rightarrow> (Some (Inl (PairStatus code message)), h)
          | Inr _ \<Rightarrow>
              if \<not> says_paired a then (Some (Inl (Pairing (lit ''the host refused to pair''))), h)
              else with_hex a (lit ''plaincert'') h (\<lambda>v.
                if or_empty v = [] then (Some (Inl (Pairing (lit ''the host is already pairing with someone''))), h)
                else case gc_pem_to_der c (or_empty v) of
                    None \<Rightarrow> (Some (Inl PairCertificate), h)
                  | Some server_der \<Rightarrow> client_challenge host c cr hash key device_name rnd server_der h)))"

text \<open>The PIN a client shows: four digits.\<close>

definition new_pin :: "32 word \<Rightarrow> rstr" where
  "new_pin n = (let d = decimal (unat n mod 10000) in replicate (4 - length d) 48 @ d)"

section \<open>The host\<close>

datatype pair_phase = WaitingForPin | ServerCert | ClientChallenge | ServerChallengeResponse

record host_pairing =
  hp_phase :: pair_phase
  hp_salt :: bytes
  hp_cert :: bytes
  hp_device :: rstr
  hp_key :: "bytes option"
  hp_secret :: bytes
  hp_challenge :: bytes
  hp_hash :: bytes

record pair_step =
  ps_xml :: rstr
  ps_paired :: "bytes option"
  ps_done :: bool

definition pair_fail :: "rstr \<Rightarrow> pair_step" where
  "pair_fail message = \<lparr>ps_xml = xml_response 400 (Some message) [(lit ''paired'', lit ''0'')], ps_paired = None, ps_done = True\<rparr>"

definition pairing_start :: "gs_crypto \<Rightarrow> rstr \<Rightarrow> rstr \<Rightarrow> rstr \<Rightarrow> (rstr + host_pairing) option" where
  "pairing_start c salt_hex client_cert_hex device_name =
     (case decode_hex salt_hex of
        None \<Rightarrow> None
      | Some salt \<Rightarrow>
          if length (or_empty salt) < 16 then Some (Inl (lit ''Salt too short''))
          else case decode_hex client_cert_hex of
              None \<Rightarrow> None
            | Some None \<Rightarrow> Some (Inl (lit ''Invalid client certificate''))
            | Some (Some pem) \<Rightarrow>
                (case gc_pem_to_der c pem of
                   None \<Rightarrow> Some (Inl (lit ''Invalid client certificate''))
                 | Some der \<Rightarrow>
                     Some (Inr \<lparr>hp_phase = WaitingForPin, hp_salt = take 16 (or_empty salt), hp_cert = der, hp_device = device_name,
                       hp_key = None, hp_secret = replicate 16 0, hp_challenge = replicate 16 0, hp_hash = []\<rparr>)))"

definition pairing_pin :: "gs_crypto \<Rightarrow> credentials \<Rightarrow> rstr \<Rightarrow> host_pairing \<Rightarrow> rstr \<times> host_pairing" where
  "pairing_pin c server pin hp =
     (xml_response 200 None [(lit ''paired'', lit ''1''), (lit ''plaincert'', encode_hex (as_bytes (cr_pem server)))],
      hp\<lparr>hp_key := Some (pin_key c Sha256 (hp_salt hp) pin), hp_phase := ServerCert\<rparr>)"

text \<open>An argument of a request, decoded; the outer \<open>None\<close> is the panic of \<open>decode_hex\<close>.\<close>

definition hex_arg :: "gs_query \<Rightarrow> rstr \<Rightarrow> bytes option option" where
  "hex_arg query name = (case map_of query name of None \<Rightarrow> Some None | Some v \<Rightarrow> decode_hex v)"

definition step_challenge :: "gs_crypto \<Rightarrow> credentials \<Rightarrow> bytes \<times> bytes \<Rightarrow> bytes \<Rightarrow> bytes \<Rightarrow> host_pairing \<Rightarrow> pair_step \<times> host_pairing" where
  "step_challenge c server fresh key challenge hp =
     (if hp_phase hp \<noteq> ServerCert then (pair_fail (lit ''Out of order call to clientchallenge''), hp)
      else
        (let plain = gc_sha256 c (ecb_decrypt c key challenge @ cr_signature server @ fst fresh) @ snd fresh
         in (\<lparr>ps_xml = xml_response 200 None [(lit ''paired'', lit ''1''), (lit ''challengeresponse'', encode_hex (ecb_encrypt c key plain))],
              ps_paired = None, ps_done = False\<rparr>,
             hp\<lparr>hp_phase := ClientChallenge, hp_secret := fst fresh, hp_challenge := snd fresh\<rparr>)))"

definition step_response :: "gs_crypto \<Rightarrow> credentials \<Rightarrow> bytes \<Rightarrow> bytes \<Rightarrow> host_pairing \<Rightarrow> pair_step \<times> host_pairing" where
  "step_response c server key response hp =
     (if hp_phase hp \<noteq> ClientChallenge then (pair_fail (lit ''Out of order call to serverchallengeresp''), hp)
      else
        (\<lparr>ps_xml = xml_response 200 None
             [(lit ''pairingsecret'', encode_hex (hp_secret hp @ cr_sign server (hp_secret hp))), (lit ''paired'', lit ''1'')],
           ps_paired = None, ps_done = False\<rparr>,
         hp\<lparr>hp_phase := ServerChallengeResponse, hp_hash := ecb_decrypt c key response\<rparr>))"

definition step_secret :: "gs_crypto \<Rightarrow> bytes \<Rightarrow> host_pairing \<Rightarrow> pair_step" where
  "step_secret c secret hp =
     (if hp_phase hp \<noteq> ServerChallengeResponse then pair_fail (lit ''Out of order call to clientpairingsecret'')
      else if length secret \<le> 16 then pair_fail (lit ''Client pairing secret too short'')
      else case gc_signature c (hp_cert hp) of
          None \<Rightarrow> pair_fail (lit ''Invalid client certificate'')
        | Some signature \<Rightarrow>
            (let same = (gc_sha256 c (hp_challenge hp @ signature @ take 16 secret) = take 32 (hp_hash hp));
                 signed = gc_verify c (hp_cert hp) (take 16 secret) (drop 16 secret);
                 paired = (same \<and> signed)
             in \<lparr>ps_xml = xml_response 200 None [(lit ''paired'', if paired then lit ''1'' else lit ''0'')],
                  ps_paired = (if paired then Some (hp_cert hp) else None), ps_done = True\<rparr>))"

definition pairing_step :: "gs_crypto \<Rightarrow> credentials \<Rightarrow> bytes \<times> bytes \<Rightarrow> gs_query \<Rightarrow> host_pairing \<Rightarrow> (pair_step \<times> host_pairing) option" where
  "pairing_step c server fresh query hp =
     (case hp_key hp of
        None \<Rightarrow> Some (pair_fail (lit ''Pairing not started''), hp)
      | Some key \<Rightarrow>
          (case hex_arg query (lit ''clientchallenge'') of
             None \<Rightarrow> None
           | Some (Some challenge) \<Rightarrow> Some (step_challenge c server fresh key challenge hp)
           | Some None \<Rightarrow>
               (case hex_arg query (lit ''serverchallengeresp'') of
                  None \<Rightarrow> None
                | Some (Some response) \<Rightarrow> Some (step_response c server key response hp)
                | Some None \<Rightarrow>
                    (case hex_arg query (lit ''clientpairingsecret'') of
                       None \<Rightarrow> None
                     | Some (Some secret) \<Rightarrow> Some (step_secret c secret hp, hp)
                     | Some None \<Rightarrow> Some (pair_fail (lit ''Invalid pairing request''), hp)))))"

section \<open>The block cipher's modes come back\<close>

lemma chunks_exact: "length d mod 16 = 0 \<Longrightarrow> list_all (\<lambda>b. length b = 16) (chunks_of 16 d)"
proof (induction "length d" arbitrary: d rule: less_induct)
  case less
  show ?case
  proof (cases "d = []")
    case False
    then have "16 \<le> length d"
      using less.prems by (metis length_0_conv mod_less not_less)
    moreover have "length (drop 16 d) mod 16 = 0"
      using less.prems \<open>16 \<le> length d\<close> by (simp add: le_mod_geq [symmetric])
    ultimately show ?thesis
      using less.hyps [of "drop 16 d"] False by (simp add: chunks_of_step)
  qed simp
qed

lemma chunks_append: "length b = 16 \<Longrightarrow> chunks_of 16 (b @ d) = b # chunks_of 16 d"
  by (subst chunks_of_step) auto

lemma whole_blocks_of: "length d mod 16 = 0 \<Longrightarrow> whole_blocks d = chunks_of 16 d \<and> list_all (\<lambda>b. length b = 16) (chunks_of 16 d)"
  using chunks_exact [of d] by (simp add: whole_blocks_def list_all_iff filter_id_conv)

lemma whole_blocks_concat:
  assumes "list_all (\<lambda>b. length b = 16) bs"
  shows "whole_blocks (concat bs) = bs"
proof -
  have "chunks_of 16 (concat bs) = bs"
    using assms by (induction bs) (simp_all add: chunks_append)
  then show ?thesis
    using assms by (simp add: whole_blocks_def list_all_iff filter_id_conv)
qed

lemma ecb_comes_back:
  assumes "cipher_ok c" "length d mod 16 = 0"
  shows "ecb_decrypt c key (ecb_encrypt c key d) = d"
proof -
  note w = whole_blocks_of [OF assms(2)]
  have "whole_blocks (ecb_encrypt c key d) = map (gc_encrypt c key) (chunks_of 16 d)"
    using w assms(1) whole_blocks_concat [of "map (gc_encrypt c key) (chunks_of 16 d)"]
    by (simp add: ecb_encrypt_def cipher_ok_def list_all_iff)
  moreover have "map (gc_decrypt c key) (map (gc_encrypt c key) (chunks_of 16 d)) = chunks_of 16 d"
    using w assms(1) by (auto simp: cipher_ok_def list_all_iff intro!: map_idI)
  ultimately show ?thesis
    using concat_chunks_of [of 16 d] by (simp add: ecb_decrypt_def del: map_map)
qed

lemma xor_twice: "length a = length b \<Longrightarrow> map2 (XOR) (map2 (XOR) a b) b = (a :: bytes)"
  by (induction a b rule: list_induct2) (simp_all add: xor.assoc)

text \<open>The sealed blocks.\<close>

fun cbc_list :: "gs_crypto \<Rightarrow> bytes \<Rightarrow> bytes \<Rightarrow> bytes list \<Rightarrow> bytes list" where
  "cbc_list c key previous [] = []"
| "cbc_list c key previous (b # bs) =
     (let sealed = gc_encrypt c key (map2 (XOR) b previous) in sealed # cbc_list c key sealed bs)"

lemma cbc_blocks_list: "cbc_blocks c key previous bs = concat (cbc_list c key previous bs)"
  by (induction bs arbitrary: previous) (simp_all add: Let_def)

lemma cbc_list_back:
  assumes "cipher_ok c" "list_all (\<lambda>b. length b = 16) bs" "length previous = 16"
  shows "list_all (\<lambda>b. length b = 16) (cbc_list c key previous bs) \<and> cbc_open c key previous (cbc_list c key previous bs) = concat bs"
  using assms(2,3)
proof (induction bs arbitrary: previous)
  case (Cons b bs)
  let ?x = "map2 (XOR) b previous"
  have x: "length ?x = 16"
    using Cons.prems by simp
  then have "length (gc_encrypt c key ?x) = 16" "gc_decrypt c key (gc_encrypt c key ?x) = ?x"
    using assms(1) by (simp_all only: cipher_ok_def)
  then show ?case
    using Cons.IH [of "gc_encrypt c key ?x"] Cons.prems xor_twice [of b previous] by (simp add: Let_def)
qed simp

text \<open>
  Audio sealed in blocks opens again: under any key and first block, what is encrypted with the padding is what is
  decrypted, whatever its length, the empty packet included.
\<close>

theorem cbc_comes_back:
  assumes "cipher_ok c" "length iv = 16"
  shows "cbc_decrypt c key iv (cbc_encrypt c key iv d) = Some d"
proof -
  define pad where "pad = 16 - length d mod 16"
  define padded where "padded = d @ replicate pad (of_nat pad :: u8)"
  have pad: "0 < pad" "pad \<le> 16"
    by (simp_all add: pad_def)
  have n: "length padded mod 16 = 0"
  proof -
    have "16 * (length d div 16) + length d mod 16 = length d" "length d mod 16 < 16"
      by simp_all
    then have "length padded = 16 * (length d div 16) + 16"
      unfolding padded_def pad_def length_append length_replicate by linarith
    then show ?thesis
      by simp
  qed
  note w = whole_blocks_of [OF n]
  let ?sealed = "cbc_list c key iv (chunks_of 16 padded)"
  have opens: "list_all (\<lambda>b. length b = 16) ?sealed" "cbc_open c key iv ?sealed = padded"
    using cbc_list_back [OF assms(1) _ assms(2), of "chunks_of 16 padded" key] w concat_chunks_of [of 16 padded] by simp_all
  have enc: "cbc_encrypt c key iv d = concat ?sealed"
    using w by (simp add: cbc_encrypt_def cbc_blocks_list padded_def pad_def)
  have "padded \<noteq> []"
    using pad by (simp add: padded_def)
  then have "?sealed \<noteq> []"
    by (simp add: chunks_of_step Let_def)
  have len: "length (concat bs) mod 16 = 0" if "list_all (\<lambda>b. length b = 16) bs" for bs :: "bytes list"
    using that by (induction bs) simp_all
  have "concat ?sealed \<noteq> []"
    using opens(1) \<open>?sealed \<noteq> []\<close> by (cases ?sealed) auto
  moreover have "unat (last padded) = pad"
    using pad by (simp add: padded_def unat_of_nat_u8)
  moreover have "drop (length padded - pad) padded = replicate pad (of_nat pad)" "take (length padded - pad) padded = d"
    by (simp_all add: padded_def)
  ultimately show ?thesis
    using len [OF opens(1)] pad \<open>padded \<noteq> []\<close>
    by (simp add: cbc_decrypt_def enc whole_blocks_concat [OF opens(1)] opens(2) Let_def list_ex_iff unat_of_nat_u8)
qed

section \<open>What an answer holds\<close>

lemma xml_text_absent:
  assumes "plain_name name" "list_all (\<lambda>(other, _). plain_name other \<and> other \<noteq> name) els"
  shows "xml_text (xml_response code message els) name = None"
proof -
  have "cut_at (open_tag name) (lit ''</root>'') = None"
    using plain_name_chars [OF assms(1)] by (cases name) (auto simp: starts_with_def open_tag_def plain_name_def alphanumeric_def)
  then have "cut_at (open_tag name) (concat (map xml_element els) @ lit ''</root>'') = None"
    using cut_elements [OF assms] by (simp del: lit_Cons)
  then show ?thesis
    using head_has_no_tag [OF assms(1)] by (simp add: xml_text_def xml_response_def del: lit_Cons)
qed

text \<open>The values a document was written with are those found under their names.\<close>

lemma xml_text_els:
  assumes "plain_name name" "list_all (\<lambda>(other, v). plain_name other \<and> trim v = v) els"
  shows "xml_text (xml_response code message els) name = map_of els name"
proof (cases "map_of els name")
  case None
  then have "name \<notin> fst ` set els"
    by (simp add: map_of_eq_None_iff)
  then have "list_all (\<lambda>(other, _). plain_name other \<and> other \<noteq> name) els"
    using assms(2) by (force simp: list_all_iff)
  then show ?thesis
    using None xml_text_absent [OF assms(1)] by simp
next
  case (Some v)
  then obtain before after where els: "els = before @ (name, v) # after" "name \<notin> fst ` set before"
    by (induction els) (force split: if_splits simp: Cons_eq_append_conv)+
  then have "list_all (\<lambda>(other, _). plain_name other \<and> other \<noteq> name) before" "trim v = v"
    using assms(2) by (force simp: list_all_iff)+
  then show ?thesis
    using xml_text_of_response [OF assms(1)] Some els(1) by simp
qed

end
