(* ===== verification/Gs_Server.thy ===== *)
theory Gs_Server
  imports Gs_Http Gs_Pairing "HOL-Library.AList"
begin

text \<open>
  The GameStream host (\<open>gamestream/src/server.rs\<close>) and the launch it keeps (\<open>gamestream/src/stream.rs\<close>): the
  requests of a connection, the pairings that wait for a PIN, the paired clients and their file, the launched app.
  A server is a record; every request, typed PIN and end of a wait is a step on it. Connections are numbered. Random
  bytes, the time and the order a hash map is walked in are arguments.
\<close>

section \<open>The server\<close>

record gs_pending =
  pd_pairing :: host_pairing
  pd_device :: rstr
  pd_from :: rstr
  pd_answer :: "nat option"

record gs_launch =
  gl_app :: nat
  gl_key :: bytes
  gl_key_id :: u32
  gl_width :: nat
  gl_height :: nat
  gl_fps :: nat
  gl_ping_payload :: rstr
  gl_connect_data :: u32
  gl_stop :: bool
  gl_video_encryption :: bool
  gl_streaming :: bool

text \<open>
  All launches ever made stand in a list, the current one by its place: streams keep theirs after the server has
  let go of it. \<open>sv_held\<close> are the connections whose request waits for a PIN, with the client's id. \<open>sv_poisoned\<close> is
  the state of the mutex of \<open>pending\<close> after a panic under it.
\<close>

record gs_server =
  sv_name :: rstr
  sv_unique_id :: rstr
  sv_credentials :: credentials
  sv_apps :: "gs_app list"
  sv_launches :: "gs_launch list"
  sv_launch :: "nat option"
  sv_paired :: "bytes list"
  sv_file :: "rstr option"
  sv_pending :: "(rstr \<times> gs_pending) list"
  sv_held :: "(nat \<times> rstr) list"
  sv_poisoned :: bool
  sv_codec_modes :: nat
  sv_https_port :: nat
  sv_rtsp_port :: nat
  sv_video_encryption :: bool

definition APP_VERSION :: rstr where "APP_VERSION = lit ''7.1.431.-1''"
definition GFE_VERSION :: rstr where "GFE_VERSION = lit ''3.23.0.74''"
definition HTTPS_PORT :: nat where "HTTPS_PORT = 47984"
definition HTTP_PORT :: nat where "HTTP_PORT = 47989"
definition RTSP_PORT :: nat where "RTSP_PORT = 48010"

text \<open>The lines of the file of paired clients; \<open>None\<close> is the panic of \<open>decode_hex\<close>.\<close>

fun read_clients :: "rstr list \<Rightarrow> bytes list option" where
  "read_clients [] = Some []"
| "read_clients (l # ls) =
     (case decode_hex l of
        None \<Rightarrow> None
      | Some None \<Rightarrow> read_clients ls
      | Some (Some cert) \<Rightarrow> map_option ((#) cert) (read_clients ls))"

definition ascii_upper :: "nat \<Rightarrow> nat" where
  "ascii_upper c = (if 97 \<le> c \<and> c \<le> 122 then c - 32 else c)"

definition server_unique_id :: "gs_crypto \<Rightarrow> credentials \<Rightarrow> rstr" where
  "server_unique_id c cr =
     (let h = map ascii_upper (encode_hex (take 16 (gc_sha256 c (cr_der cr))))
      in take 8 h @ [45] @ subslice h 8 12 @ [45] @ subslice h 12 16 @ [45] @ subslice h 16 20 @ [45] @ subslice h 20 32)"

definition server_open :: "gs_crypto \<Rightarrow> rstr \<Rightarrow> credentials \<Rightarrow> rstr option \<Rightarrow> gs_app list \<Rightarrow> gs_server option" where
  "server_open c name cr saved apps =
     (case (case saved of None \<Rightarrow> Some [] | Some text \<Rightarrow> read_clients (lines_of text)) of
        None \<Rightarrow> None
      | Some clients \<Rightarrow>
          Some \<lparr>sv_name = name, sv_unique_id = server_unique_id c cr, sv_credentials = cr, sv_apps = apps, sv_launches = [],
            sv_launch = None, sv_paired = clients, sv_file = saved, sv_pending = [], sv_held = [], sv_poisoned = False,
            sv_codec_modes = 1, sv_https_port = HTTPS_PORT, sv_rtsp_port = RTSP_PORT, sv_video_encryption = False\<rparr>)"

section \<open>Paired clients\<close>

definition is_paired :: "gs_server \<Rightarrow> bytes \<Rightarrow> bool" where
  "is_paired s cert = (cert \<in> set (sv_paired s))"

definition clients_text :: "bytes list \<Rightarrow> rstr" where
  "clients_text certs = concat (map (\<lambda>cert. encode_hex cert @ [10]) certs)"

text \<open>\<open>saves\<close> says whether the file could be written.\<close>

definition pin_gs_client :: "bool \<Rightarrow> bytes \<Rightarrow> gs_server \<Rightarrow> gs_server" where
  "pin_gs_client saves cert s =
     (if is_paired s cert then s
      else
        (let paired = sv_paired s @ [cert]
         in s\<lparr>sv_paired := paired, sv_file := (if saves then Some (clients_text paired) else sv_file s)\<rparr>))"

section \<open>Pairing\<close>

definition put_pending :: "rstr \<Rightarrow> gs_pending \<Rightarrow> gs_server \<Rightarrow> gs_server" where
  "put_pending uid p s = s\<lparr>sv_pending := AList.update uid p (sv_pending s)\<rparr>"

definition drop_pending :: "rstr \<Rightarrow> gs_server \<Rightarrow> gs_server" where
  "drop_pending uid s = s\<lparr>sv_pending := filter (\<lambda>(u, _). u \<noteq> uid) (sv_pending s)\<rparr>"

definition pairing_requests :: "gs_server \<Rightarrow> (rstr \<times> rstr) list" where
  "pairing_requests s = map (\<lambda>(_, p). (pd_device p, pd_from p)) (filter (\<lambda>(_, p). pd_answer p \<noteq> None) (sv_pending s))"

definition takes_pin :: "gs_server \<Rightarrow> rstr option \<Rightarrow> rstr \<Rightarrow> bool" where
  "takes_pin s device_name uid =
     (case map_of (sv_pending s) uid of
        None \<Rightarrow> False
      | Some p \<Rightarrow> pd_answer p \<noteq> None \<and> (device_name = None \<or> device_name = Some (pd_device p)))"

text \<open>
  The PIN is typed; \<open>order\<close> is the order the map is walked in. The result is \<open>None\<close> for a panic, otherwise the held
  connection that gets its answer (\<open>Some None\<close>: nobody took the PIN).
\<close>

definition enter_pin :: "gs_crypto \<Rightarrow> rstr list \<Rightarrow> rstr \<Rightarrow> rstr option \<Rightarrow> gs_server \<Rightarrow> (nat \<times> rstr) option option \<times> gs_server" where
  "enter_pin c order pin device_name s =
     (if sv_poisoned s then (None, s)
      else case find (takes_pin s device_name) order of
          None \<Rightarrow> (Some None, s)
        | Some uid \<Rightarrow>
            (case map_of (sv_pending s) uid of
               None \<Rightarrow> (Some None, s)
             | Some p \<Rightarrow>
                 (case pd_answer p of
                    None \<Rightarrow> (Some None, s)
                  | Some conn \<Rightarrow>
                      let (xml, hp) = pairing_pin c (sv_credentials s) pin (pd_pairing p)
                      in (Some (if conn \<in> fst ` set (sv_held s) then Some (conn, xml) else None),
                          (put_pending uid (p\<lparr>pd_pairing := hp, pd_answer := None\<rparr>) s)
                            \<lparr>sv_held := filter (\<lambda>(n, _). n \<noteq> conn) (sv_held s)\<rparr>))))"

text \<open>A held request that gets no answer (120 seconds, or its pairing forgotten) forgets the pairing of its id.\<close>

definition hold_ends :: "nat \<Rightarrow> gs_server \<Rightarrow> gs_server" where
  "hold_ends conn s =
     (case map_of (sv_held s) conn of
        None \<Rightarrow> s
      | Some uid \<Rightarrow>
          (let s = s\<lparr>sv_held := filter (\<lambda>(n, _). n \<noteq> conn) (sv_held s)\<rparr>
           in if sv_poisoned s then s else drop_pending uid s))"

datatype gs_reply = Answer rstr | Held | Panicked

definition arg_or_empty :: "gs_query \<Rightarrow> rstr \<Rightarrow> rstr" where
  "arg_or_empty query name = (case map_of query name of None \<Rightarrow> [] | Some v \<Rightarrow> v)"

record gs_fresh =
  fr_pair :: "bytes \<times> bytes"
  fr_ping :: bytes
  fr_connect :: u32
  fr_saves :: bool

definition pair_getservercert :: "gs_crypto \<Rightarrow> nat \<Rightarrow> rstr \<Rightarrow> rstr \<Rightarrow> gs_query \<Rightarrow> gs_server \<Rightarrow> gs_reply \<times> gs_server" where
  "pair_getservercert c conn from uid query s =
     (case pairing_start c (arg_or_empty query (lit ''salt'')) (arg_or_empty query (lit ''clientcert'')) (arg_or_empty query (lit ''devicename'')) of
        None \<Rightarrow> (Panicked, s)
      | Some (Inl message) \<Rightarrow> (Answer (xml_response 400 (Some message) [(lit ''paired'', lit ''0'')]), s)
      | Some (Inr hp) \<Rightarrow>
          if sv_poisoned s then (Panicked, s)
          else if takes_pin s None uid
          then (Answer (xml_response 409 (Some (lit ''A pairing session with this uniqueid already exists'')) [(lit ''paired'', lit ''0'')]), s)
          else (Held,
            (put_pending uid \<lparr>pd_pairing = hp, pd_device = hp_device hp, pd_from = from, pd_answer = Some conn\<rparr> s)
              \<lparr>sv_held := sv_held s @ [(conn, uid)]\<rparr>))"

definition pair_continue :: "gs_crypto \<Rightarrow> gs_fresh \<Rightarrow> rstr \<Rightarrow> gs_query \<Rightarrow> gs_server \<Rightarrow> gs_reply \<times> gs_server" where
  "pair_continue c fresh uid query s =
     (if sv_poisoned s then (Panicked, s)
      else case map_of (sv_pending s) uid of
          None \<Rightarrow> (Answer (xml_response 400 (Some (lit ''Invalid uniqueid'')) []), s)
        | Some p \<Rightarrow>
            (case pairing_step c (sv_credentials s) (fr_pair fresh) query (pd_pairing p) of
               None \<Rightarrow> (Panicked, s\<lparr>sv_poisoned := True\<rparr>)
             | Some (st, hp) \<Rightarrow>
                 let s = put_pending uid (p\<lparr>pd_pairing := hp\<rparr>) s;
                     s = (case ps_paired st of None \<Rightarrow> s | Some cert \<Rightarrow> pin_gs_client (fr_saves fresh) cert s)
                 in (Answer (ps_xml st), if ps_done st then drop_pending uid s else s)))"

definition serve_pair :: "gs_crypto \<Rightarrow> gs_fresh \<Rightarrow> nat \<Rightarrow> rstr \<Rightarrow> bool \<Rightarrow> bytes option \<Rightarrow> gs_query \<Rightarrow> gs_server \<Rightarrow> gs_reply \<times> gs_server" where
  "serve_pair c fresh conn from https cert query s =
     (case map_of query (lit ''uniqueid'') of
        None \<Rightarrow> (Answer (xml_response 400 (Some (lit ''Missing uniqueid parameter'')) []), s)
      | Some uid \<Rightarrow>
          (let phrase = map_of query (lit ''phrase'')
           in if phrase = Some (lit ''getservercert'') then pair_getservercert c conn from uid query s
              else if phrase = Some (lit ''pairchallenge'')
              then (Answer (xml_response 200 None
                  [(lit ''paired'', flag_text (https \<and> (case cert of None \<Rightarrow> False | Some d \<Rightarrow> is_paired s d)))]), s)
              else pair_continue c fresh uid query s))"

section \<open>What the host says of itself\<close>

definition running_launch :: "gs_server \<Rightarrow> gs_launch option" where
  "running_launch s =
     (case sv_launch s of
        None \<Rightarrow> None
      | Some i \<Rightarrow> (if gl_stop (sv_launches s ! i) then None else Some (sv_launches s ! i)))"

definition current_game :: "gs_server \<Rightarrow> nat" where
  "current_game s = (case running_launch s of None \<Rightarrow> 0 | Some l \<Rightarrow> gl_app l)"

definition server_info_els :: "rstr \<Rightarrow> bool \<Rightarrow> gs_server \<Rightarrow> (rstr \<times> rstr) list" where
  "server_info_els local_ip paired s =
     [(lit ''hostname'', sv_name s), (lit ''appversion'', APP_VERSION), (lit ''GfeVersion'', GFE_VERSION),
      (lit ''uniqueid'', sv_unique_id s), (lit ''HttpsPort'', decimal (sv_https_port s)), (lit ''ExternalPort'', decimal HTTP_PORT),
      (lit ''MaxLumaPixelsHEVC'', lit ''0''), (lit ''mac'', lit ''00:00:00:00:00:00''), (lit ''LocalIP'', local_ip),
      (lit ''ServerCodecModeSupport'', decimal (sv_codec_modes s)), (lit ''PairStatus'', flag_text paired),
      (lit ''currentgame'', decimal (current_game s)),
      (lit ''state'', if 0 < current_game s then lit ''SUNSHINE_SERVER_BUSY'' else lit ''SUNSHINE_SERVER_FREE'')]"

definition write_server_info :: "rstr \<Rightarrow> bool \<Rightarrow> gs_server \<Rightarrow> rstr" where
  "write_server_info local_ip paired s = xml_response 200 None (server_info_els local_ip paired s)"

definition app_element :: "gs_app \<Rightarrow> rstr" where
  "app_element app =
     lit ''<App>'' @ lit ''<IsHdrSupported>'' @ flag_text (ga_hdr app) @ lit ''</IsHdrSupported><AppTitle>'' @ xml_escape (ga_title app)
       @ lit ''</AppTitle><ID>'' @ decimal (ga_id app) @ lit ''</ID></App>''"

definition app_list :: "gs_server \<Rightarrow> rstr" where
  "app_list s =
     lit ''<?xml version=\"1.0\" encoding=\"utf-8\"?>'' @ [10] @ lit ''<root status_code=\"200\">''
       @ concat (map app_element (sv_apps s)) @ lit ''</root>''"

section \<open>Launching\<close>

definition ALPHABET :: rstr where
  "ALPHABET = lit ''ABCDEFGHIJKLMNOPQRSTUVWXYZabcdefghijklmnopqrstuvwxyz0123456789''"

definition launch_new :: "gs_fresh \<Rightarrow> nat \<Rightarrow> bytes \<Rightarrow> u32 \<Rightarrow> nat \<times> nat \<times> nat \<Rightarrow> bool \<Rightarrow> gs_launch" where
  "launch_new fresh app key key_id mode video_encryption =
     \<lparr>gl_app = app, gl_key = key, gl_key_id = key_id, gl_width = fst mode, gl_height = fst (snd mode), gl_fps = snd (snd mode),
       gl_ping_payload = map (\<lambda>b. ALPHABET ! (unat b mod length ALPHABET)) (fr_ping fresh), gl_connect_data = fr_connect fresh,
       gl_stop = False, gl_video_encryption = video_encryption, gl_streaming = False\<rparr>"

definition parse_mode :: "rstr \<Rightarrow> nat \<times> nat \<times> nat" where
  "parse_mode text =
     (let mode = List.map_filter (parse_unsigned (2 ^ 32 - 1)) (split_on 120 text);
          nth_or = (\<lambda>i d. if i < length mode then mode ! i else d)
      in (nth_or 0 1280, nth_or 1 720, if 2 < length mode \<and> 0 < mode ! 2 then mode ! 2 else 60))"

definition stop_launch :: "gs_server \<Rightarrow> gs_server" where
  "stop_launch s =
     (case sv_launch s of
        None \<Rightarrow> s
      | Some i \<Rightarrow> s\<lparr>sv_launches := (sv_launches s)[i := (sv_launches s ! i)\<lparr>gl_stop := True\<rparr>], sv_launch := None\<rparr>)"

definition start_launch :: "gs_launch \<Rightarrow> gs_server \<Rightarrow> gs_server" where
  "start_launch l s =
     (let s = stop_launch s in s\<lparr>sv_launches := sv_launches s @ [l], sv_launch := Some (length (sv_launches s))\<rparr>)"

definition refuse :: "nat \<Rightarrow> string \<Rightarrow> string \<Rightarrow> gs_reply" where
  "refuse code message name = Answer (xml_response code (Some (lit message)) [(lit name, lit ''0'')])"

text \<open>The app a launch names, or the refusal.\<close>

definition launch_app :: "bool \<Rightarrow> gs_query \<Rightarrow> gs_server \<Rightarrow> gs_reply + nat" where
  "launch_app resume query s =
     (if resume then
        (case running_launch s of None \<Rightarrow> Inl (refuse 503 ''No app is running to resume'' ''resume'') | Some l \<Rightarrow> Inr (gl_app l))
      else if running_launch s \<noteq> None then Inl (refuse 400 ''An app is already running on this host'' ''resume'')
      else case (case map_of query (lit ''appid'') of None \<Rightarrow> None | Some a \<Rightarrow> parse_unsigned (2 ^ 32 - 1) a) of
          None \<Rightarrow> Inl (refuse 404 ''No such app'' ''gamesession'')
        | Some app \<Rightarrow> if app \<in> ga_id ` set (sv_apps s) then Inr app else Inl (refuse 404 ''No such app'' ''gamesession''))"

text \<open>The address is written with the host's local one, in brackets when it has colons.\<close>

definition session_url :: "rstr \<Rightarrow> gs_server \<Rightarrow> rstr" where
  "session_url local_ip s =
     lit ''rtsp://'' @ (if 58 \<in> set local_ip then [91] @ local_ip @ [93] else local_ip) @ [58] @ decimal (sv_rtsp_port s)"

definition serve_launch :: "gs_fresh \<Rightarrow> bool \<Rightarrow> gs_query \<Rightarrow> rstr \<Rightarrow> gs_server \<Rightarrow> gs_reply \<times> gs_server" where
  "serve_launch fresh resume query local_ip s =
     (case hex_arg query (lit ''rikey'') of
        None \<Rightarrow> (Panicked, s)
      | Some key \<Rightarrow>
          (case (key, case map_of query (lit ''rikeyid'') of None \<Rightarrow> None | Some k \<Rightarrow> parse_i64 k) of
             (Some key, Some key_id) \<Rightarrow>
               if length key \<noteq> 16 then (refuse 400 ''Missing a required launch parameter'' ''resume'', s)
               else (case launch_app resume query s of
                   Inl refusal \<Rightarrow> (refusal, s)
                 | Inr app \<Rightarrow>
                     (Answer (xml_response 200 None
                        [(lit ''sessionUrl0'', session_url local_ip s), (lit ''gamesession'', lit ''1''), (lit ''resume'', flag_text resume)]),
                      start_launch (launch_new fresh app key (of_int key_id) (parse_mode (arg_or_empty query (lit ''mode''))) (sv_video_encryption s)) s))
           | _ \<Rightarrow> (refuse 400 ''Missing a required launch parameter'' ''resume'', s)))"

section \<open>A connection\<close>

text \<open>One request: \<open>peer\<close> is \<open>None\<close> on plain HTTP, otherwise the client's certificate, if it sent one.\<close>

definition peer_paired :: "bytes option option \<Rightarrow> gs_server \<Rightarrow> bool" where
  "peer_paired peer s = (case peer of Some (Some cert) \<Rightarrow> is_paired s cert | _ \<Rightarrow> False)"

definition peer_cert :: "bytes option option \<Rightarrow> bytes option" where
  "peer_cert peer = (case peer of None \<Rightarrow> None | Some cert \<Rightarrow> cert)"

definition unauthorized :: rstr where
  "unauthorized = xml_response 401 (Some (lit ''The client is not authorized. Certificate verification failed.'')) []"

definition serve_request :: "gs_crypto \<Rightarrow> gs_fresh \<Rightarrow> nat \<Rightarrow> rstr \<Rightarrow> rstr \<Rightarrow> bytes option option \<Rightarrow> rstr \<Rightarrow> gs_query \<Rightarrow> gs_server
    \<Rightarrow> gs_reply \<times> gs_server" where
  "serve_request c fresh conn from local_ip peer path query s =
     (let paired = peer_paired peer s
      in if path = lit ''/serverinfo'' then (Answer (write_server_info local_ip paired s), s)
         else if path = lit ''/pair'' then serve_pair c fresh conn from (peer \<noteq> None) (peer_cert peer) query s
         else if path \<in> set [lit ''/applist'', lit ''/launch'', lit ''/resume'', lit ''/cancel''] then
           (if \<not> paired then (Answer unauthorized, s)
            else if path = lit ''/applist'' then (Answer (app_list s), s)
            else if path = lit ''/cancel'' then (Answer (xml_response 200 None [(lit ''cancel'', lit ''1'')]), stop_launch s)
            else serve_launch fresh (path = lit ''/resume'') query local_ip s)
         else (Answer (xml_response 404 None []), s))"

text \<open>A connection's bytes; a request that cannot be read is dropped.\<close>

definition serve_connection :: "gs_crypto \<Rightarrow> gs_fresh \<Rightarrow> nat \<Rightarrow> rstr \<Rightarrow> rstr \<Rightarrow> bytes option option \<Rightarrow> u8 option list \<Rightarrow> gs_server
    \<Rightarrow> gs_reply option \<times> gs_server" where
  "serve_connection c fresh conn from local_ip peer events s =
     (case read_http events of
        None \<Rightarrow> (None, s)
      | Some (path, query) \<Rightarrow> map_prod Some id (serve_request c fresh conn from local_ip peer path query s))"

section \<open>Histories\<close>

text \<open>What can happen to the host: a request, a typed PIN, the end of a wait.\<close>

datatype gs_event =
  Request gs_fresh rstr rstr "bytes option option" rstr gs_query
| Pin_typed "rstr list" rstr "rstr option"
| Hold_ends nat

fun gs_step :: "gs_crypto \<Rightarrow> gs_event \<Rightarrow> gs_server \<times> nat \<Rightarrow> gs_server \<times> nat" where
  "gs_step c (Request fresh from local_ip peer path query) (s, n) = (snd (serve_request c fresh n from local_ip peer path query s), Suc n)"
| "gs_step c (Pin_typed order pin device_name) (s, n) = (snd (enter_pin c order pin device_name s), n)"
| "gs_step c (Hold_ends conn) (s, n) = (hold_ends conn s, n)"

fun gs_run :: "gs_crypto \<Rightarrow> gs_event list \<Rightarrow> gs_server \<times> nat \<Rightarrow> gs_server \<times> nat" where
  "gs_run c [] st = st"
| "gs_run c (e # es) st = gs_run c es (gs_step c e st)"

definition pins_typed :: "gs_event list \<Rightarrow> nat" where
  "pins_typed es = length (filter (\<lambda>e. case e of Pin_typed _ _ _ \<Rightarrow> True | _ \<Rightarrow> False) es)"

section \<open>The tables of the host agree\<close>

text \<open>
  Each id has one pairing; a pairing has a key exactly when its PIN was typed, and until then a connection waits
  for it; waiting connections have numbers of their own; only the current launch is not stopped.
\<close>

definition pending_ok :: "(nat \<times> rstr) list \<Rightarrow> rstr \<times> gs_pending \<Rightarrow> bool" where
  "pending_ok held = (\<lambda>(uid, p). (case pd_answer p of
      None \<Rightarrow> hp_key (pd_pairing p) \<noteq> None
    | Some conn \<Rightarrow> hp_key (pd_pairing p) = None \<and> map_of held conn = Some uid))"

definition launches_ok :: "gs_server \<Rightarrow> bool" where
  "launches_ok s =
     ((\<forall>i < length (sv_launches s). gl_stop (sv_launches s ! i) = (sv_launch s \<noteq> Some i))
      \<and> (\<forall>i. sv_launch s = Some i \<longrightarrow> i < length (sv_launches s)))"

definition server_ok :: "gs_server \<times> nat \<Rightarrow> bool" where
  "server_ok = (\<lambda>(s, n).
     distinct (map fst (sv_pending s)) \<and> (\<not> sv_poisoned s \<longrightarrow> list_all (pending_ok (sv_held s)) (sv_pending s))
     \<and> distinct (map fst (sv_held s)) \<and> list_all (\<lambda>(conn, _). conn < n) (sv_held s) \<and> distinct (sv_paired s) \<and> launches_ok s)"

lemma pending_lookup:
  assumes "list_all (pending_ok held) ps" "map_of ps uid = Some p"
  shows "pending_ok held (uid, p)"
  using assms map_of_SomeD [of ps uid p] by (auto simp: list_all_iff)

lemma step_keeps:
  assumes "pairing_step c cr fresh query hp = Some (st, hp')"
  shows "hp_key hp' = hp_key hp" "hp_cert hp' = hp_cert hp" "hp_salt hp' = hp_salt hp" "hp_device hp' = hp_device hp"
    "ps_paired st \<noteq> None \<Longrightarrow> ps_done st \<and> hp_key hp \<noteq> None"
  using assms
  by (auto simp: pairing_step_def step_challenge_def step_response_def step_secret_def pair_fail_def Let_def
      split: option.splits if_splits)

lemma server_fields [simp]:
  "sv_pending (pin_gs_client saves cert s) = sv_pending s" "sv_held (pin_gs_client saves cert s) = sv_held s"
  "sv_launches (pin_gs_client saves cert s) = sv_launches s" "sv_launch (pin_gs_client saves cert s) = sv_launch s"
  "sv_poisoned (pin_gs_client saves cert s) = sv_poisoned s"
  "sv_apps (pin_gs_client saves cert s) = sv_apps s" "sv_credentials (pin_gs_client saves cert s) = sv_credentials s"
  "sv_poisoned (put_pending uid p s) = sv_poisoned s" "sv_poisoned (drop_pending uid s) = sv_poisoned s"
  "sv_poisoned (stop_launch s) = sv_poisoned s" "sv_poisoned (start_launch l s) = sv_poisoned s"
  "sv_held (put_pending uid p s) = sv_held s" "sv_paired (put_pending uid p s) = sv_paired s"
  "sv_launches (put_pending uid p s) = sv_launches s" "sv_launch (put_pending uid p s) = sv_launch s"
  "sv_held (drop_pending uid s) = sv_held s" "sv_paired (drop_pending uid s) = sv_paired s"
  "sv_launches (drop_pending uid s) = sv_launches s" "sv_launch (drop_pending uid s) = sv_launch s"
  "sv_pending (stop_launch s) = sv_pending s" "sv_held (stop_launch s) = sv_held s" "sv_paired (stop_launch s) = sv_paired s"
  "sv_pending (start_launch l s) = sv_pending s" "sv_held (start_launch l s) = sv_held s" "sv_paired (start_launch l s) = sv_paired s"
  by (auto simp: pin_gs_client_def put_pending_def drop_pending_def stop_launch_def start_launch_def Let_def split: option.split)

lemma list_all_update:
  assumes "list_all P xs" "P (k, v)"
  shows "list_all P (AList.update k v xs)"
  using assms by (induction xs) auto

lemma list_all_update_other:
  assumes "\<And>u q. (u, q) \<in> set xs \<Longrightarrow> u \<noteq> k \<Longrightarrow> P (u, q)" "P (k, v)" "distinct (map fst xs)"
  shows "list_all P (AList.update k v xs)"
  using assms by (induction xs) (force simp: list_all_iff)+

lemma list_all_drop: "list_all P xs \<Longrightarrow> list_all P (filter Q xs)"
  by (simp add: list_all_iff)

lemma distinct_drop: "distinct (map fst xs) \<Longrightarrow> distinct (map fst (filter Q xs))"
  by (induction xs) auto

lemma launches_stop: "launches_ok s \<Longrightarrow> launches_ok (stop_launch s) \<and> sv_launch (stop_launch s) = None"
  by (auto simp: launches_ok_def stop_launch_def nth_list_update split: option.splits)

lemma launches_start: "launches_ok s \<Longrightarrow> \<not> gl_stop l \<Longrightarrow> launches_ok (start_launch l s)"
  using launches_stop [of s] by (auto simp: launches_ok_def start_launch_def Let_def nth_append less_Suc_eq)

lemma launches_eq: "sv_launches s' = sv_launches s \<Longrightarrow> sv_launch s' = sv_launch s \<Longrightarrow> launches_ok s' = launches_ok s"
  by (simp add: launches_ok_def)

lemma put_ok:
  assumes "server_ok (s, n)" "pending_ok (sv_held s) (uid, p)"
  shows "server_ok (put_pending uid p s, n)"
  using assms by (auto simp: server_ok_def put_pending_def distinct_update list_all_update launches_ok_def)

lemma drop_ok: "server_ok (s, n) \<Longrightarrow> server_ok (drop_pending uid s, n)"
  by (auto simp: server_ok_def drop_pending_def distinct_drop list_all_drop launches_ok_def)

lemma pin_gs_client_ok: "server_ok (s, n) \<Longrightarrow> server_ok (pin_gs_client saves cert s, n)"
  by (auto simp: server_ok_def pin_gs_client_def is_paired_def launches_ok_def Let_def)

lemma later_ok: "server_ok (s, n) \<Longrightarrow> server_ok (s, Suc n)"
  by (auto simp: server_ok_def list_all_iff)

lemma pair_continue_ok:
  assumes "server_ok (s, n)"
  shows "server_ok (snd (pair_continue c fresh uid query s), n)"
proof (cases "map_of (sv_pending s) uid")
  case None
  then show ?thesis
    using assms by (simp add: pair_continue_def)
next
  case (Some p)
  show ?thesis
  proof (cases "pairing_step c (sv_credentials s) (fr_pair fresh) query (pd_pairing p)")
    case None
    then show ?thesis
      using assms Some by (simp add: pair_continue_def server_ok_def launches_ok_def)
  next
    case step: (Some st)
    obtain r hp where st: "st = (r, hp)"
      by (cases st)
    show ?thesis
    proof (cases "sv_poisoned s")
      case True
      then show ?thesis
        using assms by (simp add: pair_continue_def)
    next
      case False
      then have "pending_ok (sv_held s) (uid, p)"
        using assms Some pending_lookup by (auto simp: server_ok_def)
      then have "pending_ok (sv_held s) (uid, p\<lparr>pd_pairing := hp\<rparr>)"
        using step_keeps(1) [OF step [unfolded st]] by (auto simp: pending_ok_def split: option.splits)
      note put = put_ok [OF assms this]
      show ?thesis
        using put pin_gs_client_ok [OF put] Some step False
        by (auto simp: pair_continue_def st Let_def drop_ok split: option.split)
    qed
  qed
qed

lemma held_append:
  assumes "list_all (pending_ok held) ps" "conn \<notin> fst ` set held"
  shows "list_all (pending_ok (held @ [(conn, uid)])) ps"
  using assms by (auto simp: list_all_iff pending_ok_def map_of_append map_add_def split: option.splits)

lemma getservercert_ok:
  assumes "server_ok (s, n)"
  shows "server_ok (snd (pair_getservercert c n from uid query s), Suc n)"
proof -
  have fresh: "n \<notin> fst ` set (sv_held s)"
    using assms by (auto simp: server_ok_def list_all_iff)
  have key: "hp_key hp = None" if "pairing_start c a b d = Some (Inr hp)" for a b d hp
    using that by (auto simp: pairing_start_def split: option.splits if_splits)
  have "server_ok ((put_pending uid p s)\<lparr>sv_held := sv_held s @ [(n, uid)]\<rparr>, Suc n)"
    if "hp_key (pd_pairing p) = None" "pd_answer p = Some n" "\<not> sv_poisoned s" for p
  proof -
    have "pending_ok (sv_held s @ [(n, uid)]) (uid, p)"
      using that fresh by (simp add: pending_ok_def map_of_append map_add_def map_of_eq_None_iff [THEN iffD2] split: option.split)
    then have "list_all (pending_ok (sv_held s @ [(n, uid)])) (AList.update uid p (sv_pending s))"
      using assms fresh that(3) by (intro list_all_update held_append) (simp_all add: server_ok_def)
    then show ?thesis
      using assms fresh
      by (auto simp: server_ok_def put_pending_def distinct_update launches_ok_def less_Suc_eq list_all_iff)
  qed
  then show ?thesis
    using later_ok [OF assms] key by (auto simp: pair_getservercert_def split: option.split sum.split)
qed

lemma serve_launch_ok:
  assumes "server_ok (s, n)"
  shows "server_ok (snd (serve_launch fresh resume query local_ip s), n)"
proof -
  have "server_ok (start_launch (launch_new fresh app key key_id mode enc) s, n)" for app key key_id mode enc
    using assms launches_start [of s] by (simp add: server_ok_def launch_new_def)
  then show ?thesis
    using assms by (auto simp: serve_launch_def split: option.split sum.split)
qed

lemma stop_launch_ok: "server_ok (s, n) \<Longrightarrow> server_ok (stop_launch s, n)"
  using launches_stop [of s] by (simp add: server_ok_def)

lemma serve_request_ok: "server_ok (s, n) \<Longrightarrow> server_ok (snd (serve_request c fresh n from local_ip peer path query s), Suc n)"
  using later_ok [of s n] later_ok [OF pair_continue_ok [of s n c fresh]] later_ok [OF serve_launch_ok [of s n fresh]]
    later_ok [OF stop_launch_ok [of s n]] getservercert_ok [of s n c]
  by (auto simp: serve_request_def serve_pair_def Let_def split: option.split)

lemma held_filter:
  assumes "map_of held conn' = Some uid" "conn' \<noteq> conn"
  shows "map_of (filter (\<lambda>(n, _). n \<noteq> conn) held) conn' = Some uid"
  using assms by (induction held) auto

lemma find_takes: "find P xs = Some x \<Longrightarrow> P x"
  by (induction xs) (auto split: if_splits)

lemma pending_ok_other:
  assumes "pending_ok held (u, q)" "u \<noteq> uid" "map_of held conn = Some uid"
  shows "pending_ok (filter (\<lambda>(n, _). n \<noteq> conn) held) (u, q)"
proof (cases "pd_answer q")
  case (Some conn')
  then have "map_of held conn' = Some u"
    using assms(1) by (simp add: pending_ok_def)
  moreover from this have "conn' \<noteq> conn"
    using assms(2,3) by auto
  ultimately show ?thesis
    using assms(1) held_filter [of held conn' u conn] Some by (simp add: pending_ok_def)
qed (use assms(1) in \<open>simp add: pending_ok_def\<close>)

lemma enter_pin_ok:
  assumes "server_ok (s, n)"
  shows "server_ok (snd (enter_pin c order pin device_name s), n)"
proof (cases "sv_poisoned s \<or> find (takes_pin s device_name) order = None")
  case True
  then show ?thesis
    using assms by (auto simp: enter_pin_def)
next
  case False
  then obtain uid where uid: "find (takes_pin s device_name) order = Some uid" "\<not> sv_poisoned s"
    by auto
  then obtain p conn where p: "map_of (sv_pending s) uid = Some p" "pd_answer p = Some conn"
    using find_takes [OF uid(1)] by (auto simp: takes_pin_def split: option.splits)
  obtain xml hp where hp: "pairing_pin c (sv_credentials s) pin (pd_pairing p) = (xml, hp)" "hp_key hp \<noteq> None"
    by (simp add: pairing_pin_def)
  let ?held = "filter (\<lambda>(n, _). n \<noteq> conn) (sv_held s)"
  have at: "map_of (sv_held s) conn = Some uid"
    using assms pending_lookup [OF _ p(1), of "sv_held s"] p(2) uid(2) by (auto simp: server_ok_def pending_ok_def)
  have "list_all (pending_ok ?held) (AList.update uid (p\<lparr>pd_pairing := hp, pd_answer := None\<rparr>) (sv_pending s))"
    using assms pending_ok_other [OF _ _ at] hp(2) uid(2) by (intro list_all_update_other) (auto simp: server_ok_def list_all_iff pending_ok_def)
  then show ?thesis
    using assms uid p by (auto simp: enter_pin_def hp(1) server_ok_def put_pending_def distinct_update distinct_drop list_all_drop launches_ok_def)
qed

lemma hold_ends_ok:
  assumes "server_ok (s, n)"
  shows "server_ok (hold_ends conn s, n)"
proof (cases "map_of (sv_held s) conn")
  case None
  then show ?thesis
    using assms by (simp add: hold_ends_def)
next
  case (Some uid)
  let ?held = "filter (\<lambda>(n, _). n \<noteq> conn) (sv_held s)"
  have "list_all (pending_ok ?held) (filter (\<lambda>(u, _). u \<noteq> uid) (sv_pending s))" if "\<not> sv_poisoned s"
    using assms that pending_ok_other [OF _ _ Some] by (auto simp: server_ok_def list_all_iff)
  then show ?thesis
    using assms by (auto simp: hold_ends_def Some Let_def server_ok_def drop_pending_def distinct_drop list_all_drop launches_ok_def)
qed

lemma gs_step_ok: "server_ok st \<Longrightarrow> server_ok (gs_step c e st)"
  using serve_request_ok enter_pin_ok hold_ends_ok by (cases st; cases e) simp_all

lemma gs_run_ok: "server_ok st \<Longrightarrow> server_ok (gs_run c es st)"
  by (induction es arbitrary: st) (simp_all add: gs_step_ok)

lemma server_open_ok:
  assumes "server_open c name cr saved apps = Some s" "distinct (sv_paired s)"
  shows "server_ok (s, n)"
  using assms by (auto simp: server_open_def server_ok_def launches_ok_def split: option.splits)

section \<open>A PIN pairs at most one client\<close>

definition keyed :: "(rstr \<times> gs_pending) list \<Rightarrow> nat" where
  "keyed ps = length (filter (\<lambda>(_, p). hp_key (pd_pairing p) \<noteq> None) ps)"

definition potential :: "gs_server \<Rightarrow> nat" where
  "potential s = length (sv_paired s) + keyed (sv_pending s)"

lemma keyed_update: "keyed (AList.update uid p ps) \<le> keyed ps + (if hp_key (pd_pairing p) \<noteq> None then 1 else 0)"
  by (induction ps) (auto simp: keyed_def)

lemma keyed_same:
  assumes "map_of ps uid = Some q" "(hp_key (pd_pairing p) = None) = (hp_key (pd_pairing q) = None)"
  shows "keyed (AList.update uid p ps) = keyed ps"
  using assms by (induction ps) (auto simp: keyed_def split: if_splits)

lemma keyed_drop: "keyed (filter (\<lambda>(u, _). u \<noteq> uid) ps) \<le> keyed ps"
  by (induction ps) (auto simp: keyed_def)

lemma keyed_drop_one:
  assumes "map_of ps uid = Some q" "hp_key (pd_pairing q) \<noteq> None"
  shows "Suc (keyed (filter (\<lambda>(u, _). u \<noteq> uid) (AList.update uid p ps))) \<le> keyed ps"
  using assms
proof (induction ps)
  case (Cons x ps)
  then show ?case
    using keyed_drop [of uid ps] by (cases x) (auto simp: keyed_def split: if_splits)
qed simp

lemma pair_continue_potential: "potential (snd (pair_continue c fresh uid query s)) \<le> potential s"
proof (cases "sv_poisoned s \<or> map_of (sv_pending s) uid = None")
  case True
  then show ?thesis
    by (auto simp: pair_continue_def)
next
  case False
  then obtain p where p: "map_of (sv_pending s) uid = Some p" "\<not> sv_poisoned s"
    by auto
  show ?thesis
  proof (cases "pairing_step c (sv_credentials s) (fr_pair fresh) query (pd_pairing p)")
    case None
    then show ?thesis
      using p by (simp add: pair_continue_def potential_def)
  next
    case step: (Some st)
    obtain r hp where st: "st = (r, hp)"
      by (cases st)
    note keeps = step_keeps [OF step [unfolded st]]
    let ?p = "p\<lparr>pd_pairing := hp\<rparr>"
    have same: "keyed (AList.update uid ?p (sv_pending s)) = keyed (sv_pending s)"
      using keeps(1) by (intro keyed_same [OF p(1)]) simp
    have less: "hp_key (pd_pairing p) \<noteq> None \<Longrightarrow> Suc (keyed (filter (\<lambda>(u, _). u \<noteq> uid) (AList.update uid ?p (sv_pending s)))) \<le> keyed (sv_pending s)"
      by (rule keyed_drop_one [OF p(1)])
    show ?thesis
      using same less keeps(5) p keyed_drop [of uid "AList.update uid ?p (sv_pending s)"]
      by (auto simp: pair_continue_def step st Let_def potential_def put_pending_def drop_pending_def pin_gs_client_def is_paired_def split: option.split)
  qed
qed

lemma getservercert_potential: "potential (snd (pair_getservercert c n from uid query s)) \<le> potential s"
proof -
  have key: "hp_key hp = None" if "pairing_start c a b d = Some (Inr hp)" for a b d hp
    using that by (auto simp: pairing_start_def split: option.splits if_splits)
  have "keyed (AList.update uid p ps) \<le> keyed ps" if "hp_key (pd_pairing p) = None" for p ps
    using keyed_update [of uid p ps] that by simp
  then show ?thesis
    using key by (auto simp: pair_getservercert_def potential_def put_pending_def split: option.split sum.split)
qed

lemma serve_launch_tables: "sv_paired (snd (serve_launch fresh resume query local_ip s)) = sv_paired s"
  "sv_pending (snd (serve_launch fresh resume query local_ip s)) = sv_pending s"
  by (auto simp: serve_launch_def split: option.split sum.split)

lemma gs_step_potential:
  "potential (fst (gs_step c e st)) \<le> potential (fst st) + (case e of Pin_typed _ _ _ \<Rightarrow> 1 | _ \<Rightarrow> 0)"
proof (cases e; cases st)
  fix fresh frm local_ip peer path query s n
  assume e: "e = Request fresh frm local_ip peer path query" "st = (s, n)"
  show ?thesis
    using pair_continue_potential [of c fresh _ query s] getservercert_potential [of c n frm _ query s]
      serve_launch_tables [of fresh _ query local_ip s]
    by (auto simp: e serve_request_def serve_pair_def Let_def potential_def split: option.split)
next
  fix order pin name s n
  assume e: "e = Pin_typed order pin name" "st = (s, n)"
  have "keyed (AList.update uid p ps) \<le> Suc (keyed ps)" for uid p ps
    using keyed_update [of uid p ps] by (auto split: if_splits)
  then show ?thesis
    by (auto simp: e enter_pin_def Let_def potential_def put_pending_def split: option.split prod.split)
next
  fix conn s n
  assume e: "e = Hold_ends conn" "st = (s, n)"
  show ?thesis
    using keyed_drop by (auto simp: e hold_ends_def Let_def potential_def drop_pending_def split: option.split)
qed

lemma gs_run_potential: "potential (fst (gs_run c es st)) \<le> potential (fst st) + pins_typed es"
proof (induction es arbitrary: st)
  case (Cons e es)
  have "potential (fst (gs_run c es (gs_step c e st))) \<le> potential (fst (gs_step c e st)) + pins_typed es"
    by (rule Cons.IH)
  also have "\<dots> \<le> potential (fst st) + pins_typed (e # es)"
    using gs_step_potential [of c e st] by (cases e) (simp_all add: pins_typed_def)
  finally show ?case
    by simp
qed (simp add: pins_typed_def)

text \<open>
  C5. Nobody is paired without a PIN: whatever requests reach the host in whatever order, the clients paired since it
  opened are at most as many as the PINs typed, and its tables stay consistent: no certificate is listed twice,
  every id has one pairing, every pairing without a PIN has a connection waiting for it, and only the launch that is
  the current one is not stopped.
\<close>

theorem pins_bound_paired_clients:
  assumes "server_open c name cr saved apps = Some s" "distinct (sv_paired s)"
  shows "length (sv_paired (fst (gs_run c es (s, 0)))) \<le> length (sv_paired s) + pins_typed es \<and> server_ok (gs_run c es (s, 0))"
proof -
  have "sv_pending s = []"
    using assms(1) by (auto simp: server_open_def split: option.splits)
  then have "length (sv_paired (fst (gs_run c es (s, 0)))) \<le> length (sv_paired s) + pins_typed es"
    using gs_run_potential [of c es "(s, 0)"] by (simp add: potential_def keyed_def)
  then show ?thesis
    using gs_run_ok [OF server_open_ok [OF assms]] by blast
qed

lemma step_pairs:
  assumes "pairing_step c cr fresh query hp = Some (st, hp')" "ps_paired st = Some cert"
  shows "\<exists>secret signature. hp_key hp \<noteq> None \<and> hp_phase hp = ServerChallengeResponse \<and> hp_cert hp = cert
    \<and> hex_arg query (lit ''clientpairingsecret'') = Some (Some secret)
    \<and> gc_verify c cert (take 16 secret) (drop 16 secret) \<and> gc_signature c cert = Some signature
    \<and> gc_sha256 c (hp_challenge hp @ signature @ take 16 secret) = take 32 (hp_hash hp)"
  using assms
  by (auto simp: pairing_step_def step_challenge_def step_response_def step_secret_def pair_fail_def Let_def
      simp del: lit_Cons split: option.splits if_splits)

lemma pair_continue_pairs:
  assumes "cert \<in> set (sv_paired (snd (pair_continue c fresh uid query s)))" "\<not> is_paired s cert"
  shows "\<exists>p st hp. map_of (sv_pending s) uid = Some p
    \<and> pairing_step c (sv_credentials s) (fr_pair fresh) query (pd_pairing p) = Some (st, hp) \<and> ps_paired st = Some cert"
  using assms
  by (auto simp: pair_continue_def is_paired_def pin_gs_client_def Let_def put_pending_def drop_pending_def split: option.splits if_splits)

text \<open>The request that pairs is one for the rest of a pairing.\<close>

lemma request_pairs:
  assumes "cert \<in> set (sv_paired (snd (serve_request c fresh n frm local_ip peer path query s)))" "\<not> is_paired s cert"
  shows "\<exists>uid. map_of query (lit ''uniqueid'') = Some uid \<and> cert \<in> set (sv_paired (snd (pair_continue c fresh uid query s)))"
  using assms serve_launch_tables(1) [of fresh _ query local_ip s]
  by (auto simp: serve_request_def serve_pair_def pair_getservercert_def put_pending_def is_paired_def Let_def
      simp del: lit_Cons split: option.splits if_splits sum.splits)

text \<open>
  C8. A client is paired only by proving itself: the request that adds a certificate to the paired ones came for a
  pairing whose PIN was typed and whose earlier steps were made in order, carries a secret signed by that certificate, and
  the hash the client sent before is the one of the host's challenge, that certificate's signature and the secret.
\<close>

theorem paired_only_with_proof:
  assumes "cert \<in> set (sv_paired (fst (gs_step c e (s, n))))" "\<not> is_paired s cert"
  shows "\<exists>fresh from local_ip peer path query uid p secret signature.
    e = Request fresh from local_ip peer path query \<and> map_of query (lit ''uniqueid'') = Some uid
    \<and> map_of (sv_pending s) uid = Some p \<and> hp_key (pd_pairing p) \<noteq> None \<and> hp_phase (pd_pairing p) = ServerChallengeResponse
    \<and> hp_cert (pd_pairing p) = cert \<and> hex_arg query (lit ''clientpairingsecret'') = Some (Some secret)
    \<and> gc_verify c cert (take 16 secret) (drop 16 secret) \<and> gc_signature c cert = Some signature
    \<and> gc_sha256 c (hp_challenge (pd_pairing p) @ signature @ take 16 secret) = take 32 (hp_hash (pd_pairing p))"
proof (cases e)
  case (Request fresh frm local_ip peer path query)
  then obtain uid where uid: "map_of query (lit ''uniqueid'') = Some uid" "cert \<in> set (sv_paired (snd (pair_continue c fresh uid query s)))"
    using assms request_pairs [of cert c fresh n frm local_ip peer path query s] by auto
  then obtain p st hp where p: "map_of (sv_pending s) uid = Some p"
      "pairing_step c (sv_credentials s) (fr_pair fresh) query (pd_pairing p) = Some (st, hp)" "ps_paired st = Some cert"
    using pair_continue_pairs assms(2) by blast
  then show ?thesis
    using Request uid(1) step_pairs [OF p(2,3)] by blast
next
  case (Pin_typed order pin name)
  then show ?thesis
    using assms by (auto simp: enter_pin_def Let_def is_paired_def put_pending_def split: option.splits prod.splits if_splits)
next
  case (Hold_ends conn)
  then show ?thesis
    using assms by (auto simp: hold_ends_def Let_def is_paired_def split: option.splits if_splits)
qed

text \<open>
  C13. Without a paired certificate nothing can be run, seen or stopped: any request over HTTP, or over HTTPS with no
  certificate or one that is not paired, leaves the launches as they are, and for the list of apps, a launch, a resumption
  or an end it is told that it is not authorized.
\<close>

theorem unpaired_cannot_run:
  assumes "\<not> peer_paired peer s"
  shows "sv_launches (snd (serve_request c fresh n frm local_ip peer path query s)) = sv_launches s
    \<and> sv_launch (snd (serve_request c fresh n frm local_ip peer path query s)) = sv_launch s
    \<and> (path \<in> set [lit ''/applist'', lit ''/launch'', lit ''/resume'', lit ''/cancel''] \<longrightarrow>
        serve_request c fresh n frm local_ip peer path query s = (Answer unauthorized, s))"
proof -
  have "sv_launches (snd (pair_continue c fresh uid query s)) = sv_launches s \<and> sv_launch (snd (pair_continue c fresh uid query s)) = sv_launch s" for uid
    by (auto simp: pair_continue_def Let_def split: option.split)
  then have "sv_launches (snd (serve_request c fresh n frm local_ip peer path query s)) = sv_launches s
      \<and> sv_launch (snd (serve_request c fresh n frm local_ip peer path query s)) = sv_launch s"
    using assms by (auto simp: serve_request_def serve_pair_def pair_getservercert_def Let_def put_pending_def simp del: lit_Cons split: option.splits sum.splits)
  then show ?thesis
    using assms by (auto simp: serve_request_def Let_def)
qed

end
