(* ===== verification/Gs_Client.thy ===== *)
theory Gs_Client
  imports Gs_Server
begin

text \<open>
  The client's side of a GameStream host (\<open>gamestream/src/client.rs\<close>) against the host's: pairing from its first request
  to its last, what the host says of itself, its list of apps, and a launch.
\<close>

section \<open>Pairing through the client\<close>

text \<open>
  What the client's requests go through: its id, the nonce of the address, the other random choices, the address
  seen by the host, the client's credentials, and the PIN the person types while the first request is held.
\<close>

record pair_world =
  pw_crypto :: gs_crypto
  pw_fresh :: gs_fresh
  pw_uid :: rstr
  pw_nonce :: bytes
  pw_from :: rstr
  pw_local_ip :: rstr
  pw_client :: credentials
  pw_typed :: rstr

text \<open>
  One request and its answer; a held request is answered when the PIN is typed. \<open>n\<close> numbers the connections. A
  request that is dropped without an answer is an error of the transport.
\<close>

definition exchange :: "pair_world \<Rightarrow> bool \<Rightarrow> rstr \<Rightarrow> gs_query \<Rightarrow> gs_server \<times> nat \<Rightarrow> (pairing_error + rstr) \<times> gs_server \<times> nat" where
  "exchange w https path query st =
     (let (s, n) = st;
          peer = (if https then Some (Some (cr_der (pw_client w))) else None);
          (reply, s) = serve_request (pw_crypto w) (pw_fresh w) n (pw_from w) (pw_local_ip w) peer ([47] @ path)
            (client_arguments (pw_uid w) (pw_nonce w) query) s
      in case reply of
          Answer xml \<Rightarrow> (Inr xml, (s, Suc n))
        | Panicked \<Rightarrow> (Inl PairTransport, (s, Suc n))
        | Held \<Rightarrow>
            (let (typed, s) = enter_pin (pw_crypto w) (map fst (sv_pending s)) (pw_typed w) None s
             in case typed of
                 Some (Some (conn, xml)) \<Rightarrow> (if conn = n then Inr xml else Inl PairTransport, (s, Suc n))
               | _ \<Rightarrow> (Inl PairTransport, (s, Suc n))))"

text \<open>
  \<open>Requests::pair\<close>: over HTTPS only to a host with the certificate that came in the first answer.
\<close>

definition requests_pair :: "pair_world \<Rightarrow> (bytes option \<times> gs_server \<times> nat) pair_requests" where
  "requests_pair w https query h =
     (let (known, st) = h
      in if https then
           (case known of
              None \<Rightarrow> (Some (Inl NotPaired), h)
            | Some cert \<Rightarrow>
                if cert \<noteq> cr_der (sv_credentials (fst st)) then (Some (Inl PairTransport), h)
                else (let (r, st) = exchange w True (lit ''pair'') query st in (Some r, (known, st))))
         else
           (let (r, st) = exchange w False (lit ''pair'') query st
            in case r of
                Inl e \<Rightarrow> (Some (Inl e), (known, st))
              | Inr a \<Rightarrow>
                  (case xml_hex a (lit ''plaincert'') of
                     None \<Rightarrow> (None, (known, st))
                   | Some pem \<Rightarrow> (Some (Inr a), (if or_empty pem = [] then known else gc_pem_to_der (pw_crypto w) (or_empty pem), st)))))"

text \<open>\<open>GameStreamClient::pair\<close>: the host is asked what it is, then paired with.\<close>

definition client_pair :: "pair_world \<Rightarrow> rstr \<Rightarrow> rstr \<Rightarrow> client_random \<Rightarrow> gs_server \<times> nat \<Rightarrow> (bytes option \<times> gs_server \<times> nat) pair_result" where
  "client_pair w pin device_name rnd st =
     (case exchange w False (lit ''serverinfo'') [] st of
        (Inl e, st) \<Rightarrow> (Some (Inl e), (None, st))
      | (Inr a, st) \<Rightarrow>
          (case read_server_info a of
             Inl (code, message) \<Rightarrow> (Some (Inl (PairStatus code message)), (None, st))
           | Inr info \<Rightarrow>
               pair_client (requests_pair w) (pw_crypto w) (pw_client w) (si_app_version info) pin device_name rnd (None, st)))"

section \<open>What the host says is what the client reads\<close>

lemma xml_ok_response: "xml_ok (xml_response 200 message els) = Inr ()"
  using xml_status_of_response [of 200 message els] by (simp add: xml_ok_def)

lemma trim_id: "s = [] \<or> \<not> is_whitespace (hd s) \<and> \<not> is_whitespace (last s) \<Longrightarrow> trim s = s"
  by (simp add: trim_id_iff)

lemma trim_decimal: "trim (decimal n) = decimal n"
proof (rule trim_id)
  have "\<not> is_whitespace c" if "c \<in> set (decimal n)" for c
    using decimal_digits [OF that] by (auto simp: is_ascii_digit_def is_whitespace_def)
  then show "decimal n = [] \<or> \<not> is_whitespace (hd (decimal n)) \<and> \<not> is_whitespace (last (decimal n))"
    by simp
qed

lemma parse_i64_decimal: "n < 2 ^ 63 \<Longrightarrow> parse_i64 (decimal n) = Some (int n)"
proof -
  assume n: "n < 2 ^ 63"
  obtain d ds where d: "decimal n = d # ds"
    by (cases "decimal n") simp_all
  then have "d \<noteq> 45"
    using decimal_digits [of d n] by (auto simp: is_ascii_digit_def)
  then show ?thesis
    using n parse_decimal [of "2 ^ 63 - 1" n] by (simp add: parse_i64_def d)
qed

lemmas name_simps = plain_name_def alphanumeric_def
lemmas trim_lit_simps = trim_id_iff is_whitespace_def

lemma info_names:
  assumes "trim (sv_name s) = sv_name s" "trim (sv_unique_id s) = sv_unique_id s" "trim local_ip = local_ip"
  shows "list_all (\<lambda>(other, v). plain_name other \<and> trim v = v) (server_info_els local_ip paired s)"
  using assms by (simp add: server_info_els_def name_simps trim_decimal flag_text_def APP_VERSION_def GFE_VERSION_def HTTP_PORT_def)
    (simp add: trim_lit_simps)

lemma server_info_comes_back_base:
  assumes "trim (sv_name s) = sv_name s" "trim (sv_unique_id s) = sv_unique_id s" "trim local_ip = local_ip"
    and "sv_https_port s < 2 ^ 16" "current_game s < 2 ^ 32" "sv_codec_modes s < 2 ^ 32"
  shows "read_server_info (write_server_info local_ip paired s) =
    Inr \<lparr>si_hostname = sv_name s, si_app_version = APP_VERSION, si_unique_id = sv_unique_id s, si_https_port = of_nat (sv_https_port s),
      si_paired = paired, si_current_game = of_nat (current_game s), si_codec_modes = of_nat (sv_codec_modes s)\<rparr>"
proof -
  let ?els = "server_info_els local_ip paired s"
  note names = info_names [OF assms(1-3), of paired]
  have reads: "xml_text (write_server_info local_ip paired s) (lit name) = map_of ?els (lit name)" if "plain_name (lit name)" for name
    unfolding write_server_info_def by (rule xml_text_els [OF that names])
  have plain: "plain_name (lit ''hostname'')" "plain_name (lit ''appversion'')" "plain_name (lit ''uniqueid'')" "plain_name (lit ''HttpsPort'')"
    "plain_name (lit ''PairStatus'')" "plain_name (lit ''currentgame'')" "plain_name (lit ''ServerCodecModeSupport'')"
    by (simp_all add: name_simps)
  have els: "map_of ?els (lit ''hostname'') = Some (sv_name s)" "map_of ?els (lit ''appversion'') = Some APP_VERSION"
    "map_of ?els (lit ''uniqueid'') = Some (sv_unique_id s)" "map_of ?els (lit ''HttpsPort'') = Some (decimal (sv_https_port s))"
    "map_of ?els (lit ''PairStatus'') = Some (flag_text paired)" "map_of ?els (lit ''currentgame'') = Some (decimal (current_game s))"
    "map_of ?els (lit ''ServerCodecModeSupport'') = Some (decimal (sv_codec_modes s))"
    by (simp_all add: server_info_els_def)
  have flag: "parse_i64 (flag_text paired) = Some (if paired then 1 else 0)"
    by (simp add: flag_text_def parse_i64_def parse_unsigned_def digit10_def is_ascii_digit_def)
  have ok: "xml_ok (write_server_info local_ip paired s) = Inr ()"
    by (simp only: write_server_info_def xml_ok_response)
  show ?thesis
    using assms(4-6) plain [THEN reads]
    by (simp only: read_server_info_def ok sum.case text_or_empty_def xml_number_def els option.case flag parse_i64_decimal)
      (simp add: parse_i64_decimal)
qed

text \<open>
  What the host says of itself is what a client reads: its name, version and id, its HTTPS port, whether this client is
  paired, the app that runs, and the codecs.
\<close>

theorem server_info_comes_back:
  assumes "trim (sv_name s) = sv_name s" "trim (sv_unique_id s) = sv_unique_id s" "trim local_ip = local_ip"
    and "sv_https_port s < 2 ^ 16" "current_game s < 2 ^ 32" "sv_codec_modes s < 2 ^ 32"
  shows "read_server_info (write_server_info local_ip paired s) =
    Inr \<lparr>si_hostname = sv_name s, si_app_version = APP_VERSION, si_unique_id = sv_unique_id s, si_https_port = of_nat (sv_https_port s),
      si_paired = paired, si_current_game = of_nat (current_game s), si_codec_modes = of_nat (sv_codec_modes s)\<rparr>"
  using assms by (rule server_info_comes_back_base)

section \<open>Pairing succeeds\<close>

text \<open>A host with one pairing under way.\<close>

definition with_pending :: "rstr \<Rightarrow> gs_pending \<Rightarrow> gs_server \<Rightarrow> gs_server" where
  "with_pending uid p s = s\<lparr>sv_pending := [(uid, p)]\<rparr>"

definition pair_query :: "pair_world \<Rightarrow> rstr \<Rightarrow> rstr \<times> rstr \<Rightarrow> gs_query \<Rightarrow> gs_query" where
  "pair_query w device_name extra rest = client_arguments (pw_uid w) (pw_nonce w) (pair_base device_name extra @ rest)"

lemma pair_query_args:
  "map_of (pair_query w device_name (k, v) rest) (lit ''uniqueid'') = Some (pw_uid w)"
  by (simp add: pair_query_def client_arguments_def pair_base_def)

lemma cipher_arg:
  assumes "k \<in> {lit ''clientchallenge'', lit ''serverchallengeresp'', lit ''clientpairingsecret''}"
  shows "map_of (pair_query w device_name (k, v) []) (lit ''phrase'') = None"
    "k' \<in> {lit ''clientchallenge'', lit ''serverchallengeresp'', lit ''clientpairingsecret''}
      \<Longrightarrow> hex_arg (pair_query w device_name (k, encode_hex d) []) k' = Some (if k' = k then Some d else None)"
  using assms by (auto simp: pair_query_def client_arguments_def pair_base_def hex_arg_def)

lemma pending_fields [simp]:
  "sv_pending (with_pending uid p s) = [(uid, p)]" "sv_credentials (with_pending uid p s) = sv_credentials s"
  "sv_poisoned (with_pending uid p s) = sv_poisoned s" "sv_paired (with_pending uid p s) = sv_paired s"
  by (simp_all add: with_pending_def)

lemma serve_pair_path: "serve_request c fresh conn frm local_ip peer ([47] @ lit ''pair'') query s
    = serve_pair c fresh conn frm (peer \<noteq> None) (peer_cert peer) query s"
  by (simp add: serve_request_def Let_def)

text \<open>The steps after the first, for the client whose pairing it is.\<close>

lemma exchange_step:
  assumes "k \<in> {lit ''clientchallenge'', lit ''serverchallengeresp'', lit ''clientpairingsecret''}" "\<not> sv_poisoned s"
    and "pairing_step (pw_crypto w) (sv_credentials s) (fr_pair (pw_fresh w)) (pair_query w device_name (k, encode_hex d) []) (pd_pairing p)
      = Some (st, hp)"
  shows "exchange w False (lit ''pair'') (pair_base device_name (k, encode_hex d)) (with_pending (pw_uid w) p s, n)
    = (Inr (ps_xml st),
       (let s' = (case ps_paired st of None \<Rightarrow> s | Some cert \<Rightarrow> pin_gs_client (fr_saves (pw_fresh w)) cert s)
        in if ps_done st then s'\<lparr>sv_pending := []\<rparr> else with_pending (pw_uid w) (p\<lparr>pd_pairing := hp\<rparr>) s'), Suc n)"
proof -
  let ?q = "pair_query w device_name (k, encode_hex d) []"
  let ?s = "with_pending (pw_uid w) p s"
  have q: "client_arguments (pw_uid w) (pw_nonce w) (pair_base device_name (k, encode_hex d)) = ?q"
    by (simp add: pair_query_def)
  have "serve_pair (pw_crypto w) (pw_fresh w) n (pw_from w) False None ?q ?s = pair_continue (pw_crypto w) (pw_fresh w) (pw_uid w) ?q ?s"
    using pair_query_args [of w device_name k "encode_hex d" "[]"] cipher_arg(1) [OF assms(1), of w device_name "encode_hex d"]
    by (simp add: serve_pair_def)
  moreover have "pair_continue (pw_crypto w) (pw_fresh w) (pw_uid w) ?q ?s
      = (Answer (ps_xml st),
         (let s' = (case ps_paired st of None \<Rightarrow> s | Some cert \<Rightarrow> pin_gs_client (fr_saves (pw_fresh w)) cert s)
          in if ps_done st then s'\<lparr>sv_pending := []\<rparr> else with_pending (pw_uid w) (p\<lparr>pd_pairing := hp\<rparr>) s'))"
    using assms(2,3)
    by (auto simp: pair_continue_def Let_def put_pending_def drop_pending_def with_pending_def pin_gs_client_def is_paired_def split: option.split)
  ultimately show ?thesis
    by (simp add: exchange_def q serve_pair_path [simplified] peer_cert_def)
qed

text \<open>The first request: it is held, the PIN is typed, and the host's certificate comes.\<close>

definition first_query :: "pair_world \<Rightarrow> rstr \<Rightarrow> bytes \<Rightarrow> gs_query" where
  "first_query w device_name salt =
     pair_base device_name (lit ''phrase'', lit ''getservercert'')
       @ [(lit ''salt'', encode_hex salt), (lit ''clientcert'', encode_hex (as_bytes (cr_pem (pw_client w))))]"

definition started :: "pair_world \<Rightarrow> rstr \<Rightarrow> bytes \<Rightarrow> host_pairing" where
  "started w device_name salt =
     \<lparr>hp_phase = ServerCert, hp_salt = salt, hp_cert = cr_der (pw_client w), hp_device = device_name,
       hp_key = Some (pin_key (pw_crypto w) Sha256 salt (pw_typed w)), hp_secret = replicate 16 0, hp_challenge = replicate 16 0, hp_hash = []\<rparr>"

definition cert_answer :: "credentials \<Rightarrow> rstr" where
  "cert_answer cr = xml_response 200 None [(lit ''paired'', lit ''1''), (lit ''plaincert'', encode_hex (as_bytes (cr_pem cr)))]"

lemma exchange_first:
  assumes "server_ok (s, n)" "sv_pending s = []" "\<not> sv_poisoned s" "length salt = 16" "credentials_ok (pw_crypto w) (pw_client w)"
  shows "exchange w False (lit ''pair'') (first_query w device_name salt) (s, n)
    = (Inr (cert_answer (sv_credentials s)),
       (with_pending (pw_uid w) \<lparr>pd_pairing = started w device_name salt, pd_device = device_name, pd_from = pw_from w, pd_answer = None\<rparr> s, Suc n))"
proof -
  let ?q = "client_arguments (pw_uid w) (pw_nonce w) (first_query w device_name salt)"
  define hp where "hp = (started w device_name salt)\<lparr>hp_phase := WaitingForPin, hp_key := None\<rparr>"
  define s1 where "s1 = s\<lparr>sv_pending := [(pw_uid w, \<lparr>pd_pairing = hp, pd_device = device_name, pd_from = pw_from w, pd_answer = Some n\<rparr>)],
    sv_held := sv_held s @ [(n, pw_uid w)]\<rparr>"
  have args: "map_of ?q (lit ''uniqueid'') = Some (pw_uid w)" "map_of ?q (lit ''phrase'') = Some (lit ''getservercert'')"
    "map_of ?q (lit ''salt'') = Some (encode_hex salt)" "map_of ?q (lit ''clientcert'') = Some (encode_hex (as_bytes (cr_pem (pw_client w))))"
    "map_of ?q (lit ''devicename'') = Some device_name"
    by (simp_all add: client_arguments_def first_query_def pair_base_def)
  have "pairing_start (pw_crypto w) (encode_hex salt) (encode_hex (as_bytes (cr_pem (pw_client w)))) device_name = Some (Inr hp)"
    using assms(4,5) by (simp add: pairing_start_def or_empty_def credentials_ok_def hp_def started_def)
  then have served: "serve_pair (pw_crypto w) (pw_fresh w) n (pw_from w) False None ?q s = (Held, s1)"
    using assms(2,3)
    by (simp only: serve_pair_def args option.case Let_def if_True simp_thms pair_getservercert_def arg_or_empty_def sum.case)
      (simp add: takes_pin_def put_pending_def s1_def hp_def started_def)
  have "find (takes_pin s1 None) [pw_uid w] = Some (pw_uid w)"
    by (simp add: takes_pin_def s1_def)
  moreover have "n \<notin> fst ` set (sv_held s)"
    using assms(1) by (auto simp: server_ok_def list_all_iff)
  then have "filter (\<lambda>(k, _). k \<noteq> n) (sv_held s) = sv_held s"
    by (force simp: filter_id_conv)
  ultimately have "enter_pin (pw_crypto w) (map fst (sv_pending s1)) (pw_typed w) None s1
      = (Some (Some (n, cert_answer (sv_credentials s))),
         with_pending (pw_uid w) \<lparr>pd_pairing = started w device_name salt, pd_device = device_name, pd_from = pw_from w, pd_answer = None\<rparr> s)"
    using assms(2,3)
    by (simp add: enter_pin_def s1_def pairing_pin_def put_pending_def with_pending_def hp_def started_def cert_answer_def)
  then show ?thesis
    using served by (simp add: exchange_def serve_pair_path [simplified] peer_cert_def)
qed

text \<open>What is relied on for a pairing to succeed.\<close>

definition pair_laws :: "pair_world \<Rightarrow> credentials \<Rightarrow> client_random \<Rightarrow> bool" where
  "pair_laws w server rnd =
     (cipher_ok (pw_crypto w) \<and> digests_ok (pw_crypto w) \<and> credentials_ok (pw_crypto w) (pw_client w) \<and> credentials_ok (pw_crypto w) server
      \<and> length (rn_salt rnd) = 16 \<and> length (rn_challenge rnd) = 16 \<and> length (rn_secret rnd) = 16
      \<and> length (fst (fr_pair (pw_fresh w))) = 16 \<and> length (snd (fr_pair (pw_fresh w))) = 16)"

lemma ask_requests:
  assumes "exchange w False (lit ''pair'') query st = (Inr a, st')" "xml_hex a (lit ''plaincert'') = Some pem"
  shows "ask (requests_pair w) False query (known, st) go
    = go a (if or_empty pem = [] then known else gc_pem_to_der (pw_crypto w) (or_empty pem), st')"
  using assms by (simp add: ask_def requests_pair_def del: lit_Cons)

lemma answer_simps:
  assumes "list_all (\<lambda>(other, v). plain_name other \<and> trim v = v) els"
  shows "plain_name name \<Longrightarrow> xml_hex (xml_response code message els) name = (case map_of els name of None \<Rightarrow> Some None | Some v \<Rightarrow> decode_hex v)"
    "says_paired (xml_response code message els) = (map_of els (lit ''paired'') = Some (lit ''1''))"
proof -
  show "plain_name name \<Longrightarrow> xml_hex (xml_response code message els) name = (case map_of els name of None \<Rightarrow> Some None | Some v \<Rightarrow> decode_hex v)"
    using xml_text_els [OF _ assms] by (simp add: xml_hex_def)
  have "plain_name (lit ''paired'')"
    by (simp add: name_simps)
  then show "says_paired (xml_response code message els) = (map_of els (lit ''paired'') = Some (lit ''1''))"
    using xml_text_els [OF _ assms] by (simp add: says_paired_def del: lit_Cons)
qed

lemma trim_one: "trim (lit ''1'') = lit ''1''"
  by (simp add: trim_lit_simps)

lemma answers:
  "says_paired (xml_response 200 None [(lit ''paired'', lit ''1''), (lit ''plaincert'', encode_hex pem)])"
  "xml_hex (xml_response 200 None [(lit ''paired'', lit ''1''), (lit ''plaincert'', encode_hex pem)]) (lit ''plaincert'') = Some (Some pem)"
  "says_paired (xml_response 200 None [(lit ''paired'', lit ''1''), (lit ''challengeresponse'', encode_hex d)])"
  "xml_hex (xml_response 200 None [(lit ''paired'', lit ''1''), (lit ''challengeresponse'', encode_hex d)]) (lit ''plaincert'') = Some None"
  "xml_hex (xml_response 200 None [(lit ''paired'', lit ''1''), (lit ''challengeresponse'', encode_hex d)]) (lit ''challengeresponse'') = Some (Some d)"
  "says_paired (xml_response 200 None [(lit ''pairingsecret'', encode_hex d), (lit ''paired'', lit ''1'')])"
  "xml_hex (xml_response 200 None [(lit ''pairingsecret'', encode_hex d), (lit ''paired'', lit ''1'')]) (lit ''plaincert'') = Some None"
  "xml_hex (xml_response 200 None [(lit ''pairingsecret'', encode_hex d), (lit ''paired'', lit ''1'')]) (lit ''pairingsecret'') = Some (Some d)"
  "says_paired (xml_response 200 None [(lit ''paired'', lit ''1'')])"
  "xml_hex (xml_response 200 None [(lit ''paired'', lit ''1'')]) (lit ''plaincert'') = Some None"
  by (subst answer_simps, simp add: name_simps trim_encode_hex trim_one [simplified], simp add: name_simps, simp)+

text \<open>The three steps on the host.\<close>

lemma host_steps:
  fixes w :: pair_world and rnd :: client_random and device_name :: rstr
  assumes "pair_laws w server rnd"
  defines "c \<equiv> pw_crypto w" and "key \<equiv> pin_key (pw_crypto w) Sha256 (rn_salt rnd) (pw_typed w)"
    and "own \<equiv> fst (fr_pair (pw_fresh w))" and "theirs \<equiv> snd (fr_pair (pw_fresh w))" and "hp1 \<equiv> started w device_name (rn_salt rnd)"
  defines "plain \<equiv> gc_sha256 c (rn_challenge rnd @ cr_signature server @ own) @ theirs"
    and "hash \<equiv> gc_sha256 c (theirs @ cr_signature (pw_client w) @ rn_secret rnd)"
  defines "hp2 \<equiv> hp1\<lparr>hp_phase := ClientChallenge, hp_secret := own, hp_challenge := theirs\<rparr>"
  defines "hp3 \<equiv> hp2\<lparr>hp_phase := ServerChallengeResponse, hp_hash := hash\<rparr>"
  shows "pairing_step c server (fr_pair (pw_fresh w))
      (pair_query w device_name (lit ''clientchallenge'', encode_hex (ecb_encrypt c key (rn_challenge rnd))) []) hp1
    = Some (\<lparr>ps_xml = xml_response 200 None [(lit ''paired'', lit ''1''), (lit ''challengeresponse'', encode_hex (ecb_encrypt c key plain))],
        ps_paired = None, ps_done = False\<rparr>, hp2)"
    "pairing_step c server (fr_pair (pw_fresh w))
      (pair_query w device_name (lit ''serverchallengeresp'', encode_hex (ecb_encrypt c key (pad32 hash))) []) hp2
    = Some (\<lparr>ps_xml = xml_response 200 None [(lit ''pairingsecret'', encode_hex (own @ cr_sign server own)), (lit ''paired'', lit ''1'')],
        ps_paired = None, ps_done = False\<rparr>, hp3)"
    "pairing_step c server (fr_pair (pw_fresh w))
      (pair_query w device_name (lit ''clientpairingsecret'', encode_hex (rn_secret rnd @ cr_sign (pw_client w) (rn_secret rnd))) []) hp3
    = Some (\<lparr>ps_xml = xml_response 200 None [(lit ''paired'', lit ''1'')], ps_paired = Some (cr_der (pw_client w)), ps_done = True\<rparr>, hp3)"
    "pad32 hash = hash" "ecb_decrypt c key (ecb_encrypt c key plain) = plain" "length plain = 48"
    "take 32 plain = gc_sha256 c (rn_challenge rnd @ cr_signature server @ own)" "take 16 (drop 32 plain) = theirs"
proof -
  have laws: "cipher_ok c" "length hash = 32" "length (gc_sha256 c d) = 32" "length own = 16" "length theirs = 16"
    "length (rn_challenge rnd) = 16" "length (rn_secret rnd) = 16" for d
    using assms(1) by (simp_all add: pair_laws_def digests_ok_def c_def own_def theirs_def hash_def)
  show pad: "pad32 hash = hash"
    using laws(2) by (simp add: pad32_def)
  show "ecb_decrypt c key (ecb_encrypt c key plain) = plain" "length plain = 48"
    using laws by (simp_all add: ecb_comes_back plain_def)
  show "take 32 plain = gc_sha256 c (rn_challenge rnd @ cr_signature server @ own)" "take 16 (drop 32 plain) = theirs"
    using laws by (simp_all add: plain_def)
  have key: "hp_key hp1 = Some key" "hp_key hp2 = Some key" "hp_key hp3 = Some key"
    by (simp_all add: hp1_def hp2_def hp3_def started_def key_def)
  have phase: "hp_phase hp1 = ServerCert" "hp_phase hp2 = ClientChallenge" "hp_secret hp2 = own"
    "hp_phase hp3 = ServerChallengeResponse" "hp_cert hp3 = cr_der (pw_client w)" "hp_challenge hp3 = theirs" "hp_hash hp3 = hash"
    by (simp_all add: hp1_def hp2_def hp3_def started_def)
  have differ: "lit ''clientchallenge'' \<noteq> lit ''serverchallengeresp''" "lit ''clientchallenge'' \<noteq> lit ''clientpairingsecret''"
    "lit ''serverchallengeresp'' \<noteq> lit ''clientpairingsecret''"
    by simp_all
  note args = cipher_arg(2) [of "lit ''clientchallenge''"] cipher_arg(2) [of "lit ''serverchallengeresp''"] cipher_arg(2) [of "lit ''clientpairingsecret''"]
  have "ecb_decrypt c key (ecb_encrypt c key (rn_challenge rnd)) = rn_challenge rnd"
    using laws by (simp add: ecb_comes_back)
  then show "pairing_step c server (fr_pair (pw_fresh w))
      (pair_query w device_name (lit ''clientchallenge'', encode_hex (ecb_encrypt c key (rn_challenge rnd))) []) hp1
    = Some (\<lparr>ps_xml = xml_response 200 None [(lit ''paired'', lit ''1''), (lit ''challengeresponse'', encode_hex (ecb_encrypt c key plain))],
        ps_paired = None, ps_done = False\<rparr>, hp2)"
    using args differ by (simp add: pairing_step_def key step_challenge_def Let_def phase own_def theirs_def plain_def hp2_def del: lit_Cons)
  have "ecb_decrypt c key (ecb_encrypt c key (pad32 hash)) = hash"
    using laws pad by (simp add: ecb_comes_back)
  then show "pairing_step c server (fr_pair (pw_fresh w))
      (pair_query w device_name (lit ''serverchallengeresp'', encode_hex (ecb_encrypt c key (pad32 hash))) []) hp2
    = Some (\<lparr>ps_xml = xml_response 200 None [(lit ''pairingsecret'', encode_hex (own @ cr_sign server own)), (lit ''paired'', lit ''1'')],
        ps_paired = None, ps_done = False\<rparr>, hp3)"
    using args differ by (simp add: pairing_step_def key step_response_def phase hp3_def del: lit_Cons)
  have "gc_signature c (cr_der (pw_client w)) = Some (cr_signature (pw_client w))"
    "gc_verify c (cr_der (pw_client w)) (rn_secret rnd) (cr_sign (pw_client w) (rn_secret rnd))" "cr_sign (pw_client w) (rn_secret rnd) \<noteq> []"
    using assms(1) by (simp_all add: pair_laws_def credentials_ok_def c_def)
  then show "pairing_step c server (fr_pair (pw_fresh w))
      (pair_query w device_name (lit ''clientpairingsecret'', encode_hex (rn_secret rnd @ cr_sign (pw_client w) (rn_secret rnd))) []) hp3
    = Some (\<lparr>ps_xml = xml_response 200 None [(lit ''paired'', lit ''1'')], ps_paired = Some (cr_der (pw_client w)), ps_done = True\<rparr>, hp3)"
    using args differ laws
    by (simp add: pairing_step_def key step_secret_def Let_def phase hash_def [symmetric] del: lit_Cons)
qed

text \<open>The client's steps after the host's certificate came, against a host where its pairing has its PIN.\<close>

lemma client_steps:
  assumes "pair_laws w (sv_credentials s) rnd" "sv_pending s = []" "\<not> sv_poisoned s"
  defines "der \<equiv> cr_der (sv_credentials s)" and "key \<equiv> pin_key (pw_crypto w) Sha256 (rn_salt rnd) (pw_typed w)"
  shows "client_challenge (requests_pair w) (pw_crypto w) (pw_client w) Sha256 key device_name rnd der
      (Some der, with_pending (pw_uid w) (p\<lparr>pd_pairing := started w device_name (rn_salt rnd)\<rparr>) s, n)
    = (Some (Inr der), (Some der, pin_gs_client (fr_saves (pw_fresh w)) (cr_der (pw_client w)) s, n + 4))"
proof -
  let ?c = "pw_crypto w" and ?server = "sv_credentials s"
  define own theirs where "own = fst (fr_pair (pw_fresh w))" and "theirs = snd (fr_pair (pw_fresh w))"
  define plain where "plain = gc_sha256 ?c (rn_challenge rnd @ cr_signature ?server @ own) @ theirs"
  define hash where "hash = gc_sha256 ?c (theirs @ cr_signature (pw_client w) @ rn_secret rnd)"
  define hp2 where "hp2 = (started w device_name (rn_salt rnd))\<lparr>hp_phase := ClientChallenge, hp_secret := own, hp_challenge := theirs\<rparr>"
  define hp3 where "hp3 = hp2\<lparr>hp_phase := ServerChallengeResponse, hp_hash := hash\<rparr>"
  define s' where "s' = pin_gs_client (fr_saves (pw_fresh w)) (cr_der (pw_client w)) s"
  note defs = own_def [symmetric] theirs_def [symmetric] plain_def [symmetric] hash_def [symmetric] hp2_def [symmetric] hp3_def [symmetric]
    key_def [symmetric]
  note host = host_steps(1-3) [OF assms(1), where device_name = device_name, unfolded defs] host_steps(4-8) [OF assms(1), unfolded defs]
  have pend: "s'\<lparr>sv_pending := []\<rparr> = s'"
    using assms(2) by (simp add: s'_def pin_gs_client_def Let_def)
  have e2: "exchange w False (lit ''pair'') (pair_base device_name (lit ''clientchallenge'', encode_hex (ecb_encrypt ?c key (rn_challenge rnd))))
      (with_pending (pw_uid w) (p\<lparr>pd_pairing := started w device_name (rn_salt rnd)\<rparr>) s, k)
    = (Inr (xml_response 200 None [(lit ''paired'', lit ''1''), (lit ''challengeresponse'', encode_hex (ecb_encrypt ?c key plain))]),
       (with_pending (pw_uid w) (p\<lparr>pd_pairing := hp2\<rparr>) s, Suc k))" for k
    using exchange_step [of "lit ''clientchallenge''" s w device_name "ecb_encrypt ?c key (rn_challenge rnd)" "p\<lparr>pd_pairing := started w device_name (rn_salt rnd)\<rparr>"]
      host(1) assms(3) by (simp del: lit_Cons)
  have e3: "exchange w False (lit ''pair'') (pair_base device_name (lit ''serverchallengeresp'', encode_hex (ecb_encrypt ?c key (pad32 hash))))
      (with_pending (pw_uid w) (p\<lparr>pd_pairing := hp2\<rparr>) s, k)
    = (Inr (xml_response 200 None [(lit ''pairingsecret'', encode_hex (own @ cr_sign ?server own)), (lit ''paired'', lit ''1'')]),
       (with_pending (pw_uid w) (p\<lparr>pd_pairing := hp3\<rparr>) s, Suc k))" for k
    using exchange_step [of "lit ''serverchallengeresp''" s w device_name "ecb_encrypt ?c key (pad32 hash)" "p\<lparr>pd_pairing := hp2\<rparr>"]
      host(2) assms(3) by (simp del: lit_Cons)
  have e4: "exchange w False (lit ''pair'') (pair_base device_name (lit ''clientpairingsecret'', encode_hex (rn_secret rnd @ cr_sign (pw_client w) (rn_secret rnd))))
      (with_pending (pw_uid w) (p\<lparr>pd_pairing := hp3\<rparr>) s, k)
    = (Inr (xml_response 200 None [(lit ''paired'', lit ''1'')]), (s', Suc k))" for k
    using exchange_step [of "lit ''clientpairingsecret''" s w device_name "rn_secret rnd @ cr_sign (pw_client w) (rn_secret rnd)" "p\<lparr>pd_pairing := hp3\<rparr>"]
      host(3) assms(3) pend by (simp add: s'_def del: lit_Cons)
  have q: "map_of (client_arguments (pw_uid w) (pw_nonce w) (pair_base device_name (lit ''phrase'', lit ''pairchallenge''))) (lit ''uniqueid'') = Some (pw_uid w)"
    "map_of (client_arguments (pw_uid w) (pw_nonce w) (pair_base device_name (lit ''phrase'', lit ''pairchallenge''))) (lit ''phrase'') = Some (lit ''pairchallenge'')"
    "lit ''pairchallenge'' \<noteq> lit ''getservercert''"
    by (simp_all add: client_arguments_def pair_base_def)
  have "is_paired s' (cr_der (pw_client w))"
    by (simp add: s'_def pin_gs_client_def is_paired_def Let_def)
  then have e5: "exchange w True (lit ''pair'') (pair_base device_name (lit ''phrase'', lit ''pairchallenge'')) (s', k)
    = (Inr (xml_response 200 None [(lit ''paired'', lit ''1'')]), (s', Suc k))" for k
    using q by (simp add: exchange_def serve_pair_path peer_cert_def serve_pair_def flag_text_def Let_def del: lit_Cons append.simps)
  have cr: "sv_credentials s' = ?server"
    by (simp add: s'_def)
  have signed: "gc_verify ?c der own (cr_sign ?server own)" "cr_sign ?server own \<noteq> []" "gc_signature ?c der = Some (cr_signature ?server)"
    "length own = 16"
    using assms(1) by (simp_all add: pair_laws_def credentials_ok_def der_def own_def)
  have r5: "ask (requests_pair w) True (pair_base device_name (lit ''phrase'', lit ''pairchallenge'')) (Some der, s', k) go
    = go (xml_response 200 None [(lit ''paired'', lit ''1'')]) (Some der, s', Suc k)" for k go
    using e5 cr by (simp add: ask_def requests_pair_def der_def del: lit_Cons)
  have finish: "client_finish (requests_pair w) (pw_client w) device_name rnd der (Some der, with_pending (pw_uid w) (p\<lparr>pd_pairing := hp3\<rparr>) s, k)
    = (Some (Inr der), (Some der, s', k + 2))" for k
    by (simp add: client_finish_def ask_requests [OF e4 answers(10)] answers(9) r5 or_empty_def del: lit_Cons)
  have answer: "client_answer (requests_pair w) ?c (pw_client w) Sha256 key device_name rnd der
      (gc_sha256 ?c (rn_challenge rnd @ cr_signature ?server @ own)) theirs (Some der, with_pending (pw_uid w) (p\<lparr>pd_pairing := hp2\<rparr>) s, k)
    = (Some (Inr der), (Some der, s', k + 3))" for k
    using signed
    by (simp add: client_answer_def digest_def hash_def [symmetric] Let_def ask_requests [OF e3 answers(7)] answers(6,8) with_hex_def finish
        or_empty_def del: lit_Cons)
  have "take 16 theirs = theirs"
    using assms(1) by (simp add: pair_laws_def theirs_def)
  then show ?thesis
    using host(5-8)
    by (simp add: client_challenge_def output_len_def Let_def ask_requests [OF e2 answers(4)] answers(3,5) with_hex_def answer
        or_empty_def s'_def [symmetric] del: lit_Cons)
qed

lemma hash_for_host: "hash_for APP_VERSION = Sha256"
  by (simp add: hash_for_def APP_VERSION_def trim_def trim_matches_def is_whitespace_def parse_i64_def parse_unsigned_def digit10_def is_ascii_digit_def)

text \<open>
  C3. A client pairs with a host: whatever the host is called, whoever else is paired and whatever ran before, when the
  person types the PIN the client shows, all requests from \<open>serverinfo\<close> to the check over HTTPS succeed, the client ends with
  the host's certificate pinned and the host with the client's, and no pairing is left pending.
\<close>

theorem pairing_succeeds:
  assumes "pair_laws w (sv_credentials s) rnd" "server_ok (s, n)" "sv_pending s = []" "\<not> sv_poisoned s" "pw_typed w = pin"
    and "trim (sv_name s) = sv_name s" "trim (sv_unique_id s) = sv_unique_id s" "trim (pw_local_ip w) = pw_local_ip w"
    and "sv_https_port s < 2 ^ 16" "current_game s < 2 ^ 32" "sv_codec_modes s < 2 ^ 32"
  shows "client_pair w pin device_name rnd (s, n)
    = (Some (Inr (cr_der (sv_credentials s))),
       (Some (cr_der (sv_credentials s)), pin_gs_client (fr_saves (pw_fresh w)) (cr_der (pw_client w)) s, n + 6))"
proof -
  let ?key = "pin_key (pw_crypto w) Sha256 (rn_salt rnd) (pw_typed w)"
  let ?p = "\<lparr>pd_pairing = started w device_name (rn_salt rnd), pd_device = device_name, pd_from = pw_from w, pd_answer = None\<rparr>"
  have info: "exchange w False (lit ''serverinfo'') [] (s, n) = (Inr (write_server_info (pw_local_ip w) False s), (s, Suc n))"
    by (simp add: exchange_def serve_request_def peer_paired_def Let_def)
  note read = server_info_comes_back_base [OF assms(6-11), of False]
  have laws: "length (rn_salt rnd) = 16" "credentials_ok (pw_crypto w) (pw_client w)" "cr_pem (sv_credentials s) \<noteq> []"
    "gc_pem_to_der (pw_crypto w) (as_bytes (cr_pem (sv_credentials s))) = Some (cr_der (sv_credentials s))"
    using assms(1) by (simp_all add: pair_laws_def credentials_ok_def)
  note first = exchange_first [OF later_ok [OF assms(2)] assms(3,4) laws(1,2), of device_name, unfolded first_query_def cert_answer_def]
  have ok: "xml_ok (xml_response 200 None [(lit ''paired'', lit ''1''), (lit ''plaincert'', encode_hex pem)]) = Inr ()" for pem
    by (rule xml_ok_response)
  have steps: "client_challenge (requests_pair w) (pw_crypto w) (pw_client w) Sha256 ?key device_name rnd (cr_der (sv_credentials s))
      (Some (cr_der (sv_credentials s)), with_pending (pw_uid w) ?p s, k)
    = (Some (Inr (cr_der (sv_credentials s))), (Some (cr_der (sv_credentials s)), pin_gs_client (fr_saves (pw_fresh w)) (cr_der (pw_client w)) s, k + 4))" for k
    using client_steps [OF assms(1,3,4), where p = ?p and device_name = device_name and n = k] by simp
  have "as_bytes (cr_pem (sv_credentials s)) \<noteq> []"
    using laws(3) by (simp add: as_bytes_Nil_iff)
  then show ?thesis
    using laws(4)
    by (simp add: assms(5) [symmetric] client_pair_def info read pair_client_def hash_for_host Let_def ask_requests [OF first answers(2)] ok answers(1,2)
        with_hex_def or_empty_def steps del: lit_Cons)
qed

end
