(* ===== verification/Gs_Launch.thy ===== *)
theory Gs_Launch
  imports Gs_Client
begin

text \<open>
  After the pairing: the clients' file survives a restart, the client reads the host's apps, a launch arrives as it was
  asked for, and a client takes nobody for the host without proof.
\<close>

section \<open>The file of paired clients\<close>

lemma read_clients_text: "read_clients (map encode_hex certs) = Some certs"
  by (induction certs) simp_all

lemma lines_of_clients: "lines_of (clients_text certs) = map encode_hex certs"
proof -
  have no: "10 \<notin> set (encode_hex d)" "13 \<notin> set (encode_hex d)" for d
    using encode_hex_ends [of 10 d] encode_hex_ends [of 13 d] by (auto simp: is_whitespace_def)
  have "split_on 10 (clients_text certs) = map encode_hex certs @ [[]]"
    using split_on_lines [of "map encode_hex certs" 10] no by (simp add: clients_text_def comp_def)
  moreover have "strip_cr (encode_hex d) = encode_hex d" for d
    using no(2) [of d] by (metis last_in_set strip_cr_def)
  ultimately show ?thesis
    by (simp add: lines_of_def Let_def)
qed

text \<open>
  Paired clients survive a restart: once a new client's certificate was written, a host opened on the file knows
  exactly the clients the host knew, in their order.
\<close>

theorem paired_clients_survive:
  assumes "\<not> is_paired s cert"
  shows "\<exists>t. server_open c name cr (sv_file (pin_gs_client True cert s)) apps = Some t \<and> sv_paired t = sv_paired s @ [cert]"
  using assms by (simp add: pin_gs_client_def Let_def server_open_def lines_of_clients read_clients_text del: map_append)

section \<open>The list of apps\<close>

lemma cut_close:
  assumes "plain_name name" "list_all (\<lambda>(other, _). plain_name other \<and> other \<noteq> name) els"
  shows "cut_at (close_tag name) (concat (map xml_element els) @ close_tag name @ s) = Some (concat (map xml_element els), s)"
  using assms(2)
proof (induction els)
  case Nil
  then show ?case
    using cut_here [of "close_tag name" s] by (simp add: close_tag_def)
next
  case (Cons e els)
  obtain other v where e: "e = (other, v)"
    by (cases e)
  have other: "plain_name other" "other \<noteq> name" "60 \<notin> set other" "62 \<notin> set other" "other \<noteq> []" "47 \<notin> set other"
    using Cons.prems plain_name_chars [of other] by (auto simp: e)
  have p: "close_tag name \<noteq> []" "hd (close_tag name) = 60"
    by (simp_all add: close_tag_def)
  let ?rest = "concat (map xml_element els) @ close_tag name @ s"
  have step: "cut_at (close_tag name) (60 # a @ r) = map_option (\<lambda>(x, y). (60 # a @ x, y)) (cut_at (close_tag name) r)"
    if "\<not> starts_with (close_tag name) (60 # a @ r)" "60 \<notin> set a" for a r
    using that cut_skip [of "close_tag name" a r] p by (cases "cut_at (close_tag name) r") auto
  have no2: "\<not> starts_with (close_tag name) (60 # ([47] @ other @ [62]) @ r)" for r
  proof
    assume "starts_with (close_tag name) (60 # ([47] @ other @ [62]) @ r)"
    then have "name @ 62 # drop (length (close_tag name)) (close_tag other @ r) = other @ 62 # r"
      using append_take_drop_id [of "length (close_tag name)" "close_tag other @ r"] by (simp add: starts_with_def close_tag_def)
    then have "split_once 62 (name @ 62 # drop (length (close_tag name)) (close_tag other @ r)) = split_once 62 (other @ 62 # r)"
      by simp
    then show False
      using other plain_name_chars [OF assms(1)] by (simp add: split_once_append)
  qed
  have no1: "\<not> starts_with (close_tag name) (60 # ((other @ [62]) @ xml_escape v) @ r)" for r
    using other(5,6) by (cases other) (auto simp: starts_with_def close_tag_def)
  have "60 \<notin> set ((other @ [62]) @ xml_escape v)" "60 \<notin> set ([47] @ other @ [62])"
    using other(3) escape_no_lt by simp_all
  note steps = step [OF no1 this(1)] step [OF no2 this(2)]
  have elem: "xml_element e @ r = 60 # ((other @ [62]) @ xml_escape v) @ 60 # ([47] @ other @ [62]) @ r" for r
    by (simp add: e xml_element_def open_tag_def close_tag_def)
  have "cut_at (close_tag name) (xml_element e @ ?rest) = map_option (\<lambda>(x, y). (xml_element e @ x, y)) (cut_at (close_tag name) ?rest)"
    unfolding elem steps by (cases "cut_at (close_tag name) ?rest") auto
  then show ?case
    using Cons by simp
qed

definition app_els :: "gs_app \<Rightarrow> (rstr \<times> rstr) list" where
  "app_els app = [(lit ''IsHdrSupported'', flag_text (ga_hdr app)), (lit ''AppTitle'', ga_title app), (lit ''ID'', decimal (ga_id app))]"

lemma app_element_els: "app_element app = open_tag (lit ''App'') @ concat (map xml_element (app_els app)) @ close_tag (lit ''App'')"
proof -
  have "xml_escape (flag_text b) = flag_text b" for b
    by (intro escape_plain) (simp add: flag_text_def escape_char_def)
  moreover have "xml_escape (decimal n) = decimal n" for n
    using decimal_plain(2) by (intro escape_plain) (force simp: list_all_iff escape_char_def)
  ultimately show ?thesis
    by (simp add: app_element_def app_els_def xml_element_def open_tag_def close_tag_def)
qed

lemma app_names: "plain_name (lit ''App'')" "list_all (\<lambda>(other, _). plain_name other \<and> other \<noteq> lit ''App'') (app_els app)"
  by (simp_all add: app_els_def name_simps)

lemma cut_at_eq: "cut_at p s = Some (a, b) \<Longrightarrow> s = a @ p @ b"
proof (induction s arbitrary: a)
  case (Cons x s)
  show ?case
  proof (cases "starts_with p (x # s)")
    case True
    then have "x # s = p @ drop (length p) (x # s)"
      unfolding starts_with_def by (metis append_take_drop_id)
    then show ?thesis
      using Cons.prems True by simp
  next
    case False
    then show ?thesis
      using Cons by auto
  qed
qed (simp split: if_splits)

text \<open>What follows a block is shorter than the document.\<close>

lemma blocks_step:
  "cut_at (open_tag name) xml = Some (a, inner) \<Longrightarrow> cut_at (close_tag name) inner = Some (block, rest)
    \<Longrightarrow> xml_blocks xml name = block # xml_blocks rest name"
  using cut_at_eq [of "open_tag name" xml a inner] cut_at_eq [of "close_tag name" inner block rest]
  by (subst xml_blocks.simps) (simp add: open_tag_def)

lemma blocks_none:
  "cut_at (open_tag name) xml = None \<Longrightarrow> xml_blocks xml name = []"
  "cut_at (open_tag name) xml = Some (a, inner) \<Longrightarrow> cut_at (close_tag name) inner = None \<Longrightarrow> xml_blocks xml name = []"
  by (subst xml_blocks.simps; simp)+

lemma blocks_of_apps: "xml_blocks (concat (map app_element apps) @ lit ''</root>'') (lit ''App'') = map (\<lambda>app. concat (map xml_element (app_els app))) apps"
proof (induction apps)
  case Nil
  have "cut_at (open_tag (lit ''App'')) (lit ''</root>'') = None"
    by (simp add: open_tag_def starts_with_def)
  then show ?case
    using blocks_none(1) by (simp del: lit_Cons)
next
  case (Cons app apps)
  let ?els = "concat (map xml_element (app_els app))" and ?more = "concat (map app_element apps) @ lit ''</root>''"
  have "cut_at (open_tag (lit ''App'')) (open_tag (lit ''App'') @ ?els @ close_tag (lit ''App'') @ ?more) = Some ([], ?els @ close_tag (lit ''App'') @ ?more)"
    by (rule cut_here) (simp add: open_tag_def)
  moreover have "cut_at (close_tag (lit ''App'')) (?els @ close_tag (lit ''App'') @ ?more) = Some (?els, ?more)"
    by (rule cut_close [OF app_names])
  ultimately have "xml_blocks (open_tag (lit ''App'') @ ?els @ close_tag (lit ''App'') @ ?more) (lit ''App'') = ?els # xml_blocks ?more (lit ''App'')"
    by (rule blocks_step)
  then show ?case
    using Cons by (simp add: app_element_els [of app] del: lit_Cons)
qed

lemma app_list_head: "app_list s = xml_head 200 None @ concat (map app_element (sv_apps s)) @ lit ''</root>''"
  by (simp add: app_list_def xml_head_def decimal.simps)

lemma blocks_after_head:
  "xml_blocks (xml_head 200 None @ r) (lit ''App'') = xml_blocks r (lit ''App'')"
proof (cases "cut_at (open_tag (lit ''App'')) r")
  case None
  then have "cut_at (open_tag (lit ''App'')) (xml_head 200 None @ r) = None"
    using head_has_no_tag [OF app_names(1), of 200 None r] by simp
  then show ?thesis
    using None by (subst (1 2) xml_blocks.simps) simp
next
  case (Some ab)
  obtain a b where ab: "ab = (a, b)"
    by (cases ab)
  have cut: "cut_at (open_tag (lit ''App'')) (xml_head 200 None @ r) = Some (xml_head 200 None @ a, b)"
    using head_has_no_tag [OF app_names(1), of 200 None r] Some ab by simp
  show ?thesis
  proof (cases "cut_at (close_tag (lit ''App'')) b")
    case None
    then show ?thesis
      using blocks_none(2) [OF cut] blocks_none(2) [OF Some [unfolded ab]] by simp
  next
    case (Some xy)
    then show ?thesis
      using blocks_step [OF cut] blocks_step [OF \<open>cut_at (open_tag (lit ''App'')) r = Some ab\<close> [unfolded ab]] by (cases xy) simp
  qed
qed

text \<open>The values in a block.\<close>

lemma block_text:
  assumes "plain_name name" "list_all (\<lambda>(other, v). plain_name other \<and> trim v = v) els" "distinct (map fst els)" "(name, v) \<in> set els"
  shows "xml_text (concat (map xml_element els)) name = Some v"
proof -
  obtain before after where els: "els = before @ (name, v) # after"
    using assms(4) by (auto simp: in_set_conv_decomp)
  have b: "list_all (\<lambda>(other, _). plain_name other \<and> other \<noteq> name) before" "trim v = v"
    using assms(2,3) by (force simp: els list_all_iff)+
  let ?rest = "concat (map xml_element after)"
  obtain a r where cut: "cut_at (open_tag name) (xml_element (name, v) @ ?rest) = Some (a, r)"
    using cut_here [of "open_tag name" "xml_escape v @ close_tag name @ ?rest"] by (simp add: xml_element_def open_tag_def)
  have "cut_at (open_tag name) (concat (map xml_element els)) = Some (concat (map xml_element before) @ a, r)"
    using cut_elements [OF assms(1) b(1), of "xml_element (name, v) @ ?rest"] cut by (simp add: els)
  then have "xml_text (concat (map xml_element els)) name = xml_text (xml_element (name, v) @ ?rest) name"
    unfolding xml_text_def cut by simp
  then show ?thesis
    by (simp add: xml_text_element [OF assms(1)] trim_escape [OF b(2)] unescape_escape)
qed

lemma read_app_back:
  assumes "trim (ga_title app) = ga_title app" "ga_id app < 2 ^ 32"
  shows "read_app (concat (map xml_element (app_els app))) = Some app"
proof -
  have els: "list_all (\<lambda>(other, v). plain_name other \<and> trim v = v) (app_els app)" "distinct (map fst (app_els app))"
    using assms(1) by (simp_all add: app_els_def name_simps trim_decimal flag_text_def) (simp_all add: trim_lit_simps)
  note text_of = block_text [OF _ els]
  have "xml_text (concat (map xml_element (app_els app))) (lit ''ID'') = Some (decimal (ga_id app))"
    "xml_text (concat (map xml_element (app_els app))) (lit ''AppTitle'') = Some (ga_title app)"
    "xml_text (concat (map xml_element (app_els app))) (lit ''IsHdrSupported'') = Some (flag_text (ga_hdr app))"
    by (rule text_of; simp add: name_simps app_els_def)+
  moreover have "flag_text (ga_hdr app) = lit ''1'' \<longleftrightarrow> ga_hdr app"
    by (simp add: flag_text_def)
  ultimately show ?thesis
    using assms(2) by (simp add: read_app_def text_or_empty_def del: lit_Cons)
qed

text \<open>
  C33. The apps a client lists are those the host offers, in their order, whatever characters their titles hold (no
  space at the ends).
\<close>

theorem apps_come_back:
  assumes "\<forall>app\<in>set (sv_apps s). trim (ga_title app) = ga_title app \<and> ga_id app < 2 ^ 32"
  shows "read_apps (app_list s) = Inr (sv_apps s)"
proof -
  have "List.map_filter read_app (map (\<lambda>app. concat (map xml_element (app_els app))) apps) = apps"
    if "\<forall>app\<in>set apps. trim (ga_title app) = ga_title app \<and> ga_id app < 2 ^ 32" for apps
    using that by (induction apps) (simp_all add: List.map_filter_def read_app_back)
  then have "List.map_filter read_app (xml_blocks (app_list s) (lit ''App'')) = sv_apps s"
    using assms by (simp add: app_list_head blocks_after_head blocks_of_apps del: lit_Cons)
  moreover have "xml_ok (app_list s) = Inr ()"
    using xml_status_of_head [of 200 None] by (simp add: xml_ok_def app_list_head del: lit_Cons)
  ultimately show ?thesis
    by (simp add: read_apps_def)
qed

section \<open>A launch\<close>

lemma parse_i64_signed: "- (2 ^ 31) \<le> n \<Longrightarrow> n < 2 ^ 31 \<Longrightarrow> parse_i64 (signed_decimal n) = Some n"
proof -
  assume n: "- (2 ^ 31) \<le> n" "n < 2 ^ 31"
  show ?thesis
  proof (cases "n < 0")
    case True
    obtain d ds where d: "decimal (nat (- n)) = d # ds"
      by (cases "decimal (nat (- n))") simp_all
    have "d \<noteq> 43"
      using decimal_digits [of d "nat (- n)"] by (auto simp: d is_ascii_digit_def)
    moreover have "nat (- n) \<le> 2 ^ 63"
      using n by simp
    ultimately show ?thesis
      using True parse_decimal [of "2 ^ 63" "nat (- n)"] by (simp add: signed_decimal_def parse_i64_def d)
  next
    case False
    then show ?thesis
      using n parse_i64_decimal [of "nat n"] by (simp add: signed_decimal_def)
  qed
qed

lemma parse_mode_back:
  assumes "wd < 2 ^ 32" "hg < 2 ^ 32" "fps < 2 ^ 32"
  shows "parse_mode (decimal wd @ lit ''x'' @ decimal hg @ lit ''x'' @ decimal fps) = (wd, hg, if 0 < fps then fps else 60)"
proof -
  have no: "120 \<notin> set (decimal n)" for n
    using decimal_digits [of 120 n] by (auto simp: is_ascii_digit_def)
  have "split_on 120 (decimal wd @ lit ''x'' @ decimal hg @ lit ''x'' @ decimal fps) = [decimal wd, decimal hg, decimal fps]"
    using split_on_joined [of 120 "decimal wd" "[decimal hg, decimal fps]"] no by simp
  then show ?thesis
    using assms by (simp add: parse_mode_def List.map_filter_def Let_def)
qed

text \<open>
  C22. A launch arrives as it was asked for: a paired client that names one of the host's apps when none runs gets the
  address of the stream, and the launch the host keeps has the client's app, input key, key id, size and rate (60 for a
  rate of 0), and is the one that runs.
\<close>

theorem launch_is_understood:
  assumes "peer_paired peer s" "running_launch s = None" "lr_app l \<in> ga_id ` set (sv_apps s)" "length (lr_key l) = 16"
    and "lr_app l < 2 ^ 32" "lr_width l < 2 ^ 32" "lr_height l < 2 ^ 32" "lr_fps l < 2 ^ 32" "trim local_ip = local_ip"
  shows "\<exists>answer s' launch. serve_request c fresh n frm local_ip peer ([47] @ lit ''launch'') (client_arguments uid nonce (launch_query l)) s = (Answer answer, s')
    \<and> launch_answer answer = Inr (Some (session_url local_ip s)) \<and> running_launch s' = Some launch
    \<and> gl_app launch = lr_app l \<and> gl_key launch = lr_key l \<and> gl_key_id launch = lr_key_id l
    \<and> gl_width launch = lr_width l \<and> gl_height launch = lr_height l \<and> gl_fps launch = (if 0 < lr_fps l then lr_fps l else 60)"
proof -
  let ?q = "client_arguments uid nonce (launch_query l)"
  have args: "map_of ?q (lit ''appid'') = Some (decimal (lr_app l))" "map_of ?q (lit ''rikey'') = Some (encode_hex (lr_key l))"
    "map_of ?q (lit ''rikeyid'') = Some (signed_decimal (sint (lr_key_id l)))"
    "map_of ?q (lit ''mode'') = Some (decimal (lr_width l) @ lit ''x'' @ decimal (lr_height l) @ lit ''x'' @ decimal (lr_fps l))"
    by (simp_all add: client_arguments_def launch_query_def)
  have key_id: "parse_i64 (signed_decimal (sint (lr_key_id l))) = Some (sint (lr_key_id l))"
    using sint_greater_eq [of "lr_key_id l"] sint_less [of "lr_key_id l"] by (intro parse_i64_signed) simp_all
  have request: "serve_request c fresh n frm local_ip peer ([47] @ lit ''launch'') ?q s = serve_launch fresh False ?q local_ip s"
    using assms(1) by (simp add: serve_request_def Let_def)
  have app: "launch_app False ?q s = Inr (lr_app l)"
    using assms(2,3,5) args(1) by (simp add: launch_app_def del: lit_Cons)
  let ?launch = "launch_new fresh (lr_app l) (lr_key l) (lr_key_id l) (lr_width l, lr_height l, if 0 < lr_fps l then lr_fps l else 60) (sv_video_encryption s)"
  have served: "serve_launch fresh False ?q local_ip s
    = (Answer (xml_response 200 None [(lit ''sessionUrl0'', session_url local_ip s), (lit ''gamesession'', lit ''1''), (lit ''resume'', flag_text False)]),
       start_launch ?launch s)"
    using assms(4) args(2-4) key_id app parse_mode_back [OF assms(6-8)]
    by (simp add: serve_launch_def hex_arg_def arg_or_empty_def del: lit_Cons)
  have "running_launch (start_launch ?launch s) = Some ?launch"
    by (simp add: running_launch_def start_launch_def Let_def launch_new_def)
  moreover have "trim (session_url local_ip s) = session_url local_ip s"
  proof (rule trim_id)
    have "\<not> is_whitespace (last (decimal (sv_rtsp_port s)))"
      using decimal_digits [of "last (decimal (sv_rtsp_port s))" "sv_rtsp_port s"] by (auto simp: is_ascii_digit_def is_whitespace_def)
    then show "session_url local_ip s = [] \<or> \<not> is_whitespace (hd (session_url local_ip s)) \<and> \<not> is_whitespace (last (session_url local_ip s))"
      by (simp add: session_url_def is_whitespace_def)
  qed
  then have "xml_text (xml_response 200 None [(lit ''sessionUrl0'', session_url local_ip s), (lit ''gamesession'', lit ''1''), (lit ''resume'', flag_text False)])
      (lit ''sessionUrl0'') = Some (session_url local_ip s)"
    by (subst xml_text_els) (simp_all add: name_simps flag_text_def trim_one [simplified] trim_lit_simps)
  then have "launch_answer (xml_response 200 None [(lit ''sessionUrl0'', session_url local_ip s), (lit ''gamesession'', lit ''1''), (lit ''resume'', flag_text False)])
      = Inr (Some (session_url local_ip s))"
    by (simp add: launch_answer_def xml_ok_response del: lit_Cons)
  ultimately show ?thesis
    unfolding request served by (simp add: launch_new_def)
qed

section \<open>What a client takes for its host\<close>

text \<open>A request the host answered with \<open>paired\<close> one.\<close>

definition answered :: "'h pair_requests \<Rightarrow> bool \<Rightarrow> gs_query \<Rightarrow> 'h \<Rightarrow> rstr \<Rightarrow> 'h \<Rightarrow> bool" where
  "answered host https query h a h' = (host https query h = (Some (Inr a), h') \<and> says_paired a)"

lemma ask_result:
  assumes "ask host https query h go = (Some (Inr der), h')"
  shows "\<exists>a h1. host https query h = (Some (Inr a), h1) \<and> go a h1 = (Some (Inr der), h')"
  using assms by (auto simp: ask_def split: prod.splits option.splits sum.splits)

lemma with_hex_result:
  assumes "with_hex a name h go = (Some (Inr der), h')"
  shows "\<exists>v. xml_hex a name = Some v \<and> go v = (Some (Inr der), h')"
  using assms by (auto simp: with_hex_def split: option.splits)

lemma finish_result:
  assumes "client_finish host cr device_name rnd sd h = (Some (Inr der), h')"
  shows "der = sd \<and> (\<exists>a4 h4 a5. answered host False
        (pair_base device_name (lit ''clientpairingsecret'', encode_hex (rn_secret rnd @ cr_sign cr (rn_secret rnd)))) h a4 h4
      \<and> answered host True (pair_base device_name (lit ''phrase'', lit ''pairchallenge'')) h4 a5 h')"
  using assms
  by (auto simp: client_finish_def give_up_def answered_def dest!: ask_result simp del: lit_Cons split: if_splits)

text \<open>The host's proof in its answer to the client's response: a secret its certificate's key signed, and the hash of step 2.\<close>

definition proves :: "gs_crypto \<Rightarrow> gs_hash \<Rightarrow> bytes \<Rightarrow> bytes \<Rightarrow> bytes \<Rightarrow> rstr \<Rightarrow> bool" where
  "proves c hash challenge der promised a =
     (\<exists>secret sig cert_sig. xml_hex a (lit ''pairingsecret'') = Some (Some (secret @ sig)) \<and> length secret = 16
        \<and> gc_verify c der secret sig \<and> gc_signature c der = Some cert_sig
        \<and> promised = digest c hash (challenge @ cert_sig @ secret))"

lemma answer_result:
  assumes "client_answer host c cr hash key device_name rnd sd response theirs h = (Some (Inr der), h')"
  shows "der = sd \<and> (\<exists>a3 h3 a4 h4 a5. answered host False (pair_base device_name (lit ''serverchallengeresp'',
          encode_hex (ecb_encrypt c key (pad32 (digest c hash (theirs @ cr_signature cr @ rn_secret rnd)))))) h a3 h3
      \<and> proves c hash (rn_challenge rnd) der response a3
      \<and> answered host False (pair_base device_name (lit ''clientpairingsecret'', encode_hex (rn_secret rnd @ cr_sign cr (rn_secret rnd)))) h3 a4 h4
      \<and> answered host True (pair_base device_name (lit ''phrase'', lit ''pairchallenge'')) h4 a5 h')"
proof -
  obtain a3 h3 v where ans: "answered host False (pair_base device_name (lit ''serverchallengeresp'',
          encode_hex (ecb_encrypt c key (pad32 (digest c hash (theirs @ cr_signature cr @ rn_secret rnd)))))) h a3 h3"
    and v: "xml_hex a3 (lit ''pairingsecret'') = Some v"
    and go: "(let pairing_secret = or_empty v; server_secret = take 16 pairing_secret
      in if length pairing_secret \<le> 16 then give_up host (Pairing (lit ''the host'' @ [39] @ lit ''s pairing secret is short'')) h3
         else if \<not> gc_verify c sd server_secret (drop 16 pairing_secret)
         then give_up host (Pairing (lit ''the host'' @ [39] @ lit ''s secret is not signed by its certificate: someone in the middle'')) h3
         else case gc_signature c sd of
             None \<Rightarrow> (Some (Inl PairCertificate), h3)
           | Some signature \<Rightarrow>
               if digest c hash (rn_challenge rnd @ signature @ server_secret) \<noteq> response then give_up host WrongPin h3
               else client_finish host cr device_name rnd sd h3) = (Some (Inr der), h')"
    using assms
    by (auto simp: client_answer_def Let_def give_up_def answered_def dest!: ask_result with_hex_result simp del: lit_Cons split: if_splits)
  define ps where "ps = or_empty v"
  have long: "16 < length ps"
    by (rule ccontr) (use go in \<open>simp add: ps_def [symmetric] give_up_def Let_def del: lit_Cons\<close>)
  then have v_ps: "v = Some ps"
    by (cases v) (simp_all add: ps_def or_empty_def)
  have signed: "gc_verify c sd (take 16 ps) (drop 16 ps)"
    by (rule ccontr) (use go long in \<open>simp add: ps_def [symmetric] give_up_def Let_def del: lit_Cons\<close>)
  have rest: "(case gc_signature c sd of
             None \<Rightarrow> (Some (Inl PairCertificate), h3)
           | Some signature \<Rightarrow>
               if digest c hash (rn_challenge rnd @ signature @ take 16 ps) \<noteq> response then give_up host WrongPin h3
               else client_finish host cr device_name rnd sd h3) = (Some (Inr der), h')"
    using go long signed by (simp add: ps_def [symmetric] Let_def del: lit_Cons)
  then obtain signature where sig: "gc_signature c sd = Some signature"
    by (cases "gc_signature c sd") simp_all
  then have hash: "response = digest c hash (rn_challenge rnd @ signature @ take 16 ps)"
    using rest by (auto simp: give_up_def split: if_splits)
  then have "client_finish host cr device_name rnd sd h3 = (Some (Inr der), h')"
    using rest sig by simp
  note finish = finish_result [OF this]
  have "proves c hash (rn_challenge rnd) sd response a3"
    unfolding proves_def using v v_ps signed sig hash long
    by (intro exI [of _ "take 16 ps"] exI [of _ "drop 16 ps"] exI [of _ signature]) simp
  with finish ans show ?thesis by blast
qed

text \<open>
  C6. A client takes nobody for its host without proof: whatever answers come, from whomever, a pairing ends with a
  certificate only if that certificate was in the answer to the first request, the answer to the challenge opens, under
  the key of the salt and the PIN, to a hash and a challenge, and the answer to the client's response to that challenge
  holds a secret the certificate's key signed, such that the hash is that of the client's own challenge, the
  certificate's signature and the secret; and then the host accepted the client's secret, and the check over HTTPS.
\<close>

theorem client_accepts_only_proof:
  assumes "pair_client host c cr version pin device_name rnd h = (Some (Inr der), h')"
  shows "\<exists>hash key n a1 h1 pem a2 h2 v response a3 h3 a4 h4 a5.
    hash = hash_for version \<and> key = pin_key c hash (rn_salt rnd) pin \<and> n = output_len hash
    \<and> answered host False (pair_base device_name (lit ''phrase'', lit ''getservercert'')
          @ [(lit ''salt'', encode_hex (rn_salt rnd)), (lit ''clientcert'', encode_hex (as_bytes (cr_pem cr)))]) h a1 h1
    \<and> xml_hex a1 (lit ''plaincert'') = Some (Some pem) \<and> gc_pem_to_der c pem = Some der
    \<and> answered host False (pair_base device_name (lit ''clientchallenge'', encode_hex (ecb_encrypt c key (rn_challenge rnd)))) h1 a2 h2
    \<and> xml_hex a2 (lit ''challengeresponse'') = Some v \<and> response = ecb_decrypt c key (or_empty v) \<and> n + 16 \<le> length response
    \<and> answered host False (pair_base device_name (lit ''serverchallengeresp'', encode_hex (ecb_encrypt c key
          (pad32 (digest c hash (take 16 (drop n response) @ cr_signature cr @ rn_secret rnd)))))) h2 a3 h3
    \<and> proves c hash (rn_challenge rnd) der (take n response) a3
    \<and> answered host False (pair_base device_name (lit ''clientpairingsecret'', encode_hex (rn_secret rnd @ cr_sign cr (rn_secret rnd)))) h3 a4 h4
    \<and> answered host True (pair_base device_name (lit ''phrase'', lit ''pairchallenge'')) h4 a5 h'"
proof -
  let ?hash = "hash_for version" and ?key = "pin_key c (hash_for version) (rn_salt rnd) pin"
  let ?q1 = "pair_base device_name (lit ''phrase'', lit ''getservercert'')
          @ [(lit ''salt'', encode_hex (rn_salt rnd)), (lit ''clientcert'', encode_hex (as_bytes (cr_pem cr)))]"
  obtain a1 h1 pem sd where one: "answered host False ?q1 h a1 h1" "xml_hex a1 (lit ''plaincert'') = Some (Some pem)"
    "gc_pem_to_der c pem = Some sd" "client_challenge host c cr ?hash ?key device_name rnd sd h1 = (Some (Inr der), h')"
    using assms
    by (auto simp: pair_client_def Let_def answered_def or_empty_def dest!: ask_result with_hex_result simp del: lit_Cons
        split: if_splits option.splits sum.splits)
  obtain a2 h2 v where two: "answered host False (pair_base device_name (lit ''clientchallenge'', encode_hex (ecb_encrypt c ?key (rn_challenge rnd)))) h1 a2 h2"
    "xml_hex a2 (lit ''challengeresponse'') = Some v" "output_len ?hash + 16 \<le> length (ecb_decrypt c ?key (or_empty v))"
    "client_answer host c cr ?hash ?key device_name rnd sd (take (output_len ?hash) (ecb_decrypt c ?key (or_empty v)))
       (take 16 (drop (output_len ?hash) (ecb_decrypt c ?key (or_empty v)))) h2 = (Some (Inr der), h')"
    using one(4)
    by (auto simp: client_challenge_def Let_def give_up_def answered_def not_less dest!: ask_result with_hex_result simp del: lit_Cons split: if_splits)
  from answer_result [OF two(4)] one(1-3) two(1-3) show ?thesis
    by blast
qed

section \<open>Examples\<close>

text \<open>A client and a host with simple cryptography.\<close>

definition demo_crypto :: gs_crypto where
  "demo_crypto = \<lparr>gc_sha1 = (\<lambda>d. replicate 20 0), gc_sha256 = (\<lambda>d. take 32 (rev d @ replicate 32 0)), gc_encrypt = (\<lambda>key b. rev b),
     gc_decrypt = (\<lambda>key b. rev b), gc_pem_to_der = Some, gc_signature = (\<lambda>d. Some [7]), gc_verify = (\<lambda>cert d sig. sig = [9])\<rparr>"

definition demo_credentials :: "nat \<Rightarrow> credentials" where
  "demo_credentials n = \<lparr>cr_pem = [n], cr_der = as_bytes [n], cr_sign = (\<lambda>d. [9]), cr_signature = [7]\<rparr>"

definition demo_fresh :: gs_fresh where
  "demo_fresh = \<lparr>fr_pair = (replicate 16 1, replicate 16 2), fr_ping = replicate 16 0, fr_connect = 5, fr_saves = True\<rparr>"

definition demo_server :: gs_server where
  "demo_server = \<lparr>sv_name = lit ''desk'', sv_unique_id = lit ''AB-12'', sv_credentials = demo_credentials 104,
     sv_apps = [\<lparr>ga_id = 1, ga_title = lit ''Notes & more'', ga_hdr = False\<rparr>], sv_launches = [], sv_launch = None, sv_paired = [[3]],
     sv_file = None, sv_pending = [], sv_held = [], sv_poisoned = False, sv_codec_modes = 1, sv_https_port = 47984, sv_rtsp_port = 48010,
     sv_video_encryption = False\<rparr>"

definition demo_world :: pair_world where
  "demo_world = \<lparr>pw_crypto = demo_crypto, pw_fresh = demo_fresh, pw_uid = lit ''0a'', pw_nonce = [1], pw_from = lit ''10.0.0.9'',
     pw_local_ip = lit ''10.0.0.1'', pw_client = demo_credentials 99, pw_typed = lit ''0417''\<rparr>"

definition demo_random :: client_random where
  "demo_random = \<lparr>rn_salt = replicate 16 4, rn_challenge = replicate 16 5, rn_secret = replicate 16 6\<rparr>"

lemmas demo_simps = demo_crypto_def demo_credentials_def demo_fresh_def demo_server_def demo_world_def demo_random_def

lemma demo_laws: "pair_laws demo_world (sv_credentials demo_server) demo_random"
  by (simp add: pair_laws_def demo_simps cipher_ok_def digests_ok_def credentials_ok_def min_def)

lemma demo_server_ok: "server_ok (demo_server, n)"
  by (simp add: server_ok_def launches_ok_def demo_server_def)

lemma pairing_succeeds_witness:
  "fst (client_pair demo_world (lit ''0417'') (lit ''deck'') demo_random (demo_server, 0)) = Some (Inr (as_bytes [104]))"
proof -
  have "client_pair demo_world (lit ''0417'') (lit ''deck'') demo_random (demo_server, 0)
    = (Some (Inr (cr_der (sv_credentials demo_server))),
       (Some (cr_der (sv_credentials demo_server)), pin_gs_client (fr_saves (pw_fresh demo_world)) (cr_der (pw_client demo_world)) demo_server, 0 + 6))"
    by (rule pairing_succeeds [OF demo_laws demo_server_ok])
      (simp_all add: demo_server_def demo_world_def current_game_def running_launch_def trim_lit_simps)
  then show ?thesis
    by (simp add: demo_server_def demo_credentials_def)
qed

lemma server_info_comes_back_witness:
  "read_server_info (write_server_info (lit ''10.0.0.1'') True demo_server) =
    Inr \<lparr>si_hostname = lit ''desk'', si_app_version = APP_VERSION, si_unique_id = lit ''AB-12'', si_https_port = 47984,
      si_paired = True, si_current_game = 0, si_codec_modes = 1\<rparr>"
proof -
  have "current_game demo_server = 0"
    by (simp add: current_game_def running_launch_def demo_server_def)
  then show ?thesis
    using server_info_comes_back [of demo_server "lit ''10.0.0.1''" True]
    by (simp add: demo_server_def trim_lit_simps)
qed

lemma paired_clients_survive_witness:
  "\<exists>t. server_open demo_crypto [] (demo_credentials 104) (sv_file (pin_gs_client True [1, 2] demo_server)) [] = Some t \<and> sv_paired t = [[3], [1, 2]]"
  using paired_clients_survive [of demo_server "[1, 2]" demo_crypto "[]" "demo_credentials 104" "[]"] by (simp add: is_paired_def demo_server_def)

lemma apps_come_back_witness: "read_apps (app_list demo_server) = Inr (sv_apps demo_server)"
  by (rule apps_come_back) (simp add: demo_server_def trim_lit_simps)

definition demo_launch :: launch_request where
  "demo_launch = \<lparr>lr_app = 1, lr_width = 1280, lr_height = 800, lr_fps = 0, lr_key = replicate 16 8, lr_key_id = 77,
     lr_host_audio = False, lr_surround = 196610, lr_gamepads = 0\<rparr>"

lemma launch_is_understood_witness:
  "\<exists>answer s' launch. serve_request demo_crypto demo_fresh 0 [] (lit ''10.0.0.1'') (Some (Some [3])) ([47] @ lit ''launch'')
      (client_arguments [] [] (launch_query demo_launch)) demo_server = (Answer answer, s')
    \<and> running_launch s' = Some launch \<and> gl_width launch = 1280"
proof -
  have h: "peer_paired (Some (Some [3])) demo_server" "running_launch demo_server = None" "lr_app demo_launch \<in> ga_id ` set (sv_apps demo_server)"
    "length (lr_key demo_launch) = 16" "lr_app demo_launch < 2 ^ 32" "lr_width demo_launch < 2 ^ 32" "lr_height demo_launch < 2 ^ 32"
    "lr_fps demo_launch < 2 ^ 32" "trim (lit ''10.0.0.1'') = lit ''10.0.0.1''" "lr_width demo_launch = 1280"
    by (simp_all add: peer_paired_def is_paired_def running_launch_def demo_server_def demo_launch_def trim_lit_simps)
  from launch_is_understood [OF h(1-9), of demo_crypto demo_fresh 0 "[]" "[]" "[]"] show ?thesis
    unfolding h(10) by blast
qed

definition demo_events :: "gs_event list" where
  "demo_events = [Request demo_fresh [] [] None (lit ''/pair'') [(lit ''uniqueid'', [97])], Pin_typed [] (lit ''1'') None]"

lemma pins_bound_paired_clients_witness:
  "\<exists>t. server_open demo_crypto [] (demo_credentials 104) None [] = Some t
    \<and> length (sv_paired (fst (gs_run demo_crypto demo_events (t, 0)))) \<le> 1 \<and> server_ok (gs_run demo_crypto demo_events (t, 0))"
proof -
  obtain t where t: "server_open demo_crypto [] (demo_credentials 104) None [] = Some t" "sv_paired t = []"
    by (simp add: server_open_def)
  have "pins_typed demo_events = 1"
    by (simp add: demo_events_def pins_typed_def)
  then show ?thesis
    using pins_bound_paired_clients [OF t(1), of demo_events] t by simp
qed

text \<open>A host whose pairing waits for the client's secret.\<close>

definition demo_waiting :: gs_server where
  "demo_waiting = demo_server\<lparr>sv_pending := [(lit ''0a'', \<lparr>pd_pairing = \<lparr>hp_phase = ServerChallengeResponse, hp_salt = [], hp_cert = [99],
      hp_device = [], hp_key = Some [], hp_secret = [], hp_challenge = [], hp_hash = take 32 (rev (7 # replicate 16 6) @ replicate 32 0)\<rparr>,
      pd_device = [], pd_from = [], pd_answer = None\<rparr>)]\<rparr>"

definition demo_secret :: gs_query where
  "demo_secret = [(lit ''uniqueid'', lit ''0a''), (lit ''clientpairingsecret'', encode_hex (replicate 16 6 @ [9]))]"

lemma paired_only_with_proof_witness:
  "\<exists>uid p. map_of demo_secret (lit ''uniqueid'') = Some uid \<and> map_of (sv_pending demo_waiting) uid = Some p \<and> hp_cert (pd_pairing p) = [99]"
proof -
  let ?e = "Request demo_fresh [] [] None (lit ''/pair'') demo_secret"
  have "hex_arg demo_secret (lit ''clientchallenge'') = Some None" "hex_arg demo_secret (lit ''serverchallengeresp'') = Some None"
    "hex_arg demo_secret (lit ''clientpairingsecret'') = Some (Some (replicate 16 6 @ [9]))"
    by (simp_all add: hex_arg_def demo_secret_def)
  then have "[99] \<in> set (sv_paired (snd (pair_continue demo_crypto demo_fresh (lit ''0a'') demo_secret demo_waiting)))"
    by (simp add: pair_continue_def demo_waiting_def demo_server_def demo_crypto_def pairing_step_def step_secret_def Let_def
        pin_gs_client_def is_paired_def put_pending_def drop_pending_def)
  moreover have "snd (serve_request demo_crypto demo_fresh 0 [] [] None (lit ''/pair'') demo_secret demo_waiting)
      = snd (pair_continue demo_crypto demo_fresh (lit ''0a'') demo_secret demo_waiting)"
    by (simp add: serve_request_def serve_pair_def demo_secret_def Let_def)
  ultimately have "[99] \<in> set (sv_paired (fst (gs_step demo_crypto ?e (demo_waiting, 0))))"
    by simp
  moreover have "\<not> is_paired demo_waiting [99]"
    by (simp add: is_paired_def demo_waiting_def demo_server_def)
  ultimately show ?thesis
    using paired_only_with_proof [of "[99]" demo_crypto ?e demo_waiting 0] by blast
qed

lemma unpaired_cannot_run_witness:
  "serve_request demo_crypto demo_fresh 0 [] [] (Some (Some [4])) (lit ''/cancel'') [] demo_server = (Answer unauthorized, demo_server)"
  using unpaired_cannot_run [of "Some (Some [4])" demo_server demo_crypto demo_fresh 0 "[]" "[]" "lit ''/cancel''" "[]"]
  by (simp add: peer_paired_def is_paired_def demo_server_def)

lemma cbc_comes_back_witness:
  "cbc_decrypt demo_crypto [] (replicate 16 3) (cbc_encrypt demo_crypto [] (replicate 16 3) [1, 2, 3]) = Some [1, 2, 3]"
  using cbc_comes_back [of demo_crypto "replicate 16 3" "[]" "[1, 2, 3]"] by (simp add: cipher_ok_def demo_crypto_def)

text \<open>A host that gives answers from a list.\<close>

definition scripted :: "rstr list pair_requests" where
  "scripted https query answers = (case answers of [] \<Rightarrow> (Some (Inl PairTransport), []) | a # rest \<Rightarrow> (Some (Inr a), rest))"

definition demo_script :: "rstr list" where
  "demo_script =
     (let one = xml_response 200 None [(lit ''paired'', lit ''1'')];
          key = pin_key demo_crypto Sha256 (replicate 16 4) (lit ''0417'');
          response = gc_sha256 demo_crypto (replicate 16 5 @ [7] @ replicate 16 1) @ replicate 16 2
      in [xml_response 200 None [(lit ''paired'', lit ''1''), (lit ''plaincert'', encode_hex [104])],
          xml_response 200 None [(lit ''paired'', lit ''1''), (lit ''challengeresponse'', encode_hex (ecb_encrypt demo_crypto key response))],
          xml_response 200 None [(lit ''pairingsecret'', encode_hex (replicate 16 1 @ [9])), (lit ''paired'', lit ''1'')],
          one, one])"

lemma client_accepts_only_proof_witness:
  "\<exists>hash key n a1 h1 pem a2 h2 v response a3 h3 a4 h4 a5.
    hash = hash_for APP_VERSION \<and> key = pin_key demo_crypto hash (rn_salt demo_random) (lit ''0417'') \<and> n = output_len hash
    \<and> answered scripted False (pair_base [] (lit ''phrase'', lit ''getservercert'')
          @ [(lit ''salt'', encode_hex (rn_salt demo_random)), (lit ''clientcert'', encode_hex (as_bytes (cr_pem (demo_credentials 99))))]) demo_script a1 h1
    \<and> xml_hex a1 (lit ''plaincert'') = Some (Some pem) \<and> gc_pem_to_der demo_crypto pem = Some [104]
    \<and> answered scripted False (pair_base [] (lit ''clientchallenge'', encode_hex (ecb_encrypt demo_crypto key (rn_challenge demo_random)))) h1 a2 h2
    \<and> xml_hex a2 (lit ''challengeresponse'') = Some v \<and> response = ecb_decrypt demo_crypto key (or_empty v) \<and> n + 16 \<le> length response
    \<and> answered scripted False (pair_base [] (lit ''serverchallengeresp'', encode_hex (ecb_encrypt demo_crypto key
          (pad32 (digest demo_crypto hash (take 16 (drop n response) @ cr_signature (demo_credentials 99) @ rn_secret demo_random)))))) h2 a3 h3
    \<and> proves demo_crypto hash (rn_challenge demo_random) [104] (take n response) a3
    \<and> answered scripted False (pair_base [] (lit ''clientpairingsecret'', encode_hex (rn_secret demo_random @ cr_sign (demo_credentials 99) (rn_secret demo_random)))) h3 a4 h4
    \<and> answered scripted True (pair_base [] (lit ''phrase'', lit ''pairchallenge'')) h4 a5 []"
proof -
  have cipher: "cipher_ok demo_crypto"
    by (simp add: cipher_ok_def demo_crypto_def)
  have hash: "length (gc_sha256 demo_crypto d) = 32" for d
    by (simp add: demo_crypto_def min_def)
  have fields: "gc_pem_to_der demo_crypto = Some" "gc_signature demo_crypto d = Some [7]" "gc_verify demo_crypto cert d sig = (sig = [9])" for cert d sig
    by (simp_all add: demo_crypto_def)
  have "ecb_decrypt demo_crypto key (ecb_encrypt demo_crypto key (gc_sha256 demo_crypto d @ replicate 16 2)) = gc_sha256 demo_crypto d @ replicate 16 2" for key d
    by (rule ecb_comes_back [OF cipher]) (simp add: hash)
  then have "pair_client scripted demo_crypto (demo_credentials 99) APP_VERSION (lit ''0417'') [] demo_random demo_script = (Some (Inr [104]), [])"
    by (simp add: pair_client_def hash_for_host ask_def scripted_def demo_script_def Let_def xml_ok_response answers with_hex_def or_empty_def
        client_challenge_def client_answer_def client_finish_def output_len_def digest_def hash fields demo_random_def del: lit_Cons)
  from client_accepts_only_proof [OF this] show ?thesis .
qed

end
