(* ===== verification/Gs_Stream.thy ===== *)
theory Gs_Stream
  imports Gs_Launch
begin

unbundle bit_operations_syntax

text \<open>
  Agreeing on a GameStream stream over RTSP: what the host answers (\<open>gamestream/src/stream.rs\<close>, \<open>serve_rtsp\<close>, \<open>describe\<close>,
  \<open>announce\<close>) and the requests the client makes (\<open>gamestream/src/session.rs\<close>, \<open>start\<close>, up to the opening of its sockets).
\<close>

section \<open>The host\<close>

definition VIDEO_PORT :: nat where "VIDEO_PORT = 47998"
definition AUDIO_PORT :: nat where "AUDIO_PORT = 48000"
definition CONTROL_PORT :: nat where "CONTROL_PORT = 47999"
definition SS_VIDEO_ENCRYPTION :: u32 where "SS_VIDEO_ENCRYPTION = 0x02"
definition SS_AUDIO_ENCRYPTION :: u32 where "SS_AUDIO_ENCRYPTION = 0x04"
definition NV_AUDIO_ENCRYPTION :: u32 where "NV_AUDIO_ENCRYPTION = 0x20"
definition FEATURE_PEN_TOUCH :: u32 where "FEATURE_PEN_TOUCH = 0x01"

record stream_config =
  sc_width :: nat
  sc_height :: nat
  sc_fps :: nat
  sc_bitrate_kbps :: nat
  sc_packet_size :: nat
  sc_codec :: nat
  sc_audio_ms :: nat
  sc_audio_encrypted :: bool
  sc_video_encrypted :: bool

definition lines_lf :: "rstr list \<Rightarrow> rstr" where
  "lines_lf ls = concat (map (\<lambda>l. l @ [10]) ls)"

definition describe_lines :: "gs_launch \<Rightarrow> rstr list" where
  "describe_lines l =
     [lit ''a=x-ss-general.featureFlags:'' @ decimal (unat FEATURE_PEN_TOUCH),
      lit ''a=x-ss-general.encryptionSupported:'' @ decimal (unat (1 OR SS_VIDEO_ENCRYPTION OR SS_AUDIO_ENCRYPTION)),
      lit ''a=x-ss-general.encryptionRequested:'' @ decimal (unat (if gl_video_encryption l then 1 OR SS_VIDEO_ENCRYPTION else 1)),
      lit ''a=fmtp:97 surround-params=611010101'', lit ''a=fmtp:97 surround-params=81101010101'']"

definition describe :: "gs_launch \<Rightarrow> bytes" where
  "describe l = as_bytes (lines_lf (describe_lines l))"

definition attributes_of :: "bytes \<Rightarrow> rstr \<Rightarrow> rstr option" where
  "attributes_of payload = sdp_attributes (from_utf8_lossy payload)"

definition sdp_number :: "(rstr \<Rightarrow> rstr option) \<Rightarrow> string \<Rightarrow> nat option" where
  "sdp_number attributes name = (case attributes (lit name) of None \<Rightarrow> None | Some v \<Rightarrow> parse_unsigned (2 ^ 32 - 1) (trim v))"

definition number_or :: "(rstr \<Rightarrow> rstr option) \<Rightarrow> string \<Rightarrow> nat \<Rightarrow> nat" where
  "number_or attributes name d = (case sdp_number attributes name of None \<Rightarrow> d | Some n \<Rightarrow> n)"

definition has_flag :: "nat \<Rightarrow> u32 \<Rightarrow> bool" where
  "has_flag n flag = ((of_nat n AND flag) \<noteq> 0)"

definition stream_announce :: "bytes \<Rightarrow> gs_launch \<Rightarrow> stream_config option" where
  "stream_announce payload l =
     (let a = attributes_of payload
      in case sdp_number a ''x-nv-video[0].packetSize'' of
          None \<Rightarrow> None
        | Some packet_size \<Rightarrow>
            Some \<lparr>sc_width = number_or a ''x-nv-video[0].clientViewportWd'' (gl_width l),
              sc_height = number_or a ''x-nv-video[0].clientViewportHt'' (gl_height l),
              sc_fps = number_or a ''x-nv-video[0].maxFPS'' (gl_fps l),
              sc_bitrate_kbps = number_or a ''x-nv-vqos[0].bw.maximumBitrateKbps'' 10000,
              sc_packet_size = packet_size,
              sc_codec = number_or a ''x-nv-vqos[0].bitStreamFormat'' 0,
              sc_audio_ms = (if sdp_number a ''x-nv-aqos.packetDuration'' = Some 10 then 10 else 5),
              sc_audio_encrypted =
                (has_flag (number_or a ''x-nv-general.featureFlags'' 0) NV_AUDIO_ENCRYPTION
                 \<or> has_flag (number_or a ''x-ss-general.encryptionEnabled'' 0) SS_AUDIO_ENCRYPTION),
              sc_video_encrypted = has_flag (number_or a ''x-ss-general.encryptionEnabled'' 0) SS_VIDEO_ENCRYPTION\<rparr>)"

definition setup_kind :: "rstr \<Rightarrow> rstr" where
  "setup_kind target = (case split_once 61 target of None \<Rightarrow> [] | Some (_, rest) \<Rightarrow> hd (split_on 47 rest))"

definition setup_port :: "rstr \<Rightarrow> nat option" where
  "setup_port kind =
     (if kind = lit ''audio'' then Some AUDIO_PORT
      else if kind = lit ''video'' then Some VIDEO_PORT
      else if kind = lit ''control'' then Some CONTROL_PORT else None)"

text \<open>One RTSP request: the response, the launch afterwards, and the settings of a stream that is started.\<close>

definition serve_setup :: "rstr option \<Rightarrow> rstr \<Rightarrow> gs_launch \<Rightarrow> rtsp_message" where
  "serve_setup cseq target l =
     (let kind = setup_kind target
      in case setup_port kind of
          None \<Rightarrow> rtsp_response 404 (lit ''NOT FOUND'') cseq
        | Some port \<Rightarrow>
            (let response = rtsp_with (lit ''Transport'') (lit ''server_port='' @ decimal port)
                (rtsp_with (lit ''Session'') (lit ''DEADBEEFCAFE;timeout = 90'') (rtsp_response 200 (lit ''OK'') cseq))
             in if kind = lit ''control'' then rtsp_with (lit ''X-SS-Connect-Data'') (decimal (unat (gl_connect_data l))) response
                else rtsp_with (lit ''X-SS-Ping-Payload'') (gl_ping_payload l) response))"

definition serve_rtsp :: "rtsp_message \<Rightarrow> gs_launch option \<Rightarrow> rtsp_message \<times> gs_launch option \<times> stream_config option" where
  "serve_rtsp request launch =
     (let cseq = rtsp_option (lit ''CSeq'') request; command = rm_command request; ok200 = rtsp_response 200 (lit ''OK'') cseq
      in case launch of
          None \<Rightarrow> (rtsp_response 503 (lit ''Service Unavailable'') cseq, None, None)
        | Some l \<Rightarrow>
            if command = lit ''OPTIONS'' \<or> command = lit ''PLAY'' then (ok200, launch, None)
            else if command = lit ''DESCRIBE'' then (ok200\<lparr>rm_payload := describe l\<rparr>, launch, None)
            else if command = lit ''SETUP'' then (serve_setup cseq (rm_target request) l, launch, None)
            else if command = lit ''ANNOUNCE'' then
              (case stream_announce (rm_payload request) l of
                 Some config \<Rightarrow>
                   if sc_codec config = 0 then
                     (ok200, Some (l\<lparr>gl_streaming := True\<rparr>), if gl_streaming l then None else Some config)
                   else (rtsp_response 400 (lit ''BAD REQUEST'') cseq, launch, None)
               | None \<Rightarrow> (rtsp_response 400 (lit ''BAD REQUEST'') cseq, launch, None))
            else (rtsp_response 404 (lit ''NOT FOUND'') cseq, launch, None))"

section \<open>The client\<close>

record stream_request =
  sq_width :: nat
  sq_height :: nat
  sq_fps :: nat
  sq_bitrate_kbps :: nat
  sq_packet_size :: nat
  sq_encrypt_video :: bool

definition stream_request_default :: stream_request where
  "stream_request_default = \<lparr>sq_width = 1280, sq_height = 720, sq_fps = 60, sq_bitrate_kbps = 10000, sq_packet_size = 1392, sq_encrypt_video = False\<rparr>"

definition port_of :: "rtsp_message \<Rightarrow> nat \<Rightarrow> nat" where
  "port_of response fallback =
     (case rtsp_option (lit ''Transport'') response of
        None \<Rightarrow> fallback
      | Some t \<Rightarrow>
          (case cut_at (lit ''server_port='') t of
             None \<Rightarrow> fallback
           | Some (_, r) \<Rightarrow>
               (let part = (case cut_at (lit ''server_port='') r of None \<Rightarrow> r | Some (a, _) \<Rightarrow> a)
                in case parse_unsigned 65535 (takeWhile is_ascii_digit part) of None \<Rightarrow> fallback | Some p \<Rightarrow> p)))"

text \<open>The encryption asked for, from what the host supports and requests.\<close>

definition encryption_for :: "(rstr \<Rightarrow> rstr option) \<Rightarrow> bool \<Rightarrow> u32" where
  "encryption_for attributes encrypt_video =
     (let supported = of_nat (number_or attributes ''x-ss-general.encryptionSupported'' 0) :: u32;
          requested = of_nat (number_or attributes ''x-ss-general.encryptionRequested'' 0) :: u32;
          video = (supported AND SS_VIDEO_ENCRYPTION \<noteq> 0 \<and> (encrypt_video \<or> requested AND SS_VIDEO_ENCRYPTION \<noteq> 0))
      in (supported AND 1) OR (if video then SS_VIDEO_ENCRYPTION else 0) OR (supported AND SS_AUDIO_ENCRYPTION))"

definition sdp_lines :: "rstr \<Rightarrow> rstr \<Rightarrow> u32 \<Rightarrow> stream_request \<Rightarrow> nat \<Rightarrow> rstr list" where
  "sdp_lines family ip encryption r video_port =
     [lit ''v=0'', lit ''o=android 0 14 IN '' @ family @ [32] @ ip, lit ''s=NVIDIA Streaming Client'',
      lit ''a=x-ml-general.featureFlags:0'',
      lit ''a=x-ss-general.encryptionEnabled:'' @ decimal (unat encryption),
      lit ''a=x-ss-video[0].chromaSamplingType:0'',
      lit ''a=x-nv-video[0].clientViewportWd:'' @ decimal (sq_width r),
      lit ''a=x-nv-video[0].clientViewportHt:'' @ decimal (sq_height r),
      lit ''a=x-nv-video[0].maxFPS:'' @ decimal (sq_fps r),
      lit ''a=x-nv-video[0].packetSize:'' @ decimal (sq_packet_size r),
      lit ''a=x-nv-video[0].rateControlMode:4'', lit ''a=x-nv-video[0].timeoutLengthMs:7000'',
      lit ''a=x-nv-video[0].framesWithInvalidRefThreshold:0'',
      lit ''a=x-nv-video[0].initialBitrateKbps:'' @ decimal (sq_bitrate_kbps r),
      lit ''a=x-nv-video[0].initialPeakBitrateKbps:'' @ decimal (sq_bitrate_kbps r),
      lit ''a=x-nv-vqos[0].bw.minimumBitrateKbps:'' @ decimal (sq_bitrate_kbps r),
      lit ''a=x-nv-vqos[0].bw.maximumBitrateKbps:'' @ decimal (sq_bitrate_kbps r),
      lit ''a=x-ml-video.configuredBitrateKbps:'' @ decimal (sq_bitrate_kbps r),
      lit ''a=x-nv-vqos[0].fec.enable:1'', lit ''a=x-nv-vqos[0].videoQualityScoreUpdateTime:5000'',
      lit ''a=x-nv-vqos[0].qosTrafficType:5'', lit ''a=x-nv-aqos.qosTrafficType:4'',
      lit ''a=x-nv-general.featureFlags:167'', lit ''a=x-nv-general.useReliableUdp:13'',
      lit ''a=x-nv-vqos[0].fec.minRequiredFecPackets:2'', lit ''a=x-nv-vqos[0].bllFec.enable:0'',
      lit ''a=x-nv-vqos[0].drc.enable:0'', lit ''a=x-nv-general.enableRecoveryMode:0'',
      lit ''a=x-nv-video[0].videoEncoderSlicesPerFrame:1'', lit ''a=x-nv-clientSupportHevc:0'',
      lit ''a=x-nv-vqos[0].bitStreamFormat:0'', lit ''a=x-nv-video[0].dynamicRangeMode:0'',
      lit ''a=x-nv-video[0].maxNumReferenceFrames:1'', lit ''a=x-nv-video[0].clientRefreshRateX100:0'',
      lit ''a=x-nv-audio.surround.numChannels:2'', lit ''a=x-nv-audio.surround.channelMask:3'',
      lit ''a=x-nv-audio.surround.enable:0'', lit ''a=x-nv-audio.surround.AudioQuality:0'',
      lit ''a=x-nv-aqos.packetDuration:5'', lit ''a=x-nv-video[0].encoderCscMode:0'',
      lit ''t=0 0'', lit ''m=video '' @ decimal video_port @ lit ''  '']"

definition sdp_text :: "rstr \<Rightarrow> rstr \<Rightarrow> u32 \<Rightarrow> stream_request \<Rightarrow> nat \<Rightarrow> rstr" where
  "sdp_text family ip encryption r video_port = join_lines (sdp_lines family ip encryption r video_port)"

text \<open>What is agreed on.\<close>

record agreement =
  ag_audio_port :: nat
  ag_video_port :: nat
  ag_control_port :: nat
  ag_ping_payload :: "bytes option"
  ag_connect_data :: nat

type_synonym 's rtsp_host = "rtsp_message \<Rightarrow> 's \<Rightarrow> (rstr + rtsp_message) \<times> 's"

definition client_message :: "rstr \<Rightarrow> nat \<Rightarrow> rstr \<Rightarrow> rstr \<Rightarrow> rtsp_message" where
  "client_message ip cseq command target =
     rtsp_with (lit ''Host'') ip (rtsp_with (lit ''X-GS-ClientVersion'') (lit ''14'') (rtsp_with (lit ''CSeq'') (decimal cseq) (rtsp_request command target)))"

definition if_modified :: "rtsp_message \<Rightarrow> rtsp_message" where
  "if_modified m = rtsp_with (lit ''If-Modified-Since'') (lit ''Thu, 01 Jan 1970 00:00:00 GMT'') m"

definition setup_message :: "rstr \<Rightarrow> nat \<Rightarrow> rstr \<Rightarrow> rstr option \<Rightarrow> rtsp_message" where
  "setup_message ip cseq target session =
     (let m = if_modified (rtsp_with (lit ''Transport'') (lit ''unicast;X-GS-ClientPort=50000-50001'') (client_message ip cseq (lit ''SETUP'') target))
      in case session of None \<Rightarrow> m | Some s \<Rightarrow> rtsp_with (lit ''Session'') s m)"

text \<open>One request and its answer, which must be a 200.\<close>

definition accepted :: "'s rtsp_host \<Rightarrow> rtsp_message \<Rightarrow> string \<Rightarrow> 's \<Rightarrow> (rtsp_message \<Rightarrow> 's \<Rightarrow> (rstr + agreement) \<times> 's) \<Rightarrow> (rstr + agreement) \<times> 's" where
  "accepted host m refused s go =
     (case host m s of
        (Inl e, s) \<Rightarrow> (Inl e, s)
      | (Inr r, s) \<Rightarrow> if rm_status r \<noteq> 200 then (Inl (lit refused), s) else go r s)"

definition session_of :: "rtsp_message \<Rightarrow> rstr option" where
  "session_of audio =
     (case rtsp_option (lit ''Session'') audio of
        None \<Rightarrow> None
      | Some s \<Rightarrow> (let id = trim (hd (split_on 59 s)) in if id = [] then None else Some id))"

definition announce_message :: "rstr \<Rightarrow> rstr \<Rightarrow> rstr \<Rightarrow> rtsp_message" where
  "announce_message ip session sdp =
     (rtsp_with (lit ''Content-length'') (decimal (utf8_len sdp)) (rtsp_with (lit ''Content-type'') (lit ''application/sdp'')
       (rtsp_with (lit ''Session'') session (client_message ip 6 (lit ''ANNOUNCE'') (lit ''streamid=control/13/0'')))))\<lparr>rm_payload := as_bytes sdp\<rparr>"

definition rtsp_start :: "'s rtsp_host \<Rightarrow> rstr \<Rightarrow> rstr \<Rightarrow> nat \<Rightarrow> stream_request \<Rightarrow> 's \<Rightarrow> (rstr + agreement) \<times> 's" where
  "rtsp_start host family ip port request s =
     (let target = lit ''rtsp://'' @ ip @ [58] @ decimal port
      in accepted host (client_message ip 1 (lit ''OPTIONS'') target) ''OPTIONS refused'' s (\<lambda>_ s.
         accepted host (if_modified (rtsp_with (lit ''Accept'') (lit ''application/sdp'') (client_message ip 2 (lit ''DESCRIBE'') target)))
           ''DESCRIBE refused'' s (\<lambda>described s.
         let encryption = encryption_for (attributes_of (rm_payload described)) (sq_encrypt_video request)
         in accepted host (setup_message ip 3 (lit ''streamid=audio/0/0'') None) ''SETUP audio refused'' s (\<lambda>audio s.
         case session_of audio of
           None \<Rightarrow> (Inl (lit ''no session in SETUP''), s)
         | Some session \<Rightarrow>
         accepted host (setup_message ip 4 (lit ''streamid=video/0/0'') (Some session)) ''SETUP video refused'' s (\<lambda>video s.
         accepted host (setup_message ip 5 (lit ''streamid=control/13/0'') (Some session)) ''SETUP control refused'' s (\<lambda>control s.
         let video_port = port_of video VIDEO_PORT
         in accepted host (announce_message ip session (sdp_text family ip encryption request video_port)) ''ANNOUNCE refused'' s (\<lambda>_ s.
         accepted host (rtsp_with (lit ''Session'') session (client_message ip 7 (lit ''PLAY'') [47])) ''PLAY refused'' s (\<lambda>_ s.
         (Inr \<lparr>ag_audio_port = port_of audio AUDIO_PORT, ag_video_port = video_port, ag_control_port = port_of control CONTROL_PORT,
            ag_ping_payload = (case rtsp_option (lit ''X-SS-Ping-Payload'') video of
                None \<Rightarrow> None | Some p \<Rightarrow> if utf8_len p = 16 then Some (as_bytes p) else None),
            ag_connect_data = (case rtsp_option (lit ''X-SS-Connect-Data'') control of
                None \<Rightarrow> 0 | Some c \<Rightarrow> (case parse_unsigned (2 ^ 32 - 1) (trim c) of None \<Rightarrow> 0 | Some n \<Rightarrow> n))\<rparr>, s)))))))))"

text \<open>What a ping holds, and which pings the host takes.\<close>

definition client_ping :: "bytes option \<Rightarrow> u32 \<Rightarrow> bytes" where
  "client_ping payload count = (case payload of Some p \<Rightarrow> p @ be_bytes 4 count | None \<Rightarrow> [80, 73, 78, 71])"

definition takes_ping :: "gs_launch \<Rightarrow> rstr option \<Rightarrow> rstr \<Rightarrow> bytes \<Rightarrow> bool" where
  "takes_ping l rtsp_peer_ip from_ip ping =
     ((16 \<le> length ping \<and> take 16 ping = as_bytes (gl_ping_payload l) \<or> ping = [80, 73, 78, 71])
      \<and> (rtsp_peer_ip = None \<or> rtsp_peer_ip = Some from_ip))"

section \<open>Descriptions are read as written\<close>

lemma split_lines_plain: "13 \<notin> set l \<Longrightarrow> 10 \<notin> set l \<Longrightarrow> split_lines (l @ 10 # s) = l # split_lines s"
  "13 \<notin> set l \<Longrightarrow> 10 \<notin> set l \<Longrightarrow> split_lines (l @ 13 # s) = l # split_lines s"
  by (induction l) auto

lemma no_attribute: "sdp_attribute [] = None"
  by (simp add: sdp_attribute_def starts_with_def)

lemma attributes_lf:
  assumes "list_all (\<lambda>l. 13 \<notin> set l \<and> 10 \<notin> set l) ls"
  shows "sdp_attributes (lines_lf ls) = map_of (rev (List.map_filter sdp_attribute ls))"
proof -
  have "List.map_filter sdp_attribute (split_lines (lines_lf ls)) = List.map_filter sdp_attribute ls"
    using assms by (induction ls) (simp_all add: lines_lf_def split_lines_plain List.map_filter_def no_attribute)
  then show ?thesis
    by (simp add: sdp_attributes_def)
qed

lemma attributes_crlf:
  assumes "list_all (\<lambda>l. 13 \<notin> set l \<and> 10 \<notin> set l) ls"
  shows "sdp_attributes (join_lines ls) = map_of (rev (List.map_filter sdp_attribute ls))"
proof -
  have "List.map_filter sdp_attribute (split_lines (join_lines ls)) = List.map_filter sdp_attribute ls"
    using assms
    by (induction ls) (simp_all add: join_lines_def CRLF_def split_lines_plain List.map_filter_def no_attribute)
  then show ?thesis
    by (simp add: sdp_attributes_def)
qed

lemma trim_end_decimal: "trim_end (decimal n) = decimal n"
proof -
  have "\<not> is_whitespace (last (decimal n))"
    using decimal_digits [of "last (decimal n)" n] by (auto simp: is_ascii_digit_def is_whitespace_def)
  then show ?thesis
    by (cases "decimal n" rule: rev_cases) (simp_all add: trim_end_def)
qed

lemma decimal_line: "c \<in> set (decimal n) \<Longrightarrow> 48 \<le> c \<and> c \<le> 57"
  using decimal_digits [of c n] by (simp add: is_ascii_digit_def)

lemma decimal_no: "13 \<notin> set (decimal n)" "10 \<notin> set (decimal n)" "list_all scalar (decimal n)"
  using decimal_line [of _ n] by (force simp: list_all_iff scalar_def)+

text \<open>The attributes of a client's announcement.\<close>

lemma announced_attributes:
  assumes "line_text family" "line_text ip"
  shows "attributes_of (as_bytes (sdp_text family ip e r port)) = map_of (rev (List.map_filter sdp_attribute (sdp_lines family ip e r port)))"
proof -
  have ok: "list_all line_text (sdp_lines family ip e r port)"
    using assms decimal_no by (simp add: sdp_lines_def line_text_def scalar_def)
  have "list_all scalar (join_lines ls)" if "list_all line_text ls" for ls
    using that by (induction ls) (auto simp: join_lines_def line_text_def CRLF_def scalar_def)
  then have "attributes_of (as_bytes (sdp_text family ip e r port)) = sdp_attributes (sdp_text family ip e r port)"
    using ok by (simp add: attributes_of_def sdp_text_def lossy_as_bytes)
  also have "\<dots> = map_of (rev (List.map_filter sdp_attribute (sdp_lines family ip e r port)))"
    unfolding sdp_text_def using ok by (intro attributes_crlf) (auto simp: list_all_iff line_text_def)
  finally show ?thesis .
qed

lemma attribute_number:
  assumes "58 \<notin> set name"
  shows "sdp_attribute ([97, 61] @ name @ 58 # decimal n) = Some (name, decimal n)"
  using split_once_append [OF assms, of "decimal n"] by (simp add: sdp_attribute_def starts_with_def trim_end_decimal)

definition sdp_pairs :: "u32 \<Rightarrow> stream_request \<Rightarrow> (rstr \<times> rstr) list" where
  "sdp_pairs e r =
     [(lit ''x-ml-general.featureFlags'', lit ''0''),
      (lit ''x-ss-general.encryptionEnabled'', decimal (unat e)),
      (lit ''x-ss-video[0].chromaSamplingType'', lit ''0''),
      (lit ''x-nv-video[0].clientViewportWd'', decimal (sq_width r)),
      (lit ''x-nv-video[0].clientViewportHt'', decimal (sq_height r)),
      (lit ''x-nv-video[0].maxFPS'', decimal (sq_fps r)),
      (lit ''x-nv-video[0].packetSize'', decimal (sq_packet_size r)),
      (lit ''x-nv-video[0].rateControlMode'', lit ''4''),
      (lit ''x-nv-video[0].timeoutLengthMs'', lit ''7000''),
      (lit ''x-nv-video[0].framesWithInvalidRefThreshold'', lit ''0''),
      (lit ''x-nv-video[0].initialBitrateKbps'', decimal (sq_bitrate_kbps r)),
      (lit ''x-nv-video[0].initialPeakBitrateKbps'', decimal (sq_bitrate_kbps r)),
      (lit ''x-nv-vqos[0].bw.minimumBitrateKbps'', decimal (sq_bitrate_kbps r)),
      (lit ''x-nv-vqos[0].bw.maximumBitrateKbps'', decimal (sq_bitrate_kbps r)),
      (lit ''x-ml-video.configuredBitrateKbps'', decimal (sq_bitrate_kbps r)),
      (lit ''x-nv-vqos[0].fec.enable'', lit ''1''),
      (lit ''x-nv-vqos[0].videoQualityScoreUpdateTime'', lit ''5000''),
      (lit ''x-nv-vqos[0].qosTrafficType'', lit ''5''),
      (lit ''x-nv-aqos.qosTrafficType'', lit ''4''),
      (lit ''x-nv-general.featureFlags'', lit ''167''),
      (lit ''x-nv-general.useReliableUdp'', lit ''13''),
      (lit ''x-nv-vqos[0].fec.minRequiredFecPackets'', lit ''2''),
      (lit ''x-nv-vqos[0].bllFec.enable'', lit ''0''),
      (lit ''x-nv-vqos[0].drc.enable'', lit ''0''),
      (lit ''x-nv-general.enableRecoveryMode'', lit ''0''),
      (lit ''x-nv-video[0].videoEncoderSlicesPerFrame'', lit ''1''),
      (lit ''x-nv-clientSupportHevc'', lit ''0''),
      (lit ''x-nv-vqos[0].bitStreamFormat'', lit ''0''),
      (lit ''x-nv-video[0].dynamicRangeMode'', lit ''0''),
      (lit ''x-nv-video[0].maxNumReferenceFrames'', lit ''1''),
      (lit ''x-nv-video[0].clientRefreshRateX100'', lit ''0''),
      (lit ''x-nv-audio.surround.numChannels'', lit ''2''),
      (lit ''x-nv-audio.surround.channelMask'', lit ''3''),
      (lit ''x-nv-audio.surround.enable'', lit ''0''),
      (lit ''x-nv-audio.surround.AudioQuality'', lit ''0''),
      (lit ''x-nv-aqos.packetDuration'', lit ''5''),
      (lit ''x-nv-video[0].encoderCscMode'', lit ''0'')]"

lemma sdp_lines_pairs: "List.map_filter sdp_attribute (sdp_lines family ip e r port) = sdp_pairs e r"
  by (simp add: sdp_lines_def sdp_pairs_def List.map_filter_def sdp_attribute_def starts_with_def trim_end_decimal [unfolded trim_end_def]
      trim_end_def is_whitespace_def)

lemma announce_reads:
  assumes "line_text family" "line_text ip"
    and "sq_width r < 2 ^ 32" "sq_height r < 2 ^ 32" "sq_fps r < 2 ^ 32" "sq_bitrate_kbps r < 2 ^ 32" "sq_packet_size r < 2 ^ 32"
  shows "stream_announce (as_bytes (sdp_text family ip e r port)) l =
    Some \<lparr>sc_width = sq_width r, sc_height = sq_height r, sc_fps = sq_fps r, sc_bitrate_kbps = sq_bitrate_kbps r,
      sc_packet_size = sq_packet_size r, sc_codec = 0, sc_audio_ms = 5, sc_audio_encrypted = True,
      sc_video_encrypted = (e AND SS_VIDEO_ENCRYPTION \<noteq> 0)\<rparr>"
proof -
  define a where "a = map_of (rev (sdp_pairs e r))"
  have lookups: "a (lit ''x-nv-video[0].packetSize'') = Some (decimal (sq_packet_size r))"
    "a (lit ''x-nv-video[0].clientViewportWd'') = Some (decimal (sq_width r))"
    "a (lit ''x-nv-video[0].clientViewportHt'') = Some (decimal (sq_height r))"
    "a (lit ''x-nv-video[0].maxFPS'') = Some (decimal (sq_fps r))"
    "a (lit ''x-nv-vqos[0].bw.maximumBitrateKbps'') = Some (decimal (sq_bitrate_kbps r))"
    "a (lit ''x-nv-vqos[0].bitStreamFormat'') = Some (lit ''0'')"
    "a (lit ''x-nv-aqos.packetDuration'') = Some (lit ''5'')"
    "a (lit ''x-nv-general.featureFlags'') = Some (lit ''167'')"
    "a (lit ''x-ss-general.encryptionEnabled'') = Some (decimal (unat e))"
    unfolding a_def sdp_pairs_def by simp_all
  have num: "(case Some (decimal n) of None \<Rightarrow> None | Some v \<Rightarrow> parse_unsigned (2 ^ 32 - 1) (trim v)) = (if n < 2 ^ 32 then Some n else None)" for n
    by (simp add: trim_decimal)
  have "unat e < 2 ^ 32"
    using unsigned_less [of e, where ?'a = nat] by simp
  then have numbers: "sdp_number a ''x-nv-video[0].packetSize'' = Some (sq_packet_size r)"
    "sdp_number a ''x-nv-video[0].clientViewportWd'' = Some (sq_width r)"
    "sdp_number a ''x-nv-video[0].clientViewportHt'' = Some (sq_height r)"
    "sdp_number a ''x-nv-video[0].maxFPS'' = Some (sq_fps r)"
    "sdp_number a ''x-nv-vqos[0].bw.maximumBitrateKbps'' = Some (sq_bitrate_kbps r)"
    "sdp_number a ''x-ss-general.encryptionEnabled'' = Some (unat e)"
    using assms(3-7) by (simp_all only: sdp_number_def lookups num if_True)
  have digits: "sdp_number a ''x-nv-vqos[0].bitStreamFormat'' = Some 0" "sdp_number a ''x-nv-aqos.packetDuration'' = Some 5"
    "sdp_number a ''x-nv-general.featureFlags'' = Some 167"
    by (simp_all only: sdp_number_def lookups option.case)
      (simp_all add: trim_def trim_matches_def is_whitespace_def parse_unsigned_def digit10_def is_ascii_digit_def)
  have audio: "has_flag 167 NV_AUDIO_ENCRYPTION"
    by (simp add: has_flag_def NV_AUDIO_ENCRYPTION_def)
  have video: "has_flag (unat e) SS_VIDEO_ENCRYPTION = (e AND SS_VIDEO_ENCRYPTION \<noteq> 0)"
    by (simp add: has_flag_def)
  show ?thesis
    by (simp only: stream_announce_def announced_attributes [OF assms(1,2)] sdp_lines_pairs a_def [symmetric] Let_def numbers digits number_or_def option.case audio video)
      simp
qed

text \<open>What the client makes of the host's description: everything is encrypted that either end wants so.\<close>

definition agreed_encryption :: "gs_launch \<Rightarrow> bool \<Rightarrow> u32" where
  "agreed_encryption l encrypt_video = (if encrypt_video \<or> gl_video_encryption l then 7 else 5)"

lemma described_encryption: "encryption_for (attributes_of (describe l)) encrypt_video = agreed_encryption l encrypt_video"
proof -
  have small: "decimal 1 = lit ''1''" "decimal 3 = lit ''3''" "decimal 7 = lit ''7''"
    by (simp_all add: decimal.simps [of "Suc 0"] decimal.simps [of 3] decimal.simps [of 7])
  define req where "req = (if gl_video_encryption l then lit ''3'' else lit ''1'')"
  have d: "describe_lines l = [lit ''a=x-ss-general.featureFlags:1'', lit ''a=x-ss-general.encryptionSupported:7'',
      lit ''a=x-ss-general.encryptionRequested:'' @ req, lit ''a=fmtp:97 surround-params=611010101'', lit ''a=fmtp:97 surround-params=81101010101'']"
    by (simp add: describe_lines_def req_def FEATURE_PEN_TOUCH_def SS_VIDEO_ENCRYPTION_def SS_AUDIO_ENCRYPTION_def small small(1) [unfolded One_nat_def])
  have lines: "list_all (\<lambda>l. 13 \<notin> set l \<and> 10 \<notin> set l) (describe_lines l)" "list_all scalar (lines_lf (describe_lines l))"
    unfolding d by (simp_all add: lines_lf_def req_def scalar_def)
  define a where "a = attributes_of (describe l)"
  have "a = map_of (rev (List.map_filter sdp_attribute (describe_lines l)))"
    using lines by (simp add: a_def attributes_of_def describe_def lossy_as_bytes attributes_lf)
  also have "List.map_filter sdp_attribute (describe_lines l) = [(lit ''x-ss-general.featureFlags'', lit ''1''), (lit ''x-ss-general.encryptionSupported'', lit ''7''),
      (lit ''x-ss-general.encryptionRequested'', req), (lit ''fmtp'', lit ''97 surround-params=611010101''), (lit ''fmtp'', lit ''97 surround-params=81101010101'')]"
    unfolding d by (simp add: List.map_filter_def sdp_attribute_def starts_with_def trim_end_def is_whitespace_def req_def)
  finally have "a (lit ''x-ss-general.encryptionSupported'') = Some (lit ''7'')" "a (lit ''x-ss-general.encryptionRequested'') = Some req"
    by simp_all
  then have "number_or a ''x-ss-general.encryptionSupported'' 0 = 7"
    "number_or a ''x-ss-general.encryptionRequested'' 0 = (if gl_video_encryption l then 3 else 1)"
    by (simp_all add: number_or_def sdp_number_def req_def trim_def trim_matches_def is_whitespace_def parse_unsigned_def digit10_def
        is_ascii_digit_def)
  then show ?thesis
    unfolding a_def [symmetric]
    by (simp add: encryption_for_def agreed_encryption_def SS_VIDEO_ENCRYPTION_def SS_AUDIO_ENCRYPTION_def Let_def)
qed

section \<open>A stream is agreed on\<close>

text \<open>The host as a client reaches it: its launch, and the settings of the streams it started.\<close>

definition rtsp_host_of :: "(gs_launch option \<times> stream_config list) rtsp_host" where
  "rtsp_host_of m st =
     (let (response, launch, started) = serve_rtsp m (fst st)
      in (Inr response, (launch, snd st @ (case started of None \<Rightarrow> [] | Some config \<Rightarrow> [config]))))"

lemma message_fields [simp]:
  "rm_command (client_message ip n command target) = command" "rm_target (client_message ip n command target) = target"
  "rm_command (rtsp_with name v m) = rm_command m" "rm_target (rtsp_with name v m) = rm_target m" "rm_status (rtsp_with name v m) = rm_status m"
  "rm_payload (rtsp_with name v m) = rm_payload m"
  "rm_status (rtsp_response status reason cseq) = status" "rm_command (if_modified m) = rm_command m" "rm_target (if_modified m) = rm_target m"
  by (simp_all add: client_message_def rtsp_with_def rtsp_request_def rtsp_response_def if_modified_def rtsp_default_def Let_def split: option.split)

lemma port_of_response:
  assumes "rtsp_option (lit ''Transport'') m = Some (lit ''server_port='' @ decimal port)" "port \<le> 65535"
  shows "port_of m fallback = port"
proof -
  have no: "115 \<notin> set (decimal port)"
    using decimal_line [of 115 port] by auto
  have "cut_at (lit ''server_port='') (lit ''server_port='' @ decimal port) = Some ([], decimal port)"
    by (rule cut_here) simp
  moreover have "cut_at (lit ''server_port='') (decimal port) = None"
    using no cut_skip [of "lit ''server_port=''" "decimal port" "[]"] by simp
  moreover have digits: "takeWhile is_ascii_digit (decimal port) = decimal port"
    using decimal_digits [of _ port] by (simp add: takeWhile_eq_all_conv)
  ultimately show ?thesis
    using assms(2) by (simp add: port_of_def assms(1) digits del: lit_Cons takeWhile_eq_all_conv)
qed

text \<open>The options of a host's answer to SETUP.\<close>

lemma setup_answer:
  assumes "setup_kind target = kind" "setup_port kind = Some port"
  shows "rtsp_option (lit ''Transport'') (serve_setup cseq target l) = Some (lit ''server_port='' @ decimal port)"
    "rtsp_option (lit ''Session'') (serve_setup cseq target l) = Some (lit ''DEADBEEFCAFE;timeout = 90'')"
    "rm_status (serve_setup cseq target l) = 200"
    "kind \<noteq> lit ''control'' \<Longrightarrow> rtsp_option (lit ''X-SS-Ping-Payload'') (serve_setup cseq target l) = Some (gl_ping_payload l)"
    "kind = lit ''control'' \<Longrightarrow> rtsp_option (lit ''X-SS-Connect-Data'') (serve_setup cseq target l) = Some (decimal (unat (gl_connect_data l)))"
  using assms
  by (auto simp: serve_setup_def Let_def rtsp_option_def rtsp_with_def rtsp_response_def rtsp_default_def eq_ignore_ascii_case_def
      ascii_lowercase_def ascii_lower_def split: option.split)

lemma find_later: "find P (xs @ ys) = (case find P xs of None \<Rightarrow> find P ys | Some x \<Rightarrow> Some x)"
  by (induction xs) auto

lemma host_answers:
  "rtsp_host_of (client_message ip n (lit ''OPTIONS'') target) (Some l, cs) = (Inr (rtsp_response 200 (lit ''OK'') (Some (decimal n))), (Some l, cs))"
  "rtsp_host_of (rtsp_with (lit ''Session'') session (client_message ip n (lit ''PLAY'') target)) (Some l, cs)
    = (Inr (rtsp_response 200 (lit ''OK'') (Some (decimal n))), (Some l, cs))"
  "rtsp_host_of (if_modified (rtsp_with (lit ''Accept'') accept (client_message ip n (lit ''DESCRIBE'') target))) (Some l, cs)
    = (Inr ((rtsp_response 200 (lit ''OK'') (Some (decimal n)))\<lparr>rm_payload := describe l\<rparr>), (Some l, cs))"
  "rtsp_host_of (setup_message ip n target session') (Some l, cs) = (Inr (serve_setup (Some (decimal n)) target l), (Some l, cs))"
proof -
  have cseq: "rtsp_option (lit ''CSeq'') (client_message ip n command target) = Some (decimal n)" for command target
    by (simp add: rtsp_option_def client_message_def rtsp_with_def rtsp_request_def rtsp_default_def eq_ignore_ascii_case_def)
  have more: "rtsp_option (lit ''CSeq'') m = Some c \<Longrightarrow> rtsp_option (lit ''CSeq'') (rtsp_with name v m) = Some c" for m c name v
    by (auto simp: rtsp_option_def rtsp_with_def find_later split: option.splits)
  show "rtsp_host_of (client_message ip n (lit ''OPTIONS'') target) (Some l, cs) = (Inr (rtsp_response 200 (lit ''OK'') (Some (decimal n))), (Some l, cs))"
    "rtsp_host_of (rtsp_with (lit ''Session'') session (client_message ip n (lit ''PLAY'') target)) (Some l, cs)
      = (Inr (rtsp_response 200 (lit ''OK'') (Some (decimal n))), (Some l, cs))"
    by (simp_all add: rtsp_host_of_def serve_rtsp_def Let_def cseq more del: lit_Cons)
  show "rtsp_host_of (if_modified (rtsp_with (lit ''Accept'') accept (client_message ip n (lit ''DESCRIBE'') target))) (Some l, cs)
      = (Inr ((rtsp_response 200 (lit ''OK'') (Some (decimal n)))\<lparr>rm_payload := describe l\<rparr>), (Some l, cs))"
    by (simp add: rtsp_host_of_def serve_rtsp_def Let_def cseq more if_modified_def del: lit_Cons) simp
  show "rtsp_host_of (setup_message ip n target session') (Some l, cs) = (Inr (serve_setup (Some (decimal n)) target l), (Some l, cs))"
    by (simp add: rtsp_host_of_def serve_rtsp_def Let_def setup_message_def cseq more if_modified_def del: lit_Cons split: option.split) simp
qed

lemma host_announced:
  assumes "stream_announce (as_bytes sdp) l = Some config" "sc_codec config = 0" "\<not> gl_streaming l"
  shows "rtsp_host_of (announce_message ip session sdp) (Some l, cs)
    = (Inr (rtsp_response 200 (lit ''OK'') (Some (decimal 6))), (Some (l\<lparr>gl_streaming := True\<rparr>), cs @ [config]))"
proof -
  have "rtsp_option (lit ''CSeq'') (announce_message ip session sdp) = Some (decimal 6)"
    by (simp add: announce_message_def rtsp_option_def client_message_def rtsp_with_def rtsp_request_def rtsp_default_def eq_ignore_ascii_case_def)
  moreover have "rm_command (announce_message ip session sdp) = lit ''ANNOUNCE''" "rm_payload (announce_message ip session sdp) = as_bytes sdp"
    by (simp_all add: announce_message_def del: lit_Cons)
  ultimately show ?thesis
    using assms by (simp add: rtsp_host_of_def serve_rtsp_def Let_def)
qed

text \<open>
  C14. A client and a host agree on the stream: with a launch that does not stream yet, every request of the client is
  answered with a 200; the client learns the host's three ports, the payload of the launch's pings and its connect data; and
  the host starts one stream, with the size, the rate, the bit rate and the packet size the client asked for, encrypted sound,
  and encrypted video exactly when one of the two wants it.
\<close>

theorem stream_is_agreed:
  assumes "\<not> gl_streaming l" "line_text family" "line_text ip" "length (gl_ping_payload l) = 16" "\<forall>c\<in>set (gl_ping_payload l). c < 128"
    and "sq_width r < 2 ^ 32" "sq_height r < 2 ^ 32" "sq_fps r < 2 ^ 32" "sq_bitrate_kbps r < 2 ^ 32" "sq_packet_size r < 2 ^ 32"
  shows "rtsp_start rtsp_host_of family ip port r (Some l, [])
    = (Inr \<lparr>ag_audio_port = AUDIO_PORT, ag_video_port = VIDEO_PORT, ag_control_port = CONTROL_PORT,
         ag_ping_payload = Some (as_bytes (gl_ping_payload l)), ag_connect_data = unat (gl_connect_data l)\<rparr>,
       (Some (l\<lparr>gl_streaming := True\<rparr>),
        [\<lparr>sc_width = sq_width r, sc_height = sq_height r, sc_fps = sq_fps r, sc_bitrate_kbps = sq_bitrate_kbps r,
          sc_packet_size = sq_packet_size r, sc_codec = 0, sc_audio_ms = 5, sc_audio_encrypted = True,
          sc_video_encrypted = (sq_encrypt_video r \<or> gl_video_encryption l)\<rparr>]))"
proof -
  let ?e = "agreed_encryption l (sq_encrypt_video r)"
  have kinds: "setup_kind (lit ''streamid=audio/0/0'') = lit ''audio''" "setup_kind (lit ''streamid=video/0/0'') = lit ''video''"
    "setup_kind (lit ''streamid=control/13/0'') = lit ''control''"
    by (simp_all add: setup_kind_def)
  have ports: "setup_port (lit ''audio'') = Some AUDIO_PORT" "setup_port (lit ''video'') = Some VIDEO_PORT" "setup_port (lit ''control'') = Some CONTROL_PORT"
    "AUDIO_PORT \<le> 65535" "VIDEO_PORT \<le> 65535" "CONTROL_PORT \<le> 65535"
    by (simp_all add: setup_port_def AUDIO_PORT_def VIDEO_PORT_def CONTROL_PORT_def)
  note audio = setup_answer [OF kinds(1) ports(1)] and video = setup_answer [OF kinds(2) ports(2)] and control = setup_answer [OF kinds(3) ports(3)]
  note read_port = port_of_response [OF audio(1) ports(4)] port_of_response [OF video(1) ports(5)] port_of_response [OF control(1) ports(6)]
  have ping: "rtsp_option (lit ''X-SS-Ping-Payload'') (serve_setup c (lit ''streamid=video/0/0'') l) = Some (gl_ping_payload l)" for c
    by (rule video(4)) simp
  have data: "rtsp_option (lit ''X-SS-Connect-Data'') (serve_setup c (lit ''streamid=control/13/0'') l) = Some (decimal (unat (gl_connect_data l)))" for c
    by (rule control(5)) simp
  have session: "session_of (serve_setup c (lit ''streamid=audio/0/0'') l) = Some (lit ''DEADBEEFCAFE'')" for c
    unfolding session_of_def audio(2) by (simp add: trim_def trim_matches_def is_whitespace_def)
  have len: "utf8_len (gl_ping_payload l) = 16"
    using assms(4,5) utf8_len_ascii [of "gl_ping_payload l"] by simp
  have small: "unat (gl_connect_data l) < 2 ^ 32"
    using unsigned_less [of "gl_connect_data l", where ?'a = nat] by simp
  have video_flag: "(?e AND SS_VIDEO_ENCRYPTION \<noteq> 0) = (sq_encrypt_video r \<or> gl_video_encryption l)"
    by (simp add: agreed_encryption_def SS_VIDEO_ENCRYPTION_def)
  note ann = announce_reads [OF assms(2,3,6-10), of ?e VIDEO_PORT l, unfolded video_flag]
  note started = host_announced [OF ann _ assms(1), simplified]
  show ?thesis
    using small
    by (simp add: rtsp_start_def accepted_def host_answers started audio(3) video(3) control(3) session read_port ping data len trim_decimal
        described_encryption Let_def del: lit_Cons)
qed

lemma stream_is_agreed_witness:
  "fst (rtsp_start rtsp_host_of (lit ''IPv4'') (lit ''10.0.0.1'') 48010 stream_request_default
      (Some (launch_new demo_fresh 2 [] 0 (1280, 720, 60) False), []))
    = Inr \<lparr>ag_audio_port = AUDIO_PORT, ag_video_port = VIDEO_PORT, ag_control_port = CONTROL_PORT,
         ag_ping_payload = Some (as_bytes (replicate 16 65)), ag_connect_data = 5\<rparr>"
proof -
  let ?l = "launch_new demo_fresh 2 [] 0 (1280, 720, 60) False"
  have l: "\<not> gl_streaming ?l" "gl_ping_payload ?l = replicate 16 65" "gl_connect_data ?l = 5"
    by (simp_all add: launch_new_def demo_fresh_def ALPHABET_def)
  have "rtsp_start rtsp_host_of (lit ''IPv4'') (lit ''10.0.0.1'') 48010 stream_request_default (Some ?l, []) =
    (Inr \<lparr>ag_audio_port = AUDIO_PORT, ag_video_port = VIDEO_PORT, ag_control_port = CONTROL_PORT,
         ag_ping_payload = Some (as_bytes (gl_ping_payload ?l)), ag_connect_data = unat (gl_connect_data ?l)\<rparr>,
       (Some (?l\<lparr>gl_streaming := True\<rparr>),
        [\<lparr>sc_width = sq_width stream_request_default, sc_height = sq_height stream_request_default, sc_fps = sq_fps stream_request_default,
          sc_bitrate_kbps = sq_bitrate_kbps stream_request_default, sc_packet_size = sq_packet_size stream_request_default, sc_codec = 0,
          sc_audio_ms = 5, sc_audio_encrypted = True,
          sc_video_encrypted = (sq_encrypt_video stream_request_default \<or> gl_video_encryption ?l)\<rparr>]))"
    by (rule stream_is_agreed) (simp_all add: l line_text_def scalar_def stream_request_default_def)
  then show ?thesis
    by (simp add: l del: lit_Cons)
qed

text \<open>The pings of a client that knows the launch's payload are taken by the host, whatever their number.\<close>

lemma launch_ping_payload:
  "length (gl_ping_payload (launch_new fresh app key key_id mode enc)) = length (fr_ping fresh)"
  "c \<in> set (gl_ping_payload (launch_new fresh app key key_id mode enc)) \<Longrightarrow> c < 128"
proof -
  show "length (gl_ping_payload (launch_new fresh app key key_id mode enc)) = length (fr_ping fresh)"
    by (simp add: launch_new_def)
  have "ALPHABET ! i < 128" if "i < length ALPHABET" for i
  proof -
    have "list_all (\<lambda>c. c < 128) ALPHABET"
      by (simp add: ALPHABET_def)
    then show ?thesis
      using that by (simp add: list_all_length)
  qed
  moreover have "0 < length ALPHABET"
    by (simp add: ALPHABET_def)
  ultimately show "c \<in> set (gl_ping_payload (launch_new fresh app key key_id mode enc)) \<Longrightarrow> c < 128"
    by (auto simp: launch_new_def)
qed

lemma pings_are_taken:
  assumes "length (gl_ping_payload l) = 16" "\<forall>c\<in>set (gl_ping_payload l). c < 128"
  shows "takes_ping l (Some ip) ip (client_ping (Some (as_bytes (gl_ping_payload l))) count)"
proof -
  have "length (as_bytes (gl_ping_payload l)) = 16"
    using assms utf8_len_ascii [of "gl_ping_payload l"] by (simp add: length_as_bytes)
  then show ?thesis
    by (simp add: takes_ping_def client_ping_def)
qed

section \<open>One request can stop all pairing\<close>

text \<open>
  A request for a pairing whose PIN was typed, with a value that is not plain text, makes the host panic with its
  pairings locked: from then on every request for one panics, and so does every typed PIN.
\<close>

definition demo_poison :: gs_query where
  "demo_poison = [(lit ''uniqueid'', lit ''0a''), (lit ''clientchallenge'', lit ''a'' @ [233] @ lit ''b'')]"

lemma pairing_can_be_poisoned: "sv_poisoned (snd (serve_request demo_crypto demo_fresh 0 [] [] None (lit ''/pair'') demo_poison demo_waiting))"
proof -
  have "hex_arg demo_poison (lit ''clientchallenge'') = None"
    using decode_hex_panics by (simp add: hex_arg_def demo_poison_def)
  then have "pairing_step demo_crypto cr fresh demo_poison hp = None" if "hp_key hp \<noteq> None" for cr fresh hp
    using that by (auto simp: pairing_step_def simp del: lit_Cons)
  then show ?thesis
    by (simp add: serve_request_def serve_pair_def demo_poison_def Let_def pair_continue_def demo_waiting_def demo_server_def)
qed

lemma poisoned_forever:
  assumes "sv_poisoned s"
  shows "sv_poisoned (fst (gs_step c e (s, n)))" "fst (pair_continue c fresh uid query s) = Panicked" "fst (enter_pin c order pin name s) = None"
proof -
  have continue: "pair_continue c fresh uid query s = (Panicked, s)" for fresh uid query
    by (simp add: pair_continue_def assms)
  have start: "sv_poisoned (snd (pair_getservercert c n frm uid query s))" for frm uid query
    using assms by (auto simp: pair_getservercert_def split: option.split sum.split)
  have launch: "sv_poisoned (snd (serve_launch fresh resume query ip s))" for fresh resume query ip
    using assms by (auto simp: serve_launch_def split: option.split sum.split)
  have request: "sv_poisoned (snd (serve_request c fresh n frm ip peer path query s))" for fresh frm ip peer path query
    using continue start launch assms
    by (simp add: serve_request_def serve_pair_def Let_def split: option.split del: lit_Cons)
  show "sv_poisoned (fst (gs_step c e (s, n)))"
  proof (cases e)
    case (Hold_ends conn)
    then show ?thesis
      using assms by (simp add: hold_ends_def Let_def split: option.split)
  qed (use request assms in \<open>simp_all add: enter_pin_def\<close>)
  show "fst (pair_continue c fresh uid query s) = Panicked" "fst (enter_pin c order pin name s) = None"
    by (simp_all add: continue enter_pin_def assms)
qed

end
