(* ===== verification/Utf16.thy ===== *)
theory Utf16
  imports Utf8
begin

text \<open>
  UTF-16 as the sources meet it: units are naturals below 65536, and the reading replaces what is not a
  character.
\<close>

text \<open>\<open>encode_utf16\<close> and \<open>from_utf16_lossy\<close> of the standard library.\<close>

definition utf16_char :: "nat \<Rightarrow> nat list" where
  "utf16_char c = (if c < 65536 then [c] else [55296 + (c - 65536) div 1024, 56320 + (c - 65536) mod 1024])"

definition encode_utf16 :: "rstr \<Rightarrow> nat list" where
  "encode_utf16 s = concat (map utf16_char s)"

definition high_surrogate :: "nat \<Rightarrow> bool" where
  "high_surrogate u = (55296 \<le> u \<and> u < 56320)"

definition low_surrogate :: "nat \<Rightarrow> bool" where
  "low_surrogate u = (56320 \<le> u \<and> u < 57344)"

fun from_utf16_lossy :: "nat list \<Rightarrow> rstr" where
  "from_utf16_lossy [] = []"
| "from_utf16_lossy [u] = [if high_surrogate u \<or> low_surrogate u then 65533 else u]"
| "from_utf16_lossy (u # v # us) =
     (if high_surrogate u
      then if low_surrogate v then (65536 + (u - 55296) * 1024 + (v - 56320)) # from_utf16_lossy us
           else 65533 # from_utf16_lossy (v # us)
      else (if low_surrogate u then 65533 else u) # from_utf16_lossy (v # us))"

lemma from_utf16_cons: "scalar c \<Longrightarrow> from_utf16_lossy (utf16_char c @ us) = c # from_utf16_lossy us"
proof (cases "c < 65536")
  case True
  assume "scalar c"
  then show ?thesis
    using True by (cases us) (auto simp: scalar_def utf16_char_def high_surrogate_def low_surrogate_def)
next
  case False
  assume c: "scalar c"
  then have "high_surrogate (55296 + (c - 65536) div 1024)" "low_surrogate (56320 + (c - 65536) mod 1024)"
    using False by (auto simp: scalar_def high_surrogate_def low_surrogate_def)
  moreover have "65536 + (c - 65536) div 1024 * 1024 + (c - 65536) mod 1024 = c"
    using False div_mult_mod_eq [of "c - 65536" 1024] by linarith
  ultimately show ?thesis
    using False by (simp add: utf16_char_def)
qed

lemma from_utf16_encode: "list_all scalar s \<Longrightarrow> from_utf16_lossy (encode_utf16 s) = s"
  by (induction s) (auto simp: encode_utf16_def from_utf16_cons)

end
