(* ===== verification/Sorted_Map.thy ===== *)
theory Sorted_Map
  imports Prelude
begin

text \<open>
  The \<open>BTreeMap\<close> of the sources as an association list in the order of its keys: inserting,
  and the shape of a map that was filled from a list of places in any order.
\<close>

fun bt_insert :: "'k::linorder \<Rightarrow> 'v \<Rightarrow> ('k \<times> 'v) list \<Rightarrow> ('k \<times> 'v) list" where
  "bt_insert k v [] = [(k, v)]"
| "bt_insert k v ((k', v') # m) =
     (if k < k' then (k, v) # (k', v') # m
      else if k = k' then (k, v) # m
      else (k', v') # bt_insert k v m)"

lemma map_of_bt_insert: "map_of (bt_insert k v m) = (map_of m)(k \<mapsto> v)"
  by (induction m) auto

lemma bt_insert_front: "(\<And>e. e \<in> set m \<Longrightarrow> k < fst e) \<Longrightarrow> bt_insert k v m = (k, v) # m"
  by (cases m; cases "hd m") force+

lemma set_bt_insert: "e \<in> set (bt_insert k v m) \<Longrightarrow> e = (k, v) \<or> e \<in> set m"
  by (induction k v m rule: bt_insert.induct) (auto split: if_splits)

lemma bt_insert_sorted: "sorted_wrt (<) (map fst m) \<Longrightarrow> sorted_wrt (<) (map fst (bt_insert k v m))"
  by (induction k v m rule: bt_insert.induct) (auto dest!: set_bt_insert)

text \<open>The part of a table whose places satisfy \<open>P\<close>, keyed by \<open>g\<close>.\<close>

definition table :: "('a \<Rightarrow> 'k) \<Rightarrow> ('a \<Rightarrow> 'v) \<Rightarrow> ('a \<Rightarrow> bool) \<Rightarrow> 'a list \<Rightarrow> ('k \<times> 'v) list" where
  "table g f P ks = map (\<lambda>y. (g y, f y)) (filter P ks)"

lemma bt_insert_table:
  fixes g :: "'a \<Rightarrow> 'k::linorder"
  assumes "sorted_wrt (\<lambda>a b. g a < g b) ks" "x \<in> set ks"
  shows "bt_insert (g x) v (table g f P ks) = table g (f(x := v)) (\<lambda>y. P y \<or> y = x) ks"
  using assms
proof (induction ks)
  case (Cons y ks)
  show ?case
  proof (cases "x = y")
    case True
    then have "x \<notin> set ks"
      using Cons.prems(1) by auto
    then have rest: "table g (f(x := v)) (\<lambda>y. P y \<or> y = x) ks = table g f P ks"
      by (auto simp: table_def intro!: map_cong filter_cong)
    have "bt_insert (g x) v (table g f P ks) = (g x, v) # table g f P ks"
      using Cons.prems(1) True by (intro bt_insert_front) (auto simp: table_def)
    then show ?thesis
      using rest True by (auto simp: table_def)
  next
    case False
    then have "g y < g x" and "x \<in> set ks"
      using Cons.prems by auto
    then show ?thesis
      using Cons.IH Cons.prems(1) False by (auto simp: table_def)
  qed
qed simp

lemma map_of_table:
  assumes "inj_on g (set ks)" "x \<in> set ks"
  shows "map_of (table g f P ks) (g x) = (if P x then Some (f x) else None)"
  using assms
proof (induction ks)
  case (Cons y ks)
  show ?case
  proof (cases "x = y")
    case True
    have "g x \<notin> g ` set ks" if "y \<notin> set ks"
      using Cons.prems(1) that True by (auto simp: inj_on_def)
    then show ?thesis
      using Cons True by (cases "y \<in> set ks") (auto simp: table_def inj_on_def map_of_eq_None_iff)
  next
    case False
    then have "x \<in> set ks" "g y \<noteq> g x"
      using Cons.prems by (auto simp: inj_on_def)
    then show ?thesis
      using Cons by (auto simp: table_def inj_on_def)
  qed
qed simp

lemma ascending_inj: "sorted_wrt (\<lambda>a b. g a < (g b :: 'k::linorder)) ks \<Longrightarrow> inj_on g (set ks)"
proof (induction ks)
  case (Cons y ks)
  then have "g y \<notin> g ` (set ks - {y})"
    by auto
  with Cons show ?case
    by (simp add: inj_on_insert)
qed simp

lemma ascending_of_nat:
  "n \<le> 2 ^ LENGTH('w::len) \<Longrightarrow> sorted_wrt (\<lambda>a b. (of_nat a :: 'w word) < of_nat b) [0..<n]"
  by (rule sorted_wrt_mono_rel [OF _ sorted_wrt_upt])
    (auto simp: word_less_nat_alt unat_of_nat take_bit_eq_mod)

end
