(* ===== verification/Rdp_RemoteApp.thy ===== *)
theory Rdp_RemoteApp
  imports Protocol Utf16 Sorted_Map "HOL-Library.Monad_Syntax"
begin

unbundle bit_operations_syntax

text \<open>
  RemoteApp on the client (\<open>rdp/src/remoteapp.rs\<close>): what the \<open>rail\<close> channel answers, the reading of
  the server's window orders, and the list of windows that they describe. An \<open>i32\<close> is its bits.
\<close>

section \<open>The rail channel\<close>

record remote_app =
  ra_program :: rstr
  ra_arguments :: rstr
  ra_working_dir :: rstr

definition RAIL_EXEC :: u16 where "RAIL_EXEC = 0x0001"
definition RAIL_SYSPARAM :: u16 where "RAIL_SYSPARAM = 0x0003"
definition RAIL_HANDSHAKE :: u16 where "RAIL_HANDSHAKE = 0x0005"
definition RAIL_CLIENTSTATUS :: u16 where "RAIL_CLIENTSTATUS = 0x000b"
definition RAIL_EXEC_RESULT :: u16 where "RAIL_EXEC_RESULT = 0x0080"
definition RAIL_HANDSHAKE_EX :: u16 where "RAIL_HANDSHAKE_EX = 0x0013"

definition rail_pdu :: "u16 \<Rightarrow> bytes \<Rightarrow> bytes" where
  "rail_pdu order body = le_bytes 2 order @ le_bytes 2 (of_nat (4 + length body) :: u16) @ body"

definition utf16_le :: "rstr \<Rightarrow> bytes" where
  "utf16_le txt = concat (map (\<lambda>u. le_bytes 2 (of_nat u :: u16)) (encode_utf16 txt))"

record rail_status =
  rs_started :: bool
  rs_exec_result :: "u16 option"
  rs_outgoing :: "bytes list"

definition rail_rect :: "u16 \<times> u16 \<Rightarrow> u32 \<Rightarrow> bytes" where
  "rail_rect desktop param =
     rail_pdu RAIL_SYSPARAM (le_bytes 4 param @ concat (map (le_bytes 2) [0, 0, fst desktop, snd desktop]))"

definition rail_flag :: "u32 \<Rightarrow> u8 \<Rightarrow> bytes" where
  "rail_flag param on = rail_pdu RAIL_SYSPARAM (le_bytes 4 param @ [on])"

definition exec_body :: "remote_app \<Rightarrow> bytes" where
  "exec_body app =
     (let exe = utf16_le (ra_program app); dir = utf16_le (ra_working_dir app); args = utf16_le (ra_arguments app)
      in le_bytes 2 (0 :: u16) @ le_bytes 2 (of_nat (length exe) :: u16) @ le_bytes 2 (of_nat (length dir) :: u16)
         @ le_bytes 2 (of_nat (length args) :: u16) @ exe @ dir @ args)"

definition start_messages :: "remote_app \<Rightarrow> u16 \<times> u16 \<Rightarrow> bytes list" where
  "start_messages app desktop =
     [rail_pdu RAIL_HANDSHAKE (le_bytes 4 (7601 :: u32)), rail_pdu RAIL_CLIENTSTATUS (le_bytes 4 (0 :: u32)),
      rail_pdu RAIL_SYSPARAM (le_bytes 4 (0x0043 :: u32) @ le_bytes 4 (0x7E :: u32) @ le_bytes 4 (2 :: u32) @ le_bytes 2 (0 :: u16)),
      rail_flag 0x0021 0, rail_flag 0x0045 0, rail_flag 0x0025 0, rail_flag 0x100B 0, rail_rect desktop 0x002F,
      rail_pdu RAIL_EXEC (exec_body app)]"

definition rail_process :: "remote_app \<Rightarrow> u16 \<times> u16 \<Rightarrow> rail_status \<Rightarrow> bytes \<Rightarrow> rail_status" where
  "rail_process app desktop st payload =
     (if length payload < 4 then st
      else let order = of_le [payload ! 0, payload ! 1]
        in if order = RAIL_HANDSHAKE \<or> order = RAIL_HANDSHAKE_EX then
             if rs_started st then st
             else st\<lparr>rs_started := True, rs_outgoing := rs_outgoing st @ start_messages app desktop\<rparr>
           else if order = RAIL_EXEC_RESULT \<and> 12 \<le> length payload
           then st\<lparr>rs_exec_result := Some (of_le [payload ! 6, payload ! 7])\<rparr>
           else st)"

section \<open>Window orders\<close>

record remote_window =
  rw_id :: u32
  rw_owner :: u32
  rw_title :: rstr
  rw_style :: u32
  rw_ex_style :: u32
  rw_show :: u8
  rw_offset :: "u32 \<times> u32"
  rw_size :: "u32 \<times> u32"

definition remote_window_default :: remote_window where
  "remote_window_default =
     \<lparr>rw_id = 0, rw_owner = 0, rw_title = [], rw_style = 0, rw_ex_style = 0, rw_show = 0, rw_offset = (0, 0), rw_size = (0, 0)\<rparr>"

datatype window_change =
    WindowChange bool u32 remote_window
  | WindowDeleted u32
  | DesktopOrder u32 "u32 option"

definition ORDER_TYPE_WINDOW :: u32 where "ORDER_TYPE_WINDOW = 0x01000000"
definition ORDER_TYPE_DESKTOP :: u32 where "ORDER_TYPE_DESKTOP = 0x04000000"
definition DESKTOP_ACTIVE_WND :: u32 where "DESKTOP_ACTIVE_WND = 0x00000020"
definition WS_CAPTION :: u32 where "WS_CAPTION = 0x00C00000"
definition WS_EX_TOOLWINDOW :: u32 where "WS_EX_TOOLWINDOW = 0x00000080"
definition STATE_NEW :: u32 where "STATE_NEW = 0x10000000"
definition STATE_DELETED :: u32 where "STATE_DELETED = 0x20000000"
definition FIELD_APPBAR_EDGE :: u32 where "FIELD_APPBAR_EDGE = 0x00000001"
definition FIELD_OWNER :: u32 where "FIELD_OWNER = 0x00000002"
definition FIELD_TITLE :: u32 where "FIELD_TITLE = 0x00000004"
definition FIELD_STYLE :: u32 where "FIELD_STYLE = 0x00000008"
definition FIELD_SHOW :: u32 where "FIELD_SHOW = 0x00000010"
definition FIELD_APPBAR_STATE :: u32 where "FIELD_APPBAR_STATE = 0x00000040"
definition FIELD_RESIZE_MARGIN_X :: u32 where "FIELD_RESIZE_MARGIN_X = 0x00000080"
definition FIELD_WNDRECTS :: u32 where "FIELD_WNDRECTS = 0x00000100"
definition FIELD_VISIBILITY :: u32 where "FIELD_VISIBILITY = 0x00000200"
definition FIELD_WNDSIZE :: u32 where "FIELD_WNDSIZE = 0x00000400"
definition FIELD_WNDOFFSET :: u32 where "FIELD_WNDOFFSET = 0x00000800"
definition FIELD_VISOFFSET :: u32 where "FIELD_VISOFFSET = 0x00001000"
definition FIELD_CLIENTAREAOFFSET :: u32 where "FIELD_CLIENTAREAOFFSET = 0x00004000"
definition FIELD_CLIENTDELTA :: u32 where "FIELD_CLIENTDELTA = 0x00008000"
definition FIELD_CLIENTAREASIZE :: u32 where "FIELD_CLIENTAREASIZE = 0x00010000"
definition FIELD_RPCONTENT :: u32 where "FIELD_RPCONTENT = 0x00020000"
definition FIELD_ROOTPARENT :: u32 where "FIELD_ROOTPARENT = 0x00040000"
definition FIELD_ENFORCE_SERVER_ZORDER :: u32 where "FIELD_ENFORCE_SERVER_ZORDER = 0x00080000"
definition FIELD_OVERLAY_DESCRIPTION :: u32 where "FIELD_OVERLAY_DESCRIPTION = 0x00400000"
definition FIELD_TASKBAR_BUTTON :: u32 where "FIELD_TASKBAR_BUTTON = 0x00800000"
definition FIELD_RESIZE_MARGIN_Y :: u32 where "FIELD_RESIZE_MARGIN_Y = 0x08000000"
definition ORDER_ICON :: u32 where "ORDER_ICON = 0x40000000"
definition ORDER_CACHED_ICON :: u32 where "ORDER_CACHED_ICON = 0x80000000"

text \<open>The reader: its data and the place in it.\<close>

type_synonym reader = "bytes \<times> nat"

definition rd_take :: "nat \<Rightarrow> reader \<Rightarrow> (bytes \<times> reader) option" where
  "rd_take n = (\<lambda>(data, i). if i + n \<le> length data then Some (subslice data i (i + n), (data, i + n)) else None)"

definition rd_u8 :: "reader \<Rightarrow> (u8 \<times> reader) option" where
  "rd_u8 r = do { (b, r) \<leftarrow> rd_take 1 r; Some (b ! 0, r) }"

definition rd_u16 :: "reader \<Rightarrow> (u16 \<times> reader) option" where
  "rd_u16 r = do { (b, r) \<leftarrow> rd_take 2 r; Some (of_le b, r) }"

definition rd_u32 :: "reader \<Rightarrow> (u32 \<times> reader) option" where
  "rd_u32 r = do { (b, r) \<leftarrow> rd_take 4 r; Some (of_le b, r) }"

definition rd_pair :: "reader \<Rightarrow> ((u32 \<times> u32) \<times> reader) option" where
  "rd_pair r = do { (a, r) \<leftarrow> rd_u32 r; (b, r) \<leftarrow> rd_u32 r; Some ((a, b), r) }"

fun units_of :: "bytes \<Rightarrow> nat list" where
  "units_of (a # b # bs) = unat (of_le [a, b] :: u16) # units_of bs"
| "units_of _ = []"

definition rd_unicode :: "reader \<Rightarrow> (rstr \<times> reader) option" where
  "rd_unicode r = do { (len, r) \<leftarrow> rd_u16 r; (b, r) \<leftarrow> rd_take (unat len) r; Some (from_utf16_lossy (units_of b), r) }"

definition has :: "u32 \<Rightarrow> u32 \<Rightarrow> bool" where
  "has fl f = (fl AND f \<noteq> 0)"

text \<open>A field that is read only when its flag is set, and one that is stepped over.\<close>

definition when_set :: "u32 \<Rightarrow> u32 \<Rightarrow> (reader \<Rightarrow> ('a \<times> reader) option) \<Rightarrow> 'a \<Rightarrow> reader \<Rightarrow> ('a \<times> reader) option" where
  "when_set fl f rd d r = (if has fl f then rd r else Some (d, r))"

definition skip_set :: "u32 \<Rightarrow> u32 \<Rightarrow> (reader \<Rightarrow> ('a \<times> reader) option) \<Rightarrow> reader \<Rightarrow> reader option" where
  "skip_set fl f rd r = (if has fl f then map_option snd (rd r) else Some r)"

text \<open>A count and as many rectangles.\<close>

definition rd_rects :: "reader \<Rightarrow> (bytes \<times> reader) option" where
  "rd_rects r = do { (n, r) \<leftarrow> rd_u16 r; rd_take (unat n * 8) r }"

definition window_fields :: "u32 \<Rightarrow> u32 \<Rightarrow> reader \<Rightarrow> remote_window option" where
  "window_fields fl ident r = do {
     (owner, r) \<leftarrow> when_set fl FIELD_OWNER rd_u32 0 r;
     ((style, ex_style), r) \<leftarrow> when_set fl FIELD_STYLE rd_pair (0, 0) r;
     (show, r) \<leftarrow> when_set fl FIELD_SHOW rd_u8 0 r;
     (title, r) \<leftarrow> when_set fl FIELD_TITLE rd_unicode [] r;
     r \<leftarrow> skip_set fl FIELD_CLIENTAREAOFFSET (rd_take 8) r;
     r \<leftarrow> skip_set fl FIELD_CLIENTAREASIZE (rd_take 8) r;
     r \<leftarrow> skip_set fl FIELD_RESIZE_MARGIN_X (rd_take 8) r;
     r \<leftarrow> skip_set fl FIELD_RESIZE_MARGIN_Y (rd_take 8) r;
     r \<leftarrow> skip_set fl FIELD_RPCONTENT (rd_take 1) r;
     r \<leftarrow> skip_set fl FIELD_ROOTPARENT (rd_take 4) r;
     (offset, r) \<leftarrow> when_set fl FIELD_WNDOFFSET rd_pair (0, 0) r;
     r \<leftarrow> skip_set fl FIELD_CLIENTDELTA (rd_take 8) r;
     (sz, r) \<leftarrow> when_set fl FIELD_WNDSIZE rd_pair (0, 0) r;
     r \<leftarrow> skip_set fl FIELD_WNDRECTS rd_rects r;
     r \<leftarrow> skip_set fl FIELD_VISOFFSET (rd_take 8) r;
     r \<leftarrow> skip_set fl FIELD_VISIBILITY rd_rects r;
     r \<leftarrow> skip_set fl FIELD_OVERLAY_DESCRIPTION rd_unicode r;
     r \<leftarrow> skip_set fl FIELD_TASKBAR_BUTTON (rd_take 1) r;
     r \<leftarrow> skip_set fl FIELD_ENFORCE_SERVER_ZORDER (rd_take 1) r;
     r \<leftarrow> skip_set fl FIELD_APPBAR_STATE (rd_take 1) r;
     r \<leftarrow> skip_set fl FIELD_APPBAR_EDGE (rd_take 1) r;
     Some \<lparr>rw_id = ident, rw_owner = owner, rw_title = title, rw_style = style, rw_ex_style = ex_style, rw_show = show,
       rw_offset = offset, rw_size = sz\<rparr>
   }"

definition window_order :: "reader \<Rightarrow> window_change option" where
  "window_order r = do {
     (fl, r) \<leftarrow> rd_u32 r;
     if has fl ORDER_TYPE_DESKTOP
     then Some (DesktopOrder fl (if has fl DESKTOP_ACTIVE_WND then map_option fst (rd_u32 r) else None))
     else if \<not> has fl ORDER_TYPE_WINDOW then None
     else do {
       (ident, r) \<leftarrow> rd_u32 r;
       if has fl STATE_DELETED then Some (WindowDeleted ident)
       else if has fl (ORDER_ICON OR ORDER_CACHED_ICON) then None
       else map_option (WindowChange (has fl STATE_NEW) fl) (window_fields fl ident r)
     }
   }"

fun orders_loop :: "nat \<Rightarrow> reader \<Rightarrow> window_change list" where
  "orders_loop 0 r = []"
| "orders_loop (Suc n) r =
     (let start = snd r
      in case rd_u8 r of
          None \<Rightarrow> []
        | Some (control, r) \<Rightarrow>
            if control AND 0x03 \<noteq> 0x02 \<or> drop_bit 2 control \<noteq> 0x0B then []
            else case rd_u16 r of
                None \<Rightarrow> []
              | Some (sz, r) \<Rightarrow>
                  (let end_at = start + unat sz
                   in (case window_order r of None \<Rightarrow> [] | Some order \<Rightarrow> [order])
                      @ (if length (fst r) < end_at then [] else orders_loop n (fst r, end_at))))"

text \<open>A slow-path Orders update, from the user data of its frame.\<close>

definition slow_path_window_orders :: "bytes \<Rightarrow> window_change list option" where
  "slow_path_window_orders data = do {
     (_, r) \<leftarrow> rd_u16 (data, 0);
     (kind, r) \<leftarrow> rd_u16 r;
     if kind AND 0x0f \<noteq> 0x07 then None
     else do {
       (_, r) \<leftarrow> rd_u16 r;
       (_, r) \<leftarrow> rd_take 8 r;
       (pdu_type, r) \<leftarrow> rd_u8 r;
       (compression, r) \<leftarrow> rd_u8 r;
       (_, r) \<leftarrow> rd_u16 r;
       if pdu_type \<noteq> 0x02 \<or> compression AND 0x20 \<noteq> 0 then None
       else do {
         (update, r) \<leftarrow> rd_u16 r;
         if update \<noteq> 0 then None
         else do {
           (_, r) \<leftarrow> rd_u16 r;
           (count, r) \<leftarrow> rd_u16 r;
           (_, r) \<leftarrow> rd_u16 r;
           Some (orders_loop (unat count) r)
         }
       }
     }
   }"

text \<open>
  The updates of a fast-path frame as the RDP library decodes them: whether one is an Orders update,
  whether it is whole, whether it is compressed, and its data.
\<close>

definition fast_path_window_orders :: "(bool \<times> bool \<times> bool \<times> bytes) list \<Rightarrow> window_change list" where
  "fast_path_window_orders updates =
     concat (map (\<lambda>(orders, single, compressed, data).
       if \<not> orders \<or> \<not> single \<or> compressed then []
       else (case rd_u16 (data, 0) of None \<Rightarrow> [] | Some (count, r) \<Rightarrow> orders_loop (unat count) r)) updates)"

section \<open>The list of windows\<close>

record windows_table =
  wt_windows :: "u32 \<rightharpoonup> remote_window"
  wt_order :: "u32 list"
  wt_active :: "u32 option"

definition windows_default :: windows_table where
  "windows_default = \<lparr>wt_windows = Map.empty, wt_order = [], wt_active = None\<rparr>"

definition merge_window :: "u32 \<Rightarrow> remote_window \<Rightarrow> remote_window \<Rightarrow> remote_window" where
  "merge_window fl w entry =
     (let entry = (if has fl FIELD_OWNER then entry\<lparr>rw_owner := rw_owner w\<rparr> else entry);
          entry = (if has fl FIELD_STYLE then entry\<lparr>rw_style := rw_style w, rw_ex_style := rw_ex_style w\<rparr> else entry);
          entry = (if has fl FIELD_SHOW then entry\<lparr>rw_show := rw_show w\<rparr> else entry);
          entry = (if has fl FIELD_TITLE then entry\<lparr>rw_title := rw_title w\<rparr> else entry);
          entry = (if has fl FIELD_WNDOFFSET then entry\<lparr>rw_offset := rw_offset w\<rparr> else entry)
      in if has fl FIELD_WNDSIZE then entry\<lparr>rw_size := rw_size w\<rparr> else entry)"

fun windows_apply :: "windows_table \<Rightarrow> window_change \<Rightarrow> windows_table" where
  "windows_apply t (DesktopOrder _ active) = (if active \<noteq> None then t\<lparr>wt_active := active\<rparr> else t)"
| "windows_apply t (WindowDeleted ident) =
     t\<lparr>wt_windows := (wt_windows t)(ident := None), wt_order := filter (\<lambda>w. w \<noteq> ident) (wt_order t)\<rparr>"
| "windows_apply t (WindowChange _ fl w) =
     (let (entry, order) = (case wt_windows t (rw_id w) of
            Some entry \<Rightarrow> (entry, wt_order t)
          | None \<Rightarrow> (remote_window_default\<lparr>rw_id := rw_id w\<rparr>, wt_order t @ [rw_id w]))
      in t\<lparr>wt_windows := (wt_windows t)(rw_id w \<mapsto> merge_window fl w entry), wt_order := order\<rparr>)"

record rect =
  rc_x :: u32
  rc_y :: u32
  rc_width :: u32
  rc_height :: u32

record listed_window =
  lw_id :: u32
  lw_title :: rstr
  lw_rect :: rect
  lw_owner :: "u32 option"
  lw_kind :: window_kind

definition rect_of :: "remote_window \<Rightarrow> rect" where
  "rect_of w = \<lparr>rc_x = fst (rw_offset w), rc_y = snd (rw_offset w), rc_width = fst (rw_size w), rc_height = snd (rw_size w)\<rparr>"

definition shown :: "remote_window \<Rightarrow> bool" where
  "shown w = (rw_show w \<noteq> 0 \<and> 0 < fst (rw_size w) \<and> 0 < snd (rw_size w))"

definition list_window :: "windows_table \<Rightarrow> remote_window \<Rightarrow> listed_window" where
  "list_window t w =
     (let popup = (rw_title w = [] \<and> rw_ex_style w AND WS_EX_TOOLWINDOW \<noteq> 0);
          owner = (if wt_windows t (rw_owner w) \<noteq> None then Some (rw_owner w)
                   else if popup then (case wt_active t of
                       Some a \<Rightarrow> if a \<noteq> rw_id w \<and> wt_windows t a \<noteq> None then Some a else None
                     | None \<Rightarrow> None)
                   else None);
          kind = (case owner of None \<Rightarrow> NormalWindow
                  | Some _ \<Rightarrow> if \<not> popup \<and> rw_style w AND WS_CAPTION = WS_CAPTION then DialogWindow else PopupWindow)
      in \<lparr>lw_id = rw_id w, lw_title = rw_title w, lw_rect = rect_of w, lw_owner = owner, lw_kind = kind\<rparr>)"

definition windows_listed :: "windows_table \<Rightarrow> listed_window list" where
  "windows_listed t =
     map (list_window t) (filter shown (concat (map (\<lambda>i. case wt_windows t i of None \<Rightarrow> [] | Some w \<Rightarrow> [w]) (wt_order t))))"

section \<open>The table holds what the orders last said\<close>

text \<open>The changes of a window since it was last deleted, the latest first.\<close>

definition changes_of :: "u32 \<Rightarrow> window_change list \<Rightarrow> (u32 \<times> remote_window) list" where
  "changes_of i orders =
     concat (map (\<lambda>order. case order of WindowChange _ fl w \<Rightarrow> if rw_id w = i then [(fl, w)] else [] | _ \<Rightarrow> [])
       (takeWhile (\<lambda>order. order \<noteq> WindowDeleted i) (rev orders)))"

definition last_said :: "u32 \<Rightarrow> (remote_window \<Rightarrow> 'a) \<Rightarrow> 'a \<Rightarrow> (u32 \<times> remote_window) list \<Rightarrow> 'a" where
  "last_said f get d changes = (case List.find (\<lambda>(fl, _). has fl f) changes of None \<Rightarrow> d | Some (_, w) \<Rightarrow> get w)"

definition described :: "u32 \<Rightarrow> (u32 \<times> remote_window) list \<Rightarrow> remote_window option" where
  "described i changes =
     (if changes = [] then None
      else Some \<lparr>rw_id = i, rw_owner = last_said FIELD_OWNER rw_owner 0 changes, rw_title = last_said FIELD_TITLE rw_title [] changes,
        rw_style = last_said FIELD_STYLE rw_style 0 changes, rw_ex_style = last_said FIELD_STYLE rw_ex_style 0 changes,
        rw_show = last_said FIELD_SHOW rw_show 0 changes, rw_offset = last_said FIELD_WNDOFFSET rw_offset (0, 0) changes,
        rw_size = last_said FIELD_WNDSIZE rw_size (0, 0) changes\<rparr>)"

definition windows_after :: "window_change list \<Rightarrow> windows_table" where
  "windows_after orders = foldl windows_apply windows_default orders"

lemma windows_after_snoc: "windows_after (orders @ [order]) = windows_apply (windows_after orders) order"
  by (simp add: windows_after_def)

lemma changes_of_snoc:
  "changes_of i (orders @ [order]) =
     (case order of
        WindowDeleted j \<Rightarrow> if j = i then [] else changes_of i orders
      | WindowChange _ fl w \<Rightarrow> if rw_id w = i then (fl, w) # changes_of i orders else changes_of i orders
      | DesktopOrder _ _ \<Rightarrow> changes_of i orders)"
  by (simp add: changes_of_def split: window_change.split)

lemma last_said_Cons: "last_said f get d ((fl, w) # cs) = (if has fl f then get w else last_said f get d cs)"
  by (simp add: last_said_def)

lemma described_Cons:
  "described i ((fl, w) # cs) =
     Some (merge_window fl w (case described i cs of None \<Rightarrow> remote_window_default\<lparr>rw_id := i\<rparr> | Some e \<Rightarrow> e))"
  by (simp add: described_def merge_window_def last_said_Cons Let_def)
    (simp add: last_said_def remote_window_default_def)

lemma table_described: "wt_windows (windows_after orders) i = described i (changes_of i orders)"
proof (induction orders arbitrary: i rule: rev_induct)
  case Nil
  then show ?case
    by (simp add: windows_after_def windows_default_def described_def changes_of_def)
next
  case (snoc order orders)
  show ?case
  proof (cases order)
    case (WindowChange new fl w)
    then show ?thesis
      using snoc [of "rw_id w"] snoc [of i]
      by (simp add: windows_after_snoc changes_of_snoc described_Cons split_beta Let_def split: option.split)
  next
    case (WindowDeleted j)
    then show ?thesis
      using snoc by (simp add: windows_after_snoc changes_of_snoc described_def)
  next
    case (DesktopOrder fl a)
    then show ?thesis
      using snoc by (simp add: windows_after_snoc changes_of_snoc)
  qed
qed

definition table_ok :: "windows_table \<Rightarrow> bool" where
  "table_ok t = (distinct (wt_order t) \<and> set (wt_order t) = dom (wt_windows t)
     \<and> (\<forall>i w. wt_windows t i = Some w \<longrightarrow> rw_id w = i))"

lemma merge_window_id [simp]: "rw_id (merge_window fl w e) = rw_id e"
  by (simp add: merge_window_def Let_def)

lemma windows_apply_ok: "table_ok t \<Longrightarrow> table_ok (windows_apply t order)"
  by (cases order) (auto simp: table_ok_def Let_def split_beta split: option.splits if_splits)

lemma windows_after_ok: "table_ok (windows_after orders)"
proof (induction orders rule: rev_induct)
  case Nil
  then show ?case
    by (simp add: windows_after_def windows_default_def table_ok_def)
qed (simp add: windows_after_snoc windows_apply_ok)

text \<open>
  C40. A RemoteApp client shows what the server last said: each window that was described and not deleted
  since has, field by field, the value of the latest order that carried the field, and the default where
  none did.
\<close>

theorem windows_follow_orders: "wt_windows (foldl windows_apply windows_default orders) i = described i (changes_of i orders)"
  using table_described by (simp add: windows_after_def)

text \<open>
  The list a client is given names every shown window once and only windows of the table, and an owner
  it names is a window of the table; a window is a dialog or popup exactly when it has an owner.
\<close>

theorem listing_is_consistent:
  fixes orders :: "window_change list"
  defines "t \<equiv> foldl windows_apply windows_default orders"
  shows "distinct (map lw_id (windows_listed t))
    \<and> set (map lw_id (windows_listed t)) = {i. \<exists>w. wt_windows t i = Some w \<and> shown w}
    \<and> list_all (\<lambda>l. (lw_kind l = NormalWindow) = (lw_owner l = None)
        \<and> set_option (lw_owner l) \<subseteq> dom (wt_windows t)) (windows_listed t)"
proof -
  have ok: "table_ok t"
    using windows_after_ok [of orders] by (simp add: t_def windows_after_def)
  let ?ws = "concat (map (\<lambda>i. case wt_windows t i of None \<Rightarrow> [] | Some w \<Rightarrow> [w]) (wt_order t))"
  have ids: "map rw_id (concat (map (\<lambda>i. case wt_windows t i of None \<Rightarrow> [] | Some w \<Rightarrow> [w]) is)) = is"
    if "set is \<subseteq> dom (wt_windows t)" for "is"
    using that ok by (induction "is") (auto simp: table_ok_def)
  then have order: "map rw_id ?ws = wt_order t"
    using ok by (simp add: table_ok_def)
  have lw: "map lw_id (windows_listed t) = map rw_id (filter shown ?ws)"
    by (simp add: windows_listed_def list_window_def Let_def comp_def)
  have "distinct (map rw_id (filter shown ?ws))"
    using order ok by (metis distinct_map_filter table_ok_def)
  moreover have "w \<in> set ?ws \<longleftrightarrow> wt_windows t (rw_id w) = Some w" for w
  proof
    show "wt_windows t (rw_id w) = Some w" if "w \<in> set ?ws"
      using that ok by (auto simp: table_ok_def split: option.splits)
    show "w \<in> set ?ws" if w: "wt_windows t (rw_id w) = Some w"
    proof -
      have "rw_id w \<in> set (wt_order t)"
        using ok domI [of "wt_windows t", OF w] unfolding table_ok_def by metis
      then show ?thesis
        unfolding set_concat set_map by (rule UN_I [OF imageI]) (simp add: w)
    qed
  qed
  then have "set (map rw_id (filter shown ?ws)) = {i. \<exists>w. wt_windows t i = Some w \<and> shown w}"
    using ok by (auto simp: table_ok_def image_iff) metis
  moreover have "list_all (\<lambda>l. (lw_kind l = NormalWindow) = (lw_owner l = None)
      \<and> set_option (lw_owner l) \<subseteq> dom (wt_windows t)) (windows_listed t)"
    by (auto simp: windows_listed_def list_all_iff list_window_def Let_def split: option.split)
  ultimately show ?thesis
    unfolding lw by blast
qed

section \<open>Orders that say they are empty\<close>

text \<open>
  An order's size field moves the reader, and nothing asks that it move forward: an order of size zero is
  read again for as long as the count says, up to 65535 times.
\<close>

lemma zero_size_order_repeats:
  "orders_loop n ([0x2E, 0, 0] @ le_bytes 4 (0x21000000 :: u32) @ le_bytes 4 i, 0) = replicate n (WindowDeleted i)"
proof -
  let ?d = "[0x2E, 0, 0] @ le_bytes 4 (0x21000000 :: u32) @ le_bytes 4 i"
  have "rd_u8 (?d, 0) = Some (0x2E, (?d, 1))" "rd_u16 (?d, 1) = Some (0, (?d, 3))"
    by (simp_all add: rd_u8_def rd_u16_def rd_take_def subslice_def of_le_def of_be_def)
  moreover have "window_order (?d, 3) = Some (WindowDeleted i)"
    by (simp add: window_order_def rd_u32_def rd_take_def subslice_def has_def ORDER_TYPE_DESKTOP_def ORDER_TYPE_WINDOW_def STATE_DELETED_def)
  ultimately show ?thesis
    by (induction n) (simp_all del: append.simps)
qed

end
