(* ===== verification/Discovery.thy ===== *)
theory Discovery
  imports Utf8 Identity
begin

unbundle bit_operations_syntax

text \<open>
  Finding and waking computers on the local network (\<open>discovery/src/beacon.rs\<close>, \<open>wake.rs\<close>,
  \<open>macs.rs\<close>): the beacons hosts broadcast and how a listener gathers them, Wake-on-LAN packets and
  the hardware addresses they name. Sockets and the system's lists of adapters are the arguments.
\<close>

section \<open>Beacons\<close>

definition BEACON_MAGIC :: bytes where "BEACON_MAGIC = [87, 67, 66, 1]"
definition ID_LEN :: nat where "ID_LEN = 32"
definition MAX_NAME :: nat where "MAX_NAME = 64"
definition MAX_PACKET :: nat where "MAX_PACKET = 4 + ID_LEN + 2 + 1 + MAX_NAME"
definition MIN_PACKET :: nat where "MIN_PACKET = 4 + ID_LEN + 2 + 1"

lemmas beacon_consts = BEACON_MAGIC_def ID_LEN_def MAX_NAME_def MAX_PACKET_def MIN_PACKET_def

datatype beacon_error = NotABeacon | BeaconTruncated | BeaconTooLong | BadName | BadPort

record beacon =
  bn_device_id :: bytes
  bn_port :: u16
  bn_name :: rstr

text \<open>\<open>s[..n]\<close>, which panics inside a character.\<close>

fun prefix_bytes :: "nat \<Rightarrow> rstr \<Rightarrow> rstr option" where
  "prefix_bytes n [] = (if n = 0 then Some [] else None)"
| "prefix_bytes n (c # s) =
     (if n = 0 then Some []
      else if utf8_len_char c \<le> n then map_option (Cons c) (prefix_bytes (n - utf8_len_char c) s) else None)"

text \<open>The loop down to the nearest character boundary, and the text up to it.\<close>

primrec cut_back :: "rstr \<Rightarrow> nat \<Rightarrow> rstr" where
  "cut_back s 0 = []"
| "cut_back s (Suc n) = (case prefix_bytes (Suc n) s of Some p \<Rightarrow> p | None \<Rightarrow> cut_back s n)"

definition beacon_new :: "bytes \<Rightarrow> u16 \<Rightarrow> rstr \<Rightarrow> beacon" where
  "beacon_new device_id port name =
     (let clean = filter (\<lambda>c. \<not> is_control c) name
      in \<lparr>bn_device_id = device_id, bn_port = port, bn_name = trim (cut_back clean (min (utf8_len clean) MAX_NAME))\<rparr>)"

definition beacon_encode :: "beacon \<Rightarrow> bytes" where
  "beacon_encode b =
     (let name = take (min (length (as_bytes (bn_name b))) MAX_NAME) (as_bytes (bn_name b))
      in BEACON_MAGIC @ bn_device_id b @ be_bytes 2 (bn_port b) @ [of_nat (length name)] @ name)"

definition beacon_decode :: "bytes \<Rightarrow> beacon_error + beacon" where
  "beacon_decode bytes =
     (if MAX_PACKET < length bytes then Inl BeaconTooLong
      else if length bytes < 4 \<or> take 4 bytes \<noteq> BEACON_MAGIC then Inl NotABeacon
      else if length bytes < MIN_PACKET then Inl BeaconTruncated
      else let device_id = subslice bytes 4 (4 + ID_LEN);
               port = of_be [bytes ! (4 + ID_LEN), bytes ! (5 + ID_LEN)];
               len = unat (bytes ! (6 + ID_LEN));
               body = drop MIN_PACKET bytes
        in if port = 0 then Inl BadPort
           else if MAX_NAME < len then Inl BeaconTooLong
           else if length body \<noteq> len then Inl (if length body < len then BeaconTruncated else BeaconTooLong)
           else case from_utf8 body of
               None \<Rightarrow> Inl BadName
             | Some name \<Rightarrow>
                 if list_ex is_control name then Inl BadName
                 else Inr \<lparr>bn_device_id = device_id, bn_port = port, bn_name = name\<rparr>)"

text \<open>The beacons that can be on the wire.\<close>

definition beacon_valid :: "beacon \<Rightarrow> bool" where
  "beacon_valid b =
     (length (bn_device_id b) = 32 \<and> bn_port b \<noteq> 0 \<and> utf8_len (bn_name b) \<le> 64
      \<and> list_all (\<lambda>c. scalar c \<and> \<not> is_control c) (bn_name b))"

text \<open>Addresses: the octets of an IPv4 address or the bytes of an IPv6 one.\<close>

datatype ip_addr = V4 bytes | V6 bytes

record beacon_seen =
  bs_beacon :: beacon
  bs_address :: "ip_addr \<times> u16"

definition skip_address :: "ip_addr \<Rightarrow> bool" where
  "skip_address ip =
     (case ip of V4 octets \<Rightarrow> octets = [0, 0, 0, 0] \<or> 224 \<le> octets ! 0 \<and> octets ! 0 \<le> 239 | V6 _ \<Rightarrow> False)"

text \<open>One datagram of the window: the receive buffer cuts a longer one.\<close>

definition collect_one ::
  "bytes list \<times> (bytes \<rightharpoonup> beacon_seen) \<Rightarrow> bytes \<times> ip_addr \<Rightarrow> bytes list \<times> (bytes \<rightharpoonup> beacon_seen)" where
  "collect_one = (\<lambda>(order, heard_from) (packet, from_ip).
     case beacon_decode (take (MAX_PACKET + 16) packet) of
       Inl _ \<Rightarrow> (order, heard_from)
     | Inr b \<Rightarrow>
         if skip_address from_ip then (order, heard_from)
         else (if heard_from (bn_device_id b) = None then order @ [bn_device_id b] else order,
               heard_from(bn_device_id b \<mapsto> \<lparr>bs_beacon = b, bs_address = (from_ip, bn_port b)\<rparr>)))"

fun take_heard :: "bytes list \<Rightarrow> (bytes \<rightharpoonup> beacon_seen) \<Rightarrow> beacon_seen list" where
  "take_heard [] m = []"
| "take_heard (i # is) m = (case m i of None \<Rightarrow> [] | Some s \<Rightarrow> [s]) @ take_heard is (m(i := None))"

definition collect_beacons :: "(bytes \<times> ip_addr) list \<Rightarrow> beacon_seen list" where
  "collect_beacons packets = (let (order, heard_from) = foldl collect_one ([], Map.empty) packets in take_heard order heard_from)"

section \<open>Waking\<close>

definition is_ascii_hexdigit :: "nat \<Rightarrow> bool" where
  "is_ascii_hexdigit c = (48 \<le> c \<and> c \<le> 57 \<or> 97 \<le> c \<and> c \<le> 102 \<or> 65 \<le> c \<and> c \<le> 70)"

definition split_mac :: "rstr \<Rightarrow> rstr list" where
  "split_mac s = split_on 58 (map (\<lambda>c. if c = 45 then 58 else c) s)"

fun mac_bytes :: "rstr list \<Rightarrow> bytes option" where
  "mac_bytes [] = Some []"
| "mac_bytes (part # parts) =
     (if utf8_len part \<noteq> 2 \<or> \<not> list_all is_ascii_hexdigit part then None
      else (case radix16_u8 part of
          None \<Rightarrow> None
        | Some b \<Rightarrow> map_option (Cons b) (mac_bytes parts)))"

definition parse_mac :: "rstr \<Rightarrow> bytes option" where
  "parse_mac txt = (let parts = split_mac (trim txt) in if length parts \<noteq> 6 then None else mac_bytes parts)"

definition magic_packet :: "bytes \<Rightarrow> bytes" where
  "magic_packet mac = replicate 6 0xFF @ concat (replicate 16 mac)"

section \<open>Hardware addresses\<close>

fun join_with :: "nat \<Rightarrow> rstr list \<Rightarrow> rstr" where
  "join_with c [] = []"
| "join_with c [p] = p"
| "join_with c (p # ps) = p @ c # join_with c ps"

definition mac_format :: "bytes \<Rightarrow> rstr" where
  "mac_format mac = join_with 58 (map hex2 mac)"

definition mac_parse :: "rstr \<Rightarrow> bytes option" where
  "mac_parse txt =
     (case parse_mac txt of
        None \<Rightarrow> None
      | Some mac \<Rightarrow> if mac \<noteq> replicate 6 0 \<and> mac ! 0 AND 1 = 0 then Some mac else None)"

definition accept_sysfs :: "rstr \<Rightarrow> rstr \<Rightarrow> bytes option" where
  "accept_sysfs kind address = (if kind \<noteq> lit ''1'' then None else mac_parse address)"

text \<open>The adapters of \<open>/sys/class/net\<close> in the order of their names: device, type and address.\<close>

definition mac_add :: "bytes list \<Rightarrow> bytes option \<Rightarrow> bytes list" where
  "mac_add found mac = (case mac of None \<Rightarrow> found | Some m \<Rightarrow> if m \<in> set found then found else found @ [m])"

definition macs_linux :: "(bool \<times> rstr \<times> rstr) list \<Rightarrow> bytes list" where
  "macs_linux entries =
     foldl (\<lambda>found (device, kind, address).
         if \<not> device then found else mac_add found (accept_sysfs (trim kind) (trim address))) [] entries"

text \<open>\<open>split\<close> on a text.\<close>

function split_str :: "rstr \<Rightarrow> rstr \<Rightarrow> rstr list" where
  "split_str p s =
     (if s = [] then [[]]
      else if p \<noteq> [] \<and> starts_with p s then [] # split_str p (drop (length p) s)
      else (case split_str p (tl s) of [] \<Rightarrow> [[hd s]] | q # qs \<Rightarrow> (hd s # q) # qs))"
  by pat_completeness auto
termination
  by (relation "measure (\<lambda>(p, s). length s)") auto

definition getmac_line :: "(rstr \<Rightarrow> rstr) \<Rightarrow> rstr \<Rightarrow> bytes option" where
  "getmac_line lower line =
     (let fields = map (trim_matches (\<lambda>c. c = 34)) (split_str [34, 44, 34] line)
      in if length fields < 2 then None
         else if contains_str (lit ''N/A'') (fields ! 1) \<or> contains_str (lit ''disconnected'') (lower (fields ! 1)) then None
         else mac_parse (fields ! 0))"

definition parse_getmac :: "(rstr \<Rightarrow> rstr) \<Rightarrow> rstr \<Rightarrow> bytes list" where
  "parse_getmac lower txt = foldl (\<lambda>found line. mac_add found (getmac_line lower line)) [] (lines_of txt)"

section \<open>Beacons read back\<close>

lemma take_exact: "length a = n \<Longrightarrow> take n (a @ b) = a" "length a = n \<Longrightarrow> drop n (a @ b) = b"
  by auto

lemma beacon_layout:
  assumes "beacon_valid b"
  shows "beacon_encode b = BEACON_MAGIC @ bn_device_id b @ be_bytes 2 (bn_port b) @ [of_nat (utf8_len (bn_name b))] @ as_bytes (bn_name b)"
  using assms by (simp add: beacon_encode_def beacon_valid_def length_as_bytes MAX_NAME_def)

lemma beacon_decode_encode:
  assumes "beacon_valid b"
  shows "beacon_decode (beacon_encode b) = Inr b"
proof -
  let ?name = "as_bytes (bn_name b)"
  have valid: "length (bn_device_id b) = 32" "bn_port b \<noteq> 0" "utf8_len (bn_name b) \<le> 64" "list_all scalar (bn_name b)"
    "\<not> list_ex is_control (bn_name b)"
    using assms by (auto simp: beacon_valid_def list_all_iff list_ex_iff)
  obtain x y where xy: "be_bytes 2 (bn_port b) = [x, y]"
    by (auto simp: numeral_2_eq_2)
  have port: "of_be [x, y] = bn_port b"
    unfolding xy [symmetric] by (rule of_be_be_bytes) simp
  let ?e = "[87, 67, 66, 1] @ bn_device_id b @ [x, y, of_nat (utf8_len (bn_name b))] @ ?name"
  have e: "beacon_encode b = ?e"
    by (simp add: beacon_layout [OF assms] BEACON_MAGIC_def xy)
  have parts: "subslice ?e 4 36 = bn_device_id b" "?e ! 36 = x" "?e ! 37 = y" "?e ! 38 = of_nat (utf8_len (bn_name b))"
    "drop 39 ?e = ?name" "take 4 ?e = [87, 67, 66, 1]" "length ?e = 39 + utf8_len (bn_name b)"
    using valid(1) by (simp_all add: subslice_def nth_append length_as_bytes)
  show ?thesis
    unfolding e beacon_decode_def
    using valid parts port from_utf8_as_bytes [OF valid(4)] unat_of_nat_u8 [of "utf8_len (bn_name b)"]
    by (simp add: beacon_consts Let_def length_as_bytes del: append_Cons)
qed

lemma beacon_decode_Inr:
  assumes "beacon_decode bs = Inr b"
  shows "beacon_valid b \<and> beacon_encode b = bs"
proof -
  let ?body = "drop 39 bs"
  have len: "39 \<le> length bs" "length bs \<le> 103" "take 4 bs = BEACON_MAGIC"
    using assms by (auto simp: beacon_decode_def beacon_consts Let_def split: if_splits option.splits)
  have b: "of_be [bs ! 36, bs ! 37] \<noteq> (0 :: u16)" "length ?body = unat (bs ! 38)" "unat (bs ! 38) \<le> 64"
    "\<exists>name. from_utf8 ?body = Some name \<and> \<not> list_ex is_control name
       \<and> b = \<lparr>bn_device_id = subslice bs 4 36, bn_port = of_be [bs ! 36, bs ! 37], bn_name = name\<rparr>"
    using assms by (auto simp: beacon_decode_def beacon_consts Let_def split: if_splits option.splits)
  then obtain name where name: "from_utf8 ?body = Some name" "\<not> list_ex is_control name"
    and eq: "b = \<lparr>bn_device_id = subslice bs 4 36, bn_port = of_be [bs ! 36, bs ! 37], bn_name = name\<rparr>"
    by blast
  have utf: "as_bytes name = ?body" "list_all scalar name"
    using from_utf8_Some [OF name(1)] by simp_all
  then have nlen: "utf8_len name = unat (bs ! 38)"
    using b(2) length_as_bytes [of name] by simp
  have valid: "beacon_valid b"
    using len b(1,3) name(2) utf(2) nlen by (auto simp: beacon_valid_def eq list_all_iff list_ex_iff)
  have "be_bytes 2 (of_be [bs ! 36, bs ! 37] :: u16) = [bs ! 36, bs ! 37]"
    by (rule be_bytes_of_be) simp_all
  then have "beacon_encode b = take 4 bs @ subslice bs 4 36 @ [bs ! 36, bs ! 37, bs ! 38] @ drop 39 bs"
    using beacon_layout [OF valid] len(3) nlen utf(1) by (simp add: eq)
  also have "\<dots> = bs"
  proof -
    have "drop 36 bs = bs ! 36 # bs ! 37 # bs ! 38 # drop 39 bs"
      using len(1) by (simp add: Cons_nth_drop_Suc [of 36, symmetric] Cons_nth_drop_Suc [of 37, symmetric] Cons_nth_drop_Suc [of 38, symmetric])
    then have "take 4 bs @ subslice bs 4 36 @ [bs ! 36, bs ! 37, bs ! 38] @ drop 39 bs = take 4 bs @ subslice bs 4 36 @ drop 36 bs"
      by simp
    also have "\<dots> = bs"
      by (simp add: drop_subslice [of 4 36 bs, simplified, symmetric])
    finally show ?thesis .
  qed
  finally show ?thesis
    using valid by blast
qed

interpretation beacon_format: codec beacon_valid beacon_encode "\<lambda>d. ok (beacon_decode d)"
proof unfold_locales
  show "ok (beacon_decode (beacon_encode b)) = Some b" if "beacon_valid b" for b
    using beacon_decode_encode [OF that] by simp
  show "beacon_valid b" if "ok (beacon_decode d) = Some b" for d b
    using that beacon_decode_Inr [of d b] by (cases "beacon_decode d") auto
qed

text \<open>
  The bytes a listener takes for a beacon are exactly those a host can send: a packet reads as a beacon
  if and only if it is the encoding of that beacon, with a port, a readable name of at most 64 bytes and
  nothing after it.
\<close>

theorem beacon_exact: "beacon_decode bs = Inr b \<longleftrightarrow> beacon_valid b \<and> beacon_encode b = bs"
  using beacon_decode_encode beacon_decode_Inr by blast

lemma prefix_bytes_Some: "prefix_bytes n s = Some p \<Longrightarrow> utf8_len p = n \<and> set p \<subseteq> set s"
proof (induction n s arbitrary: p rule: prefix_bytes.induct)
  case (2 n c s)
  then show ?case
    by (fastforce simp: utf8_len_def split: if_splits)
qed (simp split: if_splits)

lemma cut_back_props: "utf8_len (cut_back s n) \<le> n \<and> set (cut_back s n) \<subseteq> set s"
proof (induction n)
  case (Suc n)
  then show ?case
    by (auto split: option.split dest: prefix_bytes_Some)
qed simp

lemma utf8_len_dropWhile: "utf8_len (dropWhile f s) \<le> utf8_len s"
  by (induction s) (auto simp: utf8_len_def)

lemma utf8_len_rev: "utf8_len (rev s) = utf8_len s"
  by (simp add: utf8_len_def rev_map [symmetric] sum_list_rev)

lemma trim_props: "utf8_len (trim s) \<le> utf8_len s" "set (trim s) \<subseteq> set s"
proof -
  show "utf8_len (trim s) \<le> utf8_len s"
    unfolding trim_def trim_matches_def
    by (metis order_trans utf8_len_dropWhile utf8_len_rev)
  show "set (trim s) \<subseteq> set s"
    by (auto simp: trim_def trim_matches_def dest!: set_dropWhileD)
qed

text \<open>What a host announces can always be read, whatever name it was given.\<close>

lemma beacon_new_valid:
  assumes "length device_id = 32" "port \<noteq> 0" "list_all scalar name"
  shows "beacon_valid (beacon_new device_id port name)"
proof -
  let ?clean = "filter (\<lambda>c. \<not> is_control c) name"
  let ?cut = "cut_back ?clean (min (utf8_len ?clean) MAX_NAME)"
  have "utf8_len (trim ?cut) \<le> 64"
    using cut_back_props [of ?clean "min (utf8_len ?clean) MAX_NAME"] trim_props(1) [of ?cut] by (simp add: MAX_NAME_def)
  moreover have "set (trim ?cut) \<subseteq> set ?clean"
    using cut_back_props trim_props(2) by blast
  ultimately show ?thesis
    using assms by (auto simp: beacon_valid_def beacon_new_def Let_def list_all_iff)
qed

section \<open>What a listener gathers\<close>

definition accepted :: "bytes \<times> ip_addr \<Rightarrow> beacon_seen list" where
  "accepted = (\<lambda>(packet, from_ip).
     case beacon_decode (take (MAX_PACKET + 16) packet) of
       Inl _ \<Rightarrow> []
     | Inr b \<Rightarrow> if skip_address from_ip then [] else [\<lparr>bs_beacon = b, bs_address = (from_ip, bn_port b)\<rparr>])"

abbreviation seen_id :: "beacon_seen \<Rightarrow> bytes" where
  "seen_id s \<equiv> bn_device_id (bs_beacon s)"

definition latest :: "beacon_seen list \<Rightarrow> bytes \<Rightarrow> beacon_seen option" where
  "latest seen i = (if i \<in> seen_id ` set seen then Some (last (filter (\<lambda>s. seen_id s = i) seen)) else None)"

definition first_heard :: "beacon_seen list \<Rightarrow> bytes list" where
  "first_heard seen = rev (remdups (rev (map seen_id seen)))"

lemma latest_snoc: "latest (seen @ [s]) = (latest seen)(seen_id s \<mapsto> s)"
  by (auto simp: latest_def fun_eq_iff)

lemma first_heard_snoc:
  "first_heard (seen @ [s]) = (if latest seen (seen_id s) = None then first_heard seen @ [seen_id s] else first_heard seen)"
  by (auto simp: first_heard_def latest_def)

lemma collect_one_step:
  "collect_one (first_heard seen, latest seen) x = (first_heard (seen @ accepted x), latest (seen @ accepted x))"
  by (cases x) (simp add: collect_one_def accepted_def latest_snoc first_heard_snoc split: sum.split)

lemma collect_fold:
  "foldl collect_one ([], Map.empty) packets = (first_heard (concat (map accepted packets)), latest (concat (map accepted packets)))"
proof (induction packets rule: rev_induct)
  case Nil
  then show ?case
    by (simp add: first_heard_def latest_def fun_eq_iff)
qed (simp add: collect_one_step)

lemma take_heard_all: "distinct is \<Longrightarrow> set is \<subseteq> dom m \<Longrightarrow> take_heard is m = map (\<lambda>i. the (m i)) is"
proof (induction "is" arbitrary: m)
  case (Cons i "is")
  then have "take_heard is (m(i := None)) = map (\<lambda>j. the ((m(i := None)) j)) is"
    by (intro Cons.IH) auto
  also have "\<dots> = map (\<lambda>j. the (m j)) is"
    using Cons.prems(1) by auto
  finally show ?case
    using Cons.prems(2) by auto
qed simp

text \<open>
  A listener gives each host that it heard once, in the order in which the hosts were first heard, with
  the last beacon of the host and the address that it came from; whatever is not a beacon is passed over.
\<close>

theorem collect_gives_latest:
  "collect_beacons packets = (let seen = concat (map accepted packets) in map (\<lambda>i. the (latest seen i)) (first_heard seen))"
proof -
  let ?seen = "concat (map accepted packets)"
  have "distinct (first_heard seen)" "set (first_heard seen) \<subseteq> dom (latest seen)" for seen
    by (auto simp: first_heard_def latest_def)
  then show ?thesis
    by (simp only: collect_beacons_def collect_fold Let_def prod.case take_heard_all)
qed

section \<open>Addresses read back\<close>

lemma split_on_single: "c \<notin> set p \<Longrightarrow> split_on c p = [p]"
  by (induction p) auto

lemma split_on_step: "c \<notin> set p \<Longrightarrow> split_on c (p @ c # s) = p # split_on c s"
  by (induction p) auto

lemma split_on_join_with: "ps \<noteq> [] \<Longrightarrow> \<forall>p\<in>set ps. c \<notin> set p \<Longrightarrow> split_on c (join_with c ps) = ps"
  by (induction c ps rule: join_with.induct) (simp_all add: split_on_single split_on_step)

lemma hex_digit_class: "n < 16 \<Longrightarrow> is_ascii_hexdigit (hex_digit n)"
  by (auto simp: is_ascii_hexdigit_def hex_digit_def)

lemma hex2_class: "list_all is_ascii_hexdigit (hex2 b)"
proof -
  have "unat b < 256"
    using unsigned_less [of b, where ?'a = nat] by simp
  then have "unat b div 16 < 16"
    by simp
  then show ?thesis
    by (simp add: hex2_def hex_digit_class)
qed

lemma mac_bytes_hex: "mac_bytes (map hex2 mac) = Some mac"
proof (induction mac)
  case (Cons b mac)
  have "utf8_len (hex2 b) = 2"
    using utf8_len_ascii [of "hex2 b"] hex2_ascii by simp
  then show ?case
    using Cons hex2_class by simp
qed simp

lemma hexdigit_plain: "is_ascii_hexdigit c \<Longrightarrow> c \<noteq> 45 \<and> c \<noteq> 58 \<and> \<not> is_whitespace c"
  by (auto simp: is_ascii_hexdigit_def is_whitespace_def)

lemma set_join_with: "set (join_with c ps) \<subseteq> insert c (\<Union>p\<in>set ps. set p)"
  by (induction c ps rule: join_with.induct) auto

lemma mac_format_chars: "c \<in> set (mac_format mac) \<Longrightarrow> c = 58 \<or> is_ascii_hexdigit c"
  using set_join_with [of 58 "map hex2 mac"] hex2_class unfolding mac_format_def list_all_iff by fastforce

lemma dropWhile_none: "\<forall>c\<in>set s. \<not> f c \<Longrightarrow> dropWhile f s = s"
  by (cases s) auto

text \<open>A hardware address reads back from the way it is written, and its wake packet names it sixteen times.\<close>

lemma parse_mac_format:
  assumes "length mac = 6"
  shows "parse_mac (mac_format mac) = Some mac"
proof -
  have chars: "c = 58 \<or> c \<noteq> 45 \<and> \<not> is_whitespace c" if "c \<in> set (mac_format mac)" for c
    using mac_format_chars [OF that] hexdigit_plain by blast
  have "\<not> is_whitespace 58"
    by (simp add: is_whitespace_def)
  then have "\<forall>c\<in>set (mac_format mac). \<not> is_whitespace c"
    using chars by blast
  then have "trim (mac_format mac) = mac_format mac"
    by (simp add: trim_def trim_matches_def dropWhile_none)
  moreover have "map (\<lambda>c. if c = 45 then 58 else c) (mac_format mac) = mac_format mac"
    using chars by (intro map_idI) force
  moreover have "split_on 58 (mac_format mac) = map hex2 mac"
  proof -
    have "58 \<notin> set (hex2 b)" for b
      using hex2_class [of b] hexdigit_plain by (auto simp: list_all_iff)
    then show ?thesis
      using assms unfolding mac_format_def by (intro split_on_join_with) auto
  qed
  ultimately show ?thesis
    using assms mac_bytes_hex by (simp add: parse_mac_def split_mac_def)
qed

lemma magic_packet_length: "length mac = 6 \<Longrightarrow> length (magic_packet mac) = 102"
  by (simp add: magic_packet_def length_concat sum_list_replicate)

end
