(* ===== verification/Win_Cmdline.thy ===== *)
theory Win_Cmdline
  imports Utf16 "HOL-Library.List_Lexorder"
begin

text \<open>
  What \<open>CreateProcessAsUserW\<close> takes (\<open>agent-windows/src/cmdline.rs\<close>): the command line that Windows
  programs split back into arguments, with the splitting rules as the file's own reader states them, and
  the environment block. Units of UTF-16 are naturals below 65536; a \<open>None\<close> is a panic.
\<close>

section \<open>The command line\<close>

text \<open>The text after the opening quote; \<open>n\<close> backslashes are held back.\<close>

fun quote_loop :: "nat \<Rightarrow> rstr \<Rightarrow> rstr" where
  "quote_loop n [] = replicate (n * 2) 92 @ [34]"
| "quote_loop n (c # cs) =
     (if c = 92 then quote_loop (n + 1) cs
      else if c = 34 then replicate (n * 2 + 1) 92 @ 34 # quote_loop 0 cs
      else replicate n 92 @ c # quote_loop 0 cs)"

definition quote_arg :: "rstr \<Rightarrow> rstr" where
  "quote_arg arg =
     (if arg \<noteq> [] \<and> \<not> list_ex (\<lambda>c. c = 32 \<or> c = 9 \<or> c = 10 \<or> c = 11 \<or> c = 34) arg then arg
      else 34 # quote_loop 0 arg)"

definition program_arg :: "rstr \<Rightarrow> rstr" where
  "program_arg arg = (if arg = [] \<or> list_ex (\<lambda>c. c = 32 \<or> c = 9) arg then 34 # arg @ [34] else arg)"

definition join_line :: "rstr list \<Rightarrow> rstr" where
  "join_line argv = concat (map (\<lambda>(i, arg). (if 0 < i then [32] else []) @ (if i = 0 then program_arg arg else quote_arg arg))
     (enumerate 0 argv))"

section \<open>The reader\<close>

definition blank :: "nat \<Rightarrow> bool" where
  "blank c = (c = 32 \<or> c = 9)"

text \<open>The program name: up to a blank outside quotes, no escapes.\<close>

fun read_program :: "bool \<Rightarrow> rstr \<Rightarrow> rstr \<times> rstr" where
  "read_program quoted [] = ([], [])"
| "read_program quoted (c # cs) =
     (if c = 34 then read_program (\<not> quoted) cs
      else if blank c \<and> \<not> quoted then ([], c # cs)
      else let (p, rest) = read_program quoted cs in (c # p, rest))"

text \<open>One argument, after \<open>n\<close> backslashes, and the rest of the line.\<close>

fun read_arg :: "bool \<Rightarrow> nat \<Rightarrow> rstr \<Rightarrow> rstr \<times> rstr" where
  "read_arg quoted n [] = (replicate n 92, [])"
| "read_arg quoted n (c # cs) =
     (if c = 92 then read_arg quoted (n + 1) cs
      else if c = 34 then
        if odd n then (let (a, rest) = read_arg quoted 0 cs in (replicate (n div 2) 92 @ 34 # a, rest))
        else if quoted \<and> cs \<noteq> [] \<and> hd cs = 34
        then (let (a, rest) = read_arg quoted 0 (tl cs) in (replicate (n div 2) 92 @ 34 # a, rest))
        else (let (a, rest) = read_arg (\<not> quoted) 0 cs in (replicate (n div 2) 92 @ a, rest))
      else if blank c \<and> \<not> quoted then (replicate n 92, c # cs)
      else (let (a, rest) = read_arg quoted 0 cs in (replicate n 92 @ c # a, rest)))"

lemma read_arg_shorter: "length (snd (read_arg q n s)) \<le> length s"
  by (induction q n s rule: read_arg.induct) (auto simp: split_beta Let_def)

lemma read_arg_progress: "s \<noteq> [] \<Longrightarrow> \<not> blank (hd s) \<Longrightarrow> length (snd (read_arg q n s)) < length s"
  by (cases s) (auto simp: split_beta Let_def read_arg_shorter le_imp_less_Suc intro: le_less_trans [OF read_arg_shorter])

function read_args :: "rstr \<Rightarrow> rstr list" where
  "read_args s =
     (let s = dropWhile blank s
      in if s = [] then [] else let (a, rest) = read_arg False 0 s in a # read_args rest)"
  by pat_completeness auto
termination
proof (relation "measure length")
  fix s t :: rstr and p a rest
  assume t: "t = dropWhile blank s" "t \<noteq> []" and p: "p = read_arg False 0 t" "(a, rest) = p"
  have "\<not> blank (hd t)"
    using t hd_dropWhile by blast
  then have "length rest < length t"
    using read_arg_progress [OF t(2), of False 0] p by (metis snd_conv)
  also have "\<dots> \<le> length s"
    by (simp add: t(1) length_dropWhile_le)
  finally show "(rest, s) \<in> measure length"
    by simp
qed simp

declare read_args.simps [simp del]

definition split_line :: "rstr \<Rightarrow> rstr list" where
  "split_line line = (let (p, rest) = read_program False line in p # read_args rest)"

section \<open>Every argument comes back as it went\<close>

lemma read_arg_backslashes: "read_arg q k (replicate n 92 @ s) = read_arg q (k + n) s"
  by (induction n arbitrary: k) auto

definition next_arg :: "rstr \<Rightarrow> bool" where
  "next_arg rest = (rest = [] \<or> blank (hd rest))"

lemma read_unquoted: "next_arg rest \<Longrightarrow> read_arg False 0 rest = ([], rest)"
  by (cases rest) (auto simp: next_arg_def blank_def)

lemma read_quote_loop:
  assumes "next_arg rest"
  shows "read_arg True 0 (quote_loop n arg @ rest) = (replicate n 92 @ arg, rest)"
proof (induction n arg rule: quote_loop.induct)
  case (1 n)
  have "\<not> (rest \<noteq> [] \<and> hd rest = 34)"
    using assms by (auto simp: next_arg_def blank_def)
  then show ?case
    using read_unquoted [OF assms] by (auto simp: read_arg_backslashes)
next
  case (2 n c cs)
  then show ?case
    by (auto simp: read_arg_backslashes replicate_append_same)
qed

lemma read_plain:
  assumes "next_arg rest" "\<forall>c\<in>set arg. \<not> blank c \<and> c \<noteq> 34"
  shows "read_arg False n (arg @ rest) = (replicate n 92 @ arg, rest)"
  using assms(2)
proof (induction arg arbitrary: n)
  case Nil
  then show ?case
    using assms(1) by (cases rest) (auto simp: next_arg_def blank_def)
next
  case (Cons c arg)
  then show ?case
    by (simp add: replicate_append_same)
qed

lemma read_quote_arg: "next_arg rest \<Longrightarrow> read_arg False 0 (quote_arg arg @ rest) = (arg, rest)"
  using read_plain [of rest arg 0] read_quote_loop [of rest 0 arg]
  by (auto simp: quote_arg_def list_ex_iff blank_def)

lemma quote_arg_start: "quote_arg arg \<noteq> []" "\<not> blank (hd (quote_arg arg))"
  by (cases arg; auto simp: quote_arg_def blank_def)+

lemma read_args_quoted: "read_args (concat (map (\<lambda>a. 32 # quote_arg a) args)) = args"
proof (induction args)
  case (Cons a args)
  let ?rest = "concat (map (\<lambda>a. 32 # quote_arg a) args)"
  have "next_arg ?rest"
    by (cases args) (simp_all add: next_arg_def blank_def)
  moreover have "dropWhile blank (32 # quote_arg a @ ?rest) = quote_arg a @ ?rest"
    using quote_arg_start [of a] by (cases "quote_arg a") (simp_all add: blank_def)
  ultimately show ?case
    using Cons.IH quote_arg_start(1) [of a]
    by (subst read_args.simps) (simp add: read_quote_arg Let_def del: dropWhile.simps)
qed (simp add: read_args.simps)

lemma read_program_plain:
  assumes "34 \<notin> set p" "rest = [] \<or> blank (hd rest)" "q \<or> (\<forall>c\<in>set p. \<not> blank c)"
  shows "read_program q (p @ (if q then [34] else []) @ rest) = (p, rest)"
  using assms(1,3)
proof (induction p)
  case Nil
  have "read_program False rest = ([], rest)"
    using assms(2) by (cases rest) (auto simp: blank_def)
  then show ?case
    by simp
next
  case (Cons c p)
  then show ?case
    by (auto simp: split_beta)
qed

lemma join_line_Cons: "join_line (p # args) = program_arg p @ concat (map (\<lambda>a. 32 # quote_arg a) args)"
proof -
  have "concat (map (\<lambda>(i, arg). (if 0 < i then [32] else []) @ (if i = 0 then program_arg arg else quote_arg arg))
      (enumerate (Suc k) args)) = concat (map (\<lambda>a. 32 # quote_arg a) args)" for k
    by (induction args arbitrary: k) simp_all
  then show ?thesis
    by (simp add: join_line_def)
qed

text \<open>
  C32. A command line is read back as the arguments it was made of, whatever spaces, quotes and backslashes
  they hold, as long as there is a program name and it holds no quote (which the reader cannot express).
\<close>

theorem command_line_comes_back:
  assumes "34 \<notin> set p"
  shows "split_line (join_line (p # args)) = p # args"
proof -
  let ?rest = "concat (map (\<lambda>a. 32 # quote_arg a) args)"
  have rest: "?rest = [] \<or> blank (hd ?rest)"
    by (cases args) (simp_all add: blank_def)
  have "read_program False (program_arg p @ ?rest) = (p, ?rest)"
  proof (cases "p = [] \<or> list_ex (\<lambda>c. c = 32 \<or> c = 9) p")
    case True
    then show ?thesis
      using read_program_plain [OF assms rest, of True] by (simp add: program_arg_def)
  next
    case False
    then show ?thesis
      using read_program_plain [OF assms rest, of False] by (auto simp: program_arg_def blank_def list_ex_iff)
  qed
  then show ?thesis
    by (simp add: split_line_def join_line_Cons read_args_quoted)
qed

theorem command_line_comes_back_witness:
  "split_line (join_line [[99, 32, 100], [97, 92, 34, 32], []]) = [[99, 32, 100], [97, 92, 34, 32], []]"
  by (rule command_line_comes_back) simp

section \<open>The environment block\<close>

text \<open>One entry: \<open>entry[1..]\<close> panics when the first character is longer than a byte.\<close>

definition env_entry :: "rstr \<Rightarrow> (rstr \<times> rstr) option option" where
  "env_entry entry =
     (if utf8_len_char (hd entry) \<noteq> 1 then None
      else Some (case split_once 61 (tl entry) of None \<Rightarrow> None | Some (a, b) \<Rightarrow> Some (hd entry # a, b)))"

fun env_entries :: "rstr list \<Rightarrow> (rstr \<times> rstr) list option" where
  "env_entries [] = Some []"
| "env_entries (e # es) =
     (case env_entry e of
        None \<Rightarrow> None
      | Some v \<Rightarrow> (case env_entries es of
            None \<Rightarrow> None
          | Some vs \<Rightarrow> Some ((case v of None \<Rightarrow> [] | Some x \<Rightarrow> [x]) @ vs)))"

definition parse_env_block :: "nat list \<Rightarrow> (rstr \<times> rstr) list option" where
  "parse_env_block block =
     env_entries (map from_utf16_lossy (takeWhile (\<lambda>entry. entry \<noteq> []) (split_on 0 block)))"

definition env_vars :: "(rstr \<times> rstr) list \<Rightarrow> (rstr \<times> rstr) list \<Rightarrow> (rstr \<times> rstr) list" where
  "env_vars base extra =
     foldl (\<lambda>vars (name, value). filter (\<lambda>(have, _). \<not> eq_ignore_ascii_case have name) vars @ [(name, value)]) base extra"

definition env_block :: "(rstr \<Rightarrow> rstr) \<Rightarrow> (rstr \<times> rstr) list \<Rightarrow> (rstr \<times> rstr) list \<Rightarrow> nat list" where
  "env_block to_uppercase base extra =
     (let vars = sort_key (\<lambda>(name, _). to_uppercase name) (env_vars base extra);
          block = concat (map (\<lambda>(name, value). encode_utf16 (name @ 61 # value) @ [0]) vars)
      in (if block = [] then [0] else block) @ [0])"

text \<open>A text of characters that are none of them NUL.\<close>

definition plain_text :: "rstr \<Rightarrow> bool" where
  "plain_text s = (\<forall>c\<in>set s. 0 < c \<and> (c < 55296 \<or> 57344 \<le> c \<and> c < 1114112))"

text \<open>A variable the block can carry: its name starts with a one-byte character and has no \<open>=\<close> after it.\<close>

definition env_name_ok :: "rstr \<times> rstr \<Rightarrow> bool" where
  "env_name_ok = (\<lambda>(name, value). name \<noteq> [] \<and> hd name < 128 \<and> 61 \<notin> set (tl name) \<and> plain_text name \<and> plain_text value)"

lemma from_utf16_plain: "plain_text s \<Longrightarrow> from_utf16_lossy (encode_utf16 s) = s"
  by (rule from_utf16_encode) (auto simp: plain_text_def scalar_def list_all_iff)

lemma encode_utf16_units: "plain_text s \<Longrightarrow> 0 \<notin> set (encode_utf16 s)"
  by (auto simp: encode_utf16_def plain_text_def utf16_char_def)

lemma encode_utf16_Nil: "encode_utf16 s = [] \<longleftrightarrow> s = []"
  by (cases s) (auto simp: encode_utf16_def utf16_char_def)

lemma split_on_block:
  assumes "\<forall>e\<in>set es. 0 \<notin> set e \<and> e \<noteq> []"
  shows "takeWhile (\<lambda>e. e \<noteq> []) (split_on 0 (concat (map (\<lambda>e. e @ [0]) es) @ [0])) = es"
proof -
  have step: "split_on 0 (e @ 0 # s) = e # split_on 0 s" if "0 \<notin> set e" for e s :: "nat list"
    using that by (induction e) auto
  from assms show ?thesis
    by (induction es) (simp_all add: step)
qed

lemma env_entries_all:
  "list_all env_name_ok vars \<Longrightarrow> env_entries (map (\<lambda>(name, value). name @ 61 # value) vars) = Some vars"
proof (induction vars)
  case (Cons v vars)
  obtain c n x where v: "v = (c # n, x)" "c < 128" "61 \<notin> set n"
    using Cons.prems by (cases v; cases "fst v") (auto simp: env_name_ok_def)
  then show ?case
    using Cons by (simp add: env_entry_def utf8_len_char_def split_once_append)
qed simp

lemma env_text_Nil: "concat (map (\<lambda>(name, value). encode_utf16 (name @ 61 # value) @ [0]) vars) = [] \<longleftrightarrow> vars = []"
  by (cases vars) auto

lemma parse_env_written:
  assumes "list_all env_name_ok vars"
  shows "parse_env_block ((if vars = [] then [0] else concat (map (\<lambda>(name, value). encode_utf16 (name @ 61 # value) @ [0]) vars)) @ [0])
    = Some vars"
proof (cases "vars = []")
  case True
  then show ?thesis
    by (simp add: parse_env_block_def)
next
  case False
  let ?es = "map (\<lambda>(name, value). encode_utf16 (name @ 61 # value)) vars"
  have ok: "plain_text (n @ 61 # v)" if "(n, v) \<in> set vars" for n v
    using that assms by (auto simp: list_all_iff env_name_ok_def plain_text_def)
  then have "\<forall>e\<in>set ?es. 0 \<notin> set e \<and> e \<noteq> []"
    by (auto simp: encode_utf16_units encode_utf16_Nil)
  note split = split_on_block [OF this]
  have "map from_utf16_lossy ?es = map (\<lambda>(name, value). name @ 61 # value) vars"
    using ok by (auto simp: from_utf16_plain)
  moreover have "concat (map (\<lambda>(name, value). encode_utf16 (name @ 61 # value) @ [0]) vars) = concat (map (\<lambda>e. e @ [0]) ?es)"
    by (rule arg_cong [where f = concat]) auto
  ultimately show ?thesis
    unfolding parse_env_block_def if_not_P [OF False] by (simp only: split env_entries_all [OF assms])
qed

text \<open>The variables a program ought to see: the last value given for a name, or else its value in the base.\<close>

definition env_wanted :: "(rstr \<times> rstr) list \<Rightarrow> (rstr \<times> rstr) list \<Rightarrow> (rstr \<times> rstr) set" where
  "env_wanted base extra =
     {(n, v). (\<exists>xs ys. extra = xs @ (n, v) # ys \<and> (\<forall>m\<in>set ys. \<not> eq_ignore_ascii_case (fst m) n))
       \<or> (n, v) \<in> set base \<and> (\<forall>m\<in>set extra. \<not> eq_ignore_ascii_case (fst m) n)}"

lemma env_vars_snoc:
  "env_vars base (extra @ [(n, v)]) = filter (\<lambda>(have, _). \<not> eq_ignore_ascii_case have n) (env_vars base extra) @ [(n, v)]"
  by (simp add: env_vars_def)

lemma env_wanted_snoc:
  "env_wanted base (extra @ [(n, v)]) = insert (n, v) {(m, w) \<in> env_wanted base extra. \<not> eq_ignore_ascii_case m n}"
proof (rule set_eqI, clarify)
  fix m w
  have "(\<exists>xs ys. extra @ [(n, v)] = xs @ (m, w) # ys \<and> (\<forall>k\<in>set ys. \<not> eq_ignore_ascii_case (fst k) m)) \<longleftrightarrow>
      (m, w) = (n, v) \<or> \<not> eq_ignore_ascii_case n m \<and> (\<exists>xs ys. extra = xs @ (m, w) # ys \<and> (\<forall>k\<in>set ys. \<not> eq_ignore_ascii_case (fst k) m))"
    (is "?l \<longleftrightarrow> ?r")
  proof
    assume ?l
    then obtain xs ys where ys: "extra @ [(n, v)] = xs @ (m, w) # ys" "\<forall>k\<in>set ys. \<not> eq_ignore_ascii_case (fst k) m"
      by blast
    show ?r
    proof (cases ys rule: rev_cases)
      case (snoc zs z)
      then show ?thesis
        using ys by auto
    qed (use ys in simp)
  next
    assume ?r
    then show ?l
    proof
      assume "\<not> eq_ignore_ascii_case n m \<and> (\<exists>xs ys. extra = xs @ (m, w) # ys \<and> (\<forall>k\<in>set ys. \<not> eq_ignore_ascii_case (fst k) m))"
      then obtain xs ys where "extra = xs @ (m, w) # ys" "\<forall>k\<in>set (ys @ [(n, v)]). \<not> eq_ignore_ascii_case (fst k) m"
        by auto
      then show ?l
        by (intro exI [of _ xs] exI [of _ "ys @ [(n, v)]"]) simp
    next
      assume "(m, w) = (n, v)"
      then show ?l
        by (intro exI [of _ extra] exI [of _ "[]"]) simp
    qed
  qed
  moreover have "eq_ignore_ascii_case n m = eq_ignore_ascii_case m n"
    by (auto simp: eq_ignore_ascii_case_def)
  ultimately show "(m, w) \<in> env_wanted base (extra @ [(n, v)]) \<longleftrightarrow>
      (m, w) \<in> insert (n, v) {(m, w) \<in> env_wanted base extra. \<not> eq_ignore_ascii_case m n}"
    by (auto simp: env_wanted_def)
qed

lemma set_env_vars: "set (env_vars base extra) = env_wanted base extra"
proof (induction extra rule: rev_induct)
  case (snoc x extra)
  then show ?case
    by (cases x) (auto simp: env_vars_snoc env_wanted_snoc)
qed (auto simp: env_vars_def env_wanted_def)

lemma env_vars_ok: "list_all env_name_ok base \<Longrightarrow> list_all env_name_ok extra \<Longrightarrow> list_all env_name_ok (env_vars base extra)"
  unfolding list_all_iff set_env_vars env_wanted_def by auto

text \<open>
  The environment a program is given reads back as exactly the base with the extra variables on top:
  for each name, without regard to case, the last extra value or else that of the base, in the order of
  the names; when the variables' names start with a one-byte character and hold no equals sign after it.
\<close>

theorem environment_comes_back:
  assumes "list_all env_name_ok base" "list_all env_name_ok extra"
  shows "\<exists>vars. parse_env_block (env_block upper base extra) = Some vars \<and> set vars = env_wanted base extra
    \<and> sorted (map (\<lambda>(name, _). upper name) vars)"
proof -
  let ?vars = "sort_key (\<lambda>(name, _). upper name) (env_vars base extra)"
  have ok: "list_all env_name_ok ?vars"
    using env_vars_ok [OF assms] by (simp add: list_all_iff)
  have "parse_env_block (env_block upper base extra) = Some ?vars"
    unfolding env_block_def Let_def env_text_Nil using parse_env_written [OF ok] by (simp add: if_distrib)
  moreover have "sorted (map (\<lambda>(name, _). upper name) ?vars)"
    by (rule sorted_sort_key)
  ultimately show ?thesis
    by (simp add: set_env_vars)
qed

theorem environment_comes_back_witness:
  "\<exists>vars. parse_env_block (env_block id [([65], [49]), ([66], [50])] [([97], [51])]) = Some vars
     \<and> set vars = env_wanted [([65], [49]), ([66], [50])] [([97], [51])] \<and> sorted (map (\<lambda>(name, _). id name) vars)"
  by (rule environment_comes_back) (simp_all add: env_name_ok_def plain_text_def)

text \<open>
  A variable whose name starts with a character of more than one byte makes the reading of the whole
  block panic, whatever else it holds after it.
\<close>

theorem environment_reading_panics:
  assumes "128 \<le> c" "plain_text (c # s)"
  shows "parse_env_block (encode_utf16 (c # s) @ 0 # rest) = None"
proof -
  have "split_on 0 (encode_utf16 (c # s) @ 0 # rest) = encode_utf16 (c # s) # split_on 0 rest"
  proof -
    have "split_on 0 (e @ 0 # r) = e # split_on 0 r" if "0 \<notin> set e" for e r :: "nat list"
      using that by (induction e) auto
    then show ?thesis
      using encode_utf16_units [OF assms(2)] by blast
  qed
  then show ?thesis
    using assms encode_utf16_Nil [of "c # s"]
    by (simp add: parse_env_block_def from_utf16_plain env_entry_def utf8_len_char_def)
qed

theorem environment_reading_panics_witness: "parse_env_block (encode_utf16 [214, 61, 49] @ 0 # [0]) = None"
  by (rule environment_reading_panics) (simp_all add: plain_text_def)

end
