(* ===== verification/Fec_Field.thy ===== *)
theory Fec_Field
  imports Prelude
begin

unbundle bit_operations_syntax

text \<open>
  The arithmetic of \<open>fec/src/lib.rs\<close>: the logarithm and exponent tables that its
  constant evaluator builds, \<open>mul\<close> and \<open>inverse\<close> on bytes, and the proof that they
  are the multiplication and inversion of the field GF(2^8) with the polynomial 0x11d. The
  field is made an instance of the library's class \<^theory_text>\<open>field\<close>, so that the
  erasure code's linear algebra is done with the library's automation.
\<close>

section \<open>The tables\<close>

text \<open>One turn of the loop that fills \<open>TABLES\<close>; \<open>x\<close> is the 16-bit running power.\<close>

definition double_x :: "u16 \<Rightarrow> u16" where
  "double_x x = (let y = push_bit 1 x in if y AND 0x100 \<noteq> 0 then y XOR 0x11d else y)"

fun table_step :: "nat \<Rightarrow> bytes \<times> bytes \<times> u16 \<Rightarrow> bytes \<times> bytes \<times> u16" where
  "table_step i (log, exp, x) =
     (log[unat x := of_nat i], exp[i := ucast x, i + 255 := ucast x], double_x x)"

definition TABLES :: "bytes \<times> bytes \<times> u16" where
  "TABLES = fold table_step [0..<255] (replicate 256 0, replicate 512 0, 1)"

definition LOG :: bytes where "LOG = fst TABLES"
definition EXP :: bytes where "EXP = fst (snd TABLES)"

section \<open>Multiplication and inversion\<close>

definition mul :: "u8 \<Rightarrow> u8 \<Rightarrow> u8" where
  "mul a b = (if a = 0 \<or> b = 0 then 0 else EXP ! (unat (LOG ! unat a) + unat (LOG ! unat b)))"

text \<open>\<open>inverse\<close> must not be called with 0 (the source asserts it in debug builds).\<close>

definition gf_inverse :: "u8 \<Rightarrow> u8" where
  "gf_inverse a = EXP ! (255 - unat (LOG ! unat a))"

section \<open>What the tables hold\<close>

text \<open>Multiplication by the generator, as an operation on bytes.\<close>

definition gf_x :: "u8 \<Rightarrow> u8" where
  "gf_x a = push_bit 1 a XOR (if bit a 7 then 0x1d else 0)"

definition pw :: "nat \<Rightarrow> u8" where
  "pw i = (gf_x ^^ i) 1"

lemma gf_x_xor: "gf_x (a XOR b) = gf_x a XOR gf_x b"
  by (rule bit_word_eqI) (auto simp: gf_x_def bit_simps)

lemma gf_x_0 [simp]: "gf_x 0 = 0"
  by (simp add: gf_x_def)

lemma gf_x_pow_xor: "(gf_x ^^ n) (a XOR b) = (gf_x ^^ n) a XOR (gf_x ^^ n) b"
  by (induction n) (simp_all add: gf_x_xor)

lemma gf_x_pow_0 [simp]: "(gf_x ^^ n) 0 = 0"
  by (induction n) simp_all

lemma double_x_bits:
  fixes a :: u8
  shows "push_bit 1 (ucast a :: u16) XOR (if bit a 7 then 0x11d else 0)
      = ucast (push_bit 1 a XOR (if bit a 7 then 0x1d else 0))" (is "?l = ?r")
proof (rule bit_word_eqI)
  fix n :: nat
  assume "n < LENGTH(16)"
  then have "n < 16" by simp
  have high: "\<not> bit a k" if "8 \<le> k" for k
    using that by (auto dest: bit_imp_le_length)
  have "list_all (\<lambda>n. bit ?l n = bit ?r n) [0..<16]"
    using high by (simp add: upt_0_numeral bit_simps del: push_bit_Suc)
  then show "bit ?l n = bit ?r n"
    using \<open>n < 16\<close> by (rule below_all)
qed

lemma double_x_byte: "double_x (ucast (a :: u8)) = ucast (gf_x a)"
proof -
  have "push_bit 1 (ucast a :: u16) AND 2 ^ 8 \<noteq> 0 \<longleftrightarrow> bit (push_bit 1 (ucast a :: u16)) 8"
    by (simp only: and_exp_eq_0_iff_not_bit not_not)
  then have "push_bit 1 (ucast a :: u16) AND 0x100 \<noteq> 0 \<longleftrightarrow> bit a 7"
    by (simp add: bit_simps del: push_bit_Suc)
  with double_x_bits [of a] show ?thesis
    by (simp add: double_x_def gf_x_def Let_def del: push_bit_Suc split: if_splits)
qed

text \<open>
  The powers of the generator, and that there are 255 different ones: computed on natural
  numbers, where the simplifier keeps the numerals small.
\<close>

definition gf_n :: "nat \<Rightarrow> nat" where
  "gf_n n = (if n < 128 then 2 * n else (2 * n - 256) XOR 29)"

fun pows :: "nat \<Rightarrow> nat \<Rightarrow> nat list" where
  "pows 0 n = []"
| "pows (Suc k) n = n # pows k (gf_n n)"

lemma unat_byte_less [simp]: "unat (b :: u8) < 256"
  using unsigned_less [of b, where ?'a = nat] by simp

lemma unat_gf_x: "unat (gf_x a) = gf_n (unat a)"
proof -
  have "bit a 7 \<longleftrightarrow> bit (unat a) 7"
    by (simp add: bit_unsigned_iff)
  also have "\<dots> \<longleftrightarrow> odd (unat a div 128)"
    by (simp add: bit_iff_odd)
  also have "unat a div 128 = (if unat a < 128 then 0 else 1)"
    using unat_byte_less [of a] by (auto intro: div_nat_eqI simp del: unat_byte_less)
  also have "odd \<dots> \<longleftrightarrow> \<not> unat a < 128"
    by simp
  finally have top: "bit a 7 \<longleftrightarrow> \<not> unat a < 128" .
  have shifted: "unat (push_bit 1 a) = 2 * unat a mod 256"
    by (simp add: unsigned_push_bit_eq take_bit_eq_mod [where ?'a = nat]
        push_bit_eq_mult [where ?'a = nat] mult.commute del: push_bit_Suc)
  show ?thesis
  proof (cases "unat a < 128")
    case True
    then have "2 * unat a mod 256 = 2 * unat a"
      by simp
    with True top shifted show ?thesis
      by (simp add: gf_x_def gf_n_def del: push_bit_Suc)
  next
    case False
    then have "2 * unat a mod 256 = 2 * unat a - 256"
      using unat_byte_less [of a] by (simp add: mod_if del: unat_byte_less)
    moreover have "unat (push_bit 1 a XOR 0x1d) = unat (push_bit 1 a) XOR 29"
      by (simp add: unsigned_xor_eq del: push_bit_Suc)
    ultimately show ?thesis
      using False top shifted by (simp add: gf_x_def gf_n_def del: push_bit_Suc)
  qed
qed

lemma pows_numeral: "pows (numeral k) n = n # pows (pred_numeral k) (gf_n n)"
  by (simp add: numeral_eq_Suc)

lemma pows_eq_map: "pows k n = map (\<lambda>i. (gf_n ^^ i) n) [0..<k]"
proof (induction k arbitrary: n)
  case (Suc k)
  show ?case
    by (simp only: pows.simps Suc.IH upt_conv_Cons [of 0 "Suc k"] zero_less_Suc list.map
        map_Suc_upt [symmetric] map_map comp_def funpow_Suc_right funpow_0)
qed simp

lemma unat_pw: "unat (pw i) = (gf_n ^^ i) 1"
  by (induction i) (simp_all add: pw_def unat_gf_x)

lemma distinct_pows: "distinct (pows 255 1)"
  by (simp add: pows_numeral gf_n_def)

lemma pw_255: "pw 255 = 1"
proof -
  have "pows 256 1 ! 255 = 1"
    by (simp add: pows_numeral gf_n_def)
  then have "unat (pw 255) = unat (1 :: u8)"
    by (simp add: pows_eq_map unat_pw del: upt_Suc)
  then show ?thesis
    by (simp only: word_unat_eq_iff)
qed

lemma inj_on_pw: "inj_on pw {..<255}"
proof -
  have "inj_on (unat \<circ> pw) {..<255}"
    using distinct_pows
    by (simp only: pows_eq_map distinct_map) (simp add: atLeast0LessThan comp_def unat_pw)
  then show ?thesis
    by (rule inj_on_imageI2)
qed

lemma pw_add: "pw (i + j) = (gf_x ^^ i) (pw j)"
  by (simp add: pw_def funpow_add)

lemma pw_0 [simp]: "pw 0 = 1"
  by (simp add: pw_def)

lemma pw_add_255 [simp]: "pw (i + 255) = pw i"
  using pw_255 by (simp add: pw_add) (simp add: pw_def)

lemma pw_mult_255 [simp]: "pw (i * 255) = 1"
proof (induction i)
  case (Suc i)
  then show ?case
    using pw_add_255 [of "i * 255"] by (simp add: add.commute)
qed simp

lemma pw_nonzero [simp]: "pw i \<noteq> 0"
proof
  assume "pw i = 0"
  then have "pw (i * 254 + i) = 0"
    by (simp only: pw_add) simp
  moreover have "i * 254 + i = i * 255"
    by simp
  ultimately have "pw (i * 255) = 0"
    by (simp only:)
  then show False
    by simp
qed

lemma pw_surj: "a \<noteq> 0 \<Longrightarrow> \<exists>i<255. a = pw i"
proof -
  assume a: "a \<noteq> 0"
  have "pw ` {..<255} = UNIV - {0}"
  proof (rule card_subset_eq)
    have "card (UNIV - {0} :: u8 set) = 255"
      by (simp add: card_word)
    moreover have "card (pw ` {..<255}) = 255"
      using inj_on_pw by (simp add: card_image)
    ultimately show "card (pw ` {..<255}) = card (UNIV - {0} :: u8 set)"
      by simp
  qed auto
  with a have "a \<in> pw ` {..<255}"
    by blast
  then show ?thesis by auto
qed

section \<open>The loop fills the tables with the powers\<close>

definition tables_filled :: "nat \<Rightarrow> bytes \<times> bytes \<times> u16 \<Rightarrow> bool" where
  "tables_filled n = (\<lambda>(log, exp, x). length log = 256 \<and> length exp = 512 \<and> x = ucast (pw n)
     \<and> (\<forall>j<n. exp ! j = pw j \<and> exp ! (j + 255) = pw j \<and> log ! unat (pw j) = of_nat j))"

lemma table_step_fills:
  assumes n: "n < 255" and inv: "tables_filled n t"
  shows "tables_filled (Suc n) (table_step n t)"
proof -
  obtain log exp x where t: "t = (log, exp, x)"
    by (cases t) auto
  have len: "length log = 256" "length exp = 512" and x: "x = ucast (pw n)"
    and old: "\<And>j. j < n \<Longrightarrow> exp ! j = pw j \<and> exp ! (j + 255) = pw j \<and> log ! unat (pw j) = of_nat j"
    using inv by (auto simp: t tables_filled_def)
  have ne: "unat (pw n) \<noteq> unat (pw j)" if "j < n" for j
    using inj_on_pw that n by (fastforce simp: inj_on_def word_unat_eq_iff)
  have un: "unat x = unat (pw n)"
    using unat_byte_less [of "pw n"]
    by (simp add: x unsigned_ucast_eq take_bit_nat_eq_self_iff del: unat_byte_less)
  then have low: "(ucast x :: u8) = pw n"
    by (simp add: word_unat_eq_iff unsigned_ucast_eq take_bit_nat_eq_self_iff)
  have "double_x x = ucast (pw (Suc n))"
    by (simp add: x double_x_byte) (simp add: pw_def)
  then show ?thesis
    using n old len
    by (auto simp: t tables_filled_def less_Suc_eq nth_list_update un low dest!: ne)
qed

lemma TABLES_filled: "tables_filled 255 TABLES"
proof -
  have "n \<le> 255 \<Longrightarrow> tables_filled n (fold table_step [0..<n] (replicate 256 0, replicate 512 0, 1))" for n
  proof (induction n)
    case 0
    show ?case by (simp add: tables_filled_def)
  next
    case (Suc n)
    then show ?case
      using table_step_fills [of n] by simp
  qed
  then show ?thesis
    unfolding TABLES_def by blast
qed

lemma EXP_filled: "j < 255 \<Longrightarrow> EXP ! j = pw j" "j < 255 \<Longrightarrow> EXP ! (j + 255) = pw j"
  and LOG_filled: "j < 255 \<Longrightarrow> LOG ! unat (pw j) = of_nat j"
  using TABLES_filled by (auto simp: tables_filled_def EXP_def LOG_def case_prod_beta)

lemma EXP_nth: "i < 510 \<Longrightarrow> EXP ! i = pw i"
proof (cases "i < 255")
  case True
  then show ?thesis
    by (simp add: EXP_filled)
next
  case False
  moreover assume "i < 510"
  ultimately obtain j where "i = j + 255" "j < 255"
    by (metis add_less_cancel_right le_add_diff_inverse2 linorder_not_less numeral_Bit0)
  then show ?thesis
    by (simp add: EXP_filled)
qed

definition lg :: "u8 \<Rightarrow> nat" where
  "lg a = unat (LOG ! unat a)"

lemma lg_pw: "i < 255 \<Longrightarrow> lg (pw i) = i"
  by (simp add: LOG_filled lg_def unat_of_nat take_bit_nat_eq_self_iff)

lemma lg_less: "a \<noteq> 0 \<Longrightarrow> lg a < 255"
  and pw_lg: "a \<noteq> 0 \<Longrightarrow> pw (lg a) = a"
  using pw_surj lg_pw by force+

section \<open>The field laws\<close>

lemma mul_eq: "mul a b = (if a = 0 \<or> b = 0 then 0 else pw (lg a + lg b))"
proof (cases "a = 0 \<or> b = 0")
  case False
  then have "lg a + lg b < 510"
    using lg_less [of a] lg_less [of b] by simp
  then show ?thesis
    by (simp add: mul_def EXP_nth lg_def [symmetric])
qed (auto simp: mul_def)

lemma mul_pw_left: "mul (pw i) b = (gf_x ^^ i) b"
proof (cases "b = 0")
  case False
  have "pw (lg (pw i) + lg b) = (gf_x ^^ lg b) (pw (lg (pw i)))"
    by (simp add: pw_add [symmetric] add.commute)
  also have "\<dots> = (gf_x ^^ i) (pw (lg b))"
    by (simp add: pw_lg pw_add [symmetric] add.commute)
  finally show ?thesis
    using False by (simp add: mul_eq pw_lg)
qed (simp add: mul_def)

lemma mul_0 [simp]: "mul 0 a = 0" "mul a 0 = 0"
  by (simp_all add: mul_def)

lemma mul_commute: "mul a b = mul b a"
  by (auto simp: mul_eq add.commute)

lemma mul_1 [simp]: "mul 1 a = a"
  using mul_pw_left [of 0 a] by simp

lemma mul_assoc: "mul (mul a b) c = mul a (mul b c)"
proof (cases "a = 0 \<or> b = 0")
  case False
  then obtain i j where "a = pw i" "b = pw j"
    using pw_surj by metis
  then show ?thesis
    by (simp add: mul_pw_left pw_add [symmetric]) (simp add: funpow_add)
qed auto

lemma mul_xor_right: "mul a (b XOR c) = mul a b XOR mul a c"
proof (cases "a = 0")
  case False
  then obtain i where "a = pw i"
    using pw_surj by metis
  then show ?thesis
    by (simp add: mul_pw_left gf_x_pow_xor)
qed simp

lemma gf_inverse_pw: "a \<noteq> 0 \<Longrightarrow> gf_inverse a = pw (255 - lg a)"
  by (simp add: gf_inverse_def lg_def [symmetric] EXP_nth)

lemma mul_inverse: "a \<noteq> 0 \<Longrightarrow> mul a (gf_inverse a) = 1"
proof -
  assume a: "a \<noteq> 0"
  have "mul a (gf_inverse a) = mul (pw (lg a)) (pw (255 - lg a))"
    using a by (simp add: gf_inverse_pw pw_lg)
  also have "\<dots> = pw (lg a + (255 - lg a))"
    by (simp add: mul_pw_left pw_add)
  finally show ?thesis
    using lg_less [OF a] pw_255 by simp
qed

section \<open>The field as an instance of the library's class\<close>

datatype gf = Gf (byte: u8)

instantiation gf :: field
begin

definition "0 = Gf 0"
definition "1 = Gf 1"
definition "x + y = Gf (byte x XOR byte y)"
definition "- x = (x :: gf)"
definition "x - y = Gf (byte x XOR byte y)"
definition "x * y = Gf (mul (byte x) (byte y))"
definition "inverse x = Gf (if byte x = 0 then 0 else gf_inverse (byte x))"
definition "divide x y = x * inverse (y :: gf)"

instance
proof
  fix a b c :: gf
  show "a * b * c = a * (b * c)"
    by (simp add: times_gf_def mul_assoc)
  show "a * b = b * a"
    by (simp add: times_gf_def mul_commute)
  show "1 * a = a"
    by (simp add: times_gf_def one_gf_def)
  show "a + b + c = a + (b + c)" "a + b = b + a" "0 + a = a"
    by (simp_all add: plus_gf_def zero_gf_def xor.assoc xor.commute xor.left_commute)
  show "- a + a = 0" "a - b = a + - b"
    by (simp_all add: plus_gf_def minus_gf_def uminus_gf_def zero_gf_def)
  show "(a + b) * c = a * c + b * c"
    by (simp add: plus_gf_def times_gf_def mul_commute [of _ "byte c"] mul_xor_right)
  show "(0::gf) \<noteq> 1"
    by (simp add: zero_gf_def one_gf_def)
  show "a \<noteq> 0 \<Longrightarrow> inverse a * a = 1"
    by (cases a) (auto simp: zero_gf_def one_gf_def times_gf_def inverse_gf_def
        mul_inverse mul_commute [of "gf_inverse _"])
  show "divide a b = a * inverse b"
    by (simp add: divide_gf_def)
  show "inverse (0::gf) = 0"
    by (simp add: zero_gf_def inverse_gf_def)
qed

end

lemmas gf_defs = zero_gf_def one_gf_def plus_gf_def minus_gf_def uminus_gf_def times_gf_def
  inverse_gf_def divide_gf_def

lemma gf_add_self [simp]: "(x::gf) + x = 0"
  by (simp add: gf_defs)

lemma gf_minus [simp]: "(x::gf) - y = x + y" "- x = x"
  by (simp_all add: gf_defs)

lemma gf_add_eq_0: "(x::gf) + y = 0 \<longleftrightarrow> x = y"
  using eq_neg_iff_add_eq_0 [of x y] by simp

lemma Gf_eq_0 [simp]: "Gf a = 0 \<longleftrightarrow> a = 0"
  by (simp add: zero_gf_def)

lemma byte_0 [simp]: "byte 0 = 0" and byte_1 [simp]: "byte 1 = 1"
  and byte_add [simp]: "byte (x + y) = byte x XOR byte y"
  and byte_mult [simp]: "byte (x * y) = mul (byte x) (byte y)"
  by (simp_all add: gf_defs)

lemma Gf_mul: "Gf (mul a b) = Gf a * Gf b" and Gf_xor: "Gf (a XOR b) = Gf a + Gf b"
  and Gf_inverse: "a \<noteq> 0 \<Longrightarrow> Gf (gf_inverse a) = inverse (Gf a)"
  by (simp_all add: gf_defs)

lemma Gf_0 [simp]: "Gf 0 = 0" and Gf_1 [simp]: "Gf 1 = 1"
  by (simp_all add: gf_defs)

section \<open>Equivalence with polynomial multiplication\<close>

text \<open>
  The reference: shift and add over the bits of the second factor, reducing by the polynomial
  at every doubling. No tables.
\<close>

definition poly_mul :: "u8 \<Rightarrow> u8 \<Rightarrow> u8" where
  "poly_mul a b = fold (\<lambda>i acc. if bit b i then acc XOR (gf_x ^^ i) a else acc) [0..<8] 0"

lemma pw_small: "n < 8 \<Longrightarrow> pw n = push_bit n 1"
proof -
  assume n: "n < 8"
  have "map (\<lambda>n. unat (pw n)) [0..<8] = pows 8 1"
    by (simp add: pows_eq_map unat_pw)
  also have "\<dots> = map (\<lambda>n. unat (push_bit n 1 :: u8)) [0..<8]"
    by (simp add: pows_numeral gf_n_def upt_0_numeral)
  finally show ?thesis
    using n by (simp add: word_unat_eq_iff)
qed

lemma mul_take_bit:
  "n \<le> 8 \<Longrightarrow> mul a (take_bit n b)
     = fold (\<lambda>i acc. if bit b i then acc XOR (gf_x ^^ i) a else acc) [0..<n] 0"
proof (induction n)
  case (Suc n)
  have "take_bit (Suc n) b = take_bit n b XOR (if bit b n then push_bit n 1 else 0)"
    by (rule bit_word_eqI) (auto simp: bit_simps less_Suc_eq)
  moreover have "mul a (push_bit n 1) = (gf_x ^^ n) a"
    using Suc.prems pw_small [of n] mul_pw_left [of n a] by (simp add: mul_commute)
  ultimately show ?case
    using Suc by (simp add: mul_xor_right)
qed simp

lemma mul_poly_mul: "mul a b = poly_mul a b"
proof -
  have "take_bit 8 b = b"
    by (rule bit_word_eqI) (simp add: bit_simps)
  then show ?thesis
    using mul_take_bit [of 8 a b] by (simp add: poly_mul_def)
qed

section \<open>Properties\<close>

text \<open>
  C38. The table lookup is multiplication of polynomials over GF(2) modulo 0x11d: for every two
  bytes, \<open>mul\<close>, with its logarithm and antilogarithm tables, gives what shift-and-add
  multiplication gives.
\<close>

theorem mul_is_polynomial_product: "mul a b = poly_mul a b"
  by (rule mul_poly_mul)

text \<open>
  C40. \<open>inverse\<close> is the inverse in the field: multiplication by it undoes multiplication by any
  byte other than 0.
\<close>

theorem inverse_undoes_mul: "a \<noteq> 0 \<Longrightarrow> mul (mul b a) (gf_inverse a) = b"
proof -
  assume a: "a \<noteq> 0"
  have "Gf (mul (mul b a) (gf_inverse a)) = Gf b * Gf a * inverse (Gf a)"
    by (simp only: Gf_mul Gf_inverse [OF a])
  also have "\<dots> = Gf b"
    using a by (simp add: mult.assoc)
  finally show ?thesis
    by simp
qed

theorem inverse_undoes_mul_witness: "mul (mul 0x35 0x1d) (gf_inverse 0x1d) = 0x35"
  by (rule inverse_undoes_mul) simp

end
