(* ===== verification/Fec_Code.thy ===== *)
theory Fec_Code
  imports Fec_Field
begin

unbundle bit_operations_syntax

text \<open>
  The erasure code of \<open>fec/src/lib.rs\<close>: the \<open>Code\<close> structure, its constructors,
  \<open>encode\<close> and \<open>recover\<close> with its Gauss-Jordan inversion, and the proof that whatever
  \<open>recover\<close> returns is the data that was encoded. Completeness for Cauchy codes is in
  \<open>Fec_Cauchy\<close>.
\<close>

section \<open>The code\<close>

datatype code_error = Shape | TooManyShards nat nat | ShardCount nat nat | ShardSize

record code =
  c_data :: nat
  c_parity :: "u8 list list"

definition code_new :: "nat \<Rightarrow> u8 list list \<Rightarrow> code_error + code" where
  "code_new data parity =
     (if data = 0 \<or> (\<exists>row \<in> set parity. length row \<noteq> data) then Inl Shape
      else Inr \<lparr>c_data = data, c_parity = parity\<rparr>)"

definition cauchy :: "nat \<Rightarrow> nat \<Rightarrow> code_error + code" where
  "cauchy data parity =
     (if data = 0 then Inl Shape
      else if data + parity > 256 then Inl (TooManyShards data parity)
      else Inr \<lparr>c_data = data,
                c_parity = map (\<lambda>j. map (\<lambda>i. gf_inverse (of_nat ((data + j) XOR i))) [0..<data]) [0..<parity]\<rparr>)"

definition data_shards :: "code \<Rightarrow> nat" where "data_shards c = c_data c"
definition parity_shards :: "code \<Rightarrow> nat" where "parity_shards c = length (c_parity c)"
definition shards :: "code \<Rightarrow> nat" where "shards c = c_data c + length (c_parity c)"

text \<open>What the constructors guarantee of every code.\<close>

definition code_ok :: "code \<Rightarrow> bool" where
  "code_ok c \<longleftrightarrow> 0 < c_data c \<and> (\<forall>row \<in> set (c_parity c). length row = c_data c)"

definition code_row :: "code \<Rightarrow> nat \<Rightarrow> u8 list" where
  "code_row c index =
     (if index < c_data c then (replicate (c_data c) 0)[index := 1]
      else c_parity c ! (index - c_data c))"

section \<open>Encoding\<close>

fun xor_scaled :: "u8 \<Rightarrow> bytes \<Rightarrow> bytes \<Rightarrow> bytes" where
  "xor_scaled k (x # xs) (b # bs) = (x XOR mul k b) # xor_scaled k xs bs"
| "xor_scaled k xs _ = xs"

definition add_scaled :: "bytes \<Rightarrow> u8 \<Rightarrow> bytes \<Rightarrow> bytes" where
  "add_scaled out k shard = (if k = 0 then out else xor_scaled k out shard)"

definition encode :: "code \<Rightarrow> bytes list \<Rightarrow> code_error + bytes list" where
  "encode c data =
     (if length data \<noteq> c_data c then Inl (ShardCount (c_data c) (length data))
      else let size = length (data ! 0)
       in if \<exists>shard \<in> set data. length shard \<noteq> size then Inl ShardSize
          else Inr (map (\<lambda>row. fold (\<lambda>(k, shard) out. add_scaled out k shard) (zip row data)
                                    (replicate size 0))
                        (c_parity c)))"

section \<open>Recovery\<close>

type_synonym matrix = "u8 list list"

definition swap_rows :: "nat \<Rightarrow> nat \<Rightarrow> matrix \<Rightarrow> matrix" where
  "swap_rows i j m = m[i := m ! j, j := m ! i]"

definition scale_row :: "nat \<Rightarrow> u8 \<Rightarrow> u8 list \<Rightarrow> u8 list" where
  "scale_row n s row = map (\<lambda>c. mul (row ! c) s) [0..<n]"

definition cancel_row :: "nat \<Rightarrow> u8 \<Rightarrow> u8 list \<Rightarrow> u8 list \<Rightarrow> u8 list" where
  "cancel_row n factor prow row = map (\<lambda>c. row ! c XOR mul factor (prow ! c)) [0..<n]"

text \<open>One turn of the inner loop over \<open>r\<close>, and of the outer loop over \<open>col\<close>.\<close>

fun cancel :: "nat \<Rightarrow> nat \<Rightarrow> nat \<Rightarrow> matrix \<times> matrix \<Rightarrow> matrix \<times> matrix" where
  "cancel n col r (m, im) =
     (let factor = m ! r ! col
      in if r \<noteq> col \<and> factor \<noteq> 0
         then (m[r := cancel_row n factor (m ! col) (m ! r)],
               im[r := cancel_row n factor (im ! col) (im ! r)])
         else (m, im))"

fun invert_col :: "nat \<Rightarrow> nat \<Rightarrow> matrix \<times> matrix \<Rightarrow> (matrix \<times> matrix) option" where
  "invert_col n col (m, im) =
     (case find (\<lambda>r. m ! r ! col \<noteq> 0) [col..<n] of
        None \<Rightarrow> None
      | Some pivot \<Rightarrow>
          let m = swap_rows col pivot m; im = swap_rows col pivot im;
              scale = gf_inverse (m ! col ! col);
              m = m[col := scale_row n scale (m ! col)];
              im = im[col := scale_row n scale (im ! col)]
          in Some (fold (cancel n col) [0..<n] (m, im)))"

fun invert_cols :: "nat \<Rightarrow> nat list \<Rightarrow> matrix \<times> matrix \<Rightarrow> (matrix \<times> matrix) option" where
  "invert_cols n [] mi = Some mi"
| "invert_cols n (col # cols) mi =
     (case invert_col n col mi of None \<Rightarrow> None | Some mi' \<Rightarrow> invert_cols n cols mi')"

definition identity :: "nat \<Rightarrow> matrix" where
  "identity n = map (\<lambda>r. map (\<lambda>c. if r = c then 1 else 0) [0..<n]) [0..<n]"

definition recover :: "code \<Rightarrow> bytes option list \<Rightarrow> bytes list option" where
  "recover c got =
     (if length got \<noteq> shards c then None
      else if \<forall>s \<in> set (take (c_data c) got). s \<noteq> None
      then Some (map the (take (c_data c) got))
      else let present = take (c_data c) (filter (\<lambda>i. got ! i \<noteq> None) [0..<length got])
       in if length present < c_data c then None
          else let size = length (the (got ! (present ! 0)))
           in if \<exists>i \<in> set present. length (the (got ! i)) \<noteq> size then None
              else let n = c_data c
               in case invert_cols n [0..<n] (map (code_row c) present, identity n) of
                    None \<Rightarrow> None
                  | Some (_, im) \<Rightarrow> Some (map (\<lambda>d.
                      case got ! d of
                        Some shard \<Rightarrow> shard
                      | None \<Rightarrow> fold (\<lambda>(k, index) out. add_scaled out (im ! d ! k) (the (got ! index)))
                                     (enumerate 0 present) (replicate size 0)) [0..<n]))"

section \<open>Linear combinations of shards\<close>

lemma length_xor_scaled [simp]: "length (xor_scaled k xs bs) = length xs"
  by (induction k xs bs rule: xor_scaled.induct) auto

lemma length_add_scaled [simp]: "length (add_scaled out k shard) = length out"
  by (simp add: add_scaled_def)

lemma nth_xor_scaled:
  "length xs = length bs \<Longrightarrow> p < length xs \<Longrightarrow> xor_scaled k xs bs ! p = xs ! p XOR mul k (bs ! p)"
proof (induction k xs bs arbitrary: p rule: xor_scaled.induct)
  case (1 k x xs b bs)
  then show ?case by (cases p) auto
qed auto

lemma nth_add_scaled:
  "length out = length shard \<Longrightarrow> p < length out \<Longrightarrow>
     add_scaled out k shard ! p = out ! p XOR mul k (shard ! p)"
  by (simp add: add_scaled_def nth_xor_scaled)

text \<open>A fold of \<open>add_scaled\<close> adds the scaled shards up, byte by byte.\<close>

lemma length_fold_add_scaled [simp]:
  "length (fold (\<lambda>(k, shard) out. add_scaled out k shard) ks out) = length out"
  by (induction ks arbitrary: out) auto

lemma nth_fold_add_scaled:
  assumes "\<forall>(k, shard) \<in> set ks. length shard = length out" "p < length out"
  shows "Gf (fold (\<lambda>(k, shard) out. add_scaled out k shard) ks out ! p)
           = Gf (out ! p) + (\<Sum>(k, shard) \<leftarrow> ks. Gf k * Gf (shard ! p))"
  using assms
proof (induction ks arbitrary: out)
  case (Cons x ks)
  obtain k shard where x: "x = (k, shard)"
    by (cases x) auto
  with Cons.prems Cons.IH [of "add_scaled out k shard"] show ?case
    by (simp add: nth_add_scaled Gf_xor Gf_mul algebra_simps)
qed simp

lemma fold_add_scaled_sum:
  assumes len: "length ks = n" "length xs = n" and sz: "\<forall>s \<in> set xs. length s = z" "p < z"
  shows "Gf (fold (\<lambda>(k, shard) out. add_scaled out k shard) (zip ks xs) (replicate z 0) ! p)
           = (\<Sum>t<n. Gf (ks ! t) * Gf (xs ! t ! p))"
proof -
  have "Gf (fold (\<lambda>(k, shard) out. add_scaled out k shard) (zip ks xs) (replicate z 0) ! p)
      = (\<Sum>(k, shard) \<leftarrow> zip ks xs. Gf k * Gf (shard ! p))"
    using sz by (subst nth_fold_add_scaled) (auto dest: set_zip_rightD)
  also have "\<dots> = (\<Sum>t<n. Gf (ks ! t) * Gf (xs ! t ! p))"
    using len by (simp add: sum_list_sum_nth atLeast0LessThan)
  finally show ?thesis .
qed

section \<open>Gauss-Jordan: what the row operations keep\<close>

text \<open>
  \<open>reduces n m0 (m, w)\<close>: both matrices are \<open>n\<close> by \<open>n\<close>, the second times the
  original \<open>m0\<close> is the first, and every vector the first maps to zero the original maps
  to zero too.
\<close>

definition entry :: "matrix \<Rightarrow> nat \<Rightarrow> nat \<Rightarrow> gf" where
  "entry m r c = Gf (m ! r ! c)"

definition square :: "nat \<Rightarrow> matrix \<Rightarrow> bool" where
  "square n m \<longleftrightarrow> length m = n \<and> (\<forall>row \<in> set m. length row = n)"

definition kernel :: "nat \<Rightarrow> matrix \<Rightarrow> (nat \<Rightarrow> gf) \<Rightarrow> bool" where
  "kernel n m v \<longleftrightarrow> (\<forall>r<n. (\<Sum>c<n. entry m r c * v c) = 0)"

definition reduces :: "nat \<Rightarrow> matrix \<Rightarrow> matrix \<times> matrix \<Rightarrow> bool" where
  "reduces n m0 = (\<lambda>(m, w). square n m \<and> square n w
     \<and> (\<forall>r<n. \<forall>c<n. entry m r c = (\<Sum>t<n. entry w r t * entry m0 t c))
     \<and> (\<forall>v. kernel n m v \<longrightarrow> kernel n m0 v))"

lemma reducesD:
  assumes "reduces n m0 (m, w)"
  shows "length m = n" "length w = n" "r < n \<Longrightarrow> length (m ! r) = n" "r < n \<Longrightarrow> length (w ! r) = n"
    "r < n \<Longrightarrow> c < n \<Longrightarrow> entry m r c = (\<Sum>t<n. entry w r t * entry m0 t c)"
    "kernel n m v \<Longrightarrow> kernel n m0 v"
  using assms by (auto simp: reduces_def square_def)

lemma reduces_swap:
  assumes red: "reduces n m0 (m, w)" and ij: "i < n" "j < n"
  shows "reduces n m0 (swap_rows i j m, swap_rows i j w)"
proof -
  note d = reducesD [OF red]
  let ?s = "\<lambda>r. if r = j then i else if r = i then j else r"
  have nth: "swap_rows i j x ! r = x ! ?s r" if "length x = n" "r < n" for x r
    using that ij by (auto simp: swap_rows_def nth_list_update)
  have s_lt: "r < n \<Longrightarrow> ?s r < n" for r
    using ij by auto
  have entries: "entry (swap_rows i j x) r c = entry x (?s r) c" if "length x = n" "r < n" for x r c
    using that by (simp add: entry_def nth)
  have square: "square n (swap_rows i j x)" if "square n x" for x
    using that ij by (auto simp: square_def swap_rows_def dest!: set_update_subset_insert [THEN subsetD])
  have ker: "kernel n m v" if "kernel n (swap_rows i j m) v" for v
    unfolding kernel_def
  proof (intro allI impI)
    fix r assume r: "r < n"
    have "?s (?s r) = r" by auto
    moreover have "(\<Sum>c<n. entry (swap_rows i j m) (?s r) c * v c) = 0"
      using that s_lt [OF r] by (simp add: kernel_def)
    ultimately show "(\<Sum>c<n. entry m r c * v c) = 0"
      using entries [OF d(1) s_lt [OF r]] by simp
  qed
  show ?thesis
    using red square ker d(5) [OF s_lt] entries [OF d(1)] entries [OF d(2)]
    by (auto simp: reduces_def)
qed

lemma reduces_scale:
  assumes red: "reduces n m0 (m, w)" and i: "i < n" and s: "s \<noteq> 0"
  shows "reduces n m0 (m[i := scale_row n s (m ! i)], w[i := scale_row n s (w ! i)])"
proof -
  note d = reducesD [OF red]
  have entries: "entry (x[i := scale_row n s (x ! i)]) r c = (if r = i then Gf s else 1) * entry x r c"
    if "length x = n" "r < n" "c < n" for x r c
    using that i by (auto simp: entry_def scale_row_def nth_list_update Gf_mul mult.commute)
  have square: "square n (x[i := scale_row n s (x ! i)])" if "square n x" for x
    using that i by (auto simp: square_def scale_row_def dest!: set_update_subset_insert [THEN subsetD])
  have ker: "kernel n m v" if "kernel n (m[i := scale_row n s (m ! i)]) v" for v
    unfolding kernel_def
  proof (intro allI impI)
    fix r assume r: "r < n"
    have "(\<Sum>c<n. (if r = i then Gf s else 1) * entry m r c * v c)
        = (\<Sum>c<n. entry (m[i := scale_row n s (m ! i)]) r c * v c)"
      by (intro sum.cong refl) (simp add: entries [OF d(1) r])
    also have "\<dots> = 0"
      using that r by (simp add: kernel_def)
    finally have "(if r = i then Gf s else 1) * (\<Sum>c<n. entry m r c * v c) = 0"
      by (simp only: sum_distrib_left mult.assoc)
    then show "(\<Sum>c<n. entry m r c * v c) = 0"
      using s by (auto split: if_splits)
  qed
  have "entry (m[i := scale_row n s (m ! i)]) r c
      = (\<Sum>t<n. entry (w[i := scale_row n s (w ! i)]) r t * entry m0 t c)" if "r < n" "c < n" for r c
    using that d(5) [OF that] entries [OF d(1)] entries [OF d(2)]
    by (simp add: sum_distrib_left mult.assoc)
  then show ?thesis
    using red square ker d(6) by (auto simp: reduces_def)
qed

lemma reduces_cancel_row:
  assumes red: "reduces n m0 (m, w)" and i: "i < n" "p < n" "p \<noteq> i"
  shows "reduces n m0 (m[i := cancel_row n f (m ! p) (m ! i)], w[i := cancel_row n f (w ! p) (w ! i)])"
proof -
  note d = reducesD [OF red]
  let ?u = "\<lambda>x. x[i := cancel_row n f (x ! p) (x ! i)]"
  let ?g = "\<lambda>r. if r = i then Gf f else 0"
  have entries: "entry (?u x) r c = entry x r c + ?g r * entry x p c"
    if "length x = n" "r < n" "c < n" for x r c
    using that i by (auto simp: entry_def cancel_row_def nth_list_update Gf_mul Gf_xor)
  have square: "square n (?u x)" if "square n x" for x
    using that i by (auto simp: square_def cancel_row_def dest!: set_update_subset_insert [THEN subsetD])
  have ker: "kernel n m v" if k: "kernel n (?u m) v" for v
  proof -
    have row: "(\<Sum>c<n. entry m r c * v c) + ?g r * (\<Sum>c<n. entry m p c * v c) = 0" if "r < n" for r
      using k that
      by (simp add: kernel_def entries [OF d(1)] distrib_right sum.distrib sum_distrib_left mult.assoc)
    have "(\<Sum>c<n. entry m p c * v c) = 0"
      using row [OF i(2)] i(3) by simp
    with row show ?thesis
      by (simp add: kernel_def)
  qed
  have "entry (?u m) r c = (\<Sum>t<n. entry (?u w) r t * entry m0 t c)" if "r < n" "c < n" for r c
    using that i d(5) entries [OF d(1)] entries [OF d(2)]
    by (simp add: distrib_right sum.distrib sum_distrib_left mult.assoc)
  then show ?thesis
    using red square ker d(6) by (auto simp: reduces_def)
qed

section \<open>Gauss-Jordan: the columns become unit columns\<close>

definition unit_cols :: "nat \<Rightarrow> nat \<Rightarrow> matrix \<Rightarrow> bool" where
  "unit_cols n k m \<longleftrightarrow> (\<forall>r<n. \<forall>c<k. m ! r ! c = (if r = c then 1 else 0))"

text \<open>The state of the inner loop after its turns for the rows below \<open>k\<close>.\<close>

definition cancelled :: "nat \<Rightarrow> matrix \<Rightarrow> nat \<Rightarrow> nat \<Rightarrow> matrix \<times> matrix \<Rightarrow> bool" where
  "cancelled n m0 col k mi \<longleftrightarrow> reduces n m0 mi \<and> unit_cols n col (fst mi)
     \<and> fst mi ! col ! col = 1 \<and> (\<forall>r<k. r \<noteq> col \<longrightarrow> fst mi ! r ! col = 0)"

lemma cancel_step:
  assumes "cancelled n m0 col k mi" "k < n" "col < n"
  shows "cancelled n m0 col (Suc k) (cancel n col k mi)"
proof -
  obtain m w where mi: "mi = (m, w)" by (cases mi)
  have red: "reduces n m0 (m, w)" and unit: "unit_cols n col m" and one: "m ! col ! col = 1"
    and zero: "\<And>r. r < k \<Longrightarrow> r \<noteq> col \<Longrightarrow> m ! r ! col = 0"
    using assms by (auto simp: cancelled_def mi)
  show ?thesis
  proof (cases "k \<noteq> col \<and> m ! k ! col \<noteq> 0")
    case True
    let ?m = "m[k := cancel_row n (m ! k ! col) (m ! col) (m ! k)]"
    have "reduces n m0 (cancel n col k mi)"
      using reduces_cancel_row [OF red assms(2) assms(3)] True by (simp add: mi Let_def)
    moreover have "unit_cols n col ?m"
      using unit assms(2,3) reducesD(1) [OF red]
      by (auto simp: unit_cols_def nth_list_update cancel_row_def)
    moreover have "?m ! col ! col = 1" "\<forall>r<Suc k. r \<noteq> col \<longrightarrow> ?m ! r ! col = 0"
      using True one zero assms(2,3) reducesD(1) [OF red]
      by (auto simp: nth_list_update cancel_row_def less_Suc_eq mul_commute [of _ 1])
    ultimately show ?thesis
      using True by (simp add: cancelled_def mi Let_def)
  next
    case False
    then show ?thesis
      using red unit one zero by (auto simp: cancelled_def mi Let_def less_Suc_eq)
  qed
qed

lemma cancel_fold:
  assumes "cancelled n m0 col 0 mi" "col < n"
  shows "cancelled n m0 col n (fold (cancel n col) [0..<n] mi)"
proof -
  have "k \<le> n \<Longrightarrow> cancelled n m0 col k (fold (cancel n col) [0..<k] mi)" for k
  proof (induction k)
    case (Suc k)
    then show ?case
      using cancel_step [of n m0 col k] assms(2) by simp
  qed (use assms in simp)
  then show ?thesis by simp
qed

lemma invert_col_Some:
  assumes red: "reduces n m0 (m, w)" and unit: "unit_cols n col m" and col: "col < n"
    and res: "invert_col n col (m, w) = Some mi"
  shows "reduces n m0 mi \<and> unit_cols n (Suc col) (fst mi)"
proof -
  obtain p where p: "find (\<lambda>r. m ! r ! col \<noteq> 0) [col..<n] = Some p"
    using res by (auto split: option.splits)
  then have piv: "m ! p ! col \<noteq> 0" "col \<le> p" "p < n"
    by (auto simp: find_Some_iff)
  let ?m = "swap_rows col p m" and ?w = "swap_rows col p w"
  let ?s = "gf_inverse (?m ! col ! col)"
  let ?m2 = "?m[col := scale_row n ?s (?m ! col)]" and ?w2 = "?w[col := scale_row n ?s (?w ! col)]"
  have len: "length m = n"
    by (rule reducesD(1) [OF red])
  have pivot: "?m ! col = m ! p"
    using col piv len by (auto simp: swap_rows_def nth_list_update)
  have "?s \<noteq> 0"
    using mul_inverse [of "m ! p ! col"] piv by (auto simp: pivot)
  then have red2: "reduces n m0 (?m2, ?w2)"
    using reduces_scale [OF reduces_swap [OF red col piv(3)] col] by blast
  have unit1: "unit_cols n col ?m"
    using unit col piv len by (auto simp: unit_cols_def swap_rows_def nth_list_update)
  have unit2: "unit_cols n col ?m2"
    using unit1 col len by (auto simp: unit_cols_def nth_list_update scale_row_def swap_rows_def)
  have one: "?m2 ! col ! col = 1"
    using col len piv
    by (simp add: scale_row_def pivot mul_inverse) (simp add: swap_rows_def scale_row_def mul_inverse)
  have "cancelled n m0 col 0 (?m2, ?w2)"
    using red2 unit2 one by (simp add: cancelled_def)
  then have "cancelled n m0 col n (fold (cancel n col) [0..<n] (?m2, ?w2))"
    using col by (rule cancel_fold)
  moreover have "mi = fold (cancel n col) [0..<n] (?m2, ?w2)"
    using res p by (simp add: Let_def)
  ultimately show ?thesis
    by (auto simp: cancelled_def unit_cols_def less_Suc_eq)
qed

text \<open>With a trivial kernel there is always a pivot: a column without one gives a kernel vector.\<close>

lemma invert_col_pivot:
  assumes red: "reduces n m0 (m, w)" and unit: "unit_cols n col m" and col: "col < n"
    and triv: "\<And>v. kernel n m0 v \<Longrightarrow> \<forall>c<n. v c = 0"
  shows "invert_col n col (m, w) \<noteq> None"
proof
  assume "invert_col n col (m, w) = None"
  then have none: "m ! r ! col = 0" if "col \<le> r" "r < n" for r
    using that by (auto simp: find_None_iff Let_def split: option.splits)
  define v where "v c = (if c < col then entry m c col else if c = col then 1 else 0)" for c
  have "(\<Sum>c<n. entry m r c * v c) = 0" if r: "r < n" for r
  proof -
    have "(\<Sum>c<n. entry m r c * v c) = (\<Sum>c \<in> {r, col}. entry m r c * v c)"
      using r col unit by (intro sum.mono_neutral_right) (auto simp: v_def entry_def unit_cols_def)
    also have "\<dots> = 0"
    proof (cases "r < col")
      case True
      then have "entry m r r = 1"
        using unit r by (simp add: entry_def unit_cols_def)
      with True show ?thesis by (simp add: v_def)
    next
      case False
      then show ?thesis
        using none [of r] r by (cases "r = col") (simp_all add: v_def entry_def)
    qed
    finally show ?thesis .
  qed
  then have "kernel n m0 v"
    using reducesD(6) [OF red] by (simp add: kernel_def)
  from triv [OF this] col show False
    by (auto simp: v_def)
qed

lemma invert_cols_Some:
  assumes "reduces n m0 mi" "unit_cols n col (fst mi)" "col \<le> n"
    "invert_cols n [col..<n] mi = Some mi'"
  shows "reduces n m0 mi' \<and> unit_cols n n (fst mi')"
  using assms
proof (induction "n - col" arbitrary: col mi)
  case 0
  then show ?case by simp
next
  case (Suc k)
  obtain m w where mi: "mi = (m, w)" by (cases mi)
  from Suc.hyps(2) have col: "col < n" by simp
  with Suc.prems(4) obtain mi1 where 1: "invert_col n col mi = Some mi1"
    and rest: "invert_cols n [Suc col..<n] mi1 = Some mi'"
    by (auto simp: upt_conv_Cons split: option.splits)
  have "reduces n m0 mi1 \<and> unit_cols n (Suc col) (fst mi1)"
    using invert_col_Some Suc.prems(1,2) 1 col by (simp add: mi)
  with Suc.hyps rest col show ?case
    by (intro Suc.hyps(1) [of "Suc col" mi1]) auto
qed

lemma invert_cols_complete:
  assumes "reduces n m0 mi" "unit_cols n col (fst mi)" "col \<le> n"
    and triv: "\<And>v. kernel n m0 v \<Longrightarrow> \<forall>c<n. v c = 0"
  shows "invert_cols n [col..<n] mi \<noteq> None"
  using assms
proof (induction "n - col" arbitrary: col mi)
  case (Suc k)
  obtain m w where mi: "mi = (m, w)" by (cases mi)
  from Suc.hyps(2) have col: "col < n" by simp
  obtain mi1 where 1: "invert_col n col mi = Some mi1"
    using invert_col_pivot [of n m0 m w col] Suc.prems col by (auto simp: mi simp del: invert_col.simps)
  have "reduces n m0 mi1 \<and> unit_cols n (Suc col) (fst mi1)"
    using invert_col_Some Suc.prems(1,2) 1 col by (simp add: mi)
  then have "invert_cols n [Suc col..<n] mi1 \<noteq> None"
    using Suc col by (intro Suc.hyps(1) [of "Suc col" mi1]) auto
  with 1 col show ?case
    by (simp add: upt_conv_Cons del: invert_col.simps)
qed simp

lemma sum_unit_row:
  fixes r n :: nat
  assumes "r < n"
  shows "(\<Sum>t<n. (if r = t then 1 else 0) * f t) = (f r :: gf)"
proof -
  have "(\<Sum>t<n. (if r = t then 1 else 0) * f t) = (\<Sum>t<n. if r = t then f t else 0)"
    by (intro sum.cong) auto
  with \<open>r < n\<close> show ?thesis by simp
qed

lemma reduces_start: "square n m0 \<Longrightarrow> reduces n m0 (m0, identity n)"
  by (auto simp: reduces_def square_def identity_def entry_def if_distrib [of Gf] sum_unit_row
      cong: if_cong)

text \<open>The inverse applied to what the rows make of a vector gives the vector.\<close>

lemma invert_cols_solves:
  assumes "square n m0" "invert_cols n [0..<n] (m0, identity n) = Some (m, w)"
    and y: "\<And>t. t < n \<Longrightarrow> y t = (\<Sum>c<n. entry m0 t c * v c)" and d: "d < n"
  shows "(\<Sum>t<n. entry w d t * y t) = v d"
proof -
  have red: "reduces n m0 (m, w)" and unit: "unit_cols n n m"
    using invert_cols_Some [of n m0 "(m0, identity n)" 0 "(m, w)"] reduces_start assms(1,2)
    by (auto simp: unit_cols_def)
  have "(\<Sum>t<n. entry w d t * y t) = (\<Sum>t<n. \<Sum>c<n. entry w d t * entry m0 t c * v c)"
    by (intro sum.cong refl) (simp add: y sum_distrib_left mult.assoc)
  also have "\<dots> = (\<Sum>c<n. (\<Sum>t<n. entry w d t * entry m0 t c) * v c)"
    by (subst sum.swap) (simp add: sum_distrib_right)
  also have "\<dots> = (\<Sum>c<n. (if d = c then 1 else 0) * v c)"
  proof (intro sum.cong refl)
    fix c assume "c \<in> {..<n}"
    then show "(\<Sum>t<n. entry w d t * entry m0 t c) * v c = (if d = c then 1 else 0) * v c"
      using unit d
      by (simp add: reducesD(5) [OF red d, symmetric]) (simp add: unit_cols_def entry_def)
  qed
  finally show ?thesis
    using d by (simp add: sum_unit_row)
qed

section \<open>Recovery returns the encoded data\<close>

text \<open>The shards that arrive of a codeword: each is missing or is the shard that was sent.\<close>

definition received :: "bytes list \<Rightarrow> bytes option list \<Rightarrow> bool" where
  "received sent got \<longleftrightarrow> length got = length sent
     \<and> (\<forall>i<length sent. got ! i = None \<or> got ! i = Some (sent ! i))"

lemma received_Some:
  "received sent got \<Longrightarrow> i < length sent \<Longrightarrow> got ! i \<noteq> None \<Longrightarrow> got ! i = Some (sent ! i)"
  by (auto simp: received_def)

definition arrived :: "bytes option list \<Rightarrow> nat" where
  "arrived got = length (filter (\<lambda>s. s \<noteq> None) got)"

lemma encode_Inr:
  assumes "encode c data = Inr par"
  shows "length data = c_data c" "\<forall>s \<in> set data. length s = length (data ! 0)"
    "length par = length (c_parity c)"
    "j < length par \<Longrightarrow> par ! j = fold (\<lambda>(k, shard) out. add_scaled out k shard)
       (zip (c_parity c ! j) data) (replicate (length (data ! 0)) 0)"
  using assms by (auto simp: encode_def Let_def split: if_splits)

lemma code_row_length: "code_ok c \<Longrightarrow> i < shards c \<Longrightarrow> length (code_row c i) = c_data c"
  by (auto simp: code_ok_def code_row_def shards_def)

text \<open>Every shard of a codeword, data or parity, is its row of the matrix times the data.\<close>

lemma codeword_shard:
  assumes ok: "code_ok c" and enc: "encode c data = Inr par" and i: "i < shards c"
  shows "length ((data @ par) ! i) = length (data ! 0)"
    and "p < length (data ! 0) \<Longrightarrow>
      Gf ((data @ par) ! i ! p) = (\<Sum>t<c_data c. Gf (code_row c i ! t) * Gf (data ! t ! p))"
proof -
  note e = encode_Inr [OF enc]
  have pos: "0 < c_data c"
    using ok by (simp add: code_ok_def)
  let ?j = "i - c_data c"
  have par: "(data @ par) ! i = fold (\<lambda>(k, shard) out. add_scaled out k shard)
      (zip (c_parity c ! ?j) data) (replicate (length (data ! 0)) 0)" if "\<not> i < c_data c"
  proof -
    have "?j < length par"
      using that i e(3) by (simp add: shards_def)
    then show ?thesis
      using that e(1) e(4) [of ?j] by (simp add: nth_append)
  qed
  show "length ((data @ par) ! i) = length (data ! 0)"
  proof (cases "i < c_data c")
    case True
    then have "data ! i \<in> set data"
      using e(1) by simp
    then have "length (data ! i) = length (data ! 0)"
      using e(2) by blast
    with True e(1) show ?thesis by (simp add: nth_append)
  next
    case False
    then show ?thesis by (simp add: par)
  qed
  assume p: "p < length (data ! 0)"
  show "Gf ((data @ par) ! i ! p) = (\<Sum>t<c_data c. Gf (code_row c i ! t) * Gf (data ! t ! p))"
  proof (cases "i < c_data c")
    case True
    have "(\<Sum>t<c_data c. Gf (code_row c i ! t) * Gf (data ! t ! p))
        = (\<Sum>t<c_data c. (if i = t then 1 else 0) * Gf (data ! t ! p))"
      using True by (intro sum.cong refl) (auto simp: code_row_def nth_list_update)
    with True e(1) show ?thesis
      by (simp add: sum_unit_row nth_append)
  next
    case False
    then have "length (c_parity c ! ?j) = c_data c"
      using ok i by (simp add: code_ok_def shards_def)
    from fold_add_scaled_sum [OF this e(1,2) p] False show ?thesis
      by (simp only: par code_row_def if_False not_False_eq_True)
  qed
qed

definition present_shards :: "code \<Rightarrow> bytes option list \<Rightarrow> nat list" where
  "present_shards c got = take (c_data c) (filter (\<lambda>i. got ! i \<noteq> None) [0..<length got])"

lemma present_shards_props:
  shows "distinct (present_shards c got)"
    and "i \<in> set (present_shards c got) \<Longrightarrow> i < length got \<and> got ! i \<noteq> None"
    and "length (present_shards c got) = min (c_data c) (arrived got)"
proof -
  show "distinct (present_shards c got)"
    by (simp add: present_shards_def)
  show "i < length got \<and> got ! i \<noteq> None" if "i \<in> set (present_shards c got)"
    using that by (auto simp: present_shards_def dest: in_set_takeD)
  have "length (filter (\<lambda>i. got ! i \<noteq> None) [0..<length got]) = arrived got"
    unfolding arrived_def
    by (subst (3) map_nth [symmetric]) (simp add: filter_map comp_def)
  then show "length (present_shards c got) = min (c_data c) (arrived got)"
    by (simp add: present_shards_def min.commute)
qed

definition solve_missing :: "code \<Rightarrow> bytes option list \<Rightarrow> matrix \<Rightarrow> nat \<Rightarrow> bytes" where
  "solve_missing c got w d =
     fold (\<lambda>(k, index) out. add_scaled out (w ! d ! k) (the (got ! index)))
       (enumerate 0 (present_shards c got))
       (replicate (length (the (got ! (present_shards c got ! 0)))) 0)"

definition uneven :: "code \<Rightarrow> bytes option list \<Rightarrow> bool" where
  "uneven c got \<longleftrightarrow> (\<exists>i \<in> set (present_shards c got).
     length (the (got ! i)) \<noteq> length (the (got ! (present_shards c got ! 0))))"

text \<open>\<open>recover\<close> with its intermediate values named.\<close>

lemma recover_eq:
  "recover c got =
     (if length got \<noteq> shards c then None
      else if \<forall>s \<in> set (take (c_data c) got). s \<noteq> None
      then Some (map the (take (c_data c) got))
      else if length (present_shards c got) < c_data c then None
      else if uneven c got then None
      else map_option (\<lambda>(_, w). map (\<lambda>d. case got ! d of
          Some shard \<Rightarrow> shard | None \<Rightarrow> solve_missing c got w d) [0..<c_data c])
        (invert_cols (c_data c) [0..<c_data c]
          (map (code_row c) (present_shards c got), identity (c_data c))))"
  unfolding recover_def present_shards_def solve_missing_def uneven_def Let_def
  by (auto split: option.split)

lemma present_row_square:
  assumes "code_ok c" "length got = shards c" "c_data c \<le> arrived got"
  shows "square (c_data c) (map (code_row c) (present_shards c got))"
  using assms present_shards_props(2,3) [where c = c and got = got] code_row_length [OF assms(1)]
  by (force simp: square_def)

text \<open>A missing data shard is solved for from the shards that are present.\<close>

lemma solve_missing_correct:
  assumes ok: "code_ok c" and enc: "encode c data = Inr par"
    and got: "received (data @ par) got" and many: "c_data c \<le> arrived got"
    and inverted: "invert_cols (c_data c) [0..<c_data c]
      (map (code_row c) (present_shards c got), identity (c_data c)) = Some (m, w)"
    and d: "d < c_data c"
  shows "solve_missing c got w d = data ! d"
proof -
  note e = encode_Inr [OF enc]
  let ?n = "c_data c" and ?pr = "present_shards c got" and ?z = "length (data ! 0)"
  let ?xs = "map (\<lambda>i. the (got ! i)) ?pr"
  have len: "length got = shards c"
    using got e by (auto simp: received_def shards_def)
  have lenp: "length ?pr = ?n"
    using many present_shards_props(3) [of c got] by simp
  have sq: "square ?n (map (code_row c) ?pr)"
    using ok len many by (rule present_row_square)
  have shard: "?xs ! t = (data @ par) ! (?pr ! t)" "?pr ! t < shards c" if "t < ?n" for t
  proof -
    have "?pr ! t \<in> set ?pr"
      using that lenp by simp
    then have "?pr ! t < length got" "got ! (?pr ! t) \<noteq> None"
      using present_shards_props(2) by blast+
    then show "?xs ! t = (data @ par) ! (?pr ! t)" "?pr ! t < shards c"
      using got len that lenp by (auto simp: received_def)
  qed
  have xs_len: "\<forall>s \<in> set ?xs. length s = ?z"
    using shard codeword_shard(1) [OF ok enc] lenp by (auto simp: in_set_conv_nth)
  have "0 < ?n"
    using ok by (simp add: code_ok_def)
  then have z: "length (the (got ! (?pr ! 0))) = ?z"
    using xs_len lenp by (metis length_map nth_map nth_mem)
  have red: "reduces ?n (map (code_row c) ?pr) (m, w)"
    using invert_cols_Some [of ?n _ "(map (code_row c) ?pr, identity ?n)" 0 "(m, w)"]
      reduces_start [OF sq] inverted by (auto simp: unit_cols_def)
  have lenw: "length (w ! d) = ?n"
    using reducesD(4) [OF red d] .
  have pairs: "zip (w ! d) ?xs = map (\<lambda>(k, index). (w ! d ! k, the (got ! index))) (enumerate 0 ?pr)"
    using lenw lenp by (intro nth_equalityI) (auto simp: nth_enumerate_eq)
  have out: "solve_missing c got w d
      = fold (\<lambda>(k, shard) out. add_scaled out k shard) (zip (w ! d) ?xs) (replicate ?z 0)"
    using z by (simp add: pairs solve_missing_def fold_map comp_def case_prod_unfold)
  show ?thesis
  proof (rule nth_equalityI)
    have "data ! d \<in> set data"
      using d e(1) by simp
    then have dz: "length (data ! d) = ?z"
      using e(2) by blast
    then show "length (solve_missing c got w d) = length (data ! d)"
      by (simp add: out)
    fix p assume "p < length (solve_missing c got w d)"
    then have p: "p < ?z"
      by (simp add: out)
    have "Gf (solve_missing c got w d ! p) = (\<Sum>t<?n. entry w d t * Gf (?xs ! t ! p))"
      using fold_add_scaled_sum [OF lenw _ xs_len p] lenp by (simp add: out entry_def)
    also have "\<dots> = Gf (data ! d ! p)"
    proof (rule invert_cols_solves [OF sq inverted _ d])
      fix t assume t: "t < ?n"
      show "Gf (?xs ! t ! p) = (\<Sum>k<?n. entry (map (code_row c) ?pr) t k * Gf (data ! k ! p))"
        using t lenp shard [OF t] codeword_shard(2) [OF ok enc shard(2) [OF t] p]
        by (simp add: entry_def)
    qed
    finally show "solve_missing c got w d ! p = data ! d ! p"
      by simp
  qed
qed

lemma received_nth:
  assumes "received (data @ par) got" "length data = n" "i < n" "got ! i = Some s"
  shows "s = data ! i"
proof -
  have "i < length (data @ par)"
    using assms(2,3) by simp
  then have "got ! i = None \<or> got ! i = Some ((data @ par) ! i)"
    using assms(1) unfolding received_def by blast
  with assms(2-4) show ?thesis
    by (simp add: nth_append)
qed

text \<open>
  Soundness: for any code whose parity the sender computed, a shard list that agrees with the
  codeword is recovered to the data, whenever it is recovered at all.
\<close>

lemma recover_sound:
  assumes ok: "code_ok c" and enc: "encode c data = Inr par"
    and got: "received (data @ par) got" and res: "recover c got = Some out"
  shows "out = data"
proof -
  let ?n = "c_data c"
  have n: "length data = ?n" "?n \<le> length got"
    using encode_Inr [OF enc] got by (auto simp: received_def)
  show ?thesis
  proof (cases "\<forall>s \<in> set (take ?n got). s \<noteq> None")
    case True
    then have out: "out = map the (take ?n got)"
      using res by (simp add: recover_eq split: if_splits)
    have "out ! i = data ! i" if "i < ?n" for i
    proof -
      have "take ?n got ! i \<in> set (take ?n got)"
        using that n(2) by (intro nth_mem) simp
      with True that obtain s where s: "got ! i = Some s"
        by auto
      from received_nth [OF got n(1) that s] s that n(2) show ?thesis
        by (simp add: out)
    qed
    then show ?thesis
      using n out by (intro nth_equalityI) auto
  next
    case False
    with res obtain m w where
      many: "\<not> length (present_shards c got) < ?n" and
      inverted: "invert_cols ?n [0..<?n] (map (code_row c) (present_shards c got), identity ?n) = Some (m, w)"
      and out: "out = map (\<lambda>d. case got ! d of Some shard \<Rightarrow> shard
          | None \<Rightarrow> solve_missing c got w d) [0..<?n]"
      by (auto simp: recover_eq simp del: invert_cols.simps split: if_splits)
    have "?n \<le> arrived got"
      using many present_shards_props(3) [of c got] by simp
    from solve_missing_correct [OF ok enc got this inverted] received_nth [OF got n(1)]
    have "out ! d = data ! d" if "d < ?n" for d
      using that by (auto simp: out split: option.splits)
    then show ?thesis
      using n out by (intro nth_equalityI) auto
  qed
qed

end
