(* ===== verification/Fec_Cauchy.thy ===== *)
theory Fec_Cauchy
  imports Fec_Code
begin

unbundle bit_operations_syntax

text \<open>
  Cauchy codes of \<open>fec/src/lib.rs\<close> recover from every loss their parity covers: the rows
  of any \<open>k\<close> shards of a \<open>k + m\<close> code are independent (unit rows and Cauchy rows
  mixed), so the Gauss-Jordan inversion of \<open>Fec_Code\<close> always finds its pivots. The
  interface the transport relies on is the locale \<open>erasure_code\<close>, interpreted here on the
  model of \<open>Code::cauchy\<close>, \<open>encode\<close> and \<open>recover\<close>.
\<close>

section \<open>Square Cauchy matrices are invertible\<close>

lemma cauchy_independent_step:
  fixes f :: "'a::field \<Rightarrow> 'a"
  assumes S: "finite S" "y0 \<in> S" and x: "x + y0 \<noteq> 0" "\<forall>y\<in>S. x + y \<noteq> 0"
    and zero: "(\<Sum>y\<in>S. f y / (x + y)) = 0"
  shows "(\<Sum>y\<in>S. f y) + (\<Sum>y\<in>S - {y0}. f y * (y0 - y) / (x + y)) = 0"
proof -
  have "(\<Sum>y\<in>S. f y) + (\<Sum>y\<in>S - {y0}. f y * (y0 - y) / (x + y))
      = (\<Sum>y\<in>S. f y) + (\<Sum>y\<in>S. f y * (y0 - y) / (x + y))"
    using S by (subst (2) sum.remove [of S y0]) auto
  also have "\<dots> = (\<Sum>y\<in>S. (x + y0) * (f y / (x + y)))"
    unfolding sum.distrib [symmetric]
  proof (intro sum.cong refl)
    fix y assume "y \<in> S"
    with x(2) have "x + y \<noteq> 0" by blast
    then have "f y = f y * (x + y) / (x + y)" by simp
    then show "f y + f y * (y0 - y) / (x + y) = (x + y0) * (f y / (x + y))"
      using \<open>x + y \<noteq> 0\<close> by (simp add: divide_simps) (simp add: algebra_simps)
  qed
  also have "\<dots> = (x + y0) * (\<Sum>y\<in>S. f y / (x + y))"
    by (rule sum_distrib_left [symmetric])
  also have "\<dots> = 0"
    by (simp only: zero) simp
  finally show ?thesis .
qed

lemma cauchy_independent:
  fixes f :: "'a::field \<Rightarrow> 'a"
  assumes "finite S" "finite P" "card S = card P" "\<forall>x\<in>P. \<forall>y\<in>S. x + y \<noteq> 0"
    and "\<forall>x\<in>P. (\<Sum>y\<in>S. f y / (x + y)) = 0"
  shows "\<forall>y\<in>S. f y = 0"
  using assms
proof (induction "card S" arbitrary: S P f)
  case 0
  then show ?case by simp
next
  case (Suc n)
  then obtain y0 x0 where y0: "y0 \<in> S" and x0: "x0 \<in> P"
    by (metis card.empty ex_in_conv nat.distinct(1))
  let ?g = "\<lambda>y. f y * (y0 - y)"
  let ?S = "S - {y0}" and ?P = "P - {x0}"
  have step: "(\<Sum>y\<in>S. f y) + (\<Sum>y\<in>?S. ?g y / (x + y)) = 0" if "x \<in> P" for x
    using that Suc.prems y0 by (intro cauchy_independent_step) auto
  have "(\<Sum>y\<in>?S. (?g y / (x0 + y)) / (x + y)) = 0" if x: "x \<in> ?P" for x
  proof -
    have ne: "x0 - x \<noteq> 0"
      using x by auto
    have "(\<Sum>y\<in>S. f y) + (\<Sum>y\<in>?S. ?g y / (x + y)) = (\<Sum>y\<in>S. f y) + (\<Sum>y\<in>?S. ?g y / (x0 + y))"
      using step [of x] step [OF x0] x by simp
    then have "(\<Sum>y\<in>?S. ?g y / (x + y)) = (\<Sum>y\<in>?S. ?g y / (x0 + y))"
      by (rule add_left_imp_eq)
    then have "(\<Sum>y\<in>?S. ?g y / (x + y) - ?g y / (x0 + y)) = 0"
      by (simp add: sum_subtractf)
    moreover have "(x0 - x) * (\<Sum>y\<in>?S. (?g y / (x0 + y)) / (x + y))
        = (\<Sum>y\<in>?S. ?g y / (x + y) - ?g y / (x0 + y))"
      unfolding sum_distrib_left
    proof (intro sum.cong refl)
      fix y assume y: "y \<in> ?S"
      have "x + y \<noteq> 0" "x0 + y \<noteq> 0"
        using y x x0 Suc.prems(4) by auto
      then show "(x0 - x) * ((?g y / (x0 + y)) / (x + y)) = ?g y / (x + y) - ?g y / (x0 + y)"
        by (simp add: divide_simps) (simp add: algebra_simps)
    qed
    ultimately have "(x0 - x) * (\<Sum>y\<in>?S. (?g y / (x0 + y)) / (x + y)) = 0"
      by (simp only:)
    with ne show ?thesis
      by (metis mult_eq_0_iff)
  qed
  moreover have "n = card ?S" "card ?S = card ?P"
    using Suc.hyps(2) Suc.prems(1-3) y0 x0 by simp_all
  ultimately have "\<forall>y\<in>?S. ?g y / (x0 + y) = 0"
    using Suc.prems by (intro Suc.hyps(1) [of ?S ?P]) auto
  then have rest: "\<forall>y\<in>?S. f y = 0"
    using Suc.prems(4) x0 by fastforce
  have "(\<Sum>y\<in>S. f y / (x0 + y)) = f y0 / (x0 + y0)"
    using Suc.prems(1) y0 rest by (subst sum.remove [of S y0]) auto
  then have "f y0 = 0"
    using Suc.prems(4,5) x0 y0 by (metis divide_eq_0_iff)
  with rest show ?case
    by blast
qed

section \<open>Any \<open>k\<close> rows of a Cauchy code are independent\<close>

lemma cauchy_Inr:
  assumes "cauchy k m = Inr c"
  shows "0 < k" "k + m \<le> 256" "c_data c = k" "length (c_parity c) = m" "shards c = k + m" "code_ok c"
    "j < m \<Longrightarrow> i < k \<Longrightarrow> c_parity c ! j ! i = gf_inverse (of_nat ((k + j) XOR i))"
  using assms by (auto simp: cauchy_def code_ok_def shards_def split: if_splits)

definition pt :: "nat \<Rightarrow> gf" where
  "pt i = Gf (of_nat i)"

lemma pt_inj: "inj_on pt {..<256}"
  by (auto simp: inj_on_def pt_def word_unat_eq_iff unat_of_nat take_bit_nat_eq_self_iff)

lemma pt_xor: "Gf (of_nat (a XOR b)) = pt a + pt b"
proof -
  have "(of_nat (a XOR b) :: u8) = of_nat a XOR of_nat b"
    by (rule bit_word_eqI) (simp add: bit_simps)
  then show ?thesis
    by (simp add: pt_def Gf_xor)
qed

lemma pt_add_nonzero: "a < 256 \<Longrightarrow> b < 256 \<Longrightarrow> a \<noteq> b \<Longrightarrow> pt a + pt b \<noteq> 0"
  using pt_inj by (auto simp: gf_add_eq_0 inj_on_def)

lemma cauchy_row_entry:
  assumes c: "cauchy k m = Inr c" and "k \<le> t" "t < k + m" "i < k"
  shows "Gf (code_row c t ! i) = 1 / (pt t + pt i)"
proof -
  have t: "t - k < m" "k + (t - k) = t" "t \<noteq> i" "t < 256" "i < 256"
    using assms cauchy_Inr(1,2) [OF c] by auto
  then have ne: "(of_nat (t XOR i) :: u8) \<noteq> 0"
    using pt_add_nonzero [of t i] pt_xor [of t i] by auto
  have "code_row c t ! i = gf_inverse (of_nat (t XOR i))"
    using assms t(1,2) cauchy_Inr(3) [OF c] cauchy_Inr(7) [OF c t(1)] by (simp add: code_row_def)
  then show ?thesis
    using ne by (simp add: Gf_inverse pt_xor inverse_eq_divide)
qed

lemma cauchy_kernel:
  assumes c: "cauchy k m = Inr c" and pr: "distinct pr" "length pr = k" "\<forall>t\<in>set pr. t < k + m"
    and ker: "kernel k (map (code_row c) pr) v"
  shows "\<forall>i<k. v i = 0"
proof -
  note cc = cauchy_Inr [OF c]
  have row0: "(\<Sum>i<k. Gf (code_row c t ! i) * v i) = 0" if "t \<in> set pr" for t
    using ker that pr(2) by (auto simp: kernel_def entry_def in_set_conv_nth)
  let ?A = "set pr \<inter> {..<k}" and ?P = "set pr - {..<k}" and ?S = "{..<k} - set pr"
  have dataz: "v i = 0" if "i \<in> ?A" for i
  proof -
    have "(\<Sum>t<k. (if i = t then 1 else 0) * v t) = (\<Sum>t<k. Gf (code_row c i ! t) * v t)"
      using that cc(3) by (intro sum.cong refl) (auto simp: code_row_def nth_list_update)
    then have "(\<Sum>t<k. (if i = t then 1 else 0) * v t) = 0"
      using row0 [of i] that by simp
    with that show ?thesis by (simp add: sum_unit_row)
  qed
  have cards: "card ?S = card ?P"
  proof -
    have "card ?A + card ?P = k" "card ?A + card ?S = k"
      using pr(1,2) card_Int_Diff [of "set pr" "{..<k}"] card_Int_Diff [of "{..<k}" "set pr"]
      by (simp_all add: distinct_card Int_commute)
    then show ?thesis by simp
  qed
  have inj: "inj_on pt ?S" "inj_on pt ?P"
    using cc(2) pr(3) by (auto intro!: inj_on_subset [OF pt_inj])
  define f where "f y = v (the_inv_into {..<256} pt y)" for y
  have f: "f (pt i) = v i" if "i < k" for i
    using that cc(2) the_inv_into_f_f [OF pt_inj, of i] by (simp add: f_def)
  have "\<forall>y\<in>pt ` ?S. f y = 0"
  proof (rule cauchy_independent [where P = "pt ` ?P"])
    show "card (pt ` ?S) = card (pt ` ?P)"
      using cards inj by (simp add: card_image)
    show "\<forall>x\<in>pt ` ?P. \<forall>y\<in>pt ` ?S. x + y \<noteq> 0"
    proof (intro ballI)
      fix x y assume "x \<in> pt ` ?P" "y \<in> pt ` ?S"
      then obtain t i where "x = pt t" "y = pt i" "t \<in> set pr" "\<not> t < k" "i < k"
        by auto
      then show "x + y \<noteq> 0"
        using pr(3) cc(2) pt_add_nonzero [of t i] by fastforce
    qed
    show "\<forall>x\<in>pt ` ?P. (\<Sum>y\<in>pt ` ?S. f y / (x + y)) = 0"
    proof (intro ballI)
      fix x assume "x \<in> pt ` ?P"
      then obtain t where "t \<in> ?P" and x: "x = pt t"
        by blast
      then have t: "t \<in> set pr" "k \<le> t" "x = pt t"
        by auto
      have "(\<Sum>y\<in>pt ` ?S. f y / (x + y)) = (\<Sum>i\<in>?S. v i / (pt t + pt i))"
        using inj(1) t(3) f by (simp add: sum.reindex)
      also have "\<dots> = (\<Sum>i<k. Gf (code_row c t ! i) * v i)"
        using dataz t pr(3)
        by (intro sum.mono_neutral_cong_left) (auto simp: cauchy_row_entry [OF c])
      finally show "(\<Sum>y\<in>pt ` ?S. f y / (x + y)) = 0"
        using row0 t(1) by simp
    qed
  qed auto
  then show ?thesis
    using dataz f by fastforce
qed

section \<open>Recovery is exact\<close>

lemma arrived_less_missing:
  assumes "received sent got" "arrived got < n" "n \<le> length got"
  shows "\<exists>s\<in>set (take n got). s = None"
proof (rule ccontr)
  assume "\<not> ?thesis"
  then have "\<forall>s\<in>set (take n got). s \<noteq> None"
    by (intro ballI notI) auto
  then have "filter (\<lambda>s. s \<noteq> None) (take n got) = take n got"
    by (rule filter_True)
  then have "length (filter (\<lambda>s. s \<noteq> None) (take n got)) = length (take n got)"
    by (rule arg_cong)
  moreover have "length (take n got) = n"
    using assms(3) by simp
  moreover have "arrived got = length (filter (\<lambda>s. s \<noteq> None) (take n got))
      + length (filter (\<lambda>s. s \<noteq> None) (drop n got))"
    unfolding arrived_def
    by (subst (1) append_take_drop_id [of n got, symmetric]) (simp only: filter_append length_append)
  ultimately show False
    using assms(2) by linarith
qed

lemma recover_few:
  assumes "received sent got" "arrived got < c_data c"
  shows "recover c got = None"
proof (cases "length got = shards c")
  case True
  then have "\<exists>s\<in>set (take (c_data c) got). s = None"
    using assms by (intro arrived_less_missing) (auto simp: shards_def)
  then show ?thesis
    using assms(2) present_shards_props(3) [of c got] by (auto simp: recover_eq)
qed (simp add: recover_eq)

text \<open>
  A code whose every choice of \<open>k\<close> rows has a trivial kernel recovers exactly when
  \<open>k\<close> shards arrived.
\<close>

definition any_rows_independent :: "code \<Rightarrow> bool" where
  "any_rows_independent c \<longleftrightarrow> (\<forall>pr v. distinct pr \<longrightarrow> length pr = c_data c \<longrightarrow>
     (\<forall>t\<in>set pr. t < shards c) \<longrightarrow> kernel (c_data c) (map (code_row c) pr) v \<longrightarrow>
     (\<forall>i<c_data c. v i = 0))"

lemma present_sizes:
  assumes ok: "code_ok c" and enc: "encode c data = Inr par"
    and got: "received (data @ par) got" and i: "i \<in> set (present_shards c got)"
  shows "length (the (got ! i)) = length (data ! 0)"
proof -
  have "i < length (data @ par)" "got ! i \<noteq> None" "length (data @ par) = shards c"
    using present_shards_props(2) [OF i] got encode_Inr(1,3) [OF enc]
    by (auto simp: received_def shards_def)
  moreover from this have "got ! i = Some ((data @ par) ! i)"
    by (intro received_Some [OF got])
  ultimately show ?thesis
    using codeword_shard(1) [OF ok enc, of i] by simp
qed

lemma recover_exact:
  assumes ok: "code_ok c" and indep: "any_rows_independent c"
    and enc: "encode c data = Inr par" and got: "received (data @ par) got"
  shows "recover c got = (if c_data c \<le> arrived got then Some data else None)"
proof (cases "c_data c \<le> arrived got")
  case False
  with recover_few [OF got] show ?thesis by simp
next
  case True
  let ?k = "c_data c" and ?pr = "present_shards c got"
  have len: "length got = shards c"
    using got encode_Inr(1,3) [OF enc] by (simp add: received_def shards_def)
  have pr: "distinct ?pr" "length ?pr = ?k" "\<forall>t\<in>set ?pr. t < shards c"
    using present_shards_props [where c = c and got = got] True len by auto
  have "\<forall>i<?k. v i = 0" if "kernel ?k (map (code_row c) ?pr) v" for v
    using indep pr that unfolding any_rows_independent_def by blast
  moreover have "square ?k (map (code_row c) ?pr)"
    by (rule present_row_square [OF ok len True])
  ultimately have inverted: "invert_cols ?k [0..<?k] (map (code_row c) ?pr, identity ?k) \<noteq> None"
    using reduces_start
    by (intro invert_cols_complete [where ?m0.0 = "map (code_row c) ?pr"]) (auto simp: unit_cols_def)
  have "?pr ! 0 \<in> set ?pr"
    using pr(2) ok by (simp add: code_ok_def)
  then have "\<not> uneven c got"
    unfolding uneven_def by (metis present_sizes [OF ok enc got])
  with inverted have "recover c got \<noteq> None"
    using pr(2) len by (simp add: recover_eq)
  with recover_sound [OF ok enc got] True show ?thesis
    by auto
qed

lemma cauchy_rows_independent: "cauchy k m = Inr c \<Longrightarrow> any_rows_independent c"
  using cauchy_kernel cauchy_Inr(3,5) unfolding any_rows_independent_def by metis

section \<open>The interface of the erasure code\<close>

text \<open>
  What \<open>bud\<close> uses of the crate: a code is made for \<open>k\<close> data and \<open>m\<close> parity shards
  when they fit, it encodes \<open>k\<close> shards of one size, and a shard list that agrees with the
  codeword is recovered exactly when \<open>k\<close> shards are there.
\<close>

locale erasure_code =
  fixes make :: "nat \<Rightarrow> nat \<Rightarrow> 'e + 'c"
    and enc :: "'c \<Rightarrow> bytes list \<Rightarrow> 'e + bytes list"
    and recov :: "'c \<Rightarrow> bytes option list \<Rightarrow> bytes list option"
    and fits :: "nat \<Rightarrow> nat \<Rightarrow> bool"
  assumes make_fits: "fits k m \<Longrightarrow> \<exists>c. make k m = Inr c"
    and enc_total: "make k m = Inr c \<Longrightarrow> length data = k \<Longrightarrow> \<forall>s\<in>set data. length s = z \<Longrightarrow>
      \<exists>par. enc c data = Inr par \<and> length par = m \<and> (\<forall>s\<in>set par. length s = z)"
    and recov_exact: "make k m = Inr c \<Longrightarrow> enc c data = Inr par \<Longrightarrow> received (data @ par) got \<Longrightarrow>
      recov c got = (if k \<le> arrived got then Some data else None)"
begin

lemma encode_exists:
  assumes "fits k m" "length data = k" "\<forall>s\<in>set data. length s = z"
  shows "\<exists>c par. make k m = Inr c \<and> enc c data = Inr par \<and> length par = m
    \<and> (\<forall>s\<in>set par. length s = z)"
  using make_fits [OF assms(1)] enc_total assms by blast

lemma recover_enough:
  "make k m = Inr c \<Longrightarrow> enc c data = Inr par \<Longrightarrow> received (data @ par) got \<Longrightarrow>
     k \<le> arrived got \<Longrightarrow> recov c got = Some data"
  using recov_exact [of k m c data par got] by simp

lemma recover_all_data:
  assumes "make k m = Inr c" "enc c data = Inr par" "length data = k"
  shows "recov c (map Some data @ replicate (length par) None) = Some data"
proof (rule recover_enough [OF assms(1,2)])
  show "received (data @ par) (map Some data @ replicate (length par) None)"
    by (auto simp: received_def nth_append)
  show "k \<le> arrived (map Some data @ replicate (length par) None)"
    using assms(3) by (simp add: arrived_def comp_def)
qed

end

lemma encode_total:
  assumes "code_ok c" "length data = c_data c" "\<forall>s\<in>set data. length s = z"
  shows "\<exists>par. encode c data = Inr par \<and> length par = length (c_parity c)
    \<and> (\<forall>s\<in>set par. length s = z)"
proof -
  have "data ! 0 \<in> set data"
    using assms(1,2) by (simp add: code_ok_def)
  then have "length (data ! 0) = z"
    using assms(3) by blast
  then show ?thesis
    using assms by (auto simp: encode_def Let_def)
qed

interpretation cauchy_code: erasure_code cauchy encode recover "\<lambda>k m. 0 < k \<and> k + m \<le> 256"
proof unfold_locales
  show "\<exists>c. cauchy k m = Inr c" if "0 < k \<and> k + m \<le> 256" for k m
    using that by (simp add: cauchy_def)
  show "\<exists>par. encode c data = Inr par \<and> length par = m \<and> (\<forall>s\<in>set par. length s = z)"
    if "cauchy k m = Inr c" "length data = k" "\<forall>s\<in>set data. length s = z" for k m c data z
    using that cauchy_Inr(3,4,6) encode_total [of c data z] by simp
  show "recover c got = (if k \<le> arrived got then Some data else None)"
    if "cauchy k m = Inr c" "encode c data = Inr par" "received (data @ par) got" for k m c data par got
    using that recover_exact cauchy_Inr(3,6) cauchy_rows_independent by simp
qed

section \<open>Properties\<close>

text \<open>
  C1. Any \<open>k\<close> shards recover the data: with a Cauchy code of \<open>k\<close> data and \<open>m\<close>
  parity shards, from any part of the encoded shards \<open>recover\<close> returns exactly the data when at
  least \<open>k\<close> shards arrived, whichever they are, and nothing when fewer did.
\<close>

theorem cauchy_recovers:
  assumes "cauchy k m = Inr c" "encode c data = Inr par" "received (data @ par) got"
  shows "recover c got = (if k \<le> arrived got then Some data else None)"
  using assms by (rule cauchy_code.recov_exact)

theorem cauchy_recovers_witness:
  "\<exists>c p. cauchy 2 1 = Inr c \<and> encode c [[1, 2], [3, 4]] = Inr [p]
     \<and> recover c [None, Some [3, 4], Some p] = Some [[1, 2], [3, 4]]"
proof -
  let ?data = "[[1, 2], [3, 4]] :: bytes list"
  obtain c par where c: "cauchy 2 1 = Inr c" "encode c ?data = Inr par" "length par = 1"
    using cauchy_code.encode_exists [of 2 1 ?data 2] by auto
  then obtain p where p: "par = [p]"
    by (auto simp: length_Suc_conv)
  have "recover c [None, Some [3, 4], Some p] = Some ?data"
    using cauchy_recovers [OF c(1,2), of "[None, Some [3, 4], Some p]"]
    by (simp add: received_def arrived_def less_Suc_eq numeral_3_eq_3 p all_conj_distrib)
  then show ?thesis
    using c p by blast
qed

text \<open>
  C34. Recovery never invents data: whatever the matrix of the code, if \<open>recover\<close> returns shards
  for a part of an encoded block they are the block's data shards.
\<close>

theorem recover_never_wrong:
  assumes "code_new k rows = Inr c" "encode c data = Inr par" "received (data @ par) got"
  shows "recover c got = None \<or> recover c got = Some data"
proof (cases "recover c got")
  case (Some out)
  moreover have "code_ok c"
    using assms(1) by (auto simp: code_new_def code_ok_def split: if_splits)
  ultimately show ?thesis
    using recover_sound [OF _ assms(2,3)] by simp
qed simp

theorem recover_never_wrong_witness:
  "recover \<lparr>c_data = 2, c_parity = [[0, 0]]\<rparr> [None, Some [3], Some [0]] \<in> {None, Some [[1], [3]]}"
  using recover_never_wrong [of 2 "[[0, 0]]" "\<lparr>c_data = 2, c_parity = [[0, 0]]\<rparr>" "[[1], [3]]" "[[0]]"
      "[None, Some [3], Some [0]]"]
  by (simp add: code_new_def encode_def received_def add_scaled_def less_Suc_eq numeral_3_eq_3
      all_conj_distrib)

end
