(* ===== verification/Gs_Fec.thy ===== *)
theory Gs_Fec
  imports Fec_Cauchy
begin

unbundle bit_operations_syntax

text \<open>
  GameStream's fixed 4+2 audio parity (\<open>gamestream/src/fec.rs\<close>): the matrix that Sunshine and
  Moonlight install, as a code of \<open>Fec_Code\<close>, with the proof that it recovers from any two
  losses although its matrix is not a Cauchy matrix.
\<close>

definition GS_DATA_SHARDS :: nat where "GS_DATA_SHARDS = 4"
definition GS_PARITY_SHARDS :: nat where "GS_PARITY_SHARDS = 2"
definition GS_SHARDS :: nat where "GS_SHARDS = GS_DATA_SHARDS + GS_PARITY_SHARDS"

definition GS_PARITY :: "u8 list list" where
  "GS_PARITY = [[0x77, 0x40, 0x38, 0x0e], [0xc7, 0xa7, 0x0d, 0x6c]]"

definition gs_code :: "code_error + code" where
  "gs_code = code_new GS_DATA_SHARDS GS_PARITY"

text \<open>
  \<open>parity\<close> and \<open>recover\<close>; \<open>None\<close> of the first is the panic of its
  \<open>expect\<close>, for shards that are not of one size.
\<close>

definition gs_parity :: "bytes list \<Rightarrow> bytes list option" where
  "gs_parity data =
     (case gs_code of Inl _ \<Rightarrow> None
      | Inr c \<Rightarrow> (case encode c data of Inl _ \<Rightarrow> None | Inr par \<Rightarrow> Some par))"

definition gs_recover :: "bytes option list \<Rightarrow> bytes list option" where
  "gs_recover got = (case gs_code of Inl _ \<Rightarrow> None | Inr c \<Rightarrow> recover c got)"

lemmas gs_consts = GS_DATA_SHARDS_def GS_PARITY_SHARDS_def GS_SHARDS_def

abbreviation gs_the_code :: code where
  "gs_the_code \<equiv> \<lparr>c_data = 4, c_parity = GS_PARITY\<rparr>"

lemma gs_code_eq: "gs_code = Inr gs_the_code"
  by (simp add: gs_code_def code_new_def gs_consts GS_PARITY_def)

lemma gs_code_ok: "code_ok gs_the_code" "shards gs_the_code = 6"
  by (simp_all add: code_ok_def shards_def GS_PARITY_def)

section \<open>Any four rows are independent\<close>

lemma two_unknowns:
  fixes a :: gf
  assumes "a * x + b * y = 0" "c * x + d * y = 0" "a * d + b * c \<noteq> 0"
  shows "x = 0 \<and> y = 0"
proof -
  have "d * (a * x + b * y) + b * (c * x + d * y) = (a * d + b * c) * x + (b * d * y + b * d * y)"
    by (simp only: distrib_left distrib_right ac_simps)
  moreover have "c * (a * x + b * y) + a * (c * x + d * y)
      = (a * d + b * c) * y + (a * c * x + a * c * x)"
    by (simp only: distrib_left distrib_right ac_simps)
  ultimately have "(a * d + b * c) * x = 0" "(a * d + b * c) * y = 0"
    using assms(1,2) by (simp_all only: mult_zero_right add_0_left add_0_right gf_add_self)
  then show ?thesis
    using assms(3) by (simp only: mult_eq_0_iff) simp
qed

lemma poly_mul_eval:
  "poly_mul a b = (let acc = 0; acc = (if bit b 0 then acc XOR a else acc); a1 = gf_x a;
     acc = (if bit b 1 then acc XOR a1 else acc); a2 = gf_x a1;
     acc = (if bit b 2 then acc XOR a2 else acc); a3 = gf_x a2;
     acc = (if bit b 3 then acc XOR a3 else acc); a4 = gf_x a3;
     acc = (if bit b 4 then acc XOR a4 else acc); a5 = gf_x a4;
     acc = (if bit b 5 then acc XOR a5 else acc); a6 = gf_x a5;
     acc = (if bit b 6 then acc XOR a6 else acc); a7 = gf_x a6
   in if bit b 7 then acc XOR a7 else acc)"
  by (simp add: poly_mul_def Let_def upt_rec eval_nat_numeral)

lemma gs_minors:
  "Gf 0x77 * Gf 0xa7 + Gf 0x40 * Gf 0xc7 \<noteq> 0"
  "Gf 0x77 * Gf 0x0d + Gf 0x38 * Gf 0xc7 \<noteq> 0"
  "Gf 0x77 * Gf 0x6c + Gf 0x0e * Gf 0xc7 \<noteq> 0"
  "Gf 0x40 * Gf 0x0d + Gf 0x38 * Gf 0xa7 \<noteq> 0"
  "Gf 0x40 * Gf 0x6c + Gf 0x0e * Gf 0xa7 \<noteq> 0"
  "Gf 0x38 * Gf 0x6c + Gf 0x0e * Gf 0x0d \<noteq> 0"
  by (simp_all add: Gf_mul [symmetric] Gf_xor [symmetric] mul_poly_mul poly_mul_eval gf_x_def Let_def)

lemma gs_solve:
  fixes v :: "nat \<Rightarrow> gf"
  assumes S: "S \<subseteq> {..<6}" "card S = 4"
    and unit: "\<And>t. t \<in> S \<Longrightarrow> t < 4 \<Longrightarrow> v t = 0"
    and p0: "4 \<in> S \<Longrightarrow> Gf 0x77 * v 0 + Gf 0x40 * v 1 + Gf 0x38 * v 2 + Gf 0x0e * v 3 = 0"
    and p1: "5 \<in> S \<Longrightarrow> Gf 0xc7 * v 0 + Gf 0xa7 * v 1 + Gf 0x0d * v 2 + Gf 0x6c * v 3 = 0"
  shows "v 0 = 0 \<and> v 1 = 0 \<and> v 2 = 0 \<and> v 3 = 0"
proof -
  have "(\<Sum>t<6. if t \<in> S then 1 else 0 :: nat) = card S"
    using S(1) by (simp add: sum.If_cases Int_absorb1 Int_def [symmetric] del: Int_atMost)
  then have count: "(\<Sum>t<6::nat. if t \<in> S then 1 else 0 :: nat) = 4"
    using S(2) by simp
  have data: "0 \<in> S \<Longrightarrow> v 0 = 0" "1 \<in> S \<Longrightarrow> v 1 = 0" "2 \<in> S \<Longrightarrow> v 2 = 0" "3 \<in> S \<Longrightarrow> v 3 = 0"
    using unit by simp_all
  show ?thesis
    using count data p0 p1
    by (cases "0 \<in> S"; cases "1 \<in> S"; cases "2 \<in> S"; cases "3 \<in> S"; cases "4 \<in> S"; cases "5 \<in> S")
      (simp_all add: lessThan_nat_numeral lessThan_Suc, (blast dest: gs_minors [THEN [3] two_unknowns])+)
qed

lemma gs_rows_independent: "any_rows_independent gs_the_code"
  unfolding any_rows_independent_def
proof (intro allI impI)
  fix pr v i
  assume pr: "distinct pr" "length pr = c_data gs_the_code" "\<forall>t\<in>set pr. t < shards gs_the_code"
    and kern: "kernel (c_data gs_the_code) (map (code_row gs_the_code) pr) v"
    and i: "i < c_data gs_the_code"
  have row: "(\<Sum>c<4. Gf (code_row gs_the_code t ! c) * v c) = 0" if t: "t \<in> set pr" for t
  proof -
    obtain r where "r < length pr" "pr ! r = t"
      using t by (auto simp: in_set_conv_nth)
    then show ?thesis
      using kern pr(2) by (auto simp: kernel_def entry_def)
  qed
  have "v 0 = 0 \<and> v 1 = 0 \<and> v 2 = 0 \<and> v 3 = 0"
  proof (rule gs_solve)
    show "set pr \<subseteq> {..<6}"
      using pr(3) by (auto simp: gs_code_ok)
    show "card (set pr) = 4"
      using pr(1,2) by (simp add: distinct_card)
    have "list_all (\<lambda>t. t \<in> set pr \<longrightarrow> v t = 0) [0..<4]"
      using row by (force simp: upt_0_numeral code_row_def lessThan_nat_numeral lessThan_Suc)
    then show "v t = 0" if "t \<in> set pr" "t < 4" for t
      using that below_all by blast
  qed (use row in \<open>force simp: code_row_def GS_PARITY_def lessThan_nat_numeral lessThan_Suc ac_simps\<close>)+
  then have "list_all (\<lambda>i. v i = 0) [0..<4]"
    by (simp add: upt_0_numeral)
  then show "v i = 0"
    using i by (auto intro: below_all)
qed

lemma gs_parity_eq:
  "gs_parity data = (case encode gs_the_code data of Inl _ \<Rightarrow> None | Inr par \<Rightarrow> Some par)"
  by (simp add: gs_parity_def gs_code_eq)

lemma gs_recover_exact:
  assumes "length data = GS_DATA_SHARDS" "\<forall>s\<in>set data. length s = z"
  shows "\<exists>par. gs_parity data = Some par \<and> length par = GS_PARITY_SHARDS
    \<and> (\<forall>got. received (data @ par) got \<longrightarrow>
         gs_recover got = (if GS_DATA_SHARDS \<le> arrived got then Some data else None))"
proof -
  obtain par where par: "encode gs_the_code data = Inr par" "length par = 2"
    using encode_total [OF gs_code_ok(1), of data z] assms by (auto simp: gs_consts GS_PARITY_def)
  then show ?thesis
    using recover_exact [OF gs_code_ok(1) gs_rows_independent par(1)]
    by (auto simp: gs_parity_eq gs_recover_def gs_code_eq gs_consts)
qed

text \<open>
  C32. GameStream audio survives any two losses: four data shards of one size always get two parity
  shards, and from whatever arrives of the six \<open>recover\<close> gives exactly the four data shards when
  four or more arrived and nothing otherwise.
\<close>

theorem gs_recovers_any_two_losses:
  assumes "length data = GS_DATA_SHARDS" "\<forall>s\<in>set data. length s = z"
  shows "\<exists>par. gs_parity data = Some par \<and> length par = GS_PARITY_SHARDS
    \<and> (\<forall>got. received (data @ par) got \<longrightarrow>
         gs_recover got = (if GS_DATA_SHARDS \<le> arrived got then Some data else None))"
  by (rule gs_recover_exact [OF assms])

theorem gs_recovers_any_two_losses_witness:
  "\<exists>p q. gs_parity [[1, 2], [3, 4], [5, 6], [7, 8]] = Some [p, q]
     \<and> gs_recover [None, Some [3, 4], None, Some [7, 8], Some p, Some q]
       = Some [[1, 2], [3, 4], [5, 6], [7, 8]]
     \<and> gs_recover [None, Some [3, 4], None, Some [7, 8], Some p, None] = None"
proof -
  let ?data = "[[1, 2], [3, 4], [5, 6], [7, 8]] :: bytes list"
  obtain par where par: "gs_parity ?data = Some par" "length par = 2"
    "\<And>got. received (?data @ par) got \<Longrightarrow>
       gs_recover got = (if 4 \<le> arrived got then Some ?data else None)"
    using gs_recovers_any_two_losses [of ?data 2] by (auto simp: gs_consts)
  obtain p q where pq: "par = [p, q]"
    using par(2) by (auto simp: numeral_2_eq_2 length_Suc_conv)
  show ?thesis
    using par(1) par(3) [of "[None, Some [3, 4], None, Some [7, 8], Some p, Some q]"]
      par(3) [of "[None, Some [3, 4], None, Some [7, 8], Some p, None]"]
    by (auto simp: pq received_def arrived_def less_Suc_eq)
qed

end
