(* ===== verification/Gs_Audio.thy ===== *)
theory Gs_Audio
  imports Gs_Fec "HOL-Library.AList"
begin

unbundle bit_operations_syntax

text \<open>
  GameStream's audio stream (\<open>gamestream/src/audio.rs\<close>): the packetizer that numbers, encrypts and
  protects Opus packets in blocks of four, and the depacketizer that plays them in order and rebuilds
  lost ones. AES-CBC is a pair of arguments, \<open>enc key iv data\<close> and \<open>dec key iv data\<close>. The
  \<open>HashMap\<close> of blocks is an association list.
\<close>

definition PAYLOAD_TYPE :: u8 where "PAYLOAD_TYPE = 97"
definition FEC_PAYLOAD_TYPE :: u8 where "FEC_PAYLOAD_TYPE = 127"
definition RTP_HEADER :: nat where "RTP_HEADER = 12"
definition FEC_HEADER :: nat where "FEC_HEADER = 12"

record audio_key =
  ak_key :: bytes
  ak_key_id :: u32

definition audio_iv :: "u32 \<Rightarrow> u16 \<Rightarrow> bytes" where
  "audio_iv key_id sequence = be_bytes 4 (key_id + ucast sequence) @ replicate 12 0"

definition rtp :: "u8 \<Rightarrow> u16 \<Rightarrow> u32 \<Rightarrow> bytes" where
  "rtp payload_type sequence timestamp =
     [0x80, payload_type] @ be_bytes 2 sequence @ be_bytes 4 timestamp @ be_bytes 4 (0 :: u32)"

section \<open>Sending\<close>

record packetizer =
  ap_sequence :: u16
  ap_duration_ms :: u32
  ap_key :: "audio_key option"
  ap_block :: "bytes list"

definition packetizer_new :: "u32 \<Rightarrow> audio_key option \<Rightarrow> packetizer" where
  "packetizer_new duration_ms key =
     \<lparr>ap_sequence = 0, ap_duration_ms = duration_ms, ap_key = key, ap_block = []\<rparr>"

definition audio_parity_packet :: "u16 \<Rightarrow> u32 \<Rightarrow> nat \<Rightarrow> bytes \<Rightarrow> bytes" where
  "audio_parity_packet sequence duration_ms index shard =
     (let base = sequence - 3; base_timestamp = ucast base * duration_ms
      in rtp FEC_PAYLOAD_TYPE (sequence + of_nat index + 1) 0 @ [of_nat index, PAYLOAD_TYPE]
         @ be_bytes 2 base @ be_bytes 4 base_timestamp @ be_bytes 4 (0 :: u32) @ shard)"

text \<open>\<open>packets\<close>; \<open>None\<close> is the panic of the parity on shards of different sizes.\<close>

definition audio_packets ::
  "(bytes \<Rightarrow> bytes \<Rightarrow> bytes \<Rightarrow> bytes) \<Rightarrow> packetizer \<Rightarrow> bytes \<Rightarrow> (bytes list \<times> packetizer) option" where
  "audio_packets enc p opus =
     (let sequence = ap_sequence p;
          timestamp = ucast sequence * ap_duration_ms p;
          payload = (case ap_key p of
              Some key \<Rightarrow> enc (ak_key key) (audio_iv (ak_key_id key) sequence) opus
            | None \<Rightarrow> opus);
          packet = rtp PAYLOAD_TYPE sequence timestamp @ payload;
          block = (if unat sequence mod GS_DATA_SHARDS = 0 then [] else ap_block p) @ [payload];
          complete = (length block = GS_DATA_SHARDS \<and> list_all (\<lambda>s. length s = length (block ! 0)) block);
          p = p\<lparr>ap_sequence := sequence + 1, ap_block := block\<rparr>
      in if unat sequence mod GS_DATA_SHARDS = GS_DATA_SHARDS - 1 \<and> complete
         then (case gs_parity block of
             None \<Rightarrow> None
           | Some par \<Rightarrow> Some (packet # map (\<lambda>(i, shard). audio_parity_packet sequence (ap_duration_ms p) i shard)
                 (enumerate 0 par), p))
         else Some ([packet], p))"

section \<open>Receiving\<close>

record depacketizer =
  ad_key :: "audio_key option"
  ad_next :: "u16 option"
  ad_blocks :: "(u16 \<times> bytes option list) list"
  ad_recovered :: u64
  ad_lost :: u64

definition depacketizer_new :: "audio_key option \<Rightarrow> depacketizer" where
  "depacketizer_new key =
     \<lparr>ad_key = key, ad_next = None, ad_blocks = [], ad_recovered = 0, ad_lost = 0\<rparr>"

definition block_of :: "u16 \<Rightarrow> u16" where
  "block_of sequence = sequence - sequence mod 4"

definition after :: "u16 \<Rightarrow> u16 \<Rightarrow> int" where
  "after a b = sint (a - b)"

text \<open>\<open>entry(base).or_default()\<close>.\<close>

definition or_default :: "u16 \<Rightarrow> (u16 \<times> bytes option list) list \<Rightarrow> (u16 \<times> bytes option list) list" where
  "or_default base bs = (if map_of bs base = None then AList.update base (replicate GS_SHARDS None) bs else bs)"

text \<open>The rebuilt data shardsards of a block, and how many there were.\<close>

definition rebuild :: "bytes option list \<Rightarrow> bytes option list \<times> nat" where
  "rebuild block =
     (case gs_recover block of
        None \<Rightarrow> (block, 0)
      | Some data \<Rightarrow>
          (map (\<lambda>i. if i < length data \<and> block ! i = None then Some (data ! i) else block ! i) [0..<length block],
           length (filter (\<lambda>i. block ! i = None) [0..<length data])))"

text \<open>One turn of the loop of \<open>drain\<close>: whether it goes on, what it plays and the state.\<close>

definition drain_turn ::
  "(bytes \<Rightarrow> bytes \<Rightarrow> bytes \<Rightarrow> bytes option) \<Rightarrow> depacketizer \<Rightarrow> u16 \<Rightarrow> bool \<times> bytes list \<times> depacketizer" where
  "drain_turn dec d nxt =
     (let base = block_of nxt;
          index = unat (nxt - base);
          blocks = or_default base (ad_blocks d);
          block = the (map_of blocks base);
          (block, n) = (if block ! index = None then rebuild block else (block, 0));
          blocks = AList.update base block blocks;
          d = d\<lparr>ad_blocks := blocks, ad_recovered := ad_recovered d + of_nat n\<rparr>;
          after_next = (\<lambda>d. d\<lparr>ad_next := Some (nxt + 1),
            ad_blocks := (if (nxt + 1) mod 4 = 0 then AList.delete base (ad_blocks d) else ad_blocks d)\<rparr>)
      in case block ! index of
           Some payload \<Rightarrow>
             let opus = (case ad_key d of
                   Some key \<Rightarrow> dec (ak_key key) (audio_iv (ak_key_id key) nxt) payload
                 | None \<Rightarrow> Some payload)
             in (True, (case opus of None \<Rightarrow> [] | Some x \<Rightarrow> [x]), after_next d)
         | None \<Rightarrow>
             if list_ex (\<lambda>(b, sh). 0 < after b base \<and>
                  GS_DATA_SHARDS \<le> length (filter (\<lambda>s. s \<noteq> None) sh)) blocks
             then (True, [], after_next (d\<lparr>ad_lost := ad_lost d + 1\<rparr>))
             else (False, [], d))"

partial_function (option) drain ::
  "(bytes \<Rightarrow> bytes \<Rightarrow> bytes \<Rightarrow> bytes option) \<Rightarrow> bytes list \<Rightarrow> depacketizer \<Rightarrow> (bytes list \<times> depacketizer) option" where
  "drain dec played d =
     (case ad_next d of
        None \<Rightarrow> Some (played, d)
      | Some nxt \<Rightarrow>
          (case drain_turn dec d nxt of
             (goes_on, opus, d') \<Rightarrow> if goes_on then drain dec (played @ opus) d' else Some (played, d')))"

text \<open>The packet's block, its shard in it and its payload.\<close>

definition audio_parse :: "bytes \<Rightarrow> (u16 \<times> u16 \<times> nat \<times> bytes) option" where
  "audio_parse data =
     (if length data \<le> RTP_HEADER then None
      else let sequence = of_be [data ! 2, data ! 3]; kind = data ! 1 AND 0x7f
        in if kind = PAYLOAD_TYPE
           then Some (sequence, block_of sequence, unat sequence mod GS_DATA_SHARDS, drop RTP_HEADER data)
           else if kind = FEC_PAYLOAD_TYPE \<and> RTP_HEADER + FEC_HEADER < length data
           then let shard = unat (data ! 12); base = of_be [data ! 14, data ! 15] :: u16
             in if GS_PARITY_SHARDS \<le> shard \<or> unat base mod 4 \<noteq> 0 then None
                else Some (sequence, base, GS_DATA_SHARDS + shard, drop (RTP_HEADER + FEC_HEADER) data)
           else None)"

definition audio_add ::
  "(bytes \<Rightarrow> bytes \<Rightarrow> bytes \<Rightarrow> bytes option) \<Rightarrow> depacketizer \<Rightarrow> bytes \<Rightarrow> (bytes list \<times> depacketizer) option" where
  "audio_add dec d data =
     (case audio_parse data of
        None \<Rightarrow> Some ([], d)
      | Some (sequence, base, index, payload) \<Rightarrow>
          let nxt = (case ad_next d of
                Some n \<Rightarrow> n | None \<Rightarrow> if index < GS_DATA_SHARDS then sequence else base);
              d = d\<lparr>ad_next := Some nxt\<rparr>
          in if after base (block_of nxt) < 0 then Some ([], d)
             else let blocks = or_default base (ad_blocks d);
                      block = (the (map_of blocks base))[index := Some payload]
               in drain dec [] (d\<lparr>ad_blocks := AList.update base block blocks\<rparr>))"

section \<open>Sequence numbers\<close>

lemma unat_mod4: "unat ((x :: u16) mod 4) = unat x mod 4"
  by (simp add: unat_mod_distrib)

lemma block_of_props:
  "block_of n + (n - block_of n) = n" "unat (n - block_of n) = unat n mod 4"
  "unat (block_of n) = unat n - unat n mod 4" "unat (block_of n) mod 4 = 0"
proof -
  have le: "n mod 4 \<le> n"
    by (simp add: word_le_nat_alt unat_mod4)
  show "block_of n + (n - block_of n) = n"
    by simp
  show "unat (n - block_of n) = unat n mod 4"
    by (simp add: block_of_def unat_mod4)
  show un: "unat (block_of n) = unat n - unat n mod 4"
    using unat_sub [OF le] by (simp add: block_of_def unat_mod4)
  show "unat (block_of n) mod 4 = 0"
    unfolding un by presburger
qed

lemma unat_u16_le: "unat (x :: u16) \<le> 65535"
  using unsigned_less [of x, where ?'a = nat] by simp

lemma unat_Suc_u16: "unat ((n :: u16) + 1) = (if unat n = 65535 then 0 else unat n + 1)"
  using unat_u16_le [of n] by (simp add: unat_word_ariths)

lemma unat_offset:
  assumes "unat b mod 4 = 0" "i < 4"
  shows "unat ((b :: u16) + of_nat i) = unat b + i" "block_of (b + of_nat i) = b" "b + of_nat i - b = of_nat i"
proof -
  have "unat b \<le> 65532"
    using unat_u16_le [of b] assms(1) by presburger
  then show un: "unat (b + of_nat i) = unat b + i"
    using assms(2) by (simp add: unat_word_ariths unat_of_nat)
  have "unat (block_of (b + of_nat i)) = unat b"
    using assms by (simp add: block_of_props(3) un mod_add_left_eq [symmetric])
  then show "block_of (b + of_nat i) = b"
    by (simp add: word_unat_eq_iff)
qed simp

section \<open>The loop ends\<close>

definition nonempty :: "bytes option list \<Rightarrow> bool" where
  "nonempty sh = (\<exists>s\<in>set sh. s \<noteq> None)"

text \<open>
  What the blocks satisfy at all times: each has six places, its key starts a block, and it is less than
  half the numbers ahead of the one being played.
\<close>

definition blocks_ok :: "u16 \<Rightarrow> (u16 \<times> bytes option list) list \<Rightarrow> bool" where
  "blocks_ok n bs = (distinct (map fst bs) \<and>
     (\<forall>b sh. map_of bs b = Some sh \<longrightarrow>
        length sh = GS_SHARDS \<and> unat b mod 4 = 0 \<and> unat (b - block_of n) < 32768))"

definition ad_ok :: "depacketizer \<Rightarrow> bool" where
  "ad_ok d = (case ad_next d of None \<Rightarrow> ad_blocks d = [] | Some n \<Rightarrow> blocks_ok n (ad_blocks d))"

text \<open>How many numbers are left up to the end of a block.\<close>

definition ahead :: "u16 \<Rightarrow> u16 \<Rightarrow> nat" where
  "ahead n b = unat (b - block_of n) + (4 - unat n mod 4)"

lemma block_of_Suc:
  "block_of (n + 1) = (if unat n mod 4 = 3 then block_of n + 4 else block_of n)"
proof -
  let ?u = "unat n"
  have le: "?u \<le> 65535" "unat (block_of n) = ?u - ?u mod 4"
    by (simp_all add: unat_u16_le block_of_props(3))
  then have four: "unat (block_of n + 4) = (?u - ?u mod 4 + 4) mod 65536"
    by (simp add: unat_word_ariths)
  consider "?u = 65535" | "?u < 65535" "?u mod 4 = 3" | "?u < 65535" "?u mod 4 \<noteq> 3"
    using le(1) by linarith
  then have "unat (block_of (n + 1)) = unat (if ?u mod 4 = 3 then block_of n + 4 else block_of n)"
  proof cases
    case 1
    then show ?thesis
      by (simp add: block_of_props(3) unat_Suc_u16 four)
  next
    case 2
    then have "(?u + 1) mod 4 = 0" "?u - 3 + 4 = ?u + 1"
      by presburger+
    then show ?thesis
      using 2 four by (simp add: block_of_props(3) unat_Suc_u16)
  next
    case 3
    then have "(?u + 1) mod 4 = ?u mod 4 + 1"
      by presburger
    then show ?thesis
      using 3 le by (simp add: block_of_props(3) unat_Suc_u16)
  qed
  then show ?thesis
    by (simp add: word_unat_eq_iff)
qed

lemma ahead_Suc:
  assumes "unat b mod 4 = 0" "unat (b - block_of n) < 32768" "unat n mod 4 = 3 \<longrightarrow> b \<noteq> block_of n"
  shows "ahead n b = Suc (ahead (n + 1) b)" "unat (b - block_of (n + 1)) < 32768"
proof -
  let ?d = "unat (b - block_of n)"
  have d4: "?d mod 4 = 0"
  proof -
    have "unat b = unat (block_of n + (b - block_of n))"
      by simp
    also have "\<dots> = (unat (block_of n) + ?d) mod 65536"
      by (simp only: unat_word_ariths) simp
    finally have "unat b mod 4 = (unat (block_of n) + ?d) mod 4"
      by (simp add: mod_mod_cancel)
    then show ?thesis
      using assms(1) block_of_props(4) [of n] by presburger
  qed
  have step: "unat (b - (block_of n + 4)) = ?d - 4" if "?d \<noteq> 0"
  proof -
    have "4 \<le> ?d"
      using that d4 by presburger
    then have "unat (b - block_of n - 4) = ?d - 4"
      by (simp add: unat_sub word_le_nat_alt)
    then show ?thesis
      by (simp add: diff_diff_eq)
  qed
  have ne: "?d \<noteq> 0" if "unat n mod 4 = 3"
    using assms(3) that by (simp add: unat_eq_0)
  have mod: "unat (n + 1) mod 4 = (unat n mod 4 + 1) mod 4"
    using unat_u16_le [of n] by (simp add: unat_Suc_u16) presburger
  show "ahead n b = Suc (ahead (n + 1) b)" "unat (b - block_of (n + 1)) < 32768"
    using step ne assms(2) d4 by (auto simp: ahead_def block_of_Suc mod)
qed

lemma map_of_or_default:
  "map_of (or_default b bs) =
     (map_of bs)(b := Some (case map_of bs b of None \<Rightarrow> replicate GS_SHARDS None | Some sh \<Rightarrow> sh))"
  by (auto simp: or_default_def update_conv' fun_upd_idem_iff split: option.splits)

lemma distinct_or_default: "distinct (map fst bs) \<Longrightarrow> distinct (map fst (or_default b bs))"
  by (simp add: or_default_def distinct_update)

lemma not_nonempty_replicate [simp]: "\<not> nonempty (replicate n None)"
  by (auto simp: nonempty_def)

lemma nonempty_nth: "i < length sh \<Longrightarrow> sh ! i \<noteq> None \<Longrightarrow> nonempty sh"
  unfolding nonempty_def using nth_mem by blast

lemma nonempty_filter:
  assumes "0 < length (filter (\<lambda>s. s \<noteq> None) sh)"
  shows "nonempty sh"
proof (rule ccontr)
  assume "\<not> nonempty sh"
  then have "\<forall>s\<in>set sh. s = None"
    by (auto simp: nonempty_def)
  then have "filter (\<lambda>s. s \<noteq> None) sh = []"
    by (simp add: filter_empty_conv)
  with assms show False
    by simp
qed

lemma gs_recover_nonempty:
  assumes "gs_recover sh \<noteq> None"
  shows "nonempty sh"
proof (rule ccontr)
  assume "\<not> nonempty sh"
  then have none: "\<forall>s\<in>set sh. s = None"
    by (auto simp: nonempty_def)
  have len: "length sh = 6"
    using assms by (auto simp: gs_recover_def gs_code_eq recover_def gs_code_ok split: if_splits)
  then obtain s rest where "sh = s # rest"
    by (cases sh) auto
  then have "sh ! 0 = None" "sh ! 0 \<in> set (take 4 sh)"
    using none by simp_all
  moreover have "filter (\<lambda>i. sh ! i \<noteq> None) [0..<length sh] = []"
    using none by (auto simp: filter_empty_conv)
  ultimately have "recover gs_the_code sh = None"
    by (auto simp: recover_def gs_code_ok len)
  then show False
    using assms by (simp add: gs_recover_def gs_code_eq)
qed

text \<open>Only a block with four shards is rebuilt, and its places stay.\<close>

lemma rebuild_length: "length (fst (rebuild sh)) = length sh"
  by (simp add: rebuild_def split: option.splits)

lemma drain_turn_eq:
  assumes "blocks_ok n (ad_blocks d)" "drain_turn dec d n = (goes_on, opus, d')"
  shows "\<exists>sh'. length sh' = GS_SHARDS
       \<and> (nonempty sh' \<longrightarrow> (\<exists>sh. map_of (ad_blocks d) (block_of n) = Some sh \<and> nonempty sh))
       \<and> (goes_on \<longrightarrow> (\<exists>b sh. map_of (ad_blocks d) b = Some sh \<and> nonempty sh))
       \<and> ad_next d' = (if goes_on then Some (n + 1) else ad_next d)
       \<and> distinct (map fst (ad_blocks d'))
       \<and> map_of (ad_blocks d') = (let m = (map_of (ad_blocks d))(block_of n \<mapsto> sh')
            in if goes_on \<and> unat n mod 4 = 3 then m(block_of n := None) else m)"
proof -
  define b where "b = block_of n"
  define sh where "sh = (case map_of (ad_blocks d) b of None \<Rightarrow> replicate GS_SHARDS None | Some sh \<Rightarrow> sh)"
  define sh' where "sh' = fst (if sh ! unat (n - b) = None then rebuild sh else (sh, 0))"
  define bs where "bs = AList.update b sh' (or_default b (ad_blocks d))"
  define later where "later = list_ex (\<lambda>p. 0 < after (fst p) b \<and>
    GS_DATA_SHARDS \<le> length (filter (\<lambda>s. s \<noteq> None) (snd p))) bs"
  have len: "length sh = GS_SHARDS" "length sh' = GS_SHARDS"
    using assms(1) by (auto simp: sh_def sh'_def blocks_ok_def rebuild_length split: option.splits)
  have "nonempty sh' \<Longrightarrow> nonempty sh"
    using gs_recover_nonempty [of sh] by (auto simp: sh'_def rebuild_def split: option.splits if_splits)
  then have here: "nonempty sh' \<Longrightarrow> \<exists>sh. map_of (ad_blocks d) b = Some sh \<and> nonempty sh"
    by (cases "map_of (ad_blocks d) b") (auto simp: sh_def)
  have i: "unat (n - b) < GS_SHARDS"
    by (simp add: b_def block_of_props(2) gs_consts)
  have dist: "distinct (map fst bs)"
    using assms(1) by (simp add: bs_def distinct_update distinct_or_default blocks_ok_def)
  have maps: "map_of bs = (map_of (ad_blocks d))(b \<mapsto> sh')"
    by (simp add: bs_def update_conv' map_of_or_default)
  have mod: "(n + 1) mod 4 = 0 \<longleftrightarrow> unat n mod 4 = 3"
  proof -
    have "(n + 1) mod 4 = 0 \<longleftrightarrow> unat (n + 1) mod 4 = 0"
      by (metis unat_mod4 unat_eq_0)
    also have "\<dots> \<longleftrightarrow> unat n mod 4 = 3"
      using unat_u16_le [of n] by (simp add: unat_Suc_u16) presburger
    finally show ?thesis .
  qed
  have other: "\<exists>b sh. map_of (ad_blocks d) b = Some sh \<and> nonempty sh" if later
  proof -
    obtain p where p: "p \<in> set bs" "0 < after (fst p) b"
      "GS_DATA_SHARDS \<le> length (filter (\<lambda>s. s \<noteq> None) (snd p))"
      using \<open>later\<close> unfolding later_def list_ex_iff by blast
    then have "fst p \<noteq> b"
      by (auto simp: after_def)
    moreover have "map_of bs (fst p) = Some (snd p)"
      using p(1) dist by simp
    ultimately have "map_of (ad_blocks d) (fst p) = Some (snd p)"
      by (simp add: maps)
    moreover have "nonempty (snd p)"
      by (rule nonempty_filter, rule less_le_trans [OF _ p(3)]) (simp add: GS_DATA_SHARDS_def)
    ultimately show ?thesis
      by blast
  qed
  have the_sh: "the (map_of (or_default b (ad_blocks d)) b) = sh"
    by (simp add: map_of_or_default sh_def)
  note unfolded = assms(2) [unfolded drain_turn_def Let_def split_beta, folded b_def, unfolded the_sh,
      folded sh'_def, folded bs_def, folded later_def]
  have dist': "distinct (map fst (AList.delete b bs))" "map_of (AList.delete b bs) = (map_of bs)(b := None)"
    using dist by (simp_all add: distinct_delete delete_conv')
  have "(goes_on \<longrightarrow> (\<exists>b sh. map_of (ad_blocks d) b = Some sh \<and> nonempty sh))
       \<and> ad_next d' = (if goes_on then Some (n + 1) else ad_next d)
       \<and> distinct (map fst (ad_blocks d'))
       \<and> map_of (ad_blocks d') = (let m = (map_of (ad_blocks d))(b \<mapsto> sh')
            in if goes_on \<and> unat n mod 4 = 3 then m(b := None) else m)"
  proof (cases "sh' ! unat (n - b)")
    case None
    then show ?thesis
      using unfolded other dist dist' mod maps by (auto simp: Let_def split: if_splits)
  next
    case (Some payload)
    then have "nonempty sh'"
      using nonempty_nth i len by (metis option.distinct(1))
    then show ?thesis
      using unfolded Some here dist dist' mod maps by (auto simp: Let_def)
  qed
  then show ?thesis
    using len here unfolding b_def by (intro exI [of _ sh']) blast
qed

text \<open>
  Every turn that goes on brings every block with a shard one number nearer, and there is such a block.
\<close>

lemma drain_turn_progress:
  assumes "blocks_ok n (ad_blocks d)" "drain_turn dec d n = (True, opus, d')"
    and "\<forall>b sh. map_of (ad_blocks d) b = Some sh \<longrightarrow> nonempty sh \<longrightarrow> ahead n b \<le> m"
  shows "\<exists>k. m = Suc k \<and> ad_next d' = Some (n + 1) \<and> blocks_ok (n + 1) (ad_blocks d')
    \<and> (\<forall>b sh. map_of (ad_blocks d') b = Some sh \<longrightarrow> nonempty sh \<longrightarrow> ahead (n + 1) b \<le> k)"
proof -
  obtain sh' where sh: "length sh' = GS_SHARDS"
    and here: "nonempty sh' \<longrightarrow> (\<exists>sh. map_of (ad_blocks d) (block_of n) = Some sh \<and> nonempty sh)"
    and go: "\<exists>b sh. map_of (ad_blocks d) b = Some sh \<and> nonempty sh"
      "ad_next d' = Some (n + 1)" "distinct (map fst (ad_blocks d'))"
    and blocks: "map_of (ad_blocks d') = (let m = (map_of (ad_blocks d))(block_of n \<mapsto> sh')
        in if unat n mod 4 = 3 then m(block_of n := None) else m)"
    using drain_turn_eq [OF assms(1,2)] by auto
  have pos: "0 < ahead n b" for b
    by (simp add: ahead_def)
  then have m: "0 < m"
    using go(1) assms(3) by (metis le_zero_eq neq0_conv)
  have old: "length sh2 = GS_SHARDS \<and> unat b mod 4 = 0 \<and> unat (b - block_of n) < 32768
      \<and> (nonempty sh2 \<longrightarrow> ahead n b \<le> m)"
    if b: "map_of (ad_blocks d') b = Some sh2" for b sh2
  proof (cases "b = block_of n")
    case True
    then have "sh2 = sh'"
      using b blocks by (auto simp: Let_def split: if_splits)
    then show ?thesis
      using True sh here assms(3) by (auto simp: block_of_props)
  next
    case False
    then have "map_of (ad_blocks d) b = Some sh2"
      using b blocks by (auto simp: Let_def split: if_splits)
    then show ?thesis
      using assms(1,3) by (auto simp: blocks_ok_def)
  qed
  have last: "unat n mod 4 = 3 \<longrightarrow> b \<noteq> block_of n" if "map_of (ad_blocks d') b = Some sh2" for b sh2
    using that blocks by (auto simp: Let_def)
  have "blocks_ok (n + 1) (ad_blocks d')"
    using old last go(3) ahead_Suc(2) by (fastforce simp: blocks_ok_def)
  moreover have "ahead (n + 1) b \<le> m - 1" if "map_of (ad_blocks d') b = Some sh2" "nonempty sh2" for b sh2
    using old [OF that(1)] last [OF that(1)] that(2) ahead_Suc(1) [of b n] by auto
  ultimately show ?thesis
    using m go(2) by (intro exI [of _ "m - 1"]) auto
qed

lemma drain_ends:
  assumes "blocks_ok n (ad_blocks d)" "ad_next d = Some n"
    and "\<forall>b sh. map_of (ad_blocks d) b = Some sh \<longrightarrow> nonempty sh \<longrightarrow> ahead n b \<le> m"
  shows "\<exists>out d'. drain dec played d = Some (out, d') \<and> ad_ok d'"
  using assms
proof (induction m arbitrary: n d played rule: less_induct)
  case (less m)
  obtain goes_on opus d' where turn: "drain_turn dec d n = (goes_on, opus, d')"
    by (cases "drain_turn dec d n") auto
  note unfold = drain.simps [of dec played d]
  show ?case
  proof (cases goes_on)
    case True
    obtain k where k: "m = Suc k" "ad_next d' = Some (n + 1)" "blocks_ok (n + 1) (ad_blocks d')"
      "\<forall>b sh. map_of (ad_blocks d') b = Some sh \<longrightarrow> nonempty sh \<longrightarrow> ahead (n + 1) b \<le> k"
      using drain_turn_progress [OF less.prems(1) turn [unfolded eqTrueI [OF True]] less.prems(3)] by blast
    have "\<exists>out d''. drain dec (played @ opus) d' = Some (out, d'') \<and> ad_ok d''"
      using less.IH [of k "n + 1" d' "played @ opus"] k by blast
    then show ?thesis
      unfolding unfold using less.prems(2) turn True by simp
  next
    case False
    obtain sh' where sh: "length sh' = GS_SHARDS" "distinct (map fst (ad_blocks d'))" "ad_next d' = Some n"
      "map_of (ad_blocks d') = (map_of (ad_blocks d))(block_of n \<mapsto> sh')"
      using drain_turn_eq [OF less.prems(1) turn] False less.prems(2) by (auto simp: Let_def)
    have "ad_ok d'"
      using sh less.prems(1) by (auto simp: ad_ok_def blocks_ok_def block_of_props)
    then show ?thesis
      unfolding unfold using less.prems(2) turn False by simp
  qed
qed

lemma audio_parse_ok:
  "audio_parse data = Some (sequence, base, index, payload) \<Longrightarrow>
     unat base mod 4 = 0 \<and> index < GS_SHARDS \<and> (index < GS_DATA_SHARDS \<longrightarrow> block_of sequence = base)"
  by (auto simp: audio_parse_def Let_def block_of_props gs_consts split: if_splits)

lemma unat_half: "0 \<le> sint (x :: u16) \<Longrightarrow> unat x < 32768"
proof -
  assume pos: "0 \<le> sint x"
  have lt: "sint x < 32768"
    using sint_lt [of x] by simp
  have "uint x = sint x"
    using pos lt by (simp add: uint_sint take_bit_eq_mod)
  with lt have "nat (uint x) < nat 32768"
    using pos by (subst nat_less_eq_zless) simp_all
  then show ?thesis
    by simp
qed

lemma audio_add_ends:
  assumes "ad_ok d"
  shows "\<exists>out d'. audio_add dec d data = Some (out, d') \<and> ad_ok d'"
proof (cases "audio_parse data")
  case None
  then show ?thesis
    using assms by (simp add: audio_add_def)
next
  case (Some q)
  obtain sequence base index payload where q: "q = (sequence, base, index, payload)"
    by (cases q) auto
  note parse = audio_parse_ok [OF Some [unfolded q]]
  define n where "n = (case ad_next d of Some n \<Rightarrow> n | None \<Rightarrow> if index < GS_DATA_SHARDS then sequence else base)"
  have ok: "blocks_ok n (ad_blocks d)"
    using assms by (auto simp: ad_ok_def n_def blocks_ok_def split: option.splits)
  show ?thesis
  proof (cases "after base (block_of n) < 0")
    case True
    then show ?thesis
      using ok by (simp add: audio_add_def Some q ad_ok_def n_def [symmetric] Let_def)
  next
    case False
    define bs where "bs = AList.update base ((the (map_of (or_default base (ad_blocks d)) base))[index := Some payload])
        (or_default base (ad_blocks d))"
    have "unat (base - block_of n) < 32768"
      using False by (intro unat_half) (simp add: after_def)
    then have bs: "blocks_ok n bs"
      using ok parse
      by (auto simp: blocks_ok_def bs_def distinct_update distinct_or_default update_conv' map_of_or_default
          split: option.splits if_splits)
    obtain m where "\<forall>(b, sh)\<in>set bs. ahead n b \<le> m"
    proof
      show "\<forall>(b, sh)\<in>set bs. ahead n b \<le> 65540"
      proof clarify
        fix b sh
        show "ahead n b \<le> 65540"
          using unat_u16_le [of "b - block_of n"] diff_le_self [of 4 "unat n mod 4"] by (simp add: ahead_def)
      qed
    qed
    then have "\<exists>out d'. drain dec [] (d\<lparr>ad_next := Some n, ad_blocks := bs\<rparr>) = Some (out, d') \<and> ad_ok d'"
      using bs drain_ends [of n "d\<lparr>ad_next := Some n, ad_blocks := bs\<rparr>" m] by (fastforce dest: map_of_SomeD)
    then show ?thesis
      using False by (simp add: audio_add_def Some q n_def [symmetric] bs_def [symmetric] Let_def)
  qed
qed

fun audio_feed ::
  "(bytes \<Rightarrow> bytes \<Rightarrow> bytes \<Rightarrow> bytes option) \<Rightarrow> depacketizer \<Rightarrow> bytes list \<Rightarrow> (bytes list \<times> depacketizer) option" where
  "audio_feed dec d [] = Some ([], d)"
| "audio_feed dec d (data # rest) =
     (case audio_add dec d data of
        None \<Rightarrow> None
      | Some (out, d) \<Rightarrow>
          (case audio_feed dec d rest of None \<Rightarrow> None | Some (outs, d) \<Rightarrow> Some (out @ outs, d)))"

text \<open>
  C16. Whatever packets reach a client, taking one always returns: the loop that plays the blocks ends,
  for every sequence of packets, hostile ones included.
\<close>

theorem audio_feed_terminates: "\<exists>out d. audio_feed dec (depacketizer_new key) packets = Some (out, d)"
proof -
  have "ad_ok d \<Longrightarrow> \<exists>out d'. audio_feed dec d packets = Some (out, d')" for d
  proof (induction packets arbitrary: d)
    case (Cons data rest)
    obtain out d' where "audio_add dec d data = Some (out, d')" "ad_ok d'"
      using audio_add_ends [OF Cons.prems] by blast
    with Cons.IH [of d'] show ?case
      by auto
  qed simp
  then show ?thesis
    by (simp add: ad_ok_def depacketizer_new_def)
qed

section \<open>A stream and its losses\<close>

fun audio_send ::
  "(bytes \<Rightarrow> bytes \<Rightarrow> bytes \<Rightarrow> bytes) \<Rightarrow> packetizer \<Rightarrow> bytes list \<Rightarrow> (bytes list \<times> packetizer) option" where
  "audio_send enc p [] = Some ([], p)"
| "audio_send enc p (opus # rest) =
     (case audio_packets enc p opus of
        None \<Rightarrow> None
      | Some (out, p) \<Rightarrow>
          (case audio_send enc p rest of None \<Rightarrow> None | Some (outs, p) \<Rightarrow> Some (out @ outs, p)))"

definition sent_payload :: "(bytes \<Rightarrow> bytes \<Rightarrow> bytes \<Rightarrow> bytes) \<Rightarrow> audio_key option \<Rightarrow> u16 \<Rightarrow> bytes \<Rightarrow> bytes" where
  "sent_payload enc key sequence opus =
     (case key of Some k \<Rightarrow> enc (ak_key k) (audio_iv (ak_key_id k) sequence) opus | None \<Rightarrow> opus)"

definition opened :: "(bytes \<Rightarrow> bytes \<Rightarrow> bytes \<Rightarrow> bytes option) \<Rightarrow> audio_key option \<Rightarrow> u16 \<Rightarrow> bytes \<Rightarrow> bytes option" where
  "opened dec key sequence payload =
     (case key of Some k \<Rightarrow> dec (ak_key k) (audio_iv (ak_key_id k) sequence) payload | None \<Rightarrow> Some payload)"

text \<open>The six packets of a block and the six shards they carry.\<close>

definition block_shards :: "(bytes \<Rightarrow> bytes \<Rightarrow> bytes \<Rightarrow> bytes) \<Rightarrow> audio_key option \<Rightarrow> u16 \<Rightarrow> bytes list \<Rightarrow> bytes list" where
  "block_shards enc key b os = map (\<lambda>i. sent_payload enc key (b + of_nat i) (os ! i)) [0..<4]"

definition codeword :: "bytes list \<Rightarrow> bytes list" where
  "codeword data = data @ (case gs_parity data of None \<Rightarrow> [] | Some par \<Rightarrow> par)"

definition block_packet :: "u32 \<Rightarrow> u16 \<Rightarrow> bytes list \<Rightarrow> nat \<Rightarrow> bytes" where
  "block_packet duration_ms b w i =
     (if i < 4 then rtp PAYLOAD_TYPE (b + of_nat i) (ucast (b + of_nat i) * duration_ms) @ w ! i
      else audio_parity_packet (b + 3) duration_ms (i - 4) (w ! i))"

lemma codeword_props:
  assumes "length data = 4" "\<forall>s\<in>set data. length s = z"
  shows "length (codeword data) = 6" "take 4 (codeword data) = data"
    "gs_parity data = Some (drop 4 (codeword data))"
    "received (codeword data) got \<Longrightarrow> gs_recover got = (if 4 \<le> arrived got then Some data else None)"
proof -
  obtain par where par: "gs_parity data = Some par" "length par = 2"
    "\<And>got. received (data @ par) got \<Longrightarrow> gs_recover got = (if 4 \<le> arrived got then Some data else None)"
    using gs_recover_exact [of data z] assms by (auto simp: gs_consts)
  then have "codeword data = data @ par"
    by (simp add: codeword_def)
  then show "length (codeword data) = 6" "take 4 (codeword data) = data"
    "gs_parity data = Some (drop 4 (codeword data))"
    "received (codeword data) got \<Longrightarrow> gs_recover got = (if 4 \<le> arrived got then Some data else None)"
    using par assms(1) by simp_all
qed

lemma codeword_sizes:
  assumes "length data = 4" "\<forall>s\<in>set data. length s = z"
  shows "\<forall>s\<in>set (codeword data). length s = z"
proof -
  obtain par where "encode gs_the_code data = Inr par" "\<forall>s\<in>set par. length s = z"
    using encode_total [OF gs_code_ok(1), of data z] assms by auto
  then show ?thesis
    using assms(2) by (auto simp: codeword_def gs_parity_eq)
qed

lemma send_first:
  assumes "unat b mod 4 = 0" "i < 3" "ap_sequence p = b + of_nat i"
    "0 < i \<longrightarrow> length (ap_block p) = i"
  shows "audio_packets enc p opus = (let s = sent_payload enc (ap_key p) (b + of_nat i) opus in
     Some ([rtp PAYLOAD_TYPE (b + of_nat i) (ucast (b + of_nat i) * ap_duration_ms p) @ s],
       p\<lparr>ap_sequence := b + of_nat (i + 1), ap_block := (if i = 0 then [] else ap_block p) @ [s]\<rparr>))"
proof -
  have "unat (b + of_nat i) mod 4 = i"
    using unat_offset(1) [OF assms(1), of i] assms(1,2) by (simp add: mod_add_left_eq [symmetric])
  then show ?thesis
    using assms(2,3) by (auto simp: audio_packets_def Let_def sent_payload_def gs_consts add.assoc)
qed

lemma send_last:
  assumes "unat b mod 4 = 0" "ap_sequence p = b + 3" "length (ap_block p) = 3"
    and "data = ap_block p @ [sent_payload enc (ap_key p) (b + 3) opus]" "\<forall>s\<in>set data. length s = z"
  shows "audio_packets enc p opus =
     Some ((rtp PAYLOAD_TYPE (b + 3) (ucast (b + 3) * ap_duration_ms p) @ codeword data ! 3)
         # map (block_packet (ap_duration_ms p) b (codeword data)) [4, 5],
       p\<lparr>ap_sequence := b + 4, ap_block := data\<rparr>)"
proof -
  have len: "length data = 4"
    using assms(3,4) by simp
  note cw = codeword_props [OF len assms(5)]
  have mod: "unat (b + 3) mod 4 = 3"
    using unat_offset(1) [OF assms(1), of 3] assms(1) by (simp add: mod_add_left_eq [symmetric])
  have par: "drop 4 (codeword data) = [codeword data ! 4, codeword data ! 5]"
    using cw(1) by (simp add: list_eq_iff_nth_eq less_Suc_eq numeral_2_eq_2)
  have three: "codeword data ! 3 = sent_payload enc (ap_key p) (b + 3) opus"
    using assms(3,4) by (simp add: codeword_def nth_append)
  have first: "length (data ! 0) = z"
    using assms(5) len by simp
  have same: "list_all (\<lambda>s. length s = z) (ap_block p)" "length (sent_payload enc (ap_key p) (b + 3) opus) = z"
    using assms(4,5) by (simp_all add: list_all_iff)
  have pay: "(case ap_key p of Some key \<Rightarrow> enc (ak_key key) (audio_iv (ak_key_id key) (b + 3)) opus | None \<Rightarrow> opus)
      = sent_payload enc (ap_key p) (b + 3) opus"
    by (simp add: sent_payload_def)
  show ?thesis
    using mod same first assms(3)
    by (simp add: audio_packets_def Let_def assms(2) pay assms(4) [symmetric] gs_consts cw(3) par three
        block_packet_def add.assoc)
qed

lemma upt_6: "[0..<6] = [0, 1, 2, 3, 4, 5]"
  by (simp add: upt_conv_Cons)

lemma send_block:
  assumes "unat b mod 4 = 0" "ap_sequence p = b" "length os = 4"
    and "\<forall>s\<in>set (block_shards enc (ap_key p) b os). length s = z"
  shows "\<exists>blk. audio_send enc p (os @ rest) =
     (case audio_send enc (p\<lparr>ap_sequence := b + 4, ap_block := blk\<rparr>) rest of
        None \<Rightarrow> None
      | Some (outs, p') \<Rightarrow> Some (map (block_packet (ap_duration_ms p) b
            (codeword (block_shards enc (ap_key p) b os))) [0..<6] @ outs, p'))"
proof -
  obtain o0 o1 o2 o3 where os: "os = [o0, o1, o2, o3]"
    using assms(3) by (auto simp: eval_nat_numeral length_Suc_conv)
  let ?s = "\<lambda>i. sent_payload enc (ap_key p) (b + of_nat i) (os ! i)"
  let ?data = "block_shards enc (ap_key p) b os" and ?d = "ap_duration_ms p"
  let ?w = "codeword ?data"
  have data: "?data = [?s 0, ?s 1, ?s 2, ?s 3]"
    by (simp add: block_shards_def upt_rec eval_nat_numeral)
  have w: "?w ! 0 = ?s 0" "?w ! 1 = ?s 1" "?w ! 2 = ?s 2"
    by (simp_all add: codeword_def data)
  let ?p1 = "p\<lparr>ap_sequence := b + 1, ap_block := [?s 0]\<rparr>"
  let ?p2 = "p\<lparr>ap_sequence := b + 2, ap_block := [?s 0, ?s 1]\<rparr>"
  let ?p3 = "p\<lparr>ap_sequence := b + 3, ap_block := [?s 0, ?s 1, ?s 2]\<rparr>"
  have "audio_packets enc p o0 = Some ([block_packet ?d b ?w 0], ?p1)"
    using send_first [OF assms(1), of 0 p enc o0] assms(2) w by (simp add: os block_packet_def Let_def)
  moreover have "audio_packets enc ?p1 o1 = Some ([block_packet ?d b ?w 1], ?p2)"
    using send_first [OF assms(1), of 1 ?p1 enc o1] w by (simp add: os block_packet_def Let_def)
  moreover have "audio_packets enc ?p2 o2 = Some ([block_packet ?d b ?w 2], ?p3)"
    using send_first [OF assms(1), of 2 ?p2 enc o2] w by (simp add: os block_packet_def Let_def)
  moreover have "audio_packets enc ?p3 o3 = Some (map (block_packet ?d b ?w) [3, 4, 5],
      p\<lparr>ap_sequence := b + 4, ap_block := ?data\<rparr>)"
    using send_last [OF assms(1), of ?p3 ?data enc o3 z] assms(4) data
    by (simp add: os block_packet_def)
  ultimately show ?thesis
    using upt_6 by (intro exI [of _ ?data]) (simp add: os split: option.splits)
qed

section \<open>Playing a block\<close>

text \<open>The block with the shards \<open>A\<close> of the codeword \<open>w\<close>, and the first of its four packets not in it.\<close>

definition got_of :: "bytes list \<Rightarrow> nat set \<Rightarrow> bytes option list" where
  "got_of w A = map (\<lambda>i. if i \<in> A then Some (w ! i) else None) [0..<6]"

definition lead :: "nat set \<Rightarrow> nat" where
  "lead A = length (takeWhile (\<lambda>i. i \<in> A) [0..<4])"

definition good_word ::
  "(bytes \<Rightarrow> bytes \<Rightarrow> bytes \<Rightarrow> bytes option) \<Rightarrow> audio_key option \<Rightarrow> u16 \<Rightarrow> bytes list \<Rightarrow> bytes list \<Rightarrow> bool" where
  "good_word dec key b os w =
     (unat b mod 4 = 0 \<and> length w = 6 \<and> length os = 4 \<and> (\<forall>i<6. w ! i \<noteq> [])
      \<and> (\<forall>i<4. opened dec key (b + of_nat i) (w ! i) = Some (os ! i))
      \<and> (\<forall>got. received w got \<longrightarrow> gs_recover got = (if 4 \<le> arrived got then Some (take 4 w) else None)))"

lemma got_of_nth: "i < 6 \<Longrightarrow> got_of w A ! i = (if i \<in> A then Some (w ! i) else None)"
  by (simp add: got_of_def)

lemma length_got_of [simp]: "length (got_of w A) = 6"
  by (simp add: got_of_def)

lemma got_of_insert: "i < 6 \<Longrightarrow> (got_of w A)[i := Some (w ! i)] = got_of w (insert i A)"
  by (rule nth_equalityI) (auto simp: nth_list_update got_of_nth)

lemma got_of_empty [simp]: "got_of w {} = replicate GS_SHARDS None"
  by (rule nth_equalityI) (simp_all add: got_of_nth gs_consts)

lemma received_got_of: "length w = 6 \<Longrightarrow> received w (got_of w A)"
  by (simp add: received_def got_of_nth)

lemma arrived_got_of: "A \<subseteq> {..<6} \<Longrightarrow> arrived (got_of w A) = card A"
proof -
  assume A: "A \<subseteq> {..<6}"
  have "arrived (got_of w A) = length (filter (\<lambda>i. i \<in> A) [0..<6])"
    by (simp add: arrived_def got_of_def filter_map comp_def if_distrib cong: if_cong)
  also have "\<dots> = card A"
    using A by (subst distinct_card [symmetric]) (auto intro: arg_cong [where f = card])
  finally show ?thesis .
qed

lemma lead_props:
  "lead A \<le> 4" "i < lead A \<Longrightarrow> i \<in> A" "lead A < 4 \<Longrightarrow> lead A \<notin> A"
proof -
  show "lead A \<le> 4"
    using length_takeWhile_le [of _ "[0..<4]"] by (simp add: lead_def)
  show "i \<in> A" if "i < lead A"
  proof -
    let ?t = "takeWhile (\<lambda>i. i \<in> A) [0..<4]"
    have len: "i < length ?t" "i < 4"
      using that \<open>lead A \<le> 4\<close> by (simp_all add: lead_def)
    from nth_mem [OF len(1)] have "?t ! i \<in> A"
      using set_takeWhileD by fast
    then show ?thesis
      using len by (simp add: takeWhile_nth)
  qed
  show "lead A \<notin> A" if "lead A < 4"
    using that nth_length_takeWhile [of "\<lambda>i. i \<in> A" "[0..<4]"] by (simp add: lead_def)
qed

lemma lead_eq: "j \<le> 4 \<Longrightarrow> (\<forall>i<j. i \<in> A) \<Longrightarrow> j \<notin> A \<or> j = 4 \<Longrightarrow> lead A = j"
proof (rule antisym)
  assume j: "j \<le> 4" "\<forall>i<j. i \<in> A" "j \<notin> A \<or> j = 4"
  show "lead A \<le> j"
  proof (rule ccontr)
    assume "\<not> lead A \<le> j"
    then have less: "j < lead A"
      by simp
    then have "j = 4"
      using j(3) lead_props(2) [OF less] by blast
    then show False
      using less lead_props(1) [of A] by simp
  qed
  show "j \<le> lead A"
  proof (rule ccontr)
    assume "\<not> j \<le> lead A"
    then have "lead A < j" "lead A < 4"
      using j(1) by simp_all
    then show False
      using j(2) lead_props(3) by blast
  qed
qed

lemma lead_less: "card A < 4 \<Longrightarrow> A \<subseteq> {..<6} \<Longrightarrow> lead A < 4"
proof (rule ccontr)
  assume A: "card A < 4" "A \<subseteq> {..<6}" and "\<not> lead A < 4"
  then have "{..<4} \<subseteq> A"
    using lead_props(2) [where A = A] lead_props(1) [of A] by auto
  then have "card {..<4 :: nat} \<le> card A"
    using A(2) finite_subset by (intro card_mono) auto
  then show False
    using A(1) by simp
qed

lemma single_block [simp]:
  "or_default b [(b, sh)] = [(b, sh)]" "AList.update b sh' [(b, sh)] = [(b, sh')]" "AList.delete b [(b, sh)] = []"
  "or_default b [] = [(b, replicate GS_SHARDS None)]"
  by (simp_all add: or_default_def)

lemma rebuild_got_of:
  assumes "good_word dec key b os w" "A \<subseteq> {..<6}"
  shows "fst (rebuild (got_of w A)) = (if 4 \<le> card A then got_of w (A \<union> {..<4}) else got_of w A)"
proof -
  have rec: "gs_recover (got_of w A) = (if 4 \<le> card A then Some (take 4 w) else None)"
    using assms received_got_of [of w A] arrived_got_of [OF assms(2), of w] by (simp add: good_word_def)
  have "map (\<lambda>i. if i < 4 \<and> got_of w A ! i = None then Some (take 4 w ! i) else got_of w A ! i) [0..<6]
      = got_of w (A \<union> {..<4})"
    by (rule nth_equalityI) (auto simp: got_of_nth)
  then show ?thesis
    using assms(1) by (simp add: rebuild_def rec good_word_def)
qed

text \<open>One turn at the packet \<open>j\<close> of the only block.\<close>

lemma turn_at:
  assumes w: "good_word dec key b os w" "A \<subseteq> {..<6}" and j: "j < 4"
    and d: "ad_key d = key" "ad_blocks d = [(b, got_of w A)]"
  shows "drain_turn dec d (b + of_nat j) =
     (let A' = (if j \<in> A \<or> card A < 4 then A else A \<union> {..<4});
          r = (if j \<in> A then ad_recovered d else ad_recovered d + of_nat (snd (rebuild (got_of w A))))
      in if j \<in> A'
         then (True, [os ! j], d\<lparr>ad_recovered := r, ad_next := Some (b + of_nat (j + 1)),
           ad_blocks := (if j = 3 then [] else [(b, got_of w A')])\<rparr>)
         else (False, [], d\<lparr>ad_recovered := r\<rparr>))"
proof -
  have b: "unat b mod 4 = 0"
    using w(1) by (simp add: good_word_def)
  define n where "n = b + of_nat j"
  have "unat (n - b) = j"
    using j by (simp add: n_def unat_of_nat take_bit_eq_mod)
  moreover have "n + 1 = b + of_nat (j + 1)"
    by (simp only: n_def of_nat_add of_nat_1 add.assoc)
  ultimately have n: "block_of n = b" "unat (n - b) = j" "n + 1 = b + of_nat (j + 1)" "unat n = unat b + j"
    using unat_offset(1,2) [OF b j] by (simp_all only: n_def)
  have mod: "(b + of_nat (j + 1)) mod 4 = 0 \<longleftrightarrow> j = 3"
  proof -
    have "(n + 1) mod 4 = 0 \<longleftrightarrow> unat (n + 1) mod 4 = 0"
      by (metis unat_mod4 unat_eq_0)
    also have "\<dots> \<longleftrightarrow> (unat b + j + 1) mod 4 = 0"
      by (simp add: unat_Suc_u16 n(4))
    also have "\<dots> \<longleftrightarrow> j = 3"
      using b j by presburger
    finally show ?thesis
      unfolding n(3) .
  qed
  have op: "(case key of Some k \<Rightarrow> dec (ak_key k) (audio_iv (ak_key_id k) n) (w ! j)
      | None \<Rightarrow> Some (w ! j)) = Some (os ! j)"
  proof -
    have "opened dec key n (w ! j) = Some (os ! j)"
      using w(1) j unfolding good_word_def n_def by blast
    then show ?thesis
      by (simp add: opened_def)
  qed
  have alone: "\<not> list_ex (\<lambda>(b', sh). 0 < after b' b \<and> GS_DATA_SHARDS \<le> length (filter (\<lambda>s. s \<noteq> None) sh)) [(b, sh)]" for sh
    by (simp add: after_def)
  note turn = drain_turn_def [of dec d n, unfolded Let_def n(1-3) mod d(2)]
  have shj: "got_of w C ! j = (if j \<in> C then Some (w ! j) else None)" for C
    using j by (simp add: got_of_nth)
  have same: "d\<lparr>ad_blocks := [(b, got_of w A)], ad_recovered := r\<rparr> = d\<lparr>ad_recovered := r\<rparr>" for r
    using d(2) by (cases d) simp
  show ?thesis
  proof (cases "j \<in> A")
    case True
    then show ?thesis
      unfolding n_def [symmetric] turn by (simp add: d(1) shj op)
  next
    case False
    then show ?thesis
      unfolding n_def [symmetric] turn using rebuild_got_of [OF w] alone
      by (simp add: d(1) shj op split_beta j same after_def)
  qed
qed

lemma drain_unfold:
  "ad_next d = Some n \<Longrightarrow> drain dec played d =
     (case drain_turn dec d n of
        (goes_on, opus, d') \<Rightarrow> if goes_on then drain dec (played @ opus) d' else Some (played, d'))"
  by (simp add: drain.simps)

text \<open>With fewer than four shards the loop plays what is there and waits.\<close>

lemma drain_few:
  assumes w: "good_word dec key b os w" "A \<subseteq> {..<6}" "card A < 4"
    and d: "ad_key d = key" "ad_blocks d = [(b, got_of w A)]" "ad_next d = Some (b + of_nat j)" "j \<le> lead A"
  shows "\<exists>r. drain dec played d = Some (played @ subslice os j (lead A),
     d\<lparr>ad_recovered := r, ad_next := Some (b + of_nat (lead A))\<rparr>)"
  using d
proof (induction "lead A - j" arbitrary: j d played)
  case 0
  then have j: "j = lead A" "j < 4" "j \<notin> A"
    using lead_less [OF w(3,2)] lead_props(3) [of A] by simp_all
  have "drain_turn dec d (b + of_nat j) = (False, [], d\<lparr>ad_recovered := ad_recovered d + of_nat (snd (rebuild (got_of w A)))\<rparr>)"
    using turn_at [OF w(1,2) j(2)] 0 j w(3) by (simp add: Let_def)
  then show ?case
    using 0(4) j(1) by (intro exI [of _ "ad_recovered d + of_nat (snd (rebuild (got_of w A)))"])
      (simp add: drain_unfold subslice_def)
next
  case (Suc m)
  then have j: "j < lead A" "j < 3" "j \<in> A"
    using lead_less [OF w(3,2)] lead_props(2) [of j A] by simp_all
  have m: "m = lead A - (j + 1)"
    using Suc.hyps(2) by simp
  let ?d = "d\<lparr>ad_next := Some (b + of_nat (j + 1)), ad_blocks := [(b, got_of w A)]\<rparr>"
  have "drain_turn dec d (b + of_nat j) = (True, [os ! j], ?d)"
    using turn_at [OF w(1,2), of j d] Suc.prems j by (simp add: Let_def)
  moreover obtain r where "drain dec (played @ [os ! j]) ?d = Some ((played @ [os ! j]) @ subslice os (j + 1) (lead A),
     ?d\<lparr>ad_recovered := r, ad_next := Some (b + of_nat (lead A))\<rparr>)"
    using Suc.hyps(1) [OF m, of ?d "played @ [os ! j]"] Suc.prems j by auto
  moreover have "subslice os j (lead A) = os ! j # subslice os (j + 1) (lead A)"
    using j w(1) subslice_Cons [of j "lead A" os] by (simp add: good_word_def)
  ultimately show ?case
    using Suc.prems(2,3) by (intro exI [of _ r]) (simp add: drain_unfold)
qed

text \<open>With four it plays the block to its end and waits at the next one.\<close>

definition next_block :: "u16 \<Rightarrow> depacketizer \<Rightarrow> bool" where
  "next_block b d = (ad_next d = Some b \<and> ad_blocks d = [(b, replicate GS_SHARDS None)])"

lemma gs_recover_none: "gs_recover (replicate GS_SHARDS None) = None"
  using gs_recover_nonempty not_nonempty_replicate by blast

lemma turn_new_block:
  assumes "unat b mod 4 = 0" "ad_next d = Some b" "ad_blocks d = []"
  shows "drain_turn dec d b = (False, [], d\<lparr>ad_blocks := [(b, replicate GS_SHARDS None)]\<rparr>)"
proof -
  have b: "block_of b = b"
    using unat_offset(2) [OF assms(1), of 0] by simp
  have none: "replicate GS_SHARDS None ! 0 = None"
    by (simp add: gs_consts)
  have reb: "rebuild (replicate GS_SHARDS None) = (replicate GS_SHARDS None, 0)"
    by (simp add: rebuild_def gs_recover_none)
  have blocks: "or_default b (ad_blocks d) = [(b, replicate GS_SHARDS None)]"
    "the (map_of [(b, replicate GS_SHARDS None)] b) = replicate GS_SHARDS None"
    by (simp_all add: assms(3))
  show ?thesis
    unfolding drain_turn_def Let_def b blocks by (simp add: none reb after_def)
qed

lemma next_base: "unat (b :: u16) mod 4 = 0 \<Longrightarrow> unat (b + 4) mod 4 = 0"
proof -
  assume "unat b mod 4 = 0"
  moreover have "unat (b + 4) = (unat b + 4) mod 65536"
    by (simp add: unat_word_ariths)
  ultimately show ?thesis
    by (simp add: mod_mod_cancel)
qed

lemma drain_full:
  assumes w: "good_word dec key b os w" "A \<subseteq> {..<6}" "4 \<le> card A"
    and d: "ad_key d = key" "ad_blocks d = [(b, got_of w A)]" "ad_next d = Some (b + of_nat j)" "j < 4"
  shows "\<exists>d'. drain dec played d = Some (played @ subslice os j 4, d')
     \<and> next_block (b + 4) d' \<and> ad_key d' = key \<and> ad_lost d' = ad_lost d"
  using w(2,3) d
proof (induction "3 - j" arbitrary: j d played A)
  case 0
  then have j: "j = 3"
    by simp
  let ?r = "if j \<in> A then ad_recovered d else ad_recovered d + of_nat (snd (rebuild (got_of w A)))"
  let ?d = "d\<lparr>ad_recovered := ?r, ad_next := Some (b + 4), ad_blocks := []\<rparr>"
  have b: "unat (b + 4) mod 4 = 0"
    using w(1) by (simp add: good_word_def next_base)
  have "drain_turn dec d (b + of_nat j) = (True, [os ! j], ?d)"
    using turn_at [OF w(1), of A j d] 0 j by (auto simp: Let_def)
  moreover have "drain dec (played @ [os ! j]) ?d = Some (played @ [os ! j], ?d\<lparr>ad_blocks := [(b + 4, replicate GS_SHARDS None)]\<rparr>)"
    using turn_new_block [OF b, of ?d dec] by (simp add: drain_unfold [of ?d "b + 4"])
  moreover have "subslice os 3 4 = [os ! 3]"
    using w(1) subslice_Cons [of 3 4 os] by (simp add: good_word_def subslice_def)
  ultimately show ?case
    using 0 j by (simp add: drain_unfold next_block_def)
next
  case (Suc m)
  then have j: "j < 3"
    by simp
  let ?A = "if j \<in> A then A else A \<union> {..<4}"
  let ?r = "if j \<in> A then ad_recovered d else ad_recovered d + of_nat (snd (rebuild (got_of w A)))"
  let ?d = "d\<lparr>ad_recovered := ?r, ad_next := Some (b + of_nat (j + 1)), ad_blocks := [(b, got_of w ?A)]\<rparr>"
  have A: "?A \<subseteq> {..<6}" "4 \<le> card ?A"
    using Suc.prems(1,2) card_mono [of "A \<union> {..<4}" A] finite_subset [OF Suc.prems(1)] by auto
  have "drain_turn dec d (b + of_nat j) = (True, [os ! j], ?d)"
    using turn_at [OF w(1), of A j d] Suc.prems j by (auto simp: Let_def)
  moreover have "\<exists>d'. drain dec (played @ [os ! j]) ?d = Some ((played @ [os ! j]) @ subslice os (j + 1) 4, d')
     \<and> next_block (b + 4) d' \<and> ad_key d' = key \<and> ad_lost d' = ad_lost ?d"
    using Suc.hyps(2) Suc.prems(3) j A by (intro Suc.hyps(1)) simp_all
  moreover have "subslice os j 4 = os ! j # subslice os (j + 1) 4"
    using j w(1) subslice_Cons [of j 4 os] by (simp add: good_word_def)
  ultimately show ?case
    using Suc.prems(5) by (auto simp: drain_unfold)
qed

section \<open>Taking the packets of a block\<close>

lemma be_bytes_2: "be_bytes 2 s = [be_bytes 2 s ! 0, be_bytes 2 s ! 1]"
  by (simp add: numeral_2_eq_2)

lemma rtp_props:
  "length (rtp k s ts) = 12" "(rtp k s ts @ rest) ! 1 = k"
  "of_be [(rtp k s ts @ rest) ! 2, (rtp k s ts @ rest) ! 3] = s"
  "(rtp k s ts @ rest) ! 12 = rest ! 0" "(rtp k s ts @ rest) ! 14 = rest ! 2" "(rtp k s ts @ rest) ! 15 = rest ! 3"
proof -
  show len: "length (rtp k s ts) = 12"
    by (simp add: rtp_def)
  obtain x y where xy: "be_bytes 2 s = [x, y]"
    using be_bytes_2 by blast
  have "of_be [x, y] = s"
    using of_be_be_bytes [of 2 s] by (simp add: xy)
  then show "(rtp k s ts @ rest) ! 1 = k" "of_be [(rtp k s ts @ rest) ! 2, (rtp k s ts @ rest) ! 3] = s"
    by (simp_all add: rtp_def xy)
  show "(rtp k s ts @ rest) ! 12 = rest ! 0" "(rtp k s ts @ rest) ! 14 = rest ! 2" "(rtp k s ts @ rest) ! 15 = rest ! 3"
    by (simp_all add: nth_append len)
qed

lemma parse_block_packet:
  assumes "good_word dec key b os w" "i < 6"
  shows "\<exists>s. audio_parse (block_packet duration_ms b w i) = Some (s, b, i, w ! i)
    \<and> (i < 4 \<longrightarrow> s = b + of_nat i)"
proof (cases "i < 4")
  case True
  have b: "unat b mod 4 = 0" and ne: "w ! i \<noteq> []"
    using assms by (simp_all add: good_word_def)
  let ?s = "b + of_nat i"
  have "unat ?s mod 4 = i"
    using unat_offset(1) [OF b True] b True by (simp add: mod_add_left_eq [symmetric])
  then show ?thesis
    using True ne unat_offset(2) [OF b True] rtp_props
    by (simp add: audio_parse_def block_packet_def Let_def RTP_HEADER_def gs_consts PAYLOAD_TYPE_def)
next
  case False
  then have i: "i = 4 \<or> i = 5"
    using assms(2) by auto
  have b: "unat b mod 4 = 0" and ne: "w ! i \<noteq> []"
    using assms by (simp_all add: good_word_def)
  obtain x y where xy: "be_bytes 2 b = [x, y]"
    using be_bytes_2 by blast
  have base: "of_be [x, y] = b"
    using of_be_be_bytes [of 2 b] by (simp add: xy)
  let ?rest = "[of_nat (i - 4), PAYLOAD_TYPE] @ be_bytes 2 (b + 3 - 3) @ be_bytes 4 (ucast (b + 3 - 3) * duration_ms)
     @ be_bytes 4 (0 :: u32) @ w ! i"
  have pkt: "block_packet duration_ms b w i = rtp FEC_PAYLOAD_TYPE (b + 3 + of_nat (i - 4) + 1) 0 @ ?rest"
    using False by (simp add: block_packet_def audio_parity_packet_def Let_def)
  have rest: "?rest ! 0 = of_nat (i - 4)" "of_be [?rest ! 2, ?rest ! 3] = b" "drop 12 ?rest = w ! i" "12 < length ?rest"
    using base ne by (simp_all add: xy)
  show ?thesis
    unfolding pkt using i b rest rtp_props(1)
      rtp_props(2-) [where k = FEC_PAYLOAD_TYPE and s = "b + 3 + of_nat (i - 4) + 1" and ts = 0 and rest = ?rest]
    by (auto simp: audio_parse_def Let_def RTP_HEADER_def FEC_HEADER_def gs_consts PAYLOAD_TYPE_def FEC_PAYLOAD_TYPE_def
        simp del: append_Cons)
qed

definition at_block :: "audio_key option \<Rightarrow> u16 \<Rightarrow> bytes list \<Rightarrow> nat set \<Rightarrow> depacketizer \<Rightarrow> bool" where
  "at_block key b w A d =
     (ad_key d = key \<and> ad_lost d = 0 \<and> ad_next d = Some (b + of_nat (lead A)) \<and>
      (ad_blocks d = [(b, got_of w A)] \<or> A = {} \<and> ad_blocks d = []))"

lemma lead_empty [simp]: "lead {} = 0"
  by (simp add: lead_def upt_rec)

lemma lead_insert: "lead A \<le> lead (insert i A)"
  by (metis insertCI lead_props(1,2,3) not_le order_less_le_trans)

lemma add_in_block:
  assumes w: "good_word dec key b os w" "A \<subseteq> {..<6}" "card A < 4" "i < 6"
    and d: "at_block key b w A d \<or> A = {} \<and> d = depacketizer_new key \<and> (i = 0 \<or> 4 \<le> i)"
  shows "\<exists>d'. if card (insert i A) < 4
    then audio_add dec d (block_packet duration_ms b w i) = Some (subslice os (lead A) (lead (insert i A)), d')
      \<and> at_block key b w (insert i A) d'
    else audio_add dec d (block_packet duration_ms b w i) = Some (subslice os (lead A) 4, d')
      \<and> next_block (b + 4) d' \<and> ad_key d' = key \<and> ad_lost d' = 0"
proof -
  let ?A = "insert i A"
  obtain s where s: "audio_parse (block_packet duration_ms b w i) = Some (s, b, i, w ! i)" "i < 4 \<longrightarrow> s = b + of_nat i"
    using parse_block_packet [OF w(1,4)] by blast
  have b: "unat b mod 4 = 0"
    using w(1) by (simp add: good_word_def)
  let ?d = "d\<lparr>ad_next := Some (b + of_nat (lead A)), ad_blocks := [(b, got_of w ?A)]\<rparr>"
  have le: "lead A < 4"
    by (rule lead_less [OF w(3,2)])
  have "audio_add dec d (block_packet duration_ms b w i) = drain dec [] ?d"
    using d s(2) unat_offset(2) [OF b le] got_of_insert [OF w(4), of w A] got_of_insert [OF w(4), of w "{}"]
    by (auto simp: audio_add_def s(1) at_block_def after_def depacketizer_new_def gs_consts Let_def)
  moreover have A: "?A \<subseteq> {..<6}"
    using w(2,4) by simp
  moreover have "ad_key d = key" "ad_lost d = 0"
    using d by (auto simp: at_block_def depacketizer_new_def)
  moreover have "\<exists>r. drain dec [] ?d = Some ([] @ subslice os (lead A) (lead ?A),
      ?d\<lparr>ad_recovered := r, ad_next := Some (b + of_nat (lead ?A))\<rparr>)" if "card ?A < 4"
    using \<open>ad_key d = key\<close> lead_insert by (intro drain_few [OF w(1) A that]) simp_all
  moreover have "\<exists>d'. drain dec [] ?d = Some ([] @ subslice os (lead A) 4, d')
      \<and> next_block (b + 4) d' \<and> ad_key d' = key \<and> ad_lost d' = ad_lost ?d" if "4 \<le> card ?A"
    using \<open>ad_key d = key\<close> le by (intro drain_full [OF w(1) A that]) simp_all
  ultimately show ?thesis
    by (cases "card ?A < 4") (auto simp: at_block_def)
qed

lemma add_late:
  assumes "good_word dec key b os w" "i < 6" "next_block (b + 4) d"
  shows "audio_add dec d (block_packet duration_ms b w i) = Some ([], d)"
proof -
  obtain s where s: "audio_parse (block_packet duration_ms b w i) = Some (s, b, i, w ! i)"
    using parse_block_packet [OF assms(1,2)] by blast
  have "block_of (b + 4) = b + 4"
    using unat_offset(2) [OF next_base, of b 0] assms(1) by (simp add: good_word_def)
  moreover have "d\<lparr>ad_next := Some (b + 4)\<rparr> = d"
    using assms(3) by (simp add: next_block_def)
  ultimately show ?thesis
    using assms(3) by (simp add: audio_add_def s next_block_def after_def Let_def)
qed

lemma audio_feed_append:
  "audio_feed dec d (xs @ ys) = (case audio_feed dec d xs of
     None \<Rightarrow> None
   | Some (out, d) \<Rightarrow> (case audio_feed dec d ys of None \<Rightarrow> None | Some (outs, d) \<Rightarrow> Some (out @ outs, d)))"
  by (induction xs arbitrary: d) (auto split: option.splits)

lemma feed_late:
  "good_word dec key b os w \<Longrightarrow> set js \<subseteq> {..<6} \<Longrightarrow> next_block (b + 4) d \<Longrightarrow>
     audio_feed dec d (map (block_packet duration_ms b w) js) = Some ([], d)"
  by (induction js) (simp_all add: add_late)

lemma feed_block:
  assumes w: "good_word dec key b os w"
    and "A \<subseteq> {..<6}" "card A < 4" "set js \<subseteq> {..<6}" "4 \<le> card (A \<union> set js)"
    and "at_block key b w A d \<or> A = {} \<and> d = depacketizer_new key \<and> (js \<noteq> [] \<longrightarrow> hd js = 0 \<or> 4 \<le> hd js)"
  shows "\<exists>d'. audio_feed dec d (map (block_packet duration_ms b w) js) = Some (subslice os (lead A) 4, d')
    \<and> next_block (b + 4) d' \<and> ad_key d' = key \<and> ad_lost d' = 0"
  using assms(2-)
proof (induction js arbitrary: A d)
  case (Cons i js)
  have i: "i < 6" and js: "set js \<subseteq> {..<6}"
    using Cons.prems(3) by auto
  obtain d' where d': "if card (insert i A) < 4
    then audio_add dec d (block_packet duration_ms b w i) = Some (subslice os (lead A) (lead (insert i A)), d')
      \<and> at_block key b w (insert i A) d'
    else audio_add dec d (block_packet duration_ms b w i) = Some (subslice os (lead A) 4, d')
      \<and> next_block (b + 4) d' \<and> ad_key d' = key \<and> ad_lost d' = 0"
    using add_in_block [OF w Cons.prems(1,2) i, of d] Cons.prems(5) by auto
  show ?case
  proof (cases "card (insert i A) < 4")
    case True
    have "\<exists>d''. audio_feed dec d' (map (block_packet duration_ms b w) js) = Some (subslice os (lead (insert i A)) 4, d'')
      \<and> next_block (b + 4) d'' \<and> ad_key d'' = key \<and> ad_lost d'' = 0"
      using Cons.prems True d' i js by (intro Cons.IH) simp_all
    moreover have "subslice os (lead A) (lead (insert i A)) @ subslice os (lead (insert i A)) 4 = subslice os (lead A) 4"
      by (rule subslice_append [OF lead_insert lead_props(1)])
    ultimately show ?thesis
      using True d' by auto
  next
    case False
    then show ?thesis
      using d' feed_late [OF w js] by auto
  qed
qed simp

section \<open>Streams\<close>

text \<open>What reaches the client: of each block of six sent packets those the list names, in its order.\<close>

fun delivered_blocks :: "bytes list \<Rightarrow> nat list list \<Rightarrow> bytes list" where
  "delivered_blocks sent [] = []"
| "delivered_blocks sent (js # rest) = map (\<lambda>i. sent ! i) js @ delivered_blocks (drop 6 sent) rest"

definition survives :: "nat list \<Rightarrow> bool" where
  "survives js = (set js \<subseteq> {..<6} \<and> 4 \<le> card (set js))"

definition cipher_ok ::
  "(bytes \<Rightarrow> bytes \<Rightarrow> bytes \<Rightarrow> bytes) \<Rightarrow> (bytes \<Rightarrow> bytes \<Rightarrow> bytes \<Rightarrow> bytes option) \<Rightarrow> audio_key option \<Rightarrow> nat \<Rightarrow>
     bytes \<Rightarrow> bool" where
  "cipher_ok enc dec key z opus =
     (\<forall>s. sent_payload enc key s opus \<noteq> [] \<and> length (sent_payload enc key s opus) = z
        \<and> opened dec key s (sent_payload enc key s opus) = Some opus)"

lemma block_good:
  assumes "unat b mod 4 = 0" "length os = 4" "\<forall>opus\<in>set os. cipher_ok enc dec key z opus"
  shows "good_word dec key b os (codeword (block_shards enc key b os))"
    "\<forall>s\<in>set (block_shards enc key b os). length s = z"
proof -
  let ?data = "block_shards enc key b os"
  have nth: "?data ! i = sent_payload enc key (b + of_nat i) (os ! i)" if "i < 4" for i
    using that by (simp add: block_shards_def)
  have len: "length ?data = 4"
    by (simp add: block_shards_def)
  show all: "\<forall>s\<in>set ?data. length s = z"
    using assms(2,3) by (auto simp: block_shards_def cipher_ok_def)
  note cw = codeword_props [OF len all]
  have first: "codeword ?data ! i = sent_payload enc key (b + of_nat i) (os ! i)" if "i < 4" for i
    using that nth len by (simp add: codeword_def nth_append)
  have ok: "cipher_ok enc dec key z (os ! i)" if "i < 4" for i
    using that assms(2,3) by simp
  have "0 < z"
    using ok [of 0] by (auto simp: cipher_ok_def)
  moreover have "length (codeword ?data ! i) = z" if "i < 6" for i
    using codeword_sizes [OF len all] cw(1) that by simp
  ultimately have "codeword ?data ! i \<noteq> []" if "i < 6" for i
    using that by fastforce
  then show "good_word dec key b os (codeword ?data)"
    using assms(1,2) ok first cw by (simp add: good_word_def cipher_ok_def)
qed

lemma feed_stream:
  assumes "unat b mod 4 = 0" "ap_sequence p = b" "ap_key p = key" "length opuses = 4 * length arrivals"
    and "\<forall>opus\<in>set opuses. cipher_ok enc dec key z opus" "\<forall>js\<in>set arrivals. survives js"
    and "next_block b d \<and> ad_key d = key \<and> ad_lost d = 0
      \<or> d = depacketizer_new key \<and> (arrivals \<noteq> [] \<longrightarrow> hd (hd arrivals) = 0 \<or> 4 \<le> hd (hd arrivals))"
  shows "\<exists>sent p' d'. audio_send enc p opuses = Some (sent, p')
    \<and> audio_feed dec d (delivered_blocks sent arrivals) = Some (opuses, d') \<and> ad_lost d' = 0"
  using assms
proof (induction arrivals arbitrary: b p d opuses)
  case Nil
  then show ?case
    by (auto simp: depacketizer_new_def)
next
  case (Cons js arrivals)
  let ?os = "take 4 opuses" and ?rest = "drop 4 opuses"
  let ?w = "codeword (block_shards enc key b ?os)" and ?packet = "block_packet (ap_duration_ms p) b"
  have os: "length ?os = 4" "\<forall>opus\<in>set ?os. cipher_ok enc dec key z opus"
    using Cons.prems(4,5) by (auto dest: in_set_takeD)
  note good = block_good [OF Cons.prems(1) os]
  obtain blk where send: "audio_send enc p opuses =
     (case audio_send enc (p\<lparr>ap_sequence := b + 4, ap_block := blk\<rparr>) ?rest of
        None \<Rightarrow> None | Some (outs, p') \<Rightarrow> Some (map (?packet ?w) [0..<6] @ outs, p'))"
    using send_block [OF Cons.prems(1,2) os(1), of enc z ?rest] good(2) Cons.prems(3) by auto
  have js: "set js \<subseteq> {..<6}" "4 \<le> card (set js)"
    using Cons.prems(6) by (simp_all add: survives_def)
  have "at_block key b ?w {} d \<or> {} = {} \<and> d = depacketizer_new key \<and> (js \<noteq> [] \<longrightarrow> hd js = 0 \<or> 4 \<le> hd js)"
    using Cons.prems(7) by (auto simp: at_block_def next_block_def)
  then obtain d' where d': "audio_feed dec d (map (?packet ?w) js) = Some (subslice ?os 0 4, d')"
    "next_block (b + 4) d'" "ad_key d' = key" "ad_lost d' = 0"
    using feed_block [OF good(1), of "{}" js d "ap_duration_ms p"] js by auto
  have "\<exists>sent p' d''. audio_send enc (p\<lparr>ap_sequence := b + 4, ap_block := blk\<rparr>) ?rest = Some (sent, p')
    \<and> audio_feed dec d' (delivered_blocks sent arrivals) = Some (?rest, d'') \<and> ad_lost d'' = 0"
    using Cons.prems d'(2-4) next_base [OF Cons.prems(1)]
    by (intro Cons.IH) (auto dest: in_set_dropD)
  then obtain outs p' d'' where rest: "audio_send enc (p\<lparr>ap_sequence := b + 4, ap_block := blk\<rparr>) ?rest = Some (outs, p')"
    "audio_feed dec d' (delivered_blocks outs arrivals) = Some (?rest, d'')" "ad_lost d'' = 0"
    by blast
  have "map (\<lambda>i. (map (?packet ?w) [0..<6] @ outs) ! i) js = map (?packet ?w) js"
    using js(1) by (intro map_cong) (auto simp: nth_append)
  then have "delivered_blocks (map (?packet ?w) [0..<6] @ outs) (js # arrivals) =
      map (?packet ?w) js @ delivered_blocks outs arrivals"
    by (simp only: delivered_blocks.simps) simp
  then show ?case
    using rest d'(1) by (simp add: send audio_feed_append del: delivered_blocks.simps)
qed

text \<open>
  C10. Sound survives two losses in every block: when a stream's Opus packets are all of one size and of
  the six packets of every block at least four arrive, one block after the other and within a block in any
  order and repeated, the client plays exactly the packets that were given to the host, in order, and counts
  none as lost. (The very first packet to arrive must not be one in the middle of a block: the client starts
  playing there.)
\<close>

theorem audio_survives_losses:
  assumes "length opuses = 4 * length arrivals" "\<forall>opus\<in>set opuses. cipher_ok enc dec key z opus"
    and "\<forall>js\<in>set arrivals. survives js"
    and "arrivals \<noteq> [] \<longrightarrow> hd (hd arrivals) = 0 \<or> 4 \<le> hd (hd arrivals)"
  shows "\<exists>sent p d. audio_send enc (packetizer_new duration_ms key) opuses = Some (sent, p)
    \<and> audio_feed dec (depacketizer_new key) (delivered_blocks sent arrivals) = Some (opuses, d) \<and> ad_lost d = 0"
  using feed_stream [of 0 "packetizer_new duration_ms key" key opuses arrivals enc dec z "depacketizer_new key"] assms
  by (simp add: packetizer_new_def)

theorem audio_survives_losses_witness:
  "\<exists>sent p d. audio_send (\<lambda>k iv x. x) (packetizer_new 5 (Some \<lparr>ak_key = [], ak_key_id = 7\<rparr>))
       [[1], [2], [3], [4], [5], [6], [7], [8]] = Some (sent, p)
    \<and> audio_feed (\<lambda>k iv x. Some x) (depacketizer_new (Some \<lparr>ak_key = [], ak_key_id = 7\<rparr>))
       (delivered_blocks sent [[5, 1, 1, 4, 3], [0, 1, 2, 5]]) = Some ([[1], [2], [3], [4], [5], [6], [7], [8]], d)
    \<and> ad_lost d = 0"
  by (rule audio_survives_losses [where z = 1])
     (simp_all add: cipher_ok_def survives_def sent_payload_def opened_def)

end
