(* ===== verification/Gs_Video.thy ===== *)
theory Gs_Video
  imports Sorted_Map
begin

unbundle bit_operations_syntax

text \<open>
  GameStream's video stream (\<open>gamestream/src/video.rs\<close>): the packetizer that cuts a frame into
  packets of the client's size in up to four blocks, the depacketizer that puts frames together from
  packets in any order, and the sealed packets of an encrypted stream. AES-GCM is a pair of arguments.
  Sequence arithmetic that the release profile wraps is word arithmetic here.
\<close>

definition FLAG_CONTAINS_PIC_DATA :: u8 where "FLAG_CONTAINS_PIC_DATA = 0x1"
definition FLAG_EOF :: u8 where "FLAG_EOF = 0x2"
definition FLAG_SOF :: u8 where "FLAG_SOF = 0x4"
definition VIDEO_RTP_HEADER :: u8 where "VIDEO_RTP_HEADER = 0x90"
definition RTP_SIZE :: nat where "RTP_SIZE = 16"
definition NV_SIZE :: nat where "NV_SIZE = 16"
definition FRAME_HEADER :: nat where "FRAME_HEADER = 8"
definition MAX_DATA_SHARDS :: nat where "MAX_DATA_SHARDS = 255"
definition MAX_FEC_BLOCKS :: nat where "MAX_FEC_BLOCKS = 4"

lemmas video_consts = FLAG_CONTAINS_PIC_DATA_def FLAG_EOF_def FLAG_SOF_def VIDEO_RTP_HEADER_def RTP_SIZE_def
  NV_SIZE_def FRAME_HEADER_def MAX_DATA_SHARDS_def MAX_FEC_BLOCKS_def

section \<open>Sending\<close>

record video_packetizer =
  vp_packet_size :: nat
  vp_sequence :: u32
  vp_frame_index :: u32

definition video_packetizer_new :: "nat \<Rightarrow> video_packetizer" where
  "video_packetizer_new packet_size =
     \<lparr>vp_packet_size = max packet_size (NV_SIZE + 64), vp_sequence = 0, vp_frame_index = 0\<rparr>"

text \<open>The frame behind its short header, whose fourth field is the length of the last piece.\<close>

definition frame_payload :: "nat \<Rightarrow> bytes \<Rightarrow> bool \<Rightarrow> bytes" where
  "frame_payload chunk frm idr =
     (let last = of_nat ((length frm + FRAME_HEADER) mod chunk) :: u16;
          last = if last = 0 then of_nat chunk else last
      in [0x01] @ le_bytes 2 (0 :: u16) @ [if idr then 2 else 1] @ le_bytes 2 last @ [0, 0] @ frm)"

text \<open>Packet \<open>x\<close> of the \<open>n\<close> packets of a block.\<close>

definition video_packet ::
  "nat \<Rightarrow> u32 \<Rightarrow> u32 \<Rightarrow> nat \<Rightarrow> u32 \<Rightarrow> nat \<Rightarrow> nat \<Rightarrow> nat \<Rightarrow> bytes \<Rightarrow> bytes" where
  "video_packet packet_size timestamp frame_index blocks low block n x data =
     (let number = low + of_nat x;
          flags = (FLAG_CONTAINS_PIC_DATA OR (if x = 0 then FLAG_SOF else 0)) OR (if x = n - 1 then FLAG_EOF else 0);
          multi = of_nat (push_bit 4 block OR push_bit 6 (blocks - 1)) :: u8;
          fec_info = push_bit 12 (of_nat x) OR push_bit 22 (of_nat n) :: u32;
          nv = le_bytes 4 (push_bit 8 number) @ le_bytes 4 frame_index @ [flags, 0, 0x10, multi] @ le_bytes 4 fec_info
      in [VIDEO_RTP_HEADER, 0] @ be_bytes 2 (ucast number :: u16) @ be_bytes 4 timestamp @ replicate 8 0
         @ nv @ data @ replicate (packet_size - NV_SIZE - length data) 0)"

text \<open>The loop over the blocks, with the sequence number it carries on.\<close>

fun video_blocks ::
  "(u32 \<Rightarrow> nat \<Rightarrow> nat \<Rightarrow> nat \<Rightarrow> bytes \<Rightarrow> bytes) \<Rightarrow> nat \<Rightarrow> u32 \<Rightarrow> bytes list list \<Rightarrow> bytes list \<times> u32" where
  "video_blocks packet block low [] = ([], low)"
| "video_blocks packet block low (shards # rest) =
     (let (out, low') = video_blocks packet (block + 1) (low + of_nat (length shards)) rest
      in (map (\<lambda>(x, data). packet low block (length shards) x data) (enumerate 0 shards) @ out, low'))"

definition video_block_count :: "nat \<Rightarrow> nat" where
  "video_block_count n = min (max ((n + MAX_DATA_SHARDS - 1) div MAX_DATA_SHARDS) 1) MAX_FEC_BLOCKS"

definition video_groups :: "nat \<Rightarrow> bytes \<Rightarrow> bytes list list" where
  "video_groups chunk payload =
     (let chunks = chunks_of chunk payload;
          blocks = video_block_count (length chunks);
          per_block = (length chunks + blocks - 1) div blocks
      in chunks_of per_block chunks)"

definition video_packets :: "video_packetizer \<Rightarrow> bytes \<Rightarrow> bool \<Rightarrow> u32 \<Rightarrow> bytes list \<times> video_packetizer" where
  "video_packets p frm idr timestamp =
     (let index = vp_frame_index p + 1;
          chunk = vp_packet_size p - NV_SIZE;
          payload = frame_payload chunk frm idr;
          chunks = chunks_of chunk payload;
          blocks = video_block_count (length chunks);
          (out, sequence) = video_blocks (video_packet (vp_packet_size p) timestamp index blocks) 0
            (vp_sequence p) (video_groups chunk payload)
      in (out, p\<lparr>vp_sequence := sequence, vp_frame_index := index\<rparr>))"

section \<open>Receiving\<close>

record video_header =
  vh_frame_index :: u32
  vh_block :: u8
  vh_last_block :: u8
  vh_shard :: u16
  vh_data_shards :: u16

definition video_header_of :: "bytes \<Rightarrow> video_header option" where
  "video_header_of packet =
     (if length packet < RTP_SIZE + NV_SIZE \<or> packet ! 0 AND 0x10 = 0 then None
      else let nv = subslice packet RTP_SIZE (RTP_SIZE + NV_SIZE);
               fec_info = of_le (subslice nv 12 16) :: u32
        in Some \<lparr>vh_frame_index = of_le (subslice nv 4 8), vh_block = drop_bit 4 (nv ! 11) AND 0x3,
             vh_last_block = drop_bit 6 (nv ! 11) AND 0x3, vh_shard = ucast (drop_bit 12 fec_info AND 0x3ff),
             vh_data_shards = ucast (drop_bit 22 fec_info)\<rparr>)"

record video_frame =
  vf_index :: u32
  vf_data :: bytes
  vf_idr :: bool
  vf_rtp_timestamp :: u32

datatype received = Pending | Whole video_frame | Lost u32

record video_depacketizer =
  vd_current :: "u32 option"
  vd_blocks :: "(u8 \<times> (u16 \<times> bytes) list) list"
  vd_shards_per_block :: "(u8 \<times> u16) list"
  vd_last_block :: u8
  vd_timestamp :: u32
  vd_next :: u32

definition video_depacketizer_default :: video_depacketizer where
  "video_depacketizer_default =
     \<lparr>vd_current = None, vd_blocks = [], vd_shards_per_block = [], vd_last_block = 0, vd_timestamp = 0, vd_next = 0\<rparr>"

definition add_shard :: "video_header \<Rightarrow> bytes \<Rightarrow> video_depacketizer \<Rightarrow> video_depacketizer" where
  "add_shard h packet d =
     (if vh_data_shards h \<le> vh_shard h then d
      else let shards_of = (case map_of (vd_blocks d) (vh_block h) of Some b \<Rightarrow> b | None \<Rightarrow> [])
        in d\<lparr>vd_shards_per_block := bt_insert (vh_block h) (vh_data_shards h) (vd_shards_per_block d),
             vd_blocks := bt_insert (vh_block h)
               (bt_insert (vh_shard h) (drop (RTP_SIZE + NV_SIZE) packet) shards_of) (vd_blocks d)\<rparr>)"

text \<open>The frame of the pieces that came, \<open>Pending\<close> when there are none.\<close>

definition frame_of_pieces :: "u32 \<Rightarrow> u32 \<Rightarrow> bytes list \<Rightarrow> received" where
  "frame_of_pieces index timestamp chunks =
     (if chunks = [] then Pending
      else if length (hd chunks) < FRAME_HEADER then Lost index
      else let idr = (hd chunks ! 3 = 2);
               last_len = unat (of_le [hd chunks ! 4, hd chunks ! 5] :: u16);
               data = concat (map (\<lambda>(i, chunk).
                   if i = length chunks - 1 then take (min last_len (length chunk)) chunk else chunk) (enumerate 0 chunks))
        in Whole \<lparr>vf_index = index, vf_data = drop (min FRAME_HEADER (length data)) data,
              vf_idr = idr, vf_rtp_timestamp = timestamp\<rparr>)"

definition video_complete :: "video_depacketizer \<Rightarrow> received \<times> video_depacketizer" where
  "video_complete d =
     (let whole = list_all (\<lambda>block.
            let need = (case map_of (vd_shards_per_block d) block of Some n \<Rightarrow> n | None \<Rightarrow> 65535)
            in (case map_of (vd_blocks d) block of Some b \<Rightarrow> length b = unat need | None \<Rightarrow> False))
          (map of_nat [0..<Suc (unat (vd_last_block d))])
      in if \<not> whole then (Pending, d)
         else (case vd_current d of
             None \<Rightarrow> (Pending, d)
           | Some index \<Rightarrow>
               let chunks = concat (map (map snd \<circ> snd) (vd_blocks d));
                   d = d\<lparr>vd_blocks := [], vd_shards_per_block := [], vd_next := index + 1, vd_current := None\<rparr>
               in (frame_of_pieces index (vd_timestamp d) chunks, d)))"

definition video_add :: "video_depacketizer \<Rightarrow> bytes \<Rightarrow> received list \<times> video_depacketizer" where
  "video_add d packet =
     (case video_header_of packet of
        None \<Rightarrow> ([], d)
      | Some h \<Rightarrow>
          let finish = (\<lambda>(out, d). let (r, d) = video_complete (add_shard h packet d)
                in (if r = Pending then out else out @ [r], d))
          in if 0 \<le> sint (vh_frame_index h - vd_next d) \<and> vd_current d \<noteq> Some (vh_frame_index h)
             then finish
               (case vd_current d of
                  Some lost \<Rightarrow> if vd_blocks d = [] then [] else [Lost lost]
                | None \<Rightarrow> [],
                d\<lparr>vd_current := Some (vh_frame_index h), vd_blocks := [], vd_shards_per_block := [],
                  vd_last_block := vh_last_block h, vd_timestamp := of_be (subslice packet 4 8)\<rparr>)
             else if vd_current d \<noteq> Some (vh_frame_index h) then ([], d)
             else finish ([], d))"

fun video_feed :: "video_depacketizer \<Rightarrow> bytes list \<Rightarrow> received list \<times> video_depacketizer" where
  "video_feed d [] = ([], d)"
| "video_feed d (packet # rest) =
     (let (out, d) = video_add d packet; (out', d) = video_feed d rest in (out @ out', d))"

section \<open>Sealed packets\<close>

definition ENC_HEADER :: nat where "ENC_HEADER = 32"

record video_cipher =
  vc_key :: bytes
  vc_counter :: u64

definition video_cipher_new :: "bytes \<Rightarrow> video_cipher" where
  "video_cipher_new key = \<lparr>vc_key = key, vc_counter = 0\<rparr>"

text \<open>\<open>seal key iv data\<close> gives the cipher text and the tag.\<close>

definition video_seal ::
  "(bytes \<Rightarrow> bytes \<Rightarrow> bytes \<Rightarrow> bytes \<times> bytes) \<Rightarrow> video_cipher \<Rightarrow> bytes \<Rightarrow> bytes \<times> video_cipher" where
  "video_seal seal c packet =
     (let iv = le_bytes 8 (vc_counter c) @ [0, 0, 0, 86];
          c' = c\<lparr>vc_counter := vc_counter c + 1\<rparr>;
          frm = if RTP_SIZE + 8 \<le> length packet then subslice packet (RTP_SIZE + 4) (RTP_SIZE + 8) else replicate 4 0;
          (body, tag) = seal (vc_key c) iv packet
      in (iv @ frm @ tag @ body, c'))"

definition video_open :: "(bytes \<Rightarrow> bytes \<Rightarrow> bytes \<Rightarrow> bytes \<Rightarrow> bytes option) \<Rightarrow> video_cipher \<Rightarrow> bytes \<Rightarrow> bytes option" where
  "video_open unseal c data =
     (if length data \<le> ENC_HEADER then None
      else unseal (vc_key c) (take 12 data) (subslice data 16 32) (drop ENC_HEADER data))"

section \<open>The headers of a packet\<close>

lemma fec_info_fields:
  fixes X N :: u32
  assumes "take_bit 10 X = X" "take_bit 10 N = N"
  shows "drop_bit 12 (push_bit 12 X OR push_bit 22 N) AND 0x3ff = X" "drop_bit 22 (push_bit 12 X OR push_bit 22 N) = N"
proof -
  have high: "bit X i \<Longrightarrow> i < 10" "bit N i \<Longrightarrow> i < 10" for i
    using assms by (metis bit_take_bit_iff)+
  have "(0x3ff :: u32) = mask 10"
    by (simp add: mask_eq_exp_minus_1)
  then have "drop_bit 12 (push_bit 12 X OR push_bit 22 N) AND 0x3ff = take_bit 10 (drop_bit 12 (push_bit 12 X OR push_bit 22 N))"
    by (simp add: take_bit_eq_mask)
  also have "\<dots> = X"
    by (rule bit_word_eqI) (auto simp: bit_simps dest: high)
  finally show "drop_bit 12 (push_bit 12 X OR push_bit 22 N) AND 0x3ff = X" .
  show "drop_bit 22 (push_bit 12 X OR push_bit 22 N) = N"
    by (rule bit_word_eqI) (auto simp: bit_simps dest: high)
qed

lemma take_bit_of_nat_small: "n < 1024 \<Longrightarrow> take_bit 10 (of_nat n :: u32) = of_nat n"
  by (simp add: take_bit_of_nat take_bit_eq_mod [of 10 n] del: take_bit_word_eq_self)

lemma multi_fields:
  assumes "block < 4" "lst < 4"
  shows "drop_bit 4 (of_nat (push_bit 4 block OR push_bit 6 lst) :: u8) AND 0x3 = of_nat block"
    "drop_bit 6 (of_nat (push_bit 4 block OR push_bit 6 lst) :: u8) AND 0x3 = of_nat lst"
proof -
  have "block \<in> {0, 1, 2, 3}" "lst \<in> {0, 1, 2, 3}"
    using assms by auto
  then show "drop_bit 4 (of_nat (push_bit 4 block OR push_bit 6 lst) :: u8) AND 0x3 = of_nat block"
    "drop_bit 6 (of_nat (push_bit 4 block OR push_bit 6 lst) :: u8) AND 0x3 = of_nat lst"
    by (auto simp: push_bit_eq_mult)
qed

lemma video_header_packet:
  assumes "block < 4" "blocks - 1 < 4" "x < 1024" "n < 1024"
  shows "video_header_of (video_packet ps ts fi blocks low block n x data) =
      Some \<lparr>vh_frame_index = fi, vh_block = of_nat block, vh_last_block = of_nat (blocks - 1),
        vh_shard = of_nat x, vh_data_shards = of_nat n\<rparr>"
proof -
  let ?fec = "push_bit 12 (of_nat x) OR push_bit 22 (of_nat n) :: u32"
  let ?multi = "of_nat (push_bit 4 block OR push_bit 6 (blocks - 1)) :: u8"
  obtain number flags where eq: "video_packet ps ts fi blocks low block n x data =
      [VIDEO_RTP_HEADER, 0] @ be_bytes 2 (ucast (number :: u32) :: u16) @ be_bytes 4 ts @ replicate 8 0
      @ (le_bytes 4 (push_bit 8 number) @ le_bytes 4 fi @ [flags, 0, 0x10, ?multi] @ le_bytes 4 ?fec)
      @ data @ replicate (ps - NV_SIZE - length data) 0"
    by (simp add: video_packet_def Let_def)
  let ?p = "video_packet ps ts fi blocks low block n x data"
  have "length ?p \<ge> 32" "?p ! 0 AND 0x10 \<noteq> 0"
    by (simp_all add: eq VIDEO_RTP_HEADER_def)
  moreover have nv: "subslice ?p 16 32 = le_bytes 4 (push_bit 8 number) @ le_bytes 4 fi @ [flags, 0, 0x10, ?multi] @ le_bytes 4 ?fec"
    by (simp add: eq subslice_def)
  moreover have "subslice (subslice ?p 16 32) 12 16 = le_bytes 4 ?fec" "subslice (subslice ?p 16 32) 4 8 = le_bytes 4 fi"
    "subslice ?p 16 32 ! 11 = ?multi"
    by (simp_all add: nv) (simp_all add: subslice_def nth_append)
  moreover have "ucast (of_nat x :: u32) = (of_nat x :: u16)" "ucast (of_nat n :: u32) = (of_nat n :: u16)"
    using assms(3,4) by (simp_all add: word_unat_eq_iff unsigned_ucast_eq unat_of_nat take_bit_eq_mod)
  ultimately show ?thesis
    using fec_info_fields [of "of_nat x" "of_nat n"] take_bit_of_nat_small assms multi_fields [of block "blocks - 1"]
    by (simp add: video_header_of_def RTP_SIZE_def NV_SIZE_def Let_def)
qed

lemma packet_layout:
  "drop (RTP_SIZE + NV_SIZE) (video_packet ps ts fi blocks low block n x data) = data @ replicate (ps - NV_SIZE - length data) 0"
  "subslice (video_packet ps ts fi blocks low block n x data) 4 8 = be_bytes 4 ts"
  by (simp_all add: video_packet_def Let_def RTP_SIZE_def NV_SIZE_def subslice_def)

section \<open>The places of a frame\<close>

text \<open>A frame's pieces in their blocks: piece \<open>x\<close> of block \<open>i\<close> has the place \<open>(i, x)\<close>.\<close>

definition places :: "bytes list list \<Rightarrow> (nat \<times> nat) list" where
  "places G = concat (map (\<lambda>i. map (Pair i) [0..<length (G ! i)]) [0..<length G])"

definition sent_packet :: "nat \<Rightarrow> u32 \<Rightarrow> u32 \<Rightarrow> u32 \<Rightarrow> bytes list list \<Rightarrow> nat \<times> nat \<Rightarrow> bytes" where
  "sent_packet ps ts fi low G = (\<lambda>(i, x). video_packet ps ts fi (length G)
     (low + of_nat (sum_list (map length (take i G)))) i (length (G ! i)) x (G ! i ! x))"

definition fits :: "bytes list list \<Rightarrow> bool" where
  "fits G = (G \<noteq> [] \<and> length G \<le> 4 \<and> (\<forall>g\<in>set G. g \<noteq> [] \<and> length g < 1024))"

lemma in_places: "(i, x) \<in> set (places G) \<longleftrightarrow> i < length G \<and> x < length (G ! i)"
  by (auto simp: places_def image_iff)

lemma map_enumerate_upt: "map (\<lambda>(x, y). f x y) (enumerate 0 ys) = map (\<lambda>x. f x (ys ! x)) [0..<length ys]"
  by (rule nth_equalityI) (simp_all add: nth_enumerate_eq)

lemma video_blocks_eq:
  "fst (video_blocks pk b low G) = concat (map (\<lambda>i. map (\<lambda>x.
     pk (low + of_nat (sum_list (map length (take i G)))) (b + i) (length (G ! i)) x (G ! i ! x)) [0..<length (G ! i)]) [0..<length G])"
proof (induction G arbitrary: b low)
  case (Cons g G)
  show ?case
    using Cons.IH [of "b + 1" "low + of_nat (length g)"]
    by (simp add: split_beta map_enumerate_upt upt_conv_Cons map_Suc_upt [symmetric] comp_def add.assoc del: upt_Suc map_Suc_upt)
qed simp

lemma video_blocks_places:
  "fst (video_blocks (video_packet ps ts fi (length G)) 0 low G) = map (sent_packet ps ts fi low G) (places G)"
  by (simp add: video_blocks_eq places_def sent_packet_def map_concat comp_def)

lemma sent_header:
  assumes "fits G" "(i, x) \<in> set (places G)"
  shows "video_header_of (sent_packet ps ts fi low G (i, x)) =
    Some \<lparr>vh_frame_index = fi, vh_block = of_nat i, vh_last_block = of_nat (length G - 1), vh_shard = of_nat x,
      vh_data_shards = of_nat (length (G ! i))\<rparr>"
proof -
  have "i < length G" "x < length (G ! i)" "length (G ! i) < 1024" "length G \<le> 4"
    using assms by (auto simp: in_places fits_def)
  then show ?thesis
    by (simp add: sent_packet_def video_header_packet)
qed

lemma of_nat_small_inj:
  "i < 4 \<Longrightarrow> j < 4 \<Longrightarrow> (of_nat i :: u8) = of_nat j \<Longrightarrow> i = j"
  "x < 1024 \<Longrightarrow> y < 1024 \<Longrightarrow> (of_nat x :: u16) = of_nat y \<Longrightarrow> x = y"
  by (simp_all add: word_unat_eq_iff unat_of_nat take_bit_eq_mod)

lemma sent_inj:
  assumes "fits G"
  shows "inj_on (sent_packet ps ts fi low G) (set (places G))"
proof (rule inj_onI, clarify)
  fix i x j y
  assume "(i, x) \<in> set (places G)" "(j, y) \<in> set (places G)"
    and eq: "sent_packet ps ts fi low G (i, x) = sent_packet ps ts fi low G (j, y)"
  then have "i < length G" "j < length G" "x < length (G ! i)" "y < length (G ! j)"
    and head: "(of_nat i :: u8) = of_nat j" "(of_nat x :: u16) = of_nat y"
    using sent_header [OF assms, of i x ps ts fi low] sent_header [OF assms, of j y ps ts fi low]
    by (simp_all add: in_places)
  moreover have "length G \<le> 4" "length (G ! k) < 1024" if "k < length G" for k
    using assms that by (auto simp: fits_def)
  ultimately have "i < 4" "j < 4" "x < 1024" "y < 1024"
    by (meson less_le_trans less_trans)+
  with head show "i = j \<and> x = y"
    using of_nat_small_inj by blast
qed

section \<open>Collecting a frame\<close>

definition padded :: "nat \<Rightarrow> bytes \<Rightarrow> bytes" where
  "padded ps c = c @ replicate (ps - NV_SIZE - length c) 0"

definition held_shards :: "nat \<Rightarrow> bytes list list \<Rightarrow> (nat \<times> nat) set \<Rightarrow> nat \<Rightarrow> (u16 \<times> bytes) list" where
  "held_shards ps G S i = table of_nat (\<lambda>x. padded ps (G ! i ! x)) (\<lambda>x. (i, x) \<in> S) [0..<length (G ! i)]"

text \<open>The state in which the places \<open>S\<close> of a frame have come.\<close>

definition holds :: "nat \<Rightarrow> bytes list list \<Rightarrow> (nat \<times> nat) set \<Rightarrow> video_depacketizer \<Rightarrow> bool" where
  "holds ps G S d =
     (vd_blocks d = table of_nat (held_shards ps G S) (\<lambda>i. \<exists>x. (i, x) \<in> S) [0..<length G]
      \<and> vd_shards_per_block d = table of_nat (\<lambda>i. of_nat (length (G ! i))) (\<lambda>i. \<exists>x. (i, x) \<in> S) [0..<length G]
      \<and> vd_last_block d = of_nat (length G - 1) \<and> S \<subseteq> set (places G))"

lemma block_order: "fits G \<Longrightarrow> sorted_wrt (\<lambda>a b. (of_nat a :: u8) < of_nat b) [0..<length G]"
  by (rule ascending_of_nat) (simp add: fits_def)

lemma shard_order: "fits G \<Longrightarrow> i < length G \<Longrightarrow> sorted_wrt (\<lambda>a b. (of_nat a :: u16) < of_nat b) [0..<length (G ! i)]"
proof (rule ascending_of_nat)
  assume "fits G" "i < length G"
  then have "length (G ! i) < 1024"
    by (simp add: fits_def)
  then show "length (G ! i) \<le> 2 ^ LENGTH(16)"
    by simp
qed

lemma holds_maps:
  assumes "holds ps G S d" "fits G" "i < length G"
  shows "map_of (vd_blocks d) (of_nat i) = (if \<exists>x. (i, x) \<in> S then Some (held_shards ps G S i) else None)"
    "map_of (vd_shards_per_block d) (of_nat i) = (if \<exists>x. (i, x) \<in> S then Some (of_nat (length (G ! i))) else None)"
proof -
  note inj = ascending_inj [OF block_order [OF assms(2)]]
  have i: "i \<in> set [0..<length G]"
    using assms(3) by simp
  show "map_of (vd_blocks d) (of_nat i) = (if \<exists>x. (i, x) \<in> S then Some (held_shards ps G S i) else None)"
    using assms(1) by (simp only: holds_def map_of_table [OF inj i])
  show "map_of (vd_shards_per_block d) (of_nat i) = (if \<exists>x. (i, x) \<in> S then Some (of_nat (length (G ! i))) else None)"
    using assms(1) by (simp only: holds_def map_of_table [OF inj i])
qed

lemma no_shards: "\<nexists>x. (i, x) \<in> S \<Longrightarrow> held_shards ps G S i = []"
  by (simp add: held_shards_def table_def)

lemma add_shard_holds:
  assumes "holds ps G S d" "fits G" "(i, x) \<in> set (places G)"
    and "video_header_of (sent_packet ps ts fi low G (i, x)) = Some h"
  shows "holds ps G (insert (i, x) S) (add_shard h (sent_packet ps ts fi low G (i, x)) d)"
    "\<exists>bs ss. add_shard h (sent_packet ps ts fi low G (i, x)) d = d\<lparr>vd_shards_per_block := ss, vd_blocks := bs\<rparr>"
proof -
  let ?S = "insert (i, x) S"
  let ?p = "sent_packet ps ts fi low G (i, x)"
  have ix: "i < length G" "x < length (G ! i)" "length (G ! i) < 1024"
    using assms(2,3) by (auto simp: in_places fits_def)
  have h: "h = \<lparr>vh_frame_index = fi, vh_block = of_nat i, vh_last_block = of_nat (length G - 1), vh_shard = of_nat x,
      vh_data_shards = of_nat (length (G ! i))\<rparr>"
    using sent_header [OF assms(2,3)] assms(4) by simp
  have lt: "\<not> vh_data_shards h \<le> vh_shard h"
    using ix by (simp add: h word_le_nat_alt unat_of_nat take_bit_eq_mod)
  have body: "drop (RTP_SIZE + NV_SIZE) ?p = padded ps (G ! i ! x)"
    by (simp add: sent_packet_def packet_layout padded_def)
  have shards_of: "(case map_of (vd_blocks d) (of_nat i) of Some b \<Rightarrow> b | None \<Rightarrow> []) = held_shards ps G S i"
    using holds_maps(1) [OF assms(1,2) ix(1)] no_shards [of i S ps G] by auto
  have inner: "bt_insert (of_nat x) (padded ps (G ! i ! x)) (held_shards ps G S i) = held_shards ps G ?S i"
    using bt_insert_table [OF shard_order [OF assms(2) ix(1)], of x "padded ps (G ! i ! x)" "\<lambda>x. padded ps (G ! i ! x)" "\<lambda>x. (i, x) \<in> S"] ix(2)
    by (simp add: held_shards_def fun_upd_idem disj_commute)
  have other: "(held_shards ps G S)(i := held_shards ps G ?S i) = held_shards ps G ?S"
    by (auto simp: held_shards_def fun_eq_iff)
  have pred: "(\<lambda>j. (\<exists>y. (j, y) \<in> S) \<or> j = i) = (\<lambda>j. \<exists>y. (j, y) \<in> ?S)"
    by auto
  have outer: "bt_insert (of_nat i) (held_shards ps G ?S i) (vd_blocks d)
      = table of_nat (held_shards ps G ?S) (\<lambda>j. \<exists>y. (j, y) \<in> ?S) [0..<length G]"
    using bt_insert_table [OF block_order [OF assms(2)], of i "held_shards ps G ?S i" "held_shards ps G S"
        "\<lambda>j. \<exists>y. (j, y) \<in> S"] ix(1) assms(1)
    by (simp only: holds_def other pred set_upt atLeastLessThan_iff) simp
  have same: "(\<lambda>i. of_nat (length (G ! i)) :: u16)(i := of_nat (length (G ! i))) = (\<lambda>i. of_nat (length (G ! i)))"
    by auto
  have counts: "bt_insert (of_nat i) (of_nat (length (G ! i))) (vd_shards_per_block d)
      = table of_nat (\<lambda>i. of_nat (length (G ! i))) (\<lambda>j. \<exists>y. (j, y) \<in> ?S) [0..<length G]"
    using bt_insert_table [OF block_order [OF assms(2)], of i "of_nat (length (G ! i))" "\<lambda>i. of_nat (length (G ! i)) :: u16"
        "\<lambda>j. \<exists>y. (j, y) \<in> S"] ix(1) assms(1)
    by (simp only: holds_def pred set_upt atLeastLessThan_iff same) simp
  have add: "add_shard h ?p d = d\<lparr>vd_shards_per_block := table of_nat (\<lambda>i. of_nat (length (G ! i))) (\<lambda>j. \<exists>y. (j, y) \<in> ?S) [0..<length G],
      vd_blocks := table of_nat (held_shards ps G ?S) (\<lambda>j. \<exists>y. (j, y) \<in> ?S) [0..<length G]\<rparr>"
    using lt by (simp add: add_shard_def body h shards_of inner outer counts)
  show "holds ps G ?S (add_shard h ?p d)"
    using assms(1,3) by (simp add: add holds_def)
  show "\<exists>bs ss. add_shard h ?p d = d\<lparr>vd_shards_per_block := ss, vd_blocks := bs\<rparr>"
    unfolding add by blast
qed

lemma length_filter_full: "length (filter P xs) = length xs \<longleftrightarrow> (\<forall>x\<in>set xs. P x)"
proof (induction xs)
  case (Cons x xs)
  have "length (filter P xs) \<noteq> Suc (length xs)"
    by (metis length_filter_le Suc_n_not_le_n)
  then show ?case
    using Cons by auto
qed simp

lemma whole_iff:
  assumes "holds ps G S d" "fits G"
  shows "list_all (\<lambda>block.
        let need = (case map_of (vd_shards_per_block d) block of Some n \<Rightarrow> n | None \<Rightarrow> 65535)
        in (case map_of (vd_blocks d) block of Some b \<Rightarrow> length b = unat need | None \<Rightarrow> False))
      (map of_nat [0..<Suc (unat (vd_last_block d))]) \<longleftrightarrow> S = set (places G)"
    (is "list_all ?whole _ \<longleftrightarrow> _")
proof -
  have len: "Suc (unat (vd_last_block d)) = length G"
    using assms by (cases G) (auto simp: holds_def fits_def unat_of_nat take_bit_eq_mod)
  have one: "?whole (of_nat i) \<longleftrightarrow> (\<forall>x<length (G ! i). (i, x) \<in> S)" if i: "i < length G" for i
  proof -
    have "length (G ! i) < 1024" and ne: "G ! i \<noteq> []"
      using assms(2) i by (simp_all add: fits_def)
    then have "unat (of_nat (length (G ! i)) :: u16) = length (G ! i)"
      by (simp add: unat_of_nat take_bit_eq_mod)
    moreover have "length (held_shards ps G S i) = length (G ! i) \<longleftrightarrow> (\<forall>x<length (G ! i). (i, x) \<in> S)"
      using length_filter_full [of "\<lambda>x. (i, x) \<in> S" "[0..<length (G ! i)]"] by (auto simp: held_shards_def table_def)
    ultimately show ?thesis
      using holds_maps [OF assms i] ne by (auto simp: Let_def)
  qed
  have "list_all ?whole (map of_nat [0..<length G]) \<longleftrightarrow> (\<forall>i<length G. \<forall>x<length (G ! i). (i, x) \<in> S)"
    using one by (auto simp add: list_all_iff simp del: upt_Suc)
  also have "\<dots> \<longleftrightarrow> S = set (places G)"
    using assms(1) in_places [of _ _ G] by (auto simp: holds_def)
  finally show ?thesis
    unfolding len .
qed

lemma complete_partial:
  assumes "holds ps G S d" "fits G" "S \<noteq> set (places G)"
  shows "video_complete d = (Pending, d)"
  using whole_iff [OF assms(1,2)] assms(3) by (simp add: video_complete_def Let_def)

lemma all_pieces:
  assumes "holds ps G (set (places G)) d" "fits G"
  shows "concat (map (map snd \<circ> snd) (vd_blocks d)) = map (padded ps) (concat G)"
proof -
  have any: "\<exists>x. (i, x) \<in> set (places G)" if "i < length G" for i
  proof -
    have "G ! i \<noteq> []"
      using that assms(2) by (simp add: fits_def)
    then show ?thesis
      using that by (auto simp: in_places)
  qed
  have full: "map snd (held_shards ps G (set (places G)) i) = map (padded ps) (G ! i)" if "i < length G" for i
  proof -
    have "filter (\<lambda>x. (i, x) \<in> set (places G)) [0..<length (G ! i)] = [0..<length (G ! i)]"
      using that by (auto simp: in_places)
    then show ?thesis
      by (simp add: held_shards_def table_def comp_def) (rule nth_equalityI; simp)
  qed
  have "filter (\<lambda>i. \<exists>x. (i, x) \<in> set (places G)) [0..<length G] = [0..<length G]"
    using any by auto
  then have "map (map snd \<circ> snd) (vd_blocks d) = map (\<lambda>i. map snd (held_shards ps G (set (places G)) i)) [0..<length G]"
    using assms(1) by (simp add: holds_def table_def)
  also have "\<dots> = map (map (padded ps)) (map (\<lambda>i. G ! i) [0..<length G])"
    using full by simp
  finally show ?thesis
    by (simp only: map_nth map_concat)
qed

section \<open>The frame of its pieces\<close>

lemma nth_of_chunk: "k < n \<Longrightarrow> k < length xs \<Longrightarrow> chunks_of n xs ! 0 ! k = xs ! k"
  by (cases xs) (simp_all add: chunks_of_step)

lemma concat_but_last:
  "concat (map (\<lambda>(i, c). if i = length cs - 1 then f c else g c) (enumerate 0 cs)) =
     (if cs = [] then [] else concat (map g (butlast cs)) @ f (last cs))"
proof (cases cs rule: rev_cases)
  case (snoc bs b)
  have "map (\<lambda>(i, c). if i = length bs then f c else g c) (enumerate 0 bs) = map g bs"
    by (rule nth_equalityI) (simp_all add: nth_enumerate_eq)
  then show ?thesis
    by (simp add: snoc enumerate_append_eq)
qed simp

text \<open>The last piece's length survives the short header.\<close>

lemma two_bytes: "length bs = 2 \<Longrightarrow> \<exists>x y. bs = [x, y]"
  by (auto simp: numeral_2_eq_2 length_Suc_conv)

lemma last_length:
  assumes "64 \<le> chunk" "chunk < 65536"
  shows "unat (of_le [frame_payload chunk frm idr ! 4, frame_payload chunk frm idr ! 5] :: u16)
    = length (last (chunks_of chunk (frame_payload chunk frm idr)))"
proof -
  let ?r = "(length frm + FRAME_HEADER) mod chunk"
  let ?w = "if (of_nat ?r :: u16) = 0 then of_nat chunk else of_nat ?r :: u16"
  have small: "?r < 65536"
    using assms mod_less_divisor [of chunk "length frm + FRAME_HEADER"] by linarith
  then have zero: "(of_nat ?r :: u16) = 0 \<longleftrightarrow> ?r = 0"
    by (simp add: word_unat_eq_iff unat_of_nat take_bit_eq_mod)
  have w: "unat ?w = (if ?r = 0 then chunk else ?r)"
    unfolding zero using assms(2) small by (simp add: unat_of_nat take_bit_eq_mod)
  have pay: "frame_payload chunk frm idr = [1, 0, 0, if idr then 2 else 1] @ le_bytes 2 ?w @ [0, 0] @ frm"
    by (simp add: frame_payload_def Let_def le_bytes_def numeral_2_eq_2)
  obtain x y where le: "le_bytes 2 ?w = [x, y]"
    using two_bytes [OF length_le_bytes [of 2 ?w]] by blast
  have "of_le (le_bytes 2 ?w) = ?w"
    by (rule of_le_le_bytes) simp
  then have "of_le [x, y] = ?w"
    unfolding le .
  moreover have "[frame_payload chunk frm idr ! 4, frame_payload chunk frm idr ! 5] = [x, y]"
    unfolding pay le by simp
  moreover have "length (frame_payload chunk frm idr) = length frm + FRAME_HEADER"
    unfolding pay by (simp add: FRAME_HEADER_def)
  moreover have "frame_payload chunk frm idr \<noteq> []"
    unfolding pay by simp
  then have "length (last (chunks_of chunk (frame_payload chunk frm idr)))
      = (if length (frame_payload chunk frm idr) mod chunk = 0 then chunk else length (frame_payload chunk frm idr) mod chunk)"
    using assms(1) by (intro last_chunks_of) simp_all
  ultimately show ?thesis
    using w by (simp only:)
qed

text \<open>The state once a frame is through, and the state before it.\<close>

definition whole_frame :: "u32 \<Rightarrow> bytes \<Rightarrow> bool \<Rightarrow> u32 \<Rightarrow> received" where
  "whole_frame index frm idr timestamp =
     Whole \<lparr>vf_index = index, vf_data = frm, vf_idr = idr, vf_rtp_timestamp = timestamp\<rparr>"

lemma frame_of_sent_pieces:
  assumes "chunk = ps - NV_SIZE" "64 \<le> chunk" "chunk < 65536"
  shows "frame_of_pieces fi ts (map (padded ps) (chunks_of chunk (frame_payload chunk frm idr))) = whole_frame fi frm idr ts"
proof -
  let ?pay = "frame_payload chunk frm idr"
  let ?cs = "chunks_of chunk ?pay"
  let ?chunks = "map (padded ps) ?cs"
  have chunk: "0 < chunk"
    using assms(2) by simp
  have len: "length ?pay = length frm + 8"
    by (simp add: frame_payload_def Let_def)
  then have pay: "?pay \<noteq> []"
    by auto
  with chunk have cs: "?cs \<noteq> []"
    by (simp add: chunks_of_step)
  have first: "?cs ! 0 ! k = ?pay ! k" "k < length (?cs ! 0)" if "k < 8" for k
    using that nth_of_chunk [of k chunk ?pay] len assms(2) pay by (simp_all add: chunks_of_step)
  have head: "padded ps (?cs ! 0) ! k = ?pay ! k" if "k < 8" for k
    using first [OF that] by (simp add: padded_def nth_append)
  have c: "?chunks \<noteq> []" "hd ?chunks = padded ps (?cs ! 0)"
    using cs by (simp_all add: hd_map hd_conv_nth)
  have long: "\<not> length (hd ?chunks) < FRAME_HEADER"
    unfolding c(2) using first(2) [of 7] by (simp add: padded_def FRAME_HEADER_def)
  have idr: "(hd ?chunks ! 3 = 2) = idr"
    unfolding c(2) using head [of 3] by (simp add: frame_payload_def Let_def nth_append nth_Cons')
  have last_len: "unat (of_le [hd ?chunks ! 4, hd ?chunks ! 5] :: u16) = length (last ?cs)"
    unfolding c(2) using last_length [OF assms(2,3)] head [of 4] head [of 5] by simp
  have inner: "padded ps x = x" if "x \<in> set (butlast ?cs)" for x
  proof -
    obtain i where i: "i < length (butlast ?cs)" "x = butlast ?cs ! i"
      using \<open>x \<in> set (butlast ?cs)\<close> by (auto simp: in_set_conv_nth)
    then have "length x = chunk"
      using full_chunks_of [OF chunk, of i ?pay] by (simp add: nth_butlast)
    then show ?thesis
      using assms(1) by (simp add: padded_def)
  qed
  have "concat (map (\<lambda>(i, c). if i = length ?chunks - 1 then take (min (length (last ?cs)) (length c)) c else c)
      (enumerate 0 ?chunks)) = concat (butlast ?cs) @ last ?cs"
  proof -
    have "map (\<lambda>x. x) (butlast ?chunks) = butlast ?cs"
      using inner by (simp add: map_butlast [symmetric] map_idI)
    moreover have "take (min (length (last ?cs)) (length (last ?chunks))) (last ?chunks) = last ?cs"
      using cs by (simp add: last_map padded_def)
    ultimately show ?thesis
      using cs concat_but_last [of ?chunks "\<lambda>c. take (min (length (last ?cs)) (length c)) c" "\<lambda>x. x"] by simp
  qed
  also have "\<dots> = concat (butlast ?cs @ [last ?cs])"
    by simp
  also have "\<dots> = ?pay"
    using concat_chunks_of [OF chunk, of ?pay] cs by simp
  finally have data: "concat (map (\<lambda>(i, c). if i = length ?chunks - 1 then take (min (length (last ?cs)) (length c)) c else c)
      (enumerate 0 ?chunks)) = ?pay" .
  have frm: "drop (min FRAME_HEADER (length ?pay)) ?pay = frm"
    by (simp add: len) (simp add: frame_payload_def FRAME_HEADER_def Let_def)
  show ?thesis
    unfolding frame_of_pieces_def Let_def idr last_len data frm whole_frame_def using long c(1) by simp
qed

lemma complete_full:
  assumes "holds ps G (set (places G)) d" "fits G" "concat G = chunks_of chunk (frame_payload chunk frm idr)"
    and "chunk = ps - NV_SIZE" "64 \<le> chunk" "chunk < 65536" "vd_current d = Some fi" "vd_timestamp d = ts"
  shows "video_complete d = (whole_frame fi frm idr ts,
    d\<lparr>vd_blocks := [], vd_shards_per_block := [], vd_next := fi + 1, vd_current := None\<rparr>)"
  using whole_iff [OF assms(1,2)] all_pieces [OF assms(1,2)] assms(3,7,8) frame_of_sent_pieces [OF assms(4-6)]
  by (simp add: video_complete_def Let_def)

section \<open>The blocks of a frame\<close>

lemma block_arith:
  assumes "0 < n"
  defines "b \<equiv> video_block_count n"
  defines "p \<equiv> (n + b - 1) div b"
  shows "(n + p - 1) div p = b" "0 < p" "1 \<le> b" "b \<le> 4" "n \<le> 4092 \<Longrightarrow> p < 1024"
proof -
  let ?q = "(n + 254) div 255"
  have q: "255 * ?q \<le> n + 254" "n + 254 < 255 * ?q + 255"
    using div_mult_mod_eq [of "n + 254" 255] mod_less_divisor [of 255 "n + 254"] by linarith+
  have b: "b = min (max ?q 1) 4"
    by (simp add: b_def video_block_count_def MAX_DATA_SHARDS_def MAX_FEC_BLOCKS_def)
  then show "1 \<le> b" "b \<le> 4"
    by auto
  then have "b * p + (n + b - 1) mod b = n + b - 1" "(n + b - 1) mod b < b"
    by (simp_all only: p_def mult_div_mod_eq) simp
  then have p: "b * p \<le> n + b - 1" "n + b - 1 < b * p + b"
    by linarith+
  have cs: "b = 1 \<and> n \<le> 255 \<or> b = 2 \<and> 256 \<le> n \<and> n \<le> 510 \<or> b = 3 \<and> 511 \<le> n \<and> n \<le> 765 \<or> b = 4 \<and> 766 \<le> n"
    using b q by linarith
  have bounds: "b * p \<le> n + p - 1 \<and> n + p - 1 < Suc b * p \<and> 0 < p \<and> (n \<le> 4092 \<longrightarrow> p < 1024)"
    using cs p assms(1) by (elim disjE conjE) (simp_all, linarith+)
  then show "(n + p - 1) div p = b" "0 < p"
    by (simp_all add: div_nat_eqI mult.commute)
  show "n \<le> 4092 \<Longrightarrow> p < 1024"
    using bounds by simp
qed

lemma groups_props:
  assumes "0 < chunk" "payload \<noteq> []" "length (chunks_of chunk payload) \<le> 4092"
  shows "concat (video_groups chunk payload) = chunks_of chunk payload"
    "length (video_groups chunk payload) = video_block_count (length (chunks_of chunk payload))"
    "fits (video_groups chunk payload)"
proof -
  let ?cs = "chunks_of chunk payload"
  let ?b = "video_block_count (length ?cs)"
  let ?p = "(length ?cs + ?b - 1) div ?b"
  have "0 < length ?cs"
    using assms(1,2) by (simp add: chunks_of_step)
  note arith = block_arith [OF this]
  have G: "video_groups chunk payload = chunks_of ?p ?cs"
    by (simp add: video_groups_def Let_def)
  show "concat (video_groups chunk payload) = ?cs"
    unfolding G by (rule concat_chunks_of [OF arith(2)])
  show len: "length (video_groups chunk payload) = ?b"
    unfolding G by (simp only: length_chunks_of [OF arith(2)] arith(1))
  have "g \<noteq> [] \<and> length g < 1024" if "g \<in> set (video_groups chunk payload)" for g
    using chunks_of_size [OF arith(2), of g ?cs] that arith(5) [OF assms(3)] by (auto simp: G)
  then show "fits (video_groups chunk payload)"
    using len arith(3,4) by (auto simp: fits_def)
qed

section \<open>Receiving a frame\<close>

definition collecting :: "nat \<Rightarrow> u32 \<Rightarrow> u32 \<Rightarrow> bytes list list \<Rightarrow> (nat \<times> nat) set \<Rightarrow> video_depacketizer \<Rightarrow> bool" where
  "collecting ps ts fi G S d = (holds ps G S d \<and> S \<noteq> set (places G) \<and> vd_current d = Some fi \<and> vd_timestamp d = ts)"

text \<open>What the proofs below need of the sender's cut of a frame.\<close>

definition sends :: "nat \<Rightarrow> bytes list list \<Rightarrow> bytes \<Rightarrow> bool \<Rightarrow> bool" where
  "sends ps G frm idr = (fits G \<and> 64 \<le> ps - NV_SIZE \<and> ps - NV_SIZE < 65536
     \<and> concat G = chunks_of (ps - NV_SIZE) (frame_payload (ps - NV_SIZE) frm idr))"

definition frame_over :: "u32 \<Rightarrow> video_depacketizer \<Rightarrow> bool" where
  "frame_over fi d = (vd_current d = None \<and> vd_next d = fi + 1)"

lemma finish_step:
  assumes "holds ps G S d" "vd_current d = Some fi" "vd_timestamp d = ts" "sends ps G frm idr" "k \<in> set (places G)"
    and "video_header_of (sent_packet ps ts fi low G k) = Some h"
  shows "\<exists>d'. video_complete (add_shard h (sent_packet ps ts fi low G k) d)
      = (if insert k S = set (places G) then whole_frame fi frm idr ts else Pending, d')
    \<and> (if insert k S = set (places G) then frame_over fi d'
       else collecting ps ts fi G (insert k S) d' \<and> vd_next d' = vd_next d)"
proof -
  obtain i x where k: "k = (i, x)"
    by (cases k)
  have fits: "fits G"
    using assms(4) by (simp add: sends_def)
  let ?d = "add_shard h (sent_packet ps ts fi low G k) d"
  obtain bs ss where upd: "?d = d\<lparr>vd_shards_per_block := ss, vd_blocks := bs\<rparr>"
    using add_shard_holds(2) [OF assms(1) fits, of i x ts fi low h] assms(5,6) k by auto
  have holds: "holds ps G (insert k S) ?d"
    using add_shard_holds(1) [OF assms(1) fits, of i x ts fi low h] assms(5,6) k by simp
  show ?thesis
  proof (cases "insert k S = set (places G)")
    case True
    have "video_complete ?d = (whole_frame fi frm idr ts,
        ?d\<lparr>vd_blocks := [], vd_shards_per_block := [], vd_next := fi + 1, vd_current := None\<rparr>)"
      using holds True fits assms(2-4) upd
      by (intro complete_full [where G = G and ps = ps and chunk = "ps - NV_SIZE"]) (simp_all add: sends_def)
    then show ?thesis
      using True by (simp add: frame_over_def)
  next
    case False
    then show ?thesis
      using complete_partial [OF holds fits] holds assms(2,3) upd by (simp add: collecting_def)
  qed
qed

lemma add_collecting:
  assumes "collecting ps ts fi G S d" "sends ps G frm idr" "k \<in> set (places G)"
  shows "\<exists>d'. video_add d (sent_packet ps ts fi low G k)
      = (if insert k S = set (places G) then [whole_frame fi frm idr ts] else [], d')
    \<and> (if insert k S = set (places G) then frame_over fi d'
       else collecting ps ts fi G (insert k S) d' \<and> vd_next d' = vd_next d)"
proof -
  obtain h where h: "video_header_of (sent_packet ps ts fi low G k) = Some h" "vh_frame_index h = fi"
    using sent_header [of G "fst k" "snd k" ps ts fi low] assms(2,3) by (auto simp: sends_def)
  have "holds ps G S d" "vd_current d = Some fi" "vd_timestamp d = ts"
    using assms(1) by (simp_all add: collecting_def)
  from finish_step [OF this assms(2,3) h(1)] obtain d' where
    d': "video_complete (add_shard h (sent_packet ps ts fi low G k) d)
        = (if insert k S = set (places G) then whole_frame fi frm idr ts else Pending, d')"
      "if insert k S = set (places G) then frame_over fi d'
       else collecting ps ts fi G (insert k S) d' \<and> vd_next d' = vd_next d"
    by blast
  have "video_add d (sent_packet ps ts fi low G k) = (if insert k S = set (places G) then [whole_frame fi frm idr ts] else [], d')"
    using h \<open>vd_current d = Some fi\<close> d'(1) by (simp add: video_add_def whole_frame_def Let_def)
  with d'(2) show ?thesis
    by blast
qed

lemma feed_over:
  assumes "frame_over fi d" "fits G" "set xs \<subseteq> sent_packet ps ts fi low G ` set (places G)"
  shows "video_feed d xs = ([], d)"
  using assms(3)
proof (induction xs)
  case (Cons p xs)
  then obtain i x where k: "(i, x) \<in> set (places G)" "p = sent_packet ps ts fi low G (i, x)"
    by auto
  have "video_add d p = ([], d)"
    using sent_header [OF assms(2) k(1)] assms(1) by (simp add: k(2) video_add_def frame_over_def)
  with Cons show ?case
    by simp
qed simp

lemma feed_collecting:
  assumes "collecting ps ts fi G S d" "sends ps G frm idr" "set xs \<subseteq> sent_packet ps ts fi low G ` set (places G)"
  defines "all \<equiv> sent_packet ps ts fi low G ` set (places G) \<subseteq> sent_packet ps ts fi low G ` S \<union> set xs"
  shows "\<exists>d' S'. video_feed d xs = (if all then [whole_frame fi frm idr ts] else [], d')
    \<and> (if all then frame_over fi d'
       else collecting ps ts fi G S' d' \<and> S \<subseteq> S' \<and> (xs = [] \<or> S' \<noteq> {}) \<and> vd_next d' = vd_next d)"
  using assms(1,3) unfolding all_def
proof (induction xs arbitrary: S d)
  case Nil
  let ?s = "sent_packet ps ts fi low G"
  have "inj_on ?s (set (places G))" "S \<subseteq> set (places G)" "S \<noteq> set (places G)"
    using Nil(1) assms(2) sent_inj by (simp_all add: collecting_def holds_def sends_def)
  then have "\<not> ?s ` set (places G) \<subseteq> ?s ` S \<union> set []"
    by (auto simp: inj_on_image_mem_iff image_subset_iff)
  then show ?case
    using Nil(1) by auto
next
  case (Cons p xs)
  let ?s = "sent_packet ps ts fi low G"
  obtain k where k: "k \<in> set (places G)" "p = ?s k"
    using Cons.prems(2) by auto
  have rest: "set xs \<subseteq> ?s ` set (places G)"
    using Cons.prems(2) by simp
  have same: "?s ` insert k S \<union> set xs = ?s ` S \<union> set (p # xs)"
    using k by auto
  obtain d' where d': "video_add d p = (if insert k S = set (places G) then [whole_frame fi frm idr ts] else [], d')"
    "if insert k S = set (places G) then frame_over fi d'
       else collecting ps ts fi G (insert k S) d' \<and> vd_next d' = vd_next d"
    using add_collecting [OF Cons.prems(1) assms(2) k(1)] k(2) by blast
  show ?case
  proof (cases "insert k S = set (places G)")
    case True
    then have "?s ` set (places G) \<subseteq> ?s ` S \<union> set (p # xs)"
      unfolding same [symmetric] by blast
    moreover have "video_feed d' xs = ([], d')"
      using feed_over [OF _ _ rest] d'(2) True assms(2) by (simp add: sends_def)
    ultimately show ?thesis
      using d' True by simp
  next
    case False
    then have "collecting ps ts fi G (insert k S) d'" "vd_next d' = vd_next d"
      using d'(2) by simp_all
    define every where "every = (?s ` set (places G) \<subseteq> ?s ` S \<union> set (p # xs))"
    obtain d2 S2 where "video_feed d' xs = (if every then [whole_frame fi frm idr ts] else [], d2)"
      "if every then frame_over fi d2
       else collecting ps ts fi G S2 d2 \<and> insert k S \<subseteq> S2 \<and> (xs = [] \<or> S2 \<noteq> {}) \<and> vd_next d2 = vd_next d'"
      using Cons.IH [OF \<open>collecting ps ts fi G (insert k S) d'\<close> rest] unfolding same every_def by blast
    then show ?thesis
      using d'(1) False \<open>vd_next d' = vd_next d\<close> unfolding every_def [symmetric]
      by (intro exI [of _ d2] exI [of _ S2]) auto
  qed
qed

text \<open>The frame that a packet of a new frame ends.\<close>

definition lost_before :: "video_depacketizer \<Rightarrow> received list" where
  "lost_before d = (case vd_current d of Some lost \<Rightarrow> if vd_blocks d = [] then [] else [Lost lost] | None \<Rightarrow> [])"

lemma in_set_member_ne: "x \<in> set xs \<Longrightarrow> xs \<noteq> []"
  by auto

lemma feed_frame:
  assumes "0 \<le> sint (fi - vd_next d)" "vd_current d \<noteq> Some fi" "sends ps G frm idr"
    and "set xs \<subseteq> sent_packet ps ts fi low G ` set (places G)" "xs \<noteq> []"
  defines "all \<equiv> sent_packet ps ts fi low G ` set (places G) \<subseteq> set xs"
  shows "\<exists>d'. video_feed d xs = (lost_before d @ (if all then [whole_frame fi frm idr ts] else []), d')
    \<and> (if all then frame_over fi d' else vd_current d' = Some fi \<and> vd_blocks d' \<noteq> [] \<and> vd_next d' = vd_next d)"
proof -
  let ?s = "sent_packet ps ts fi low G"
  have fits: "fits G"
    using assms(3) by (simp add: sends_def)
  obtain p rest where xs: "xs = p # rest"
    using assms(5) by (cases xs) auto
  then obtain i x where k: "(i, x) \<in> set (places G)" "p = ?s (i, x)"
    using assms(4) by auto
  let ?d = "d\<lparr>vd_current := Some fi, vd_blocks := [], vd_shards_per_block := [], vd_last_block := of_nat (length G - 1),
    vd_timestamp := ts\<rparr>"
  have ts: "of_be (subslice p 4 8) = ts"
    unfolding k(2) sent_packet_def by (simp add: packet_layout)
  have "video_add d p = (lost_before d @ fst (video_add ?d p), snd (video_add ?d p))"
    using sent_header [OF fits k(1), of ps ts fi low] assms(1,2) k(2) ts
    by (simp add: video_add_def Let_def split_beta lost_before_def)
  then have feed: "video_feed d xs = (lost_before d @ fst (video_feed ?d xs), snd (video_feed ?d xs))"
    by (simp add: xs split_beta Let_def)
  have "{} \<noteq> set (places G)"
    using k(1) by auto
  then have coll: "collecting ps ts fi G {} ?d"
    by (simp add: collecting_def holds_def table_def)
  have sub: "?s ` set (places G) \<subseteq> ?s ` {} \<union> set xs \<longleftrightarrow> all"
    by (simp add: all_def)
  obtain d' S' where d': "video_feed ?d xs = (if all then [whole_frame fi frm idr ts] else [], d')"
    "if all then frame_over fi d' else collecting ps ts fi G S' d' \<and> {} \<subseteq> S' \<and> (xs = [] \<or> S' \<noteq> {}) \<and> vd_next d' = vd_next ?d"
    using feed_collecting [OF coll assms(3,4)] unfolding sub by blast
  have "vd_blocks d' \<noteq> []" if "collecting ps ts fi G S' d'" "S' \<noteq> {}"
  proof -
    obtain j y where "(j, y) \<in> S'"
      using \<open>S' \<noteq> {}\<close> by auto
    then have "j \<in> set (filter (\<lambda>i. \<exists>x. (i, x) \<in> S') [0..<length G])"
      using that(1) in_places [of j y G] by (auto simp: collecting_def holds_def)
    then have "filter (\<lambda>i. \<exists>x. (i, x) \<in> S') [0..<length G] \<noteq> []"
      by (rule in_set_member_ne)
    then have "table of_nat (held_shards ps G S') (\<lambda>i. \<exists>x. (i, x) \<in> S') [0..<length G] \<noteq> []"
      unfolding table_def by (simp only: map_is_Nil_conv not_False_eq_True)
    then show ?thesis
      using that(1) by (simp add: collecting_def holds_def)
  qed
  then show ?thesis
    using d' feed assms(5) by (cases all) (auto simp: collecting_def)
qed

lemma feed_append:
  "video_feed d (xs @ ys) = (let (a, d) = video_feed d xs; (b, d) = video_feed d ys in (a @ b, d))"
  by (induction xs arbitrary: d) (simp_all add: split_beta Let_def)

section \<open>A stream of frames\<close>

type_synonym encoded = "bytes \<times> bool \<times> u32"

fun video_send :: "video_packetizer \<Rightarrow> encoded list \<Rightarrow> bytes list list" where
  "video_send p [] = []"
| "video_send p ((frm, idr, ts) # frames) =
     (let (out, p) = video_packets p frm idr ts in out # video_send p frames)"

text \<open>
  What a receiver ought to say: frames count from \<open>index\<close>, \<open>pending\<close> is the one that is not yet whole.
  A frame none of whose packets came is not heard of.
\<close>

fun heard :: "u32 \<Rightarrow> u32 option \<Rightarrow> encoded list \<Rightarrow> bytes list list \<Rightarrow> bytes list list \<Rightarrow> received list" where
  "heard index pending ((frm, idr, ts) # frames) (sent # sents) (came # cames) =
     (if came = [] then heard (index + 1) pending frames sents cames
      else (case pending of Some i \<Rightarrow> [Lost i] | None \<Rightarrow> []) @
        (if set sent \<subseteq> set came then whole_frame index frm idr ts # heard (index + 1) None frames sents cames
         else heard (index + 1) (Some index) frames sents cames))"
| "heard index pending _ _ _ = []"

definition frame_fits :: "nat \<Rightarrow> encoded \<Rightarrow> bool" where
  "frame_fits ps = (\<lambda>(frm, _, _). length frm + FRAME_HEADER \<le> 4092 * (ps - NV_SIZE))"

lemma video_packets_sent:
  assumes "frame_fits (vp_packet_size p) (frm, idr, ts)" "80 \<le> vp_packet_size p" "vp_packet_size p \<le> 65551"
  shows "\<exists>G low seq. video_packets p frm idr ts
      = (map (sent_packet (vp_packet_size p) ts (vp_frame_index p + 1) low G) (places G),
         p\<lparr>vp_sequence := seq, vp_frame_index := vp_frame_index p + 1\<rparr>) \<and> sends (vp_packet_size p) G frm idr"
proof -
  let ?n = "vp_packet_size p - NV_SIZE"
  let ?pay = "frame_payload ?n frm idr"
  let ?G = "video_groups ?n ?pay"
  have n: "0 < ?n" "64 \<le> ?n" "?n < 65536"
    using assms(2,3) by (simp_all add: NV_SIZE_def)
  have len: "length ?pay = length frm + FRAME_HEADER"
    by (simp add: frame_payload_def Let_def FRAME_HEADER_def)
  then have "(length ?pay + ?n - 1) div ?n < 4093"
    using assms(1) n by (intro div_less_iff_less_mult [THEN iffD2]) (simp_all add: frame_fits_def)
  then have small: "length (chunks_of ?n ?pay) \<le> 4092"
    using length_chunks_of [OF n(1), of ?pay] by linarith
  have "?pay \<noteq> []"
    using len by (auto simp: FRAME_HEADER_def)
  note G = groups_props [OF n(1) this small]
  have "video_packets p frm idr ts
      = (map (sent_packet (vp_packet_size p) ts (vp_frame_index p + 1) (vp_sequence p) ?G) (places ?G),
         p\<lparr>vp_sequence := snd (video_blocks (video_packet (vp_packet_size p) ts (vp_frame_index p + 1) (length ?G)) 0 (vp_sequence p) ?G),
           vp_frame_index := vp_frame_index p + 1\<rparr>)"
    by (simp add: video_packets_def Let_def split_beta video_blocks_places [symmetric] G(2))
  moreover have "sends (vp_packet_size p) ?G frm idr"
    using G(1,3) n by (simp add: sends_def)
  ultimately show ?thesis
    by blast
qed

lemma offset_positive: "m < 2 ^ 31 \<Longrightarrow> 0 \<le> sint (of_nat m :: u32)"
  by (simp add: sint_uint uint_nat unat_of_nat take_bit_eq_mod signed_take_bit_eq_if_positive bit_iff_odd)

lemma heard_from:
  assumes "list_all2 (\<lambda>sent came. set came \<subseteq> set sent) (video_send p frames) cames"
    and "list_all (frame_fits (vp_packet_size p)) frames" "80 \<le> vp_packet_size p" "vp_packet_size p \<le> 65551"
    and "vp_frame_index p + 1 = vd_next d + of_nat m" "m + length frames \<le> 2 ^ 31" "1 \<le> j" "j + length frames \<le> 2 ^ 31"
    and "\<forall>c. vd_current d = Some c \<longrightarrow> vp_frame_index p + 1 = c + of_nat j \<and> vd_blocks d \<noteq> []"
  shows "fst (video_feed d (concat cames)) = heard (vp_frame_index p + 1) (vd_current d) frames (video_send p frames) cames"
  using assms
proof (induction frames arbitrary: p d m j cames)
  case (Cons f frames)
  obtain frm idr ts where f: "f = (frm, idr, ts)"
    by (cases f)
  let ?ps = "vp_packet_size p"
  let ?fi = "vp_frame_index p + 1"
  obtain G low seq where packets: "video_packets p frm idr ts
      = (map (sent_packet ?ps ts ?fi low G) (places G), p\<lparr>vp_sequence := seq, vp_frame_index := ?fi\<rparr>)"
    and sends: "sends ?ps G frm idr"
    using video_packets_sent [of p frm idr ts] Cons.prems(2-4) f by auto
  let ?sent = "map (sent_packet ?ps ts ?fi low G) (places G)"
  let ?p = "p\<lparr>vp_sequence := seq, vp_frame_index := ?fi\<rparr>"
  have send: "video_send p (f # frames) = ?sent # video_send ?p frames"
    by (simp add: f packets)
  obtain came cs where cames: "cames = came # cs" "set came \<subseteq> set ?sent"
    and rest: "list_all2 (\<lambda>sent came. set came \<subseteq> set sent) (video_send ?p frames) cs"
    using Cons.prems(1) unfolding send by (auto simp: list_all2_Cons1)
  have IH: "fst (video_feed d' (concat cs)) = heard (?fi + 1) (vd_current d') frames (video_send ?p frames) cs"
    if "?fi + 1 = vd_next d' + of_nat m'" "m' + length frames \<le> 2 ^ 31" "1 \<le> j'" "j' + length frames \<le> 2 ^ 31"
      "\<forall>c. vd_current d' = Some c \<longrightarrow> ?fi + 1 = c + of_nat j' \<and> vd_blocks d' \<noteq> []" for d' m' j'
    using Cons.IH [OF rest, of d' m' j'] Cons.prems(2-4) that by simp
  have small: "Suc m + length frames \<le> 2 ^ 31" "Suc j + length frames \<le> 2 ^ 31" "m < 2 ^ 31"
    "Suc (length frames) \<le> 2 ^ 31"
    using Cons.prems(6-8) by simp_all
  show ?case
  proof (cases "came = []")
    case True
    have "fst (video_feed d (concat cs)) = heard (?fi + 1) (vd_current d) frames (video_send ?p frames) cs"
      using small Cons.prems(5,7,9) by (intro IH [of d "Suc m" "Suc j"]) (auto simp: algebra_simps)
    then show ?thesis
      using True unfolding cames(1) send by (simp add: f)
  next
    case False
    have "0 \<le> sint (?fi - vd_next d)"
      using offset_positive [OF small(3)] Cons.prems(5) by simp
    moreover have "vd_current d \<noteq> Some ?fi"
    proof
      assume "vd_current d = Some ?fi"
      then have "(of_nat j :: u32) = 0"
        using Cons.prems(9) by simp
      then have "unat (of_nat j :: u32) = 0"
        by simp
      then show False
        using Cons.prems(7,8) by (simp add: unat_of_nat take_bit_eq_mod)
    qed
    moreover have "set came \<subseteq> sent_packet ?ps ts ?fi low G ` set (places G)"
      using cames(2) by simp
    moreover define every where "every = (sent_packet ?ps ts ?fi low G ` set (places G) \<subseteq> set came)"
    ultimately obtain d' where d': "video_feed d came = (lost_before d @ (if every then [whole_frame ?fi frm idr ts] else []), d')"
      "if every then frame_over ?fi d' else vd_current d' = Some ?fi \<and> vd_blocks d' \<noteq> [] \<and> vd_next d' = vd_next d"
      using feed_frame [OF _ _ sends _ False] by blast
    have "fst (video_feed d' (concat cs)) = heard (?fi + 1) (vd_current d') frames (video_send ?p frames) cs"
    proof (cases every)
      case True
      then show ?thesis
        using d'(2) small(4) by (intro IH [of d' 0 1]) (simp_all add: frame_over_def)
    next
      case no: False
      then show ?thesis
        using d'(2) small Cons.prems(5) by (intro IH [of d' "Suc m" 1]) (simp_all add: algebra_simps)
    qed
    moreover have "lost_before d = (case vd_current d of Some i \<Rightarrow> [Lost i] | None \<Rightarrow> [])"
      using Cons.prems(9) by (simp add: lost_before_def split: option.split)
    moreover have "set ?sent \<subseteq> set came \<longleftrightarrow> every"
      by (simp add: every_def)
    ultimately show ?thesis
      using False d' unfolding cames(1) send
      by (cases every) (simp_all add: f feed_append split_beta Let_def frame_over_def del: video_send.simps)
  qed
qed simp

text \<open>
  C9. A stream of frames is received exactly as well as its packets come through: when the packets of each
  frame come in any order and repeated, after those of the frame before, the receiver hands out, in order,
  exactly the frames of which every packet came, with their data, kind and time, and reports a frame lost
  exactly when some but not all of its packets came and a packet of a later frame followed.
\<close>

theorem video_stream_exact:
  assumes "p = video_packetizer_new packet_size" "packet_size \<le> 65551" "length frames < 2 ^ 31"
    and "list_all (frame_fits (vp_packet_size p)) frames"
    and "list_all2 (\<lambda>sent came. set came \<subseteq> set sent) (video_send p frames) cames"
  shows "fst (video_feed video_depacketizer_default (concat cames)) = heard 1 None frames (video_send p frames) cames"
proof -
  have "vp_frame_index p + 1 = vd_next video_depacketizer_default + of_nat 1" "vd_current video_depacketizer_default = None"
    "80 \<le> vp_packet_size p" "vp_packet_size p \<le> 65551" "vp_frame_index p + 1 = 1"
    using assms(1,2) by (simp_all add: video_packetizer_new_def video_depacketizer_default_def NV_SIZE_def)
  then show ?thesis
    using heard_from [OF assms(5,4), of video_depacketizer_default 1 1] assms(3) by simp
qed

theorem video_stream_exact_witness:
  "\<exists>a b. video_send (video_packetizer_new 0) [([1, 2, 3], True, 9), ([4], False, 10)] = [a, b]
     \<and> fst (video_feed video_depacketizer_default (concat [[], rev b]))
       = heard 1 None [([1, 2, 3], True, 9), ([4], False, 10)] [a, b] [[], rev b]"
proof -
  obtain a b where send: "video_send (video_packetizer_new 0) [([1, 2, 3], True, 9), ([4], False, 10)] = [a, b]"
    by (simp add: split_beta Let_def)
  have fits: "list_all (frame_fits (vp_packet_size (video_packetizer_new 0))) [([1, 2, 3], True, 9), ([4], False, 10)]"
    by (simp add: frame_fits_def FRAME_HEADER_def NV_SIZE_def video_packetizer_new_def)
  have "list_all2 (\<lambda>sent came. set came \<subseteq> set sent)
      (video_send (video_packetizer_new 0) [([1, 2, 3], True, 9), ([4], False, 10)]) [[], rev b]"
    unfolding send by simp
  from video_stream_exact [OF refl _ _ fits this] show ?thesis
    unfolding send by simp
qed

section \<open>Encrypted packets\<close>

text \<open>A sealed packet opens to the packet, for any cipher that undoes itself with tags of 16 bytes.\<close>

lemma video_open_sealed:
  assumes "\<And>key iv m. unseal key iv (snd (seal key iv m)) (fst (seal key iv m)) = Some m"
    and "\<And>key iv m. length (snd (seal key iv m)) = 16" "\<And>key iv m. length (fst (seal key iv m)) = length m"
    and "packet \<noteq> []" "vc_key receiver = vc_key sender"
  shows "video_open unseal receiver (fst (video_seal seal sender packet)) = Some packet"
proof -
  let ?iv = "le_bytes 8 (vc_counter sender) @ [0, 0, 0, 86]"
  obtain body tag where bt: "seal (vc_key sender) ?iv packet = (body, tag)"
    by (cases "seal (vc_key sender) ?iv packet")
  then have len: "length tag = 16" "length body = length packet" and unseal: "unseal (vc_key sender) ?iv tag body = Some packet"
    using assms(1) [of "vc_key sender" ?iv packet] assms(2) [of "vc_key sender" ?iv packet] assms(3) [of "vc_key sender" ?iv packet]
    by simp_all
  obtain frm where sealed: "fst (video_seal seal sender packet) = ?iv @ frm @ tag @ body" and "length frm = 4"
    by (simp add: video_seal_def bt Let_def RTP_SIZE_def)
  moreover have "subslice (?iv @ frm @ tag @ body) 16 32 = tag" "drop 32 (?iv @ frm @ tag @ body) = body"
      "take 12 (?iv @ frm @ tag @ body) = ?iv"
    using \<open>length frm = 4\<close> len by (simp_all add: subslice_def)
  ultimately show ?thesis
    using len unseal assms(4,5) by (simp add: video_open_def ENC_HEADER_def)
qed

text \<open>The nonces of a cipher repeat only after all values of its counter.\<close>

lemma video_nonce_fresh:
  "le_bytes 8 (c :: u64) @ [0, 0, 0, 86] = le_bytes 8 c' @ [0, 0, 0, 86] \<Longrightarrow> c = c'"
proof -
  assume "le_bytes 8 c @ [0, 0, 0, 86] = le_bytes 8 c' @ [0, 0, 0, 86]"
  then have "le_bytes 8 c = le_bytes 8 c'"
    by (simp only: append_same_eq)
  then have "of_le (le_bytes 8 c) = (of_le (le_bytes 8 c') :: u64)"
    by (rule arg_cong)
  then show "c = c'"
    by simp
qed

end
