(* ===== verification/Bud_Header.thy ===== *)
theory Bud_Header
  imports Prelude
begin

unbundle bit_operations_syntax

text \<open>
  The packet header of the Direct transport (\<open>bud/src/header.rs\<close>): 24 bytes in front of every
  datagram. \<open>header_encode\<close> and \<open>header_decode\<close> are \<open>Header::encode\<close> and
  \<open>Header::decode\<close>; they form a codec with a fixed-length prefix.
\<close>

definition VERSION :: u8 where "VERSION = 1"
definition HEADER_LEN :: nat where "HEADER_LEN = 24"
definition TAG_LEN :: nat where "TAG_LEN = 16"
definition MAX_DATAGRAM :: nat where "MAX_DATAGRAM = 1200"
definition MAX_PAYLOAD :: nat where "MAX_PAYLOAD = MAX_DATAGRAM - HEADER_LEN - TAG_LEN"
definition FLAG_PARITY :: u8 where "FLAG_PARITY = 1"

lemmas header_consts [const_simps] =
  VERSION_def HEADER_LEN_def TAG_LEN_def MAX_DATAGRAM_def MAX_PAYLOAD_def FLAG_PARITY_def

record header =
  flags :: u8
  stream :: u16
  frame :: u32
  fragment :: u16
  fragments :: u16
  packet :: u64
  sent_us :: u32

datatype header_error = HShort | HVersion u8 | HFragment u16 u16

definition header_encode :: "header \<Rightarrow> bytes" where
  "header_encode h = [VERSION, flags h] @ be_bytes 2 (stream h) @ be_bytes 4 (frame h)
     @ be_bytes 2 (fragment h) @ be_bytes 2 (fragments h) @ be_bytes 8 (packet h)
     @ be_bytes 4 (sent_us h)"

definition is_parity :: "header \<Rightarrow> bool" where
  "is_parity h \<longleftrightarrow> flags h AND FLAG_PARITY \<noteq> 0"

definition header_decode :: "bytes \<Rightarrow> header_error + header" where
  "header_decode d =
     (if length d < HEADER_LEN then Inl HShort
      else if d ! 0 \<noteq> VERSION then Inl (HVersion (d ! 0))
      else let h = \<lparr>flags = d ! 1, stream = of_be (subslice d 2 4), frame = of_be (subslice d 4 8),
                     fragment = of_be (subslice d 8 10), fragments = of_be (subslice d 10 12),
                     packet = of_be (subslice d 12 20), sent_us = of_be (subslice d 20 24)\<rparr>
       in if fragments h = 0 \<or> (\<not> is_parity h \<and> fragment h \<ge> fragments h)
          then Inl (HFragment (fragment h) (fragments h))
          else Inr h)"

text \<open>The headers that a sender may send.\<close>

definition header_valid :: "header \<Rightarrow> bool" where
  "header_valid h \<longleftrightarrow> fragments h \<noteq> 0 \<and> (is_parity h \<or> fragment h < fragments h)"

lemma length_header_encode [simp, wire_simps]: "length (header_encode h) = 24"
  by (simp add: header_encode_def)

lemma header_decode_encode_append:
  "header_valid h \<Longrightarrow> header_decode (header_encode h @ rest) = Inr h"
  by (auto simp: header_decode_def header_encode_def header_valid_def const_simps subslice_def
      is_parity_def Let_def not_le)

lemma header_decode_cases:
  "header_decode d = Inr h \<Longrightarrow> 24 \<le> length d \<and> d ! 0 = VERSION \<and> header_valid h \<and> h =
     \<lparr>flags = d ! 1, stream = of_be (subslice d 2 4), frame = of_be (subslice d 4 8),
      fragment = of_be (subslice d 8 10), fragments = of_be (subslice d 10 12),
      packet = of_be (subslice d 12 20), sent_us = of_be (subslice d 20 24)\<rparr>"
  unfolding header_decode_def header_valid_def Let_def
  by (auto simp: const_simps is_parity_def not_le not_less split: if_splits)

lemma header_encode_decode: "header_decode d = Inr h \<Longrightarrow> header_encode h = take 24 d"
proof -
  assume "header_decode d = Inr h"
  note h = header_decode_cases [OF this]
  then have "d \<noteq> []"
    by auto
  have "header_encode h = d ! 0 # d ! 1 # subslice d 2 24"
    using h by (simp add: header_encode_def subslice_append)
  also have "\<dots> = subslice d 0 24"
    using h \<open>d \<noteq> []\<close> subslice_Cons [of 0 24 d] subslice_Cons [of 1 24 d]
    by (auto simp: numeral_2_eq_2)
  finally show ?thesis
    by simp
qed

lemma header_decode_take: "24 \<le> length d \<Longrightarrow> header_decode (take 24 d) = header_decode d"
  by (simp add: header_decode_def const_simps subslice_def min_def Let_def take_drop)

interpretation header_format: prefix_codec header_valid header_encode "\<lambda>d. ok (header_decode d)" 24
proof unfold_locales
  show "ok (header_decode (header_encode h)) = Some h" if "header_valid h" for h
    using header_decode_encode_append [OF that, of "[]"] by simp
  show "(ok (header_decode d) = Some h)
      = (24 \<le> length d \<and> ok (header_decode (take 24 d)) = Some h)" for d h
    using header_decode_take [of d] header_decode_cases [of d h] by auto
qed (simp_all add: header_encode_decode header_decode_cases)

section \<open>Properties\<close>

text \<open>
  C33. The header format is exact: a datagram is read as header \<open>h\<close> if and only if \<open>h\<close> names a
  valid position (at least one fragment, and for frame data a fragment below the count) and the
  datagram starts with the 24 bytes that encode \<open>h\<close>, whatever follows.
\<close>

theorem header_decode_exact:
  "header_decode d = Inr h \<longleftrightarrow> header_valid h \<and> take HEADER_LEN d = header_encode h"
proof -
  have "(\<exists>rest. d = header_encode h @ rest) \<longleftrightarrow> take 24 d = header_encode h"
    using append_take_drop_id [of 24 d] by (metis append_eq_conv_conj length_header_encode)
  then show ?thesis
    using header_format.dec_eq_iff [of d h] by (simp add: HEADER_LEN_def)
qed

end
