(* ===== verification/Bud_Replay.thy ===== *)
theory Bud_Replay
  imports Prelude
begin

unbundle bit_operations_syntax

text \<open>
  The receiver's replay window (\<open>bud/src/replay.rs\<close>): a ring of 1,024 bits in sixteen words that
  says which packet numbers below the highest were accepted. The model keeps the words; the
  abstraction is the set of accepted packet numbers.
\<close>

definition WINDOW :: u64 where "WINDOW = 1024"
definition WORDS :: nat where "WORDS = unat (WINDOW div 64)"

record replay_window =
  rw_highest :: "u64 option"
  rw_accepted :: u64
  rw_bits :: "u64 list"

definition replay_new :: replay_window where
  "replay_new = \<lparr>rw_highest = None, rw_accepted = 0, rw_bits = replicate WORDS 0\<rparr>"

definition replay_bit :: "replay_window \<Rightarrow> u64 \<Rightarrow> bool" where
  "replay_bit w k \<longleftrightarrow>
     drop_bit (unat (k mod 64)) (rw_bits w ! unat (k div 64)) AND 1 = 1"

definition replay_set :: "replay_window \<Rightarrow> u64 \<Rightarrow> replay_window" where
  "replay_set w k = (let i = unat (k div 64) in
     w\<lparr>rw_bits := (rw_bits w)[i := rw_bits w ! i OR push_bit (unat (k mod 64)) 1]\<rparr>)"

definition replay_check :: "replay_window \<Rightarrow> u64 \<Rightarrow> bool" where
  "replay_check w packet =
     (case rw_highest w of
        None \<Rightarrow> True
      | Some highest \<Rightarrow>
          if packet > highest then True
          else let back = highest - packet in back < WINDOW \<and> \<not> replay_bit w back)"

text \<open>One turn of the loop of \<open>shift\<close>, which runs from the last word down and in place.\<close>

definition shifted_word :: "nat \<Rightarrow> nat \<Rightarrow> nat \<Rightarrow> u64 list \<Rightarrow> u64" where
  "shifted_word words bits i bs =
     (let value = (if i \<ge> words then bs ! (i - words) else 0)
      in if bits > 0
         then let value = push_bit bits value
              in if i > words then value OR drop_bit (64 - bits) (bs ! (i - words - 1)) else value
         else value)"

definition replay_shift :: "replay_window \<Rightarrow> u64 \<Rightarrow> replay_window" where
  "replay_shift w dist =
     (if dist \<ge> WINDOW then w\<lparr>rw_bits := replicate WORDS 0\<rparr>
      else let words = unat (dist div 64); bits = unat (dist mod 64)
       in w\<lparr>rw_bits := fold (\<lambda>i bs. bs[i := shifted_word words bits i bs])
                              (rev [0..<WORDS]) (rw_bits w)\<rparr>)"

definition replay_accept :: "replay_window \<Rightarrow> u64 \<Rightarrow> replay_window" where
  "replay_accept w0 packet =
     (let w = w0\<lparr>rw_accepted := rw_accepted w0 + 1\<rparr>
      in case rw_highest w of
           None \<Rightarrow> replay_set (w\<lparr>rw_highest := Some packet\<rparr>) 0
         | Some highest \<Rightarrow>
             if packet > highest
             then replay_set ((replay_shift w (packet - highest))\<lparr>rw_highest := Some packet\<rparr>) 0
             else let back = highest - packet
              in if back < WINDOW then replay_set w back else w)"

section \<open>Bits of the window\<close>

definition wbit :: "u64 list \<Rightarrow> nat \<Rightarrow> bool" where
  "wbit bs k \<longleftrightarrow> bit (bs ! (k div 64)) (k mod 64)"

lemma WORDS_eq [simp]: "WORDS = 16"
  by (simp add: WORDS_def WINDOW_def)

lemma unat_word_div_mod:
  "unat (k div 64 :: u64) = unat k div 64" "unat (k mod 64 :: u64) = unat k mod 64"
  by (simp_all add: unat_div unat_mod)

lemma replay_bit_wbit: "replay_bit w k \<longleftrightarrow> wbit (rw_bits w) (unat k)"
  by (simp add: replay_bit_def wbit_def unat_word_div_mod and_one_eq bit_iff_odd_drop_bit
      odd_iff_mod_2_eq_one)

lemma wbit_set:
  assumes "unat k < 64 * length bs" "j < 64 * length bs"
  shows "wbit (rw_bits (replay_set (w\<lparr>rw_bits := bs\<rparr>) k)) j \<longleftrightarrow> wbit bs j \<or> j = unat k"
proof -
  have "unat k div 64 < length bs"
    using assms(1) by (simp add: less_mult_imp_div_less mult.commute)
  moreover have "j div 64 = unat k div 64 \<and> j mod 64 = unat k mod 64 \<longleftrightarrow> j = unat k"
    by (metis div_mult_mod_eq)
  ultimately show ?thesis
    by (auto simp: replay_set_def wbit_def unat_word_div_mod nth_list_update Let_def bit_simps)
qed

lemma fold_downward:
  assumes "\<And>i bs bs'. take (Suc i) bs = take (Suc i) bs' \<Longrightarrow> f i bs = f i bs'"
    and "n \<le> length bs" "j < length bs"
  shows "fold (\<lambda>i bs. bs[i := f i bs]) (rev [0..<n]) bs ! j = (if j < n then f j bs else bs ! j)"
  using assms(2,3)
proof (induction n arbitrary: bs)
  case (Suc n)
  have "f j (bs[n := f n bs]) = f j bs" if "j < n"
    using that by (intro assms(1)) (simp add: take_update_cancel)
  then show ?case
    using Suc by (auto simp: nth_list_update less_Suc_eq)
qed simp

lemma shifted_word_local:
  assumes "take (Suc i) bs = take (Suc i) bs'"
  shows "shifted_word words bits i bs = shifted_word words bits i bs'"
proof -
  have "bs ! k = bs' ! k" if "k \<le> i" for k
    using assms that by (metis nth_take less_Suc_eq_le)
  then show ?thesis
    by (simp add: shifted_word_def Let_def)
qed

lemma wbit_word: "r < 64 \<Longrightarrow> wbit bs (64 * i + r) \<longleftrightarrow> bit (bs ! i) r"
  by (simp add: wbit_def)

lemma bit_shifted_word:
  assumes b: "b < 64" and r: "r < 64"
  shows "bit (shifted_word words b i bs) r \<longleftrightarrow>
     64 * words + b \<le> 64 * i + r \<and> wbit bs (64 * i + r - (64 * words + b))"
proof (cases "b \<le> r")
  case True
  have "64 * i + r - (64 * words + b) = 64 * (i - words) + (r - b)" if "words \<le> i"
    using that True by simp
  then have word: "wbit bs (64 * i + r - (64 * words + b)) \<longleftrightarrow> bit (bs ! (i - words)) (r - b)"
    if "words \<le> i" using that wbit_word [of "r - b" bs "i - words"] r by simp
  have carry: "\<not> bit (drop_bit (64 - b) u) r" if "0 < b" for u :: u64
    using that True b by (auto simp: bit_drop_bit_eq dest: bit_imp_le_length)
  have "64 * words + b \<le> 64 * i + r \<longleftrightarrow> words \<le> i"
    using True r b by linarith
  then show ?thesis
    using word carry True r
    by (auto simp: shifted_word_def Let_def bit_or_iff bit_push_bit_iff not_le)
next
  case False
  have "64 * i + r - (64 * words + b) = 64 * (i - words - 1) + (64 + r - b)" if "words < i"
    using that False b by simp
  then have word: "wbit bs (64 * i + r - (64 * words + b))
      \<longleftrightarrow> bit (bs ! (i - words - 1)) (64 + r - b)" if "words < i"
    using that wbit_word [of "64 + r - b" bs "i - words - 1"] False b by simp
  have "64 * words + b \<le> 64 * i + r \<longleftrightarrow> words < i"
    using False b r by linarith
  moreover have "64 - b + r = 64 + r - b"
    using b by simp
  ultimately show ?thesis
    using False r word
    by (auto simp: shifted_word_def Let_def bit_or_iff bit_push_bit_iff bit_drop_bit_eq)
qed

lemma wbit_shift:
  assumes "length (rw_bits w) = 16" "k < 1024"
  shows "wbit (rw_bits (replay_shift w d)) k \<longleftrightarrow> unat d \<le> k \<and> wbit (rw_bits w) (k - unat d)"
proof (cases "WINDOW \<le> d")
  case True
  then have "1024 \<le> unat d"
    by (simp add: WINDOW_def word_le_nat_alt)
  then show ?thesis
    using True assms(2) by (simp add: replay_shift_def wbit_def)
next
  case False
  let ?f = "shifted_word (unat d div 64) (unat d mod 64)"
  have k: "k div 64 < 16"
    using assms(2) by simp
  have "fold (\<lambda>i bs. bs[i := ?f i bs]) (rev [0..<16]) (rw_bits w) ! (k div 64)
      = ?f (k div 64) (rw_bits w)"
    using k assms(1) fold_downward [of ?f 16 "rw_bits w" "k div 64", OF shifted_word_local]
    by (simp del: upt_rec_numeral)
  then have "wbit (rw_bits (replay_shift w d)) k \<longleftrightarrow> bit (?f (k div 64) (rw_bits w)) (k mod 64)"
    using False unfolding replay_shift_def wbit_def Let_def unat_word_div_mod
    by (simp del: upt_rec_numeral)
  then show ?thesis
    using bit_shifted_word [of "unat d mod 64" "k mod 64" "unat d div 64" "k div 64" "rw_bits w"]
    by simp
qed

section \<open>The abstraction: the set of accepted packets\<close>

definition replay_rel :: "replay_window \<Rightarrow> u64 set \<Rightarrow> bool" where
  "replay_rel w S \<longleftrightarrow> length (rw_bits w) = 16 \<and>
     (case rw_highest w of
        None \<Rightarrow> S = {} \<and> rw_bits w = replicate 16 0
      | Some h \<Rightarrow> h \<in> S \<and> (\<forall>p\<in>S. p \<le> h)
          \<and> (\<forall>k<1024. wbit (rw_bits w) k \<longleftrightarrow> (\<exists>q\<in>S. unat q + k = unat h)))"

lemma replay_rel_new: "replay_rel replay_new {}"
  by (simp add: replay_rel_def replay_new_def)

text \<open>A packet is accepted when it is new and nothing 1,024 or more above it was accepted.\<close>

definition fresh :: "u64 set \<Rightarrow> u64 \<Rightarrow> bool" where
  "fresh S p \<longleftrightarrow> p \<notin> S \<and> (\<forall>q\<in>S. unat q < unat p + 1024)"

lemma word_back: "p \<le> (h :: u64) \<Longrightarrow> unat (h - p) = unat h - unat p"
  by (simp add: unat_sub)

lemma replay_check_fresh:
  assumes "replay_rel w S"
  shows "replay_check w p \<longleftrightarrow> fresh S p"
proof (cases "rw_highest w")
  case None
  then show ?thesis
    using assms by (simp add: replay_check_def replay_rel_def fresh_def)
next
  case (Some h)
  then have h: "h \<in> S" "\<And>q. q \<in> S \<Longrightarrow> unat q \<le> unat h"
    and bits: "\<And>k. k < 1024 \<Longrightarrow> wbit (rw_bits w) k \<longleftrightarrow> (\<exists>q\<in>S. unat q + k = unat h)"
    using assms by (auto simp: replay_rel_def word_le_nat_alt)
  show ?thesis
  proof (cases "h < p")
    case True
    then have "unat h < unat p"
      by (simp add: word_less_nat_alt)
    then have "fresh S p"
      using h(2) by (force simp: fresh_def)
    then show ?thesis
      using True Some by (simp add: replay_check_def)
  next
    case False
    then have below: "p \<le> h"
      by simp
    have near: "h - p < WINDOW \<longleftrightarrow> unat h < unat p + 1024"
      using below by (auto simp: WINDOW_def word_less_nat_alt word_le_nat_alt word_back)
    have same: "unat q + (unat h - unat p) = unat h \<longleftrightarrow> q = p" for q
      using below by (auto simp: word_le_nat_alt word_unat_eq_iff)
    have "replay_bit w (h - p) \<longleftrightarrow> p \<in> S" if "h - p < WINDOW"
      using that bits [of "unat (h - p)"] below
      by (simp add: replay_bit_wbit WINDOW_def word_less_nat_alt word_back same)
    then show ?thesis
      using Some False near h unfolding replay_check_def fresh_def
      by (auto simp: Let_def) (meson le_less_trans)
  qed
qed

lemma wbit_replicate [simp]: "k < 1024 \<Longrightarrow> \<not> wbit (replicate 16 0) k"
  by (simp add: wbit_def less_mult_imp_div_less)

lemma wbit_set_highest:
  assumes "length (rw_bits v) = 16" "unat k < 1024" "j < 1024"
  shows "wbit (rw_bits (replay_set v k)) j \<longleftrightarrow> wbit (rw_bits v) j \<or> j = unat k"
  using wbit_set [of k "rw_bits v" j v] assms by simp

lemma replay_set_simps [simp]:
  "rw_highest (replay_set w k) = rw_highest w" "length (rw_bits (replay_set w k)) = length (rw_bits w)"
  by (simp_all add: replay_set_def Let_def)

lemma length_fold_update: "length (fold (\<lambda>i bs. bs[i := f i bs]) is bs) = length bs"
  by (induction "is" arbitrary: bs) simp_all

lemma length_shift: "length (rw_bits w) = 16 \<Longrightarrow> length (rw_bits (replay_shift w d)) = 16"
  by (simp add: replay_shift_def Let_def length_fold_update del: upt_rec_numeral)

lemma replay_accept_rel:
  assumes rel: "replay_rel w S"
  shows "replay_rel (replay_accept w p) (insert p S)"
proof -
  have len: "length (rw_bits w) = 16"
    using rel by (simp add: replay_rel_def)
  show ?thesis
  proof (cases "rw_highest w")
    case None
    then show ?thesis
      using rel by (auto simp: replay_rel_def replay_accept_def wbit_set_highest)
  next
    case (Some h)
    then have h: "h \<in> S" "\<And>q. q \<in> S \<Longrightarrow> unat q \<le> unat h"
      and bits: "\<And>k. k < 1024 \<Longrightarrow> wbit (rw_bits w) k \<longleftrightarrow> (\<exists>q\<in>S. unat q + k = unat h)"
      using rel by (auto simp: replay_rel_def word_le_nat_alt)
    consider (newer) "unat h < unat p" | (inside) "p \<le> h" "unat h - unat p < 1024"
      | (older) "p \<le> h" "1024 \<le> unat h - unat p"
      by (metis not_le word_le_nat_alt)
    then show ?thesis
    proof cases
      case newer
      let ?s = "replay_shift (w\<lparr>rw_accepted := rw_accepted w + 1\<rparr>) (p - h)"
      have d: "unat (p - h) = unat p - unat h" "h < p"
        using newer by (auto simp: word_back word_le_nat_alt word_less_nat_alt)
      have "wbit (rw_bits ?s) k \<longleftrightarrow> (\<exists>q\<in>S. unat q + k = unat p)" if "k < 1024" for k
      proof -
        have "wbit (rw_bits ?s) k \<longleftrightarrow> unat p - unat h \<le> k \<and> wbit (rw_bits w) (k - (unat p - unat h))"
          using that len by (simp add: wbit_shift d)
        also have "\<dots> \<longleftrightarrow> (\<exists>q\<in>S. unat p - unat h \<le> k \<and> unat q + (k - (unat p - unat h)) = unat h)"
          using that by (simp add: bits)
        also have "\<dots> \<longleftrightarrow> (\<exists>q\<in>S. unat q + k = unat p)"
          using newer h(2) by (intro bex_cong refl) (force dest: h(2))
        finally show ?thesis .
      qed
      moreover have "unat q \<le> unat p" if "q \<in> S" for q
        using h(2) [OF that] newer by simp
      ultimately show ?thesis
        using Some d(2) len
        by (auto simp: replay_rel_def replay_accept_def wbit_set_highest length_shift word_le_nat_alt)
    next
      case inside
      have "unat p + k = unat h \<longleftrightarrow> k = unat h - unat p" for k
        using inside(1) by (auto simp: word_le_nat_alt)
      then show ?thesis
        using Some inside len h bits
        by (auto simp: replay_rel_def replay_accept_def wbit_set_highest Let_def word_back
            WINDOW_def word_less_nat_alt word_le_nat_alt)
    next
      case older
      then have "\<not> h - p < WINDOW" "\<not> h < p" "\<And>k. unat p + k = unat h \<Longrightarrow> 1024 \<le> k"
        by (auto simp: WINDOW_def word_less_nat_alt word_back)
      then show ?thesis
        using Some len h bits older(1)
        by (auto simp: replay_rel_def replay_accept_def Let_def word_le_nat_alt) fastforce
    qed
  qed
qed

section \<open>The interface of the window\<close>

text \<open>
  What the packet opener relies on: after any accepted packets, \<open>chk\<close> answers whether the
  packet is new and recent enough. \<open>deliver\<close> is the opener's use of it: a packet that passes is
  recorded and delivered.
\<close>

locale replay_filter =
  fixes empty :: 'w and chk :: "'w \<Rightarrow> u64 \<Rightarrow> bool" and acc :: "'w \<Rightarrow> u64 \<Rightarrow> 'w"
    and rel :: "'w \<Rightarrow> u64 set \<Rightarrow> bool"
  assumes rel_empty: "rel empty {}"
    and rel_acc: "rel w S \<Longrightarrow> rel (acc w p) (insert p S)"
    and chk_fresh: "rel w S \<Longrightarrow> chk w p \<longleftrightarrow> fresh S p"
begin

fun deliver :: "'w \<Rightarrow> u64 list \<Rightarrow> u64 list \<times> 'w" where
  "deliver w [] = ([], w)"
| "deliver w (p # ps) =
     (if chk w p then let (out, w') = deliver (acc w p) ps in (p # out, w') else deliver w ps)"

lemma deliver_once:
  "rel w S \<Longrightarrow> distinct (fst (deliver w ps)) \<and> set (fst (deliver w ps)) \<inter> S = {}
     \<and> set (fst (deliver w ps)) \<subseteq> set ps"
proof (induction ps arbitrary: w S)
  case (Cons p ps)
  show ?case
  proof (cases "chk w p")
    case True
    then show ?thesis
      using Cons.IH [OF rel_acc [OF Cons.prems, of p]] chk_fresh [OF Cons.prems, of p]
      by (auto simp: fresh_def split: prod.split)
  qed (use Cons in auto)
qed simp

lemma rel_fold: "rel w S \<Longrightarrow> rel (fold (\<lambda>p w. acc w p) ps w) (set ps \<union> S)"
proof (induction ps arbitrary: w S)
  case (Cons p ps)
  then show ?case
    using Cons.IH [OF rel_acc [OF Cons.prems, of p]] by simp
qed simp

lemma chk_history: "chk (fold (\<lambda>p w. acc w p) ps empty) p \<longleftrightarrow> fresh (set ps) p"
  using chk_fresh [OF rel_fold [OF rel_empty], of ps p] by simp

end

interpretation replay: replay_filter replay_new replay_check replay_accept replay_rel
  by unfold_locales (simp_all add: replay_rel_new replay_accept_rel replay_check_fresh)

section \<open>Properties\<close>

text \<open>
  C18. The bit window remembers exactly what it should: after any sequence of accepted packet numbers,
  in any order and with any jumps, \<open>check\<close> admits a packet if and only if it was not accepted
  before and no accepted number is 1,024 or more above it.
\<close>

theorem replay_check_exact:
  "replay_check (fold (\<lambda>p w. replay_accept w p) ps replay_new) packet \<longleftrightarrow>
     packet \<notin> set ps \<and> (\<forall>q\<in>set ps. unat q < unat packet + unat WINDOW)"
  using replay.chk_history [of ps packet] by (simp add: fresh_def WINDOW_def)

theorem replay_check_exact_witness:
  "replay_check (fold (\<lambda>p w. replay_accept w p) [5, 1030, 9] replay_new) 1029
   \<and> \<not> replay_check (fold (\<lambda>p w. replay_accept w p) [5, 1030, 9] replay_new) 9
   \<and> \<not> replay_check (fold (\<lambda>p w. replay_accept w p) [5, 1030, 9] replay_new) 6"
  unfolding replay_check_exact by (simp add: WINDOW_def)

end
