(* ===== verification/Bud_Packet.thy ===== *)
theory Bud_Packet
  imports Bud_Header Bud_Replay
begin

unbundle bit_operations_syntax

text \<open>
  Sealing and opening datagrams (\<open>bud/src/packet.rs\<close>). The cipher is a third-party crate: the
  model takes \<open>encrypt\<close> and \<open>decrypt\<close> as arguments (key, nonce, message or ciphertext,
  associated data), and \<open>aead_laws\<close> is what the code relies on.
\<close>

datatype seal_error = TooLarge nat | Exhausted

datatype open_error = OHeader header_error | OShort | OReplay | OAuthentication

definition packet_nonce :: "u64 \<Rightarrow> bytes" where
  "packet_nonce n = replicate 4 0 @ le_bytes 8 n"

type_synonym 'k encrypt = "'k \<Rightarrow> bytes \<Rightarrow> bytes \<Rightarrow> bytes \<Rightarrow> bytes option"
type_synonym 'k decrypt = "'k \<Rightarrow> bytes \<Rightarrow> bytes \<Rightarrow> bytes \<Rightarrow> bytes option"

record 'k sealer =
  seal_key :: 'k
  seal_next :: u64

record 'k opener =
  open_key :: 'k
  open_replay :: replay_window

definition sealer_new :: "'k \<Rightarrow> 'k sealer" where
  "sealer_new key = \<lparr>seal_key = key, seal_next = 0\<rparr>"

definition opener_new :: "'k \<Rightarrow> 'k opener" where
  "opener_new key = \<lparr>open_key = key, open_replay = replay_new\<rparr>"

definition seal ::
  "'k encrypt \<Rightarrow> 'k sealer \<Rightarrow> header \<Rightarrow> bytes \<Rightarrow> (seal_error + bytes) \<times> 'k sealer" where
  "seal encrypt s h payload =
     (if length payload > MAX_PAYLOAD then (Inl (TooLarge (length payload)), s)
      else if seal_next s = - 1 then (Inl Exhausted, s)
      else let h = h\<lparr>packet := seal_next s\<rparr>; aad = header_encode h
       in case encrypt (seal_key s) (packet_nonce (packet h)) payload aad of
            None \<Rightarrow> (Inl (TooLarge (length payload)), s)
          | Some sealed \<Rightarrow> (Inr (aad @ sealed), s\<lparr>seal_next := seal_next s + 1\<rparr>))"

definition open_stats :: "'k opener \<Rightarrow> u64 option \<times> u64" where
  "open_stats opener = (rw_highest (open_replay opener), rw_accepted (open_replay opener))"

definition open_datagram ::
  "'k decrypt \<Rightarrow> 'k opener \<Rightarrow> bytes \<Rightarrow> (open_error + header \<times> bytes) \<times> 'k opener" where
  "open_datagram decrypt opener datagram =
     (case header_decode datagram of
        Inl e \<Rightarrow> (Inl (OHeader e), opener)
      | Inr h \<Rightarrow>
          if length datagram < HEADER_LEN + TAG_LEN then (Inl OShort, opener)
          else if \<not> replay_check (open_replay opener) (packet h) then (Inl OReplay, opener)
          else case decrypt (open_key opener) (packet_nonce (packet h))
                      (drop HEADER_LEN datagram) (take HEADER_LEN datagram) of
                 None \<Rightarrow> (Inl OAuthentication, opener)
               | Some plain \<Rightarrow>
                   (Inr (h, plain),
                    opener\<lparr>open_replay := replay_accept (open_replay opener) (packet h)\<rparr>))"

text \<open>A sequence of calls on one sealer, and on one opener.\<close>

fun seal_all ::
  "'k encrypt \<Rightarrow> 'k sealer \<Rightarrow> (header \<times> bytes) list \<Rightarrow> (seal_error + bytes) list \<times> 'k sealer" where
  "seal_all encrypt s [] = ([], s)"
| "seal_all encrypt s ((h, payload) # rest) =
     (let (r, s) = seal encrypt s h payload; (rs, s) = seal_all encrypt s rest in (r # rs, s))"

fun open_all ::
  "'k decrypt \<Rightarrow> 'k opener \<Rightarrow> bytes list \<Rightarrow> (open_error + header \<times> bytes) list \<times> 'k opener" where
  "open_all decrypt opener [] = ([], opener)"
| "open_all decrypt opener (d # rest) =
     (let (r, opener) = open_datagram decrypt opener d; (rs, opener) = open_all decrypt opener rest
      in (r # rs, opener))"

definition oks :: "('e + 'a) list \<Rightarrow> 'a list" where
  "oks rs = List.map_filter ok rs"

lemma oks_simps [simp]: "oks [] = []" "oks (Inl e # rs) = oks rs" "oks (Inr x # rs) = x # oks rs"
  by (simp_all add: oks_def List.map_filter_simps)

section \<open>What the code relies on of the cipher\<close>

definition aead_laws :: "'k encrypt \<Rightarrow> 'k decrypt \<Rightarrow> bool" where
  "aead_laws encrypt decrypt \<longleftrightarrow>
     (\<forall>k n msg aad. length msg \<le> MAX_PAYLOAD \<longrightarrow>
        (\<exists>c. encrypt k n msg aad = Some c \<and> length c = length msg + TAG_LEN
           \<and> decrypt k n c aad = Some msg))"

section \<open>Numbers are used once\<close>

lemma packet_nonce_inject [simp]: "packet_nonce a = packet_nonce b \<longleftrightarrow> a = b"
proof
  assume "packet_nonce a = packet_nonce b"
  then have "(of_le (le_bytes 8 a) :: u64) = of_le (le_bytes 8 b)"
    by (simp add: packet_nonce_def)
  then show "a = b"
    by simp
qed simp

definition datagram_packet :: "bytes \<Rightarrow> u64" where
  "datagram_packet d = of_be (subslice d 12 20)"

lemma datagram_packet_encode [simp]: "datagram_packet (header_encode h @ rest) = packet h"
  by (simp add: datagram_packet_def header_encode_def subslice_def)

lemma seal_Inr:
  assumes "seal encrypt s h payload = (Inr d, s')"
  shows "\<exists>c. encrypt (seal_key s) (packet_nonce (seal_next s)) payload
           (header_encode (h\<lparr>packet := seal_next s\<rparr>)) = Some c
         \<and> d = header_encode (h\<lparr>packet := seal_next s\<rparr>) @ c"
    and "s' = s\<lparr>seal_next := seal_next s + 1\<rparr>" "seal_next s \<noteq> - 1" "length payload \<le> MAX_PAYLOAD"
  using assms by (auto simp: seal_def Let_def split: if_splits option.splits)

lemma seal_Inl: "seal encrypt s h payload = (Inl e, s') \<Longrightarrow> s' = s"
  by (auto simp: seal_def Let_def split: if_splits option.splits)

lemma seal_all_Cons:
  "fst (seal_all encrypt s ((h, payload) # rest))
     = fst (seal encrypt s h payload) # fst (seal_all encrypt (snd (seal encrypt s h payload)) rest)"
  by (simp add: Let_def split_beta)

lemma open_all_Cons:
  "fst (open_all decrypt opener (d # rest))
     = fst (open_datagram decrypt opener d) # fst (open_all decrypt (snd (open_datagram decrypt opener d)) rest)"
  by (simp add: Let_def split_beta)

lemma unat_word_Suc: "(n :: u64) \<noteq> - 1 \<Longrightarrow> unat (n + 1) = Suc (unat n)"
  using unatSuc [of n] by (metis add.commute add_eq_0_iff)

lemma seal_all_numbers:
  "distinct (map datagram_packet (oks (fst (seal_all encrypt s reqs))))
   \<and> (\<forall>d\<in>set (oks (fst (seal_all encrypt s reqs))).
         seal_next s \<le> datagram_packet d \<and> datagram_packet d \<noteq> - 1)"
proof (induction reqs arbitrary: s)
  case (Cons req rest)
  obtain h payload where req: "req = (h, payload)"
    by (cases req)
  obtain r s' where r: "seal encrypt s h payload = (r, s')"
    by (cases "seal encrypt s h payload")
  show ?case
  proof (cases r)
    case (Inl e)
    then show ?thesis
      using Cons.IH [of s] r seal_Inl [of encrypt s h payload e s']
      by (simp add: req seal_all_Cons del: seal_all.simps)
  next
    case (Inr d)
    then have d: "datagram_packet d = seal_next s" "seal_next s \<noteq> - 1" "s' = s\<lparr>seal_next := seal_next s + 1\<rparr>"
      and lt: "unat (seal_next s + 1) = Suc (unat (seal_next s))"
      using seal_Inr [of encrypt s h payload d s'] r by (auto simp: unat_word_Suc)
    have "\<forall>x\<in>set (oks (fst (seal_all encrypt s' rest))). seal_next s < datagram_packet x"
      using Cons.IH [of s'] lt by (auto simp: d word_less_nat_alt word_le_nat_alt)
    then show ?thesis
      using Cons.IH [of s'] r Inr d(1,2)
      by (force simp: req seal_all_Cons dest: less_imp_le simp del: seal_all.simps)
  qed
qed simp

section \<open>Opening\<close>

lemma open_datagram_Inl: "open_datagram decrypt opener d = (Inl e, opener') \<Longrightarrow> opener' = opener"
  by (auto simp: open_datagram_def split: if_splits option.splits sum.splits)

lemma open_datagram_Inr:
  "open_datagram decrypt opener d = (Inr (h, plain), opener') \<Longrightarrow>
     header_decode d = Inr h \<and> replay_check (open_replay opener) (packet h)
     \<and> decrypt (open_key opener) (packet_nonce (packet h)) (drop HEADER_LEN d) (take HEADER_LEN d) = Some plain
     \<and> opener' = opener\<lparr>open_replay := replay_accept (open_replay opener) (packet h)\<rparr>"
  by (auto simp: open_datagram_def split: if_splits option.splits sum.splits)

lemma open_all_once:
  assumes "replay_rel (open_replay opener) S"
  shows "distinct (map (packet \<circ> fst) (oks (fst (open_all decrypt opener ds))))
    \<and> set (map (packet \<circ> fst) (oks (fst (open_all decrypt opener ds)))) \<inter> S = {}"
  using assms
proof (induction ds arbitrary: opener S)
  case (Cons d ds)
  obtain r opener' where r: "open_datagram decrypt opener d = (r, opener')"
    by (cases "open_datagram decrypt opener d")
  show ?case
  proof (cases r)
    case (Inl e)
    then show ?thesis
      using Cons.IH [OF Cons.prems] open_datagram_Inl [of decrypt opener d e opener'] r
      by (simp add: open_all_Cons del: open_all.simps)
  next
    case (Inr hp)
    obtain h plain where hp: "hp = (h, plain)"
      by (cases hp)
    note props = open_datagram_Inr [of decrypt opener d h plain opener'] r
    then have "packet h \<notin> S"
      using replay_check_fresh [OF Cons.prems] Inr hp by (simp add: fresh_def)
    moreover have "replay_rel (open_replay opener') (insert (packet h) S)"
      using props Inr hp replay_accept_rel [OF Cons.prems] by simp
    ultimately show ?thesis
      using Cons.IH [of opener' "insert (packet h) S"] r Inr hp
      by (auto simp: open_all_Cons simp del: open_all.simps)
  qed
qed simp

section \<open>A channel\<close>

definition sealed_as :: "'k decrypt \<Rightarrow> 'k \<Rightarrow> header \<times> bytes \<Rightarrow> u64 \<Rightarrow> bytes \<Rightarrow> bool" where
  "sealed_as decrypt key req n d \<longleftrightarrow> (\<exists>c. let a = header_encode ((fst req)\<lparr>packet := n\<rparr>)
     in d = a @ c \<and> TAG_LEN \<le> length c \<and> decrypt key (packet_nonce n) c a = Some (snd req))"

lemma seal_all_complete:
  assumes "aead_laws encrypt decrypt" "\<forall>req\<in>set reqs. length (snd req) \<le> MAX_PAYLOAD"
    and "unat (seal_next s) + length reqs < 2 ^ 64"
  shows "\<exists>ds. fst (seal_all encrypt s reqs) = map Inr ds \<and> length ds = length reqs
    \<and> (\<forall>i<length reqs. sealed_as decrypt (seal_key s) (reqs ! i) (seal_next s + of_nat i) (ds ! i))"
  using assms(2,3)
proof (induction reqs arbitrary: s)
  case (Cons req rest)
  obtain h payload where req: "req = (h, payload)"
    by (cases req)
  let ?a = "header_encode (h\<lparr>packet := seal_next s\<rparr>)"
  obtain c where c: "encrypt (seal_key s) (packet_nonce (seal_next s)) payload ?a = Some c"
    "length c = length payload + TAG_LEN"
    "decrypt (seal_key s) (packet_nonce (seal_next s)) c ?a = Some payload"
    using assms(1) Cons.prems(1) unfolding aead_laws_def req by force
  have nz: "seal_next s \<noteq> - 1"
  proof
    assume "seal_next s = - 1"
    then have "unat (seal_next s) = 2 ^ 64 - 1"
      by (simp add: unsigned_minus_1_eq_mask mask_eq_exp_minus_1)
    then show False
      using Cons.prems(2) by simp
  qed
  let ?s = "s\<lparr>seal_next := seal_next s + 1\<rparr>"
  have step: "seal encrypt s h payload = (Inr (?a @ c), ?s)"
    using Cons.prems(1) nz c(1) by (simp add: seal_def req)
  obtain ds where ds: "fst (seal_all encrypt ?s rest) = map Inr ds" "length ds = length rest"
    "\<forall>i<length rest. sealed_as decrypt (seal_key s) (rest ! i) (seal_next s + 1 + of_nat i) (ds ! i)"
    using Cons.IH [of ?s] Cons.prems unat_word_Suc [OF nz] by auto
  have head: "sealed_as decrypt (seal_key s) req (seal_next s) (?a @ c)"
    using c by (simp add: sealed_as_def req Let_def)
  have "\<forall>i<length (req # rest). sealed_as decrypt (seal_key s) ((req # rest) ! i)
      (seal_next s + of_nat i) (((?a @ c) # ds) ! i)"
  proof (intro allI impI)
    fix i
    assume "i < length (req # rest)"
    then show "sealed_as decrypt (seal_key s) ((req # rest) ! i) (seal_next s + of_nat i) (((?a @ c) # ds) ! i)"
      using head ds(3) by (cases i) (auto simp: add.assoc)
  qed
  then show ?case
    using ds(1,2) step by (intro exI [of _ "(?a @ c) # ds"]) (simp add: req seal_all_Cons del: seal_all.simps)
qed simp

lemma open_sealed:
  assumes "sealed_as decrypt (open_key opener) (h, payload) n d" "header_valid h"
  shows "open_datagram decrypt opener d =
    (if replay_check (open_replay opener) n
     then (Inr (h\<lparr>packet := n\<rparr>, payload),
           opener\<lparr>open_replay := replay_accept (open_replay opener) n\<rparr>)
     else (Inl OReplay, opener))"
proof -
  have "header_valid (h\<lparr>packet := n\<rparr>)"
    using assms(2) by (simp add: header_valid_def is_parity_def)
  then show ?thesis
    using assms(1) header_decode_encode_append
    by (auto simp: sealed_as_def open_datagram_def Let_def HEADER_LEN_def)
qed

lemma open_all_sealed:
  assumes sealed: "\<forall>i<n. sealed_as decrypt key (reqs ! i) (of_nat i) (ds ! i) \<and> header_valid (fst (reqs ! i))"
    and n: "n \<le> 1024"
  shows "open_key opener = key \<Longrightarrow> S \<subseteq> {..<n} \<Longrightarrow> replay_rel (open_replay opener) (of_nat ` S) \<Longrightarrow>
    \<forall>i\<in>set is. i < n \<Longrightarrow> oks (fst (open_all decrypt opener (map ((!) ds) is)))
      = map (\<lambda>i. ((fst (reqs ! i))\<lparr>packet := of_nat i\<rparr>, snd (reqs ! i))) (firsts S is)"
proof (induction "is" arbitrary: opener S)
  case (Cons i "is")
  have small: "unat (of_nat j :: u64) = j" if "j < n" for j
    using that n by (simp add: unat_of_nat take_bit_eq_mod)
  have "replay_check (open_replay opener) (of_nat i) \<longleftrightarrow> fresh (of_nat ` S) (of_nat i)"
    using Cons.prems(3) by (rule replay_check_fresh)
  also have "\<dots> \<longleftrightarrow> i \<notin> S"
  proof -
    have "unat (of_nat j :: u64) < unat (of_nat i :: u64) + 1024" if "j \<in> S" for j
      using that Cons.prems(2,4) small n by (auto simp: subset_iff)
    moreover have "(of_nat i :: u64) \<in> of_nat ` S \<longleftrightarrow> i \<in> S"
      using Cons.prems(2,4) small by (auto simp: subset_iff) (metis small)
    ultimately show ?thesis
      by (auto simp: fresh_def)
  qed
  finally have check: "replay_check (open_replay opener) (of_nat i) \<longleftrightarrow> i \<notin> S" .
  obtain h payload where req: "reqs ! i = (h, payload)"
    by (cases "reqs ! i")
  have sv: "sealed_as decrypt (open_key opener) (h, payload) (of_nat i) (ds ! i)" "header_valid h"
    using sealed Cons.prems(1,4) req by (metis fst_conv list.set_intros(1))+
  have "open_datagram decrypt opener (ds ! i) = (if i \<notin> S
     then (Inr (h\<lparr>packet := of_nat i\<rparr>, payload),
           opener\<lparr>open_replay := replay_accept (open_replay opener) (of_nat i)\<rparr>)
     else (Inl OReplay, opener))"
    using open_sealed [OF sv] check by simp
  then show ?case
    using Cons.IH [of opener S] Cons.prems req replay_accept_rel [OF Cons.prems(3), of "of_nat i"]
      Cons.IH [of "opener\<lparr>open_replay := replay_accept (open_replay opener) (of_nat i)\<rparr>" "insert i S"]
    by (auto simp: open_all_Cons simp del: open_all.simps)
qed simp

section \<open>Properties\<close>

text \<open>A cipher that writes the nonce it is given before its ciphertext, and where a datagram then shows it.\<close>

definition shows_nonce :: "'k encrypt \<Rightarrow> 'k encrypt" where
  "shows_nonce encrypt = (\<lambda>key nonce payload aad. map_option (\<lambda>c. nonce @ c) (encrypt key nonce payload aad))"

definition nonce_shown :: "bytes \<Rightarrow> bytes" where
  "nonce_shown d = take 12 (drop HEADER_LEN d)"

lemma seal_all_nonces:
  "\<forall>d\<in>set (oks (fst (seal_all (shows_nonce encrypt) s reqs))). nonce_shown d = packet_nonce (datagram_packet d)"
proof (induction reqs arbitrary: s)
  case (Cons req rest)
  obtain h payload where req: "req = (h, payload)"
    by (cases req)
  obtain r s' where r: "seal (shows_nonce encrypt) s h payload = (r, s')"
    by (cases "seal (shows_nonce encrypt) s h payload")
  show ?case
  proof (cases r)
    case (Inl e)
    then show ?thesis
      using Cons.IH [of s'] r by (simp add: req seal_all_Cons del: seal_all.simps)
  next
    case (Inr d)
    then have "nonce_shown d = packet_nonce (datagram_packet d)"
      using seal_Inr(1) [of "shows_nonce encrypt" s h payload d s'] r
      by (auto simp: shows_nonce_def nonce_shown_def packet_nonce_def HEADER_LEN_def)
    then show ?thesis
      using Cons.IH [of s'] r Inr by (auto simp: req seal_all_Cons simp del: seal_all.simps)
  qed
qed simp

text \<open>
  C24. A key never encrypts two packets under one nonce: over any sequence of calls of \<open>seal\<close> on one sealer,
  whatever the cipher does and whichever calls fail, the nonces the cipher was given for the datagrams that came
  out are pairwise different, and no datagram is numbered \<open>u64::MAX\<close>. To be seen in the datagrams, the nonce is
  written before the ciphertext by the cipher, which is otherwise any.
\<close>

theorem seal_never_reuses_a_nonce:
  "distinct (map nonce_shown (oks (fst (seal_all (shows_nonce encrypt) s reqs))))
   \<and> - 1 \<notin> set (map datagram_packet (oks (fst (seal_all (shows_nonce encrypt) s reqs))))"
proof -
  let ?out = "oks (fst (seal_all (shows_nonce encrypt) s reqs))"
  have "distinct (map packet_nonce ns) \<longleftrightarrow> distinct ns" for ns
    by (simp add: distinct_map inj_on_def)
  then have "distinct (map packet_nonce (map datagram_packet ?out))"
    using seal_all_numbers [of "shows_nonce encrypt" s reqs] by (simp del: map_map)
  moreover have "map packet_nonce (map datagram_packet ?out) = map nonce_shown ?out"
    using seal_all_nonces [of encrypt s reqs] by simp
  ultimately have "distinct (map nonce_shown ?out)"
    by (rule subst [where P = distinct, rotated])
  moreover have "- 1 \<notin> set (map datagram_packet ?out)"
    using seal_all_numbers [of "shows_nonce encrypt" s reqs] by auto
  ultimately show ?thesis
    by blast
qed

text \<open>
  An attacker cannot replay: whatever datagrams reach an opener, in whatever order, the ones it
  delivers carry pairwise different packet numbers.
\<close>

theorem open_delivers_a_number_once:
  "distinct (map (\<lambda>(h, plain). packet h) (oks (fst (open_all decrypt (opener_new key) ds))))"
  using open_all_once [of "opener_new key" "{}" decrypt ds] replay_rel_new
  by (simp add: opener_new_def comp_def case_prod_unfold)

text \<open>
  C7. The encrypted channel delivers exactly once: up to 1,024 packets, sealed in order by one side and
  reaching the other in any order, with any duplicates and any losses, open to the payloads that were
  sealed, under their numbered headers, each packet that arrived once, in the order of first arrival.
\<close>

theorem channel_delivers_exactly_once:
  assumes "aead_laws encrypt decrypt"
    and "\<forall>(h, payload)\<in>set reqs. header_valid h \<and> length payload \<le> MAX_PAYLOAD"
    and "length reqs \<le> 1024" "\<forall>i\<in>set arrivals. i < length reqs"
  shows "\<exists>ds. fst (seal_all encrypt (sealer_new key) reqs) = map Inr ds
    \<and> oks (fst (open_all decrypt (opener_new key) (map ((!) ds) arrivals)))
      = map (\<lambda>i. ((fst (reqs ! i))\<lparr>packet := of_nat i\<rparr>, snd (reqs ! i))) (firsts {} arrivals)"
proof -
  have valid: "\<forall>i<length reqs. header_valid (fst (reqs ! i))"
    and "\<forall>req\<in>set reqs. length (snd req) \<le> MAX_PAYLOAD"
    using assms(2) by (auto simp: split_beta)
  then obtain ds where ds: "fst (seal_all encrypt (sealer_new key) reqs) = map Inr ds"
    "\<forall>i<length reqs. sealed_as decrypt key (reqs ! i) (of_nat i) (ds ! i)"
    using seal_all_complete [OF assms(1), of reqs "sealer_new key"] assms(3)
    by (auto simp: sealer_new_def)
  then show ?thesis
    using open_all_sealed [of "length reqs" decrypt key reqs ds "opener_new key" "{}" arrivals]
      valid assms(3,4) replay_rel_new
    by (auto simp: opener_new_def)
qed

definition plain_encrypt :: "unit encrypt" where
  "plain_encrypt k n msg aad = Some (msg @ replicate 16 0)"

definition plain_decrypt :: "unit decrypt" where
  "plain_decrypt k n c aad = (if length c < 16 then None else Some (take (length c - 16) c))"

lemma plain_aead: "aead_laws plain_encrypt plain_decrypt"
  by (simp add: aead_laws_def plain_encrypt_def plain_decrypt_def TAG_LEN_def)

theorem channel_delivers_exactly_once_witness:
  "let h = \<lparr>flags = 0, stream = 1, frame = 7, fragment = 0, fragments = 1, packet = 0, sent_us = 0\<rparr>
   in \<exists>ds. fst (seal_all plain_encrypt (sealer_new ()) [(h, [1]), (h, [2])]) = map Inr ds
      \<and> oks (fst (open_all plain_decrypt (opener_new ()) (map ((!) ds) [1, 1, 0, 1])))
        = [(h\<lparr>packet := 1\<rparr>, [2]), (h, [1])]"
proof -
  let ?h = "\<lparr>flags = 0, stream = 1, frame = 7, fragment = 0, fragments = 1, packet = 0, sent_us = 0\<rparr>"
  show ?thesis
    using channel_delivers_exactly_once [OF plain_aead, of "[(?h, [1]), (?h, [2])]" "[1, 1, 0, 1]" "()"]
    by (simp add: header_valid_def const_simps Let_def)
qed

end
