(* ===== verification/Bud_Parity.thy ===== *)
theory Bud_Parity
  imports Bud_Header Fec_Cauchy
begin

unbundle bit_operations_syntax

text \<open>
  Blocks of fragments and their parity packets (\<open>bud/src/parity.rs\<close>). A policy is the function
  \<open>parity_for\<close> of the trait \<open>ParityPolicy\<close>; \<open>no_parity\<close> is \<open>NoParity\<close>. A panic
  (an \<open>expect\<close> that fails) is \<open>None\<close>.
\<close>

definition PREFIX_LEN :: nat where "PREFIX_LEN = 6"
definition FRAGMENT_SIZE :: nat where "FRAGMENT_SIZE = MAX_PAYLOAD - PREFIX_LEN"
definition MAX_BLOCK_DATA :: nat where "MAX_BLOCK_DATA = 128"

lemma FRAGMENT_SIZE_eq [const_simps]: "FRAGMENT_SIZE = 1154"
  by (simp add: FRAGMENT_SIZE_def PREFIX_LEN_def MAX_PAYLOAD_def MAX_DATAGRAM_def HEADER_LEN_def TAG_LEN_def)

lemma FRAGMENT_SIZE_pos [simp]: "0 < FRAGMENT_SIZE"
  by (simp add: FRAGMENT_SIZE_eq)

text \<open>\<open>usize::div_ceil\<close>, and \<open>Vec::resize\<close> with zeros.\<close>

definition div_ceil :: "nat \<Rightarrow> nat \<Rightarrow> nat" where
  "div_ceil a b = (a + b - 1) div b"

definition resize :: "nat \<Rightarrow> bytes \<Rightarrow> bytes" where
  "resize n xs = take n xs @ replicate (n - length xs) 0"

fun block_ranges :: "nat \<Rightarrow> nat \<Rightarrow> nat \<Rightarrow> nat list \<Rightarrow> (nat \<times> nat) list" where
  "block_ranges base extra start [] = []"
| "block_ranges base extra start (block # rest) =
     (let len = base + (if block < extra then 1 else 0)
      in (start, start + len) # block_ranges base extra (start + len) rest)"

definition blocks :: "nat \<Rightarrow> (nat \<times> nat) list" where
  "blocks data_fragments =
     (if data_fragments = 0 then []
      else let count = div_ceil data_fragments MAX_BLOCK_DATA
       in block_ranges (data_fragments div count) (data_fragments mod count) 0 [0..<count])"

type_synonym policy = "nat \<Rightarrow> nat"

definition no_parity :: policy where "no_parity data = 0"

definition parity_count :: "policy \<Rightarrow> nat \<Rightarrow> nat" where
  "parity_count policy k = min (policy k) (256 - k)"

definition parity_payload :: "nat \<Rightarrow> nat \<Rightarrow> nat \<Rightarrow> nat \<Rightarrow> bytes \<Rightarrow> bytes" where
  "parity_payload block index m last_len shard =
     be_bytes 2 (of_nat block :: u16) @ [of_nat index, of_nat m]
       @ be_bytes 2 (of_nat last_len :: u16) @ shard"

text \<open>One turn of the loop over the blocks: the parity shards of the block, numbered.\<close>

definition block_parity :: "policy \<Rightarrow> bytes list \<Rightarrow> nat \<times> nat \<Rightarrow> bytes list option" where
  "block_parity policy payloads = (\<lambda>(first, last).
     let k = last - first; m = parity_count policy k
     in if m = 0 then Some []
        else let shards = map (resize FRAGMENT_SIZE) (subslice payloads first last)
         in case cauchy k m of
              Inl _ \<Rightarrow> None
            | Inr code \<Rightarrow> (case encode code shards of Inl _ \<Rightarrow> None | Inr parity \<Rightarrow> Some parity))"

definition parity_packet :: "header \<Rightarrow> nat \<Rightarrow> bytes \<Rightarrow> header \<times> bytes" where
  "parity_packet head number payload =
     (\<lparr>flags = FLAG_PARITY, stream = stream head, frame = frame head, fragment = of_nat number,
       fragments = fragments head, packet = 0, sent_us = sent_us head\<rparr>, payload)"

fun encode_blocks ::
  "policy \<Rightarrow> bytes list \<Rightarrow> nat \<Rightarrow> (nat \<times> (nat \<times> nat)) list \<Rightarrow> bytes list option" where
  "encode_blocks policy payloads last_len [] = Some []"
| "encode_blocks policy payloads last_len ((block, rng) # rest) =
     (case block_parity policy payloads rng of
        None \<Rightarrow> None
      | Some parity \<Rightarrow>
          (case encode_blocks policy payloads last_len rest of
             None \<Rightarrow> None
           | Some out \<Rightarrow> Some (map (\<lambda>(index, shard).
               parity_payload block index (parity_count policy (snd rng - fst rng)) last_len shard) (enumerate 0 parity) @ out)))"

definition parity_encode :: "(header \<times> bytes) list \<Rightarrow> policy \<Rightarrow> (header \<times> bytes) list option" where
  "parity_encode data policy =
     (case data of
        [] \<Rightarrow> Some []
      | (first, _) # _ \<Rightarrow>
          let last_len = length (snd (last data))
          in map_option (\<lambda>payloads. map (\<lambda>(number, payload).
                 parity_packet first number payload) (enumerate 0 payloads))
               (encode_blocks policy (map snd data) last_len (enumerate 0 (blocks (length data)))))"

record prefix =
  px_block :: nat
  px_index :: nat
  px_count :: nat
  px_last_len :: nat

definition parity_parse :: "bytes \<Rightarrow> (prefix \<times> bytes) option" where
  "parity_parse payload =
     (if length payload \<noteq> PREFIX_LEN + FRAGMENT_SIZE then None
      else let p = \<lparr>px_block = unat (of_be (subslice payload 0 2) :: u16), px_index = unat (payload ! 2),
                    px_count = unat (payload ! 3),
                    px_last_len = unat (of_be (subslice payload 4 6) :: u16)\<rparr>
       in if px_count p = 0 \<or> px_count p \<le> px_index p \<or> FRAGMENT_SIZE < px_last_len p then None
          else Some (p, drop PREFIX_LEN payload))"

section \<open>Blocks\<close>

lemma length_resize [simp]: "length (resize n xs) = n"
  by (simp add: resize_def)

lemma take_resize: "length xs \<le> n \<Longrightarrow> take (length xs) (resize n xs) = xs"
  by (simp add: resize_def)

definition block_start :: "nat \<Rightarrow> nat \<Rightarrow> nat \<Rightarrow> nat" where
  "block_start base extra b = b * base + min b extra"

lemma block_ranges_eq:
  "block_ranges base extra (block_start base extra a) [a..<b]
     = map (\<lambda>i. (block_start base extra i, block_start base extra (Suc i))) [a..<b]"
proof (induction "b - a" arbitrary: a)
  case (Suc d)
  then have ab: "[a..<b] = a # [Suc a..<b]"
    by (simp add: upt_conv_Cons)
  have step: "block_start base extra a + (base + (if a < extra then 1 else 0))
      = block_start base extra (Suc a)"
    by (auto simp: block_start_def min_def)
  have "block_ranges base extra (block_start base extra (Suc a)) [Suc a..<b]
     = map (\<lambda>i. (block_start base extra i, block_start base extra (Suc i))) [Suc a..<b]"
    using Suc by simp
  then show ?case
    by (simp only: ab block_ranges.simps Let_def step list.map)
qed simp

text \<open>The closed form: block \<open>b\<close> of \<open>n\<close> fragments.\<close>

definition block_count :: "nat \<Rightarrow> nat" where
  "block_count n = div_ceil n MAX_BLOCK_DATA"

definition block_at :: "nat \<Rightarrow> nat \<Rightarrow> nat" where
  "block_at n b = block_start (n div block_count n) (n mod block_count n) b"

lemma blocks_eq: "blocks n = map (\<lambda>b. (block_at n b, block_at n (Suc b))) [0..<block_count n]"
proof (cases "n = 0")
  case False
  then show ?thesis
    using block_ranges_eq [of "n div block_count n" "n mod block_count n" 0 "block_count n"]
    by (simp add: blocks_def block_count_def block_at_def block_start_def Let_def)
qed (simp add: blocks_def block_count_def div_ceil_def MAX_BLOCK_DATA_def)

lemma length_blocks [simp]: "length (blocks n) = block_count n"
  by (simp add: blocks_eq)

lemma block_count_0 [simp]: "block_count 0 = 0"
  by (simp add: block_count_def div_ceil_def MAX_BLOCK_DATA_def)

lemma block_count_pos: "0 < n \<Longrightarrow> 0 < block_count n \<and> block_count n \<le> n"
  by (auto simp: block_count_def div_ceil_def MAX_BLOCK_DATA_def)

lemma block_at_bounds: "block_at n 0 = 0" "block_at n (block_count n) = n"
proof -
  show "block_at n (block_count n) = n"
  proof (cases "n = 0")
    case False
    then have "n mod block_count n < block_count n"
      using block_count_pos by simp
    then show ?thesis
      using mult_div_mod_eq [of "block_count n" n] by (simp add: block_at_def block_start_def)
  qed (simp add: block_count_def div_ceil_def MAX_BLOCK_DATA_def block_at_def block_start_def)
qed (simp add: block_at_def block_start_def)

lemma block_length:
  assumes "b < block_count n"
  shows "block_at n b < block_at n (Suc b)" "block_at n (Suc b) \<le> block_at n b + MAX_BLOCK_DATA"
    "block_at n (Suc b) - block_at n b \<in> {n div block_count n, Suc (n div block_count n)}"
proof -
  let ?c = "block_count n"
  have n: "0 < n" "0 < ?c" "?c \<le> n"
    using assms block_count_pos [of n]
    by (cases "n = 0"; simp add: block_count_def div_ceil_def MAX_BLOCK_DATA_def)+
  then have one: "0 < n div ?c"
    by (simp add: div_greater_zero_iff)
  have step: "block_at n (Suc b) = block_at n b + (n div ?c + (if b < n mod ?c then 1 else 0))"
    by (auto simp: block_at_def block_start_def min_def)
  then show "block_at n b < block_at n (Suc b)"
    "block_at n (Suc b) - block_at n b \<in> {n div block_count n, Suc (n div block_count n)}"
    using one by auto
  have "n \<le> 128 * ?c"
    by (simp add: block_count_def div_ceil_def MAX_BLOCK_DATA_def)
  then have le: "n div ?c \<le> 128"
    using n by (metis div_le_mono nonzero_mult_div_cancel_right not_gr_zero)
  moreover have "n mod ?c = 0" if "n div ?c = 128"
    using that \<open>n \<le> 128 * ?c\<close> div_mult_mod_eq [of n ?c] by simp
  ultimately have "n div ?c + (if b < n mod ?c then 1 else 0) \<le> 128"
    by (cases "n div ?c = 128") auto
  then show "block_at n (Suc b) \<le> block_at n b + MAX_BLOCK_DATA"
    by (simp add: step MAX_BLOCK_DATA_def)
qed

lemma block_at_mono: "a \<le> b \<Longrightarrow> block_at n a \<le> block_at n b"
  by (auto simp: block_at_def block_start_def intro: add_mono mult_le_mono1)

lemma block_at_le: "b \<le> block_count n \<Longrightarrow> block_at n b \<le> n"
  using block_at_mono [of b "block_count n" n] by (simp add: block_at_bounds)

text \<open>Every fragment lies in exactly one block.\<close>

lemma block_of_fragment:
  "i < n \<Longrightarrow> \<exists>!b. b < block_count n \<and> block_at n b \<le> i \<and> i < block_at n (Suc b)"
proof -
  assume i: "i < n"
  have "\<exists>b<c. block_at n b \<le> i \<and> i < block_at n (Suc b)" if "i < block_at n c" for c
    using that
  proof (induction c)
    case (Suc c)
    then show ?case
      by (cases "i < block_at n c") (auto simp: less_Suc_eq)
  qed (simp add: block_at_bounds)
  then obtain b where b: "b < block_count n" "block_at n b \<le> i" "i < block_at n (Suc b)"
    using i block_at_bounds(2) by metis
  have "b' = b" if "block_at n b' \<le> i" "i < block_at n (Suc b')" for b'
    using b that block_at_mono [of "Suc b" b' n] block_at_mono [of "Suc b'" b n]
    by (metis Suc_leI le_less_trans linorder_neqE_nat not_le)
  then show ?thesis
    using b by blast
qed

section \<open>The parity of a block\<close>

definition block_shards :: "bytes list \<Rightarrow> nat \<times> nat \<Rightarrow> bytes list" where
  "block_shards payloads rng = map (resize FRAGMENT_SIZE) (subslice payloads (fst rng) (snd rng))"

text \<open>A range that \<open>blocks\<close> makes.\<close>

definition good_range :: "nat \<Rightarrow> nat \<times> nat \<Rightarrow> bool" where
  "good_range n rng \<longleftrightarrow> fst rng < snd rng \<and> snd rng \<le> n \<and> snd rng - fst rng \<le> MAX_BLOCK_DATA"

lemma blocks_good: "rng \<in> set (blocks n) \<Longrightarrow> good_range n rng"
  using block_length block_at_le by (fastforce simp: blocks_eq good_range_def)

lemma parity_count_bound: "k \<le> MAX_BLOCK_DATA \<Longrightarrow> 0 < k \<Longrightarrow> k + parity_count policy k \<le> 256 \<and> parity_count policy k < 256"
  by (auto simp: parity_count_def MAX_BLOCK_DATA_def)

lemma block_parity_total:
  assumes "good_range (length payloads) rng"
  shows "\<exists>par. block_parity policy payloads rng = Some par
    \<and> length par = parity_count policy (snd rng - fst rng)
    \<and> (\<forall>s\<in>set par. length s = FRAGMENT_SIZE)
    \<and> (par \<noteq> [] \<longrightarrow> (\<exists>c. cauchy (snd rng - fst rng) (length par) = Inr c
         \<and> encode c (block_shards payloads rng) = Inr par))"
proof -
  let ?k = "snd rng - fst rng" and ?m = "parity_count policy (snd rng - fst rng)"
  show ?thesis
  proof (cases "?m = 0")
    case True
    then show ?thesis
      by (simp add: block_parity_def split_beta)
  next
    case False
    have k: "0 < ?k" "?k + ?m \<le> 256"
      using assms parity_count_bound [of ?k policy] by (auto simp: good_range_def)
    have "length (block_shards payloads rng) = ?k" "\<forall>s\<in>set (block_shards payloads rng). length s = FRAGMENT_SIZE"
      using assms by (auto simp: block_shards_def good_range_def)
    then obtain c par where "cauchy ?k ?m = Inr c" "encode c (block_shards payloads rng) = Inr par"
      "length par = ?m" "\<forall>s\<in>set par. length s = FRAGMENT_SIZE"
      using cauchy_code.encode_exists k by blast
    then show ?thesis
      using False by (auto simp: block_parity_def split_beta block_shards_def)
  qed
qed

definition the_parity :: "policy \<Rightarrow> bytes list \<Rightarrow> nat \<times> nat \<Rightarrow> bytes list" where
  "the_parity policy payloads rng = the (block_parity policy payloads rng)"

definition block_payloads :: "policy \<Rightarrow> bytes list \<Rightarrow> nat \<Rightarrow> nat \<times> (nat \<times> nat) \<Rightarrow> bytes list" where
  "block_payloads policy payloads last_len = (\<lambda>(b, rng).
     map (\<lambda>(j, shard). parity_payload b j (parity_count policy (snd rng - fst rng)) last_len shard)
       (enumerate 0 (the_parity policy payloads rng)))"

lemma encode_blocks_eq:
  assumes "\<forall>(b, rng)\<in>set bs. good_range (length payloads) rng"
  shows "encode_blocks policy payloads last_len bs
    = Some (concat (map (block_payloads policy payloads last_len) bs))"
  using assms
proof (induction bs)
  case (Cons br bs)
  obtain b rng where br: "br = (b, rng)"
    by (cases br)
  then obtain par where "block_parity policy payloads rng = Some par"
    using Cons.prems block_parity_total [of payloads rng policy] by auto
  then show ?case
    using Cons by (simp add: br block_payloads_def the_parity_def)
qed simp

definition parity_payloads :: "policy \<Rightarrow> bytes list \<Rightarrow> bytes list" where
  "parity_payloads policy payloads =
     concat (map (block_payloads policy payloads (length (last payloads))) (enumerate 0 (blocks (length payloads))))"

lemma parity_encode_eq:
  assumes "data \<noteq> []"
  shows "parity_encode data policy = Some (map (\<lambda>(number, payload).
    parity_packet (fst (hd data)) number payload)
      (enumerate 0 (parity_payloads policy (map snd data))))"
proof -
  obtain h p rest where data: "data = (h, p) # rest"
    using assms by (cases data) auto
  have "\<forall>(b, rng)\<in>set (enumerate 0 (blocks (length data))). good_range (length (map snd data)) rng"
    by (auto simp: in_set_enumerate_eq) (metis blocks_good length_blocks nth_mem)
  then show ?thesis
    using encode_blocks_eq [of "enumerate 0 (blocks (length data))" "map snd data" policy]
    by (simp add: parity_encode_def data parity_payloads_def last_map Let_def)
qed

text \<open>A parity payload lists block \<open>b\<close>, its shard \<open>j\<close>.\<close>

lemma in_parity_payloads:
  "payload \<in> set (parity_payloads policy payloads) \<longleftrightarrow>
     (\<exists>b<block_count (length payloads). let rng = (block_at (length payloads) b, block_at (length payloads) (Suc b))
      in \<exists>j<length (the_parity policy payloads rng).
           payload = parity_payload b j (parity_count policy (snd rng - fst rng)) (length (last payloads))
             (the_parity policy payloads rng ! j))"
proof -
  have "payload \<in> set (block_payloads policy payloads l (b, rng)) \<longleftrightarrow>
      (\<exists>j<length (the_parity policy payloads rng). payload =
         parity_payload b j (parity_count policy (snd rng - fst rng)) l (the_parity policy payloads rng ! j))"
    for l b rng
    by (force simp: block_payloads_def in_set_enumerate_eq)
  then show ?thesis
    by (simp add: parity_payloads_def blocks_eq enumerate_map_upt Let_def Bex_def)
qed

section \<open>The payload format\<close>

definition prefix_valid :: "prefix \<times> bytes \<Rightarrow> bool" where
  "prefix_valid = (\<lambda>(p, shard). px_block p < 2 ^ 16 \<and> px_count p < 256 \<and> px_index p < px_count p
     \<and> px_last_len p \<le> FRAGMENT_SIZE \<and> length shard = FRAGMENT_SIZE)"

lemma unat_of_nat_small: "n < 2 ^ LENGTH('a::len) \<Longrightarrow> unat (of_nat n :: 'a word) = n"
  by (simp add: unat_of_nat take_bit_eq_mod)

lemma parity_parse_payload:
  assumes "prefix_valid (\<lparr>px_block = b, px_index = j, px_count = m, px_last_len = l\<rparr>, shard)"
  shows "parity_parse (parity_payload b j m l shard)
    = Some (\<lparr>px_block = b, px_index = j, px_count = m, px_last_len = l\<rparr>, shard)"
  using assms
  by (simp add: parity_parse_def parity_payload_def prefix_valid_def subslice_def PREFIX_LEN_def
      FRAGMENT_SIZE_eq unat_of_nat_small Let_def nth_append)

lemma parity_parse_valid:
  "parity_parse payload = Some (p, shard) \<Longrightarrow> prefix_valid (p, shard)"
  using unsigned_less [of "of_be (subslice payload 0 2) :: u16", where ?'a = nat]
    unsigned_less [of "payload ! 3", where ?'a = nat]
  by (auto simp: parity_parse_def prefix_valid_def Let_def PREFIX_LEN_def split: if_splits)

interpretation parity_format: codec prefix_valid
  "\<lambda>(p, shard). parity_payload (px_block p) (px_index p) (px_count p) (px_last_len p) shard" parity_parse
proof unfold_locales
  show "parity_parse (case x of (p, shard) \<Rightarrow>
      parity_payload (px_block p) (px_index p) (px_count p) (px_last_len p) shard) = Some x"
    if "prefix_valid x" for x
    using that parity_parse_payload
    by (cases x) (metis (mono_tags) case_prod_conv prefix.surjective old.unit.exhaust)
qed (auto dest: parity_parse_valid)

lemma the_parity_length:
  assumes "good_range (length payloads) rng"
  shows "length (the_parity policy payloads rng) = parity_count policy (snd rng - fst rng)"
    "j < parity_count policy (snd rng - fst rng) \<Longrightarrow>
       length (the_parity policy payloads rng ! j) = FRAGMENT_SIZE"
  using block_parity_total [OF assms, of policy] by (auto simp: the_parity_def)

lemma parity_payload_parses:
  assumes "payload \<in> set (parity_payloads policy payloads)" "length payloads < 2 ^ 16"
    and "length (last payloads) \<le> FRAGMENT_SIZE"
  shows "\<exists>b<block_count (length payloads). let rng = (block_at (length payloads) b, block_at (length payloads) (Suc b));
    m = parity_count policy (snd rng - fst rng)
    in \<exists>j<m. parity_parse payload = Some (\<lparr>px_block = b, px_index = j, px_count = m,
      px_last_len = length (last payloads)\<rparr>, the_parity policy payloads rng ! j)"
proof -
  let ?n = "length payloads"
  obtain b j where b: "b < block_count ?n"
    and j: "j < length (the_parity policy payloads (block_at ?n b, block_at ?n (Suc b)))"
    and payload: "payload = parity_payload b j (parity_count policy (block_at ?n (Suc b) - block_at ?n b))
      (length (last payloads)) (the_parity policy payloads (block_at ?n b, block_at ?n (Suc b)) ! j)"
    using assms(1) by (auto simp: in_parity_payloads Let_def)
  have good: "good_range ?n (block_at ?n b, block_at ?n (Suc b))"
    using b by (intro blocks_good) (auto simp: blocks_eq)
  have "b < 2 ^ 16"
    using b block_count_pos [of ?n] assms(2) by (cases "?n = 0") auto
  moreover have "parity_count policy (block_at ?n (Suc b) - block_at ?n b) < 256"
    using good parity_count_bound by (auto simp: good_range_def)
  ultimately show ?thesis
    using b j payload the_parity_length [OF good, where policy = policy] assms(3) parity_parse_payload
    by (auto simp: prefix_valid_def Let_def)
qed

section \<open>Properties\<close>

lemma concat_ranges:
  "(\<And>b. f b \<le> f (Suc b)) \<Longrightarrow> concat (map (\<lambda>b. [f b..<f (Suc b)]) [0..<c]) = [f (0::nat)..<f c :: nat]"
proof (induction c)
  case (Suc c)
  have "f 0 \<le> f c"
    using Suc.prems by (simp add: lift_Suc_mono_le)
  then show ?case
    using Suc upt_add_eq_append [of "f 0" "f c" "f (Suc c) - f c"] by simp
qed simp

text \<open>
  C36. \<open>blocks\<close> cuts the fragments into consecutive ranges that cover every fragment exactly once,
  as few of them as blocks of 128 allow, none empty, none over 128, and no two sizes differing by more
  than one.
\<close>

theorem blocks_partition:
  "concat (map (\<lambda>(first, last). [first..<last]) (blocks n)) = [0..<n]
   \<and> length (blocks n) = (n + MAX_BLOCK_DATA - 1) div MAX_BLOCK_DATA
   \<and> list_all (\<lambda>(first, last). first < last \<and> last - first \<le> MAX_BLOCK_DATA
        \<and> last - first \<in> {n div length (blocks n), Suc (n div length (blocks n))}) (blocks n)"
proof (intro conjI)
  have "concat (map (\<lambda>b. [block_at n b..<block_at n (Suc b)]) [0..<block_count n]) = [0..<n]"
    using concat_ranges [of "block_at n" "block_count n"] block_at_mono by (simp add: block_at_bounds)
  then show "concat (map (\<lambda>(first, last). [first..<last]) (blocks n)) = [0..<n]"
    by (simp add: blocks_eq comp_def)
  show "length (blocks n) = (n + MAX_BLOCK_DATA - 1) div MAX_BLOCK_DATA"
    by (simp add: block_count_def div_ceil_def)
  show "list_all (\<lambda>(first, last). first < last \<and> last - first \<le> MAX_BLOCK_DATA
        \<and> last - first \<in> {n div length (blocks n), Suc (n div length (blocks n))}) (blocks n)"
    using block_length by (fastforce simp: blocks_eq list_all_iff)
qed

end
