(* ===== verification/Bud_Fragment.thy ===== *)
theory Bud_Fragment
  imports Bud_Parity "HOL-Library.AList"
begin

unbundle bit_operations_syntax

text \<open>
  Cutting frames and reassembling them (\<open>bud/src/fragment.rs\<close>). \<open>Reassembler::push\<close> is
  \<open>push\<close>, split at the code's own steps; a panic is the outcome \<open>Panicked\<close>. The parity map
  of a pending frame is an association list (it is only looked up, never iterated), the streams a map;
  where the code iterates over the streams their order is an argument.
\<close>

definition MAX_FRAME :: nat where "MAX_FRAME = 16 * 1024 * 1024"
definition MAX_IN_FLIGHT :: nat where "MAX_IN_FLIGHT = 4"

datatype fragment_error = FrameTooLarge nat
datatype reassemble_error = RTooLarge | Inconsistent | BadFragment

section \<open>Cutting\<close>

definition data_header :: "u16 \<Rightarrow> u32 \<Rightarrow> u32 \<Rightarrow> u16 \<Rightarrow> nat \<Rightarrow> header" where
  "data_header strm frm sent count index =
     \<lparr>flags = 0, stream = strm, frame = frm, fragment = of_nat index, fragments = count,
      packet = 0, sent_us = sent\<rparr>"

definition fragment_frame ::
  "u16 \<Rightarrow> u32 \<Rightarrow> u32 \<Rightarrow> bytes \<Rightarrow> fragment_error + (header \<times> bytes) list" where
  "fragment_frame strm frm sent data =
     (if length data > MAX_FRAME then Inl (FrameTooLarge (length data))
      else let count = max (div_ceil (length data) FRAGMENT_SIZE) 1
       in if count \<ge> 2 ^ 16 then Inl (FrameTooLarge (length data))
          else Inr (map (\<lambda>index.
            let start = index * FRAGMENT_SIZE
            in (data_header strm frm sent (of_nat count) index,
                subslice data start (min (start + FRAGMENT_SIZE) (length data)))) [0..<count]))"

text \<open>\<open>Inr None\<close> is a panic of the parity encoder.\<close>

definition fragment_with_parity ::
  "u16 \<Rightarrow> u32 \<Rightarrow> u32 \<Rightarrow> bytes \<Rightarrow> policy \<Rightarrow> fragment_error + (header \<times> bytes) list option" where
  "fragment_with_parity strm frm sent data policy =
     (case fragment_frame strm frm sent data of
        Inl e \<Rightarrow> Inl e
      | Inr parts \<Rightarrow> Inr (map_option (\<lambda>parity. parts @ parity) (parity_encode parts policy)))"

section \<open>The reassembler\<close>

record incomplete_frame =
  in_stream :: u16
  in_frame :: u32
  in_missing :: "u16 list"

record delivered_frame =
  d_stream :: u16
  d_frame :: u32
  d_sent_us :: u32
  d_data :: bytes

definition newer :: "u32 \<Rightarrow> u32 \<Rightarrow> bool" where
  "newer a b \<longleftrightarrow> a \<noteq> b \<and> a - b < 2 ^ 31"

record pending =
  p_frame :: u32
  p_sent_us :: u32
  p_slots :: "bytes option list"
  p_received :: nat
  p_bytes :: nat
  p_parity :: "(nat \<times> bytes option list) list"
  p_parity_stored :: nat
  p_last_len :: "nat option"

definition pending_new :: "u32 \<Rightarrow> u32 \<Rightarrow> nat \<Rightarrow> pending" where
  "pending_new frm sent count = \<lparr>p_frame = frm, p_sent_us = sent, p_slots = replicate count None,
     p_received = 0, p_bytes = 0, p_parity = [], p_parity_stored = 0, p_last_len = None\<rparr>"

text \<open>The three levels of \<open>Pending::recover\<close>: a slot, a block, all blocks.\<close>

definition fill_slot :: "nat \<Rightarrow> bytes list \<Rightarrow> nat \<times> nat \<Rightarrow> pending \<Rightarrow> pending" where
  "fill_slot last_len data = (\<lambda>(offset, i) p.
     if p_slots p ! i = None
     then let shard = take (if i = length (p_slots p) - 1 then last_len else FRAGMENT_SIZE) (data ! offset)
          in p\<lparr>p_bytes := p_bytes p + length shard, p_slots := (p_slots p)[i := Some shard],
               p_received := p_received p + 1\<rparr>
     else p)"

definition recover_block :: "nat \<Rightarrow> nat \<times> (nat \<times> nat) \<Rightarrow> pending \<Rightarrow> pending" where
  "recover_block last_len = (\<lambda>(block, (first, last)) p.
     case map_of (p_parity p) block of
       None \<Rightarrow> p
     | Some parity \<Rightarrow>
         if \<forall>i\<in>set [first..<last]. p_slots p ! i \<noteq> None then p
         else let k = last - first;
                  got = length (filter (\<lambda>i. p_slots p ! i \<noteq> None) [first..<last])
                        + length (filter (\<lambda>s. s \<noteq> None) parity)
          in if got < k then p
             else let shards = map (\<lambda>i. map_option (resize FRAGMENT_SIZE) (p_slots p ! i)) [first..<last] @ parity
              in case cauchy k (length parity) of
                   Inl _ \<Rightarrow> p
                 | Inr code \<Rightarrow>
                     (case recover code shards of
                        None \<Rightarrow> p
                      | Some data \<Rightarrow> fold (fill_slot last_len data) (enumerate 0 [first..<last]) p))"

definition pending_recover :: "pending \<Rightarrow> pending" where
  "pending_recover p =
     (case p_last_len p of
        None \<Rightarrow> p
      | Some last_len \<Rightarrow> fold (recover_block last_len) (enumerate 0 (blocks (length (p_slots p)))) p)"

record stream_state =
  st_last :: "u32 option"
  st_pending :: "pending list"

definition stream_new :: stream_state where
  "stream_new = \<lparr>st_last = None, st_pending = []\<rparr>"

record reassembler =
  ra_streams :: "u16 \<Rightarrow> stream_state option"
  ra_dropped :: u64
  ra_recovered :: u64

definition reassembler_new :: reassembler where
  "reassembler_new = \<lparr>ra_streams = Map.empty, ra_dropped = 0, ra_recovered = 0\<rparr>"

definition incomplete :: "u16 list \<Rightarrow> reassembler \<Rightarrow> incomplete_frame list" where
  "incomplete order ra = concat (map (\<lambda>strm.
     case ra_streams ra strm of
       None \<Rightarrow> []
     | Some state \<Rightarrow> map (\<lambda>p. \<lparr>in_stream = strm, in_frame = p_frame p,
         in_missing = map of_nat (filter (\<lambda>i. p_slots p ! i = None) [0..<length (p_slots p)])\<rparr>)
         (st_pending state)) order)"

text \<open>\<open>Iterator::position\<close> and \<open>Vec::remove\<close>.\<close>

fun position :: "('a \<Rightarrow> bool) \<Rightarrow> 'a list \<Rightarrow> nat option" where
  "position P [] = None"
| "position P (x # xs) = (if P x then Some 0 else map_option Suc (position P xs))"

definition remove_at :: "nat \<Rightarrow> 'a list \<Rightarrow> 'a list" where
  "remove_at i xs = take i xs @ drop (Suc i) xs"

definition abandon :: "u16 \<Rightarrow> u32 \<Rightarrow> reassembler \<Rightarrow> bool \<times> reassembler" where
  "abandon strm frm ra =
     (case ra_streams ra strm of
        None \<Rightarrow> (False, ra)
      | Some state \<Rightarrow>
          (case position (\<lambda>p. p_frame p = frm) (st_pending state) of
             None \<Rightarrow> (False, ra)
           | Some index \<Rightarrow>
               (True, ra\<lparr>ra_streams := (ra_streams ra)(strm \<mapsto>
                           state\<lparr>st_pending := remove_at index (st_pending state)\<rparr>),
                         ra_dropped := ra_dropped ra + 1\<rparr>)))"

section \<open>Pushing a packet\<close>

datatype 'a outcome = Returned 'a | Panicked

datatype parsed = PNoise | PBad | PData | PParity prefix bytes

text \<open>The first statement of \<open>push\<close>: what the packet is.\<close>

definition push_parse :: "header \<Rightarrow> bytes \<Rightarrow> parsed" where
  "push_parse h payload =
     (if is_parity h
      then case parity_parse payload of
             None \<Rightarrow> PNoise
           | Some (px, shard) \<Rightarrow>
               if px_block px \<ge> length (blocks (unat (fragments h))) then PNoise else PParity px shard
      else let lst = unat (fragment h) + 1 = unat (fragments h)
       in if length payload > FRAGMENT_SIZE \<or> (\<not> lst \<and> length payload \<noteq> FRAGMENT_SIZE) then PBad
          else PData)"

text \<open>The oldest pending frame, as the code's \<open>reduce\<close> finds it.\<close>

definition oldest :: "pending list \<Rightarrow> nat" where
  "oldest ps = foldl (\<lambda>a b. if newer (p_frame (ps ! a)) (p_frame (ps ! b)) then b else a) 0 [1..<length ps]"

text \<open>
  Finding or making the frame's entry: the entry's index, the pending list, how many frames were
  dropped for it, or the error.
\<close>

definition push_entry ::
  "header \<Rightarrow> pending list \<Rightarrow> (reassemble_error + nat) \<times> pending list \<times> u64" where
  "push_entry h ps =
     (case position (\<lambda>p. p_frame p = frame h) ps of
        Some index \<Rightarrow>
          if length (p_slots (ps ! index)) \<noteq> unat (fragments h)
          then (Inl Inconsistent, remove_at index ps, 1)
          else (Inr index, ps, 0)
      | None \<Rightarrow>
          if unat (fragments h) * FRAGMENT_SIZE > MAX_FRAME + FRAGMENT_SIZE then (Inl RTooLarge, ps, 0)
          else let full = length ps \<ge> MAX_IN_FLIGHT;
                   room = (if full then remove_at (oldest ps) ps else ps);
                   ps' = room @ [pending_new (frame h) (sent_us h) (unat (fragments h))]
               in (Inr (length ps' - 1), ps', if full then 1 else 0))"

text \<open>What storing the packet in its entry gives; \<open>SKeep\<close> counts the fragments rebuilt.\<close>

datatype stored = SKeep pending nat | SIgnore pending | SDrop reassemble_error | SPanic

definition store_data :: "header \<Rightarrow> bytes \<Rightarrow> pending \<Rightarrow> stored" where
  "store_data h payload p =
     (let i = unat (fragment h) in
      if length (p_slots p) \<le> i then SPanic
      else if p_slots p ! i \<noteq> None then SIgnore p
      else let p1 = p\<lparr>p_bytes := p_bytes p + length payload\<rparr>
       in if p_bytes p1 > MAX_FRAME then SDrop RTooLarge
          else let p2 = p1\<lparr>p_slots := (p_slots p)[i := Some payload], p_received := p_received p + 1\<rparr>
           in if p_parity p2 \<noteq> []
              then let p3 = pending_recover p2 in SKeep p3 (p_received p3 - p_received p2)
              else SKeep p2 0)"

text \<open>The block's shards: \<open>entry(..).or_insert_with(..)\<close>.\<close>

definition entry_shards :: "prefix \<Rightarrow> pending \<Rightarrow> bytes option list" where
  "entry_shards px p =
     (case map_of (p_parity p) (px_block px) of
        Some ss \<Rightarrow> ss | None \<Rightarrow> replicate (px_count px) None)"

definition store_parity :: "nat \<Rightarrow> prefix \<Rightarrow> bytes \<Rightarrow> pending \<Rightarrow> stored" where
  "store_parity count px shard p =
     (if p_parity_stored p \<ge> max count 8 then SIgnore p
      else let shards = entry_shards px p;
               p1 = p\<lparr>p_parity := AList.update (px_block px) shards (p_parity p)\<rparr>
       in if length shards \<noteq> px_count px then SDrop Inconsistent
          else if length shards \<le> px_index px then SPanic
          else if shards ! px_index px \<noteq> None then SIgnore p1
          else let p2 = p1\<lparr>p_parity := AList.update (px_block px) (shards[px_index px := Some shard]) (p_parity p1),
                          p_parity_stored := p_parity_stored p + 1, p_last_len := Some (px_last_len px)\<rparr>;
                   p3 = pending_recover p2
               in SKeep p3 (p_received p3 - p_received p))"

definition store_packet :: "header \<Rightarrow> bytes \<Rightarrow> parsed \<Rightarrow> pending \<Rightarrow> stored" where
  "store_packet h payload parsed p =
     (case parsed of PParity px shard \<Rightarrow> store_parity (unat (fragments h)) px shard p
                   | _ \<Rightarrow> store_data h payload p)"

type_synonym push_result = "(reassemble_error + delivered_frame option) outcome"

definition set_stream :: "u16 \<Rightarrow> stream_state \<Rightarrow> u64 \<Rightarrow> nat \<Rightarrow> reassembler \<Rightarrow> reassembler" where
  "set_stream strm state dropped recovered ra =
     ra\<lparr>ra_streams := (ra_streams ra)(strm \<mapsto> state), ra_dropped := ra_dropped ra + dropped,
        ra_recovered := ra_recovered ra + of_nat recovered\<rparr>"

text \<open>The end of \<open>push\<close>: deliver the frame when it is complete.\<close>

definition push_finish :: "u16 \<Rightarrow> stream_state \<Rightarrow> pending list \<Rightarrow> nat \<Rightarrow> pending
    \<Rightarrow> delivered_frame option \<times> stream_state \<times> u64" where
  "push_finish strm state ps index p =
     (if p_received p < length (p_slots p)
      then (None, state\<lparr>st_pending := ps[index := p]\<rparr>, 0)
      else let rest = remove_at index ps; kept = filter (\<lambda>q. newer (p_frame q) (p_frame p)) rest
       in (Some \<lparr>d_stream = strm, d_frame = p_frame p, d_sent_us = p_sent_us p,
                 d_data = concat (List.map_filter id (p_slots p))\<rparr>,
           \<lparr>st_last = Some (p_frame p), st_pending = kept\<rparr>, of_nat (length rest - length kept)))"

definition push_stored ::
  "header \<Rightarrow> stream_state \<Rightarrow> nat \<Rightarrow> pending list \<Rightarrow> u64 \<Rightarrow> stored \<Rightarrow> reassembler \<Rightarrow> push_result \<times> reassembler" where
  "push_stored h state index ps dropped result ra =
     (case result of
        SPanic \<Rightarrow> (Panicked, set_stream (stream h) (state\<lparr>st_pending := ps\<rparr>) dropped 0 ra)
      | SDrop e \<Rightarrow> (Returned (Inl e),
          set_stream (stream h) (state\<lparr>st_pending := remove_at index ps\<rparr>) (dropped + 1) 0 ra)
      | SIgnore p \<Rightarrow> (Returned (Inr None),
          set_stream (stream h) (state\<lparr>st_pending := ps[index := p]\<rparr>) dropped 0 ra)
      | SKeep p recovered \<Rightarrow>
          (case push_finish (stream h) state ps index p of
             (done, state', stale) \<Rightarrow>
               (Returned (Inr done), set_stream (stream h) state' (dropped + stale) recovered ra)))"

definition push_known ::
  "header \<Rightarrow> bytes \<Rightarrow> parsed \<Rightarrow> stream_state \<Rightarrow> reassembler \<Rightarrow> push_result \<times> reassembler" where
  "push_known h payload parsed state ra =
     (if case st_last state of None \<Rightarrow> False | Some lst \<Rightarrow> \<not> newer (frame h) lst
      then (Returned (Inr None), set_stream (stream h) state 0 0 ra)
      else case push_entry h (st_pending state) of
             (Inl e, ps, dropped) \<Rightarrow>
               (Returned (Inl e), set_stream (stream h) (state\<lparr>st_pending := ps\<rparr>) dropped 0 ra)
           | (Inr index, ps, dropped) \<Rightarrow>
               push_stored h state index ps dropped (store_packet h payload parsed (ps ! index)) ra)"

definition stream_of :: "reassembler \<Rightarrow> u16 \<Rightarrow> stream_state" where
  "stream_of ra strm = (case ra_streams ra strm of None \<Rightarrow> stream_new | Some state \<Rightarrow> state)"

definition push :: "header \<Rightarrow> bytes \<Rightarrow> reassembler \<Rightarrow> push_result \<times> reassembler" where
  "push h payload ra =
     (case push_parse h payload of
        PNoise \<Rightarrow> (Returned (Inr None), ra)
      | PBad \<Rightarrow> (Returned (Inl BadFragment), ra)
      | parsed \<Rightarrow> push_known h payload parsed (stream_of ra (stream h)) ra)"

section \<open>Lists\<close>

lemma position_Some:
  "position P xs = Some i \<Longrightarrow> i < length xs \<and> P (xs ! i) \<and> (\<forall>j<i. \<not> P (xs ! j))"
  by (induction xs arbitrary: i) (auto split: if_splits simp: less_Suc_eq_0_disj)

lemma position_None: "position P xs = None \<longleftrightarrow> (\<forall>x\<in>set xs. \<not> P x)"
  by (induction xs) auto

lemma length_remove_at: "i < length xs \<Longrightarrow> length (remove_at i xs) = length xs - 1"
  by (simp add: remove_at_def)

lemma set_remove_at: "set (remove_at i xs) \<subseteq> set xs"
  using set_take_subset [of i xs] set_drop_subset [of "Suc i" xs] by (auto simp: remove_at_def)

lemma distinct_remove_at:
  assumes "distinct (map f xs)" "i < length xs"
  shows "distinct (map f (remove_at i xs))" "x \<in> set (remove_at i xs) \<Longrightarrow> f x \<noteq> f (xs ! i)"
proof -
  have "xs = take i xs @ xs ! i # drop (Suc i) xs"
    using assms(2) by (rule id_take_nth_drop)
  then have "distinct (map f (take i xs) @ f (xs ! i) # map f (drop (Suc i) xs))"
    using assms(1) by (metis list.simps(9) map_append)
  then show "distinct (map f (remove_at i xs))" "x \<in> set (remove_at i xs) \<Longrightarrow> f x \<noteq> f (xs ! i)"
    by (auto simp: remove_at_def) (metis imageI)+
qed

section \<open>A frame and its pieces\<close>

text \<open>What the sender knows of a frame, and the packets it makes of it.\<close>

record sent_frame =
  sf_stream :: u16
  sf_frame :: u32
  sf_sent :: u32
  sf_data :: bytes
  sf_policy :: policy

definition piece_count :: "sent_frame \<Rightarrow> nat" where
  "piece_count F = max (div_ceil (length (sf_data F)) FRAGMENT_SIZE) 1"

definition piece :: "sent_frame \<Rightarrow> nat \<Rightarrow> bytes" where
  "piece F i = take FRAGMENT_SIZE (drop (i * FRAGMENT_SIZE) (sf_data F))"

definition sf_ok :: "sent_frame \<Rightarrow> bool" where
  "sf_ok F \<longleftrightarrow> length (sf_data F) \<le> MAX_FRAME \<and> (\<forall>k. sf_policy F k \<le> k)"

lemma piece_count_pos [simp]: "0 < piece_count F"
  by (simp add: piece_count_def)

lemma piece_count_small: "sf_ok F \<Longrightarrow> piece_count F < 2 ^ 16"
  by (auto simp: sf_ok_def piece_count_def div_ceil_def FRAGMENT_SIZE_eq MAX_FRAME_def)

lemma pieces_fit: "length (sf_data F) \<le> piece_count F * FRAGMENT_SIZE"
  "i < piece_count F \<Longrightarrow> i * FRAGMENT_SIZE \<le> length (sf_data F)"
  "Suc i < piece_count F \<Longrightarrow> Suc i * FRAGMENT_SIZE \<le> length (sf_data F)"
  by (auto simp: piece_count_def div_ceil_def FRAGMENT_SIZE_eq max_def split: if_splits)

lemma piece_length: "length (piece F i) \<le> FRAGMENT_SIZE"
  "Suc i < piece_count F \<Longrightarrow> length (piece F i) = FRAGMENT_SIZE"
  using pieces_fit(3) [of i F] by (auto simp: piece_def)

lemma concat_chunks:
  "concat (map (\<lambda>i. take s (drop (i * s) xs)) [0..<n]) = take (n * s) xs"
proof (induction n)
  case (Suc n)
  then show ?case
    by (simp add: add.commute [of s] take_add)
qed simp

lemma concat_pieces: "concat (map (piece F) [0..<piece_count F]) = sf_data F"
  using concat_chunks [of FRAGMENT_SIZE "sf_data F" "piece_count F"] pieces_fit(1) [of F]
  by (simp add: piece_def [abs_def])

definition data_packet :: "sent_frame \<Rightarrow> nat \<Rightarrow> header \<times> bytes" where
  "data_packet F i = (data_header (sf_stream F) (sf_frame F) (sf_sent F) (of_nat (piece_count F)) i, piece F i)"

lemma fragment_frame_eq:
  assumes "sf_ok F"
  shows "fragment_frame (sf_stream F) (sf_frame F) (sf_sent F) (sf_data F)
    = Inr (map (data_packet F) [0..<piece_count F])"
proof -
  have "subslice (sf_data F) (i * FRAGMENT_SIZE) (min (i * FRAGMENT_SIZE + FRAGMENT_SIZE) (length (sf_data F)))
      = piece F i" if "i < piece_count F" for i
    using pieces_fit(2) [OF that] by (simp add: subslice_def piece_def min_def)
  then show ?thesis
    using assms piece_count_small [OF assms]
    unfolding fragment_frame_def Let_def piece_count_def [symmetric]
    by (simp add: data_packet_def sf_ok_def)
qed

section \<open>The parity packets of a frame\<close>

definition pieces :: "sent_frame \<Rightarrow> bytes list" where
  "pieces F = map (piece F) [0..<piece_count F]"

definition rng :: "sent_frame \<Rightarrow> nat \<Rightarrow> nat \<times> nat" where
  "rng F b = (block_at (piece_count F) b, block_at (piece_count F) (Suc b))"

definition fblock :: "sent_frame \<Rightarrow> nat \<Rightarrow> nat set" where
  "fblock F b = {fst (rng F b)..<snd (rng F b)}"

definition data_count :: "sent_frame \<Rightarrow> nat \<Rightarrow> nat" where
  "data_count F b = snd (rng F b) - fst (rng F b)"

definition par_count :: "sent_frame \<Rightarrow> nat \<Rightarrow> nat" where
  "par_count F b = parity_count (sf_policy F) (data_count F b)"

definition par_shard :: "sent_frame \<Rightarrow> nat \<Rightarrow> nat \<Rightarrow> bytes" where
  "par_shard F b j = the_parity (sf_policy F) (pieces F) (rng F b) ! j"

definition last_length :: "sent_frame \<Rightarrow> nat" where
  "last_length F = length (piece F (piece_count F - 1))"

definition nblocks :: "sent_frame \<Rightarrow> nat" where
  "nblocks F = block_count (piece_count F)"

lemma length_pieces [simp]: "length (pieces F) = piece_count F"
  by (simp add: pieces_def)

lemma nth_pieces [simp]: "i < piece_count F \<Longrightarrow> pieces F ! i = piece F i"
  by (simp add: pieces_def)

lemma last_pieces: "last (pieces F) = piece F (piece_count F - 1)"
  using piece_count_pos [of F] by (simp add: pieces_def last_map last_upt)

lemma rng_good: "b < nblocks F \<Longrightarrow> good_range (length (pieces F)) (rng F b)"
  by (rule blocks_good [of _ "piece_count F", folded length_pieces])
    (auto simp: blocks_eq rng_def nblocks_def)

lemma fblock_props:
  assumes "b < nblocks F"
  shows "fblock F b \<subseteq> {..<piece_count F}" "card (fblock F b) = data_count F b" "finite (fblock F b)"
    "0 < data_count F b" "data_count F b \<le> 128"
  using rng_good [OF assms] by (auto simp: fblock_def good_range_def data_count_def MAX_BLOCK_DATA_def)

lemma fblock_ex1: "i < piece_count F \<Longrightarrow> \<exists>!b. b < nblocks F \<and> i \<in> fblock F b"
  using block_of_fragment [of i "piece_count F"] by (simp add: fblock_def rng_def nblocks_def)

lemma fblock_disjoint: "i \<in> fblock F b \<Longrightarrow> i \<in> fblock F b' \<Longrightarrow> b < nblocks F \<Longrightarrow> b' < nblocks F \<Longrightarrow> b = b'"
  using fblock_props(1) fblock_ex1 by blast

text \<open>The codeword of a block: its padded pieces and its parity shards.\<close>

lemma block_codeword:
  assumes "b < nblocks F" "0 < par_count F b"
  shows "\<exists>c. cauchy (data_count F b) (par_count F b) = Inr c
    \<and> encode c (block_shards (pieces F) (rng F b)) = Inr (map (par_shard F b) [0..<par_count F b])"
    "block_shards (pieces F) (rng F b)
      = map (\<lambda>i. resize FRAGMENT_SIZE (piece F i)) [fst (rng F b)..<snd (rng F b)]"
proof -
  have good: "good_range (length (pieces F)) (rng F b)"
    using assms(1) by (rule rng_good)
  obtain par where par: "block_parity (sf_policy F) (pieces F) (rng F b) = Some par"
    "length par = par_count F b"
    "par \<noteq> [] \<longrightarrow> (\<exists>c. cauchy (data_count F b) (length par) = Inr c
         \<and> encode c (block_shards (pieces F) (rng F b)) = Inr par)"
    using block_parity_total [OF good, of "sf_policy F"] by (auto simp: par_count_def data_count_def)
  have "par = map (par_shard F b) [0..<par_count F b]"
    using par(1,2) by (intro nth_equalityI) (simp_all add: par_shard_def the_parity_def)
  then show "\<exists>c. cauchy (data_count F b) (par_count F b) = Inr c
    \<and> encode c (block_shards (pieces F) (rng F b)) = Inr (map (par_shard F b) [0..<par_count F b])"
    using par assms(2) by auto
  have "snd (rng F b) \<le> piece_count F" "fst (rng F b) \<le> snd (rng F b)"
    using good by (simp_all add: good_range_def)
  then show "block_shards (pieces F) (rng F b)
      = map (\<lambda>i. resize FRAGMENT_SIZE (piece F i)) [fst (rng F b)..<snd (rng F b)]"
    by (simp add: block_shards_def subslice_def pieces_def drop_map take_map)
qed

section \<open>What a pending frame holds\<close>

text \<open>
  Packets of a frame are named \<open>Inl i\<close> (data fragment) and \<open>Inr (b, j)\<close> (parity shard
  \<open>j\<close> of block \<open>b\<close>). \<open>covered\<close> says that enough packets of a block arrived.
\<close>

type_synonym packet_id = "nat + nat \<times> nat"

definition packet_ids :: "sent_frame \<Rightarrow> packet_id set" where
  "packet_ids F = {Inl i |i. i < piece_count F} \<union> {Inr (b, j) |b j. b < nblocks F \<and> j < par_count F b}"

definition arrived_data :: "sent_frame \<Rightarrow> packet_id set \<Rightarrow> nat \<Rightarrow> nat set" where
  "arrived_data F A b = {i \<in> fblock F b. Inl i \<in> A}"

definition arrived_parity :: "sent_frame \<Rightarrow> packet_id set \<Rightarrow> nat \<Rightarrow> nat set" where
  "arrived_parity F A b = {j. j < par_count F b \<and> Inr (b, j) \<in> A}"

definition covered :: "sent_frame \<Rightarrow> packet_id set \<Rightarrow> nat \<Rightarrow> bool" where
  "covered F A b \<longleftrightarrow> data_count F b \<le> card (arrived_data F A b) + card (arrived_parity F A b)"

text \<open>The fragments that are there: arrived, or in a covered block.\<close>

definition present :: "sent_frame \<Rightarrow> packet_id set \<Rightarrow> nat set" where
  "present F A = {i. i < piece_count F \<and> Inl i \<in> A} \<union> (\<Union>b\<in>{b. b < nblocks F \<and> covered F A b}. fblock F b)"

text \<open>The slots hold exactly the pieces of \<open>R\<close>.\<close>

definition slots_hold :: "sent_frame \<Rightarrow> nat set \<Rightarrow> pending \<Rightarrow> bool" where
  "slots_hold F R p \<longleftrightarrow> R \<subseteq> {..<piece_count F}
     \<and> p_slots p = map (\<lambda>i. if i \<in> R then Some (piece F i) else None) [0..<piece_count F]
     \<and> p_received p = card R \<and> p_bytes p = (\<Sum>i\<in>R. length (piece F i))"

definition parity_hold :: "sent_frame \<Rightarrow> packet_id set \<Rightarrow> pending \<Rightarrow> bool" where
  "parity_hold F A p \<longleftrightarrow>
     (\<forall>b. map_of (p_parity p) b =
        (if b < nblocks F \<and> arrived_parity F A b \<noteq> {}
         then Some (map (\<lambda>j. if Inr (b, j) \<in> A then Some (par_shard F b j) else None) [0..<par_count F b])
         else None))
     \<and> p_parity_stored p = card {q \<in> A. \<exists>r. q = Inr r}
     \<and> p_last_len p = (if \<exists>r. Inr r \<in> A then Some (last_length F) else None)"

definition holds :: "sent_frame \<Rightarrow> packet_id set \<Rightarrow> pending \<Rightarrow> bool" where
  "holds F A p \<longleftrightarrow> A \<subseteq> packet_ids F \<and> p_frame p = sf_frame F \<and> p_sent_us p = sf_sent F
     \<and> slots_hold F (present F A) p \<and> parity_hold F A p"

lemma finite_packet_ids: "finite (packet_ids F)"
proof -
  have "packet_ids F \<subseteq> Inl ` {..<piece_count F} \<union> Inr ` (SIGMA b:{..<nblocks F}. {..<par_count F b})"
    by (auto simp: packet_ids_def)
  then show ?thesis
    by (rule finite_subset) auto
qed

lemma arrived_empty [simp]: "arrived_data F {} b = {}" "arrived_parity F {} b = {}"
  by (simp_all add: arrived_data_def arrived_parity_def)

lemma present_empty [simp]: "present F {} = {}"
  using fblock_props(4) by (fastforce simp: present_def covered_def)

lemma holds_new:
  "holds F {} (pending_new (sf_frame F) (sf_sent F) (piece_count F))"
  by (auto simp: holds_def slots_hold_def parity_hold_def pending_new_def intro!: nth_equalityI)

lemma slots_hold_length: "slots_hold F R p \<Longrightarrow> length (p_slots p) = piece_count F"
  by (simp add: slots_hold_def)

lemma slots_hold_nth:
  "slots_hold F R p \<Longrightarrow> i < piece_count F \<Longrightarrow> p_slots p ! i = (if i \<in> R then Some (piece F i) else None)"
  by (simp add: slots_hold_def)

lemma slots_hold_fill:
  assumes "slots_hold F R p" "i < piece_count F" "i \<notin> R"
  shows "slots_hold F (insert i R) (p\<lparr>p_bytes := p_bytes p + length (piece F i),
    p_slots := (p_slots p)[i := Some (piece F i)], p_received := p_received p + 1\<rparr>)"
proof -
  have "finite R"
    using assms(1) finite_subset by (auto simp: slots_hold_def)
  moreover have "(map (\<lambda>i. if i \<in> R then Some (piece F i) else None) [0..<piece_count F])[i := Some (piece F i)]
      = map (\<lambda>k. if k = i \<or> k \<in> R then Some (piece F k) else None) [0..<piece_count F]"
    using assms(2) by (intro nth_equalityI) (auto simp: nth_list_update)
  ultimately show ?thesis
    using assms by (auto simp: slots_hold_def)
qed

section \<open>Recovering a block\<close>

lemma padded_piece:
  assumes "i < piece_count F"
  shows "take (if i = piece_count F - 1 then last_length F else FRAGMENT_SIZE)
    (resize FRAGMENT_SIZE (piece F i)) = piece F i"
proof (cases "i = piece_count F - 1")
  case True
  then show ?thesis
    using take_resize [OF piece_length(1) [of F i]] by (simp add: last_length_def)
next
  case False
  then have "length (piece F i) = FRAGMENT_SIZE"
    using assms by (intro piece_length(2)) simp
  then show ?thesis
    using False take_resize [OF piece_length(1) [of F i]] by simp
qed

lemma fill_slots:
  assumes "slots_hold F R p" "snd r \<le> piece_count F"
    and "\<forall>k\<in>{..<snd r - fst r}. data ! k = resize FRAGMENT_SIZE (piece F (fst r + k))"
  shows "slots_hold F (R \<union> {fst r..<snd r})
      (fold (fill_slot (last_length F) data) (enumerate 0 [fst r..<snd r]) p)"
proof -
  have "slots_hold F (R \<union> {fst r..<fst r + d})
      (fold (fill_slot (last_length F) data) (enumerate 0 [fst r..<fst r + d]) p)"
    if "fst r + d \<le> snd r" for d
    using that
  proof (induction d)
    case (Suc d)
    let ?p = "fold (fill_slot (last_length F) data) (enumerate 0 [fst r..<fst r + d]) p"
    have IH: "slots_hold F (R \<union> {fst r..<fst r + d}) ?p"
      using Suc by simp
    have i: "fst r + d < piece_count F"
      using Suc.prems assms(2) by simp
    have data: "data ! d = resize FRAGMENT_SIZE (piece F (fst r + d))"
      using assms(3) Suc.prems by auto
    have split: "[fst r..<fst r + Suc d] = [fst r..<fst r + d] @ [fst r + d]"
      by simp
    have step: "fold (fill_slot (last_length F) data) (enumerate 0 [fst r..<fst r + Suc d]) p
        = fill_slot (last_length F) data (d, fst r + d) ?p"
      unfolding split by (simp add: enumerate_append_eq)
    have set: "R \<union> {fst r..<fst r + Suc d} = insert (fst r + d) (R \<union> {fst r..<fst r + d})"
      by auto
    show ?case
    proof (cases "fst r + d \<in> R \<union> {fst r..<fst r + d}")
      case True
      then show ?thesis
        using IH slots_hold_nth [OF IH i] unfolding step set
        by (simp add: fill_slot_def insert_absorb)
    next
      case False
      then show ?thesis
        using slots_hold_fill [OF IH i False] slots_hold_nth [OF IH i] slots_hold_length [OF IH]
          padded_piece [OF i] data
        unfolding step set by (simp add: fill_slot_def Let_def)
    qed
  qed (simp add: assms(1))
  from this [of "snd r - fst r"] show ?thesis
    using assms(1) by (cases "fst r \<le> snd r") auto
qed

lemma length_filter_upt: "length (filter P [a..<b]) = card {i \<in> {a..<b}. P i}"
proof -
  have "length (filter P [a..<b]) = card (set (filter P [a..<b]))"
    by (rule distinct_card [symmetric]) simp
  then show ?thesis
    by (simp only: set_filter set_upt)
qed

lemma recover_block_other [simp]:
  "p_parity (recover_block l br p) = p_parity p"
  "p_parity_stored (recover_block l br p) = p_parity_stored p"
  "p_last_len (recover_block l br p) = p_last_len p"
  "p_frame (recover_block l br p) = p_frame p" "p_sent_us (recover_block l br p) = p_sent_us p"
  "length (p_slots (recover_block l br p)) = length (p_slots p)"
proof -
  have fill: "p_parity (fill_slot l d oi q) = p_parity q \<and> p_parity_stored (fill_slot l d oi q) = p_parity_stored q
    \<and> p_last_len (fill_slot l d oi q) = p_last_len q \<and> p_frame (fill_slot l d oi q) = p_frame q
    \<and> p_sent_us (fill_slot l d oi q) = p_sent_us q \<and> length (p_slots (fill_slot l d oi q)) = length (p_slots q)"
    for d oi q
    by (simp add: fill_slot_def split_beta Let_def)
  have "p_parity (fold (fill_slot l d) ois q) = p_parity q
    \<and> p_parity_stored (fold (fill_slot l d) ois q) = p_parity_stored q
    \<and> p_last_len (fold (fill_slot l d) ois q) = p_last_len q \<and> p_frame (fold (fill_slot l d) ois q) = p_frame q
    \<and> p_sent_us (fold (fill_slot l d) ois q) = p_sent_us q
    \<and> length (p_slots (fold (fill_slot l d) ois q)) = length (p_slots q)" for d ois q
    by (induction ois arbitrary: q) (simp_all add: fill)
  then show "p_parity (recover_block l br p) = p_parity p"
    "p_parity_stored (recover_block l br p) = p_parity_stored p"
    "p_last_len (recover_block l br p) = p_last_len p"
    "p_frame (recover_block l br p) = p_frame p" "p_sent_us (recover_block l br p) = p_sent_us p"
    "length (p_slots (recover_block l br p)) = length (p_slots p)"
    by (simp_all add: recover_block_def split_beta Let_def split: option.split sum.split)
qed

lemma recover_block_eq:
  assumes "map_of (p_parity p) b = Some parity" "\<not> (\<forall>i\<in>set [s..<e]. p_slots p ! i \<noteq> None)"
    and "length (filter (\<lambda>i. p_slots p ! i \<noteq> None) [s..<e]) = x"
    and "length (filter (\<lambda>s. s \<noteq> None) parity) = y"
  shows "recover_block l (b, s, e) p = (if x + y < e - s then p
     else case cauchy (e - s) (length parity) of
            Inl _ \<Rightarrow> p
          | Inr code \<Rightarrow>
              (case recover code (map (\<lambda>i. map_option (resize FRAGMENT_SIZE) (p_slots p ! i)) [s..<e] @ parity) of
                 None \<Rightarrow> p
               | Some data \<Rightarrow> fold (fill_slot l data) (enumerate 0 [s..<e]) p))"
  unfolding recover_block_def prod.case assms(1) option.case Let_def assms(3,4)
  using assms(2) by (simp only: if_False)

lemma arrived_data_fblock: "arrived_data F A b \<subseteq> fblock F b"
  by (auto simp: arrived_data_def)

lemma covered_without_parity:
  assumes "b < nblocks F" "covered F A b" "arrived_parity F A b = {}"
  shows "arrived_data F A b = fblock F b"
  using assms card_seteq [of "fblock F b" "arrived_data F A b"] fblock_props(2,3) [OF assms(1)]
    arrived_data_fblock by (simp add: covered_def)

lemma recover_block_holds:
  assumes b: "b < nblocks F" and slots: "slots_hold F R p" and parity: "parity_hold F A p"
    and R: "R \<inter> fblock F b = arrived_data F A b \<or> fblock F b \<subseteq> R"
  shows "slots_hold F (R \<union> (if covered F A b then fblock F b else {}))
    (recover_block (last_length F) (b, rng F b) p)"
proof -
  obtain s e where r: "rng F b = (s, e)"
    by (cases "rng F b")
  have blk: "fblock F b = {s..<e}" "data_count F b = e - s" "e \<le> piece_count F" "s < e"
    using rng_good [OF b] by (auto simp: r fblock_def data_count_def good_range_def)
  have slot: "p_slots p ! i = (if i \<in> R then Some (piece F i) else None)" if "i \<in> {s..<e}" for i
    using that blk(3) slots_hold_nth [OF slots, of i] by auto
  show ?thesis
  proof (cases "arrived_parity F A b = {}")
    case True
    then have "recover_block (last_length F) (b, rng F b) p = p"
      using parity by (simp add: recover_block_def parity_hold_def r)
    moreover have "R \<union> (if covered F A b then fblock F b else {}) = R"
      using R covered_without_parity [OF b _ True] by auto
    ultimately show ?thesis
      using slots by simp
  next
    case False
    let ?m = "par_count F b"
    let ?parity = "map (\<lambda>j. if Inr (b, j) \<in> A then Some (par_shard F b j) else None) [0..<?m]"
    have par: "map_of (p_parity p) b = Some ?parity"
      using parity b False by (simp add: parity_hold_def)
    have m: "0 < ?m"
      using False by (auto simp: arrived_parity_def)
    show ?thesis
    proof (cases "fblock F b \<subseteq> R")
      case True
      then have "recover_block (last_length F) (b, rng F b) p = p"
        using slot by (auto simp: recover_block_def par r blk(1))
      then show ?thesis
        using slots True by (auto simp: Un_absorb2)
    next
      case rest: False
      then have Rb: "R \<inter> {s..<e} = arrived_data F A b"
        using R blk(1) by simp
      have notall: "\<not> (\<forall>i\<in>set [s..<e]. p_slots p ! i \<noteq> None)"
        using rest slot by (auto simp: blk(1))
      have "{i \<in> {s..<e}. p_slots p ! i \<noteq> None} = R \<inter> {s..<e}"
        using slot by (auto split: if_splits)
      also note Rb
      finally have "{i \<in> {s..<e}. p_slots p ! i \<noteq> None} = arrived_data F A b" .
      then have n1: "length (filter (\<lambda>i. p_slots p ! i \<noteq> None) [s..<e]) = card (arrived_data F A b)"
        by (simp add: length_filter_upt)
      have n2: "length (filter (\<lambda>s. s \<noteq> None) ?parity) = card (arrived_parity F A b)"
        by (auto simp: length_filter_upt arrived_parity_def filter_map comp_def intro!: arg_cong [where f = card])
      show ?thesis
      proof (cases "covered F A b")
        case False
        then have "recover_block (last_length F) (b, rng F b) p = p"
          using recover_block_eq [OF par notall n1 n2, of "last_length F"]
          by (simp add: covered_def blk(2) r)
        then show ?thesis
          using slots False by simp
      next
        case cov: True
        let ?pad = "\<lambda>i. resize FRAGMENT_SIZE (piece F i)"
        let ?got = "map (\<lambda>i. map_option (resize FRAGMENT_SIZE) (p_slots p ! i)) [s..<e] @ ?parity"
        obtain c where c: "cauchy (e - s) ?m = Inr c"
          "encode c (map ?pad [s..<e]) = Inr (map (par_shard F b) [0..<?m])"
          using block_codeword [OF b m] by (auto simp: r blk(2))
        have got_data: "map (\<lambda>i. map_option (resize FRAGMENT_SIZE) (p_slots p ! i)) [s..<e]
            = map (\<lambda>i. if i \<in> R then Some (?pad i) else None) [s..<e]"
          using slot by simp
        have "received (map ?pad [s..<e] @ map (par_shard F b) [0..<?m]) ?got"
          unfolding got_data by (auto simp: received_def nth_append)
        moreover have "arrived ?got = card (arrived_data F A b) + card (arrived_parity F A b)"
        proof -
          have "{i \<in> {s..<e}. i \<in> R} = R \<inter> {s..<e}"
            by auto
          also note Rb
          finally have "length (filter (\<lambda>s. s \<noteq> None) (map (\<lambda>i. if i \<in> R then Some (?pad i) else None) [s..<e]))
              = card (arrived_data F A b)"
            by (auto simp: filter_map comp_def length_filter_upt intro: arg_cong [where f = card])
          then show ?thesis
            unfolding got_data arrived_def filter_append length_append using n2 by simp
        qed
        ultimately have rec: "recover c ?got = Some (map ?pad [s..<e])"
          using cauchy_code.recover_enough [OF c] cov by (simp add: covered_def blk(2))
        have "recover_block (last_length F) (b, rng F b) p
            = fold (fill_slot (last_length F) (map ?pad [s..<e])) (enumerate 0 [s..<e]) p"
          using recover_block_eq [OF par notall n1 n2, of "last_length F"] cov c(1) rec
          by (simp add: covered_def blk(2) r)
        then show ?thesis
          using fill_slots [OF slots, of "(s, e)" "map ?pad [s..<e]"] cov blk(1,3) by simp
      qed
    qed
  qed
qed

lemma present_block:
  assumes "b < nblocks F"
  shows "present F A \<inter> fblock F b = (if covered F A b then fblock F b else arrived_data F A b)"
  using assms fblock_props(1) [OF assms]
  by (auto simp: present_def arrived_data_def dest: fblock_disjoint)

lemma present_block_cases:
  assumes "b < nblocks F"
  shows "present F A \<inter> fblock F b = arrived_data F A b \<or> fblock F b \<subseteq> present F A"
proof (cases "covered F A b")
  case True
  then show ?thesis
    using present_block [OF assms, of A] by (metis inf.cobounded1)
qed (use present_block [OF assms, of A] in simp)

lemma present_bounded: "present F A \<subseteq> {..<piece_count F}"
  using fblock_props(1) by (fastforce simp: present_def)

lemma parity_hold_cong:
  "parity_hold F A p \<Longrightarrow> p_parity q = p_parity p \<Longrightarrow> p_parity_stored q = p_parity_stored p \<Longrightarrow>
     p_last_len q = p_last_len p \<Longrightarrow> parity_hold F A q"
  by (simp add: parity_hold_def)

lemma recover_fold:
  assumes "slots_hold F R p" "parity_hold F A p"
    and "\<forall>b<nblocks F. R \<inter> fblock F b = arrived_data F A b \<or> fblock F b \<subseteq> R" "c \<le> nblocks F"
  shows "slots_hold F (R \<union> (\<Union>b\<in>{b. b < c \<and> covered F A b}. fblock F b))
      (fold (recover_block (last_length F)) (map (\<lambda>b. (b, rng F b)) [0..<c]) p)
    \<and> parity_hold F A (fold (recover_block (last_length F)) (map (\<lambda>b. (b, rng F b)) [0..<c]) p)"
  using assms(4)
proof (induction c)
  case (Suc c)
  let ?R = "R \<union> (\<Union>b\<in>{b. b < c \<and> covered F A b}. fblock F b)"
  let ?p = "fold (recover_block (last_length F)) (map (\<lambda>b. (b, rng F b)) [0..<c]) p"
  have IH: "slots_hold F ?R ?p" "parity_hold F A ?p"
    using Suc by simp_all
  have c: "c < nblocks F"
    using Suc.prems by simp
  have "?R \<inter> fblock F c = R \<inter> fblock F c"
    using fblock_disjoint [of _ F c] c by fastforce
  then have "?R \<inter> fblock F c = arrived_data F A c \<or> fblock F c \<subseteq> ?R"
    using assms(3) c by auto
  from recover_block_holds [OF c IH this]
  have "slots_hold F (?R \<union> (if covered F A c then fblock F c else {}))
      (recover_block (last_length F) (c, rng F c) ?p)" .
  moreover have "?R \<union> (if covered F A c then fblock F c else {})
      = R \<union> (\<Union>b\<in>{b. b < Suc c \<and> covered F A b}. fblock F b)"
    by (auto simp: less_Suc_eq)
  ultimately show ?case
    using IH(2) by (auto intro: parity_hold_cong)
qed (use assms in simp)

lemma pending_recover_other [simp]:
  "p_frame (pending_recover p) = p_frame p" "p_sent_us (pending_recover p) = p_sent_us p"
proof -
  have "p_frame (fold (recover_block l) bs q) = p_frame q \<and> p_sent_us (fold (recover_block l) bs q) = p_sent_us q"
    for l bs q by (induction bs arbitrary: q) simp_all
  then show "p_frame (pending_recover p) = p_frame p" "p_sent_us (pending_recover p) = p_sent_us p"
    by (simp_all add: pending_recover_def split: option.split)
qed

lemma pending_recover_holds:
  assumes slots: "slots_hold F R p" and parity: "parity_hold F A p" and some: "Inr r \<in> A"
    and R: "\<forall>b<nblocks F. R \<inter> fblock F b = arrived_data F A b \<or> fblock F b \<subseteq> R"
    and between: "{i. i < piece_count F \<and> Inl i \<in> A} \<subseteq> R" "R \<subseteq> present F A"
  shows "slots_hold F (present F A) (pending_recover p)" "parity_hold F A (pending_recover p)"
proof -
  have "p_last_len p = Some (last_length F)"
    using parity some unfolding parity_hold_def by (metis)
  moreover have "enumerate 0 (blocks (piece_count F)) = map (\<lambda>b. (b, rng F b)) [0..<nblocks F]"
    by (simp add: blocks_eq enumerate_map_upt rng_def nblocks_def)
  ultimately have eq: "pending_recover p
      = fold (recover_block (last_length F)) (map (\<lambda>b. (b, rng F b)) [0..<nblocks F]) p"
    using slots_hold_length [OF slots] by (simp add: pending_recover_def)
  have "R \<union> (\<Union>b\<in>{b. b < nblocks F \<and> covered F A b}. fblock F b) = present F A"
    using between by (auto simp: present_def)
  then show "slots_hold F (present F A) (pending_recover p)" "parity_hold F A (pending_recover p)"
    using recover_fold [OF slots parity R order_refl] eq by simp_all
qed

section \<open>Storing a packet of the frame\<close>

text \<open>A stored packet either changes nothing that is present, or is taken into the entry.\<close>

definition stored_ok :: "sent_frame \<Rightarrow> packet_id set \<Rightarrow> packet_id \<Rightarrow> stored \<Rightarrow> bool" where
  "stored_ok F A q result \<longleftrightarrow>
     (case result of
        SIgnore p \<Rightarrow> holds F (insert q A) p \<and> present F (insert q A) = present F A
      | SKeep p recovered \<Rightarrow> holds F (insert q A) p
      | _ \<Rightarrow> False)"

lemma covered_insert_other:
  "i \<notin> fblock F b \<Longrightarrow> covered F (insert (Inl i) A) b = covered F A b"
  "b \<noteq> b' \<Longrightarrow> covered F (insert (Inr (b', j)) A) b = covered F A b"
proof -
  assume "i \<notin> fblock F b"
  then have "arrived_data F (insert (Inl i) A) b = arrived_data F A b"
    by (auto simp: arrived_data_def)
  then show "covered F (insert (Inl i) A) b = covered F A b"
    by (simp add: covered_def arrived_parity_def)
next
  assume "b \<noteq> b'"
  then show "covered F (insert (Inr (b', j)) A) b = covered F A b"
    by (simp add: covered_def arrived_parity_def arrived_data_def)
qed

lemma covered_mono: "b < nblocks F \<Longrightarrow> A \<subseteq> A' \<Longrightarrow> covered F A b \<Longrightarrow> covered F A' b"
proof -
  assume b: "b < nblocks F" and sub: "A \<subseteq> A'" and cov: "covered F A b"
  have "card (arrived_data F A b) \<le> card (arrived_data F A' b)"
    using sub fblock_props(3) [OF b] by (intro card_mono) (auto simp: arrived_data_def)
  moreover have "card (arrived_parity F A b) \<le> card (arrived_parity F A' b)"
    using sub by (intro card_mono) (auto simp: arrived_parity_def)
  ultimately show "covered F A' b"
    using cov by (simp add: covered_def)
qed

lemma present_mono: "A \<subseteq> A' \<Longrightarrow> present F A \<subseteq> present F A'"
  using covered_mono by (fastforce simp: present_def)

lemma present_insert_present:
  assumes "i \<in> present F A"
  shows "present F (insert (Inl i) A) = present F A"
proof (cases "Inl i \<in> A")
  case True
  then show ?thesis by (simp add: insert_absorb)
next
  case False
  then obtain b where b: "b < nblocks F" "covered F A b" "i \<in> fblock F b"
    using assms by (auto simp: present_def)
  have "covered F (insert (Inl i) A) b' \<longleftrightarrow> covered F A b'" if "b' < nblocks F" for b'
  proof (cases "b' = b")
    case True
    then show ?thesis
      using b(1,2) covered_mono [of b F A "insert (Inl i) A"] by blast
  next
    case False
    then have "i \<notin> fblock F b'"
      using fblock_disjoint [OF b(3) _ b(1) that] by blast
    then show ?thesis
      by (rule covered_insert_other(1))
  qed
  then have "(\<Union>b\<in>{b. b < nblocks F \<and> covered F (insert (Inl i) A) b}. fblock F b)
      = (\<Union>b\<in>{b. b < nblocks F \<and> covered F A b}. fblock F b)"
    by (intro SUP_cong Collect_cong) auto
  then show ?thesis
    using assms by (auto simp: present_def)
qed

lemma pieces_total: "(\<Sum>i<piece_count F. length (piece F i)) = length (sf_data F)"
proof -
  have "length (concat (map (piece F) [0..<piece_count F])) = (\<Sum>i<piece_count F. length (piece F i))"
    by (simp add: length_concat comp_def interv_sum_list_conv_sum_set_nat atLeast0LessThan)
  then show ?thesis
    by (simp add: concat_pieces)
qed

lemma parity_hold_insert_data [simp]: "parity_hold F (insert (Inl i) A) p \<longleftrightarrow> parity_hold F A p"
proof -
  have "{q \<in> insert (Inl i) A. \<exists>r. q = Inr r} = {q \<in> A. \<exists>r. q = Inr r}"
    by auto
  then show ?thesis
    by (simp add: parity_hold_def arrived_parity_def)
qed

lemma parity_hold_empty:
  assumes "parity_hold F A p" "A \<subseteq> packet_ids F"
  shows "p_parity p = [] \<longleftrightarrow> (\<forall>r. Inr r \<notin> A)"
proof
  assume "p_parity p = []"
  then have none: "arrived_parity F A b = {}" if "b < nblocks F" for b
    using assms(1) that by (auto simp: parity_hold_def split: if_splits)
  show "\<forall>r. Inr r \<notin> A"
  proof (intro allI notI)
    fix r
    assume "Inr r \<in> A"
    then show False
      using assms(2) none [of "fst r"] by (auto simp: packet_ids_def arrived_parity_def)
  qed
next
  assume "\<forall>r. Inr r \<notin> A"
  then have "map_of (p_parity p) b = None" for b
    using assms(1) by (simp add: parity_hold_def arrived_parity_def)
  then have "map_of (p_parity p) = Map.empty"
    by (intro ext)
  then show "p_parity p = []"
    by (simp only: map_of_eq_empty_iff)
qed

lemma store_data_ok:
  assumes hold: "holds F A p" and ok: "sf_ok F" and i: "i < piece_count F" "unat (fragment h) = i"
  shows "stored_ok F A (Inl i) (store_data h (piece F i) p)"
proof -
  have slots: "slots_hold F (present F A) p" and parity: "parity_hold F A p" and A: "A \<subseteq> packet_ids F"
    using hold by (simp_all add: holds_def)
  have A': "insert (Inl i) A \<subseteq> packet_ids F"
    using A i(1) by (auto simp: packet_ids_def)
  show ?thesis
  proof (cases "i \<in> present F A")
    case True
    then have "store_data h (piece F i) p = SIgnore p"
      using slots_hold_nth [OF slots i(1)] slots_hold_length [OF slots] i by (simp add: store_data_def)
    then show ?thesis
      using hold A' present_insert_present [OF True] by (simp add: stored_ok_def holds_def)
  next
    case False
    let ?A = "insert (Inl i) A" and ?R = "insert i (present F A)"
    let ?p = "p\<lparr>p_bytes := p_bytes p + length (piece F i),
      p_slots := (p_slots p)[i := Some (piece F i)], p_received := p_received p + 1\<rparr>"
    have slots': "slots_hold F ?R ?p"
      using slots_hold_fill [OF slots i(1) False] .
    have parity': "parity_hold F ?A ?p"
      using parity by (auto intro: parity_hold_cong)
    have "p_bytes ?p = (\<Sum>k\<in>?R. length (piece F k))"
      using slots' by (simp add: slots_hold_def)
    also have "\<dots> \<le> (\<Sum>k<piece_count F. length (piece F k))"
      using i(1) present_bounded by (intro sum_mono2) auto
    finally have "p_bytes ?p \<le> MAX_FRAME"
      using ok by (simp add: pieces_total sf_ok_def)
    then have store: "store_data h (piece F i) p = (if p_parity p \<noteq> []
        then SKeep (pending_recover ?p) (p_received (pending_recover ?p) - p_received ?p) else SKeep ?p 0)"
      using slots_hold_nth [OF slots i(1)] slots_hold_length [OF slots] i False
      by (simp add: store_data_def Let_def)
    have Rb: "?R \<inter> fblock F b = arrived_data F ?A b \<or> fblock F b \<subseteq> ?R" if "b < nblocks F" for b
      using present_block [OF that, of A] by (auto simp: arrived_data_def split: if_splits)
    have between: "{k. k < piece_count F \<and> Inl k \<in> ?A} \<subseteq> ?R" "?R \<subseteq> present F ?A"
      using present_mono [of A ?A F] i(1) by (auto simp: present_def)
    show ?thesis
    proof (cases "p_parity p = []")
      case True
      then have none: "\<forall>r. Inr r \<notin> ?A"
        using parity_hold_empty [OF parity A] by simp
      have "fblock F b \<subseteq> ?R" if "b < nblocks F" "covered F ?A b" for b
        using Rb [OF that(1)] covered_without_parity [OF that] none by (auto simp: arrived_parity_def)
      then have "present F ?A = ?R"
        using between by (auto simp: present_def)
      then show ?thesis
        using store True slots' parity' A' hold by (simp add: stored_ok_def holds_def)
    next
      case False
      then obtain r where "Inr r \<in> ?A"
        using parity_hold_empty [OF parity A] by auto
      from pending_recover_holds [OF slots' parity' this] Rb between
      have "slots_hold F (present F ?A) (pending_recover ?p)" "parity_hold F ?A (pending_recover ?p)"
        by blast+
      then show ?thesis
        using store False A' hold by (simp add: stored_ok_def holds_def)
    qed
  qed
qed

text \<open>The parity packets of a frame are no more than its data fragments, so the cap never bites.\<close>

lemma parity_total: "sf_ok F \<Longrightarrow> card {q \<in> packet_ids F. \<exists>r. q = Inr r} \<le> piece_count F"
proof -
  assume ok: "sf_ok F"
  have "{q \<in> packet_ids F. \<exists>r. q = Inr r} = Inr ` (SIGMA b:{..<nblocks F}. {..<par_count F b})"
    by (auto simp: packet_ids_def image_iff)
  then have "card {q \<in> packet_ids F. \<exists>r. q = Inr r} = card (SIGMA b:{..<nblocks F}. {..<par_count F b})"
    by (simp add: card_image)
  also have "\<dots> = (\<Sum>b<nblocks F. par_count F b)"
    by simp
  also have "\<dots> \<le> (\<Sum>b<nblocks F. data_count F b)"
  proof (rule sum_mono)
    fix b
    have "sf_policy F (data_count F b) \<le> data_count F b"
      using ok by (simp add: sf_ok_def)
    then show "par_count F b \<le> data_count F b"
      by (simp add: par_count_def parity_count_def)
  qed
  also have "(\<Sum>b<c. data_count F b) = block_at (piece_count F) c" for c
  proof (induction c)
    case (Suc c)
    then show ?case
      using block_at_mono [of c "Suc c" "piece_count F"] by (simp add: data_count_def rng_def)
  qed (simp add: block_at_bounds)
  finally show ?thesis
    by (simp add: nblocks_def block_at_bounds)
qed

lemma present_insert_same: "q \<in> A \<Longrightarrow> insert q A = A"
  by (rule insert_absorb)

lemma parity_shards_hold:
  assumes "parity_hold F A p" "b < nblocks F"
  shows "entry_shards \<lparr>px_block = b, px_index = j, px_count = par_count F b, px_last_len = l\<rparr> p
    = map (\<lambda>j. if Inr (b, j) \<in> A then Some (par_shard F b j) else None) [0..<par_count F b]"
  using assms by (auto simp: entry_shards_def parity_hold_def arrived_parity_def intro!: nth_equalityI)

lemma store_parity_ok:
  assumes hold: "holds F A p" and ok: "sf_ok F" and b: "b < nblocks F" and j: "j < par_count F b"
  shows "stored_ok F A (Inr (b, j)) (store_parity (piece_count F)
    \<lparr>px_block = b, px_index = j, px_count = par_count F b, px_last_len = last_length F\<rparr> (par_shard F b j) p)"
    (is "stored_ok F A ?q (store_parity _ ?px _ _)")
proof -
  have slots: "slots_hold F (present F A) p" and parity: "parity_hold F A p" and A: "A \<subseteq> packet_ids F"
    using hold by (simp_all add: holds_def)
  have q: "?q \<in> packet_ids F"
    using b j by (simp add: packet_ids_def)
  let ?PA = "{q \<in> A. \<exists>r. q = Inr r}" and ?PF = "{q \<in> packet_ids F. \<exists>r. q = Inr r}"
  let ?ss = "map (\<lambda>j. if Inr (b, j) \<in> A then Some (par_shard F b j) else None) [0..<par_count F b]"
  note ss = parity_shards_hold [OF parity b]
  show ?thesis
  proof (cases "p_parity_stored p \<ge> max (piece_count F) 8")
    case True
    then have "card ?PF \<le> card ?PA"
      using parity parity_total [OF ok] by (simp add: parity_hold_def)
    then have "?PA = ?PF"
      using A finite_packet_ids by (intro card_seteq) auto
    then have "?q \<in> A"
      using q by auto
    then show ?thesis
      using True hold by (simp add: store_parity_def stored_ok_def insert_absorb)
  next
    case False
    let ?p1 = "p\<lparr>p_parity := AList.update b ?ss (p_parity p)\<rparr>"
    show ?thesis
    proof (cases "?q \<in> A")
      case True
      then have "map_of (p_parity p) b = Some ?ss"
        using parity b j unfolding parity_hold_def arrived_parity_def by auto
      then have "map_of (p_parity ?p1) = map_of (p_parity p)"
        by (simp add: update_conv' map_upd_triv)
      then have "parity_hold F A ?p1"
        using parity by (simp add: parity_hold_def)
      moreover have "slots_hold F (present F A) ?p1"
        using slots by (simp add: slots_hold_def)
      ultimately have "holds F A ?p1"
        using hold by (simp add: holds_def)
      moreover have "store_parity (piece_count F) ?px (par_shard F b j) p = SIgnore ?p1"
        using False True j ss by (auto simp: store_parity_def Let_def)
      ultimately show ?thesis
        using True by (simp add: stored_ok_def insert_absorb)
    next
      case new: False
      let ?A = "insert ?q A"
      let ?p2 = "?p1\<lparr>p_parity := AList.update b (?ss[j := Some (par_shard F b j)]) (p_parity ?p1),
        p_parity_stored := p_parity_stored p + 1, p_last_len := Some (last_length F)\<rparr>"
      have store: "store_parity (piece_count F) ?px (par_shard F b j) p
          = SKeep (pending_recover ?p2) (p_received (pending_recover ?p2) - p_received p)"
        using False new j ss by (auto simp: store_parity_def Let_def)
      have "?ss[j := Some (par_shard F b j)]
          = map (\<lambda>k. if Inr (b, k) \<in> ?A then Some (par_shard F b k) else None) [0..<par_count F b]"
        using j by (intro nth_equalityI) (auto simp: nth_list_update)
      moreover have "finite A"
        using A finite_packet_ids finite_subset by blast
      moreover have "{q \<in> ?A. \<exists>r. q = Inr r} = insert ?q ?PA"
        by auto
      ultimately have parity': "parity_hold F ?A ?p2"
        using parity b j new
        by (auto simp: parity_hold_def update_conv' arrived_parity_def)
      have slots': "slots_hold F (present F A) ?p2"
        using slots by (simp add: slots_hold_def)
      have "arrived_data F ?A b' = arrived_data F A b'" for b'
        by (simp add: arrived_data_def)
      then have Rb: "\<forall>b'<nblocks F. present F A \<inter> fblock F b' = arrived_data F ?A b' \<or> fblock F b' \<subseteq> present F A"
        using present_block_cases [of _ F A] by simp
      have between: "{k. k < piece_count F \<and> Inl k \<in> ?A} \<subseteq> present F A" "present F A \<subseteq> present F ?A"
        using present_mono [of A ?A F] by (auto simp: present_def)
      have "slots_hold F (present F ?A) (pending_recover ?p2)" "parity_hold F ?A (pending_recover ?p2)"
        using pending_recover_holds [OF slots' parity' _ Rb between, of "(b, j)"] by simp_all
      then show ?thesis
        using store hold A q by (simp add: stored_ok_def holds_def)
    qed
  qed
qed

end
