(* ===== verification/Bud_Reassembly.thy ===== *)
theory Bud_Reassembly
  imports Bud_Fragment
begin

unbundle bit_operations_syntax

text \<open>
  Sequences of packets through the reassembler of \<open>Bud_Fragment\<close>: what holds whatever a peer
  sends, and what holds of the packets that a sender cut with \<open>fragment_with_parity\<close>.
\<close>

fun push_all :: "(header \<times> bytes) list \<Rightarrow> reassembler \<Rightarrow> push_result list \<times> reassembler" where
  "push_all [] ra = ([], ra)"
| "push_all ((h, payload) # rest) ra =
     (let (r, ra) = push h payload ra; (rs, ra) = push_all rest ra in (r # rs, ra))"

fun delivery :: "push_result \<Rightarrow> delivered_frame option" where
  "delivery (Returned (Inr d)) = d"
| "delivery _ = None"

definition deliveries :: "push_result list \<Rightarrow> delivered_frame list" where
  "deliveries rs = List.map_filter delivery rs"

lemma deliveries_simps [simp]:
  "deliveries [] = []"
  "deliveries (r # rs) = (case delivery r of None \<Rightarrow> deliveries rs | Some d \<Rightarrow> d # deliveries rs)"
  by (simp_all add: deliveries_def List.map_filter_simps split: option.split)

lemma push_all_Cons:
  "fst (push_all ((h, payload) # rest) ra) = fst (push h payload ra) # fst (push_all rest (snd (push h payload ra)))"
  "snd (push_all ((h, payload) # rest) ra) = snd (push_all rest (snd (push h payload ra)))"
  by (simp_all add: Let_def split_beta)

lemma push_all_append:
  "fst (push_all (xs @ ys) ra) = fst (push_all xs ra) @ fst (push_all ys (snd (push_all xs ra)))"
  "snd (push_all (xs @ ys) ra) = snd (push_all ys (snd (push_all xs ra)))"
  by (induction xs arbitrary: ra) (auto simp: push_all_Cons simp del: push_all.simps(2))

section \<open>Whatever a peer sends\<close>

lemma stream_of_set [simp]:
  "stream_of (set_stream s state d n ra) t = (if t = s then state else stream_of ra t)"
  by (simp add: stream_of_def set_stream_def)

lemma push_entry_props:
  assumes "push_entry h ps = (res, ps', d)" "length ps \<le> MAX_IN_FLIGHT"
  shows "length ps' \<le> MAX_IN_FLIGHT"
    and "res = Inr index \<Longrightarrow> index < length ps' \<and> p_frame (ps' ! index) = frame h
          \<and> length (p_slots (ps' ! index)) = unat (fragments h)"
proof -
  have old: "oldest ps < length ps" if "ps \<noteq> []"
  proof -
    have "foldl (\<lambda>a b. if newer (p_frame (ps ! a)) (p_frame (ps ! b)) then b else a) x ns < length ps"
      if "x < length ps" "\<forall>n\<in>set ns. n < length ps" for x ns
      using that by (induction ns arbitrary: x) auto
    then show ?thesis
      using that by (simp add: oldest_def)
  qed
  have room: "length (remove_at (oldest ps) ps) = length ps - 1" if "MAX_IN_FLIGHT \<le> length ps"
    using that old by (cases ps) (simp_all add: length_remove_at MAX_IN_FLIGHT_def)
  show "length ps' \<le> MAX_IN_FLIGHT"
    using assms room
    by (auto simp: push_entry_def Let_def length_remove_at MAX_IN_FLIGHT_def
        split: option.splits if_splits dest: position_Some)
  show "res = Inr index \<Longrightarrow> index < length ps' \<and> p_frame (ps' ! index) = frame h
          \<and> length (p_slots (ps' ! index)) = unat (fragments h)"
    using assms(1) by (auto simp: push_entry_def Let_def pending_new_def nth_append
        split: option.splits if_splits dest: position_Some)
qed

text \<open>What one call of \<open>push\<close> does to the stream of its packet, in general.\<close>

definition flight_ok :: "reassembler \<Rightarrow> bool" where
  "flight_ok ra \<longleftrightarrow> (\<forall>strm. length (st_pending (stream_of ra strm)) \<le> MAX_IN_FLIGHT)"

definition may_follow :: "u32 option \<Rightarrow> u32 \<Rightarrow> bool" where
  "may_follow lst f \<longleftrightarrow> (case lst of None \<Rightarrow> True | Some l \<Rightarrow> newer f l)"

definition push_effect :: "header \<Rightarrow> reassembler \<Rightarrow> push_result \<times> reassembler \<Rightarrow> bool" where
  "push_effect h ra = (\<lambda>(r, ra'). r \<noteq> Panicked \<and> flight_ok ra'
     \<and> (\<forall>strm. strm \<noteq> stream h \<longrightarrow> stream_of ra' strm = stream_of ra strm)
     \<and> (case delivery r of
          None \<Rightarrow> st_last (stream_of ra' (stream h)) = st_last (stream_of ra (stream h))
        | Some d \<Rightarrow> d_stream d = stream h \<and> may_follow (st_last (stream_of ra (stream h))) (d_frame d)
            \<and> st_last (stream_of ra' (stream h)) = Some (d_frame d)))"

lemma store_keeps_frame:
  "store_packet h payload parsed p = SKeep p' n \<Longrightarrow> p_frame p' = p_frame p"
  by (auto simp: store_packet_def store_data_def store_parity_def Let_def split: parsed.splits if_splits)

lemma store_no_panic:
  assumes "header_valid h" "length (p_slots p) = unat (fragments h)" "push_parse h payload = parsed"
    and "parsed \<noteq> PNoise" "parsed \<noteq> PBad"
  shows "store_packet h payload parsed p \<noteq> SPanic"
proof (cases parsed)
  case (PParity px shard)
  then have "px_index px < px_count px"
    using assms(3) parity_parse_valid [of payload px shard]
    by (auto simp: push_parse_def prefix_valid_def Let_def split: if_splits option.splits)
  then show ?thesis
    using PParity by (simp add: store_packet_def store_parity_def Let_def)
next
  case PData
  then have "\<not> is_parity h"
    using assms(3) by (auto simp: push_parse_def Let_def split: if_splits option.splits)
  then have "unat (fragment h) < unat (fragments h)"
    using assms(1) by (simp add: header_valid_def word_less_nat_alt)
  then show ?thesis
    using PData assms(2) by (simp add: store_packet_def store_data_def Let_def)
qed (use assms in \<open>auto simp: push_parse_def Let_def split: if_splits option.splits\<close>)

lemma flight_ok_set:
  "flight_ok ra \<Longrightarrow> length (st_pending state) \<le> MAX_IN_FLIGHT \<Longrightarrow> flight_ok (set_stream s state d n ra)"
  by (simp add: flight_ok_def)

lemma push_finish_props:
  assumes "push_finish strm state ps index p = (done, state', d)" "index < length ps" "length ps \<le> MAX_IN_FLIGHT"
  shows "length (st_pending state') \<le> MAX_IN_FLIGHT"
    and "case done of None \<Rightarrow> st_last state' = st_last state
         | Some f \<Rightarrow> d_stream f = strm \<and> d_frame f = p_frame p \<and> st_last state' = Some (p_frame p)"
proof -
  have "length (filter P (remove_at index ps)) \<le> MAX_IN_FLIGHT" for P
    using assms(2,3) length_filter_le [of P "remove_at index ps"] by (simp add: length_remove_at)
  then show "length (st_pending state') \<le> MAX_IN_FLIGHT"
    using assms by (auto simp: push_finish_def Let_def split: if_splits)
  show "case done of None \<Rightarrow> st_last state' = st_last state
         | Some f \<Rightarrow> d_stream f = strm \<and> d_frame f = p_frame p \<and> st_last state' = Some (p_frame p)"
    using assms(1) by (auto simp: push_finish_def Let_def split: if_splits)
qed

lemma push_stored_effect:
  assumes ok: "flight_ok ra" and ps: "index < length ps" "length ps \<le> MAX_IN_FLIGHT"
    and frame: "p_frame (ps ! index) = frame h" "may_follow (st_last (stream_of ra (stream h))) (frame h)"
    and store: "result = store_packet h payload parsed (ps ! index)" "result \<noteq> SPanic"
  shows "push_effect h ra (push_stored h (stream_of ra (stream h)) index ps d result ra)"
proof (cases result)
  case (SKeep p n)
  obtain dlv state' stale where fin: "push_finish (stream h) (stream_of ra (stream h)) ps index p = (dlv, state', stale)"
    by (cases "push_finish (stream h) (stream_of ra (stream h)) ps index p") auto
  have "p_frame p = frame h"
    using store(1) SKeep store_keeps_frame frame(1) by metis
  then show ?thesis
    using push_finish_props [OF fin ps] ok frame(2) fin SKeep
    by (auto simp: push_stored_def push_effect_def flight_ok_set split: option.splits)
next
  case (SDrop e)
  have "length (remove_at index ps) \<le> MAX_IN_FLIGHT"
    using ps by (simp add: length_remove_at)
  then show ?thesis
    using SDrop ok by (auto simp: push_stored_def push_effect_def flight_ok_set)
qed (use assms in \<open>auto simp: push_stored_def push_effect_def flight_ok_set\<close>)

lemma push_known_effect:
  assumes ok: "flight_ok ra" and h: "header_valid h"
    and parsed: "push_parse h payload = parsed" "parsed \<noteq> PNoise" "parsed \<noteq> PBad"
  shows "push_effect h ra (push_known h payload parsed (stream_of ra (stream h)) ra)"
proof -
  let ?st = "stream_of ra (stream h)"
  have len: "length (st_pending ?st) \<le> MAX_IN_FLIGHT"
    using ok by (simp add: flight_ok_def)
  show ?thesis
  proof (cases "may_follow (st_last ?st) (frame h)")
    case False
    then show ?thesis
      using ok len
      by (auto simp: push_known_def may_follow_def push_effect_def flight_ok_set split: option.splits)
  next
    case True
    obtain res ps d where entry: "push_entry h (st_pending ?st) = (res, ps, d)"
      by (cases "push_entry h (st_pending ?st)") auto
    note e = push_entry_props [OF entry len]
    have known: "push_known h payload parsed ?st ra = (case res of
        Inl e \<Rightarrow> (Returned (Inl e), set_stream (stream h) (?st\<lparr>st_pending := ps\<rparr>) d 0 ra)
      | Inr index \<Rightarrow> push_stored h ?st index ps d (store_packet h payload parsed (ps ! index)) ra)"
      using True entry by (auto simp: push_known_def may_follow_def split: option.splits)
    show ?thesis
    proof (cases res)
      case (Inl x)
      then show ?thesis
        using known ok e(1) by (auto simp: push_effect_def flight_ok_set)
    next
      case (Inr index)
      then show ?thesis
        using known e True ok h parsed store_no_panic
          push_stored_effect [OF ok, of index ps h _ payload parsed d] by simp
    qed
  qed
qed

lemma push_has_effect:
  assumes "flight_ok ra" "header_valid h"
  shows "push_effect h ra (push h payload ra)"
proof (cases "push_parse h payload")
  case (PParity px shard)
  then show ?thesis
    using push_known_effect [OF assms PParity] by (simp add: push_def)
next
  case PData
  then show ?thesis
    using push_known_effect [OF assms PData] by (simp add: push_def)
qed (use assms in \<open>simp_all add: push_def push_effect_def\<close>)

text \<open>Frame numbers each of which may follow the one before.\<close>

fun newer_chain :: "u32 option \<Rightarrow> u32 list \<Rightarrow> bool" where
  "newer_chain lst [] \<longleftrightarrow> True"
| "newer_chain lst (f # fs) \<longleftrightarrow> may_follow lst f \<and> newer_chain (Some f) fs"

definition frames_on :: "u16 \<Rightarrow> push_result list \<Rightarrow> u32 list" where
  "frames_on strm rs = map d_frame (filter (\<lambda>d. d_stream d = strm) (deliveries rs))"

lemma push_all_effect:
  assumes "flight_ok ra" "\<forall>(h, payload)\<in>set packets. header_valid h"
  shows "Panicked \<notin> set (fst (push_all packets ra)) \<and> flight_ok (snd (push_all packets ra))
    \<and> newer_chain (st_last (stream_of ra strm)) (frames_on strm (fst (push_all packets ra)))"
  using assms
proof (induction packets arbitrary: ra)
  case (Cons hp packets)
  obtain h payload where hp: "hp = (h, payload)"
    by (cases hp)
  obtain r ra' where p: "push h payload ra = (r, ra')"
    by (cases "push h payload ra")
  have eff: "push_effect h ra (r, ra')"
    using push_has_effect [of ra h payload] Cons.prems hp p by simp
  then have "flight_ok ra'"
    by (simp add: push_effect_def)
  with Cons have IH: "Panicked \<notin> set (fst (push_all packets ra')) \<and> flight_ok (snd (push_all packets ra'))
    \<and> newer_chain (st_last (stream_of ra' strm)) (frames_on strm (fst (push_all packets ra')))"
    by simp
  then have "newer_chain (st_last (stream_of ra strm)) (frames_on strm (r # fst (push_all packets ra')))"
    using eff by (cases "delivery r"; cases "strm = stream h") (auto simp: push_effect_def frames_on_def)
  then show ?case
    using eff IH p by (auto simp: hp push_all_Cons push_effect_def simp del: push_all.simps(2))
qed (simp add: frames_on_def)

lemma flight_ok_new: "flight_ok reassembler_new"
  by (simp add: flight_ok_def stream_of_def reassembler_new_def stream_new_def)

section \<open>The packets of a frame\<close>

definition genuine :: "sent_frame \<Rightarrow> packet_id \<Rightarrow> header \<Rightarrow> bytes \<Rightarrow> bool" where
  "genuine F q h payload \<longleftrightarrow> q \<in> packet_ids F \<and> stream h = sf_stream F \<and> frame h = sf_frame F
     \<and> sent_us h = sf_sent F \<and> fragments h = of_nat (piece_count F)
     \<and> (case q of
          Inl i \<Rightarrow> \<not> is_parity h \<and> fragment h = of_nat i \<and> payload = piece F i
        | Inr (b, j) \<Rightarrow> is_parity h
            \<and> payload = parity_payload b j (par_count F b) (last_length F) (par_shard F b j))"

text \<open>The packet that a header and payload name.\<close>

definition ident :: "header \<times> bytes \<Rightarrow> packet_id" where
  "ident = (\<lambda>(h, payload). if is_parity h
     then (case parity_parse payload of Some (px, shard) \<Rightarrow> Inr (px_block px, px_index px) | None \<Rightarrow> Inl 0)
     else Inl (unat (fragment h)))"

lemma unat_piece_count: "sf_ok F \<Longrightarrow> unat (of_nat (piece_count F) :: u16) = piece_count F"
  using piece_count_small [of F] by (simp add: unat_of_nat_small)

lemma unat_piece_index: "sf_ok F \<Longrightarrow> i < piece_count F \<Longrightarrow> unat (of_nat i :: u16) = i"
  using piece_count_small [of F] by (simp add: unat_of_nat_small)

lemma par_shard_length:
  "b < nblocks F \<Longrightarrow> j < par_count F b \<Longrightarrow> length (par_shard F b j) = FRAGMENT_SIZE"
  using the_parity_length(2) [OF rng_good, where policy = "sf_policy F"]
  by (simp add: par_shard_def par_count_def data_count_def)

lemma par_count_small: "b < nblocks F \<Longrightarrow> par_count F b < 256"
  using fblock_props(4,5) [of b F] by (auto simp: par_count_def parity_count_def)

lemma nblocks_le: "nblocks F \<le> piece_count F"
  using block_count_pos [of "piece_count F"] by (simp add: nblocks_def)

lemma parse_genuine:
  assumes "sf_ok F" "genuine F (Inr (b, j)) h payload"
  shows "parity_parse payload = Some (\<lparr>px_block = b, px_index = j, px_count = par_count F b,
    px_last_len = last_length F\<rparr>, par_shard F b j)"
proof -
  have bj: "b < nblocks F" "j < par_count F b"
    using assms(2) by (auto simp: genuine_def packet_ids_def)
  have "b < 2 ^ 16"
    using bj(1) nblocks_le [of F] piece_count_small [OF assms(1)] by simp
  then show ?thesis
    using assms(2) bj par_count_small par_shard_length piece_length(1) [of F "piece_count F - 1"]
    by (auto simp: genuine_def last_length_def prefix_valid_def intro!: parity_parse_payload)
qed

lemma ident_genuine: "sf_ok F \<Longrightarrow> genuine F q h payload \<Longrightarrow> ident (h, payload) = q"
proof (cases q)
  case (Inl i)
  assume "sf_ok F" "genuine F q h payload"
  then show ?thesis
    using Inl by (auto simp: ident_def genuine_def packet_ids_def unat_piece_index)
next
  case (Inr bj)
  assume ok: "sf_ok F" and gen: "genuine F q h payload"
  then show ?thesis
    using Inr parse_genuine [OF ok, of "fst bj" "snd bj" h payload]
    by (auto simp: ident_def genuine_def split: prod.splits)
qed

lemma push_parse_genuine:
  assumes ok: "sf_ok F" and gen: "genuine F q h payload" and hold: "holds F A p"
  shows "stored_ok F A q (store_packet h payload (push_parse h payload) p)"
    and "push_parse h payload \<noteq> PNoise" "push_parse h payload \<noteq> PBad"
proof -
  have n: "unat (fragments h) = piece_count F"
    using gen unat_piece_count [OF ok] by (simp add: genuine_def)
  have "stored_ok F A q (store_packet h payload (push_parse h payload) p)
    \<and> push_parse h payload \<noteq> PNoise \<and> push_parse h payload \<noteq> PBad"
  proof (cases q)
    case (Inl i)
    then have i: "i < piece_count F" "unat (fragment h) = i" "\<not> is_parity h" "payload = piece F i"
      using gen unat_piece_index [OF ok] by (auto simp: genuine_def packet_ids_def)
    have "length (piece F i) = FRAGMENT_SIZE" if "unat (fragment h) + 1 \<noteq> unat (fragments h)"
      using that i n by (intro piece_length(2)) simp
    then have "push_parse h payload = PData"
      using i(3,4) piece_length(1) [of F i] by (auto simp: push_parse_def Let_def)
    then show ?thesis
      using store_data_ok [OF hold ok i(1,2)] Inl i(4) by (simp add: store_packet_def)
  next
    case (Inr bj)
    obtain b j where bj: "q = Inr (b, j)"
      using Inr by (cases bj) simp
    then have b: "b < nblocks F" "j < par_count F b" "is_parity h"
      using gen by (auto simp: genuine_def packet_ids_def)
    have "push_parse h payload = PParity \<lparr>px_block = b, px_index = j, px_count = par_count F b,
        px_last_len = last_length F\<rparr> (par_shard F b j)"
      using parse_genuine [OF ok gen [unfolded bj]] b(1,3) n
      by (simp add: push_parse_def nblocks_def)
    then show ?thesis
      using store_parity_ok [OF hold ok b(1,2)] bj n by (simp add: store_packet_def)
  qed
  then show "stored_ok F A q (store_packet h payload (push_parse h payload) p)"
    "push_parse h payload \<noteq> PNoise" "push_parse h payload \<noteq> PBad"
    by simp_all
qed

section \<open>Completing a frame\<close>

definition complete :: "sent_frame \<Rightarrow> packet_id set \<Rightarrow> bool" where
  "complete F A \<longleftrightarrow> (\<forall>b<nblocks F. covered F A b)"

lemma complete_present: "complete F A \<longleftrightarrow> present F A = {..<piece_count F}"
proof
  assume "complete F A"
  then have "i \<in> present F A" if "i < piece_count F" for i
    using fblock_ex1 [OF that] by (auto simp: complete_def present_def)
  then show "present F A = {..<piece_count F}"
    using present_bounded by auto
next
  assume all: "present F A = {..<piece_count F}"
  have "covered F A b" if b: "b < nblocks F" for b
  proof (rule ccontr)
    assume not: "\<not> covered F A b"
    then have "arrived_data F A b = fblock F b"
      using present_block [OF b, of A] fblock_props(1) [OF b] all by auto
    then show False
      using not fblock_props(2) [OF b] by (simp add: covered_def)
  qed
  then show "complete F A"
    by (simp add: complete_def)
qed

definition whole :: "sent_frame \<Rightarrow> delivered_frame" where
  "whole F = \<lparr>d_stream = sf_stream F, d_frame = sf_frame F, d_sent_us = sf_sent F, d_data = sf_data F\<rparr>"

lemma map_filter_Some: "List.map_filter id (map (\<lambda>x. Some (f x)) xs) = map f xs"
  by (induction xs) (simp_all add: List.map_filter_simps)

lemma holds_received:
  assumes "holds F A p"
  shows "p_received p < length (p_slots p) \<longleftrightarrow> \<not> complete F A"
    "complete F A \<Longrightarrow> concat (List.map_filter id (p_slots p)) = sf_data F"
proof -
  have slots: "slots_hold F (present F A) p"
    using assms by (simp add: holds_def)
  have "card (present F A) = piece_count F \<longleftrightarrow> present F A = {..<piece_count F}"
    by (metis card_lessThan card_subset_eq finite_lessThan present_bounded)
  moreover have "card (present F A) \<le> piece_count F"
    using card_mono [OF finite_lessThan present_bounded, of F A] by simp
  moreover have "p_received p = card (present F A)" "length (p_slots p) = piece_count F"
    using slots by (simp_all add: slots_hold_def)
  ultimately show "p_received p < length (p_slots p) \<longleftrightarrow> \<not> complete F A"
    unfolding complete_present by linarith
  show "concat (List.map_filter id (p_slots p)) = sf_data F" if "complete F A"
  proof -
    have "p_slots p = map (\<lambda>i. Some (piece F i)) [0..<piece_count F]"
      using slots that by (simp add: slots_hold_def complete_present)
    then show ?thesis
      by (simp add: map_filter_Some concat_pieces)
  qed
qed

lemma push_stored_genuine:
  assumes stored: "stored_ok F A q result" and not: "\<not> complete F A" and h: "stream h = sf_stream F"
  shows "complete F (insert q A) \<Longrightarrow> \<exists>d' n. push_stored h st index ps d result ra =
      (Returned (Inr (Some (whole F))), set_stream (stream h) \<lparr>st_last = Some (sf_frame F),
        st_pending = filter (\<lambda>p. newer (p_frame p) (sf_frame F)) (remove_at index ps)\<rparr> d' n ra)"
    and "\<not> complete F (insert q A) \<Longrightarrow> \<exists>p' d' n. holds F (insert q A) p' \<and>
      push_stored h st index ps d result ra =
      (Returned (Inr None), set_stream (stream h) (st\<lparr>st_pending := ps[index := p']\<rparr>) d' n ra)"
proof -
  have "(complete F (insert q A) \<longrightarrow> (\<exists>d' n. push_stored h st index ps d result ra =
      (Returned (Inr (Some (whole F))), set_stream (stream h) \<lparr>st_last = Some (sf_frame F),
        st_pending = filter (\<lambda>p. newer (p_frame p) (sf_frame F)) (remove_at index ps)\<rparr> d' n ra)))
    \<and> (\<not> complete F (insert q A) \<longrightarrow> (\<exists>p' d' n. holds F (insert q A) p' \<and>
      push_stored h st index ps d result ra =
      (Returned (Inr None), set_stream (stream h) (st\<lparr>st_pending := ps[index := p']\<rparr>) d' n ra)))"
  proof (cases result)
    case (SIgnore p)
    then have "holds F (insert q A) p" "\<not> complete F (insert q A)"
      using stored not by (auto simp: stored_ok_def complete_present)
    then show ?thesis
      using SIgnore by (auto simp: push_stored_def)
  next
    case (SKeep p n)
    then have hold: "holds F (insert q A) p"
      using stored by (simp add: stored_ok_def)
    then show ?thesis
      using SKeep holds_received [OF hold] h
      by (auto simp: push_stored_def push_finish_def Let_def whole_def holds_def)
  qed (use stored in \<open>simp_all add: stored_ok_def\<close>)
  then show "complete F (insert q A) \<Longrightarrow> \<exists>d' n. push_stored h st index ps d result ra =
      (Returned (Inr (Some (whole F))), set_stream (stream h) \<lparr>st_last = Some (sf_frame F),
        st_pending = filter (\<lambda>p. newer (p_frame p) (sf_frame F)) (remove_at index ps)\<rparr> d' n ra)"
    and "\<not> complete F (insert q A) \<Longrightarrow> \<exists>p' d' n. holds F (insert q A) p' \<and>
      push_stored h st index ps d result ra =
      (Returned (Inr None), set_stream (stream h) (st\<lparr>st_pending := ps[index := p']\<rparr>) d' n ra)"
    by blast+
qed

section \<open>One frame through a fresh stream\<close>

lemma not_complete_empty: "\<not> complete F {}"
  using piece_count_pos [of F] by (metis complete_present empty_iff lessThan_iff present_empty)

lemma complete_mono: "complete F A \<Longrightarrow> A \<subseteq> A' \<Longrightarrow> complete F A'"
  using covered_mono by (auto simp: complete_def)

lemma pieces_not_too_large: "sf_ok F \<Longrightarrow> piece_count F * FRAGMENT_SIZE \<le> MAX_FRAME + FRAGMENT_SIZE"
  by (auto simp: sf_ok_def piece_count_def div_ceil_def FRAGMENT_SIZE_eq MAX_FRAME_def max_def)

lemma genuine_fragments: "sf_ok F \<Longrightarrow> genuine F q h payload \<Longrightarrow> unat (fragments h) = piece_count F"
  using unat_piece_count by (simp add: genuine_def)

lemma push_genuine_known:
  assumes "sf_ok F" "genuine F q h payload"
  shows "push h payload ra = push_known h payload (push_parse h payload) (stream_of ra (stream h)) ra"
  using push_parse_genuine(2,3) [OF assms holds_new]
  by (cases "push_parse h payload") (simp_all add: push_def)

text \<open>The stream of the frame, after the packets of \<open>A\<close> and nothing else.\<close>

definition tracks :: "sent_frame \<Rightarrow> packet_id set \<Rightarrow> stream_state \<Rightarrow> bool" where
  "tracks F A st \<longleftrightarrow>
     (if complete F A then st = \<lparr>st_last = Some (sf_frame F), st_pending = []\<rparr>
      else st_last st = None \<and> (A = {} \<and> st_pending st = [] \<or> (\<exists>p. st_pending st = [p] \<and> holds F A p)))"

lemma tracks_push:
  assumes ok: "sf_ok F" and gen: "genuine F q h payload" and track: "tracks F A (stream_of ra (sf_stream F))"
    and not: "\<not> complete F A"
  shows "\<exists>ra'. push h payload ra = (Returned (Inr (if complete F (insert q A) then Some (whole F) else None)), ra')
    \<and> tracks F (insert q A) (stream_of ra' (sf_stream F))"
proof -
  let ?st = "stream_of ra (stream h)"
  have h: "stream h = sf_stream F" "frame h = sf_frame F" "sent_us h = sf_sent F"
    using gen by (simp_all add: genuine_def)
  have lst: "st_last ?st = None"
    using track not h by (simp add: tracks_def)
  obtain p where p: "holds F A p" and entry: "push_entry h (st_pending ?st) = (Inr 0, [p], 0)"
  proof (cases "st_pending ?st = []")
    case True
    then have "A = {}"
      using track not h by (auto simp: tracks_def)
    then show ?thesis
      using True that [of "pending_new (sf_frame F) (sf_sent F) (piece_count F)"] holds_new [of F]
        genuine_fragments [OF ok gen] pieces_not_too_large [OF ok] h
      by (simp add: push_entry_def Let_def MAX_IN_FLIGHT_def)
  next
    case False
    then obtain p where "st_pending ?st = [p]" "holds F A p"
      using track not h by (auto simp: tracks_def)
    then show ?thesis
      using that [of p] genuine_fragments [OF ok gen] h
      by (simp add: push_entry_def holds_def slots_hold_def)
  qed
  have push: "push h payload ra
      = push_stored h ?st 0 [p] 0 (store_packet h payload (push_parse h payload) p) ra"
    using push_genuine_known [OF ok gen] lst entry by (simp add: push_known_def)
  note st = push_stored_genuine [OF push_parse_genuine(1) [OF ok gen p] not h(1), of ?st 0 "[p]" 0 ra]
  show ?thesis
  proof (cases "complete F (insert q A)")
    case True
    then show ?thesis
      using st(1) push by (auto simp: tracks_def remove_at_def h)
  next
    case False
    then show ?thesis
      using st(2) push lst by (auto simp: tracks_def h)
  qed
qed

lemma push_late:
  assumes ok: "sf_ok F" and gen: "genuine F q h payload"
    and done_: "st_last (stream_of ra (sf_stream F)) = Some (sf_frame F)"
  shows "\<exists>ra'. push h payload ra = (Returned (Inr None), ra')
    \<and> stream_of ra' (sf_stream F) = stream_of ra (sf_stream F)"
  using push_genuine_known [OF ok gen] gen done_
  by (simp add: genuine_def push_known_def newer_def)

lemma tracks_push_all:
  assumes ok: "sf_ok F" and "\<forall>(h, payload)\<in>set arrivals. \<exists>q. genuine F q h payload"
    and "tracks F A (stream_of ra (sf_stream F))"
  shows "deliveries (fst (push_all arrivals ra))
    = (if \<not> complete F A \<and> complete F (A \<union> ident ` set arrivals) then [whole F] else [])"
  using assms(2,3)
proof (induction arrivals arbitrary: A ra)
  case (Cons hp arrivals)
  obtain h payload where hp: "hp = (h, payload)"
    by (cases hp)
  then obtain q where gen: "genuine F q h payload"
    using Cons.prems by auto
  have q: "ident hp = q"
    using ident_genuine [OF ok gen] hp by simp
  have rest: "\<forall>(h, payload)\<in>set arrivals. \<exists>q. genuine F q h payload"
    using Cons.prems by simp
  have eqA: "A \<union> ident ` set (hp # arrivals) = insert q A \<union> ident ` set arrivals"
    using q by auto
  show ?case
  proof (cases "complete F A")
    case True
    then have last: "st_last (stream_of ra (sf_stream F)) = Some (sf_frame F)"
      using Cons.prems(2) by (simp add: tracks_def)
    obtain ra' where ra': "push h payload ra = (Returned (Inr None), ra')"
      "stream_of ra' (sf_stream F) = stream_of ra (sf_stream F)"
      using push_late [OF ok gen last] by blast
    then show ?thesis
      using Cons.IH [OF rest, of A ra'] Cons.prems(2) True
      by (simp add: hp push_all_Cons del: push_all.simps)
  next
    case False
    obtain ra' where ra': "push h payload ra
        = (Returned (Inr (if complete F (insert q A) then Some (whole F) else None)), ra')"
      "tracks F (insert q A) (stream_of ra' (sf_stream F))"
      using tracks_push [OF ok gen Cons.prems(2) False] by blast
    have "complete F (insert q A) \<Longrightarrow> complete F (insert q A \<union> ident ` set arrivals)"
      by (rule complete_mono) auto
    then show ?thesis
      using Cons.IH [OF rest ra'(2)] ra'(1) False unfolding eqA
      by (simp add: hp push_all_Cons del: push_all.simps)
  qed
qed simp

section \<open>What the sender makes is genuine\<close>

text \<open>A packet as the receiver sees it: the sealer has put its number into the header.\<close>

definition from_sender :: "(header \<times> bytes) list \<Rightarrow> header \<times> bytes \<Rightarrow> bool" where
  "from_sender packets = (\<lambda>(h, payload). \<exists>h' n. (h', payload) \<in> set packets \<and> h = h'\<lparr>packet := n\<rparr>)"

lemma from_sender_self: "hp \<in> set packets \<Longrightarrow> from_sender packets hp"
  unfolding from_sender_def split_beta
  by (intro exI [of _ "fst hp"] exI [of _ "packet (fst hp)"]) simp

lemma is_parity_simps [simp]:
  "is_parity (h\<lparr>packet := n\<rparr>) = is_parity h" "\<not> is_parity (data_header s f t c i)"
  "is_parity (fst (parity_packet h k payload))"
  by (simp_all add: is_parity_def data_header_def parity_packet_def FLAG_PARITY_def)

definition numbered_parity :: "sent_frame \<Rightarrow> nat \<times> bytes \<Rightarrow> header \<times> bytes" where
  "numbered_parity F = (\<lambda>(k, payload). parity_packet (fst (data_packet F 0)) k payload)"

definition sender_list :: "sent_frame \<Rightarrow> (header \<times> bytes) list" where
  "sender_list F = map (data_packet F) [0..<piece_count F]
     @ map (numbered_parity F) (enumerate 0 (parity_payloads (sf_policy F) (pieces F)))"

lemma fragment_with_parity_eq:
  assumes "sf_ok F"
  shows "fragment_with_parity (sf_stream F) (sf_frame F) (sf_sent F) (sf_data F) (sf_policy F)
    = Inr (Some (sender_list F))"
proof -
  let ?parts = "map (data_packet F) [0..<piece_count F]"
  have parts: "?parts \<noteq> []" "map snd ?parts = pieces F" "hd ?parts = data_packet F 0"
    using piece_count_pos [of F] by (auto simp: data_packet_def pieces_def hd_map upt_conv_Cons)
  have "parity_encode ?parts (sf_policy F)
      = Some (map (numbered_parity F) (enumerate 0 (parity_payloads (sf_policy F) (pieces F))))"
    using parity_encode_eq [OF parts(1), of "sf_policy F"] unfolding parts numbered_parity_def by simp
  then show ?thesis
    using fragment_frame_eq [OF assms] by (simp add: fragment_with_parity_def sender_list_def)
qed

lemma parity_payloads_of:
  "payload \<in> set (parity_payloads (sf_policy F) (pieces F)) \<longleftrightarrow> (\<exists>b<nblocks F. \<exists>j<par_count F b.
     payload = parity_payload b j (par_count F b) (last_length F) (par_shard F b j))"
proof -
  have "length (the_parity (sf_policy F) (pieces F) (rng F b)) = par_count F b" if "b < nblocks F" for b
    using the_parity_length(1) [OF rng_good [OF that], of "sf_policy F"]
    by (simp add: par_count_def data_count_def)
  then show ?thesis
    unfolding in_parity_payloads length_pieces last_pieces Let_def rng_def [symmetric]
      nblocks_def [symmetric] par_shard_def [symmetric] last_length_def [symmetric]
      data_count_def [symmetric] par_count_def [symmetric]
    by (simp cong: conj_cong)
qed

lemma genuine_data:
  "i < piece_count F \<Longrightarrow> genuine F (Inl i) ((fst (data_packet F i))\<lparr>packet := n\<rparr>) (snd (data_packet F i))"
  by (simp add: genuine_def packet_ids_def data_packet_def) (simp add: data_header_def)

lemma genuine_parity:
  "b < nblocks F \<Longrightarrow> j < par_count F b \<Longrightarrow>
     payload = parity_payload b j (par_count F b) (last_length F) (par_shard F b j) \<Longrightarrow>
     genuine F (Inr (b, j)) ((fst (numbered_parity F (k, payload)))\<lparr>packet := n\<rparr>) (snd (numbered_parity F (k, payload)))"
  by (simp add: genuine_def packet_ids_def numbered_parity_def)
    (simp add: parity_packet_def data_packet_def data_header_def)

lemma sender_list_genuine:
  assumes "hp \<in> set (sender_list F)"
  shows "\<exists>q. \<forall>n. genuine F q ((fst hp)\<lparr>packet := n\<rparr>) (snd hp)"
proof -
  have "(\<exists>i<piece_count F. hp = data_packet F i)
    \<or> (\<exists>k payload. hp = numbered_parity F (k, payload) \<and> payload \<in> set (parity_payloads (sf_policy F) (pieces F)))"
    using assms by (force simp: sender_list_def in_set_enumerate_eq)
  then show ?thesis
    unfolding parity_payloads_of using genuine_data genuine_parity by blast
qed

lemma sender_list_complete:
  assumes "q \<in> packet_ids F"
  shows "\<exists>hp\<in>set (sender_list F). genuine F q (fst hp) (snd hp)"
proof (cases q)
  case (Inl i)
  then have i: "i < piece_count F"
    using assms by (auto simp: packet_ids_def)
  then have "data_packet F i \<in> set (sender_list F)"
    by (simp add: sender_list_def)
  moreover have "genuine F q (fst (data_packet F i)) (snd (data_packet F i))"
    using genuine_data [OF i, of 0] Inl by (simp add: data_packet_def data_header_def)
  ultimately show ?thesis
    by blast
next
  case (Inr bj)
  then obtain b j where bj: "q = Inr (b, j)" "b < nblocks F" "j < par_count F b"
    using assms by (auto simp: packet_ids_def)
  let ?payload = "parity_payload b j (par_count F b) (last_length F) (par_shard F b j)"
  have "?payload \<in> set (parity_payloads (sf_policy F) (pieces F))"
    using bj parity_payloads_of by blast
  then obtain k where "k < length (parity_payloads (sf_policy F) (pieces F))"
    "parity_payloads (sf_policy F) (pieces F) ! k = ?payload"
    by (auto simp: in_set_conv_nth)
  then have "(k, ?payload) \<in> set (enumerate 0 (parity_payloads (sf_policy F) (pieces F)))"
    by (simp add: in_set_enumerate_eq)
  then have "numbered_parity F (k, ?payload) \<in> set (sender_list F)"
    by (simp add: sender_list_def)
  moreover have "genuine F q (fst (numbered_parity F (k, ?payload))) (snd (numbered_parity F (k, ?payload)))"
    using genuine_parity [OF bj(2,3) refl, where k = k and n = 0] bj(1) by (simp add: numbered_parity_def parity_packet_def)
  ultimately show ?thesis
    by blast
qed

lemma from_sender_genuine:
  "from_sender (sender_list F) (h, payload) \<Longrightarrow> \<exists>q. genuine F q h payload"
  using sender_list_genuine by (fastforce simp: from_sender_def)

section \<open>Many frames at once\<close>

definition sends_ok :: "sent_frame set \<Rightarrow> bool" where
  "sends_ok S \<longleftrightarrow> (\<forall>F\<in>S. sf_ok F)
     \<and> (\<forall>F\<in>S. \<forall>G\<in>S. sf_stream F = sf_stream G \<longrightarrow> sf_frame F = sf_frame G \<longrightarrow> F = G)"

definition entry_of :: "sent_frame set \<Rightarrow> u16 \<Rightarrow> pending \<Rightarrow> bool" where
  "entry_of S strm p \<longleftrightarrow> (\<exists>F\<in>S. \<exists>A. sf_stream F = strm \<and> holds F A p \<and> \<not> complete F A)"

definition only_sent :: "sent_frame set \<Rightarrow> reassembler \<Rightarrow> bool" where
  "only_sent S ra \<longleftrightarrow> (\<forall>strm. \<forall>p\<in>set (st_pending (stream_of ra strm)). entry_of S strm p)"

lemma entry_of_sent:
  assumes "sends_ok S" "F \<in> S" "genuine F q h payload" "\<forall>p\<in>set ps. entry_of S (stream h) p"
    and "push_entry h ps = (res, ps', d)"
  shows "\<exists>index A. res = Inr index \<and> index < length ps' \<and> holds F A (ps' ! index) \<and> \<not> complete F A
    \<and> (\<forall>p\<in>set ps'. entry_of S (stream h) p)"
proof -
  have ok: "sf_ok F"
    using assms(1,2) by (simp add: sends_ok_def)
  have h: "stream h = sf_stream F" "frame h = sf_frame F" "sent_us h = sf_sent F"
    using assms(3) by (simp_all add: genuine_def)
  show ?thesis
  proof (cases "position (\<lambda>p. p_frame p = frame h) ps")
    case (Some index)
    then have index: "index < length ps" "p_frame (ps ! index) = frame h"
      using position_Some by fastforce+
    then obtain G A where G: "G \<in> S" "sf_stream G = stream h" "holds G A (ps ! index)" "\<not> complete G A"
      using bspec [OF assms(4) nth_mem [OF index(1)]] by (auto simp: entry_of_def)
    then have "G = F"
      using assms(1,2) index(2) h by (auto simp: sends_ok_def holds_def)
    moreover have "length (p_slots (ps ! index)) = unat (fragments h)"
      using G(3) \<open>G = F\<close> genuine_fragments [OF ok assms(3)] by (simp add: holds_def slots_hold_def)
    ultimately show ?thesis
      using Some assms(4,5) G index(1) by (auto simp: push_entry_def)
  next
    case None
    let ?new = "pending_new (sf_frame F) (sf_sent F) (piece_count F)"
    have new: "holds F {} ?new" "entry_of S (stream h) ?new"
      using holds_new [of F] not_complete_empty assms(2) h by (auto simp: entry_of_def)
    obtain room where "res = Inr (length room)" "ps' = room @ [?new]" "set room \<subseteq> set ps"
      using None assms(5) pieces_not_too_large [OF ok] genuine_fragments [OF ok assms(3)] h
        set_remove_at [of "oldest ps" ps]
      by (auto simp: push_entry_def Let_def split: if_splits)
    then show ?thesis
      using new assms(4) not_complete_empty [of F] by (auto simp: nth_append)
  qed
qed

lemma push_only_sent:
  assumes S: "sends_ok S" "F \<in> S" and gen: "genuine F q h payload" and inv_: "only_sent S ra"
  shows "\<exists>d ra'. push h payload ra = (Returned (Inr d), ra') \<and> only_sent S ra'
    \<and> (d = None \<or> d = Some (whole F))"
proof -
  let ?st = "stream_of ra (stream h)"
  have ok: "sf_ok F"
    using S by (simp add: sends_ok_def)
  have h: "stream h = sf_stream F"
    using gen by (simp add: genuine_def)
  have pend: "\<forall>p\<in>set (st_pending ?st). entry_of S (stream h) p"
    using inv_ by (simp add: only_sent_def)
  note push = push_genuine_known [OF ok gen, of ra]
  show ?thesis
  proof (cases "may_follow (st_last ?st) (frame h)")
    case False
    then show ?thesis
      using push inv_ by (auto simp: push_known_def may_follow_def only_sent_def split: option.splits)
  next
    case True
    obtain res ps d where entry: "push_entry h (st_pending ?st) = (res, ps, d)"
      by (cases "push_entry h (st_pending ?st)") auto
    obtain index A where e: "res = Inr index" "index < length ps" "holds F A (ps ! index)" "\<not> complete F A"
      "\<forall>p\<in>set ps. entry_of S (stream h) p"
      using entry_of_sent [OF S gen pend entry] by blast
    have known: "push h payload ra
        = push_stored h ?st index ps d (store_packet h payload (push_parse h payload) (ps ! index)) ra"
      using True entry e(1) push by (auto simp: push_known_def may_follow_def split: option.splits)
    note st = push_stored_genuine [OF push_parse_genuine(1) [OF ok gen e(3)] e(4) h, of ?st index ps d ra]
    show ?thesis
    proof (cases "complete F (insert q A)")
      case True
      have "\<forall>p\<in>set (filter P (remove_at index ps)). entry_of S (stream h) p" for P
        using e(5) set_remove_at [of index ps] by auto
      then show ?thesis
        using st(1) [OF True] known inv_ by (auto simp: only_sent_def h)
    next
      case False
      obtain p' d' n where p': "holds F (insert q A) p'" "push h payload ra
          = (Returned (Inr None), set_stream (stream h) (?st\<lparr>st_pending := ps[index := p']\<rparr>) d' n ra)"
        using st(2) [OF False] known by auto
      have "entry_of S (stream h) p'"
        using p'(1) False S(2) h by (auto simp: entry_of_def)
      then have "\<forall>p\<in>set (ps[index := p']). entry_of S (stream h) p"
        using e(5) set_update_subset_insert [of ps index p'] by auto
      then show ?thesis
        using p'(2) inv_ by (auto simp: only_sent_def)
    qed
  qed
qed

lemma push_all_only_sent:
  assumes "sends_ok S" "\<forall>(h, payload)\<in>set arrivals. \<exists>F\<in>S. \<exists>q. genuine F q h payload" "only_sent S ra"
  shows "set (fst (push_all arrivals ra)) \<subseteq> insert (Returned (Inr None)) ((\<lambda>F. Returned (Inr (Some (whole F)))) ` S)"
  using assms(2,3)
proof (induction arrivals arbitrary: ra)
  case (Cons hp arrivals)
  obtain h payload where hp: "hp = (h, payload)"
    by (cases hp)
  then obtain F q where F: "F \<in> S" "genuine F q h payload"
    using Cons.prems(1) by auto
  obtain d ra' where p: "push h payload ra = (Returned (Inr d), ra')" "only_sent S ra'" "d = None \<or> d = Some (whole F)"
    using push_only_sent [OF assms(1) F Cons.prems(2)] by blast
  then show ?case
    using Cons.IH [OF _ p(2)] Cons.prems(1) F(1)
    by (auto simp: hp push_all_Cons simp del: push_all.simps)
qed simp

section \<open>Properties\<close>

text \<open>
  C15. The reassembler is safe against any peer: whatever packets with a well-formed header are pushed, in
  any order and with any payloads, no call panics, no stream ever holds more than four unfinished frames,
  and every frame a stream delivers is newer than the one it delivered before.
\<close>

theorem reassembler_safe:
  assumes "\<forall>(h, payload)\<in>set packets. header_valid h"
  shows "case push_all packets reassembler_new of (results, ra) \<Rightarrow>
    Panicked \<notin> set results
    \<and> (\<forall>strm. length (st_pending (stream_of ra strm)) \<le> MAX_IN_FLIGHT)
    \<and> (\<forall>strm. newer_chain None (frames_on strm results))"
proof -
  have "st_last (stream_of reassembler_new strm) = None" for strm
    by (simp add: stream_of_def reassembler_new_def stream_new_def)
  then show ?thesis
    using push_all_effect [OF flight_ok_new assms] by (simp add: split_beta flight_ok_def)
qed

text \<open>
  C2. A frame survives every loss its parity covers: cut a frame of at most 16 MiB with any policy that asks
  for no more parity than data, and let any of its packets reach a fresh reassembler, in any order and any
  number of times. The frame is delivered exactly once, with exactly its data, if from every block at least
  as many different packets arrived as it has data fragments; otherwise nothing is delivered.
\<close>

theorem frame_delivered_iff_covered:
  assumes "length (sf_data F) \<le> MAX_FRAME" "\<forall>k. sf_policy F k \<le> k"
  shows "\<exists>packets. fragment_with_parity (sf_stream F) (sf_frame F) (sf_sent F) (sf_data F) (sf_policy F)
      = Inr (Some packets)
    \<and> (\<forall>arrivals. (\<forall>a\<in>set arrivals. from_sender packets a) \<longrightarrow>
         deliveries (fst (push_all arrivals reassembler_new))
           = (if \<forall>b<nblocks F. covered F (ident ` set arrivals) b then [whole F] else []))"
proof -
  have ok: "sf_ok F"
    using assms by (simp add: sf_ok_def)
  have "tracks F {} (stream_of reassembler_new (sf_stream F))"
    using not_complete_empty by (simp add: tracks_def stream_of_def reassembler_new_def stream_new_def)
  then have "deliveries (fst (push_all arrivals reassembler_new))
      = (if complete F (ident ` set arrivals) then [whole F] else [])"
    if "\<forall>a\<in>set arrivals. from_sender (sender_list F) a" for arrivals
    using tracks_push_all [OF ok, of arrivals "{}" reassembler_new] that from_sender_genuine not_complete_empty
    by fastforce
  then show ?thesis
    using fragment_with_parity_eq [OF ok] by (simp add: complete_def)
qed

theorem reassembler_safe_witness:
  "let h = \<lparr>flags = 0, stream = 1, frame = 7, fragment = 0, fragments = 2, packet = 0, sent_us = 0\<rparr>;
       g = \<lparr>flags = 1, stream = 1, frame = 7, fragment = 9, fragments = 1, packet = 0, sent_us = 0\<rparr>
   in case push_all [(h, [1, 2]), (g, []), (h, [])] reassembler_new of (results, ra) \<Rightarrow>
     Panicked \<notin> set results
     \<and> (\<forall>strm. length (st_pending (stream_of ra strm)) \<le> MAX_IN_FLIGHT)
     \<and> (\<forall>strm. newer_chain None (frames_on strm results))"
  unfolding Let_def by (rule reassembler_safe) (simp add: header_valid_def is_parity_def FLAG_PARITY_def)

theorem frame_delivered_iff_covered_witness:
  "\<exists>packets. fragment_with_parity 1 7 0 [1, 2, 3] (min 1) = Inr (Some packets)
    \<and> (\<exists>pk\<in>set packets. is_parity (fst pk)
         \<and> deliveries (fst (push_all [pk, pk] reassembler_new))
           = [\<lparr>d_stream = 1, d_frame = 7, d_sent_us = 0, d_data = [1, 2, 3]\<rparr>])"
proof -
  let ?F = "\<lparr>sf_stream = 1, sf_frame = 7, sf_sent = 0, sf_data = [1, 2, 3], sf_policy = min 1\<rparr>"
  have ok: "sf_ok ?F"
    by (simp add: sf_ok_def MAX_FRAME_def)
  have n: "piece_count ?F = 1" "nblocks ?F = 1"
    by (simp_all add: piece_count_def nblocks_def block_count_def div_ceil_def FRAGMENT_SIZE_eq MAX_BLOCK_DATA_def)
  have k: "data_count ?F 0 = 1" "par_count ?F 0 = 1"
    using block_at_bounds [of 1] n
    by (simp_all add: data_count_def rng_def par_count_def parity_count_def nblocks_def)
  obtain packets where packets: "fragment_with_parity 1 7 0 [1, 2, 3] (min 1) = Inr (Some packets)"
    "\<And>arrivals. \<forall>a\<in>set arrivals. from_sender packets a \<Longrightarrow>
       deliveries (fst (push_all arrivals reassembler_new))
         = (if \<forall>b<nblocks ?F. covered ?F (ident ` set arrivals) b then [whole ?F] else [])"
    using frame_delivered_iff_covered [of ?F] ok by (auto simp: sf_ok_def)
  have "packets = sender_list ?F"
    using packets(1) fragment_with_parity_eq [OF ok] by simp
  moreover have "Inr (0, 0) \<in> packet_ids ?F"
    using n(2) k(2) by (auto simp: packet_ids_def)
  ultimately obtain pk where pk: "pk \<in> set packets" "genuine ?F (Inr (0, 0)) (fst pk) (snd pk)"
    using sender_list_complete by blast
  have "ident pk = Inr (0, 0)"
    using ident_genuine [OF ok pk(2)] by simp
  moreover have "covered ?F {Inr (0, 0)} 0"
  proof -
    have "arrived_parity ?F {Inr (0, 0)} 0 = {0}"
      using k(2) by (auto simp: arrived_parity_def)
    then show ?thesis
      using k(1) by (simp add: covered_def)
  qed
  moreover have "from_sender packets pk"
    using pk(1) by (rule from_sender_self)
  ultimately have "deliveries (fst (push_all [pk, pk] reassembler_new)) = [whole ?F]"
    using packets(2) [of "[pk, pk]"] n(2) by simp
  moreover have "is_parity (fst pk)"
    using pk(2) by (simp add: genuine_def)
  ultimately show ?thesis
    using packets(1) pk(1) by (auto simp: whole_def)
qed

text \<open>
  C11. What comes out is what went in: with any number of frames sent on any streams (no two of one stream
  under one number), their packets mixed in any order, some lost and some repeated, every call returns
  without an error, and every frame it delivers is one that was sent, with its stream, number, send time
  and every byte of its data.
\<close>

theorem only_sent_frames_delivered:
  assumes "sends_ok S"
    and "\<forall>a\<in>set arrivals. \<exists>F\<in>S. \<exists>packets.
      fragment_with_parity (sf_stream F) (sf_frame F) (sf_sent F) (sf_data F) (sf_policy F) = Inr (Some packets)
      \<and> from_sender packets a"
  shows "set (fst (push_all arrivals reassembler_new))
    \<subseteq> insert (Returned (Inr None)) ((\<lambda>F. Returned (Inr (Some (whole F)))) ` S)"
proof (rule push_all_only_sent [OF assms(1)])
  have "\<exists>q. genuine F q h payload" if "F \<in> S" "from_sender packets (h, payload)"
    "fragment_with_parity (sf_stream F) (sf_frame F) (sf_sent F) (sf_data F) (sf_policy F) = Inr (Some packets)"
    for F packets h payload
    using that assms(1) fragment_with_parity_eq [of F] from_sender_genuine by (auto simp: sends_ok_def)
  then show "\<forall>(h, payload)\<in>set arrivals. \<exists>F\<in>S. \<exists>q. genuine F q h payload"
    using assms(2) by blast
  show "only_sent S reassembler_new"
    by (simp add: only_sent_def stream_of_def reassembler_new_def stream_new_def)
qed

theorem only_sent_frames_delivered_witness:
  "\<exists>a. set (fst (push_all [a, a] reassembler_new))
     \<subseteq> {Returned (Inr None), Returned (Inr (Some \<lparr>d_stream = 1, d_frame = 7, d_sent_us = 0, d_data = [1, 2, 3]\<rparr>))}"
proof -
  let ?F = "\<lparr>sf_stream = 1, sf_frame = 7, sf_sent = 0, sf_data = [1, 2, 3], sf_policy = no_parity\<rparr>"
  have ok: "sf_ok ?F"
    by (simp add: sf_ok_def MAX_FRAME_def no_parity_def)
  let ?a = "data_packet ?F 0"
  have "from_sender (sender_list ?F) ?a"
    using piece_count_pos [of ?F] by (intro from_sender_self) (simp add: sender_list_def)
  then have "set (fst (push_all [?a, ?a] reassembler_new))
    \<subseteq> insert (Returned (Inr None)) ((\<lambda>F. Returned (Inr (Some (whole F)))) ` {?F})"
    using fragment_with_parity_eq [OF ok] ok
    by (intro only_sent_frames_delivered) (simp_all add: sends_ok_def)
  then show ?thesis
    by (intro exI [of _ ?a]) (simp add: whole_def)
qed

end
