(* ===== verification/Bud_Recovery.thy ===== *)
theory Bud_Recovery
  imports Bud_Reassembly Bud_Packet
begin

unbundle bit_operations_syntax

text \<open>
  What happens when parity was not enough (\<open>bud/src/recovery.rs\<close>): the feedback messages and
  their format, the sender's memory for retransmission, the receiver's decisions about frames that
  wait, and the loss figures. Times are 64-bit words; the order in which the code's hash map yields
  the streams is an argument.
\<close>

definition FEEDBACK_STREAM :: u16 where "FEEDBACK_STREAM = - 1"
definition MAX_NACK_FRAGMENTS :: nat where "MAX_NACK_FRAGMENTS = 4096"
definition MAX_RANGES :: nat where "MAX_RANGES = 64"
definition MAX_RESENDS :: u8 where "MAX_RESENDS = 2"
definition MAX_NACKS :: u8 where "MAX_NACKS = 2"
definition MAX_STORED_BYTES :: nat where "MAX_STORED_BYTES = 8 * 1024 * 1024"

datatype feedback =
    Nack u16 u32 "u16 list"
  | Refresh u16 u32
  | Report u32 u32

definition NACK :: u8 where "NACK = 1"
definition REFRESH :: u8 where "REFRESH = 2"
definition REPORT :: u8 where "REPORT = 3"

section \<open>The feedback format\<close>

text \<open>Runs of consecutive fragments as (start, length).\<close>

definition extend_ranges :: "(u16 \<times> u16) list \<Rightarrow> u16 \<Rightarrow> (u16 \<times> u16) list" where
  "extend_ranges ranges f =
     (if ranges \<noteq> [] \<and> unat (fst (last ranges)) + unat (snd (last ranges)) = unat f
      then butlast ranges @ [(fst (last ranges), snd (last ranges) + 1)]
      else ranges @ [(f, 1)])"

definition nack_ranges :: "u16 list \<Rightarrow> (u16 \<times> u16) list" where
  "nack_ranges frags = foldl extend_ranges [] (remdups_adj (sort frags))"

fun feedback_encode :: "feedback \<Rightarrow> bytes" where
  "feedback_encode (Nack strm frm frags) =
     (let ranges = take MAX_RANGES (nack_ranges frags)
      in [NACK] @ be_bytes 2 strm @ be_bytes 4 frm @ be_bytes 2 (of_nat (length ranges) :: u16)
         @ concat (map (\<lambda>(start, len). be_bytes 2 start @ be_bytes 2 len) ranges))"
| "feedback_encode (Refresh strm frm) = [REFRESH] @ be_bytes 2 strm @ be_bytes 4 frm"
| "feedback_encode (Report sent lost) = [REPORT] @ be_bytes 4 sent @ be_bytes 4 lost"

definition be16_at :: "bytes \<Rightarrow> nat \<Rightarrow> u16 option" where
  "be16_at bs at = (if at + 1 < length bs then Some (of_be (subslice bs at (at + 2))) else None)"

definition be32_at :: "bytes \<Rightarrow> nat \<Rightarrow> u32 option" where
  "be32_at bs at = (if at + 3 < length bs then Some (of_be (subslice bs at (at + 4))) else None)"

fun decode_ranges :: "bytes \<Rightarrow> nat list \<Rightarrow> u16 list \<Rightarrow> u16 list option" where
  "decode_ranges bs [] frags = Some frags"
| "decode_ranges bs (i # is) frags =
     (case be16_at bs (9 + i * 4) of None \<Rightarrow> None | Some start \<Rightarrow>
      case be16_at bs (11 + i * 4) of None \<Rightarrow> None | Some len \<Rightarrow>
        if len = 0 \<or> unat start + unat len > 65535 + 1 then None
        else if length frags + unat len > MAX_NACK_FRAGMENTS then None
        else decode_ranges bs is (frags @ map of_nat [unat start..<unat start + unat len]))"

definition feedback_decode :: "bytes \<Rightarrow> feedback option" where
  "feedback_decode bs =
     (case bs of
        [] \<Rightarrow> None
      | tag # _ \<Rightarrow>
          if tag = NACK then
            (case be16_at bs 1 of None \<Rightarrow> None | Some strm \<Rightarrow>
             case be32_at bs 3 of None \<Rightarrow> None | Some frm \<Rightarrow>
             case be16_at bs 7 of None \<Rightarrow> None | Some n \<Rightarrow>
               let count = unat n
               in if count > MAX_RANGES \<or> length bs \<noteq> 9 + count * 4 then None
                  else map_option (Nack strm frm) (decode_ranges bs [0..<count] []))
          else if tag = REFRESH \<and> length bs = 7 then
            (case be16_at bs 1 of None \<Rightarrow> None | Some strm \<Rightarrow>
             case be32_at bs 3 of None \<Rightarrow> None | Some frm \<Rightarrow> Some (Refresh strm frm))
          else if tag = REPORT \<and> length bs = 9 then
            (case be32_at bs 1 of None \<Rightarrow> None | Some sent \<Rightarrow>
             case be32_at bs 5 of None \<Rightarrow> None | Some lost \<Rightarrow> Some (Report sent lost))
          else None)"

section \<open>The sender's memory\<close>

record stored_frame =
  sd_stream :: u16
  sd_frame :: u32
  sd_parts :: "(header \<times> bytes) list"
  sd_resends :: "u8 list"

record retransmitter =
  rt_frames :: "stored_frame list"
  rt_bytes :: nat

definition retransmitter_new :: retransmitter where
  "retransmitter_new = \<lparr>rt_frames = [], rt_bytes = 0\<rparr>"

definition parts_bytes :: "(header \<times> bytes) list \<Rightarrow> nat" where
  "parts_bytes parts = sum_list (map (\<lambda>(h, p). length p) parts)"

text \<open>The loop that drops the oldest frames; it ends when the memory is empty.\<close>

fun evict :: "stored_frame list \<Rightarrow> nat \<Rightarrow> retransmitter" where
  "evict [] bytes = \<lparr>rt_frames = [], rt_bytes = bytes\<rparr>"
| "evict (old # frames) bytes =
     (if bytes > MAX_STORED_BYTES then evict frames (bytes - parts_bytes (sd_parts old))
      else \<lparr>rt_frames = old # frames, rt_bytes = bytes\<rparr>)"

definition remember ::
  "u16 \<Rightarrow> u32 \<Rightarrow> (header \<times> bytes) list \<Rightarrow> retransmitter \<Rightarrow> retransmitter" where
  "remember strm frm packets rt =
     (let parts = filter (\<lambda>(h, p). \<not> is_parity h) packets; bytes = parts_bytes parts
      in if bytes > MAX_STORED_BYTES then rt
         else evict (rt_frames rt @ [\<lparr>sd_stream = strm, sd_frame = frm, sd_parts = parts,
                       sd_resends = replicate (length parts) 0\<rparr>]) (rt_bytes rt + bytes))"

text \<open>The loop of \<open>respond\<close> over the fragments asked for.\<close>

fun resend :: "(header \<times> bytes) list \<Rightarrow> u8 list \<Rightarrow> u16 list \<Rightarrow> (header \<times> bytes) list \<times> u8 list" where
  "resend parts resends [] = ([], resends)"
| "resend parts resends (f # fs) =
     (let i = unat f
      in if i < length parts \<and> i < length resends \<and> resends ! i < MAX_RESENDS
         then let (out, resends) = resend parts (resends[i := resends ! i + 1]) fs in (parts ! i # out, resends)
         else resend parts resends fs)"

definition respond ::
  "u16 \<Rightarrow> u32 \<Rightarrow> u16 list \<Rightarrow> retransmitter \<Rightarrow> (header \<times> bytes) list \<times> retransmitter" where
  "respond strm frm frags rt =
     (case position (\<lambda>s. sd_stream s = strm \<and> sd_frame s = frm) (rt_frames rt) of
        None \<Rightarrow> ([], rt)
      | Some k \<Rightarrow>
          let s = rt_frames rt ! k; (out, resends) = resend (sd_parts s) (sd_resends s) frags
          in (out, rt\<lparr>rt_frames := (rt_frames rt)[k := s\<lparr>sd_resends := resends\<rparr>]\<rparr>))"

section \<open>The receiver's decisions\<close>

record timing =
  tm_rtt_us :: u64
  tm_hold_us :: u64
  tm_deadline_us :: u64
  tm_refresh_gap_us :: u64

record seen =
  sn_first_us :: u64
  sn_nacks :: u8
  sn_last_nack_us :: u64

record loss_detector =
  ld_seen :: "u16 \<times> u32 \<Rightarrow> seen option"
  ld_last_refresh :: "u16 \<Rightarrow> u64 option"

definition loss_detector_new :: loss_detector where
  "loss_detector_new = \<lparr>ld_seen = Map.empty, ld_last_refresh = Map.empty\<rparr>"

definition saturating_sub :: "u64 \<Rightarrow> u64 \<Rightarrow> u64" where
  "saturating_sub a b = (if a < b then 0 else a - b)"

text \<open>One turn of the loop of \<open>poll\<close>: the waiting frame \<open>w\<close>.\<close>

definition poll_frame ::
  "u64 \<Rightarrow> timing \<Rightarrow> incomplete_frame \<Rightarrow> loss_detector \<times> reassembler \<times> feedback list
    \<Rightarrow> loss_detector \<times> reassembler \<times> feedback list" where
  "poll_frame now t w = (\<lambda>(ld, ra, out).
     let key = (in_stream w, in_frame w);
         seen = (case ld_seen ld key of Some s \<Rightarrow> s
                 | None \<Rightarrow> \<lparr>sn_first_us = now, sn_nacks = 0, sn_last_nack_us = 0\<rparr>);
         ld = ld\<lparr>ld_seen := (ld_seen ld)(key \<mapsto> seen)\<rparr>;
         age = saturating_sub now (sn_first_us seen)
     in if age \<ge> tm_deadline_us t then
          let ra = snd (abandon (in_stream w) (in_frame w) ra);
              ld = ld\<lparr>ld_seen := (ld_seen ld)(key := None)\<rparr>;
              due = (case ld_last_refresh ld (in_stream w) of None \<Rightarrow> True
                     | Some lst \<Rightarrow> saturating_sub now lst \<ge> tm_refresh_gap_us t)
          in if due
             then (ld\<lparr>ld_last_refresh := (ld_last_refresh ld)(in_stream w \<mapsto> now)\<rparr>, ra,
                   out @ [Refresh (in_stream w) (in_frame w)])
             else (ld, ra, out)
        else
          let spaced = (sn_nacks seen = 0
                \<or> saturating_sub now (sn_last_nack_us seen) \<ge> tm_rtt_us t * 3 div 2);
              in_time = age + tm_rtt_us t \<le> tm_deadline_us t
          in if age \<ge> tm_hold_us t \<and> sn_nacks seen < MAX_NACKS \<and> spaced \<and> in_time
             then (ld\<lparr>ld_seen := (ld_seen ld)(key \<mapsto>
                      seen\<lparr>sn_nacks := sn_nacks seen + 1, sn_last_nack_us := now\<rparr>)\<rparr>, ra,
                   out @ [Nack (in_stream w) (in_frame w) (in_missing w)])
             else (ld, ra, out))"

definition poll ::
  "u16 list \<Rightarrow> u64 \<Rightarrow> timing \<Rightarrow> loss_detector \<times> reassembler \<Rightarrow> feedback list \<times> loss_detector \<times> reassembler" where
  "poll order now t = (\<lambda>(ld, ra).
     let waiting = incomplete order ra;
         ld = ld\<lparr>ld_seen := (\<lambda>key. if key \<in> set (map (\<lambda>w. (in_stream w, in_frame w)) waiting)
                                   then ld_seen ld key else None)\<rparr>;
         (ld, ra, out) = fold (poll_frame now t) waiting (ld, ra, [])
     in (out, ld, ra))"

section \<open>The loss figures\<close>

record loss_meter =
  lm_last_highest :: "u64 option"
  lm_last_accepted :: u64

definition loss_meter_new :: loss_meter where
  "loss_meter_new = \<lparr>lm_last_highest = None, lm_last_accepted = 0\<rparr>"

definition sample :: "'k opener \<Rightarrow> loss_meter \<Rightarrow> feedback option \<times> loss_meter" where
  "sample opener lm =
     (case open_stats opener of
        (None, _) \<Rightarrow> (None, lm)
      | (Some highest, accepted) \<Rightarrow>
          let sent = (case lm_last_highest lm of
                Some lst \<Rightarrow> saturating_sub highest lst | None \<Rightarrow> highest + 1);
              received = saturating_sub accepted (lm_last_accepted lm);
              lm = \<lparr>lm_last_highest = Some highest, lm_last_accepted = accepted\<rparr>
          in if sent = 0 then (None, lm)
             else let sent = min sent 0xffffffff;
                      lost = saturating_sub sent received
                  in (Some (Report (ucast sent) (ucast lost)), lm))"

section \<open>Ranges cover the fragments they were made of\<close>

definition expand :: "u16 \<times> u16 \<Rightarrow> u16 list" where
  "expand r = map of_nat [unat (fst r)..<unat (fst r) + unat (snd r)]"

definition range_ok :: "u16 \<times> u16 \<Rightarrow> bool" where
  "range_ok r \<longleftrightarrow> snd r \<noteq> 0 \<and> unat (fst r) + unat (snd r) \<le> 65536"

lemma length_expand [simp]: "length (expand r) = unat (snd r)"
  by (simp add: expand_def)

lemma unat_u16_less: "unat (x :: u16) < 65536"
  using unsigned_less [of x, where ?'a = nat] by simp

lemma unat_u16_Suc: "unat (l :: u16) < 65535 \<Longrightarrow> unat (l + 1) = Suc (unat l)"
  by (simp add: unat_word_ariths)

lemma extend_ranges_expand:
  assumes "length (concat (map expand rs)) < 65535" "\<forall>r\<in>set rs. range_ok r"
  shows "concat (map expand (extend_ranges rs f)) = concat (map expand rs) @ [f]"
    and "\<forall>r\<in>set (extend_ranges rs f). range_ok r"
proof -
  have "concat (map expand (extend_ranges rs f)) = concat (map expand rs) @ [f]
    \<and> (\<forall>r\<in>set (extend_ranges rs f). range_ok r)"
  proof (cases "rs \<noteq> [] \<and> unat (fst (last rs)) + unat (snd (last rs)) = unat f")
    case True
    then have rs: "rs = butlast rs @ [last rs]"
      by simp
    obtain s l where sl: "last rs = (s, l)"
      by (cases "last rs")
    have "concat (map expand rs) = concat (map expand (butlast rs)) @ expand (s, l)"
      by (subst rs) (simp add: sl)
    then have len: "unat (l + 1) = Suc (unat l)"
      using assms(1) by (intro unat_u16_Suc) simp
    have f: "f = of_nat (unat s + unat l)"
      using True sl by simp
    have "expand (s, l + 1) = expand (s, l) @ [f]"
      using f by (simp add: expand_def len)
    moreover have "range_ok (s, l + 1)"
      using True sl len unat_u16_less [of f] by (auto simp: range_ok_def)
    moreover have "\<forall>r\<in>set (butlast rs). range_ok r"
      using assms(2) in_set_butlastD by fast
    ultimately show ?thesis
      using True \<open>concat (map expand rs) = _\<close> by (auto simp: extend_ranges_def sl)
  next
    case False
    have "expand (f, 1) = [f]" "range_ok (f, 1)"
      using unat_u16_less [of f] by (auto simp: expand_def range_ok_def upt_rec)
    then show ?thesis
      using False assms(2) by (auto simp: extend_ranges_def)
  qed
  then show "concat (map expand (extend_ranges rs f)) = concat (map expand rs) @ [f]"
    "\<forall>r\<in>set (extend_ranges rs f). range_ok r"
    by simp_all
qed

lemma nack_ranges_expand:
  assumes "length (remdups_adj (sort frags)) \<le> 65535"
  shows "concat (map expand (nack_ranges frags)) = remdups_adj (sort frags)"
    and "\<forall>r\<in>set (nack_ranges frags). range_ok r"
proof -
  have "concat (map expand (foldl extend_ranges [] xs)) = xs \<and> (\<forall>r\<in>set (foldl extend_ranges [] xs). range_ok r)"
    if "length xs \<le> 65535" for xs
    using that
  proof (induction xs rule: rev_induct)
    case (snoc f xs)
    then show ?case
      using extend_ranges_expand [of "foldl extend_ranges [] xs" f] by simp
  qed simp
  then show "concat (map expand (nack_ranges frags)) = remdups_adj (sort frags)"
    "\<forall>r\<in>set (nack_ranges frags). range_ok r"
    using assms by (simp_all add: nack_ranges_def)
qed

section \<open>Reading a NACK\<close>

lemma drop_chunks:
  assumes "\<forall>x\<in>set xs. length (e x) = n" "i \<le> length xs"
  shows "drop (i * n) (concat (map e xs)) = concat (map e (drop i xs))"
  using assms
proof (induction xs arbitrary: i)
  case (Cons x xs)
  then show ?case
    by (cases i) auto
qed simp

definition range_bytes :: "u16 \<times> u16 \<Rightarrow> bytes" where
  "range_bytes = (\<lambda>(start, len). be_bytes 2 start @ be_bytes 2 len)"

lemma be16_at_drop: "drop at bs = be_bytes 2 x @ rest \<Longrightarrow> be16_at bs at = Some x"
proof -
  assume d: "drop at bs = be_bytes 2 x @ rest"
  then have "length bs - at = 2 + length rest"
    by (metis length_append length_be_bytes length_drop)
  then show ?thesis
    using d by (simp add: be16_at_def subslice_def)
qed

lemma decode_ranges_exact:
  assumes bs: "\<forall>i\<le>length rs. drop (9 + i * 4) bs = concat (map range_bytes (drop i rs))"
    and ok: "\<forall>r\<in>set rs. range_ok r" and i: "i \<le> length rs" "length acc \<le> MAX_NACK_FRAGMENTS"
  shows "decode_ranges bs [i..<length rs] acc
    = (if length acc + length (concat (map expand (drop i rs))) \<le> MAX_NACK_FRAGMENTS
       then Some (acc @ concat (map expand (drop i rs))) else None)"
  using i
proof (induction "length rs - i" arbitrary: i acc)
  case (Suc d)
  then have i: "i < length rs"
    by simp
  obtain s l where sl: "rs ! i = (s, l)"
    by (cases "rs ! i")
  have at: "drop (9 + i * 4) bs = be_bytes 2 s @ be_bytes 2 l @ concat (map range_bytes (drop (Suc i) rs))"
    using bs i sl Cons_nth_drop_Suc [OF i, symmetric] by (simp add: range_bytes_def)
  have "drop (11 + i * 4) bs = drop 2 (drop (9 + i * 4) bs)"
    by (simp add: add.commute)
  then have "drop (11 + i * 4) bs = be_bytes 2 l @ concat (map range_bytes (drop (Suc i) rs))"
    by (simp add: at)
  then have get: "be16_at bs (9 + i * 4) = Some s" "be16_at bs (11 + i * 4) = Some l"
    using at be16_at_drop by blast+
  have ok': "l \<noteq> 0" "unat s + unat l \<le> 65536"
    using ok nth_mem [OF i] sl by (auto simp: range_ok_def)
  have drop: "concat (map expand (drop i rs)) = expand (s, l) @ concat (map expand (drop (Suc i) rs))"
    using Cons_nth_drop_Suc [OF i, symmetric] sl by simp
  have "[i..<length rs] = i # [Suc i..<length rs]"
    using i by (rule upt_conv_Cons)
  then show ?case
    using get ok' Suc.hyps(1) [of "Suc i" "acc @ expand (s, l)"] Suc.hyps(2) i
    by (auto simp: drop expand_def)
qed simp

lemma feedback_decode_NACK:
  "bs = NACK # t \<Longrightarrow> be16_at bs 1 = Some strm \<Longrightarrow> be32_at bs 3 = Some frm \<Longrightarrow> be16_at bs 7 = Some n \<Longrightarrow>
     unat n \<le> MAX_RANGES \<Longrightarrow> length bs = 9 + unat n * 4 \<Longrightarrow>
     feedback_decode bs = map_option (Nack strm frm) (decode_ranges bs [0..<unat n] [])"
  by (simp add: feedback_decode_def)

lemma nack_decode_exact:
  assumes "length (remdups_adj (sort frags)) \<le> 65535"
  shows "feedback_decode (feedback_encode (Nack strm frm frags))
    = (let xs = concat (map expand (take MAX_RANGES (nack_ranges frags)))
       in if length xs \<le> MAX_NACK_FRAGMENTS then Some (Nack strm frm xs) else None)"
proof -
  let ?rs = "take MAX_RANGES (nack_ranges frags)"
  let ?bs = "feedback_encode (Nack strm frm frags)"
  have bs: "?bs = [NACK] @ be_bytes 2 strm @ be_bytes 4 frm @ be_bytes 2 (of_nat (length ?rs) :: u16)
      @ concat (map range_bytes ?rs)"
    by (simp add: range_bytes_def Let_def)
  have n: "length ?rs \<le> 64"
    by (simp add: MAX_RANGES_def)
  then have count: "unat (of_nat (length ?rs) :: u16) = length ?rs"
    by (intro unat_of_nat_small) simp
  have ok: "\<forall>r\<in>set ?rs. range_ok r"
    using nack_ranges_expand(2) [OF assms] in_set_takeD by fast
  have four: "\<forall>r\<in>set ?rs. length (range_bytes r) = 4"
    by (simp add: range_bytes_def split_beta)
  have "drop (9 + i * 4) ?bs = concat (map range_bytes (drop i ?rs))" if "i \<le> length ?rs" for i
  proof -
    have "drop (9 + i * 4) ?bs = drop (i * 4) (drop 9 ?bs)"
      by (simp add: add.commute del: feedback_encode.simps)
    also have "drop 9 ?bs = concat (map range_bytes ?rs)"
      unfolding bs by simp
    finally show ?thesis
      using drop_chunks [OF four that] by simp
  qed
  then have ranges: "decode_ranges ?bs [0..<length ?rs] []
      = (if length (concat (map expand ?rs)) \<le> MAX_NACK_FRAGMENTS then Some (concat (map expand ?rs)) else None)"
    using decode_ranges_exact [of ?rs ?bs 0 "[]"] ok by simp
  have "length (concat (map range_bytes rs)) = length rs * 4" for rs
    by (induction rs) (simp_all add: range_bytes_def split_beta)
  then have len: "length ?bs = 9 + length ?rs * 4"
    unfolding bs by simp
  have get: "be16_at ?bs 1 = Some strm" "be32_at ?bs 3 = Some frm" "be16_at ?bs 7 = Some (of_nat (length ?rs))"
    unfolding bs by (simp_all add: be16_at_def be32_at_def subslice_def)
  have "feedback_decode ?bs = map_option (Nack strm frm) (decode_ranges ?bs [0..<length ?rs] [])"
    using feedback_decode_NACK [OF _ get] len count n bs
    by (metis MAX_RANGES_def append_Cons append_Nil)
  then show ?thesis
    unfolding ranges Let_def by (simp split: if_split)
qed

lemma refresh_decode: "feedback_decode (feedback_encode (Refresh strm frm)) = Some (Refresh strm frm)"
  by (simp add: feedback_decode_def NACK_def REFRESH_def be16_at_def be32_at_def subslice_def)

lemma report_decode: "feedback_decode (feedback_encode (Report sent lost)) = Some (Report sent lost)"
  by (simp add: feedback_decode_def NACK_def REFRESH_def REPORT_def be16_at_def be32_at_def subslice_def)

section \<open>Resending\<close>

text \<open>The counts of a stored frame are bounded, one for each part, and the memory's size is right.\<close>

definition counts_ok :: "stored_frame \<Rightarrow> bool" where
  "counts_ok s \<longleftrightarrow> length (sd_resends s) = length (sd_parts s) \<and> (\<forall>c\<in>set (sd_resends s). c \<le> MAX_RESENDS)"

definition rt_ok :: "retransmitter \<Rightarrow> bool" where
  "rt_ok rt \<longleftrightarrow> rt_bytes rt = sum_list (map (\<lambda>s. parts_bytes (sd_parts s)) (rt_frames rt))
     \<and> rt_bytes rt \<le> MAX_STORED_BYTES \<and> (\<forall>s\<in>set (rt_frames rt). counts_ok s)"

lemma rt_ok_new: "rt_ok retransmitter_new"
  by (simp add: rt_ok_def retransmitter_new_def)

lemma evict_props:
  assumes "bytes = sum_list (map (\<lambda>s. parts_bytes (sd_parts s)) frames)" "\<forall>s\<in>set frames. counts_ok s"
  shows "rt_ok (evict frames bytes) \<and> set (rt_frames (evict frames bytes)) \<subseteq> set frames"
  using assms
proof (induction frames bytes rule: evict.induct)
  case (2 old frames bytes)
  then show ?case
    by (cases "MAX_STORED_BYTES < bytes") (auto simp: rt_ok_def)
qed (simp add: rt_ok_def)

lemma remember_props:
  assumes "rt_ok rt"
  shows "rt_ok (remember strm frm packets rt)"
    and "s \<in> set (rt_frames (remember strm frm packets rt)) \<Longrightarrow>
      s \<in> set (rt_frames rt) \<or> sd_parts s = filter (\<lambda>(h, p). \<not> is_parity h) packets"
proof -
  let ?parts = "filter (\<lambda>(h, p). \<not> is_parity h) packets"
  let ?s = "\<lparr>sd_stream = strm, sd_frame = frm, sd_parts = ?parts, sd_resends = replicate (length ?parts) 0\<rparr>"
  have "counts_ok ?s"
    by (simp add: counts_ok_def)
  then have e: "rt_ok (evict (rt_frames rt @ [?s]) (rt_bytes rt + parts_bytes ?parts))
    \<and> set (rt_frames (evict (rt_frames rt @ [?s]) (rt_bytes rt + parts_bytes ?parts))) \<subseteq> set (rt_frames rt @ [?s])"
    using assms by (intro evict_props) (auto simp: rt_ok_def)
  then show "rt_ok (remember strm frm packets rt)"
    using assms by (simp add: remember_def Let_def)
  show "s \<in> set (rt_frames rt) \<or> sd_parts s = ?parts"
    if "s \<in> set (rt_frames (remember strm frm packets rt))"
    using that e by (auto simp: remember_def Let_def split: if_splits)
qed

text \<open>The sends left for a part: two for each place it has in a frame, less those made.\<close>

definition sends_left :: "(header \<times> bytes) \<Rightarrow> (header \<times> bytes) list \<Rightarrow> u8 list \<Rightarrow> nat" where
  "sends_left part parts resends =
     sum_list (map (\<lambda>(p, n). if p = part then unat MAX_RESENDS - unat n else 0) (zip parts resends))"

lemma sends_left_update:
  assumes "i < length parts" "length resends = length parts" "resends ! i < MAX_RESENDS"
  shows "(if parts ! i = part then 1 else 0) + sends_left part parts (resends[i := resends ! i + 1]) = sends_left part parts resends"
  using assms
proof (induction parts arbitrary: i resends)
  case (Cons p parts)
  obtain r rs where r: "resends = r # rs"
    using Cons.prems(2) by (cases resends) auto
  show ?case
  proof (cases i)
    case 0
    then have "unat (r + 1) = unat r + 1" "unat r < unat MAX_RESENDS"
      using Cons.prems(3) r by (auto simp: MAX_RESENDS_def word_less_nat_alt unat_word_ariths)
    with 0 r show ?thesis by (simp add: sends_left_def Suc_diff_Suc)
  next
    case (Suc j)
    then show ?thesis
      using Cons.IH [of j rs] Cons.prems r by (simp add: sends_left_def)
  qed
qed simp

lemma sends_left_fresh: "sends_left part parts (replicate (length parts) 0) = unat MAX_RESENDS * count_list parts part"
  by (induction parts) (simp_all add: sends_left_def)

lemma resend_spends:
  assumes "length resends = length parts" "\<forall>c\<in>set resends. c \<le> MAX_RESENDS" "resend parts resends fs = (out, resends')"
  shows "length resends' = length parts \<and> (\<forall>c\<in>set resends'. c \<le> MAX_RESENDS)
    \<and> (\<forall>p\<in>set out. \<exists>f\<in>set fs. unat f < length parts \<and> p = parts ! unat f)
    \<and> count_list out part + sends_left part parts resends' = sends_left part parts resends"
  using assms
proof (induction parts resends fs arbitrary: out rule: resend.induct)
  case (2 parts resends f fs)
  let ?i = "unat f"
  show ?case
  proof (cases "?i < length parts \<and> resends ! ?i < MAX_RESENDS")
    case True
    let ?r = "resends[?i := resends ! ?i + 1]"
    have "resends ! ?i + 1 \<le> MAX_RESENDS"
      using True by (auto simp: MAX_RESENDS_def word_less_nat_alt word_le_nat_alt unat_word_ariths)
    then have r: "\<forall>c\<in>set ?r. c \<le> MAX_RESENDS"
      using 2(4) set_update_subset_insert [of resends ?i] by auto
    obtain out' where out: "resend parts ?r fs = (out', resends')" "out = parts ! ?i # out'"
      using 2(3,5) True by (auto simp: Let_def split: prod.splits)
    have IH: "length resends' = length parts \<and> (\<forall>c\<in>set resends'. c \<le> MAX_RESENDS)
      \<and> (\<forall>p\<in>set out'. \<exists>f\<in>set fs. unat f < length parts \<and> p = parts ! unat f)
      \<and> count_list out' part + sends_left part parts resends' = sends_left part parts ?r"
      using 2(1) [OF refl _ _ r out(1)] 2(3) True by simp
    then show ?thesis
      using sends_left_update [of ?i parts resends part] True 2(3) out(2) by auto
  next
    case False
    then have "resend parts resends fs = (out, resends')"
      using 2(3,5) by (auto simp: Let_def)
    then show ?thesis
      using 2(2) [OF refl _ 2(3,4)] 2(3) False by auto
  qed
qed simp

lemma evict_suffix: "\<exists>k. rt_frames (evict frames bytes) = drop k frames"
proof (induction frames bytes rule: evict.induct)
  case (2 old frames bytes)
  show ?case
  proof (cases "MAX_STORED_BYTES < bytes")
    case True
    then obtain k where "rt_frames (evict (old # frames) bytes) = drop k frames"
      using 2 by auto
    then show ?thesis
      by (intro exI [of _ "Suc k"]) simp
  qed (intro exI [of _ 0], simp)
qed simp

section \<open>A sender's history\<close>

datatype memory_event = Remembered u16 u32 "(header \<times> bytes) list" | Nacked u16 u32 "u16 list"

text \<open>What each NACK was answered with.\<close>

fun memory_step :: "memory_event \<Rightarrow> (u16 \<times> u32 \<times> u16 list \<times> (header \<times> bytes) list) list \<times> retransmitter
    \<Rightarrow> (u16 \<times> u32 \<times> u16 list \<times> (header \<times> bytes) list) list \<times> retransmitter" where
  "memory_step (Remembered strm frm packets) (sent, rt) = (sent, remember strm frm packets rt)"
| "memory_step (Nacked strm frm frags) (sent, rt) =
     (let (out, rt) = respond strm frm frags rt in (sent @ [(strm, frm, frags, out)], rt))"

definition memory_run :: "memory_event list \<Rightarrow> (u16 \<times> u32 \<times> u16 list \<times> (header \<times> bytes) list) list \<times> retransmitter" where
  "memory_run es = fold memory_step es ([], retransmitter_new)"

definition data_parts :: "(header \<times> bytes) list \<Rightarrow> (header \<times> bytes) list" where
  "data_parts packets = filter (\<lambda>(h, p). \<not> is_parity h) packets"

definition held_bytes :: "retransmitter \<Rightarrow> nat" where
  "held_bytes rt = sum_list (map (\<lambda>s. sum_list (map (\<lambda>(h, p). length p) (sd_parts s))) (rt_frames rt))"

definition all_sent :: "(u16 \<times> u32 \<times> u16 list \<times> (header \<times> bytes) list) list \<Rightarrow> (header \<times> bytes) list" where
  "all_sent sent = concat (map (\<lambda>(strm, frm, frags, out). out) sent)"

definition all_remembered :: "memory_event list \<Rightarrow> (header \<times> bytes) list" where
  "all_remembered es = concat (map (\<lambda>e. case e of Remembered _ _ packets \<Rightarrow> data_parts packets | Nacked _ _ _ \<Rightarrow> []) es)"

definition memory_left :: "(header \<times> bytes) \<Rightarrow> retransmitter \<Rightarrow> nat" where
  "memory_left part rt = sum_list (map (\<lambda>s. sends_left part (sd_parts s) (sd_resends s)) (rt_frames rt))"

text \<open>An answer holds fragments the NACK names, of the frame it names.\<close>

definition answers_nack :: "memory_event list \<Rightarrow> u16 \<times> u32 \<times> u16 list \<times> (header \<times> bytes) list \<Rightarrow> bool" where
  "answers_nack es = (\<lambda>(strm, frm, frags, out). \<forall>part\<in>set out. \<exists>packets. Remembered strm frm packets \<in> set es
     \<and> (\<exists>f\<in>set frags. unat f < length (data_parts packets) \<and> part = data_parts packets ! unat f))"

definition memory_ok :: "memory_event list \<Rightarrow> (u16 \<times> u32 \<times> u16 list \<times> (header \<times> bytes) list) list \<Rightarrow> retransmitter \<Rightarrow> bool" where
  "memory_ok es sent rt =
     (rt_ok rt
      \<and> (\<forall>s\<in>set (rt_frames rt). \<exists>packets. Remembered (sd_stream s) (sd_frame s) packets \<in> set es \<and> sd_parts s = data_parts packets)
      \<and> (\<forall>a\<in>set sent. answers_nack es a)
      \<and> (\<forall>part. count_list (all_sent sent) part + memory_left part rt \<le> unat MAX_RESENDS * count_list (all_remembered es) part))"

lemma answers_nack_more: "answers_nack es a \<Longrightarrow> answers_nack (es @ [e]) a"
  by (fastforce simp: answers_nack_def)

lemma sum_list_drop_le: "sum_list (map f (drop k xs)) \<le> (sum_list (map f xs) :: nat)"
proof -
  have "sum_list (map f xs) = sum_list (map f (take k xs)) + sum_list (map f (drop k xs))"
    by (metis append_take_drop_id map_append sum_list_append)
  then show ?thesis by simp
qed

lemma memory_ok_remember:
  assumes "memory_ok es sent rt"
  shows "memory_ok (es @ [Remembered strm frm packets]) sent (remember strm frm packets rt)"
proof -
  let ?parts = "data_parts packets" and ?es = "es @ [Remembered strm frm packets]"
  let ?s = "\<lparr>sd_stream = strm, sd_frame = frm, sd_parts = ?parts, sd_resends = replicate (length ?parts) 0\<rparr>"
  have rem: "remember strm frm packets rt = (if parts_bytes ?parts > MAX_STORED_BYTES then rt
      else evict (rt_frames rt @ [?s]) (rt_bytes rt + parts_bytes ?parts))"
    by (simp add: remember_def data_parts_def Let_def)
  obtain k where k: "rt_frames (evict (rt_frames rt @ [?s]) (rt_bytes rt + parts_bytes ?parts)) = drop k (rt_frames rt @ [?s])"
    using evict_suffix by blast
  have ok: "rt_ok (remember strm frm packets rt)"
    using assms by (intro remember_props(1)) (simp add: memory_ok_def)
  have stored: "\<forall>s\<in>set (rt_frames (remember strm frm packets rt)).
      \<exists>ps. Remembered (sd_stream s) (sd_frame s) ps \<in> set ?es \<and> sd_parts s = data_parts ps"
  proof
    fix s assume "s \<in> set (rt_frames (remember strm frm packets rt))"
    then have "s \<in> set (rt_frames rt) \<or> s = ?s"
      using k by (auto simp: rem dest: in_set_dropD split: if_splits)
    then show "\<exists>ps. Remembered (sd_stream s) (sd_frame s) ps \<in> set ?es \<and> sd_parts s = data_parts ps"
      using assms by (auto simp: memory_ok_def)
  qed
  have sends: "count_list (all_sent sent) part + memory_left part (remember strm frm packets rt)
      \<le> unat MAX_RESENDS * count_list (all_remembered ?es) part" for part
  proof -
    have "memory_left part (remember strm frm packets rt) \<le> memory_left part rt + unat MAX_RESENDS * count_list ?parts part"
      using sum_list_drop_le [of "\<lambda>s. sends_left part (sd_parts s) (sd_resends s)" k "rt_frames rt @ [?s]"]
      by (simp add: rem memory_left_def k sends_left_fresh)
    moreover have "count_list (all_remembered ?es) part = count_list (all_remembered es) part + count_list ?parts part"
      by (simp add: all_remembered_def)
    moreover have "count_list (all_sent sent) part + memory_left part rt \<le> unat MAX_RESENDS * count_list (all_remembered es) part"
      using assms unfolding memory_ok_def by blast
    ultimately show ?thesis
      by (simp only: add_mult_distrib2)
  qed
  have "\<forall>a\<in>set sent. answers_nack ?es a"
    using assms by (simp add: memory_ok_def answers_nack_more)
  then show ?thesis
    unfolding memory_ok_def using ok stored sends by blast
qed

lemma memory_ok_respond:
  assumes "memory_ok es sent rt" "respond strm frm frags rt = (out, rt')"
  shows "memory_ok (es @ [Nacked strm frm frags]) (sent @ [(strm, frm, frags, out)]) rt'"
proof (cases "position (\<lambda>s. sd_stream s = strm \<and> sd_frame s = frm) (rt_frames rt)")
  case None
  then have "out = []" "rt' = rt"
    using assms(2) by (auto simp: respond_def)
  with assms(1) show ?thesis
    by (auto simp: memory_ok_def all_sent_def all_remembered_def answers_nack_def intro: answers_nack_more)
next
  case (Some k)
  let ?s = "rt_frames rt ! k"
  have k: "k < length (rt_frames rt)" "sd_stream ?s = strm" "sd_frame ?s = frm"
    using position_Some [OF Some] by simp_all
  then have ok: "counts_ok ?s" and rt: "rt_ok rt"
    using assms(1) by (simp_all add: memory_ok_def rt_ok_def)
  obtain resends where r: "resend (sd_parts ?s) (sd_resends ?s) frags = (out, resends)"
    and rt': "rt' = rt\<lparr>rt_frames := (rt_frames rt)[k := ?s\<lparr>sd_resends := resends\<rparr>]\<rparr>"
    using assms(2) Some by (auto simp: respond_def Let_def split: prod.splits)
  note spent = resend_spends [OF _ _ r] 
  have sp: "length resends = length (sd_parts ?s)" "\<forall>c\<in>set resends. c \<le> MAX_RESENDS"
    "\<forall>p\<in>set out. \<exists>f\<in>set frags. unat f < length (sd_parts ?s) \<and> p = sd_parts ?s ! unat f"
    "count_list out part + sends_left part (sd_parts ?s) resends = sends_left part (sd_parts ?s) (sd_resends ?s)" for part
    using spent [of part] ok by (simp_all add: counts_ok_def)
  let ?s' = "?s\<lparr>sd_resends := resends\<rparr>"
  have "counts_ok ?s'"
    using sp(1,2) by (simp add: counts_ok_def)
  moreover have "map (\<lambda>s. parts_bytes (sd_parts s)) ((rt_frames rt)[k := ?s']) = map (\<lambda>s. parts_bytes (sd_parts s)) (rt_frames rt)"
    using k(1) by (simp add: map_update list_update_same_conv)
  ultimately have ok': "rt_ok rt'"
    using rt set_update_subset_insert [of "rt_frames rt" k ?s'] by (auto simp: rt_ok_def rt')
  have stored: "\<exists>packets. Remembered (sd_stream s) (sd_frame s) packets \<in> set es \<and> sd_parts s = data_parts packets"
    if "s \<in> set (rt_frames rt')" for s
  proof -
    have "s \<in> set (rt_frames rt) \<or> s = ?s'"
      using that set_update_subset_insert [of "rt_frames rt" k ?s'] by (auto simp: rt')
    moreover have "?s \<in> set (rt_frames rt)" using k(1) by simp
    ultimately show ?thesis
      using assms(1) unfolding memory_ok_def by fastforce
  qed
  obtain packets where packets: "Remembered strm frm packets \<in> set es" "sd_parts ?s = data_parts packets"
    using assms(1) k unfolding memory_ok_def by (metis nth_mem)
  have "answers_nack (es @ [Nacked strm frm frags]) (strm, frm, frags, out)"
    using sp(3) packets by (fastforce simp: answers_nack_def)
  moreover have "memory_left part rt = count_list out part + memory_left part rt'" for part
  proof -
    let ?f = "\<lambda>s. sends_left part (sd_parts s) (sd_resends s)"
    have "sum_list (map ?f (rt_frames rt')) = sum_list (map ?f (rt_frames rt)) + ?f ?s' - ?f ?s"
      using k(1) by (simp add: rt' map_update sum_list_update)
    moreover have "?f ?s \<le> sum_list (map ?f (rt_frames rt))"
      using k(1) by (intro member_le_sum_list) auto
    ultimately show ?thesis
      using sp(4) [of part] by (simp add: memory_left_def)
  qed
  moreover have "all_remembered (es @ [Nacked strm frm frags]) = all_remembered es"
    by (simp add: all_remembered_def)
  ultimately show ?thesis
    using assms(1) ok' stored by (fastforce simp: memory_ok_def all_sent_def add.assoc intro: answers_nack_more)
qed

lemma memory_run_ok: "memory_ok es (fst (memory_run es)) (snd (memory_run es))"
proof (induction es rule: rev_induct)
  case Nil
  then show ?case
    using rt_ok_new by (simp add: memory_run_def memory_ok_def all_sent_def memory_left_def retransmitter_new_def)
next
  case (snoc e es)
  obtain sent rt where run: "memory_run es = (sent, rt)" by fastforce
  then have step: "memory_run (es @ [e]) = memory_step e (sent, rt)"
    by (simp add: memory_run_def)
  show ?case
  proof (cases e)
    case (Remembered strm frm packets)
    with snoc run step show ?thesis by (simp add: memory_ok_remember)
  next
    case (Nacked strm frm frags)
    obtain out rt' where "respond strm frm frags rt = (out, rt')" by fastforce
    with Nacked snoc run step show ?thesis by (simp add: memory_ok_respond)
  qed
qed

section \<open>Deciding about waiting frames\<close>

definition nacks_ok :: "loss_detector \<Rightarrow> bool" where
  "nacks_ok ld \<longleftrightarrow> (\<forall>key s. ld_seen ld key = Some s \<longrightarrow> sn_nacks s \<le> MAX_NACKS)"

definition refreshes :: "u16 \<Rightarrow> feedback list \<Rightarrow> nat" where
  "refreshes strm out = length (filter (\<lambda>f. case f of Refresh s _ \<Rightarrow> s = strm | _ \<Rightarrow> False) out)"

lemma refreshes_simps [simp]:
  "refreshes strm [] = 0" "refreshes strm (xs @ ys) = refreshes strm xs + refreshes strm ys"
  "refreshes strm [Refresh s f] = (if s = strm then 1 else 0)" "refreshes strm [Nack s f m] = 0"
  by (simp_all add: refreshes_def)

lemma poll_frame_props:
  assumes "poll_frame now t w (ld, ra, out) = (ld', ra', out')" "nacks_ok ld"
  shows "nacks_ok ld'"
    and "0 < tm_refresh_gap_us t \<Longrightarrow> refreshes strm out \<le> 1 \<Longrightarrow>
      (0 < refreshes strm out \<longrightarrow> ld_last_refresh ld strm = Some now) \<Longrightarrow>
      refreshes strm out' \<le> 1 \<and> (0 < refreshes strm out' \<longrightarrow> ld_last_refresh ld' strm = Some now)"
    and "(case ld_last_refresh ld strm of None \<Rightarrow> False
         | Some lst \<Rightarrow> saturating_sub now lst < tm_refresh_gap_us t) \<Longrightarrow>
      refreshes strm out' = refreshes strm out \<and> ld_last_refresh ld' strm = ld_last_refresh ld strm"
proof -
  have "n + 1 \<le> MAX_NACKS" if "n < MAX_NACKS" for n
    using that by (auto simp: MAX_NACKS_def word_less_nat_alt word_le_nat_alt unat_word_ariths)
  then show "nacks_ok ld'"
    using assms by (auto simp: poll_frame_def nacks_ok_def Let_def MAX_NACKS_def split: if_splits option.splits)
  show "refreshes strm out' \<le> 1 \<and> (0 < refreshes strm out' \<longrightarrow> ld_last_refresh ld' strm = Some now)"
    if "0 < tm_refresh_gap_us t" "refreshes strm out \<le> 1"
      "0 < refreshes strm out \<longrightarrow> ld_last_refresh ld strm = Some now"
    using assms(1) that
    by (auto simp: poll_frame_def Let_def saturating_sub_def not_le split: if_splits option.splits)
  show "refreshes strm out' = refreshes strm out \<and> ld_last_refresh ld' strm = ld_last_refresh ld strm"
    if "case ld_last_refresh ld strm of None \<Rightarrow> False | Some lst \<Rightarrow> saturating_sub now lst < tm_refresh_gap_us t"
    using assms(1) that
    by (auto simp: poll_frame_def Let_def not_le split: if_splits option.splits)
qed

lemma poll_fold_props:
  assumes "nacks_ok ld" "fold (poll_frame now t) ws (ld, ra, out) = (ld', ra', out')"
  shows "nacks_ok ld'"
    and "0 < tm_refresh_gap_us t \<Longrightarrow> refreshes strm out \<le> 1 \<Longrightarrow>
      (0 < refreshes strm out \<longrightarrow> ld_last_refresh ld strm = Some now) \<Longrightarrow> refreshes strm out' \<le> 1"
    and "(case ld_last_refresh ld strm of None \<Rightarrow> False
         | Some lst \<Rightarrow> saturating_sub now lst < tm_refresh_gap_us t) \<Longrightarrow> refreshes strm out' = refreshes strm out"
proof -
  have "nacks_ok ld'
    \<and> (0 < tm_refresh_gap_us t \<longrightarrow> refreshes strm out \<le> 1 \<longrightarrow>
        (0 < refreshes strm out \<longrightarrow> ld_last_refresh ld strm = Some now) \<longrightarrow> refreshes strm out' \<le> 1)
    \<and> ((case ld_last_refresh ld strm of None \<Rightarrow> False
         | Some lst \<Rightarrow> saturating_sub now lst < tm_refresh_gap_us t) \<longrightarrow> refreshes strm out' = refreshes strm out)"
    using assms
  proof (induction ws arbitrary: ld ra out)
    case (Cons w ws)
    obtain ld1 ra1 out1 where step: "poll_frame now t w (ld, ra, out) = (ld1, ra1, out1)"
      by (cases "poll_frame now t w (ld, ra, out)") auto
    note p1 = poll_frame_props(1) [OF step Cons.prems(1)]
    note p23 = poll_frame_props(2,3) [OF step Cons.prems(1), where strm = strm]
    have rest: "fold (poll_frame now t) ws (ld1, ra1, out1) = (ld', ra', out')"
      using Cons.prems(2) step by simp
    show ?case
      using Cons.IH [OF p1 rest] p23 by fastforce
  qed simp
  then show "nacks_ok ld'"
    and "0 < tm_refresh_gap_us t \<Longrightarrow> refreshes strm out \<le> 1 \<Longrightarrow>
      (0 < refreshes strm out \<longrightarrow> ld_last_refresh ld strm = Some now) \<Longrightarrow> refreshes strm out' \<le> 1"
    and "(case ld_last_refresh ld strm of None \<Rightarrow> False
         | Some lst \<Rightarrow> saturating_sub now lst < tm_refresh_gap_us t) \<Longrightarrow> refreshes strm out' = refreshes strm out"
    by simp_all
qed

section \<open>Properties\<close>

text \<open>
  The feedback format: refresh requests and reports read back as they were, and a NACK for at most
  4,096 different fragments reads back as a prefix of the sorted list of them, all of it when they form at
  most 64 runs.
\<close>

theorem feedback_round_trip:
  "feedback_decode (feedback_encode (Refresh strm frm)) = Some (Refresh strm frm)
   \<and> feedback_decode (feedback_encode (Report sent lost)) = Some (Report sent lost)
   \<and> (length (remdups_adj (sort frags)) \<le> MAX_NACK_FRAGMENTS \<longrightarrow>
       (\<exists>n. feedback_decode (feedback_encode (Nack strm frm frags))
              = Some (Nack strm frm (take n (remdups_adj (sort frags))))
          \<and> (length (nack_ranges frags) \<le> MAX_RANGES \<longrightarrow> length (remdups_adj (sort frags)) \<le> n)))"
proof (intro conjI impI)
  let ?sorted = "remdups_adj (sort frags)"
  let ?xs = "concat (map expand (take MAX_RANGES (nack_ranges frags)))"
  assume n: "length ?sorted \<le> MAX_NACK_FRAGMENTS"
  then have small: "length ?sorted \<le> 65535"
    by (simp add: MAX_NACK_FRAGMENTS_def)
  have "?xs @ concat (map expand (drop MAX_RANGES (nack_ranges frags))) = ?sorted"
    unfolding concat_append [symmetric] map_append [symmetric] append_take_drop_id
    by (rule nack_ranges_expand(1) [OF small])
  then have xs: "?xs = take (length ?xs) ?sorted" "length ?xs \<le> length ?sorted"
    by (metis append_eq_conv_conj, metis length_append le_add1)
  have "length ?sorted \<le> length ?xs" if "length (nack_ranges frags) \<le> MAX_RANGES"
    using that nack_ranges_expand(1) [OF small] by simp
  moreover have "feedback_decode (feedback_encode (Nack strm frm frags)) = Some (Nack strm frm ?xs)"
    using nack_decode_exact [OF small] xs(2) n by (simp add: Let_def del: feedback_encode.simps)
  ultimately show "\<exists>n. feedback_decode (feedback_encode (Nack strm frm frags))
      = Some (Nack strm frm (take n ?sorted))
      \<and> (length (nack_ranges frags) \<le> MAX_RANGES \<longrightarrow> length ?sorted \<le> n)"
    using xs(1) by metis
qed (rule refresh_decode report_decode)+

theorem feedback_round_trip_witness:
  "feedback_decode (feedback_encode (Nack 1 7 [5, 3, 4, 9, 3])) = Some (Nack 1 7 [3, 4, 5, 9])"
proof -
  have s: "remdups_adj (sort [5, 3, 4, 9, 3 :: u16]) = [3, 4, 5, 9]"
    by (simp add: sort_key_def)
  have "length (nack_ranges [5, 3, 4, 9, 3]) \<le> MAX_RANGES"
    unfolding nack_ranges_def s by (simp add: extend_ranges_def MAX_RANGES_def)
  then show ?thesis
    using feedback_round_trip [where strm = 1 and frm = 7 and frags = "[5, 3, 4, 9, 3]" and sent = 0 and lost = 0]
    unfolding s by (auto simp: MAX_NACK_FRAGMENTS_def simp del: feedback_encode.simps)
qed

text \<open>
  C34. The sender's memory is bounded and so is what it sends again: through any sequence of frames remembered and
  NACKs answered, for whatever frames and fragments, the fragments held come to the counted bytes and at most 8 MiB;
  every answer holds only data fragments that its NACK names, of a frame that was remembered under the stream and the
  number it names; and each fragment is sent again at most twice for each time it was remembered.
\<close>

theorem resends_bounded:
  assumes "memory_run es = (sent, rt)"
  shows "rt_bytes rt = held_bytes rt \<and> held_bytes rt \<le> MAX_STORED_BYTES
    \<and> (\<forall>(strm, frm, frags, out)\<in>set sent. \<forall>part\<in>set out. \<exists>packets. Remembered strm frm packets \<in> set es
         \<and> (\<exists>f\<in>set frags. unat f < length (data_parts packets) \<and> part = data_parts packets ! unat f))
    \<and> (\<forall>part. count_list (all_sent sent) part \<le> unat MAX_RESENDS * count_list (all_remembered es) part)"
proof -
  have ok: "memory_ok es sent rt"
    using memory_run_ok [of es] assms by simp
  then have "rt_bytes rt = held_bytes rt" "held_bytes rt \<le> MAX_STORED_BYTES"
    by (simp_all add: memory_ok_def rt_ok_def held_bytes_def parts_bytes_def)
  moreover have "count_list (all_sent sent) part \<le> unat MAX_RESENDS * count_list (all_remembered es) part" for part
    using ok unfolding memory_ok_def by (metis add_leD1)
  ultimately show ?thesis
    using ok by (auto simp: memory_ok_def answers_nack_def)
qed

text \<open>Two frames are remembered; three NACKs ask for the first, and one for a fragment the second has not.\<close>

definition frag_of :: "u32 \<Rightarrow> u16 \<Rightarrow> header \<times> bytes" where
  "frag_of frm i = (\<lparr>flags = 0, stream = 1, frame = frm, fragment = i, fragments = 2, packet = 0, sent_us = 0\<rparr>, [ucast i])"

definition nacked_twice :: "memory_event list" where
  "nacked_twice = [Remembered 1 7 [frag_of 7 0, frag_of 7 1], Remembered 1 8 [frag_of 8 0],
     Nacked 1 7 [1, 0], Nacked 1 7 [1, 1], Nacked 1 8 [1], Nacked 1 7 [1]]"

theorem resends_bounded_witness:
  "\<exists>sent rt. memory_run nacked_twice = (sent, rt)
    \<and> sent = [(1, 7, [1, 0], [frag_of 7 1, frag_of 7 0]), (1, 7, [1, 1], [frag_of 7 1]), (1, 8, [1], []), (1, 7, [1], [])]
    \<and> rt_bytes rt = 3 \<and> held_bytes rt \<le> MAX_STORED_BYTES
    \<and> count_list (all_sent sent) (frag_of 7 1) \<le> unat MAX_RESENDS * count_list (all_remembered nacked_twice) (frag_of 7 1)"
proof -
  have plain: "\<not> is_parity (fst (frag_of f i))" "length (snd (frag_of f i)) = 1" for f i
    by (simp_all add: frag_of_def is_parity_def)
  have parts: "filter (\<lambda>(h, p). \<not> is_parity h) [frag_of 7 0, frag_of 7 1] = [frag_of 7 0, frag_of 7 1]"
    "filter (\<lambda>(h, p). \<not> is_parity h) [frag_of 8 0] = [frag_of 8 0]"
    using plain by (simp_all add: split_beta)
  obtain sent rt where run: "memory_run nacked_twice = (sent, rt)" by fastforce
  then have "sent = [(1, 7, [1, 0], [frag_of 7 1, frag_of 7 0]), (1, 7, [1, 1], [frag_of 7 1]), (1, 8, [1], []), (1, 7, [1], [])]"
    "rt_bytes rt = 3"
    using plain
    by (auto simp: memory_run_def nacked_twice_def retransmitter_new_def remember_def parts Let_def parts_bytes_def split_beta
        MAX_STORED_BYTES_def respond_def MAX_RESENDS_def)
  with resends_bounded [OF run] run show ?thesis by blast
qed

text \<open>
  The receiver asks sparingly: a poll never brings the count of NACKs of a waiting frame above two, asks
  for at most one refresh per stream, and for none while the stream's last one is younger than the gap.
\<close>

theorem poll_asks_sparingly:
  assumes "\<forall>key s. ld_seen ld key = Some s \<longrightarrow> sn_nacks s \<le> MAX_NACKS" "0 < tm_refresh_gap_us t"
    and "poll order now t (ld, ra) = (out, ld', ra')"
  shows "(\<forall>key s. ld_seen ld' key = Some s \<longrightarrow> sn_nacks s \<le> MAX_NACKS)
    \<and> refreshes strm out \<le> 1
    \<and> (case ld_last_refresh ld strm of None \<Rightarrow> True
       | Some lst \<Rightarrow> saturating_sub now lst < tm_refresh_gap_us t \<longrightarrow> refreshes strm out = 0)"
proof -
  let ?ws = "incomplete order ra"
  let ?ld = "ld\<lparr>ld_seen := (\<lambda>key. if key \<in> set (map (\<lambda>w. (in_stream w, in_frame w)) ?ws)
                                   then ld_seen ld key else None)\<rparr>"
  have "nacks_ok ?ld"
    using assms(1) by (simp add: nacks_ok_def)
  moreover have "fold (poll_frame now t) ?ws (?ld, ra, []) = (ld', ra', out)"
    using assms(3) by (simp add: poll_def Let_def split: prod.splits)
  ultimately show ?thesis
    using poll_fold_props(1) [of ?ld now t ?ws ra "[]" ld' ra' out]
      poll_fold_props(2,3) [of ?ld now t ?ws ra "[]" ld' ra' out, where strm = strm] assms(2)
    by (auto simp: nacks_ok_def split: option.splits)
qed

theorem poll_asks_sparingly_witness:
  "let t = \<lparr>tm_rtt_us = 10, tm_hold_us = 5, tm_deadline_us = 100, tm_refresh_gap_us = 50\<rparr>;
       ra = reassembler_new\<lparr>ra_streams := [1 \<mapsto> \<lparr>st_last = None, st_pending = [pending_new 7 0 2]\<rparr>]\<rparr>;
       ld = loss_detector_new\<lparr>ld_seen := [(1, 7) \<mapsto> \<lparr>sn_first_us = 0, sn_nacks = 2, sn_last_nack_us = 40\<rparr>]\<rparr>
   in case poll [1] 1000 t (ld, ra) of (out, ld', ra') \<Rightarrow> out = [Refresh 1 7] \<and> refreshes 1 out \<le> 1"
proof -
  let ?t = "\<lparr>tm_rtt_us = 10, tm_hold_us = 5, tm_deadline_us = 100, tm_refresh_gap_us = 50\<rparr>"
  let ?ra = "reassembler_new\<lparr>ra_streams := [1 \<mapsto> \<lparr>st_last = None, st_pending = [pending_new 7 0 2]\<rparr>]\<rparr>"
  let ?ld = "loss_detector_new\<lparr>ld_seen := [(1, 7) \<mapsto> \<lparr>sn_first_us = 0, sn_nacks = 2, sn_last_nack_us = 40\<rparr>]\<rparr>"
  obtain out ld' ra' where p: "poll [1] 1000 ?t (?ld, ?ra) = (out, ld', ra')"
    by (cases "poll [1] 1000 ?t (?ld, ?ra)") auto
  then have "out = [Refresh 1 7]"
    by (auto simp: poll_def incomplete_def poll_frame_def loss_detector_new_def reassembler_new_def
        pending_new_def saturating_sub_def Let_def)
  then show ?thesis
    using poll_asks_sparingly [OF _ _ p, of 1] p by (simp add: loss_detector_new_def MAX_NACKS_def)
qed

lemma one_run:
  "n < 65535 \<Longrightarrow> foldl extend_ranges [] (map of_nat [0..<Suc n]) = [(0, of_nat (Suc n))]"
proof (induction n)
  case 0
  then show ?case
    by (simp add: extend_ranges_def)
next
  case (Suc n)
  have "unat (of_nat (Suc n) :: u16) = Suc n"
    using Suc.prems by (intro unat_of_nat_small) simp
  then show ?case
    using Suc by (simp add: extend_ranges_def add.commute)
qed

text \<open>
  A NACK for more than 4,096 consecutive fragments is written but never read: the encoder bounds the
  number of runs and not the number of fragments, so the sender ignores the whole message and nothing of it
  is resent.
\<close>

theorem large_nack_is_ignored:
  assumes "MAX_NACK_FRAGMENTS < n" "n < 65536"
  shows "feedback_decode (feedback_encode (Nack strm frm (map of_nat [0..<n]))) = None"
proof -
  let ?fs = "map of_nat [0..<n] :: u16 list"
  have n: "unat (of_nat i :: u16) = i" if "i \<le> n" for i
    using that assms(2) by (intro unat_of_nat_small) simp
  have "sorted ?fs"
    unfolding sorted_iff_nth_mono by (simp add: word_le_nat_alt n)
  moreover have "distinct ?fs"
    unfolding distinct_map by (auto intro!: inj_onI dest: arg_cong [where f = unat] simp: n)
  ultimately have fs: "remdups_adj (sort ?fs) = ?fs"
    by (simp add: sorted_sort_id remdups_adj_distinct)
  obtain m where m: "n = Suc m"
    using assms(1) by (cases n) auto
  have "nack_ranges ?fs = foldl extend_ranges [] ?fs"
    by (simp only: nack_ranges_def fs)
  also have "\<dots> = [(0, of_nat n)]"
    using one_run [of m] assms(2) m by simp
  finally have "nack_ranges ?fs = [(0, of_nat n)]" .
  then have "length (concat (map expand (take MAX_RANGES (nack_ranges ?fs)))) = n"
    using n [of n] by (simp add: MAX_RANGES_def)
  then show ?thesis
    using nack_decode_exact [of ?fs strm frm] assms unfolding fs
    by (simp add: Let_def del: feedback_encode.simps)
qed

theorem large_nack_is_ignored_witness:
  "feedback_decode (feedback_encode (Nack 1 7 (map of_nat [0..<5000]))) = None"
  by (rule large_nack_is_ignored) (simp_all add: MAX_NACK_FRAGMENTS_def)

section \<open>The first report of an opener\<close>

lemma replay_accept_accepted: "rw_accepted (replay_accept w p) = rw_accepted w + 1"
  by (simp add: replay_accept_def replay_set_def replay_shift_def Let_def split: option.split)

lemma open_all_replay:
  assumes "replay_rel (open_replay opener) S"
  shows "replay_rel (open_replay (snd (open_all decrypt opener ds)))
      (S \<union> (\<lambda>hp. packet (fst hp)) ` set (oks (fst (open_all decrypt opener ds))))
    \<and> rw_accepted (open_replay (snd (open_all decrypt opener ds)))
      = rw_accepted (open_replay opener) + of_nat (length (oks (fst (open_all decrypt opener ds))))"
  using assms
proof (induction ds arbitrary: opener S)
  case (Cons d ds)
  obtain r opener' where r: "open_datagram decrypt opener d = (r, opener')"
    by (cases "open_datagram decrypt opener d")
  have eq: "snd (open_all decrypt opener (d # ds)) = snd (open_all decrypt opener' ds)"
    "fst (open_all decrypt opener (d # ds)) = r # fst (open_all decrypt opener' ds)"
    using r by (simp_all add: Let_def split_beta)
  show ?case
  proof (cases r)
    case (Inl e)
    then show ?thesis
      using Cons open_datagram_Inl [of decrypt opener d e opener'] r unfolding eq by simp
  next
    case (Inr hp)
    have o: "opener' = opener\<lparr>open_replay := replay_accept (open_replay opener) (packet (fst hp))\<rparr>"
      using open_datagram_Inr [of decrypt opener d "fst hp" "snd hp" opener'] r Inr by simp
    then have "replay_rel (open_replay opener') (insert (packet (fst hp)) S)"
      using replay_accept_rel [OF Cons.prems] by simp
    from Cons.IH [OF this] show ?thesis
      unfolding eq by (simp add: Inr o replay_accept_accepted)
  qed
qed simp

text \<open>
  The first loss report of a connection counts exactly: after any datagrams reached a fresh opener, it
  reports as many packets sent as the highest delivered number says, and as lost exactly the numbers up to
  it that were not delivered.
\<close>

theorem first_report_exact:
  assumes "open_all decrypt (opener_new key) ds = (rs, opener)"
    and "P = (\<lambda>(h, plain). packet h) ` set (oks rs)" "P \<noteq> {}" "\<forall>p\<in>P. unat p < 2 ^ 32 - 1"
  shows "\<exists>sent lost. fst (sample opener loss_meter_new) = Some (Report sent lost)
    \<and> unat sent = Max (unat ` P) + 1 \<and> unat lost = card ({..Max (unat ` P)} - unat ` P)"
proof -
  have P: "P = (\<lambda>hp. packet (fst hp)) ` set (oks rs)"
    using assms(2) by (simp add: case_prod_unfold)
  have rel: "replay_rel (open_replay opener) P" "rw_accepted (open_replay opener) = of_nat (length (oks rs))"
    using open_all_replay [of "opener_new key" "{}" decrypt ds] replay_rel_new assms(1)
    by (simp_all add: P opener_new_def replay_new_def)
  obtain h where h: "rw_highest (open_replay opener) = Some h" "h \<in> P" "\<forall>p\<in>P. p \<le> h"
    using rel(1) assms(3) by (auto simp: replay_rel_def split: option.splits)
  have finite: "finite P"
    by (simp add: P)
  have max: "Max (unat ` P) = unat h"
    using h(2,3) finite by (intro Max_eqI) (auto simp: word_le_nat_alt)
  have sub: "unat ` P \<subseteq> {..unat h}"
    using h(3) by (auto simp: word_le_nat_alt)
  have small: "unat h < 2 ^ 32 - 1"
    using assms(4) h(2) by blast
  have "distinct (map (packet \<circ> fst) (oks rs))"
    using open_all_once [of "opener_new key" "{}" decrypt ds] replay_rel_new assms(1) by (simp add: opener_new_def)
  then have "length (oks rs) = card P"
    using distinct_card [of "map (packet \<circ> fst) (oks rs)"] by (simp add: P comp_def)
  also have "\<dots> = card (unat ` P)"
    by (rule card_image [symmetric]) (auto intro: inj_onI simp: word_unat_eq_iff)
  finally have len: "length (oks rs) = card (unat ` P)" .
  have le: "card (unat ` P) \<le> unat h + 1"
    using card_mono [OF _ sub] by simp
  have sent: "unat (h + 1) = unat h + 1"
    using small by (simp add: unat_word_ariths)
  have acc: "unat (rw_accepted (open_replay opener)) = card (unat ` P)"
    using rel(2) len le small by (simp add: unat_of_nat take_bit_eq_mod)
  have lost: "unat (saturating_sub (h + 1) (rw_accepted (open_replay opener))) = unat h + 1 - card (unat ` P)"
    using le sent acc by (auto simp: saturating_sub_def word_less_nat_alt unat_sub_if_size word_size)
  have "min (h + 1) 0xffffffff = h + 1"
    using sent small by (simp add: min_def word_le_nat_alt)
  moreover have "h + 1 \<noteq> 0"
    using sent by auto
  moreover have "saturating_sub (rw_accepted (open_replay opener)) 0 = rw_accepted (open_replay opener)"
    by (simp add: saturating_sub_def)
  ultimately have "fst (sample opener loss_meter_new) = Some (Report (ucast (h + 1))
      (ucast (saturating_sub (h + 1) (rw_accepted (open_replay opener)))))"
    using h(1) by (simp add: sample_def open_stats_def loss_meter_new_def Let_def)
  moreover have "unat (ucast x :: u32) = unat x" if "unat x < 2 ^ 32" for x :: u64
    using that by (simp add: unsigned_ucast_eq take_bit_eq_mod)
  moreover have "card ({..unat h} - unat ` P) = unat h + 1 - card (unat ` P)"
    using sub by (simp add: card_Diff_subset finite_subset)
  ultimately show ?thesis
    using sent lost small by (simp add: max)
qed

theorem first_report_exact_witness:
  "let h = \<lparr>flags = 0, stream = 1, frame = 7, fragment = 0, fragments = 1, packet = 0, sent_us = 0\<rparr>;
       d = header_encode h @ replicate 16 0
   in \<exists>opener. open_all plain_decrypt (opener_new ()) [d, d] = ([Inr (h, []), Inl OReplay], opener)
      \<and> fst (sample opener loss_meter_new) = Some (Report 1 0)"
proof -
  let ?h = "\<lparr>flags = 0, stream = 1, frame = 7, fragment = 0, fragments = 1, packet = 0, sent_us = 0\<rparr>"
  let ?d = "header_encode ?h @ replicate 16 0"
  have dec: "header_decode ?d = Inr ?h"
    by (rule header_decode_encode_append) (simp add: header_valid_def)
  have open1: "open_datagram plain_decrypt (opener_new ()) ?d
      = (Inr (?h, []), (opener_new ())\<lparr>open_replay := replay_accept replay_new 0\<rparr>)"
    by (simp add: open_datagram_def dec const_simps opener_new_def plain_decrypt_def replay_check_def replay_new_def)
  have "\<not> replay_check (replay_accept replay_new 0) 0"
    using replay_check_fresh [OF replay_accept_rel [OF replay_rel_new], of 0 0] by (simp add: fresh_def)
  then have open2: "open_datagram plain_decrypt ((opener_new ())\<lparr>open_replay := replay_accept replay_new 0\<rparr>) ?d
      = (Inl OReplay, (opener_new ())\<lparr>open_replay := replay_accept replay_new 0\<rparr>)"
    by (simp add: open_datagram_def dec const_simps)
  have run: "open_all plain_decrypt (opener_new ()) [?d, ?d]
      = ([Inr (?h, []), Inl OReplay], (opener_new ())\<lparr>open_replay := replay_accept replay_new 0\<rparr>)"
    by (simp add: open1 open2)
  from first_report_exact [OF run refl] show ?thesis
    unfolding Let_def run by (auto simp: word_unat_eq_iff)
qed

end
