(* ===== verification/Host_Control.thy ===== *)
theory Host_Control
  imports Accounts
begin

text \<open>
  Who gets in at a host (\<open>host-core/src/lib.rs\<close>): the pairing PIN with its lockout, the throttle on
  failed sign-ins, the gate that checks a sign-in, and the part of \<open>HostControl\<close> that decides which
  devices may resume and what a session may do. Times are microseconds of the monotonic clock.
  Logging is left out.
\<close>

section \<open>The pairing PIN\<close>

definition MAX_PAIRING_FAILURES :: nat where "MAX_PAIRING_FAILURES = 3"
definition MAX_SIGN_IN_FAILURES :: nat where "MAX_SIGN_IN_FAILURES = 5"
definition SIGN_IN_LOCKOUT :: nat where "SIGN_IN_LOCKOUT = 60 * 1000000"

text \<open>\<open>pr_timers\<close> counts the tasks \<open>failed\<close> has spawned that still sleep.\<close>

record pairing =
  pr_pin :: "rstr option"
  pr_failures :: nat
  pr_timers :: nat

text \<open>
  The random PINs are arguments. Putting a PIN up, or taking it away, and clearing the counter is one step here; the
  code clears the counter right after it has released the PIN, so a failure counted between the two is forgotten.
\<close>

definition pairing_new :: "bool \<Rightarrow> rstr \<Rightarrow> pairing" where
  "pairing_new opened pin = \<lparr>pr_pin = (if opened then Some pin else None), pr_failures = 0, pr_timers = 0\<rparr>"

definition pairing_reopen :: "rstr \<Rightarrow> pairing \<Rightarrow> pairing" where
  "pairing_reopen pin s = s\<lparr>pr_pin := Some pin, pr_failures := 0\<rparr>"

definition pairing_paired :: "pairing \<Rightarrow> pairing" where
  "pairing_paired s = s\<lparr>pr_pin := None, pr_failures := 0\<rparr>"

definition pairing_failed :: "pairing \<Rightarrow> pairing" where
  "pairing_failed s =
     (if pr_pin s = None then s
      else let failures = pr_failures s + 1; s = s\<lparr>pr_failures := failures\<rparr>
           in if failures < MAX_PAIRING_FAILURES then s
              else s\<lparr>pr_pin := None, pr_timers := pr_timers s + 1\<rparr>)"

text \<open>The end of a spawned task's sleep.\<close>

definition pairing_timer :: "rstr \<Rightarrow> pairing \<Rightarrow> pairing" where
  "pairing_timer pin s = s\<lparr>pr_pin := Some pin, pr_failures := 0, pr_timers := pr_timers s - 1\<rparr>"

datatype pairing_event = Reopened rstr | PairedOrClosed | AttemptFailed | TimerFired rstr

inductive pairing_step :: "pairing \<Rightarrow> pairing_event \<Rightarrow> pairing \<Rightarrow> bool" where
  "pairing_step s (Reopened pin) (pairing_reopen pin s)"
| "pairing_step s PairedOrClosed (pairing_paired s)"
| "pairing_step s AttemptFailed (pairing_failed s)"
| "0 < pr_timers s \<Longrightarrow> pairing_step s (TimerFired pin) (pairing_timer pin s)"

inductive_simps pairing_step_simps:
  "pairing_step s (Reopened pin) s'" "pairing_step s PairedOrClosed s'"
  "pairing_step s AttemptFailed s'" "pairing_step s (TimerFired pin) s'"

inductive pairing_run :: "pairing \<Rightarrow> pairing_event list \<Rightarrow> pairing \<Rightarrow> bool" where
  pairing_nil: "pairing_run s [] s"
| pairing_snoc: "pairing_run s es t \<Longrightarrow> pairing_step t e u \<Longrightarrow> pairing_run s (es @ [e]) u"

text \<open>Failed attempts since the last event that put a PIN up or took it away.\<close>

definition issues :: "pairing_event \<Rightarrow> bool" where
  "issues e = (e \<noteq> AttemptFailed)"

definition recent_failures :: "pairing_event list \<Rightarrow> nat" where
  "recent_failures es = length (takeWhile (\<lambda>e. \<not> issues e) (rev es))"

lemma recent_failures_snoc:
  "recent_failures (es @ [e]) = (if e = AttemptFailed then Suc (recent_failures es) else 0)"
  by (simp add: recent_failures_def issues_def)

lemma pairing_run_fail: "pairing_run s es t \<Longrightarrow> pairing_run s (es @ [AttemptFailed]) (pairing_failed t)"
  by (rule pairing_snoc, assumption, rule pairing_step.intros)

lemma pairing_run_close: "pairing_run s es t \<Longrightarrow> pairing_run s (es @ [PairedOrClosed]) (pairing_paired t)"
  by (rule pairing_snoc, assumption, rule pairing_step.intros)

lemma pairing_counts:
  "pairing_run s es t \<Longrightarrow> s = pairing_new b pin \<Longrightarrow>
     (pr_pin t \<noteq> None \<longrightarrow> pr_failures t = recent_failures es \<and> recent_failures es < MAX_PAIRING_FAILURES)"
proof (induction rule: pairing_run.induct)
  case (pairing_nil s)
  then show ?case
    by (simp add: pairing_new_def recent_failures_def MAX_PAIRING_FAILURES_def)
next
  case (pairing_snoc s es t e u)
  then show ?case
    by (cases e) (auto simp: pairing_step_simps recent_failures_snoc pairing_reopen_def pairing_paired_def
        pairing_failed_def pairing_timer_def Let_def MAX_PAIRING_FAILURES_def split: if_splits)
qed

text \<open>
  C31. A PIN takes at most two wrong guesses: in every history of a host's pairing, while a PIN is on
  offer fewer than three attempts have failed since it was put up, and the third takes it away.
\<close>

theorem pin_guesses_bounded:
  assumes "pairing_run (pairing_new b pin) es s" "pr_pin s \<noteq> None"
  shows "recent_failures es < MAX_PAIRING_FAILURES
    \<and> (pr_pin (pairing_failed s) = None \<longleftrightarrow> recent_failures (es @ [AttemptFailed]) = MAX_PAIRING_FAILURES)"
  using pairing_counts [OF assms(1) refl] assms(2)
  by (auto simp: recent_failures_snoc pairing_failed_def Let_def)

theorem pin_guesses_bounded_witness:
  "recent_failures (([] @ [AttemptFailed]) @ [AttemptFailed]) < MAX_PAIRING_FAILURES
    \<and> (pr_pin (pairing_failed (pairing_failed (pairing_failed (pairing_new True [49])))) = None
        \<longleftrightarrow> recent_failures ((([] @ [AttemptFailed]) @ [AttemptFailed]) @ [AttemptFailed]) = MAX_PAIRING_FAILURES)"
proof -
  let ?s0 = "pairing_new True [49]"
  have "pairing_run ?s0 (([] @ [AttemptFailed]) @ [AttemptFailed]) (pairing_failed (pairing_failed ?s0))"
    by (intro pairing_run_fail pairing_nil)
  then show ?thesis
    by (rule pin_guesses_bounded)
       (simp add: pairing_new_def pairing_failed_def Let_def MAX_PAIRING_FAILURES_def)
qed

text \<open>
  Closing pairing does not keep it closed: after three failed attempts the host may close pairing,
  and the task that was to show the next PIN still shows one, so that unknown devices can pair again.
\<close>

theorem closed_pairing_reopens:
  "\<exists>es s. pairing_run (pairing_new True pin) (es @ [PairedOrClosed]) s \<and> pr_pin s = None
     \<and> pairing_step s (TimerFired pin') (pairing_timer pin' s) \<and> pr_pin (pairing_timer pin' s) = Some pin'"
proof -
  let ?f = pairing_failed and ?s0 = "pairing_new True pin"
  have "pairing_run ?s0 (((([] @ [AttemptFailed]) @ [AttemptFailed]) @ [AttemptFailed]) @ [PairedOrClosed])
      (pairing_paired (?f (?f (?f ?s0))))"
    by (intro pairing_run_close pairing_run_fail pairing_nil)
  moreover have "0 < pr_timers (pairing_paired (?f (?f (?f ?s0))))" "pr_pin (pairing_paired (?f (?f (?f ?s0)))) = None"
    by (simp_all add: pairing_new_def pairing_failed_def pairing_paired_def Let_def MAX_PAIRING_FAILURES_def)
  ultimately show ?thesis
    using pairing_step.intros(4) by (fastforce simp: pairing_timer_def)
qed

section \<open>The throttle on sign-ins\<close>

text \<open>The failures counted, since when, and until when sign-in is refused.\<close>

record throttle =
  th_count :: nat
  th_since :: "nat option"
  th_until :: "nat option"

definition throttle_new :: throttle where
  "throttle_new = \<lparr>th_count = 0, th_since = None, th_until = None\<rparr>"

definition throttle_locked :: "nat \<Rightarrow> throttle \<Rightarrow> bool" where
  "throttle_locked now s = (case th_until s of None \<Rightarrow> False | Some until \<Rightarrow> now < until)"

definition throttle_failed :: "nat \<Rightarrow> throttle \<Rightarrow> throttle" where
  "throttle_failed now s =
     (let s = (if (case th_since s of None \<Rightarrow> True | Some since \<Rightarrow> now - since > SIGN_IN_LOCKOUT)
               then s\<lparr>th_count := 0, th_since := Some now\<rparr> else s);
          s = s\<lparr>th_count := th_count s + 1\<rparr>
      in if MAX_SIGN_IN_FAILURES \<le> th_count s
         then s\<lparr>th_until := Some (now + SIGN_IN_LOCKOUT), th_count := 0, th_since := None\<rparr>
         else s)"

text \<open>
  \<open>Gate::check\<close> in its two halves. It begins by asking the throttle, without which nothing is looked up; the
  credential is then checked on a thread of its own while the signaling of other clients goes on, so
  checks run side by side; and it ends by taking the account, or by counting a refused credential or an account the
  policy does not admit as a failure. The state is the throttle with the checks that are running.
\<close>

type_synonym gate = "throttle \<times> (peer_id \<times> credential) list"

definition gate_begins :: "nat \<Rightarrow> peer_id \<Rightarrow> credential \<Rightarrow> gate \<Rightarrow> gate" where
  "gate_begins now client cred g = (if throttle_locked now (fst g) then g else (fst g, snd g @ [(client, cred)]))"

definition without_check :: "nat \<Rightarrow> 'a list \<Rightarrow> 'a list" where
  "without_check i cs = take i cs @ drop (Suc i) cs"

definition gate_ends ::
  "nat \<Rightarrow> (rstr \<Rightarrow> rstr) \<Rightarrow> rstr \<Rightarrow> (rstr \<Rightarrow> rstr \<Rightarrow> bool option) \<Rightarrow> 'l sources \<Rightarrow> 'l config \<Rightarrow> local_accounts \<Rightarrow>
     nat \<Rightarrow> gate \<Rightarrow> account option \<times> gate" where
  "gate_ends now lower os_name argon src c accs i g =
     (let rest = without_check i (snd g); refused = (None, throttle_failed now (fst g), rest)
      in case check_credential argon src c accs (snd (snd g ! i)) (fst (snd g ! i)) of
        Inl _ \<Rightarrow> refused
      | Inr a \<Rightarrow> if admits lower os_name c (Some a) then (Some a, fst g, rest) else refused)"

text \<open>
  What happens at the gate: a sign-in begins, a running check ends with the local accounts as it found them, or a check
  dies (its thread panicked, or its connection is gone), which is no failure.
\<close>

datatype gate_event =
    SignInBegins nat peer_id credential
  | SignInEnds nat nat local_accounts
  | SignInDies nat nat

fun event_time :: "gate_event \<Rightarrow> nat" where
  "event_time (SignInBegins now _ _) = now"
| "event_time (SignInEnds now _ _) = now"
| "event_time (SignInDies now _) = now"

fun gate_step ::
  "(rstr \<Rightarrow> rstr) \<Rightarrow> rstr \<Rightarrow> (rstr \<Rightarrow> rstr \<Rightarrow> bool option) \<Rightarrow> 'l sources \<Rightarrow> 'l config \<Rightarrow> gate_event \<Rightarrow> gate \<Rightarrow> nat list \<times> gate" where
  "gate_step lower os_name argon src c (SignInBegins now client cred) g = ([], gate_begins now client cred g)"
| "gate_step lower os_name argon src c (SignInEnds now i accs) g =
     (if i < length (snd g)
      then case gate_ends now lower os_name argon src c accs i g of (r, g') \<Rightarrow> (if r = None then [now] else [], g')
      else ([], g))"
| "gate_step lower os_name argon src c (SignInDies now i) g =
     (if i < length (snd g) then ([], fst g, without_check i (snd g)) else ([], g))"

text \<open>A history of events: the times at which a credential was refused, and the most checks that ran at one time.\<close>

fun gate_refusals ::
  "(rstr \<Rightarrow> rstr) \<Rightarrow> rstr \<Rightarrow> (rstr \<Rightarrow> rstr \<Rightarrow> bool option) \<Rightarrow> 'l sources \<Rightarrow> 'l config \<Rightarrow> gate_event list \<Rightarrow> gate \<Rightarrow> nat list" where
  "gate_refusals lower os_name argon src c [] g = []"
| "gate_refusals lower os_name argon src c (e # es) g =
     (case gate_step lower os_name argon src c e g of
        (ts, g') \<Rightarrow> ts @ gate_refusals lower os_name argon src c es g')"

fun most_running ::
  "(rstr \<Rightarrow> rstr) \<Rightarrow> rstr \<Rightarrow> (rstr \<Rightarrow> rstr \<Rightarrow> bool option) \<Rightarrow> 'l sources \<Rightarrow> 'l config \<Rightarrow> gate_event list \<Rightarrow> gate \<Rightarrow> nat" where
  "most_running lower os_name argon src c [] g = length (snd g)"
| "most_running lower os_name argon src c (e # es) g =
     max (length (snd g)) (most_running lower os_name argon src c es (snd (gate_step lower os_name argon src c e g)))"

text \<open>
  How many more refusals fit before the time \<open>a + SIGN_IN_LOCKOUT\<close>, with at most \<open>k\<close> checks beside each other: once the
  throttle is shut until then, only what is already running can still be refused.
\<close>

definition shut_for :: "nat \<Rightarrow> throttle \<Rightarrow> bool" where
  "shut_for a s = (case th_until s of None \<Rightarrow> False | Some until \<Rightarrow> a + SIGN_IN_LOCKOUT \<le> until)"

definition tries_left :: "nat \<Rightarrow> throttle \<Rightarrow> nat" where
  "tries_left a s =
     (case th_since s of
        None \<Rightarrow> MAX_SIGN_IN_FAILURES
      | Some since \<Rightarrow> (if a \<le> since then MAX_SIGN_IN_FAILURES else 2 * MAX_SIGN_IN_FAILURES - 1) - th_count s)"

definition room :: "nat \<Rightarrow> nat \<Rightarrow> gate \<Rightarrow> nat" where
  "room a k g = (if shut_for a (fst g) then length (snd g) else tries_left a (fst g) + (k - 1))"

definition throttle_ok :: "throttle \<Rightarrow> bool" where
  "throttle_ok s = (th_count s < MAX_SIGN_IN_FAILURES)"

lemma throttle_failed_ok: "throttle_ok s \<Longrightarrow> throttle_ok (throttle_failed now s)"
  by (auto simp: throttle_ok_def throttle_failed_def Let_def MAX_SIGN_IN_FAILURES_def)

lemma failed_stays_shut: "shut_for a s \<Longrightarrow> a \<le> now \<Longrightarrow> shut_for a (throttle_failed now s)"
  by (auto simp: shut_for_def throttle_failed_def Let_def split: option.splits)

lemma failed_takes_a_try:
  assumes "throttle_ok s" "a \<le> now" "now < a + SIGN_IN_LOCKOUT" "\<not> shut_for a (throttle_failed now s)"
  shows "tries_left a (throttle_failed now s) < tries_left a s"
  using assms
  by (cases s) (auto simp: throttle_ok_def throttle_failed_def tries_left_def shut_for_def Let_def
      MAX_SIGN_IN_FAILURES_def split: option.splits if_splits)

lemma tries_left_bounds: "throttle_ok s \<Longrightarrow> 0 < tries_left a s" "tries_left a s \<le> 2 * MAX_SIGN_IN_FAILURES - 1"
  by (auto simp: tries_left_def throttle_ok_def MAX_SIGN_IN_FAILURES_def split: option.splits)

lemma length_without_check: "i < length cs \<Longrightarrow> Suc (length (without_check i cs)) = length cs"
  by (simp add: without_check_def)

lemma room_refused:
  assumes "throttle_ok s" "a \<le> now" "now < a + SIGN_IN_LOCKOUT" "Suc (length rest) = length cs" "length cs \<le> k"
  shows "room a k (throttle_failed now s, rest) < room a k (s, cs)"
  using failed_takes_a_try [OF assms(1-3)] failed_stays_shut [of a s now] tries_left_bounds(1) [OF assms(1), of a] assms(2,4,5)
  by (auto simp: room_def)

lemma room_ended: "length rest \<le> length cs \<Longrightarrow> room a k (s, rest) \<le> room a k (s, cs)"
  by (simp add: room_def)

lemma room_begins:
  assumes "now < a + SIGN_IN_LOCKOUT"
  shows "room a k (gate_begins now client cred g) = room a k g"
  using assms by (auto simp: room_def gate_begins_def throttle_locked_def shut_for_def split: option.splits)

text \<open>One event inside the interval uses up as much room as it adds refusals.\<close>

lemma gate_step_room:
  assumes "throttle_ok (fst g)" "a \<le> event_time e" "event_time e < a + SIGN_IN_LOCKOUT" "length (snd g) \<le> k"
    and "gate_step lower os_name argon src c e g = (ts, g')"
  shows "length ts + room a k g' \<le> room a k g"
proof (cases e)
  case (SignInBegins now client cred)
  then show ?thesis using assms room_begins [of now a k client cred g] by auto
next
  case (SignInEnds now i accs)
  show ?thesis
  proof (cases "i < length (snd g)")
    case True
    then have "room a k (throttle_failed now (fst g), without_check i (snd g)) < room a k g"
      using room_refused [of "fst g" a now "without_check i (snd g)" "snd g" k] assms SignInEnds
      by (simp add: length_without_check)
    moreover have "room a k (fst g, without_check i (snd g)) \<le> room a k g"
      using room_ended [of "without_check i (snd g)" "snd g" a k "fst g"] length_without_check [OF True] by simp
    ultimately show ?thesis
      using assms(5) SignInEnds True by (auto simp: gate_ends_def Let_def split: sum.splits if_splits)
  qed (use assms SignInEnds in auto)
next
  case (SignInDies now i)
  then show ?thesis
    using assms(5) room_ended [of "without_check i (snd g)" "snd g" a k "fst g"] length_without_check [of i "snd g"]
    by (cases "i < length (snd g)") auto
qed

lemma gate_step_facts:
  assumes "gate_step lower os_name argon src c e g = (ts, g')"
  shows "set ts \<subseteq> {event_time e}" "throttle_ok (fst g) \<Longrightarrow> throttle_ok (fst g')"
  using assms by (cases e; auto simp: gate_begins_def gate_ends_def Let_def throttle_failed_ok split: sum.splits if_splits)+

lemma refusals_times: "set (gate_refusals lower os_name argon src c es g) \<subseteq> event_time ` set es"
proof (induction es arbitrary: g)
  case (Cons e es)
  obtain ts g' where "gate_step lower os_name argon src c e g = (ts, g')" by (rule prod.exhaust)
  then show ?case
    using gate_step_facts(1) [of lower os_name argon src c e g ts g'] Cons.IH [of g'] by auto
qed simp

lemma refusals_room:
  assumes "sorted (map event_time es)" "throttle_ok (fst g)" "\<forall>e\<in>set es. a \<le> event_time e"
    and "most_running lower os_name argon src c es g \<le> k"
  shows "length (filter (\<lambda>t. t < a + SIGN_IN_LOCKOUT) (gate_refusals lower os_name argon src c es g)) \<le> room a k g"
  using assms
proof (induction es arbitrary: g)
  case (Cons e es)
  obtain ts g' where g': "gate_step lower os_name argon src c e g = (ts, g')" by (rule prod.exhaust)
  note facts = gate_step_facts [OF g']
  show ?case
  proof (cases "event_time e < a + SIGN_IN_LOCKOUT")
    case True
    have "length (filter (\<lambda>t. t < a + SIGN_IN_LOCKOUT) (gate_refusals lower os_name argon src c es g')) \<le> room a k g'"
      using Cons g' facts by (intro Cons.IH) auto
    moreover have "length ts + room a k g' \<le> room a k g"
      using Cons.prems by (intro gate_step_room [OF _ _ True _ g']) auto
    ultimately show ?thesis
      using g' length_filter_le [of "\<lambda>t. t < a + SIGN_IN_LOCKOUT" ts] by (simp del: length_filter_le)
  next
    case False
    then have "t \<notin> set (gate_refusals lower os_name argon src c (e # es) g)" if "t < a + SIGN_IN_LOCKOUT" for t
      using that Cons.prems(1) refusals_times [of lower os_name argon src c "e # es" g] by fastforce
    then have "filter (\<lambda>t. t < a + SIGN_IN_LOCKOUT) (gate_refusals lower os_name argon src c (e # es) g) = []"
      unfolding filter_empty_conv by blast
    then show ?thesis by (simp del: gate_refusals.simps)
  qed
qed simp

lemma refusals_window:
  assumes "sorted (map event_time es)" "throttle_ok (fst g)"
  shows "length (filter (\<lambda>t. a \<le> t \<and> t < a + SIGN_IN_LOCKOUT) (gate_refusals lower os_name argon src c es g))
    \<le> 8 + max 1 (most_running lower os_name argon src c es g)"
  using assms
proof (induction es arbitrary: g)
  case (Cons e es)
  obtain ts g' where g': "gate_step lower os_name argon src c e g = (ts, g')" by (rule prod.exhaust)
  note facts = gate_step_facts [OF g']
  show ?case
  proof (cases "event_time e < a")
    case True
    then have "filter (\<lambda>t. a \<le> t \<and> t < a + SIGN_IN_LOCKOUT) ts = []"
      using facts(1) by (auto simp: filter_empty_conv)
    then show ?thesis
      using Cons.IH [of g'] Cons.prems facts(2) g' by auto
  next
    case False
    let ?k = "max 1 (most_running lower os_name argon src c (e # es) g)"
    have all: "\<forall>e'\<in>set (e # es). a \<le> event_time e'"
      using Cons.prems(1) False by auto
    have "length (filter (\<lambda>t. a \<le> t \<and> t < a + SIGN_IN_LOCKOUT) (gate_refusals lower os_name argon src c (e # es) g))
        = length (filter (\<lambda>t. t < a + SIGN_IN_LOCKOUT) (gate_refusals lower os_name argon src c (e # es) g))"
      using refusals_times [of lower os_name argon src c "e # es" g] all by (intro arg_cong [where f = length] filter_cong) auto
    also have "\<dots> \<le> room a ?k g"
      by (rule refusals_room [OF Cons.prems all]) simp
    also have "\<dots> \<le> 8 + ?k"
      using tries_left_bounds(2) [of a "fst g"] by (auto simp: room_def MAX_SIGN_IN_FAILURES_def)
    finally show ?thesis .
  qed
qed simp

text \<open>
  Checks that run at once all pass the throttle before the first of them fails, so a client with many
  connections has as many wrong tries at once, however many those are.
\<close>

lemma begins_at_once:
  assumes "\<not> throttle_locked now s"
  shows "gate_refusals lower os_name argon src c (replicate n (SignInBegins now client cred) @ es) (s, cs)
    = gate_refusals lower os_name argon src c es (s, cs @ replicate n (client, cred))"
  using assms by (induction n arbitrary: cs) (simp_all add: gate_begins_def)

lemma ends_at_once:
  assumes "check_credential argon src c accs cred client = Inl e"
  shows "gate_refusals lower os_name argon src c (replicate n (SignInEnds now 0 accs)) (s, replicate n (client, cred))
    = replicate n now"
  using assms by (induction n arbitrary: s) (simp_all add: gate_ends_def without_check_def Let_def)

lemma many_guesses_at_once:
  assumes "check_credential argon src c accs cred client = Inl e"
  shows "gate_refusals lower os_name argon src c
      (replicate n (SignInBegins now client cred) @ replicate n (SignInEnds now 0 accs)) (throttle_new, []) = replicate n now"
  using begins_at_once [of now throttle_new lower os_name argon src c n client cred _ "[]"] ends_at_once [OF assms]
  by (simp add: throttle_locked_def throttle_new_def)

text \<open>
  C30. A password guesser gets at most nine tries in any minute, and one more for every further check that ran
  at the same time, whoever they try and from however many devices: of any history of sign-ins beginning, running side
  by side and ending, in the order of their times, at most eight refusals, and as many as checks ever ran at
  once, fall into one interval of the lockout's length.
\<close>

theorem guesses_per_minute:
  assumes "sorted (map event_time es)"
  shows "length (filter (\<lambda>t. a \<le> t \<and> t < a + SIGN_IN_LOCKOUT)
      (gate_refusals lower os_name argon src c es (throttle_new, [])))
    \<le> 8 + max 1 (most_running lower os_name argon src c es (throttle_new, []))"
  using refusals_window [OF assms, of "(throttle_new, [])"] by (simp add: throttle_ok_def throttle_new_def MAX_SIGN_IN_FAILURES_def)

theorem guesses_per_minute_witness:
  "length (filter (\<lambda>t. 0 \<le> t \<and> t < 0 + SIGN_IN_LOCKOUT)
      (gate_refusals ascii_lowercase [] plain_argon sample_sources sample_config
        (concat (map (\<lambda>t. [SignInBegins t [] (CrPassword [97] [98]), SignInEnds t 0 Map.empty]) [1..<13])) (throttle_new, []))) \<le> 8 + max 1
     (most_running ascii_lowercase [] plain_argon sample_sources sample_config
        (concat (map (\<lambda>t. [SignInBegins t [] (CrPassword [97] [98]), SignInEnds t 0 Map.empty]) [1..<13])) (throttle_new, []))"
  by (rule guesses_per_minute) (simp add: upt_rec)

end
