(* ===== verification/Host_Devices.thy ===== *)
theory Host_Devices
  imports Host_Control
begin

text \<open>
  Which devices may resume at a host and what their sessions may do: the part of \<open>HostControl\<close> and
  of \<open>Serving::open\<close> (\<open>host-core/src/lib.rs\<close>) that puts the trust list, the registrations, the
  accounts, the policy and the application's limits per device together.
\<close>

section \<open>The host's state\<close>

record 'l host =
  hc_accounts :: "('l config \<times> local_accounts) option"
  hc_registrations :: registrations
  hc_device_limits :: "peer_id \<rightharpoonup> rstr list"
  hc_trust :: trust_store
  hc_trust_file :: "rstr option"

definition account_of :: "u64 \<Rightarrow> peer_id \<Rightarrow> 'l host \<Rightarrow> account option" where
  "account_of now peer h =
     (case hc_accounts h of
        None \<Rightarrow> None
      | Some (c, accs) \<Rightarrow>
          (case reg_get now peer (hc_registrations h) of
             None \<Rightarrow> None
           | Some r \<Rightarrow>
               let a = rg_account r
               in if acc_provider a \<noteq> lit ''local'' \<or> account_active (acc_name a) accs then Some a else None))"

definition host_decision :: "(rstr \<Rightarrow> rstr) \<Rightarrow> rstr \<Rightarrow> u64 \<Rightarrow> peer_id \<Rightarrow> 'l host \<Rightarrow> decision" where
  "host_decision lower os_name now peer h =
     (let decided = (case hc_accounts h of
            Some (c, _) \<Rightarrow> accounts_decide lower os_name c (account_of now peer h)
          | None \<Rightarrow> decide lower \<lparr>rules = []\<rparr> None [])
      in case hc_device_limits h peer of
           Some globs \<Rightarrow> limited_to decided globs
         | None \<Rightarrow> decided)"

definition limit_device :: "peer_id \<Rightarrow> rstr list \<Rightarrow> 'l host \<Rightarrow> 'l host" where
  "limit_device peer globs h =
     h\<lparr>hc_device_limits := (hc_device_limits h)(peer := (if globs = [] then None else Some globs))\<rparr>"

definition unregister :: "file_write \<Rightarrow> u64 \<Rightarrow> peer_id \<Rightarrow> 'l host \<Rightarrow> bool \<times> 'l host" where
  "unregister wr now peer h =
     (let (written, rs) = reg_remove wr now peer (hc_registrations h) in (written, h\<lparr>hc_registrations := rs\<rparr>))"

definition registered :: "u64 \<Rightarrow> 'l host \<Rightarrow> peer_id set" where
  "registered now h = reg_active now (hc_registrations h)"

text \<open>An unreadable list leaves the one in memory; \<open>None\<close> is the panic of \<open>from_hex\<close>.\<close>

definition reload_trust :: "'l host \<Rightarrow> (trust_store \<times> 'l host) option" where
  "reload_trust h =
     (case trust_load (hc_trust_file h) of
        None \<Rightarrow> None
      | Some (Inl _) \<Rightarrow> Some (hc_trust h, h)
      | Some (Inr t) \<Rightarrow> Some (t, h\<lparr>hc_trust := t\<rparr>))"

definition admitted :: "(rstr \<Rightarrow> rstr) \<Rightarrow> rstr \<Rightarrow> u64 \<Rightarrow> 'l host \<Rightarrow> (trust_store \<times> 'l host) option" where
  "admitted lower os_name now h =
     (case reload_trust h of
        None \<Rightarrow> None
      | Some (trust, h) \<Rightarrow>
          let resumes = (if hc_accounts h = None then {} else registered now h)
          in Some (\<lparr>pinned =
               {p \<in> pinned trust. dn_allow (host_decision lower os_name now p h)} \<union>
               {p \<in> resumes. account_of now p h \<noteq> None \<and> dn_allow (host_decision lower os_name now p h)}\<rparr>, h))"

definition forget ::
  "(peer_id set \<Rightarrow> peer_id list) \<Rightarrow> bool \<times> bool \<Rightarrow> peer_id \<Rightarrow> 'l host \<Rightarrow>
     ((identity_error + unit) \<times> 'l host) option" where
  "forget order io peer h =
     (case trust_update order io (trust_revoke peer) (hc_trust_file h) of
        None \<Rightarrow> None
      | Some (Inl e, disk) \<Rightarrow> Some (Inl e, h\<lparr>hc_trust_file := disk\<rparr>)
      | Some (Inr t, disk) \<Rightarrow> Some (Inr (), h\<lparr>hc_trust := t, hc_trust_file := disk\<rparr>))"

definition pin_client ::
  "(peer_id set \<Rightarrow> peer_id list) \<Rightarrow> bool \<times> bool \<Rightarrow> peer_id \<Rightarrow> 'l host \<Rightarrow> 'l host option" where
  "pin_client order io peer h =
     (case trust_update order io (trust_pin peer) (hc_trust_file h) of
        None \<Rightarrow> None
      | Some (Inl e, disk) \<Rightarrow> Some (h\<lparr>hc_trust := trust_pin peer (hc_trust h), hc_trust_file := disk\<rparr>)
      | Some (Inr t, disk) \<Rightarrow> Some (h\<lparr>hc_trust := t, hc_trust_file := disk\<rparr>))"

section \<open>Opening a session\<close>

text \<open>What the handshake established.\<close>

record established =
  es_peer :: peer_id
  es_paired :: bool
  es_account :: "account option"

text \<open>
  \<open>Serving::open\<close> from the handshake's result to the account and the decision of the session. Registrations that
  cannot be saved are only logged.
\<close>

definition open_session ::
  "(rstr \<Rightarrow> rstr) \<Rightarrow> rstr \<Rightarrow> u64 \<Rightarrow> (peer_id set \<Rightarrow> peer_id list) \<Rightarrow> bool \<times> bool \<Rightarrow> file_write \<Rightarrow> established \<Rightarrow> 'l host \<Rightarrow>
     (account option \<times> decision \<times> 'l host) option" where
  "open_session lower os_name now order io wr est h =
     (case (if es_paired est then pin_client order io (es_peer est) h
            else Some (case es_account est of
                None \<Rightarrow> h
              | Some a \<Rightarrow>
                  let days = (case hc_accounts h of None \<Rightarrow> 0 | Some (c, _) \<Rightarrow> cf_registration_days c)
                  in h\<lparr>hc_registrations := snd (register wr now (es_peer est) a days (hc_registrations h))\<rparr>)) of
        None \<Rightarrow> None
      | Some h \<Rightarrow>
          let acc = (case es_account est of Some a \<Rightarrow> Some a | None \<Rightarrow> account_of now (es_peer est) h);
              dn = (case hc_accounts h of
                  Some (c, _) \<Rightarrow> accounts_decide lower os_name c acc
                | None \<Rightarrow> host_decision lower os_name now (es_peer est) h)
          in Some (acc, dn, h))"

text \<open>\<open>Host::window_allowed\<close>: \<open>windows\<close> is what the window source lists (id, app id, title).\<close>

definition session_window_allowed ::
  "(rstr \<Rightarrow> rstr) \<Rightarrow> (u64 \<times> rstr \<times> rstr) list \<Rightarrow> decision \<Rightarrow> u64 \<Rightarrow> bool" where
  "session_window_allowed lower windows dn window =
     (if dn_windows dn = [] \<and> dn_device_windows dn = [] then True
      else list_ex (\<lambda>(wid, app_id, title). wid = window \<and> window_allowed lower dn app_id title) windows)"

section \<open>Histories of registrations\<close>

text \<open>Each change of the registrations comes with what became of writing them.\<close>

datatype reg_event =
    EvRegister file_write u64 peer_id account u32
  | EvRemove file_write u64 peer_id
  | EvRemoveAccount file_write u64 rstr rstr
  | EvRestart bool

fun reg_step :: "reg_event \<Rightarrow> registrations \<Rightarrow> registrations" where
  "reg_step (EvRegister wr now p a days) rs = snd (register wr now p a days rs)"
| "reg_step (EvRemove wr now p) rs = snd (reg_remove wr now p rs)"
| "reg_step (EvRemoveAccount wr now name provider) rs = snd (reg_remove_account wr now name provider rs)"
| "reg_step (EvRestart readable) rs = reg_load readable rs"

definition reg_run :: "reg_event list \<Rightarrow> registrations" where
  "reg_run es = foldl (\<lambda>rs e. reg_step e rs) \<lparr>devices = Map.empty, saved = Map.empty\<rparr> es"

fun ends_registration :: "peer_id \<Rightarrow> account \<Rightarrow> reg_event \<Rightarrow> bool" where
  "ends_registration p a (EvRemove _ _ q) = (q = p)"
| "ends_registration p a (EvRemoveAccount _ _ name provider) = (acc_name a = name \<and> acc_provider a = provider)"
| "ends_registration p a _ = False"

text \<open>A change that left the file as it was.\<close>

fun left_file :: "reg_event \<Rightarrow> bool" where
  "left_file (EvRegister wr _ _ _ _) = (wr = NotOpened)"
| "left_file (EvRemove wr _ _) = (wr = NotOpened)"
| "left_file (EvRemoveAccount wr _ _ _) = (wr = NotOpened)"
| "left_file (EvRestart _) = True"

lemma to_hex_inject: "to_hex p = to_hex q \<longleftrightarrow> p = q"
proof
  assume eq: "to_hex p = to_hex q"
  then have "length p = length q"
    by (metis length_to_hex mult_cancel1 zero_neq_numeral)
  then show "p = q"
    using eq hex_bytes_to_hex by (metis option.inject sum.inject(2))
qed simp

text \<open>The sign-in behind a registration, with what was done since.\<close>

definition signed_in :: "reg_event list \<Rightarrow> rstr \<Rightarrow> registration \<Rightarrow> reg_event list \<Rightarrow> bool" where
  "signed_in es k r post = (\<exists>pre wr now p days. es = pre @ EvRegister wr now p (rg_account r) days # post
     \<and> k = to_hex p \<and> days \<noteq> 0 \<and> rg_expires r = now + ucast days * 86400)"

text \<open>What the file says was not removed in it; what the memory says was removed only by changes a restart undid.\<close>

definition on_file :: "peer_id \<Rightarrow> account \<Rightarrow> reg_event list \<Rightarrow> bool" where
  "on_file p a post = (\<forall>e\<in>set post. ends_registration p a e \<longrightarrow> left_file e)"

fun undone :: "peer_id \<Rightarrow> account \<Rightarrow> reg_event list \<Rightarrow> bool" where
  "undone p a [] = True"
| "undone p a (e # post) = ((ends_registration p a e \<longrightarrow> left_file e \<and> EvRestart True \<in> set post) \<and> undone p a post)"

lemma undone_on_file: "undone p a post \<Longrightarrow> on_file p a post"
  by (induction post) (auto simp: on_file_def)

lemma undone_snoc: "undone p a post \<Longrightarrow> \<not> ends_registration p a e \<Longrightarrow> undone p a (post @ [e])"
  by (induction post) auto

lemma undone_restart: "on_file p a post \<Longrightarrow> undone p a (post @ [EvRestart True])"
  by (induction post) (auto simp: on_file_def)

definition in_file :: "reg_event list \<Rightarrow> rstr \<Rightarrow> registration \<Rightarrow> bool" where
  "in_file es k r = (\<exists>post p. k = to_hex p \<and> signed_in es k r post \<and> on_file p (rg_account r) post)"

definition in_memory :: "reg_event list \<Rightarrow> rstr \<Rightarrow> registration \<Rightarrow> bool" where
  "in_memory es k r = (\<exists>post p. k = to_hex p \<and> signed_in es k r post \<and> undone p (rg_account r) post)"

lemma signed_in_snoc: "signed_in es k r post \<Longrightarrow> signed_in (es @ [e]) k r (post @ [e])"
  by (fastforce simp: signed_in_def)

lemma in_memory_in_file: "in_memory es k r \<Longrightarrow> in_file es k r"
  unfolding in_memory_def in_file_def by (blast intro: undone_on_file)

lemma in_memory_snoc:
  "in_memory es (to_hex p) r \<Longrightarrow> \<not> ends_registration p (rg_account r) e \<Longrightarrow> in_memory (es @ [e]) (to_hex p) r"
  unfolding in_memory_def by (metis to_hex_inject signed_in_snoc undone_snoc)

lemma in_file_snoc:
  "in_file es (to_hex p) r \<Longrightarrow> (ends_registration p (rg_account r) e \<longrightarrow> left_file e) \<Longrightarrow> in_file (es @ [e]) (to_hex p) r"
proof -
  assume "in_file es (to_hex p) r" and e: "ends_registration p (rg_account r) e \<longrightarrow> left_file e"
  then obtain post where "signed_in es (to_hex p) r post" "on_file p (rg_account r) post"
    unfolding in_file_def by (metis to_hex_inject)
  then have "signed_in (es @ [e]) (to_hex p) r (post @ [e])" "on_file p (rg_account r) (post @ [e])"
    using e by (auto simp: on_file_def intro: signed_in_snoc)
  then show ?thesis
    unfolding in_file_def by blast
qed

lemma in_file_restart: "in_file es k r \<Longrightarrow> in_memory (es @ [EvRestart True]) k r"
  unfolding in_file_def in_memory_def by (blast intro: signed_in_snoc undone_restart)

lemma in_file_key: "in_file es k r \<Longrightarrow> \<exists>p. k = to_hex p"
  by (auto simp: in_file_def)

lemma reg_run_snoc: "reg_run (es @ [e]) = reg_step e (reg_run es)"
  by (simp add: reg_run_def)

definition regs_ok :: "reg_event list \<Rightarrow> registrations \<Rightarrow> bool" where
  "regs_ok es rs = ((\<forall>k r. saved rs k = Some r \<longrightarrow> in_file es k r) \<and> (\<forall>k r. devices rs k = Some r \<longrightarrow> in_memory es k r))"

text \<open>What saving leaves in the file was there before and the file was left alone, or is in memory.\<close>

lemma reg_save_facts:
  "devices (snd (reg_save wr now rs)) = devices rs"
  "saved (snd (reg_save wr now rs)) k = Some r \<Longrightarrow> devices rs k = Some r \<or> (wr = NotOpened \<and> saved rs k = Some r)"
  by (auto simp: reg_save_def Let_def split: file_write.splits option.splits if_splits)

lemma regs_ok_save:
  assumes memory: "\<And>k r. d k = Some r \<Longrightarrow> in_memory (es @ [e]) k r" and left: "wr = NotOpened \<Longrightarrow> left_file e"
    and old: "regs_ok es rs"
  shows "regs_ok (es @ [e]) (snd (reg_save wr now (rs\<lparr>devices := d\<rparr>)))"
proof -
  have "in_file (es @ [e]) k r" if "wr = NotOpened" "saved rs k = Some r" for k r
  proof -
    have "in_file es k r" using old that by (simp add: regs_ok_def)
    moreover from this obtain p where "k = to_hex p" using in_file_key by blast
    ultimately show ?thesis using left that by (auto intro: in_file_snoc)
  qed
  with reg_save_facts(2) [of wr now "rs\<lparr>devices := d\<rparr>"] memory in_memory_in_file show ?thesis
    by (fastforce simp: regs_ok_def reg_save_facts(1))
qed

lemma regs_ok_run: "regs_ok es (reg_run es)"
proof (induction es rule: rev_induct)
  case Nil
  then show ?case by (simp add: regs_ok_def reg_run_def)
next
  case (snoc e es)
  let ?rs = "reg_run es"
  have keep: "in_memory (es @ [e]) k r"
    if "devices ?rs k = Some r" "\<And>p. k = to_hex p \<Longrightarrow> \<not> ends_registration p (rg_account r) e" for k r
  proof -
    have "in_memory es k r" using snoc that(1) by (simp add: regs_ok_def)
    moreover from this obtain p where "k = to_hex p" by (auto simp: in_memory_def)
    ultimately show ?thesis using that(2) by (auto intro: in_memory_snoc)
  qed
  show ?case
  proof (cases e)
    case (EvRegister wr now p a days)
    show ?thesis
    proof (cases "days = 0")
      case True
      have "in_file (es @ [e]) k r" if "saved ?rs k = Some r" for k r
      proof -
        have "in_file es k r" using snoc that by (simp add: regs_ok_def)
        moreover from this obtain q where "k = to_hex q" using in_file_key by blast
        ultimately show ?thesis using EvRegister by (auto intro: in_file_snoc)
      qed
      with keep show ?thesis
        using True EvRegister by (simp add: regs_ok_def reg_run_snoc register_def)
    next
      case False
      let ?r = "\<lparr>rg_account = a, rg_registered = now, rg_expires = now + ucast days * 24 * 60 * 60\<rparr>"
      have "in_memory (es @ [e]) k r" if "((devices ?rs)(to_hex p \<mapsto> ?r)) k = Some r" for k r
      proof (cases "k = to_hex p")
        case True
        then have "signed_in (es @ [e]) k r []"
          using that False EvRegister unfolding signed_in_def
          by (intro exI [of _ es] exI [of _ wr] exI [of _ now] exI [of _ p] exI [of _ days]) (auto simp: mult.assoc)
        with True show ?thesis unfolding in_memory_def by (intro exI [of _ "[]"] exI [of _ p]) simp
      next
        case other: False
        then show ?thesis using that EvRegister by (intro keep) auto
      qed
      from regs_ok_save [where d = "(devices ?rs)(to_hex p \<mapsto> ?r)" and wr = wr and now = now, OF this _ snoc] show ?thesis
        using False EvRegister by (simp add: reg_run_snoc register_def)
    qed
  next
    case (EvRemove wr now p)
    have "in_memory (es @ [e]) k r" if "((devices ?rs)(to_hex p := None)) k = Some r" for k r
      using that EvRemove by (intro keep) (auto simp: to_hex_inject split: if_splits)
    from regs_ok_save [where d = "(devices ?rs)(to_hex p := None)" and wr = wr and now = now, OF this _ snoc] show ?thesis
      using EvRemove by (simp add: reg_run_snoc reg_remove_def)
  next
    case (EvRemoveAccount wr now name provider)
    have "in_memory (es @ [e]) k r" if "(case devices ?rs k of
        Some r \<Rightarrow> if acc_name (rg_account r) = name \<and> acc_provider (rg_account r) = provider then None else Some r
      | None \<Rightarrow> None) = Some r" for k r
      using that EvRemoveAccount by (intro keep) (auto split: if_splits option.splits)
    from regs_ok_save [where d = "\<lambda>k. case devices ?rs k of
        Some r \<Rightarrow> if acc_name (rg_account r) = name \<and> acc_provider (rg_account r) = provider then None else Some r
      | None \<Rightarrow> None" and wr = wr and now = now, OF this _ snoc] show ?thesis
      using EvRemoveAccount by (simp add: reg_run_snoc reg_remove_account_def)
  next
    case (EvRestart readable)
    have "in_memory (es @ [e]) k r" if "saved ?rs k = Some r" "readable" for k r
      using that snoc EvRestart by (auto simp: regs_ok_def intro: in_file_restart)
    moreover have "in_file (es @ [e]) k r" if "saved ?rs k = Some r" for k r
    proof -
      have "in_file es k r" using snoc that by (simp add: regs_ok_def)
      moreover from this obtain q where "k = to_hex q" using in_file_key by blast
      ultimately show ?thesis using EvRestart by (auto intro: in_file_snoc)
    qed
    ultimately show ?thesis
      using EvRestart by (auto simp: regs_ok_def reg_run_snoc reg_load_def)
  qed
qed

text \<open>
  C25. A device resumes only on a sign-in of its own that still counts: after any history of sign-ins, removals and
  restarts of the host, whatever became of writing the file, a device has an account only if it signed in to exactly
  that account, the registration has not expired, and every removal of the device or of the account's devices since
  was one that could not be written at all and was undone by a restart after it.
\<close>

theorem device_resumes_on_its_sign_in:
  assumes "reg_get now p (reg_run es) = Some r"
  shows "\<exists>pre wr signed days post. es = pre @ EvRegister wr signed p (rg_account r) days # post \<and> days \<noteq> 0
    \<and> now < signed + ucast days * 86400
    \<and> (\<forall>before e after. post = before @ e # after \<longrightarrow> ends_registration p (rg_account r) e \<longrightarrow> left_file e \<and> EvRestart True \<in> set after)"
proof -
  have "devices (reg_run es) (to_hex p) = Some r" "now < rg_expires r"
    using assms by (auto simp: reg_get_def split: option.splits if_splits)
  then have "in_memory es (to_hex p) r"
    using regs_ok_run [of es] by (simp add: regs_ok_def)
  then obtain post where post: "signed_in es (to_hex p) r post" "undone p (rg_account r) post"
    unfolding in_memory_def to_hex_inject by blast
  have "left_file e \<and> EvRestart True \<in> set after" if "undone p a (before @ e # after)" "ends_registration p a e" for a before e after
    using that by (induction before) auto
  then show ?thesis
    using post \<open>now < rg_expires r\<close> unfolding signed_in_def to_hex_inject by metis
qed

text \<open>The case is real: a removal that could not be written is undone by a restart.\<close>

lemma unsaved_removal_is_undone:
  "reg_get 100 [1] (reg_run [EvRegister Written 5 [1] a 1, EvRemove NotOpened 6 [1]]) = None
   \<and> reg_get 100 [1] (reg_run [EvRegister Written 5 [1] a 1, EvRemove NotOpened 6 [1], EvRestart True])
     = Some \<lparr>rg_account = a, rg_registered = 5, rg_expires = 86405\<rparr>"
  by (simp add: reg_run_def register_def reg_remove_def reg_load_def reg_save_def reg_get_def)

theorem device_resumes_on_its_sign_in_witness:
  "\<exists>a pre wr signed days post. a = \<lparr>acc_name = [97], acc_groups = [], acc_method = Password, acc_provider = [98]\<rparr>
    \<and> [EvRegister Written 5 [1] a 1, EvRemove NotOpened 6 [1], EvRestart True] = pre @ EvRegister wr signed [1] a days # post
    \<and> days \<noteq> 0 \<and> 100 < signed + ucast days * 86400
    \<and> (\<forall>before e after. post = before @ e # after \<longrightarrow> ends_registration [1] a e \<longrightarrow> left_file e \<and> EvRestart True \<in> set after)"
proof -
  let ?a = "\<lparr>acc_name = [97], acc_groups = [], acc_method = Password, acc_provider = [98]\<rparr> :: account"
  show ?thesis
    using device_resumes_on_its_sign_in [OF unsaved_removal_is_undone [THEN conjunct2, of ?a]] by simp
qed

section \<open>Revoked accounts\<close>

lemma account_of_revoked:
  assumes "hc_accounts h = Some (c, accs)" "revoked_in accs u"
    and "reg_get now p (hc_registrations h) = Some r" "acc_name (rg_account r) = u" "acc_provider (rg_account r) = lit ''local''"
  shows "account_of now p h = None"
  using assms by (auto simp: account_of_def account_active_def revoked_in_def Let_def split: option.splits)

text \<open>
  C27. Revoking a local account locks its devices out: after the account was revoked, whatever is done to
  the accounts short of removing it, a device registered to it that was not also paired by PIN may not
  resume, even before the registration expires.
\<close>

theorem revoked_account_locks_devices_out:
  assumes "u \<in> dom (local_run hash before accs)" "RemoveAccount u \<notin> set after"
    and "hc_accounts h = Some (c, local_run hash (before @ RevokeAccount u # after) accs)"
    and "reg_get now p (hc_registrations h) = Some r" "acc_name (rg_account r) = u"
    and "acc_provider (rg_account r) = lit ''local''"
    and "reload_trust h = Some (trust, h')" "\<not> is_pinned trust p"
  shows "\<exists>allowed. admitted lower os_name now h = Some (allowed, h') \<and> \<not> is_pinned allowed p"
proof -
  obtain a where "local_run hash before accs u = Some a"
    using assms(1) by auto
  then have "revoked_in (snd (local_step hash (RevokeAccount u) (local_run hash before accs))) u"
    by (simp add: local_defs revoked_in_def)
  then have "revoked_in (local_run hash (before @ RevokeAccount u # after) accs) u"
    using revoked_run assms(2) by simp
  moreover have "hc_accounts h' = hc_accounts h \<and> hc_registrations h' = hc_registrations h"
    using assms(7) by (auto simp: reload_trust_def split: option.splits sum.splits)
  ultimately have "account_of now p h' = None"
    using assms(3-6) by (intro account_of_revoked) auto
  then show ?thesis
    using assms(7,8) by (auto simp: admitted_def is_pinned_def Let_def)
qed

definition local_alice :: account where
  "local_alice = \<lparr>acc_name = lit ''alice'', acc_groups = [], acc_method = Password, acc_provider = lit ''local''\<rparr>"

text \<open>A host with sign-in on, one account and one device registered to it.\<close>

definition sample_host :: "nat local_op list \<Rightarrow> unit host" where
  "sample_host ops =
     \<lparr>hc_accounts = Some (sample_config, local_run plain_hash ([Create (lit ''alice'') (lit ''a'') 1 []] @ ops) Map.empty),
      hc_registrations = snd (register Written 5 (replicate 32 1) local_alice 30 \<lparr>devices = Map.empty, saved = Map.empty\<rparr>),
      hc_device_limits = Map.empty, hc_trust = \<lparr>pinned = {}\<rparr>, hc_trust_file = None\<rparr>"

theorem revoked_account_locks_devices_out_witness:
  "\<exists>allowed. admitted ascii_lowercase [] 9 (sample_host (RevokeAccount (lit ''alice'') # []))
       = Some (allowed, sample_host (RevokeAccount (lit ''alice'') # []))
     \<and> \<not> is_pinned allowed (replicate 32 1)"
  by (rule revoked_account_locks_devices_out [where u = "lit ''alice''" and before = "[Create (lit ''alice'') (lit ''a'') 1 []]"
        and after = "[]" and hash = plain_hash and accs = Map.empty and c = sample_config and trust = "\<lparr>pinned = {}\<rparr>"
        and r = "\<lparr>rg_account = local_alice, rg_registered = 5, rg_expires = 5 + 30 * 24 * 60 * 60\<rparr>"])
     (simp_all add: sample_host_def local_defs plain_hash_def reg_get_def register_def reg_save_def local_alice_def
        reload_trust_def trust_load_def is_pinned_def)

text \<open>
  Removing a local account does not forget its devices: when an account of the same name is made
  later, a device registered to the removed one acts for the new one and may resume.
\<close>

theorem removed_account_keeps_devices:
  "account_of 9 (replicate 32 1) (sample_host [RemoveAccount (lit ''alice'')]) = None
   \<and> account_of 9 (replicate 32 1)
       (sample_host [RemoveAccount (lit ''alice''), Create (lit ''alice'') (lit ''b'') 2 []]) = Some local_alice"
  by (simp add: sample_host_def account_of_def local_defs plain_hash_def reg_get_def register_def reg_save_def
      local_alice_def account_active_def)

section \<open>The application's limit for a device\<close>

lemma host_decision_limit:
  assumes "hc_device_limits h p = Some globs" "globs \<noteq> []"
    and "window_allowed lower (host_decision lower os_name now p h) app_id title"
  shows "passes lower globs app_id title"
  using assms by (simp add: host_decision_def window_allowed_def limited_to_def Let_def)

text \<open>
  While sign-in is off, a session streams only windows the application's limit for its device
  matches, whatever was done to other devices' limits since.
\<close>

theorem device_limit_holds_without_accounts:
  assumes "hc_accounts h = None" "globs \<noteq> []" "es_account est = None" "\<not> es_paired est"
    and "\<forall>(q, gs)\<in>set later. q \<noteq> es_peer est"
    and "h' = fold (\<lambda>(q, gs). limit_device q gs) later (limit_device (es_peer est) globs h)"
    and "open_session lower os_name now order io wr est h' = Some (acc, dn, h'')"
    and "session_window_allowed lower windows dn window"
  shows "\<exists>app_id title. (window, app_id, title) \<in> set windows \<and> passes lower globs app_id title"
proof -
  have kept: "hc_device_limits (fold (\<lambda>(q, gs). limit_device q gs) later k) (es_peer est) = hc_device_limits k (es_peer est)
      \<and> hc_accounts (fold (\<lambda>(q, gs). limit_device q gs) later k) = hc_accounts k" for k :: "'a host"
    using assms(5) by (induction later arbitrary: k) (auto simp: limit_device_def)
  have lim: "hc_device_limits h' (es_peer est) = Some globs" "hc_accounts h' = None"
    using assms(1,2,6) kept by (simp_all add: limit_device_def)
  have dn: "dn = host_decision lower os_name now (es_peer est) h'"
    using assms(3,4,7) lim(2) by (auto simp: open_session_def Let_def)
  then have "dn_device_windows dn \<noteq> []"
    using lim assms(2) by (simp add: host_decision_def limited_to_def Let_def)
  then obtain app_id title where "(window, app_id, title) \<in> set windows" "window_allowed lower dn app_id title"
    using assms(8) by (auto simp: session_window_allowed_def list_ex_iff split: if_splits)
  then show ?thesis
    using host_decision_limit [OF lim(1) assms(2)] dn by blast
qed

definition limited_sample :: "unit host" where
  "limited_sample = (sample_host [])\<lparr>hc_accounts := None\<rparr>"

theorem device_limit_holds_without_accounts_witness:
  "\<exists>app_id title. ((7 :: u64), app_id, title) \<in> set [(7, lit ''game'', lit ''Game''), (8, lit ''mail'', [])]
     \<and> passes ascii_lowercase [lit ''game''] app_id title"
proof -
  let ?h = "fold (\<lambda>(q, gs). limit_device q gs) [([], [])] (limit_device (replicate 32 1) [lit ''game''] limited_sample)"
  let ?dn = "\<lparr>dn_allow = True, dn_windows = [], dn_input = None, dn_commands = None,
     dn_device_windows = [lit ''game'']\<rparr>"
  have glob: "policy_glob ascii_lowercase [103, 97, 109, 101] [103, 97, 109, 101] = Some True"
    by (simp add: policy_glob_def ascii_lowercase_def ascii_lower_def glob_loop.simps)
  have opened: "open_session ascii_lowercase [] 9 (\<lambda>_. []) (True, True) Written
      \<lparr>es_peer = replicate 32 1, es_paired = False, es_account = None\<rparr> ?h = Some (None, ?dn, ?h)"
    by (simp add: open_session_def limited_sample_def host_decision_def account_of_def limit_device_def
        limited_to_def decide_def del: replicate.simps)
  show ?thesis
    by (rule device_limit_holds_without_accounts [where h = limited_sample and globs = "[lit ''game'']"
          and later = "[([], [])]" and h' = ?h and dn = ?dn and lower = ascii_lowercase
          and est = "\<lparr>es_peer = replicate 32 1, es_paired = False, es_account = None\<rparr>"];
        (rule opened | simp add: limited_sample_def session_window_allowed_def window_allowed_def passes_def glob_def glob))
qed

text \<open>
  While sign-in is on, the limit is dropped: the decision the host keeps for a resumed device has the
  limit, the decision its session is opened with has not, and the session may stream a window outside it.
\<close>

theorem sign_in_drops_device_limit:
  assumes "h = limit_device (replicate 32 1) [lit ''game''] (sample_host [])"
    and "est = \<lparr>es_peer = replicate 32 1, es_paired = False, es_account = None\<rparr>"
  shows "dn_device_windows (host_decision lower os_name 9 (replicate 32 1) h) = [lit ''game'']
    \<and> (\<exists>dn. open_session lower os_name 9 order io wr est h = Some (Some local_alice, dn, h)
        \<and> session_window_allowed lower [(8, lit ''mail'', [])] dn 8)"
  using assms
  by (simp add: open_session_def sample_host_def host_decision_def account_of_def limit_device_def limited_to_def
      accounts_decide_def decide_def sample_config_def local_defs plain_hash_def reg_get_def register_def reg_save_def
      local_alice_def account_active_def session_window_allowed_def)

theorem sign_in_drops_device_limit_witness:
  "dn_device_windows (host_decision ascii_lowercase [] 9 (replicate 32 1)
       (limit_device (replicate 32 1) [lit ''game''] (sample_host []))) = [lit ''game'']
    \<and> (\<exists>dn. open_session ascii_lowercase [] 9 (\<lambda>_. []) (True, True) Written
        \<lparr>es_peer = replicate 32 1, es_paired = False, es_account = None\<rparr>
        (limit_device (replicate 32 1) [lit ''game''] (sample_host []))
          = Some (Some local_alice, dn, limit_device (replicate 32 1) [lit ''game''] (sample_host []))
        \<and> session_window_allowed ascii_lowercase [(8, lit ''mail'', [])] dn 8)"
  by (rule sign_in_drops_device_limit) (rule refl)+

end
