(* ===== verification/Host_Input.thy ===== *)
theory Host_Input
  imports Protocol "HOL-Library.AList"
begin

text \<open>
  A session's input on its way to the window source, and compatibility mode (\<open>host-core/src/lib.rs\<close>,
  \<open>host-core/src/compat.rs\<close>): what a client holds down, the thread that delivers and at the end releases it, and
  who holds a window's endpoints open.
\<close>

section \<open>What a client holds down\<close>

definition MAX_PADS :: u8 where "MAX_PADS = 4"

record held_input =
  hi_keys :: "(u32 \<times> window_id option) list"
  hi_buttons :: "(window_id \<times> pointer_button) list"
  hi_touches :: "((window_id \<times> u32) \<times> f32 \<times> f32) list"

definition held_default :: held_input where
  "held_default = \<lparr>hi_keys = [], hi_buttons = [], hi_touches = []\<rparr>"

fun held_track :: "input_event \<Rightarrow> window_id option \<Rightarrow> held_input \<Rightarrow> held_input" where
  "held_track (KeyInput k pressed) focus h =
     (if pressed then h\<lparr>hi_keys := AList.update k focus (hi_keys h)\<rparr> else h\<lparr>hi_keys := AList.delete k (hi_keys h)\<rparr>)"
| "held_track (PointerButton w b pressed) focus h =
     (if pressed then h\<lparr>hi_buttons := List.insert (w, b) (hi_buttons h)\<rparr> else h\<lparr>hi_buttons := removeAll (w, b) (hi_buttons h)\<rparr>)"
| "held_track (TouchInput w t x y phase) focus h =
     (if phase = TouchStart \<or> phase = TouchMove then h\<lparr>hi_touches := AList.update (w, t) (x, y) (hi_touches h)\<rparr>
      else h\<lparr>hi_touches := AList.delete (w, t) (hi_touches h)\<rparr>)"
| "held_track _ focus h = h"

definition held_release :: "held_input \<Rightarrow> (input_event \<times> window_id option) list" where
  "held_release h =
     map (\<lambda>(k, focus). (KeyInput k False, focus)) (hi_keys h)
     @ map (\<lambda>(w, b). (PointerButton w b False, None)) (hi_buttons h)
     @ map (\<lambda>((w, t), x, y). (TouchInput w t x y TouchCancel, None)) (hi_touches h)"

section \<open>The delivering thread\<close>

datatype source_effect = SourceInput input_event "window_id option" | PadSet u8 gamepad_state | PadRemoved u8

text \<open>The session's pads: plugged in, and known not to be had. \<open>opens\<close>: whether the source gives them.\<close>

record delivery =
  dl_pads :: bool
  dl_no_pads :: bool
  dl_held :: held_input

definition delivery_new :: delivery where
  "delivery_new = \<lparr>dl_pads = False, dl_no_pads = False, dl_held = held_default\<rparr>"

definition deliver_one :: "bool \<Rightarrow> input_event \<times> window_id option \<Rightarrow> delivery \<Rightarrow> source_effect list \<times> delivery" where
  "deliver_one opens = (\<lambda>(event, focus) d.
     (let d = d\<lparr>dl_held := held_track event focus (dl_held d)\<rparr>
      in case event of
          GamepadInput pad state \<Rightarrow>
            if pad < MAX_PADS then
              (let d = (if \<not> dl_pads d \<and> \<not> dl_no_pads d then (if opens then d\<lparr>dl_pads := True\<rparr> else d\<lparr>dl_no_pads := True\<rparr>) else d)
               in (if dl_pads d then [PadSet pad state] else [], d))
            else ([], d)
        | GamepadGone pad \<Rightarrow> (if dl_pads d then [PadRemoved pad] else [], d)
        | _ \<Rightarrow> ([SourceInput event focus], d)))"

fun deliver_events :: "bool \<Rightarrow> (input_event \<times> window_id option) list \<Rightarrow> delivery \<Rightarrow> source_effect list \<times> delivery" where
  "deliver_events opens [] d = ([], d)"
| "deliver_events opens (e # es) d =
     (let (effs, d) = deliver_one opens e d; (rest, d) = deliver_events opens es d in (effs @ rest, d))"

text \<open>The whole life of the thread: the events, then the release of what is still held.\<close>

definition deliver_session :: "bool \<Rightarrow> (input_event \<times> window_id option) list \<Rightarrow> source_effect list" where
  "deliver_session opens es =
     (let (effs, d) = deliver_events opens es delivery_new
      in effs @ map (\<lambda>(event, focus). SourceInput event focus) (held_release (dl_held d)))"

text \<open>What is down on the host after the source was given input: keys, buttons and touches.\<close>

record pressed_state =
  ps_keys :: "u32 set"
  ps_buttons :: "(window_id \<times> pointer_button) set"
  ps_touches :: "(window_id \<times> u32) set"

fun press :: "source_effect \<Rightarrow> pressed_state \<Rightarrow> pressed_state" where
  "press (SourceInput (KeyInput k pressed) _) s = s\<lparr>ps_keys := (if pressed then insert k (ps_keys s) else ps_keys s - {k})\<rparr>"
| "press (SourceInput (PointerButton w b pressed) _) s =
     s\<lparr>ps_buttons := (if pressed then insert (w, b) (ps_buttons s) else ps_buttons s - {(w, b)})\<rparr>"
| "press (SourceInput (TouchInput w t x y phase) _) s =
     s\<lparr>ps_touches := (if phase = TouchStart \<or> phase = TouchMove then insert (w, t) (ps_touches s) else ps_touches s - {(w, t)})\<rparr>"
| "press _ s = s"

definition nothing_pressed :: pressed_state where
  "nothing_pressed = \<lparr>ps_keys = {}, ps_buttons = {}, ps_touches = {}\<rparr>"

definition pressed_after :: "source_effect list \<Rightarrow> pressed_state \<Rightarrow> pressed_state" where
  "pressed_after effs s = fold press effs s"

definition holds_pressed :: "held_input \<Rightarrow> pressed_state" where
  "holds_pressed h = \<lparr>ps_keys = fst ` set (hi_keys h), ps_buttons = set (hi_buttons h), ps_touches = fst ` set (hi_touches h)\<rparr>"

lemma holds_default: "holds_pressed held_default = nothing_pressed"
  by (simp add: holds_pressed_def held_default_def nothing_pressed_def)

lemma fst_delete: "fst ` set (AList.delete k xs) = fst ` set xs - {k}"
  by (auto simp: AList.delete_eq)

lemma deliver_one_press:
  "pressed_after (fst (deliver_one opens (e, focus) d)) (holds_pressed (dl_held d)) = holds_pressed (dl_held (snd (deliver_one opens (e, focus) d)))"
  by (cases e) (auto simp: deliver_one_def pressed_after_def holds_pressed_def dom_update fst_delete Let_def)

lemma deliver_events_press:
  "pressed_after (fst (deliver_events opens es d)) (holds_pressed (dl_held d)) = holds_pressed (dl_held (snd (deliver_events opens es d)))"
proof (induction es arbitrary: d)
  case (Cons e es)
  obtain event focus where "e = (event, focus)"
    by (cases e)
  then show ?case
    using Cons.IH [of "snd (deliver_one opens e d)"] deliver_one_press [of opens event focus d]
    by (simp add: split_beta Let_def pressed_after_def)
qed (simp add: pressed_after_def)

lemma release_keys:
  "fold press (map (\<lambda>(k, focus). SourceInput (KeyInput k False) focus) ks) s = s\<lparr>ps_keys := ps_keys s - fst ` set ks\<rparr>"
proof (induction ks arbitrary: s)
  case (Cons x ks)
  show ?case
    by (cases x) (simp add: Cons.IH Diff_insert2 [of _ _ "fst ` set ks"])
qed simp

lemma release_buttons:
  "fold press (map (\<lambda>(w, b). SourceInput (PointerButton w b False) None) bs) s = s\<lparr>ps_buttons := ps_buttons s - set bs\<rparr>"
proof (induction bs arbitrary: s)
  case (Cons x bs)
  show ?case
    by (cases x) (simp add: Cons.IH Diff_insert2 [of _ _ "set bs"])
qed simp

lemma release_touches:
  "fold press (map (\<lambda>((w, t), x, y). SourceInput (TouchInput w t x y TouchCancel) None) ts) s = s\<lparr>ps_touches := ps_touches s - fst ` set ts\<rparr>"
proof (induction ts arbitrary: s)
  case (Cons x ts)
  obtain w t y z where "x = ((w, t), y, z)"
    by (metis prod.exhaust)
  then show ?case
    by (simp add: Cons.IH Diff_insert2 [of _ _ "fst ` set ts"])
qed simp

lemma held_release_press: "pressed_after (map (\<lambda>(event, focus). SourceInput event focus) (held_release h)) (holds_pressed h) = nothing_pressed"
proof -
  have split: "map (\<lambda>(event, focus). SourceInput event focus) (held_release h) =
      map (\<lambda>(k, focus). SourceInput (KeyInput k False) focus) (hi_keys h)
      @ map (\<lambda>(w, b). SourceInput (PointerButton w b False) None) (hi_buttons h)
      @ map (\<lambda>((w, t), x, y). SourceInput (TouchInput w t x y TouchCancel) None) (hi_touches h)"
    by (simp add: held_release_def comp_def split_beta)
  show ?thesis
    unfolding split pressed_after_def fold_append comp_def release_keys release_buttons release_touches
    by (simp add: holds_pressed_def nothing_pressed_def)
qed

text \<open>
  C29. A session leaves nothing pressed: whatever events a client sends before it goes, once its delivering
  thread has ended no key, button or touch is down on the host that was not before.
\<close>

theorem session_leaves_nothing_pressed:
  "pressed_after (deliver_session opens es) nothing_pressed = nothing_pressed"
  using deliver_events_press [of opens es delivery_new] held_release_press
  by (simp add: deliver_session_def split_beta Let_def pressed_after_def delivery_new_def holds_default)

section \<open>Compatibility mode\<close>

datatype owner = HostOwner | SessionOwner nat

record compat_open =
  co_endpoints :: "compat_endpoint list"
  co_owners :: "owner set"

text \<open>The windows in compatibility mode; the providers are the host application's.\<close>

type_synonym compatibility = "(window_id \<times> compat_open) list"
type_synonym compat_provider = "window_id \<Rightarrow> rstr \<Rightarrow> rstr + compat_endpoint"

definition join_reasons :: "rstr list \<Rightarrow> rstr" where
  "join_reasons rs = (case rs of [] \<Rightarrow> [] | r # rs \<Rightarrow> r @ concat (map (\<lambda>x. lit ''; '' @ x) rs))"

definition compat_turn_on ::
  "compat_provider list \<Rightarrow> window_id \<Rightarrow> rstr \<Rightarrow> owner \<Rightarrow> compatibility \<Rightarrow> (rstr + compat_endpoint list) \<times> compatibility" where
  "compat_turn_on providers w title who c =
     (case map_of c w of
        Some entry \<Rightarrow> (Inr (co_endpoints entry), AList.update w (entry\<lparr>co_owners := insert who (co_owners entry)\<rparr>) c)
      | None \<Rightarrow>
          if providers = [] then (Inl (lit ''this host has no compatibility mode''), c)
          else let results = map (\<lambda>p. p w title) providers;
                   endpoints = concat (map (\<lambda>r. case r of Inr e \<Rightarrow> [e] | Inl _ \<Rightarrow> []) results);
                   failures = concat (map (\<lambda>r. case r of Inl e \<Rightarrow> [e] | Inr _ \<Rightarrow> []) results)
            in if endpoints = [] then (Inl (join_reasons failures), c)
               else (Inr endpoints, AList.update w \<lparr>co_endpoints = endpoints, co_owners = {who}\<rparr> c))"

definition compat_turn_off :: "window_id \<Rightarrow> owner \<Rightarrow> compatibility \<Rightarrow> bool \<times> compatibility" where
  "compat_turn_off w who c =
     (case map_of c w of
        None \<Rightarrow> (False, c)
      | Some entry \<Rightarrow>
          (let owners = co_owners entry - {who}
           in if owners = {} then (True, AList.delete w c) else (False, AList.update w (entry\<lparr>co_owners := owners\<rparr>) c)))"

definition compat_session_ended :: "nat \<Rightarrow> compatibility \<Rightarrow> compatibility" where
  "compat_session_ended serial c =
     filter (\<lambda>(_, entry). co_owners entry \<noteq> {}) (map (\<lambda>(w, entry). (w, entry\<lparr>co_owners := co_owners entry - {SessionOwner serial}\<rparr>)) c)"

definition compat_endpoints :: "window_id \<Rightarrow> compatibility \<Rightarrow> compat_endpoint list option" where
  "compat_endpoints w c = map_option co_endpoints (map_of c w)"

definition compat_list :: "compatibility \<Rightarrow> (window_id \<times> compat_endpoint list \<times> bool) list" where
  "compat_list c = sort_key fst (map (\<lambda>(w, entry). (w, co_endpoints entry, HostOwner \<in> co_owners entry)) c)"

subsection \<open>Endpoints are open while somebody holds the window\<close>

datatype compat_event = CompatOn "compat_provider list" window_id rstr owner | CompatOff window_id owner | CompatEnded nat

fun compat_step :: "compat_event \<Rightarrow> compatibility \<Rightarrow> compatibility" where
  "compat_step (CompatOn providers w title who) c = snd (compat_turn_on providers w title who c)"
| "compat_step (CompatOff w who) c = snd (compat_turn_off w who c)"
| "compat_step (CompatEnded serial) c = compat_session_ended serial c"

text \<open>
  The abstract state: who holds which window. A window nobody holds can be taken when a provider opens an
  endpoint for it.
\<close>

fun holder_step :: "compat_event \<Rightarrow> (window_id \<times> owner) set \<Rightarrow> (window_id \<times> owner) set" where
  "holder_step (CompatOn providers w title who) H =
     (if w \<in> fst ` H \<or> list_ex (\<lambda>p. case p w title of Inl _ \<Rightarrow> False | Inr _ \<Rightarrow> True) providers then insert (w, who) H else H)"
| "holder_step (CompatOff w who) H = H - {(w, who)}"
| "holder_step (CompatEnded serial) H = {(w, who). (w, who) \<in> H \<and> who \<noteq> SessionOwner serial}"

text \<open>The table as a map.\<close>

definition compat_at :: "compatibility \<Rightarrow> window_id \<Rightarrow> compat_open option" where
  "compat_at c w = map_of c w"

lemma compat_at_update: "compat_at (AList.update w e c) w' = (if w' = w then Some e else compat_at c w')"
  by (simp add: compat_at_def update_conv')

lemma compat_at_delete: "compat_at (AList.delete w c) w' = (if w' = w then None else compat_at c w')"
  by (simp add: compat_at_def delete_conv')

definition compat_ok :: "compatibility \<Rightarrow> bool" where
  "compat_ok c = (distinct (map fst c) \<and> (\<forall>w e. compat_at c w = Some e \<longrightarrow> co_owners e \<noteq> {} \<and> co_endpoints e \<noteq> []))"

definition holders_of :: "compatibility \<Rightarrow> (window_id \<times> owner) set" where
  "holders_of c = {(w, who). \<exists>e. compat_at c w = Some e \<and> who \<in> co_owners e}"

lemma holders_windows: "compat_ok c \<Longrightarrow> w \<in> fst ` holders_of c \<longleftrightarrow> compat_at c w \<noteq> None"
  by (fastforce simp: holders_of_def compat_ok_def image_iff)

lemma no_endpoints:
  "concat (map (\<lambda>r. case r of Inr e \<Rightarrow> [e] | Inl _ \<Rightarrow> []) (map (\<lambda>p. p w title) providers)) = []
    \<longleftrightarrow> \<not> list_ex (\<lambda>p. case p w title of Inl _ \<Rightarrow> False | Inr _ \<Rightarrow> True) providers"
  by (induction providers) (auto split: sum.split)

lemma compat_on_cases:
  "snd (compat_turn_on providers w title who c) =
    (case compat_at c w of
       Some entry \<Rightarrow> AList.update w (entry\<lparr>co_owners := insert who (co_owners entry)\<rparr>) c
     | None \<Rightarrow>
         (let endpoints = concat (map (\<lambda>r. case r of Inr e \<Rightarrow> [e] | Inl _ \<Rightarrow> []) (map (\<lambda>p. p w title) providers))
          in if endpoints = [] then c else AList.update w \<lparr>co_endpoints = endpoints, co_owners = {who}\<rparr> c))"
  by (auto simp: compat_turn_on_def compat_at_def Let_def split: option.split)

lemma compat_on_refines:
  assumes "compat_ok c"
  shows "compat_ok (snd (compat_turn_on providers w title who c))
    \<and> holders_of (snd (compat_turn_on providers w title who c)) = holder_step (CompatOn providers w title who) (holders_of c)"
proof (cases "compat_at c w")
  case None
  define es where "es = concat (map (\<lambda>r. case r of Inr e \<Rightarrow> [e] | Inl _ \<Rightarrow> []) (map (\<lambda>p. p w title) providers))"
  have "w \<notin> fst ` holders_of c"
    using None holders_windows [OF assms] by blast
  moreover have "holders_of (AList.update w \<lparr>co_endpoints = es, co_owners = {who}\<rparr> c) = insert (w, who) (holders_of c)"
    using None by (auto simp: holders_of_def compat_at_update split: if_splits)
  moreover have "compat_ok (AList.update w \<lparr>co_endpoints = es, co_owners = {who}\<rparr> c)" if "es \<noteq> []"
    using assms that by (auto simp: compat_ok_def compat_at_update distinct_update split: if_splits)
  ultimately show ?thesis
    using assms no_endpoints [of w title providers, folded es_def] unfolding compat_on_cases None es_def [symmetric] Let_def
    by simp
next
  case (Some e)
  then have "w \<in> fst ` holders_of c"
    using holders_windows [OF assms] by simp
  moreover have "holders_of (AList.update w (e\<lparr>co_owners := insert who (co_owners e)\<rparr>) c) = insert (w, who) (holders_of c)"
    using Some by (auto simp: holders_of_def compat_at_update split: if_splits)
  moreover have "compat_ok (AList.update w (e\<lparr>co_owners := insert who (co_owners e)\<rparr>) c)"
    using Some assms by (auto simp: compat_ok_def compat_at_update distinct_update split: if_splits)
  ultimately show ?thesis
    by (simp add: compat_on_cases Some)
qed

lemma compat_off_cases:
  "snd (compat_turn_off w who c) =
    (case compat_at c w of
       None \<Rightarrow> c
     | Some entry \<Rightarrow> if co_owners entry - {who} = {} then AList.delete w c
         else AList.update w (entry\<lparr>co_owners := co_owners entry - {who}\<rparr>) c)"
  by (auto simp: compat_turn_off_def compat_at_def Let_def split: option.split)

lemma compat_off_refines:
  assumes "compat_ok c"
  shows "compat_ok (snd (compat_turn_off w who c))
    \<and> holders_of (snd (compat_turn_off w who c)) = holder_step (CompatOff w who) (holders_of c)"
proof (cases "compat_at c w")
  case (Some e)
  have "holders_of (AList.delete w c) = holders_of c - {(w, who)}" if "co_owners e - {who} = {}"
    using Some that by (auto simp: holders_of_def compat_at_delete split: if_splits)
  moreover have "compat_ok (AList.delete w c)"
    using assms by (auto simp: compat_ok_def compat_at_delete distinct_delete split: if_splits)
  moreover have "holders_of (AList.update w (e\<lparr>co_owners := co_owners e - {who}\<rparr>) c) = holders_of c - {(w, who)}"
    using Some by (auto simp: holders_of_def compat_at_update split: if_splits)
  moreover have "compat_ok (AList.update w (e\<lparr>co_owners := co_owners e - {who}\<rparr>) c)" if "co_owners e - {who} \<noteq> {}"
    using Some assms that by (auto simp: compat_ok_def compat_at_update distinct_update split: if_splits)
  ultimately show ?thesis
    unfolding compat_off_cases Some by simp
next
  case None
  then have "(w, who) \<notin> holders_of c"
    by (simp add: holders_of_def)
  with assms None show ?thesis
    by (simp add: compat_off_cases)
qed

lemma compat_ended_at:
  assumes "distinct (map fst c)"
  shows "compat_at (compat_session_ended serial c) w =
    (case compat_at c w of None \<Rightarrow> None
     | Some e \<Rightarrow> if co_owners e - {SessionOwner serial} = {} then None
         else Some (e\<lparr>co_owners := co_owners e - {SessionOwner serial}\<rparr>))"
  using assms unfolding compat_at_def
proof (induction c)
  case (Cons x c)
  then have "map_of c w = None" if "fst x = w"
    using that by (auto simp: map_of_eq_None_iff)
  with Cons show ?case
    by (cases x) (auto simp: compat_session_ended_def split: option.splits)
qed (simp add: compat_session_ended_def)

lemma compat_ended_refines:
  assumes "compat_ok c"
  shows "compat_ok (compat_session_ended serial c)
    \<and> holders_of (compat_session_ended serial c) = holder_step (CompatEnded serial) (holders_of c)"
proof -
  have d: "distinct (map fst c)"
    using assms by (simp add: compat_ok_def)
  have keys: "map fst (map (\<lambda>(w, entry). (w, entry\<lparr>co_owners := co_owners entry - {SessionOwner serial}\<rparr>)) c) = map fst c"
    by (simp add: comp_def split_beta)
  have "distinct (map fst (compat_session_ended serial c))"
    unfolding compat_session_ended_def by (rule distinct_map_filter) (simp only: keys d)
  moreover have "co_owners e \<noteq> {} \<and> co_endpoints e \<noteq> []" if "compat_at (compat_session_ended serial c) w = Some e" for w e
    using that assms by (auto simp: compat_ended_at [OF d] compat_ok_def split: option.splits if_splits)
  moreover have "holders_of (compat_session_ended serial c) = holder_step (CompatEnded serial) (holders_of c)"
    by (auto simp: holders_of_def compat_ended_at [OF d] split: option.splits if_splits)
  ultimately show ?thesis
    by (simp add: compat_ok_def)
qed

text \<open>
  A window's endpoints for third-party clients are open exactly while somebody holds the window: after any
  history, those who turned it on, less those who let go and the sessions that ended.
\<close>

theorem endpoints_open_while_held:
  "compat_endpoints w (foldl (\<lambda>c e. compat_step e c) [] evs) \<noteq> None
    \<longleftrightarrow> (\<exists>who. (w, who) \<in> foldl (\<lambda>H e. holder_step e H) {} evs)"
proof -
  have "compat_ok (foldl (\<lambda>c e. compat_step e c) [] evs)
      \<and> holders_of (foldl (\<lambda>c e. compat_step e c) [] evs) = foldl (\<lambda>H e. holder_step e H) {} evs"
  proof (induction evs rule: rev_induct)
    case Nil
    show ?case
      by (simp add: compat_ok_def holders_of_def compat_at_def)
  next
    case (snoc e evs)
    then show ?case
      by (cases e) (simp_all add: compat_on_refines compat_off_refines compat_ended_refines del: holder_step.simps)
  qed
  then show ?thesis
    using holders_windows [of "foldl (\<lambda>c e. compat_step e c) [] evs" w] by (force simp: compat_endpoints_def compat_at_def)
qed

end
