(* ===== verification/Host_Session.thy ===== *)
theory Host_Session
  imports Host_Input Host_Remote
begin

text \<open>
  One admitted client's session on the host (\<open>Serving\<close> in \<open>host-core/src/lib.rs\<close>) with the part of the transport it
  steers (\<open>attach_window\<close>, \<open>detach_window\<close> in \<open>transport/src/lib.rs\<close>): what each message of the client does to the
  session's streams, focus and clipboard, what it sends back and what reaches the host's window source. What
  the window source, the providers and the negotiation of a track give is an argument of each message.
\<close>

section \<open>The session's round trip\<close>

record round_trip =
  rt_sent :: "nat option"
  rt_last :: "nat option"

definition round_trip_default :: round_trip where
  "round_trip_default = \<lparr>rt_sent = None, rt_last = None\<rparr>"

definition rtt_answered :: "nat \<Rightarrow> round_trip \<Rightarrow> round_trip" where
  "rtt_answered now r = (case rt_sent r of None \<Rightarrow> r | Some sent \<Rightarrow> r\<lparr>rt_sent := None, rt_last := Some (now - sent)\<rparr>)"

text \<open>The once-a-second turn of \<open>ping\<close>: whether a ping goes out, and the round trip.\<close>

definition ping_turn :: "nat \<Rightarrow> round_trip \<Rightarrow> bool \<times> round_trip" where
  "ping_turn now r =
     (case rt_sent r of
        Some sent \<Rightarrow>
          (case rt_last r of
             None \<Rightarrow> (False, r)
           | Some l \<Rightarrow> (False, if l < now - sent then r\<lparr>rt_last := Some (now - sent)\<rparr> else r))
      | None \<Rightarrow> (True, r\<lparr>rt_sent := Some now\<rparr>))"

section \<open>The state\<close>

text \<open>A window's carriers by generation (its backend and the client's ceilings), and whether its sound runs.\<close>

record window_streams =
  ws_carriers :: "(u32 \<times> backend_kind \<times> stream_limits) list"
  ws_audio :: bool

record stream_row =
  sr_peer :: bytes
  sr_window :: window_id
  sr_requested :: backend_kind
  sr_backend :: backend_kind
  sr_codec :: video_codec

record host_shared =
  hh_compat :: compatibility
  hh_rows :: "(nat \<times> stream_row) list"
  hh_serial :: nat
  hh_discovery :: remote_peers

record serving =
  sv_peer :: bytes
  sv_account :: "account option"
  sv_serial :: nat
  sv_decision :: decision
  sv_channels :: channels
  sv_streams :: "(window_id \<times> window_streams) list"
  sv_focus :: "window_id option"
  sv_clipboard :: "rstr option"
  sv_listed :: "window_info list option"
  sv_streamed :: "window_id list"
  sv_private :: bool
  sv_rtt :: round_trip
  sv_tracks :: "(window_id \<times> video_codec) list"
  sv_host :: host_shared

text \<open>What leaves the session: messages to the client, input to the window source, and the rest.\<close>

datatype session_effect =
    SendControl control_message
  | DeliverInput input_event "window_id option"
  | SetHostClipboard rstr
  | SetPrivate bool "rstr option"

record private_refusal =
  pf_reason :: rstr
  pf_password :: bool

text \<open>What the outside gives while one message is handled.\<close>

record serve_env =
  ev_now :: nat
  ev_lower :: "rstr \<Rightarrow> rstr"
  ev_windows :: "window_info list"
  ev_backends :: "backend_kind list"
  ev_encoders :: "video_codec list"
  ev_handoff :: "backend_kind \<Rightarrow> window_id \<Rightarrow> (rstr + handoff_target) option"
  ev_open :: "backend_kind \<Rightarrow> window_id \<Rightarrow> video_codec \<Rightarrow> rstr + unit"
  ev_attach :: "rstr + unit"
  ev_track_id :: "window_id \<Rightarrow> rstr"
  ev_providers :: "compat_provider list"
  ev_certificate :: "rstr + rstr"
  ev_private :: "private_refusal + unit"
  ev_command :: host_env

section \<open>The transport's tracks\<close>

text \<open>Attaching a window that is attached gives its track as it is.\<close>

definition attach_window :: "serve_env \<Rightarrow> window_id \<Rightarrow> video_codec \<Rightarrow> serving \<Rightarrow> (rstr + rstr) \<times> serving" where
  "attach_window env w vc sv =
     (if map_of (sv_tracks sv) w \<noteq> None then (Inr (ev_track_id env w), sv)
      else case ev_attach env of
        Inl e \<Rightarrow> (Inl e, sv)
      | Inr _ \<Rightarrow> (Inr (ev_track_id env w), sv\<lparr>sv_tracks := AList.update w vc (sv_tracks sv)\<rparr>))"

definition detach_window :: "window_id \<Rightarrow> serving \<Rightarrow> session_effect list \<times> serving" where
  "detach_window w sv =
     (if map_of (sv_tracks sv) w = None then ([], sv)
      else ([SendControl (TrackEnded w)], sv\<lparr>sv_tracks := AList.delete w (sv_tracks sv)\<rparr>))"

section \<open>Starting a stream\<close>

definition session_track :: "backend_kind \<Rightarrow> bool" where
  "session_track kind = (kind = Native \<or> kind = DesktopBackend)"

definition kind_name :: "backend_kind \<Rightarrow> rstr" where
  "kind_name kind =
     (case kind of Native \<Rightarrow> lit ''Native'' | Passthrough \<Rightarrow> lit ''Passthrough'' | DesktopBackend \<Rightarrow> lit ''Desktop''
      | GameStream \<Rightarrow> lit ''GameStream'' | Rdp \<Rightarrow> lit ''Rdp'' | Vnc \<Rightarrow> lit ''Vnc'' | OtherBackend \<Rightarrow> lit ''Other'')"

record started =
  sd_backend :: stream_backend
  sd_limits :: stream_limits
  sd_track_id :: "rstr option"
  sd_handoff :: "handoff_target option"

definition host_start :: "serve_env \<Rightarrow> window_id \<Rightarrow> stream_options \<Rightarrow> serving \<Rightarrow> (rstr + started) \<times> serving" where
  "host_start env w options sv =
     (let kind = serve_backend (so_backend options) (ev_backends env)
      in if \<not> session_track kind then
           (case ev_handoff env kind w of
              None \<Rightarrow> (Inl (kind_name kind @ lit '' is not built on this host''), sv)
            | Some (Inl e) \<Rightarrow> (Inl e, sv)
            | Some (Inr target) \<Rightarrow>
                (Inr \<lparr>sd_backend = (case kind of Rdp \<Rightarrow> RdpStream | GameStream \<Rightarrow> GameStreamStream | Vnc \<Rightarrow> VncStream
                        | k \<Rightarrow> OtherStream (kind_name k)),
                      sd_limits = so_limits options, sd_track_id = None, sd_handoff = Some target\<rparr>, sv))
         else case find (\<lambda>c. List.member (ev_encoders env) c) (so_codecs options) of
             None \<Rightarrow> (Inl (lit ''no codec both sides support''), sv)
           | Some vc \<Rightarrow>
               (case ev_open env kind w vc of
                  Inl e \<Rightarrow> (Inl e, sv)
                | Inr _ \<Rightarrow>
                    (case attach_window env w vc sv of
                       (Inl e, sv) \<Rightarrow> (Inl e, sv)
                     | (Inr track, sv) \<Rightarrow>
                         (let h = sv_host sv; serial = hh_serial h;
                              row = \<lparr>sr_peer = sv_peer sv, sr_window = w, sr_requested = so_backend options, sr_backend = kind, sr_codec = vc\<rparr>
                          in (Inr \<lparr>sd_backend = (if kind = Native then NativeStream vc else DesktopStream vc),
                                sd_limits = so_limits options, sd_track_id = Some track, sd_handoff = None\<rparr>,
                              sv\<lparr>sv_host := h\<lparr>hh_rows := hh_rows h @ [(serial, row)], hh_serial := serial + 1\<rparr>\<rparr>)))))"

definition session_allows :: "serve_env \<Rightarrow> decision \<Rightarrow> window_id \<Rightarrow> bool" where
  "session_allows env d w =
     (dn_windows d = [] \<and> dn_device_windows d = []
      \<or> list_ex (\<lambda>i. wi_id i = w \<and> window_allowed (ev_lower env) d (wi_app_id i) (wi_title i)) (ev_windows env))"

definition refusal :: "stream_target \<Rightarrow> u32 \<Rightarrow> rstr \<Rightarrow> control_message" where
  "refusal target generation reason = StreamStartResponse target generation False (NativeStream H264) None None (Some reason)"

definition streams_default :: window_streams where
  "streams_default = \<lparr>ws_carriers = [], ws_audio = False\<rparr>"

definition start_stream :: "serve_env \<Rightarrow> window_id \<Rightarrow> stream_options \<Rightarrow> u32 \<Rightarrow> serving \<Rightarrow> session_effect list \<times> serving" where
  "start_stream env w options generation sv =
     (let kind = serve_backend (so_backend options) (ev_backends env);
          running = (case map_of (sv_streams sv) w of
              None \<Rightarrow> False
            | Some s \<Rightarrow> map_of (ws_carriers s) generation \<noteq> None \<or> list_ex (\<lambda>(_, k, _). k = kind) (ws_carriers s));
          (result, sv) =
            (if \<not> session_allows env (sv_decision sv) w then (Inl (lit ''not allowed for this account''), sv)
             else if running then (Inl (lit ''this window is already carried by '' @ kind_name kind), sv)
             else host_start env w options sv)
      in case result of
          Inl reason \<Rightarrow> ([SendControl (refusal (WindowTarget w) generation reason)], sv)
        | Inr sd \<Rightarrow>
            (let entry = (case map_of (sv_streams sv) w of None \<Rightarrow> streams_default | Some s \<Rightarrow> s);
                 entry = entry\<lparr>ws_audio := True,
                   ws_carriers := AList.update generation (backend_kind_of (sd_backend sd), sd_limits sd) (ws_carriers entry)\<rparr>
             in ([SendControl (StreamStartResponse (WindowTarget w) generation True (sd_backend sd) (sd_track_id sd) (sd_handoff sd) None)],
                 sv\<lparr>sv_streamed := (if List.member (sv_streamed sv) w then sv_streamed sv else sv_streamed sv @ [w]),
                   sv_streams := AList.update w entry (sv_streams sv)\<rparr>)))"

section \<open>Stopping\<close>

definition let_go :: "window_id \<Rightarrow> serving \<Rightarrow> serving" where
  "let_go w sv =
     sv\<lparr>sv_host := (sv_host sv)\<lparr>hh_compat := snd (compat_turn_off w (SessionOwner (sv_serial sv)) (hh_compat (sv_host sv)))\<rparr>,
       sv_streamed := filter (\<lambda>x. x \<noteq> w) (sv_streamed sv)\<rparr>"

definition end_stream :: "window_id \<Rightarrow> window_streams \<Rightarrow> serving \<Rightarrow> session_effect list \<times> serving" where
  "end_stream w ended sv =
     (let on_session = list_ex (\<lambda>(_, kind, _). session_track kind) (ws_carriers ended);
          (effs, sv) = (if on_session then detach_window w sv else ([], sv))
      in (effs @ [SendControl (StreamStopped (WindowTarget w))], sv))"

definition stop_stream :: "window_id \<Rightarrow> serving \<Rightarrow> session_effect list \<times> serving" where
  "stop_stream w sv =
     (let sv = let_go w sv
      in case map_of (sv_streams sv) w of
          None \<Rightarrow> ([], sv)
        | Some ended \<Rightarrow> end_stream w ended (sv\<lparr>sv_streams := AList.delete w (sv_streams sv)\<rparr>))"

definition stop_carrier :: "window_id \<Rightarrow> u32 \<Rightarrow> serving \<Rightarrow> session_effect list \<times> serving" where
  "stop_carrier w generation sv =
     (case map_of (sv_streams sv) w of
        None \<Rightarrow> ([], sv)
      | Some entry \<Rightarrow>
          (let left = entry\<lparr>ws_carriers := AList.delete generation (ws_carriers entry)\<rparr>;
               (effs, sv) = (case map_of (ws_carriers entry) generation of
                   None \<Rightarrow> ([], sv)
                 | Some (kind, _) \<Rightarrow> if session_track kind then detach_window w sv else ([], sv))
           in if ws_carriers left = [] then
                (let (effs', sv) = end_stream w left ((let_go w sv)\<lparr>sv_streams := AList.delete w (sv_streams sv)\<rparr>) in (effs @ effs', sv))
              else (effs, sv\<lparr>sv_streams := AList.update w left (sv_streams sv)\<rparr>)))"

section \<open>Input, windows, compatibility mode and private sessions\<close>

fun input_window :: "input_event \<Rightarrow> window_id option" where
  "input_window (PointerMove w _ _) = Some w"
| "input_window (PointerButton w _ _) = Some w"
| "input_window (PointerScroll w _ _) = Some w"
| "input_window (TouchInput w _ _ _ _) = Some w"
| "input_window _ = None"

definition streams_window :: "serving \<Rightarrow> window_id \<Rightarrow> bool" where
  "streams_window sv w = (map_of (sv_streams sv) w \<noteq> None)"

definition serving_input :: "input_event \<Rightarrow> serving \<Rightarrow> session_effect list \<times> serving" where
  "serving_input event sv =
     (case input_window event of
        Some w \<Rightarrow>
          if streams_window sv w then ([DeliverInput event (Some w)], sv\<lparr>sv_focus := Some w\<rparr>) else ([], sv)
      | None \<Rightarrow>
          (case sv_focus sv of
             None \<Rightarrow> ([], sv)
           | Some f \<Rightarrow> if streams_window sv f then ([DeliverInput event (sv_focus sv)], sv) else ([], sv)))"

definition allowed_windows :: "serve_env \<Rightarrow> decision \<Rightarrow> window_info list" where
  "allowed_windows env d = filter (\<lambda>i. window_allowed (ev_lower env) d (wi_app_id i) (wi_title i)) (ev_windows env)"

definition list_windows :: "serve_env \<Rightarrow> serving \<Rightarrow> session_effect list \<times> serving" where
  "list_windows env sv =
     (let windows = allowed_windows env (sv_decision sv)
      in ([SendControl (ListWindowsResponse windows)], sv\<lparr>sv_listed := Some windows\<rparr>))"

text \<open>One look of \<open>push_windows\<close>: the list again when it changed, once it was asked for.\<close>

definition push_windows :: "serve_env \<Rightarrow> serving \<Rightarrow> session_effect list \<times> serving" where
  "push_windows env sv =
     (if sv_listed sv = None \<or> sv_listed sv = Some (allowed_windows env (sv_decision sv)) then ([], sv) else list_windows env sv)"

text \<open>\<open>number\<close> writes a number in decimal.\<close>

definition serving_compatibility :: "(window_id \<Rightarrow> rstr) \<Rightarrow> serve_env \<Rightarrow> window_id \<Rightarrow> bool \<Rightarrow> serving \<Rightarrow> session_effect list \<times> serving" where
  "serving_compatibility number env w on sv =
     (let refused = (\<lambda>reason. CompatibilityAnswer w [] (Some reason));
          h = sv_host sv; who = SessionOwner (sv_serial sv)
      in if \<not> on then
           (let h = h\<lparr>hh_compat := snd (compat_turn_off w who (hh_compat h))\<rparr>
            in ([SendControl (CompatibilityAnswer w (case compat_endpoints w (hh_compat h) of None \<Rightarrow> [] | Some es \<Rightarrow> es) None)],
                sv\<lparr>sv_host := h\<rparr>))
         else if \<not> streams_window sv w then
           ([SendControl (refused (lit ''only a window this session streams can be put in compatibility mode''))], sv)
         else if dn_input (sv_decision sv) = Some False then
           ([SendControl (refused (lit ''compatibility mode hands the window's input to other programs, and this account may not drive windows''))], sv)
         else
           (let title = (case find (\<lambda>i. wi_id i = w) (case sv_listed sv of None \<Rightarrow> [] | Some ws \<Rightarrow> ws) of
                None \<Rightarrow> lit ''window '' @ number w
              | Some i \<Rightarrow> wi_title i)
            in case compat_turn_on (ev_providers env) w title who (hh_compat h) of
                (Inr endpoints, c) \<Rightarrow> ([SendControl (CompatibilityAnswer w endpoints None)], sv\<lparr>sv_host := h\<lparr>hh_compat := c\<rparr>\<rparr>)
              | (Inl reason, c) \<Rightarrow> ([SendControl (refused reason)], sv\<lparr>sv_host := h\<lparr>hh_compat := c\<rparr>\<rparr>)))"

definition serving_private :: "serve_env \<Rightarrow> bool \<Rightarrow> rstr option \<Rightarrow> serving \<Rightarrow> session_effect list \<times> serving" where
  "serving_private env start password sv =
     (case ev_private env of
        Inr _ \<Rightarrow> ([SetPrivate start password], sv\<lparr>sv_private := start\<rparr>)
      | Inl r \<Rightarrow> ([SetPrivate start password, SendControl (PrivateSessionRefused (pf_reason r) (pf_password r))], sv))"

definition set_limits :: "window_id \<Rightarrow> stream_limits \<Rightarrow> serving \<Rightarrow> serving" where
  "set_limits w limits sv =
     (case map_of (sv_streams sv) w of
        None \<Rightarrow> sv
      | Some s \<Rightarrow> sv\<lparr>sv_streams := AList.update w (s\<lparr>ws_carriers := map (\<lambda>(g, k, _). (g, k, limits)) (ws_carriers s)\<rparr>) (sv_streams sv)\<rparr>)"

section \<open>A message of the client\<close>

fun serving_handle :: "(window_id \<Rightarrow> rstr) \<Rightarrow> serve_env \<Rightarrow> control_message \<Rightarrow> serving \<Rightarrow> session_effect list \<times> serving" where
  "serving_handle number env (Input event) sv =
     (if dn_input (sv_decision sv) = Some False then ([], sv) else serving_input event sv)"
| "serving_handle number env (Clipboard txt) sv = ([SetHostClipboard txt], sv\<lparr>sv_clipboard := Some txt\<rparr>)"
| "serving_handle number env ListWindowsRequest sv = list_windows env sv"
| "serving_handle number env (StreamStartRequest target options generation) sv =
     (case target of
        WindowTarget w \<Rightarrow> start_stream env w options generation sv
      | _ \<Rightarrow> ([SendControl (refusal target generation (lit ''not supported by this host''))], sv))"
| "serving_handle number env (CompatibilityRequest w on) sv = serving_compatibility number env w on sv"
| "serving_handle number env (StreamStopRequest target) sv = (case target of WindowTarget w \<Rightarrow> stop_stream w sv | _ \<Rightarrow> ([], sv))"
| "serving_handle number env (CarrierStop w generation) sv = stop_carrier w generation sv"
| "serving_handle number env (SshCertificateRequest key) sv = ([SendControl (SshCertificateResponse (ev_certificate env))], sv)"
| "serving_handle number env (PrivateSessionRequest start password) sv = serving_private env start password sv"
| "serving_handle number env (CommandControl m) sv =
     (let who = \<lparr>ak_peer = sv_peer sv, ak_account = sv_account sv\<rparr>; cs = channels_handle (ev_command env) who m (sv_channels sv)
      in (map (SendControl \<circ> CommandControl) (cs_queue cs),
          sv\<lparr>sv_channels := cs\<lparr>cs_queue := [], cs_sent := cs_sent cs @ map (Pair None) (cs_queue cs)\<rparr>\<rparr>))"
| "serving_handle number env Ping sv = ([SendControl Pong], sv)"
| "serving_handle number env Pong sv = ([], sv\<lparr>sv_rtt := rtt_answered (ev_now env) (sv_rtt sv)\<rparr>)"
| "serving_handle number env (RendezvousId discovery) sv =
     ([], sv\<lparr>sv_host := (sv_host sv)\<lparr>hh_discovery := peers_set (sv_peer sv) discovery (hh_discovery (sv_host sv))\<rparr>\<rparr>)"
| "serving_handle number env (StreamLimits w limits) sv = ([], set_limits w limits sv)"
| "serving_handle number env _ sv = ([], sv)"

text \<open>The session as it opens, and a run of messages.\<close>

definition serving_new :: "bytes \<Rightarrow> account option \<Rightarrow> nat \<Rightarrow> decision \<Rightarrow> host_shared \<Rightarrow> serving" where
  "serving_new peer acc serial d h =
     \<lparr>sv_peer = peer, sv_account = acc, sv_serial = serial, sv_decision = d, sv_channels = channels_new 0, sv_streams = [],
       sv_focus = None, sv_clipboard = None, sv_listed = None, sv_streamed = [], sv_private = False, sv_rtt = round_trip_default,
       sv_tracks = [], sv_host = h\<rparr>"

fun serving_run :: "(window_id \<Rightarrow> rstr) \<Rightarrow> (serve_env \<times> control_message) list \<Rightarrow> serving \<Rightarrow> session_effect list \<times> serving" where
  "serving_run number [] sv = ([], sv)"
| "serving_run number ((env, m) # ms) sv =
     (let (effs, sv) = serving_handle number env m sv; (rest, sv) = serving_run number ms sv in (effs @ rest, sv))"

text \<open>The end of the session: what it held is let go.\<close>

definition serving_drop :: "serving \<Rightarrow> session_effect list \<times> host_shared" where
  "serving_drop sv =
     (if sv_private sv then [SetPrivate False None] else [],
      (sv_host sv)\<lparr>hh_compat := compat_session_ended (sv_serial sv) (hh_compat (sv_host sv))\<rparr>)"

end
