(* ===== verification/Session_Safety.thy ===== *)
theory Session_Safety
  imports Host_Session
begin

text \<open>
  What holds of a session on the host whatever its client sends: which windows it streams and drives, and what
  becomes of a window's track while its carriers change.
\<close>

section \<open>What a session may stream and drive\<close>

text \<open>
  A step of the session: the decision stays, windows join the streams only as \<open>new\<close> says, and input goes to a
  streamed window, the one an event names when it names one.
\<close>

definition step_ok :: "serving \<Rightarrow> session_effect list \<times> serving \<Rightarrow> window_id set \<Rightarrow> bool" where
  "step_ok sv r new = (sv_decision (snd r) = sv_decision sv
     \<and> (\<forall>w. streams_window (snd r) w \<longrightarrow> streams_window sv w \<or> w \<in> new)
     \<and> (\<forall>e f. DeliverInput e f \<in> set (fst r) \<longrightarrow> dn_input (sv_decision sv) \<noteq> Some False
          \<and> (\<exists>w. f = Some w \<and> streams_window sv w \<and> (input_window e = None \<or> input_window e = Some w))))"

lemma streams_window_update: "streams_window (sv\<lparr>sv_streams := AList.update w x (sv_streams sv)\<rparr>) w' \<longleftrightarrow> w' = w \<or> streams_window sv w'"
  by (simp add: streams_window_def update_conv')

lemma streams_window_delete: "streams_window (sv\<lparr>sv_streams := AList.delete w (sv_streams sv)\<rparr>) w' \<longleftrightarrow> w' \<noteq> w \<and> streams_window sv w'"
  by (simp add: streams_window_def delete_conv')

lemma attach_window_rest:
  "sv_decision (snd (attach_window env w c sv)) = sv_decision sv" "sv_streams (snd (attach_window env w c sv)) = sv_streams sv"
  "sv_streamed (snd (attach_window env w c sv)) = sv_streamed sv"
  by (auto simp: attach_window_def split: sum.split)

lemma host_start_cases:
  "\<exists>h c. snd (host_start env w options sv) = sv \<or> snd (host_start env w options sv) = (snd (attach_window env w c sv))\<lparr>sv_host := h\<rparr>
    \<or> snd (host_start env w options sv) = snd (attach_window env w c sv)"
proof (cases "session_track (serve_backend (so_backend options) (ev_backends env))")
  case False
  then have "snd (host_start env w options sv) = sv"
    by (auto simp: host_start_def Let_def split: option.split sum.split)
  then show ?thesis
    by blast
next
  case track: True
  show ?thesis
  proof (cases "find (List.member (ev_encoders env)) (so_codecs options)")
    case None
    with track have "snd (host_start env w options sv) = sv"
      by (simp add: host_start_def Let_def)
    then show ?thesis
      by blast
  next
    case (Some c)
    obtain res sv1 where a: "attach_window env w c sv = (res, sv1)"
      by fastforce
    have "snd (host_start env w options sv) = sv \<or> (\<exists>h. snd (host_start env w options sv) = sv1\<lparr>sv_host := h\<rparr>)
        \<or> snd (host_start env w options sv) = sv1"
      using track Some by (cases res) (auto simp: host_start_def Let_def a split: sum.split)
    then show ?thesis
      using a by (metis snd_conv)
  qed
qed

lemma host_start_rest:
  "sv_decision (snd (host_start env w options sv)) = sv_decision sv" "sv_streams (snd (host_start env w options sv)) = sv_streams sv"
  "sv_streamed (snd (host_start env w options sv)) = sv_streamed sv"
  using host_start_cases [of env w options sv] attach_window_rest [of env w _ sv] by auto

lemma detach_window_rest:
  "sv_decision (snd (detach_window w sv)) = sv_decision sv" "sv_streams (snd (detach_window w sv)) = sv_streams sv"
  "sv_streamed (snd (detach_window w sv)) = sv_streamed sv"
  "\<forall>e f. DeliverInput e f \<notin> set (fst (detach_window w sv))"
  by (auto simp: detach_window_def)

lemma end_stream_rest:
  "sv_decision (snd (end_stream w s sv)) = sv_decision sv" "sv_streams (snd (end_stream w s sv)) = sv_streams sv"
  "sv_streamed (snd (end_stream w s sv)) = sv_streamed sv"
  "\<forall>e f. DeliverInput e f \<notin> set (fst (end_stream w s sv))"
  using detach_window_rest [of w sv] by (auto simp: end_stream_def split_beta Let_def)

lemma start_stream_step: "step_ok sv (start_stream env w options g sv) {w' \<in> {w}. session_allows env (sv_decision sv) w'}"
proof (cases "session_allows env (sv_decision sv) w")
  case True
  obtain res sv1 where hs: "host_start env w options sv = (res, sv1)"
    by (cases "host_start env w options sv")
  have "sv_decision sv1 = sv_decision sv" "sv_streams sv1 = sv_streams sv"
    using host_start_rest [of env w options sv] by (simp_all add: hs)
  with True show ?thesis
    by (auto simp: start_stream_def step_ok_def hs Let_def streams_window_def update_conv' split: sum.split option.split if_splits)
next
  case False
  then show ?thesis
    by (auto simp: start_stream_def step_ok_def Let_def)
qed

lemma let_go_rest:
  "sv_decision (let_go w sv) = sv_decision sv" "sv_streams (let_go w sv) = sv_streams sv"
  "sv_streamed (let_go w sv) = filter (\<lambda>x. x \<noteq> w) (sv_streamed sv)" "sv_tracks (let_go w sv) = sv_tracks sv"
  by (simp_all add: let_go_def)

lemma stop_stream_step: "step_ok sv (stop_stream w sv) {}"
  by (auto simp: stop_stream_def step_ok_def Let_def let_go_rest end_stream_rest streams_window_def delete_conv' split: option.splits)

lemma stop_carrier_step: "step_ok sv (stop_carrier w g sv) {}"
proof (cases "map_of (sv_streams sv) w")
  case (Some entry)
  obtain effs sv1 where d: "(case map_of (ws_carriers entry) g of
        None \<Rightarrow> ([], sv) | Some (kind, _) \<Rightarrow> if session_track kind then detach_window w sv else ([], sv)) = (effs, sv1)"
    by (metis surj_pair)
  then have same: "sv_decision sv1 = sv_decision sv" "sv_streams sv1 = sv_streams sv" and none: "DeliverInput e f \<notin> set effs" for e f
    using detach_window_rest [of w sv] by (auto split: option.splits if_splits)
  obtain effs' sv2 where e: "end_stream w (entry\<lparr>ws_carriers := AList.delete g (ws_carriers entry)\<rparr>)
        ((let_go w sv1)\<lparr>sv_streams := AList.delete w (sv_streams sv1)\<rparr>) = (effs', sv2)"
    by fastforce
  then have "sv_decision sv2 = sv_decision sv" "sv_streams sv2 = AList.delete w (sv_streams sv)" "DeliverInput e f \<notin> set effs'" for e f
    using end_stream_rest [of w "entry\<lparr>ws_carriers := AList.delete g (ws_carriers entry)\<rparr>" "(let_go w sv1)\<lparr>sv_streams := AList.delete w (sv_streams sv1)\<rparr>"]
    by (simp_all add: let_go_rest same)
  moreover have "stop_carrier w g sv = (if AList.delete g (ws_carriers entry) = [] then (effs @ effs', sv2)
      else (effs, sv1\<lparr>sv_streams := AList.update w (entry\<lparr>ws_carriers := AList.delete g (ws_carriers entry)\<rparr>) (sv_streams sv1)\<rparr>))"
    unfolding stop_carrier_def Some option.case Let_def d prod.case e by simp
  ultimately show ?thesis
    using Some same none by (auto simp: step_ok_def streams_window_def delete_conv' update_conv' split: if_splits)
qed (simp add: stop_carrier_def step_ok_def)

lemma serving_input_step: "dn_input (sv_decision sv) \<noteq> Some False \<Longrightarrow> step_ok sv (serving_input e sv) {}"
  by (auto simp: serving_input_def step_ok_def streams_window_def split: option.split)

definition starts_asked :: "serve_env \<Rightarrow> control_message \<Rightarrow> window_id set" where
  "starts_asked env m = (case m of StreamStartRequest (WindowTarget w) _ _ \<Rightarrow> {w} | _ \<Rightarrow> {})"

lemma serving_handle_step:
  "step_ok sv (serving_handle number env m sv) {w \<in> starts_asked env m. session_allows env (sv_decision sv) w}"
proof -
  have silent: "step_ok sv (effs, sv') new"
    if "sv_decision sv' = sv_decision sv" "sv_streams sv' = sv_streams sv" "\<And>e f. DeliverInput e f \<notin> set effs" for effs sv' new
    using that by (simp add: step_ok_def streams_window_def)
  show ?thesis
  proof (cases m)
    case (Input e)
    then show ?thesis
      using serving_input_step [of sv e] by (auto simp: starts_asked_def intro: silent)
  next
    case (StreamStartRequest target options g)
    then show ?thesis
      using start_stream_step [of sv env _ options g] by (auto simp: starts_asked_def intro: silent split: stream_target.split)
  next
    case (StreamStopRequest target)
    then show ?thesis
      using stop_stream_step [of sv] by (auto simp: starts_asked_def intro: silent split: stream_target.split)
  next
    case (CarrierStop w g)
    then show ?thesis
      using stop_carrier_step [of sv w g] by (simp add: starts_asked_def)
  next
    case (StreamLimits w limits)
    have "streams_window (set_limits w limits sv) w' \<longrightarrow> streams_window sv w'" for w'
      by (auto simp: set_limits_def streams_window_def update_conv' split: option.splits if_splits)
    moreover have "sv_decision (set_limits w limits sv) = sv_decision sv"
      by (simp add: set_limits_def split: option.split)
    ultimately show ?thesis
      by (simp add: StreamLimits step_ok_def)
  next
    case (CompatibilityRequest w on)
    show ?thesis
      by (auto simp: CompatibilityRequest serving_compatibility_def Let_def intro!: silent split: option.split prod.split sum.split)
  qed (auto simp: list_windows_def serving_private_def Let_def intro!: silent split: sum.split)
qed

text \<open>Over a run of messages, from a new session.\<close>

lemma serving_run_steps:
  assumes "serving_run number ms sv = (effs, sv')" "\<And>w. streams_window sv w \<Longrightarrow> w \<in> W"
    "\<And>env m w. (env, m) \<in> set ms \<Longrightarrow> w \<in> starts_asked env m \<Longrightarrow> session_allows env (sv_decision sv) w \<Longrightarrow> w \<in> W"
  shows "sv_decision sv' = sv_decision sv
    \<and> (\<forall>e f. DeliverInput e f \<in> set effs \<longrightarrow> dn_input (sv_decision sv) \<noteq> Some False
        \<and> (\<exists>w \<in> W. f = Some w \<and> (input_window e = None \<or> input_window e = Some w)))"
  using assms
proof (induction ms arbitrary: sv effs)
  case (Cons x ms)
  obtain env m where x: "x = (env, m)"
    by fastforce
  obtain effs1 sv1 where one: "serving_handle number env m sv = (effs1, sv1)"
    by fastforce
  obtain effs2 where two: "serving_run number ms sv1 = (effs2, sv')" and effs: "effs = effs1 @ effs2"
    using Cons.prems(1) by (auto simp: x one Let_def split: prod.splits)
  have step: "step_ok sv (effs1, sv1) {w \<in> starts_asked env m. session_allows env (sv_decision sv) w}"
    using serving_handle_step [of sv number env m] by (simp add: one)
  then have d: "sv_decision sv1 = sv_decision sv"
    by (simp add: step_ok_def)
  have "w \<in> W" if "streams_window sv1 w" for w
    using step that Cons.prems(2) Cons.prems(3) [of env m w] unfolding step_ok_def by (auto simp: x)
  then have "sv_decision sv' = sv_decision sv1 \<and> (\<forall>e f. DeliverInput e f \<in> set effs2 \<longrightarrow> dn_input (sv_decision sv1) \<noteq> Some False
        \<and> (\<exists>w \<in> W. f = Some w \<and> (input_window e = None \<or> input_window e = Some w)))"
    using Cons.prems(3) by (intro Cons.IH [OF two]) (auto simp: d)
  with step Cons.prems(2) show ?case
    unfolding effs step_ok_def by (fastforce simp: d)
qed simp

text \<open>
  C12. A session drives only windows the policy let it stream: whatever messages a client sends, every input that
  reaches the host's window source goes to a window for which the client asked a stream while the session's
  decision allowed that window, the window the event names if it names one; and none does when the policy
  forbids input.
\<close>

theorem input_needs_permission:
  assumes "serving_run number ms (serving_new peer acc serial d h) = (effs, sv)" "DeliverInput e f \<in> set effs"
  shows "dn_input d \<noteq> Some False \<and> (\<exists>w env m. f = Some w \<and> (env, m) \<in> set ms \<and> w \<in> starts_asked env m
    \<and> session_allows env d w \<and> (input_window e = None \<or> input_window e = Some w))"
  using serving_run_steps [OF assms(1), of "{w. \<exists>env m. (env, m) \<in> set ms \<and> w \<in> starts_asked env m \<and> session_allows env d w}"] assms(2)
  by (fastforce simp: serving_new_def streams_window_def)

section \<open>The session's tables\<close>

text \<open>The windows with a track, those with a carrier on the session's tracks, and the streamed ones.\<close>

definition attached :: "(window_id \<times> video_codec) list \<Rightarrow> window_id set" where
  "attached tracks = dom (map_of tracks)"

definition stream_at :: "(window_id \<times> window_streams) list \<Rightarrow> window_id \<Rightarrow> window_streams option" where
  "stream_at ss w = map_of ss w"

definition on_track :: "window_streams \<Rightarrow> bool" where
  "on_track s = list_ex (\<lambda>(_, kind, _). session_track kind) (ws_carriers s)"

definition stream_ok :: "window_streams \<Rightarrow> bool" where
  "stream_ok s = (ws_carriers s \<noteq> [] \<and> distinct (map fst (ws_carriers s)))"

definition streams_ok :: "(window_id \<times> window_streams) list \<Rightarrow> bool" where
  "streams_ok ss = (\<forall>w s. stream_at ss w = Some s \<longrightarrow> stream_ok s)"

definition track_windows :: "(window_id \<times> window_streams) list \<Rightarrow> window_id set" where
  "track_windows ss = {w. \<exists>s. stream_at ss w = Some s \<and> on_track s}"

definition serving_ok :: "serving \<Rightarrow> bool" where
  "serving_ok sv = (streams_ok (sv_streams sv) \<and> distinct (sv_streamed sv)
     \<and> set (sv_streamed sv) = {w. stream_at (sv_streams sv) w \<noteq> None}
     \<and> attached (sv_tracks sv) \<subseteq> track_windows (sv_streams sv))"

lemma stream_at_update: "stream_at (AList.update w s ss) w' = (if w' = w then Some s else stream_at ss w')"
  by (simp add: stream_at_def update_conv')

lemma stream_at_delete: "stream_at (AList.delete w ss) w' = (if w' = w then None else stream_at ss w')"
  by (simp add: stream_at_def delete_conv')

lemma attached_update: "attached (AList.update w c tracks) = insert w (attached tracks)"
  by (simp add: attached_def update_conv')

lemma attached_delete: "attached (AList.delete w tracks) = attached tracks - {w}"
  by (simp add: attached_def delete_conv')

lemma attach_window_tracks:
  "attached (sv_tracks (snd (attach_window env w c sv))) \<subseteq> insert w (attached (sv_tracks sv))"
  by (auto simp: attach_window_def attached_update split: sum.splits if_splits)

lemma attach_window_failed: "attach_window env w c sv = (Inl e, sv1) \<Longrightarrow> sv1 = sv"
  by (auto simp: attach_window_def split: sum.splits if_splits)

lemma host_start_tracks:
  assumes "host_start env w options sv = (res, sv1)"
  shows "(case res of Inl _ \<Rightarrow> sv1 = sv
       | Inr sd \<Rightarrow> attached (sv_tracks sv1) \<subseteq>
           (if session_track (backend_kind_of (sd_backend sd)) then insert w (attached (sv_tracks sv)) else attached (sv_tracks sv)))"
proof (cases "session_track (serve_backend (so_backend options) (ev_backends env))")
  case False
  with assms show ?thesis
    by (auto simp: host_start_def Let_def session_track_def split: option.splits sum.splits backend_kind.splits)
next
  case track: True
  show ?thesis
  proof (cases "find (List.member (ev_encoders env)) (so_codecs options)")
    case None
    with track assms show ?thesis
      by (auto simp: host_start_def Let_def)
  next
    case (Some c)
    obtain ares sv2 where a: "attach_window env w c sv = (ares, sv2)"
      by fastforce
    have tracks: "attached (sv_tracks sv2) \<subseteq> insert w (attached (sv_tracks sv))"
      using attach_window_tracks [of env w c sv] by (simp add: a)
    show ?thesis
    proof (cases ares)
      case (Inl e)
      with track Some assms attach_window_failed [of env w c sv e sv2] show ?thesis
        by (auto simp: host_start_def Let_def a split: sum.splits)
    next
      case (Inr t)
      let ?k = "serve_backend (so_backend options) (ev_backends env)"
      have "(\<exists>e. res = Inl e \<and> sv1 = sv) \<or> (\<exists>sd. res = Inr sd \<and> sv_tracks sv1 = sv_tracks sv2
          \<and> sd_backend sd = (if ?k = Native then NativeStream c else DesktopStream c))"
        using track Some assms by (auto simp: host_start_def Let_def a Inr split: sum.splits)
      with tracks show ?thesis
        by (auto simp: session_track_def)
    qed
  qed
qed

lemma detach_window_tracks: "attached (sv_tracks (snd (detach_window w sv))) = attached (sv_tracks sv) - {w}"
  by (auto simp: detach_window_def attached_def delete_conv')

lemma end_stream_tracks:
  "attached (sv_tracks (snd (end_stream w s sv))) = (if on_track s then attached (sv_tracks sv) - {w} else attached (sv_tracks sv))"
  using detach_window_tracks [of w sv] by (auto simp: end_stream_def on_track_def split_beta Let_def)

lemma streams_ok_update: "streams_ok ss \<Longrightarrow> stream_ok s \<Longrightarrow> streams_ok (AList.update w s ss)"
  by (auto simp: streams_ok_def stream_at_update split: if_splits)

lemma streams_ok_delete: "streams_ok ss \<Longrightarrow> streams_ok (AList.delete w ss)"
  by (auto simp: streams_ok_def stream_at_delete split: if_splits)

lemma track_windows_update:
  "track_windows (AList.update w s ss) = (if on_track s then insert w (track_windows ss) else track_windows ss - {w})"
  by (auto simp: track_windows_def stream_at_update split: if_splits)

lemma track_windows_delete: "track_windows (AList.delete w ss) = track_windows ss - {w}"
  by (auto simp: track_windows_def stream_at_delete split: if_splits)

lemma on_track_iff: "on_track s \<longleftrightarrow> (\<exists>g k l. (g, k, l) \<in> set (ws_carriers s) \<and> session_track k)"
  by (auto simp: on_track_def list_ex_iff)

text \<open>A carrier at a generation the window does not have is added to the others.\<close>

lemma update_new: "map_of xs k = None \<Longrightarrow> AList.update k v xs = xs @ [(k, v)]"
  by (induction xs) (auto split: if_splits)

lemma serving_okI:
  assumes "streams_ok (sv_streams sv)" "distinct (sv_streamed sv)" "\<And>w. w \<in> set (sv_streamed sv) \<longleftrightarrow> stream_at (sv_streams sv) w \<noteq> None"
    "attached (sv_tracks sv) \<subseteq> track_windows (sv_streams sv)"
  shows "serving_ok sv"
  using assms by (auto simp: serving_ok_def)

lemma start_stream_cases:
  "(\<exists>reason. snd (start_stream env w options g sv) = sv)
   \<or> (\<exists>sd sv1 entry. host_start env w options sv = (Inr sd, sv1)
       \<and> entry = (case stream_at (sv_streams sv) w of None \<Rightarrow> streams_default | Some s \<Rightarrow> s)
       \<and> map_of (ws_carriers entry) g = None
       \<and> snd (start_stream env w options g sv) = sv1\<lparr>sv_streamed := (if w \<in> set (sv_streamed sv) then sv_streamed sv else sv_streamed sv @ [w]),
           sv_streams := AList.update w (entry\<lparr>ws_audio := True,
             ws_carriers := ws_carriers entry @ [(g, backend_kind_of (sd_backend sd), sd_limits sd)]\<rparr>) (sv_streams sv)\<rparr>)"
proof -
  obtain res sv1 where hs: "host_start env w options sv = (res, sv1)"
    by fastforce
  have rest: "sv_streams sv1 = sv_streams sv" "sv_streamed sv1 = sv_streamed sv"
    using host_start_rest [of env w options sv] by (simp_all add: hs)
  let ?entry = "case stream_at (sv_streams sv) w of None \<Rightarrow> streams_default | Some s \<Rightarrow> s"
  show ?thesis
  proof (cases "session_allows env (sv_decision sv) w \<and> map_of (ws_carriers ?entry) g = None
      \<and> \<not> list_ex (\<lambda>(_, k, _). k = serve_backend (so_backend options) (ev_backends env)) (ws_carriers ?entry)")
    case False
    then have "snd (start_stream env w options g sv) = sv"
      by (auto simp: start_stream_def Let_def stream_at_def streams_default_def split: option.splits)
    then show ?thesis
      by blast
  next
    case go: True
    show ?thesis
    proof (cases res)
      case (Inl e)
      then have "sv1 = sv"
        using host_start_tracks [OF hs] by simp
      with go Inl have "snd (start_stream env w options g sv) = sv"
        by (auto simp: start_stream_def Let_def stream_at_def hs split: option.splits)
      then show ?thesis
        by blast
    next
      case (Inr sd)
      with go rest have "snd (start_stream env w options g sv) = sv1\<lparr>sv_streamed := (if w \<in> set (sv_streamed sv) then sv_streamed sv else sv_streamed sv @ [w]),
           sv_streams := AList.update w (?entry\<lparr>ws_audio := True,
             ws_carriers := ws_carriers ?entry @ [(g, backend_kind_of (sd_backend sd), sd_limits sd)]\<rparr>) (sv_streams sv)\<rparr>"
        by (simp add: start_stream_def Let_def stream_at_def hs update_new split: option.splits)
      with go hs Inr show ?thesis
        by blast
    qed
  qed
qed

lemma start_stream_ok: "serving_ok sv \<Longrightarrow> serving_ok (snd (start_stream env w options g sv))"
  using start_stream_cases [of env w options g sv]
proof (elim disjE exE conjE)
  fix sd sv1 entry
  assume sv: "serving_ok sv" and hs: "host_start env w options sv = (Inr sd, sv1)"
    and entry: "entry = (case stream_at (sv_streams sv) w of None \<Rightarrow> streams_default | Some s \<Rightarrow> s)" "map_of (ws_carriers entry) g = None"
    and eq: "snd (start_stream env w options g sv) = sv1\<lparr>sv_streamed := (if w \<in> set (sv_streamed sv) then sv_streamed sv else sv_streamed sv @ [w]),
           sv_streams := AList.update w (entry\<lparr>ws_audio := True,
             ws_carriers := ws_carriers entry @ [(g, backend_kind_of (sd_backend sd), sd_limits sd)]\<rparr>) (sv_streams sv)\<rparr>"
  define e' where "e' = entry\<lparr>ws_audio := True, ws_carriers := ws_carriers entry @ [(g, backend_kind_of (sd_backend sd), sd_limits sd)]\<rparr>"
  have "stream_at (sv_streams sv) w = Some s \<Longrightarrow> stream_ok s" for s
    using sv by (auto simp: serving_ok_def streams_ok_def)
  then have "distinct (map fst (ws_carriers entry))"
    by (cases "stream_at (sv_streams sv) w") (auto simp: entry(1) streams_default_def stream_ok_def)
  then have "stream_ok e'"
    using entry(2) by (auto simp: e'_def stream_ok_def map_of_eq_None_iff)
  then have "streams_ok (AList.update w e' (sv_streams sv))"
    using sv by (simp add: serving_ok_def streams_ok_update)
  moreover have "attached (sv_tracks sv1) \<subseteq> track_windows (AList.update w e' (sv_streams sv))"
  proof -
    have on: "on_track e' \<longleftrightarrow> session_track (backend_kind_of (sd_backend sd)) \<or> on_track entry"
      by (auto simp: on_track_iff e'_def)
    have "w \<in> track_windows (sv_streams sv) \<Longrightarrow> on_track entry"
      by (auto simp: track_windows_def entry(1))
    then show ?thesis
      using sv host_start_tracks [OF hs] by (auto simp: track_windows_update on serving_ok_def split: if_splits)
  qed
  ultimately show ?thesis
    unfolding eq e'_def [symmetric] using sv
    by (intro serving_okI) (auto simp: serving_ok_def stream_at_update)
qed simp

lemma let_go_host_only: "sv_streams (let_go w sv) = sv_streams sv" "sv_tracks (let_go w sv) = sv_tracks sv"
  by (simp_all add: let_go_def)

lemma stop_stream_ok:
  assumes "serving_ok sv"
  shows "serving_ok (snd (stop_stream w sv))"
proof (cases "stream_at (sv_streams sv) w")
  case None
  then have "snd (stop_stream w sv) = let_go w sv" "w \<notin> set (sv_streamed sv)"
    using assms by (auto simp: stop_stream_def Let_def stream_at_def let_go_rest serving_ok_def)
  with assms show ?thesis
    by (auto simp: serving_ok_def let_go_rest)
next
  case (Some s)
  let ?sv = "(let_go w sv)\<lparr>sv_streams := AList.delete w (sv_streams sv)\<rparr>"
  have "snd (stop_stream w sv) = snd (end_stream w s ?sv)"
    using Some by (simp add: stop_stream_def Let_def stream_at_def let_go_rest)
  moreover have "attached (sv_tracks sv) \<subseteq> track_windows (sv_streams sv)"
    using assms by (simp add: serving_ok_def)
  moreover have "w \<in> track_windows (sv_streams sv) \<longleftrightarrow> on_track s"
    using Some by (simp add: track_windows_def)
  ultimately show ?thesis
    using assms by (intro serving_okI)
      (auto simp: serving_ok_def end_stream_rest end_stream_tracks let_go_rest streams_ok_delete stream_at_delete track_windows_delete)
qed

lemma stop_carrier_ok:
  assumes "serving_ok sv"
  shows "serving_ok (snd (stop_carrier w g sv))"
proof (cases "stream_at (sv_streams sv) w")
  case None
  with assms show ?thesis
    by (simp add: stop_carrier_def stream_at_def)
next
  case (Some entry)
  let ?left = "entry\<lparr>ws_carriers := AList.delete g (ws_carriers entry)\<rparr>"
  obtain effs sv1 where d: "(case map_of (ws_carriers entry) g of
        None \<Rightarrow> ([], sv) | Some (kind, _) \<Rightarrow> if session_track kind then detach_window w sv else ([], sv)) = (effs, sv1)"
    by (metis surj_pair)
  have same: "sv_streams sv1 = sv_streams sv" "sv_streamed sv1 = sv_streamed sv"
    using d detach_window_rest [of w sv] by (auto split: option.splits if_splits)
  have either: "sv1 = sv \<or> sv1 = snd (detach_window w sv)"
    using d by (auto split: option.splits if_splits)
  have entry_ok: "stream_ok entry"
    using assms Some by (auto simp: serving_ok_def streams_ok_def)
  have lost: "attached (sv_tracks sv1) \<subseteq> attached (sv_tracks sv)" "w \<in> attached (sv_tracks sv1) \<Longrightarrow> on_track ?left"
  proof -
    show "attached (sv_tracks sv1) \<subseteq> attached (sv_tracks sv)"
      using either by (elim disjE) (simp_all add: detach_window_tracks)
    assume w: "w \<in> attached (sv_tracks sv1)"
    then have "w \<in> attached (sv_tracks sv)"
      using \<open>attached (sv_tracks sv1) \<subseteq> attached (sv_tracks sv)\<close> by blast
    then have "on_track entry"
      using assms Some by (auto simp: serving_ok_def track_windows_def)
    then obtain g' k l where "(g', k, l) \<in> set (ws_carriers entry)" and k: "session_track k"
      by (auto simp: on_track_iff)
    then have at: "map_of (ws_carriers entry) g' = Some (k, l)"
      using entry_ok by (simp add: stream_ok_def)
    have "g' \<noteq> g"
    proof
      assume "g' = g"
      then have "sv1 = snd (detach_window w sv)"
        using d at k by simp
      then show False
        using w detach_window_tracks [of w sv] by simp
    qed
    with at have "map_of (ws_carriers ?left) g' = Some (k, l)"
      by (simp add: delete_conv')
    then show "on_track ?left"
      using k map_of_SomeD by (fastforce simp: on_track_iff)
  qed
  have carrier: "stop_carrier w g sv = (if ws_carriers ?left = []
      then (let (effs', sv2) = end_stream w ?left ((let_go w sv1)\<lparr>sv_streams := AList.delete w (sv_streams sv1)\<rparr>) in (effs @ effs', sv2))
      else (effs, sv1\<lparr>sv_streams := AList.update w ?left (sv_streams sv1)\<rparr>))"
    unfolding stop_carrier_def Some [unfolded stream_at_def] option.case Let_def d prod.case by (rule refl)
  show ?thesis
  proof (cases "ws_carriers ?left = []")
    case True
    then have "snd (stop_carrier w g sv) = snd (end_stream w ?left ((let_go w sv1)\<lparr>sv_streams := AList.delete w (sv_streams sv1)\<rparr>))"
      by (simp add: carrier split_beta)
    moreover have "w \<notin> attached (sv_tracks sv1)"
      using lost(2) True by (auto simp: on_track_def)
    ultimately show ?thesis
      using assms lost(1) by (intro serving_okI)
        (auto simp: serving_ok_def end_stream_rest end_stream_tracks let_go_rest same streams_ok_delete stream_at_delete track_windows_delete)
  next
    case False
    then have "snd (stop_carrier w g sv) = sv1\<lparr>sv_streams := AList.update w ?left (sv_streams sv1)\<rparr>"
      by (simp add: carrier)
    moreover have "stream_ok ?left"
      using entry_ok False by (auto simp: stream_ok_def distinct_delete)
    ultimately show ?thesis
      using assms lost Some by (intro serving_okI)
        (auto simp: serving_ok_def same streams_ok_update stream_at_update track_windows_update)
  qed
qed


lemma set_limits_at:
  "stream_at (sv_streams (set_limits w limits sv)) w' = (if w' = w
     then map_option (\<lambda>s. s\<lparr>ws_carriers := map (\<lambda>(g, k, _). (g, k, limits)) (ws_carriers s)\<rparr>) (stream_at (sv_streams sv) w)
     else stream_at (sv_streams sv) w')"
  by (auto simp: set_limits_def stream_at_def update_conv' split: option.split)

lemma set_limits_ok:
  assumes "serving_ok sv"
  shows "serving_ok (set_limits w limits sv)"
proof (rule serving_okI)
  have "map fst (map (\<lambda>(g, k, _). (g, k, limits)) cs) = map fst cs" for cs :: "(u32 \<times> backend_kind \<times> stream_limits) list"
    by (induction cs) auto
  then show "streams_ok (sv_streams (set_limits w limits sv))"
    using assms by (auto simp: streams_ok_def set_limits_at serving_ok_def stream_ok_def simp del: map_map)
  have "on_track (s\<lparr>ws_carriers := map (\<lambda>(g, k, _). (g, k, limits)) (ws_carriers s)\<rparr>) \<longleftrightarrow> on_track s" for s
    by (simp add: on_track_def list_ex_iff split_beta)
  then have "track_windows (sv_streams (set_limits w limits sv)) = track_windows (sv_streams sv)"
    by (auto simp: track_windows_def set_limits_at)
  then show "attached (sv_tracks (set_limits w limits sv)) \<subseteq> track_windows (sv_streams (set_limits w limits sv))"
    using assms by (simp add: serving_ok_def set_limits_def split: option.split)
  have same: "sv_streamed (set_limits w limits sv) = sv_streamed sv"
    by (simp add: set_limits_def split: option.split)
  show "distinct (sv_streamed (set_limits w limits sv))"
    using assms by (simp add: same serving_ok_def)
  show "w' \<in> set (sv_streamed (set_limits w limits sv)) \<longleftrightarrow> stream_at (sv_streams (set_limits w limits sv)) w' \<noteq> None" for w'
    using assms by (auto simp: same serving_ok_def set_limits_at)
qed

text \<open>The other messages leave the tables as they are.\<close>

lemma serving_ok_same:
  assumes "serving_ok sv" "sv_streams sv' = sv_streams sv" "sv_streamed sv' = sv_streamed sv" "sv_tracks sv' = sv_tracks sv"
  shows "serving_ok sv'"
  using assms by (simp add: serving_ok_def)

lemma serving_handle_ok:
  assumes "serving_ok sv"
  shows "serving_ok (snd (serving_handle number env m sv))"
proof (cases m)
  case (Input e)
  then show ?thesis
    using assms by (auto simp: serving_input_def intro: serving_ok_same split: option.split)
next
  case (StreamStartRequest target options g)
  then show ?thesis
    using assms start_stream_ok by (simp split: stream_target.split)
next
  case (StreamStopRequest target)
  then show ?thesis
    using assms stop_stream_ok by (simp split: stream_target.split)
next
  case (CarrierStop w g)
  then show ?thesis
    using assms stop_carrier_ok by simp
next
  case (StreamLimits w limits)
  then show ?thesis
    using assms set_limits_ok by simp
next
  case (CompatibilityRequest w on)
  show ?thesis
    by (rule serving_ok_same [OF assms])
      (auto simp: CompatibilityRequest serving_compatibility_def Let_def split: option.split prod.split sum.split)
qed (rule serving_ok_same [OF assms]; auto simp: list_windows_def serving_private_def Let_def split: sum.split)+

lemma serving_run_ok: "serving_ok sv \<Longrightarrow> serving_ok (snd (serving_run number ms sv))"
proof (induction ms arbitrary: sv)
  case (Cons x ms)
  then show ?case
    using serving_handle_ok [of sv number "fst x" "snd x"] by (cases x) (auto simp: Let_def split_beta)
qed simp

text \<open>
  C19. A session's tables stay consistent, whatever its client sends: every stream has a carrier, its generations
  are distinct; the windows whose pointer is followed are exactly the streamed ones, each once; and a video track is
  sent only for a window that has a carrier on the session's tracks.
\<close>

theorem session_tables_consistent: "serving_ok (snd (serving_run number ms (serving_new peer acc serial d h)))"
  by (rule serving_run_ok) (simp add: serving_ok_def serving_new_def streams_ok_def stream_at_def attached_def)

section \<open>Carriers that share a track\<close>

text \<open>A small host, on which the behaviours of this section and the examples below are computed.\<close>

definition sample_env :: serve_env where
  "sample_env = \<lparr>ev_now = 0, ev_lower = (\<lambda>s. s), ev_windows = [], ev_backends = [Native, DesktopBackend], ev_encoders = [H264],
     ev_handoff = (\<lambda>_ _. None), ev_open = (\<lambda>_ _ _. Inr ()), ev_attach = Inr (), ev_track_id = (\<lambda>_. []), ev_providers = [],
     ev_certificate = Inl [], ev_private = Inr (),
     ev_command = \<lparr>he_auth = no_commands, he_start = (\<lambda>_. Inl []), he_shares = False, he_chat = False, he_watch = Inl [], he_apps = None\<rparr>\<rparr>"

definition sample_decision :: decision where
  "sample_decision = \<lparr>dn_allow = True, dn_windows = [], dn_input = None, dn_commands = None, dn_device_windows = []\<rparr>"

definition sample_options :: "backend_kind \<Rightarrow> stream_options" where
  "sample_options kind = \<lparr>so_backend = kind, so_codecs = [H264], so_limits = \<lparr>sl_bitrate = None, sl_fps = None, sl_height = None\<rparr>\<rparr>"

definition sample_session :: serving where
  "sample_session = serving_new [1] None 7 sample_decision \<lparr>hh_compat = [], hh_rows = [], hh_serial = 0, hh_discovery = []\<rparr>"

definition ask_stream :: "window_id \<Rightarrow> backend_kind \<Rightarrow> u32 \<Rightarrow> control_message" where
  "ask_stream w kind g = StreamStartRequest (WindowTarget w) (sample_options kind) g"

lemmas sample_defs = sample_env_def sample_decision_def sample_options_def sample_session_def ask_stream_def

text \<open>
  Stopping one of a window's carriers ends the track of the other: when a stopped carrier sends on the
  session's track, the track is taken down and the client told so, although another carrier of the same window still
  sends on it.
\<close>

theorem stopped_carrier_takes_the_track:
  assumes "map_of (sv_streams sv) w = Some s" "map_of (ws_carriers s) g = Some (k, l)" "session_track k"
    "map_of (ws_carriers s) g' = Some (k', l')" "g' \<noteq> g" "map_of (sv_tracks sv) w \<noteq> None"
    "serving_handle number env (CarrierStop w g) sv = (effs, sv')"
  shows "effs = [SendControl (TrackEnded w)] \<and> map_of (sv_tracks sv') w = None
    \<and> map_option (\<lambda>s. map_of (ws_carriers s) g') (map_of (sv_streams sv') w) = Some (Some (k', l'))"
proof -
  have "AList.delete g (ws_carriers s) \<noteq> []"
    using assms(4,5) by (metis delete_conv' fun_upd_apply map_of.simps(1) option.distinct(1))
  then show ?thesis
    using assms by (auto simp: stop_carrier_def detach_window_def update_conv' delete_conv')
qed

lemma stopped_carrier_takes_the_track_witness:
  "\<exists>sv effs sv'. serving_run (\<lambda>_. []) [(sample_env, ask_stream 4 Native 1), (sample_env, ask_stream 4 DesktopBackend 2)] sample_session = (effs, sv)
     \<and> serving_handle (\<lambda>_. []) sample_env (CarrierStop 4 1) sv = ([SendControl (TrackEnded 4)], sv')"
proof -
  obtain effs sv where run: "serving_run (\<lambda>_. []) [(sample_env, ask_stream 4 Native 1), (sample_env, ask_stream 4 DesktopBackend 2)] sample_session = (effs, sv)"
    by fastforce
  obtain effs' sv' where stop: "serving_handle (\<lambda>_. []) sample_env (CarrierStop 4 1) sv = (effs', sv')"
    by fastforce
  have sv: "sv = snd (serving_run (\<lambda>_. []) [(sample_env, ask_stream 4 Native 1), (sample_env, ask_stream 4 DesktopBackend 2)] sample_session)"
    unfolding run by (rule snd_conv [symmetric])
  have "sv_streams sv = [(4, \<lparr>ws_carriers = [(1, Native, so_limits (sample_options Native)), (2, DesktopBackend, so_limits (sample_options Native))], ws_audio = True\<rparr>)]"
    "sv_tracks sv = [(4, H264)]"
    unfolding sv by code_simp+
  then show ?thesis
    using stopped_carrier_takes_the_track [OF _ _ _ _ _ _ stop, of _ Native _ 2 DesktopBackend] run stop
    by (auto simp: session_track_def)
qed

text \<open>
  What a window's input left pressed is not released once its stream stopped: after a stop of the focused
  window's stream, the release of a key or a gamepad reaches nothing, so what was pressed stays pressed until the
  session ends or another window is driven.
\<close>

theorem release_after_stop_is_dropped:
  assumes "sv_focus sv = Some w" "input_window e = None"
  shows "fst (serving_handle number env (Input e) (snd (serving_handle number env' (StreamStopRequest (WindowTarget w)) sv))) = []"
proof -
  have "sv_focus (snd (stop_stream w sv)) = Some w"
    using assms(1) by (auto simp: stop_stream_def let_go_def end_stream_def detach_window_def Let_def split: option.split)
  moreover have "\<not> streams_window (snd (stop_stream w sv)) w"
    by (auto simp: stop_stream_def Let_def let_go_rest end_stream_rest streams_window_def delete_conv' split: option.splits)
  ultimately show ?thesis
    using assms(2) by (simp add: serving_input_def)
qed

lemma release_after_stop_is_dropped_witness:
  "fst (serving_handle (\<lambda>_. []) sample_env (Input (KeyInput 29 False))
     (snd (serving_handle (\<lambda>_. []) sample_env (StreamStopRequest (WindowTarget 4)) (sample_session\<lparr>sv_focus := Some 4\<rparr>)))) = []"
  by (rule release_after_stop_is_dropped) simp_all

lemma input_needs_permission_witness:
  "\<exists>env. (env, ask_stream 4 Native 1) \<in> set [(sample_env, ask_stream 4 Native 1), (sample_env, Input (PointerMove 4 0 0))]
     \<and> session_allows env sample_decision 4"
proof -
  define ms where "ms = [(sample_env, ask_stream 4 Native 1), (sample_env, Input (PointerMove 4 0 0))]"
  let ?h = "\<lparr>hh_compat = [], hh_rows = [], hh_serial = 0, hh_discovery = []\<rparr>"
  obtain effs sv where run: "serving_run (\<lambda>_. []) ms (serving_new [1] None 7 sample_decision ?h) = (effs, sv)"
    by fastforce
  have "effs = fst (serving_run (\<lambda>_. []) [(sample_env, ask_stream 4 Native 1), (sample_env, Input (PointerMove 4 0 0))] sample_session)"
    unfolding sample_session_def run [unfolded ms_def] by (rule fst_conv [symmetric])
  moreover have "tl (fst (serving_run (\<lambda>_. []) [(sample_env, ask_stream 4 Native 1), (sample_env, Input (PointerMove 4 0 0))] sample_session))
      = [DeliverInput (PointerMove 4 0 0) (Some 4)]"
    by code_simp
  ultimately have "tl effs = [DeliverInput (PointerMove 4 0 0) (Some 4)]"
    by (simp only:)
  then have "DeliverInput (PointerMove 4 0 0) (Some 4) \<in> set effs"
    by (cases effs) auto
  then show ?thesis
    using input_needs_permission [OF run] by (fastforce simp: ms_def ask_stream_def starts_asked_def)
qed

end
