(* ===== verification/Host_Files.thy ===== *)
theory Host_Files
  imports Share_Paths "HOL-Library.List_Lexorder" "HOL-Library.Sublist"
begin

text \<open>
  The host's end of file transfer (\<open>host-core/src/files.rs\<close>): the shares, the two checks on every
  path, and the service that lists, reads and writes. The file system is a map from absolute paths
  (their components) to nodes, with symbolic links followed as the operating system does; a failing
  system call, the order of a directory, the times and the moment a download is cut are arguments.
\<close>

section \<open>The file system\<close>

datatype node = Dir | File bytes | Link "rstr list"

type_synonym place = "rstr list"
type_synonym fs = "place \<rightharpoonup> node"

definition MAX_LINKS :: nat where "MAX_LINKS = 40"

text \<open>\<open>canonicalize\<close>: from the folder \<open>here\<close> along \<open>todo\<close>, at most \<open>k\<close> links (the system's limit).\<close>

function walk :: "fs \<Rightarrow> nat \<Rightarrow> place \<Rightarrow> place \<Rightarrow> place option" where
  "walk fs k here [] = Some here"
| "walk fs k here (p # todo) =
     (case fs (here @ [p]) of
        None \<Rightarrow> None
      | Some Dir \<Rightarrow> walk fs k (here @ [p]) todo
      | Some (File _) \<Rightarrow> if todo = [] then Some (here @ [p]) else None
      | Some (Link target) \<Rightarrow> (case k of 0 \<Rightarrow> None | Suc k \<Rightarrow> walk fs k [] (target @ todo)))"
  by pat_completeness auto
termination
  by (relation "(\<lambda>(fs, k, here, todo). k) <*mlex*> measure (\<lambda>(fs, k, here, todo). length todo)")
     (auto simp: mlex_less mlex_leq wf_mlex)

definition canonicalize :: "fs \<Rightarrow> place \<Rightarrow> place option" where
  "canonicalize fs path = walk fs MAX_LINKS [] path"

definition is_dir :: "fs \<Rightarrow> place \<Rightarrow> bool" where
  "is_dir fs q = (q = [] \<or> fs q = Some Dir)"

text \<open>The node a path leads to: its metadata's kind and length.\<close>

definition file_at :: "fs \<Rightarrow> place \<Rightarrow> bytes option" where
  "file_at fs path =
     (case canonicalize fs path of
        None \<Rightarrow> None
      | Some q \<Rightarrow> (case fs q of Some (File content) \<Rightarrow> Some content | _ \<Rightarrow> None))"

text \<open>
  Opening for writing, creating: the place of the opened file. A link is followed, also one that leads
  to nothing yet; the folder must exist.
\<close>

fun open_place :: "fs \<Rightarrow> nat \<Rightarrow> place \<Rightarrow> place option" where
  "open_place fs k path =
     (if path = [] then None
      else case walk fs MAX_LINKS [] (butlast path) of
        None \<Rightarrow> None
      | Some folder \<Rightarrow>
          if \<not> is_dir fs folder then None
          else case fs (folder @ [last path]) of
            Some Dir \<Rightarrow> None
          | Some (Link target) \<Rightarrow> (case k of 0 \<Rightarrow> None | Suc k \<Rightarrow> open_place fs k target)
          | _ \<Rightarrow> Some (folder @ [last path]))"

declare open_place.simps [simp del]

definition content_at :: "fs \<Rightarrow> place \<Rightarrow> bytes" where
  "content_at fs q = (case fs q of Some (File content) \<Rightarrow> content | _ \<Rightarrow> [])"

section \<open>Shares\<close>

record share =
  sh_name :: rstr
  sh_root :: place
  sh_writable :: bool

record shares =
  ss_shares :: "share list"
  ss_max_file_size :: u64

definition shares_default :: shares where
  "shares_default = \<lparr>ss_shares = [], ss_max_file_size = push_bit 30 4\<rparr>"

datatype file_error =
    PathError path_error
  | BadShareName rstr
  | RepeatedShare rstr
  | NoShare rstr
  | NotFoundError
  | OutsideShare
  | NoFileNamed
  | NoFolder
  | IsLink
  | RootGone rstr
  | NotAFolder
  | NotAFile
  | PastEnd
  | ReadOnly
  | TooLarge u64
  | IsFolder
  | NoUpload
  | TooManyBytes
  | Incomplete nat nat
  | SystemError
  | BadRequest

text \<open>\<open>alphanumeric\<close> is the standard library's table.\<close>

definition shares_add ::
  "(nat \<Rightarrow> bool) \<Rightarrow> rstr \<Rightarrow> place \<Rightarrow> bool \<Rightarrow> shares \<Rightarrow> (file_error + unit) \<times> shares" where
  "shares_add alphanumeric name root writable ss =
     (if trim_matches (\<lambda>c. c = 46) name = [] \<or> 64 < utf8_len name
         \<or> \<not> list_all (\<lambda>c. alphanumeric c \<or> List.member (lit ''-_. '') c) name
      then (Inl (BadShareName name), ss)
      else if list_ex (\<lambda>s. sh_name s = name) (ss_shares ss) then (Inl (RepeatedShare name), ss)
      else (Inr (), ss\<lparr>ss_shares := ss_shares ss @ [\<lparr>sh_name = name, sh_root = root, sh_writable = writable\<rparr>]\<rparr>))"

definition shares_info :: "shares \<Rightarrow> share_info list" where
  "shares_info ss = map (\<lambda>s. \<lparr>si_name = sh_name s, si_writable = sh_writable s\<rparr>) (ss_shares ss)"

definition find_share :: "shares \<Rightarrow> rstr \<Rightarrow> file_error + share" where
  "find_share ss name =
     (case find (\<lambda>s. sh_name s = name) (ss_shares ss) of None \<Rightarrow> Inl (NoShare name) | Some s \<Rightarrow> Inr s)"

definition canonical_root :: "fs \<Rightarrow> share \<Rightarrow> file_error + place" where
  "canonical_root fs s =
     (case canonicalize fs (sh_root s) of None \<Rightarrow> Inl (RootGone (sh_name s)) | Some r \<Rightarrow> Inr r)"

text \<open>The case functions of the system's text.\<close>

record casing =
  cs_lower :: "rstr \<Rightarrow> rstr"
  cs_upper :: "rstr \<Rightarrow> rstr"

definition clean_path :: "casing \<Rightarrow> rstr \<Rightarrow> file_error + rstr list" where
  "clean_path cs path =
     (case clean (cs_lower cs) (cs_upper cs) path of Inl e \<Rightarrow> Inl (PathError e) | Inr ps \<Rightarrow> Inr ps)"

definition resolve_existing :: "casing \<Rightarrow> fs \<Rightarrow> shares \<Rightarrow> rstr \<Rightarrow> rstr \<Rightarrow> file_error + (place \<times> place)" where
  "resolve_existing cs fs ss name path =
     (case find_share ss name of Inl e \<Rightarrow> Inl e | Inr s \<Rightarrow>
      (case clean_path cs path of Inl e \<Rightarrow> Inl e | Inr parts \<Rightarrow>
       (case canonical_root fs s of Inl e \<Rightarrow> Inl e | Inr root \<Rightarrow>
        (case canonicalize fs (root @ parts) of
           None \<Rightarrow> Inl NotFoundError
         | Some found \<Rightarrow> if \<not> prefix root found then Inl OutsideShare else Inr (found, root)))))"

definition resolve_new :: "casing \<Rightarrow> fs \<Rightarrow> shares \<Rightarrow> rstr \<Rightarrow> rstr \<Rightarrow> file_error + place" where
  "resolve_new cs fs ss name path =
     (case find_share ss name of Inl e \<Rightarrow> Inl e | Inr s \<Rightarrow>
      (case clean_path cs path of Inl e \<Rightarrow> Inl e | Inr parts \<Rightarrow>
       (if parts = [] then Inl NoFileNamed
        else case canonical_root fs s of Inl e \<Rightarrow> Inl e | Inr root \<Rightarrow>
         (case canonicalize fs (root @ butlast parts) of
            None \<Rightarrow> Inl NoFolder
          | Some folder \<Rightarrow>
              if \<not> prefix root folder then Inl OutsideShare
              else let target = folder @ [last parts]
                in (case fs target of Some (Link _) \<Rightarrow> Inl IsLink | _ \<Rightarrow> Inr target)))))"

definition share_writable :: "shares \<Rightarrow> rstr \<Rightarrow> file_error + bool" where
  "share_writable ss name = (case find_share ss name of Inl e \<Rightarrow> Inl e | Inr s \<Rightarrow> Inr (sh_writable s))"

definition part_path :: "place \<Rightarrow> place" where
  "part_path target = butlast target @ [last target @ PART_SUFFIX]"

text \<open>\<open>mtimes\<close> gives a place's modification time.\<close>

definition entry_of :: "(place \<Rightarrow> u64 option) \<Rightarrow> fs \<Rightarrow> rstr \<Rightarrow> place \<Rightarrow> entry" where
  "entry_of mtimes fs name q =
     \<lparr>en_name = name, en_dir = is_dir fs q, en_size = (if is_dir fs q then 0 else length (content_at fs q)),
      en_modified = mtimes q\<rparr>"

section \<open>The service\<close>

record upload =
  up_file :: place
  up_part :: place
  up_target :: place
  up_size :: nat
  up_written :: nat
  up_acked :: nat

record service =
  sv_shares :: shares
  sv_upload :: "upload option"

definition service_new :: "shares \<Rightarrow> service" where
  "service_new ss = \<lparr>sv_shares = ss, sv_upload = None\<rparr>"

text \<open>
  What the system does during one request: the order of a directory, the times, whether opening,
  seeking, writing (and how much is written when it fails), flushing, removing and renaming succeed,
  and how many chunks of a download get out before it is cancelled or its channel is gone.
\<close>

record system =
  sy_ls :: "place \<Rightarrow> rstr list option"
  sy_times :: "place \<Rightarrow> u64 option"
  sy_open :: bool
  sy_seek :: bool
  sy_write :: "nat option"
  sy_sync :: bool
  sy_remove :: bool
  sy_rename :: bool
  sy_chunks :: "nat option"

text \<open>The loop of \<open>list\<close> over the directory's names.\<close>

fun list_entries :: "casing \<Rightarrow> system \<Rightarrow> fs \<Rightarrow> place \<Rightarrow> place \<Rightarrow> rstr list \<Rightarrow> entry list \<Rightarrow> entry list" where
  "list_entries cs sys fs dir root [] acc = acc"
| "list_entries cs sys fs dir root (name # names) acc =
     (if ends_with PART_SUFFIX (cs_lower cs name) then list_entries cs sys fs dir root names acc
      else case canonicalize fs (dir @ [name]) of
        None \<Rightarrow> list_entries cs sys fs dir root names acc
      | Some real \<Rightarrow>
          if \<not> prefix root real then list_entries cs sys fs dir root names acc
          else let acc = acc @ [entry_of (sy_times sys) fs name real]
            in if MAX_ENTRIES \<le> length acc then acc else list_entries cs sys fs dir root names acc)"

definition list_dir :: "casing \<Rightarrow> system \<Rightarrow> fs \<Rightarrow> shares \<Rightarrow> rstr \<Rightarrow> rstr \<Rightarrow> file_error + entry list" where
  "list_dir cs sys fs ss name path =
     (case resolve_existing cs fs ss name path of Inl e \<Rightarrow> Inl e | Inr (dir, root) \<Rightarrow>
       (if \<not> is_dir fs dir then Inl NotAFolder
        else case sy_ls sys dir of
          None \<Rightarrow> Inl SystemError
        | Some names \<Rightarrow> Inr (sort_key en_name (list_entries cs sys fs dir root names []))))"

definition stat_file :: "casing \<Rightarrow> system \<Rightarrow> fs \<Rightarrow> shares \<Rightarrow> rstr \<Rightarrow> rstr \<Rightarrow> file_error + entry" where
  "stat_file cs sys fs ss name path =
     (case resolve_existing cs fs ss name path of Inl e \<Rightarrow> Inl e | Inr (found, _) \<Rightarrow>
       (case clean_path cs path of Inl e \<Rightarrow> Inl e | Inr parts \<Rightarrow>
         Inr (entry_of (sy_times sys) fs (if parts = [] then name else last parts) found)))"

text \<open>The chunks a file is read in.\<close>

function file_chunks :: "bytes \<Rightarrow> bytes list" where
  "file_chunks bs = (if bs = [] then [] else take FILE_CHUNK bs # file_chunks (drop FILE_CHUNK bs))"
  by pat_completeness auto
termination
  by (relation "measure length") (auto simp: FILE_CHUNK_def MAX_CHUNK_def)

declare file_chunks.simps [simp del]

definition read_file ::
  "casing \<Rightarrow> system \<Rightarrow> fs \<Rightarrow> shares \<Rightarrow> rstr \<Rightarrow> rstr \<Rightarrow> u64 \<Rightarrow> file_error file_reply list \<times> (file_error + unit)" where
  "read_file cs sys fs ss name path offset =
     (case resolve_existing cs fs ss name path of Inl e \<Rightarrow> ([], Inl e) | Inr (found, _) \<Rightarrow>
       (if \<not> sy_open sys then ([], Inl SystemError)
        else if is_dir fs found then ([], Inl NotAFile)
        else let content = content_at fs found; sz = length content
          in if sz < unat offset then ([], Inl PastEnd)
             else if \<not> sy_seek sys then ([], Inl SystemError)
             else let chunks = file_chunks (drop (unat offset) content)
               in (case sy_chunks sys of
                     None \<Rightarrow> (map RepChunk chunks @ [RepEnd sz], Inr ())
                   | Some n \<Rightarrow> if n \<le> length chunks then (map RepChunk (take n chunks), Inr ())
                       else (map RepChunk chunks @ [RepEnd sz], Inr ()))))"

definition begin_upload ::
  "casing \<Rightarrow> system \<Rightarrow> rstr \<Rightarrow> rstr \<Rightarrow> u64 \<Rightarrow> bool \<Rightarrow> service \<Rightarrow> fs \<Rightarrow> (file_error + nat) \<times> service \<times> fs" where
  "begin_upload cs sys name path sz resume sv fs =
     (let ss = sv_shares sv; sv = sv\<lparr>sv_upload := None\<rparr>
      in case share_writable ss name of
        Inl e \<Rightarrow> (Inl e, sv, fs)
      | Inr writable \<Rightarrow>
          if \<not> writable then (Inl ReadOnly, sv, fs)
          else if ss_max_file_size ss < sz then (Inl (TooLarge (ss_max_file_size ss)), sv, fs)
          else case resolve_new cs fs ss name path of
            Inl e \<Rightarrow> (Inl e, sv, fs)
          | Inr target \<Rightarrow>
              if is_dir fs target then (Inl IsFolder, sv, fs)
              else let part = part_path target;
                       held = (if resume then (case file_at fs part of None \<Rightarrow> 0 | Some c \<Rightarrow> length c) else 0);
                       held = (if unat sz < held then 0 else held)
                in case (if sy_open sys then open_place fs MAX_LINKS part else None) of
                  None \<Rightarrow> (Inl SystemError, sv, fs)
                | Some q \<Rightarrow>
                    let fs = fs(q \<mapsto> File (if held = 0 then [] else content_at fs q))
                    in if \<not> sy_seek sys then (Inl SystemError, sv, fs)
                       else (Inr held, sv\<lparr>sv_upload := Some \<lparr>up_file = q, up_part = part, up_target = target,
                           up_size = unat sz, up_written = held, up_acked = held\<rparr>\<rparr>, fs))"

text \<open>\<open>write_all\<close> at the end of what was written.\<close>

definition write_at :: "place \<Rightarrow> nat \<Rightarrow> bytes \<Rightarrow> fs \<Rightarrow> fs" where
  "write_at q off bs fs =
     fs(q \<mapsto> File (take off (content_at fs q) @ bs @ drop (off + length bs) (content_at fs q)))"

definition upload_chunk ::
  "system \<Rightarrow> bytes \<Rightarrow> service \<Rightarrow> fs \<Rightarrow> (file_error + nat option) \<times> service \<times> fs" where
  "upload_chunk sys bs sv fs =
     (case sv_upload sv of
        None \<Rightarrow> (Inl NoUpload, sv, fs)
      | Some u \<Rightarrow>
          if up_size u < up_written u + length bs then (Inl TooManyBytes, sv\<lparr>sv_upload := None\<rparr>, fs)
          else (case sy_write sys of
              Some n \<Rightarrow> (Inl SystemError, sv\<lparr>sv_upload := None\<rparr>, write_at (up_file u) (up_written u) (take n bs) fs)
            | None \<Rightarrow>
                let fs = write_at (up_file u) (up_written u) bs fs;
                    u = u\<lparr>up_written := up_written u + length bs\<rparr>
                in if ACK_EVERY \<le> up_written u - up_acked u
                   then (Inr (Some (up_written u)), sv\<lparr>sv_upload := Some (u\<lparr>up_acked := up_written u\<rparr>)\<rparr>, fs)
                   else (Inr None, sv\<lparr>sv_upload := Some u\<rparr>, fs)))"

definition upload_finish :: "system \<Rightarrow> service \<Rightarrow> fs \<Rightarrow> (file_error + nat) \<times> service \<times> fs" where
  "upload_finish sys sv fs =
     (case sv_upload sv of
        None \<Rightarrow> (Inl NoUpload, sv, fs)
      | Some u \<Rightarrow>
          if up_written u \<noteq> up_size u then (Inl (Incomplete (up_written u) (up_size u)), sv, fs)
          else if \<not> sy_sync sys then (Inl SystemError, sv, fs)
          else let sv = sv\<lparr>sv_upload := None\<rparr>
            in if file_at fs (up_target u) \<noteq> None \<and> \<not> sy_remove sys then (Inl SystemError, sv, fs)
               else let fs = (if file_at fs (up_target u) \<noteq> None then fs(up_target u := None) else fs)
                 in if \<not> sy_rename sys \<or> fs (up_part u) = None \<or> fs (up_target u) = Some Dir then (Inl SystemError, sv, fs)
                    else (Inr (up_size u), sv, fs(up_target u := fs (up_part u), up_part u := None)))"

definition reply_or_error ::
  "(file_error + 'a) \<Rightarrow> ('a \<Rightarrow> file_error file_reply list) \<Rightarrow> file_error file_reply list" where
  "reply_or_error r f = (case r of Inl e \<Rightarrow> [RepError e] | Inr x \<Rightarrow> f x)"

definition handle_request ::
  "casing \<Rightarrow> system \<Rightarrow> file_request \<Rightarrow> service \<Rightarrow> fs \<Rightarrow> file_error file_reply list \<times> service \<times> fs" where
  "handle_request cs sys request sv fs =
     (case request of
        ReqShares \<Rightarrow> ([RepShares (shares_info (sv_shares sv))], sv, fs)
      | ReqList name path \<Rightarrow>
          (reply_or_error (list_dir cs sys fs (sv_shares sv) name path) (\<lambda>es. [RepEntries es]), sv, fs)
      | ReqStat name path \<Rightarrow>
          (reply_or_error (stat_file cs sys fs (sv_shares sv) name path) (\<lambda>e. [RepInfo e]), sv, fs)
      | ReqRead name path offset \<Rightarrow>
          (let (replies, r) = read_file cs sys fs (sv_shares sv) name path offset
           in (replies @ reply_or_error r (\<lambda>_. []), sv, fs))
      | ReqWrite name path sz resume \<Rightarrow>
          (let (r, sv, fs) = begin_upload cs sys name path sz resume sv fs
           in (reply_or_error r (\<lambda>offset. [RepReady offset]), sv, fs))
      | ReqChunk bs \<Rightarrow>
          (let (r, sv, fs) = upload_chunk sys bs sv fs
           in (reply_or_error r (\<lambda>a. case a of Some n \<Rightarrow> [RepAck n] | None \<Rightarrow> []), sv, fs))
      | ReqFinish \<Rightarrow>
          (let (r, sv, fs) = upload_finish sys sv fs
           in (reply_or_error r (\<lambda>sz. [RepDone sz]), sv, fs)))"

text \<open>The channel's end: bytes are one request, read by the third-party \<open>decode\<close>.\<close>

definition files_write ::
  "(bytes \<Rightarrow> file_request option) \<Rightarrow> casing \<Rightarrow> system \<Rightarrow> bytes \<Rightarrow> service \<Rightarrow> fs \<Rightarrow>
     file_error file_reply list \<times> service \<times> fs" where
  "files_write decode cs sys bs sv fs =
     (case decode bs of
        None \<Rightarrow> ([RepError BadRequest], sv, fs)
      | Some request \<Rightarrow> handle_request cs sys request sv fs)"

section \<open>Canonical places\<close>

definition real_place :: "fs \<Rightarrow> place \<Rightarrow> bool" where
  "real_place fs q =
     ((\<forall>i. 0 < i \<longrightarrow> i < length q \<longrightarrow> fs (take i q) = Some Dir)
      \<and> (q = [] \<or> fs q = Some Dir \<or> (\<exists>c. fs q = Some (File c))))"

definition real_dir :: "fs \<Rightarrow> place \<Rightarrow> bool" where
  "real_dir fs q = (\<forall>i. 0 < i \<longrightarrow> i \<le> length q \<longrightarrow> fs (take i q) = Some Dir)"

lemma real_dir_place: "real_dir fs q \<Longrightarrow> real_place fs q"
  unfolding real_dir_def real_place_def by (metis length_greater_0_conv less_imp_le order_refl take_all)

lemma real_place_dir: "real_place fs q \<Longrightarrow> is_dir fs q \<Longrightarrow> real_dir fs q"
  unfolding real_dir_def real_place_def is_dir_def by (auto simp: le_less)

lemma real_dir_snoc: "real_dir fs here \<Longrightarrow> fs (here @ [p]) = Some Dir \<Longrightarrow> real_dir fs (here @ [p])"
  unfolding real_dir_def by (auto simp: le_Suc_eq)

lemma real_place_snoc: "real_dir fs here \<Longrightarrow> fs (here @ [p]) = Some (File c) \<Longrightarrow> real_place fs (here @ [p])"
  unfolding real_dir_def real_place_def by (auto simp: less_Suc_eq_le)

lemma walk_real: "real_dir fs here \<Longrightarrow> walk fs k here todo = Some q \<Longrightarrow> real_place fs q"
proof (induction fs k here todo rule: walk.induct)
  case (1 fs k here)
  then show ?case by (simp add: real_dir_place)
next
  case (2 fs k here p todo)
  then show ?case
    by (auto split: option.splits node.splits if_splits nat.splits
        intro: real_dir_snoc real_place_snoc simp: real_dir_def [of fs "[]"])
qed

lemma canonicalize_real: "canonicalize fs path = Some q \<Longrightarrow> real_place fs q"
  unfolding canonicalize_def by (erule walk_real [rotated]) (simp add: real_dir_def)

lemma walk_along:
  "\<forall>i. 0 < i \<longrightarrow> i \<le> length todo \<longrightarrow> fs (here @ take i todo) = Some Dir \<Longrightarrow>
     walk fs k here (todo @ rest) = walk fs k (here @ todo) rest"
proof (induction todo arbitrary: here)
  case (Cons p todo)
  have "fs (here @ [p]) = Some Dir"
    using Cons.prems [rule_format, of 1] by simp
  moreover have "\<forall>i. 0 < i \<longrightarrow> i \<le> length todo \<longrightarrow> fs ((here @ [p]) @ take i todo) = Some Dir"
  proof (intro allI impI)
    fix i
    assume "0 < i" "i \<le> length todo"
    then show "fs ((here @ [p]) @ take i todo) = Some Dir"
      using Cons.prems [rule_format, of "Suc i"] by simp
  qed
  ultimately show ?case
    using Cons.IH [of "here @ [p]"] by simp
qed simp

lemma walk_real_dir: "real_dir fs q \<Longrightarrow> walk fs k [] q = Some q"
  using walk_along [of q fs "[]" k "[]"] by (simp add: real_dir_def)

text \<open>File systems that differ only in files lead the same way to every folder.\<close>

definition same_tree :: "fs \<Rightarrow> fs \<Rightarrow> bool" where
  "same_tree fs fs' =
     (\<forall>q. (fs q = Some Dir \<longleftrightarrow> fs' q = Some Dir) \<and> (\<forall>t. fs q = Some (Link t) \<longleftrightarrow> fs' q = Some (Link t)))"

lemma same_tree_dir: "same_tree fs fs' \<Longrightarrow> is_dir fs q = is_dir fs' q"
  by (auto simp: same_tree_def is_dir_def)

lemma walk_same: "same_tree fs' fs \<Longrightarrow> walk fs k here todo = Some q \<Longrightarrow> is_dir fs q \<Longrightarrow> walk fs' k here todo = Some q"
proof (induction fs k here todo rule: walk.induct)
  case (2 fs k here p todo)
  have tree: "fs' r = Some Dir \<longleftrightarrow> fs r = Some Dir" "fs' r = Some (Link t) \<longleftrightarrow> fs r = Some (Link t)" for r t
    using 2(3) by (simp_all add: same_tree_def)
  show ?case
  proof (cases "fs (here @ [p])")
    case None
    then show ?thesis
      using 2(4) by simp
  next
    case (Some n)
    show ?thesis
    proof (cases n)
      case Dir
      then have "fs' (here @ [p]) = Some Dir"
        using Some tree(1) by blast
      then show ?thesis
        using 2 Some Dir by simp
    next
      case (File c)
      then show ?thesis
        using 2(4,5) Some by (auto simp: is_dir_def split: if_splits)
    next
      case (Link target)
      then have "fs' (here @ [p]) = Some (Link target)"
        using Some tree(2) by blast
      then show ?thesis
        using 2(2) [OF Some Link] 2(3-) Some Link by (cases k) simp_all
    qed
  qed
qed simp

section \<open>Nothing outside a writable share is written\<close>

definition inside_writable :: "shares \<Rightarrow> fs \<Rightarrow> place \<Rightarrow> bool" where
  "inside_writable ss fs q =
     (\<exists>s\<in>set (ss_shares ss). sh_writable s \<and> (\<exists>r. canonicalize fs (sh_root s) = Some r \<and> strict_prefix r q))"

definition no_part_links :: "fs \<Rightarrow> bool" where
  "no_part_links fs = (\<forall>q t. fs q = Some (Link t) \<longrightarrow> q = [] \<or> \<not> ends_with PART_SUFFIX (last q))"

definition plain_place :: "shares \<Rightarrow> fs \<Rightarrow> place \<Rightarrow> bool" where
  "plain_place ss fs q = (inside_writable ss fs q \<and> fs q \<noteq> Some Dir \<and> (\<forall>t. fs q \<noteq> Some (Link t)))"

definition upload_ok :: "shares \<Rightarrow> fs \<Rightarrow> upload \<Rightarrow> bool" where
  "upload_ok ss fs u = (up_file u = up_part u \<and> plain_place ss fs (up_part u) \<and> plain_place ss fs (up_target u)
     \<and> up_part u \<noteq> up_target u)"

definition files_ok :: "shares \<Rightarrow> fs \<Rightarrow> service \<Rightarrow> fs \<Rightarrow> bool" where
  "files_ok ss fs0 sv fs =
     (sv_shares sv = ss \<and> same_tree fs0 fs \<and> (\<forall>q. fs q \<noteq> fs0 q \<longrightarrow> inside_writable ss fs0 q)
      \<and> (\<forall>u. sv_upload sv = Some u \<longrightarrow> upload_ok ss fs0 u))"

lemma ends_with_append: "ends_with s (p @ s)"
  by (simp add: ends_with_def starts_with_def)

lemma part_path_snoc: "part_path (folder @ [p]) = folder @ [p @ PART_SUFFIX]"
  by (simp add: part_path_def)

lemma find_share_in: "find_share ss name = Inr s \<Longrightarrow> s \<in> set (ss_shares ss) \<and> sh_name s = name"
  by (auto simp: find_share_def find_Some_iff split: option.splits)

lemma resolve_new_Inr:
  assumes "resolve_new cs fs ss name path = Inr target"
  shows "\<exists>s root folder p. find_share ss name = Inr s \<and> canonicalize fs (sh_root s) = Some root
    \<and> real_place fs folder \<and> prefix root folder \<and> target = folder @ [p] \<and> (\<forall>t. fs target \<noteq> Some (Link t))"
  using assms
  by (auto simp: resolve_new_def canonical_root_def Let_def dest: canonicalize_real
      split: sum.splits option.splits if_splits node.splits)

lemma open_place_part:
  assumes "real_place fs folder" "\<And>t. fs (folder @ [q]) \<noteq> Some (Link t)" "open_place fs k (folder @ [q]) = Some r"
  shows "r = folder @ [q] \<and> is_dir fs folder \<and> fs r \<noteq> Some Dir"
proof -
  obtain f where f: "walk fs MAX_LINKS [] folder = Some f" "is_dir fs f"
    using assms(3) by (auto simp: open_place.simps [of fs k] split: option.splits if_splits)
  have "f = folder"
  proof (cases "is_dir fs folder")
    case True
    then show ?thesis
      using walk_real_dir [OF real_place_dir [OF assms(1)]] f(1) by simp
  next
    case False
    then have ne: "folder \<noteq> []"
      by (auto simp: is_dir_def)
    then obtain c where c: "fs folder = Some (File c)"
      using assms(1) False by (auto simp: real_place_def is_dir_def)
    have "real_dir fs (butlast folder)"
      using assms(1) ne by (auto simp: real_place_def real_dir_def take_butlast)
    then have "walk fs MAX_LINKS [] (butlast folder @ [last folder]) = walk fs MAX_LINKS (butlast folder) [last folder]"
      using walk_along [of "butlast folder" fs "[]" MAX_LINKS "[last folder]"] by (simp add: real_dir_def)
    then show ?thesis
      using f(1) ne c by simp
  qed
  with f assms(2,3) show ?thesis
    by (auto simp: open_place.simps [of fs k] split: option.splits node.splits)
qed

lemma inside_writable_snoc:
  assumes "same_tree fs0 fs" "s \<in> set (ss_shares ss)" "sh_writable s" "canonicalize fs (sh_root s) = Some root"
    and "prefix root folder" "real_dir fs folder"
  shows "inside_writable ss fs0 (folder @ [q])"
proof -
  have "is_dir fs root"
    using assms(5,6) unfolding is_dir_def real_dir_def prefix_def
    by (metis append_eq_conv_conj length_append length_greater_0_conv le_add1)
  then have "canonicalize fs0 (sh_root s) = Some root"
    using walk_same [OF assms(1)] assms(4) by (simp add: canonicalize_def)
  moreover have "strict_prefix root (folder @ [q])"
    using assms(5) by (auto simp: strict_prefix_def prefix_def)
  ultimately show ?thesis
    using assms(2,3) by (auto simp: inside_writable_def)
qed

lemma same_tree_file:
  "same_tree fs0 fs \<Longrightarrow> fs q \<noteq> Some Dir \<Longrightarrow> \<forall>t. fs q \<noteq> Some (Link t) \<Longrightarrow> same_tree fs0 (fs(q \<mapsto> File c))"
  "same_tree fs0 fs \<Longrightarrow> fs q \<noteq> Some Dir \<Longrightarrow> \<forall>t. fs q \<noteq> Some (Link t) \<Longrightarrow> same_tree fs0 (fs(q := None))"
  by (auto simp: same_tree_def)

lemma begin_upload_ok:
  assumes ok: "files_ok ss fs0 sv fs" and links: "no_part_links fs0"
    and started: "begin_upload cs sys name path sz resume sv fs = (r, sv', fs')"
  shows "files_ok ss fs0 sv' fs'"
proof -
  have tree: "same_tree fs0 fs" and sv: "sv_shares sv = ss"
    using ok by (simp_all add: files_ok_def)
  have none: "files_ok ss fs0 (sv\<lparr>sv_upload := None\<rparr>) fs"
    using ok by (simp add: files_ok_def)
  show ?thesis
  proof (cases "fs' = fs \<and> sv_upload sv' = None")
    case True
    then have "sv_shares sv' = ss"
      using started sv by (auto simp: begin_upload_def Let_def split: sum.splits option.splits if_splits)
    then show ?thesis
      using True none by (simp add: files_ok_def)
  next
    case False
    then have "\<exists>target q. share_writable ss name = Inr True \<and> resolve_new cs fs ss name path = Inr target
      \<and> \<not> is_dir fs target \<and> open_place fs MAX_LINKS (part_path target) = Some q \<and> (\<exists>c. fs' = fs(q \<mapsto> File c))
      \<and> sv_shares sv' = ss \<and> (sv_upload sv' = None \<or> (\<exists>u. sv_upload sv' = Some u \<and> up_file u = q
          \<and> up_part u = part_path target \<and> up_target u = target))"
      using started sv
      by (auto simp: begin_upload_def Let_def split: sum.splits option.splits if_splits)
    then obtain target q where writable: "share_writable ss name = Inr True"
      and new: "resolve_new cs fs ss name path = Inr target" "\<not> is_dir fs target"
      and opened: "open_place fs MAX_LINKS (part_path target) = Some q"
      and fs': "\<exists>c. fs' = fs(q \<mapsto> File c)"
      and sv': "sv_shares sv' = ss"
        "sv_upload sv' = None \<or> (\<exists>u. sv_upload sv' = Some u \<and> up_file u = q \<and> up_part u = part_path target \<and> up_target u = target)"
      by blast
    obtain s root folder p where s: "find_share ss name = Inr s" "canonicalize fs (sh_root s) = Some root"
      "real_place fs folder" "prefix root folder" "target = folder @ [p]" "\<forall>t. fs target \<noteq> Some (Link t)"
      using resolve_new_Inr [OF new(1)] by blast
    have part: "part_path target = folder @ [p @ PART_SUFFIX]"
      by (simp add: s(5) part_path_snoc)
    have nolink: "fs (folder @ [p @ PART_SUFFIX]) \<noteq> Some (Link t)" for t
      using links tree ends_with_append [of PART_SUFFIX p] by (fastforce simp: no_part_links_def same_tree_def)
    have q: "q = part_path target" "is_dir fs folder" "fs q \<noteq> Some Dir"
      using open_place_part [OF s(3) nolink, of MAX_LINKS q] opened part by auto
    have inside: "inside_writable ss fs0 (folder @ [x])" for x
      using inside_writable_snoc [OF tree _ _ s(2) s(4)] find_share_in [OF s(1)] writable s(1)
        real_place_dir [OF s(3) q(2)] by (simp add: share_writable_def)
    have plain: "plain_place ss fs0 q" "plain_place ss fs0 target"
      using inside q(1,3) part s(5,6) nolink new(2) tree
      by (auto simp: plain_place_def same_tree_def is_dir_def)
    have "same_tree fs0 fs'"
      using fs' tree q nolink part by (auto intro!: same_tree_file)
    moreover have "\<forall>x. fs' x \<noteq> fs0 x \<longrightarrow> inside_writable ss fs0 x"
      using fs' ok plain(1) by (auto simp: files_ok_def plain_place_def split: if_splits)
    moreover have "upload_ok ss fs0 u" if "sv_upload sv' = Some u" for u
      using sv'(2) that plain q(1) part s(5) by (auto simp: upload_ok_def PART_SUFFIX_def)
    ultimately show ?thesis
      using sv'(1) by (simp add: files_ok_def)
  qed
qed

lemma write_at_ok:
  assumes "files_ok ss fs0 sv fs" "plain_place ss fs0 q"
  shows "same_tree fs0 (write_at q off bs fs) \<and> (\<forall>x. write_at q off bs fs x \<noteq> fs0 x \<longrightarrow> inside_writable ss fs0 x)"
  using assms by (auto simp: files_ok_def write_at_def plain_place_def same_tree_def)

lemma upload_chunk_ok:
  assumes "files_ok ss fs0 sv fs" "upload_chunk sys bs sv fs = (r, sv', fs')"
  shows "files_ok ss fs0 sv' fs'"
proof (cases "sv_upload sv")
  case None
  then show ?thesis
    using assms by (simp add: upload_chunk_def)
next
  case (Some u)
  have u: "upload_ok ss fs0 u" "plain_place ss fs0 (up_file u)"
    using assms(1) Some by (auto simp: files_ok_def upload_ok_def)
  then show ?thesis
    using assms Some write_at_ok [OF assms(1) u(2)]
    by (auto simp: upload_chunk_def files_ok_def Let_def upload_ok_def split: option.splits if_splits)
qed

lemma upload_finish_ok:
  assumes "files_ok ss fs0 sv fs" "upload_finish sys sv fs = (r, sv', fs')"
  shows "files_ok ss fs0 sv' fs'"
proof (cases "sv_upload sv")
  case None
  then show ?thesis
    using assms by (simp add: upload_finish_def)
next
  case (Some u)
  have u: "plain_place ss fs0 (up_part u)" "plain_place ss fs0 (up_target u)"
    using assms(1) Some by (auto simp: files_ok_def upload_ok_def)
  then show ?thesis
    using assms Some
    by (auto simp: upload_finish_def files_ok_def Let_def plain_place_def same_tree_def split: option.splits if_splits)
qed

fun run_requests ::
  "casing \<Rightarrow> (system \<times> file_request) list \<Rightarrow> service \<Rightarrow> fs \<Rightarrow> file_error file_reply list \<times> service \<times> fs" where
  "run_requests cs [] sv fs = ([], sv, fs)"
| "run_requests cs ((sys, request) # rest) sv fs =
     (let (replies, sv, fs) = handle_request cs sys request sv fs;
          (more, sv, fs) = run_requests cs rest sv fs
      in (replies @ more, sv, fs))"

lemma handle_request_ok:
  assumes "files_ok ss fs0 sv fs" "no_part_links fs0" "handle_request cs sys request sv fs = (rs, sv', fs')"
  shows "files_ok ss fs0 sv' fs'"
  using assms begin_upload_ok [OF assms(1,2)] upload_chunk_ok [OF assms(1)] upload_finish_ok [OF assms(1)]
  by (cases request) (auto simp: handle_request_def split: prod.splits)

lemma run_requests_ok:
  "files_ok ss fs0 sv fs \<Longrightarrow> no_part_links fs0 \<Longrightarrow> files_ok ss fs0 (fst (snd (run_requests cs rs sv fs))) (snd (snd (run_requests cs rs sv fs)))"
proof (induction rs arbitrary: sv fs)
  case (Cons r rs)
  obtain sys request where r: "r = (sys, request)"
    by (cases r)
  obtain replies sv' fs' where h: "handle_request cs sys request sv fs = (replies, sv', fs')"
    by (metis prod_cases3)
  have "files_ok ss fs0 sv' fs'"
    by (rule handle_request_ok [OF Cons.prems h])
  from Cons.IH [OF this Cons.prems(2)] show ?case
    by (simp add: r h split_beta)
qed simp

text \<open>
  C4. A client changes nothing outside the writable shares: whatever requests it sends, and whichever
  system calls fail, every place of the file system that differs afterwards lies strictly inside the
  folder of a share the host made writable, links followed; and no folder and no link changes. (The host
  keeps no links named like an unfinished upload.)
\<close>

theorem only_writable_shares_change:
  assumes "no_part_links fs" "run_requests cs rs (service_new ss) fs = (replies, sv, fs')"
  shows "same_tree fs fs' \<and> (\<forall>q. fs' q \<noteq> fs q \<longrightarrow> inside_writable ss fs q)"
proof -
  have "files_ok ss fs (service_new ss) fs"
    by (simp add: files_ok_def service_new_def same_tree_def)
  from run_requests_ok [OF this assms(1), of cs rs] show ?thesis
    by (simp add: assms(2) files_ok_def)
qed

definition quiet :: system where
  "quiet = \<lparr>sy_ls = \<lambda>_. None, sy_times = \<lambda>_. None, sy_open = True, sy_seek = True, sy_write = None,
     sy_sync = True, sy_remove = True, sy_rename = True, sy_chunks = None\<rparr>"

definition ascii_casing :: casing where
  "ascii_casing = \<lparr>cs_lower = ascii_lowercase, cs_upper = map (\<lambda>c. if 97 \<le> c \<and> c \<le> 122 then c - 32 else c)\<rparr>"

definition sample_tree :: fs where
  "sample_tree = [[[115]] \<mapsto> Dir, [[115], [97]] \<mapsto> File [1, 2]]"

definition sample_shares :: shares where
  "sample_shares = \<lparr>ss_shares = [\<lparr>sh_name = [120], sh_root = [[115]], sh_writable = True\<rparr>], ss_max_file_size = 100\<rparr>"

theorem only_writable_shares_change_witness:
  "let (replies, sv, fs') = run_requests ascii_casing [(quiet, ReqWrite [120] [98] 1 False), (quiet, ReqChunk [9]), (quiet, ReqFinish)]
       (service_new sample_shares) sample_tree
   in same_tree sample_tree fs' \<and> {q. fs' q \<noteq> sample_tree q} \<subseteq> Collect (inside_writable sample_shares sample_tree)"
proof -
  have links: "no_part_links sample_tree"
    by (simp add: no_part_links_def sample_tree_def)
  obtain replies sv fs' where run: "run_requests ascii_casing [(quiet, ReqWrite [120] [98] 1 False), (quiet, ReqChunk [9]), (quiet, ReqFinish)]
       (service_new sample_shares) sample_tree = (replies, sv, fs')"
    by (metis prod_cases3)
  from only_writable_shares_change [OF links run] run show ?thesis
    by auto
qed

section \<open>Uploads and downloads\<close>

text \<open>A system on which every call succeeds and no download is cut.\<close>

definition all_well :: "system \<Rightarrow> bool" where
  "all_well sys = (sy_open sys \<and> sy_seek sys \<and> sy_write sys = None \<and> sy_sync sys \<and> sy_remove sys \<and> sy_rename sys
     \<and> sy_chunks sys = None)"

lemma upload_chunks_effect:
  assumes "sv_upload sv = Some u" "up_written u + length (concat bss) \<le> up_size u" "\<forall>r\<in>set rs. all_well (fst r)"
    and "map snd rs = map ReqChunk bss" "content_at fs (up_file u) = pre" "length pre = up_written u"
  shows "\<exists>replies sv' u'. run_requests cs rs sv fs = (replies, sv', (if bss = [] then fs else fs(up_file u \<mapsto> File (pre @ concat bss))))
    \<and> sv_upload sv' = Some u' \<and> up_written u' = up_written u + length (concat bss) \<and> up_size u' = up_size u
    \<and> up_file u' = up_file u \<and> up_part u' = up_part u \<and> up_target u' = up_target u
    \<and> (\<forall>r\<in>set replies. \<exists>n\<le>up_size u. r = RepAck n)"
  using assms
proof (induction rs arbitrary: sv u bss fs pre)
  case (Cons r rs)
  obtain bs rest where bss: "bss = bs # rest"
    using Cons.prems(4) by (cases bss) auto
  obtain sys where r: "r = (sys, ReqChunk bs)" "all_well sys"
    using Cons.prems(3,4) bss by (cases r) auto
  let ?u = "u\<lparr>up_written := up_written u + length bs\<rparr>"
  let ?u' = "if ACK_EVERY \<le> up_written ?u - up_acked u then ?u\<lparr>up_acked := up_written ?u\<rparr> else ?u"
  let ?fs = "fs(up_file u \<mapsto> File (pre @ bs))"
  let ?sv = "sv\<lparr>sv_upload := Some ?u'\<rparr>"
  let ?rep = "if ACK_EVERY \<le> up_written ?u - up_acked u then [RepAck (up_written ?u)] else []"
  have room: "up_written u + length bs \<le> up_size u"
    using Cons.prems(2) bss by simp
  have step: "handle_request cs sys (ReqChunk bs) sv fs = (?rep, ?sv, ?fs)"
    using room Cons.prems(1,5,6) r(2)
    by (auto simp: handle_request_def upload_chunk_def reply_or_error_def write_at_def all_well_def Let_def)
  have "\<exists>replies sv' u'. run_requests cs rs ?sv ?fs
      = (replies, sv', (if rest = [] then ?fs else ?fs(up_file ?u' \<mapsto> File ((pre @ bs) @ concat rest))))
    \<and> sv_upload sv' = Some u' \<and> up_written u' = up_written ?u' + length (concat rest) \<and> up_size u' = up_size ?u'
    \<and> up_file u' = up_file ?u' \<and> up_part u' = up_part ?u' \<and> up_target u' = up_target ?u'
    \<and> (\<forall>r\<in>set replies. \<exists>n\<le>up_size ?u'. r = RepAck n)"
    using Cons.prems bss by (intro Cons.IH) (auto simp: content_at_def)
  moreover have "up_size ?u' = up_size u" "up_file ?u' = up_file u" "up_part ?u' = up_part u"
    "up_target ?u' = up_target u" "up_written ?u' = up_written u + length bs"
    by simp_all
  ultimately obtain replies sv' u' where run: "run_requests cs rs ?sv ?fs
      = (replies, sv', (if rest = [] then ?fs else ?fs(up_file u \<mapsto> File ((pre @ bs) @ concat rest))))"
    and u': "sv_upload sv' = Some u'" "up_written u' = up_written u + length bs + length (concat rest)" "up_size u' = up_size u"
    "up_file u' = up_file u" "up_part u' = up_part u" "up_target u' = up_target u"
    "\<forall>r\<in>set replies. \<exists>n\<le>up_size u. r = RepAck n"
    by metis
  have "run_requests cs (r # rs) sv fs = (?rep @ replies, sv', fs(up_file u \<mapsto> File (pre @ concat bss)))"
    using run by (simp add: r(1) step bss)
  moreover have "\<forall>r\<in>set (?rep @ replies). \<exists>n\<le>up_size u. r = RepAck n"
    using u'(7) room by auto
  ultimately show ?case
    using u'(1-6) bss by (intro exI [of _ "?rep @ replies"] exI [of _ sv'] exI [of _ u']) (simp add: fun_upd_def)
qed simp

lemma run_requests_append:
  "run_requests cs (xs @ ys) sv fs =
     (let (r1, sv, fs) = run_requests cs xs sv fs; (r2, sv, fs) = run_requests cs ys sv fs in (r1 @ r2, sv, fs))"
proof (induction xs arbitrary: sv fs)
  case (Cons x xs)
  then show ?case
    by (cases x) (simp add: split_beta Let_def)
qed (simp add: split_beta)

lemma upload_rest:
  assumes "sv_upload sv = Some u" "up_written u = held" "up_size u = length data" "held \<le> length data"
    and "fs (up_part u) = Some (File (take held data))" "up_file u = up_part u"
    and "up_target u \<noteq> up_part u" "fs (up_target u) \<noteq> Some Dir" "\<forall>r\<in>set rs. all_well (fst r)" "all_well sys"
    and "map snd rs = map ReqChunk bss" "concat bss = drop held data"
  shows "\<exists>acks sv'. run_requests cs (rs @ [(sys, ReqFinish)]) sv fs =
      (acks @ [RepDone (length data)], sv', fs(up_target u \<mapsto> File data, up_part u := None))
    \<and> sv_upload sv' = None \<and> set acks \<subseteq> RepAck ` {..length data}"
proof -
  obtain replies sv' u' where run: "run_requests cs rs sv fs
      = (replies, sv', (if bss = [] then fs else fs(up_part u \<mapsto> File (take held data @ concat bss))))"
    and u': "sv_upload sv' = Some u'" "up_written u' = up_written u + length (concat bss)" "up_size u' = length data"
      "up_part u' = up_part u" "up_target u' = up_target u"
    and "\<forall>r\<in>set replies. \<exists>n\<le>length data. r = RepAck n"
    using upload_chunks_effect [of sv u bss rs fs "take held data" cs] assms by (auto simp: content_at_def)
  then have acks: "set replies \<subseteq> RepAck ` {..length data}"
    by auto
  let ?fs = "if bss = [] then fs else fs(up_part u \<mapsto> File (take held data @ concat bss))"
  have part: "?fs (up_part u) = Some (File data)"
  proof (cases "bss = []")
    case True
    then have "held = length data"
      using assms(4,12) by simp
    then show ?thesis
      using True assms(5) by simp
  next
    case False
    then show ?thesis
      using assms(12) by simp
  qed
  have "up_written u' = up_size u'"
    using u' assms(2,4,12) by simp
  moreover have "?fs (up_target u) \<noteq> Some Dir"
    using assms(7,8) by simp
  ultimately have "handle_request cs sys ReqFinish sv' ?fs =
      ([RepDone (length data)], sv'\<lparr>sv_upload := None\<rparr>, ?fs(up_target u \<mapsto> File data, up_part u := None))"
    using u' assms(7,10) part
    by (auto simp: handle_request_def upload_finish_def reply_or_error_def all_well_def Let_def)
  moreover have "?fs(up_target u \<mapsto> File data, up_part u := None) = fs(up_target u \<mapsto> File data, up_part u := None)"
    using assms(7) by (auto simp: fun_eq_iff)
  ultimately show ?thesis
    using acks by (simp add: run_requests_append run)
qed

text \<open>What an answered write request has set up, when the unfinished upload is not a link.\<close>

lemma begin_upload_answered:
  assumes "begin_upload cs sys name path sz resume sv fs = (Inr held, sv', fs')"
    and "resolve_new cs fs (sv_shares sv) name path = Inr target" "\<And>t. fs (part_path target) \<noteq> Some (Link t)"
  shows "held \<le> unat sz" "target \<noteq> part_path target" "fs target \<noteq> Some Dir"
    "sv_upload sv' = Some \<lparr>up_file = part_path target, up_part = part_path target, up_target = target,
       up_size = unat sz, up_written = held, up_acked = held\<rparr>"
    "fs' = fs(part_path target \<mapsto> File (if held = 0 then [] else content_at fs (part_path target)))"
proof -
  obtain folder p where folder: "real_place fs folder" "target = folder @ [p]"
    using resolve_new_Inr [OF assms(2)] by blast
  obtain q where q: "open_place fs MAX_LINKS (part_path target) = Some q" "\<not> is_dir fs target" "held \<le> unat sz"
    and sv': "sv_upload sv' = Some \<lparr>up_file = q, up_part = part_path target, up_target = target,
       up_size = unat sz, up_written = held, up_acked = held\<rparr>"
    and fs': "fs' = fs(q \<mapsto> File (if held = 0 then [] else content_at fs q))"
    using assms(1,2) by (auto simp: begin_upload_def Let_def split: sum.splits option.splits if_splits)
  have "q = part_path target"
    using open_place_part [OF folder(1), of "p @ PART_SUFFIX" MAX_LINKS q] q(1) assms(3) by (simp add: folder(2) part_path_snoc)
  with q sv' fs' show "held \<le> unat sz" "fs target \<noteq> Some Dir"
    "sv_upload sv' = Some \<lparr>up_file = part_path target, up_part = part_path target, up_target = target,
       up_size = unat sz, up_written = held, up_acked = held\<rparr>"
    "fs' = fs(part_path target \<mapsto> File (if held = 0 then [] else content_at fs (part_path target)))"
    by (auto simp: is_dir_def)
  show "target \<noteq> part_path target"
    by (simp add: folder(2) part_path_snoc PART_SUFFIX_def)
qed

text \<open>
  C21. A whole upload arrives as it was sent: when the host answers a write request for a new or an unfinished
  upload, which is not a link, with the number of bytes it holds, and what it holds is the start of the data,
  then the chunks that carry the rest, however they are cut, and a finish request put exactly the data under the
  target's name, leave nothing of the unfinished upload and change no other place; no acknowledgement names more
  bytes than the file has. The system calls succeed.
\<close>

theorem upload_is_exact:
  assumes "handle_request cs sys (ReqWrite name path sz resume) sv fs = ([RepReady held], sv1, fs1)"
    and "resolve_new cs fs (sv_shares sv) name path = Inr target" "\<And>t. fs (part_path target) \<noteq> Some (Link t)"
    and "unat sz = length data" "held \<noteq> 0 \<longrightarrow> content_at fs (part_path target) = take held data"
    and "\<forall>r\<in>set rs. all_well (fst r)" "all_well last_sys" "map snd rs = map ReqChunk bss" "concat bss = drop held data"
  shows "\<exists>acks sv'. run_requests cs ((sys, ReqWrite name path sz resume) # rs @ [(last_sys, ReqFinish)]) sv fs =
      (RepReady held # acks @ [RepDone (length data)], sv', fs(target \<mapsto> File data, part_path target := None))
    \<and> sv_upload sv' = None \<and> set acks \<subseteq> RepAck ` {..length data}"
proof -
  let ?part = "part_path target"
  let ?u = "\<lparr>up_file = ?part, up_part = ?part, up_target = target, up_size = length data, up_written = held, up_acked = held\<rparr> :: upload"
  have "begin_upload cs sys name path sz resume sv fs = (Inr held, sv1, fs1)"
    using assms(1) by (auto simp: handle_request_def reply_or_error_def split: prod.splits sum.splits)
  note begun = begin_upload_answered [OF this assms(2,3), unfolded assms(4)]
  have fs1: "fs1 ?part = Some (File (take held data))" "fs1 target \<noteq> Some Dir"
    using begun assms(5) by auto
  obtain acks sv' where rest: "run_requests cs (rs @ [(last_sys, ReqFinish)]) sv1 fs1 =
      (acks @ [RepDone (length data)], sv', fs1(target \<mapsto> File data, ?part := None))"
    "sv_upload sv' = None" "set acks \<subseteq> RepAck ` {..length data}"
    using upload_rest [of sv1 ?u held data fs1 rs last_sys bss cs] begun fs1 assms(6-) by auto
  have "fs1(target \<mapsto> File data, ?part := None) = fs(target \<mapsto> File data, ?part := None)"
    using begun(2,5) by (auto simp: fun_eq_iff)
  with rest show ?thesis
    by (auto simp: assms(1))
qed

theorem upload_is_exact_witness:
  "\<exists>acks sv'. run_requests ascii_casing ((quiet, ReqWrite [120] [98] 4 False)
        # map (Pair quiet) (map ReqChunk [[4, 5], [6, 7]]) @ [(quiet, ReqFinish)]) (service_new sample_shares) sample_tree =
      (RepReady 0 # acks @ [RepDone (length [4, 5, 6, 7 :: u8])], sv',
       sample_tree([[115], [98]] \<mapsto> File [4, 5, 6, 7], part_path [[115], [98]] := None))
    \<and> sv_upload sv' = None \<and> set acks \<subseteq> RepAck ` {..length [4, 5, 6, 7 :: u8]}"
proof -
  have "clean_path ascii_casing [98] = Inr [[98]]"
    by (simp add: clean_path_def ascii_casing_def clean_def clean_part_def starts_with_def ends_with_def is_control_def special_def
        RESERVED_def PART_SUFFIX_def MAX_PATH_def utf8_len_def utf8_len_char_def ascii_lowercase_def ascii_lower_def)
  then have new: "resolve_new ascii_casing sample_tree (sv_shares (service_new sample_shares)) [120] [98] = Inr [[115], [98]]"
    by (simp add: resolve_new_def find_share_def sample_shares_def service_new_def canonical_root_def canonicalize_def sample_tree_def
        MAX_LINKS_def)
  have free: "sample_tree (part_path [[115], [98]]) = None"
    by (simp add: sample_tree_def part_path_def PART_SUFFIX_def)
  have "\<exists>sv1 fs1. handle_request ascii_casing quiet (ReqWrite [120] [98] 4 False) (service_new sample_shares) sample_tree = ([RepReady 0], sv1, fs1)"
  proof -
    have "open_place sample_tree MAX_LINKS (part_path [[115], [98]]) = Some (part_path [[115], [98]])"
      by (simp add: open_place.simps sample_tree_def MAX_LINKS_def is_dir_def PART_SUFFIX_def part_path_def)
    moreover have "\<not> is_dir sample_tree [[115], [98]]"
      by (simp add: is_dir_def sample_tree_def)
    ultimately show ?thesis
      using new by (simp add: handle_request_def begin_upload_def service_new_def share_writable_def find_share_def sample_shares_def
          quiet_def reply_or_error_def Let_def)
  qed
  then obtain sv1 fs1 where w: "handle_request ascii_casing quiet (ReqWrite [120] [98] 4 False) (service_new sample_shares) sample_tree
      = ([RepReady 0], sv1, fs1)"
    by blast
  show ?thesis
    by (rule upload_is_exact [OF w new, where bss = "[[4, 5], [6, 7]]"]) (simp_all add: free all_well_def quiet_def)
qed

lemma file_chunks_props:
  "concat (file_chunks bs) = bs \<and> (\<forall>c\<in>set (file_chunks bs). c \<noteq> [] \<and> length c \<le> FILE_CHUNK)"
proof (induction bs rule: file_chunks.induct)
  case (1 bs)
  then show ?case
    by (subst (1 2) file_chunks.simps) (auto simp: FILE_CHUNK_def MAX_CHUNK_def)
qed

text \<open>
  A download gives exactly the rest of a file inside the share: when reading is answered and not cut,
  the replies are chunks of at most the chunk size that make up the file from the offset on, and its
  length; the file lies inside the folder of the share, links followed.
\<close>

theorem download_is_exact:
  assumes "read_file cs sys fs ss name path offset = (replies, Inr ())" "all_well sys"
  shows "\<exists>s root found chunks. find_share ss name = Inr s \<and> canonicalize fs (sh_root s) = Some root \<and> prefix root found
    \<and> replies = map RepChunk chunks @ [RepEnd (length (content_at fs found))]
    \<and> concat chunks = drop (unat offset) (content_at fs found) \<and> unat offset \<le> length (content_at fs found)
    \<and> (\<forall>c\<in>set chunks. c \<noteq> [] \<and> length c \<le> FILE_CHUNK)"
proof -
  obtain found root where res: "resolve_existing cs fs ss name path = Inr (found, root)"
    using assms(1) by (auto simp: read_file_def split: sum.splits)
  then obtain s where s: "find_share ss name = Inr s" "canonicalize fs (sh_root s) = Some root" "prefix root found"
    by (auto simp: resolve_existing_def canonical_root_def split: sum.splits option.splits if_splits)
  have "replies = map RepChunk (file_chunks (drop (unat offset) (content_at fs found))) @ [RepEnd (length (content_at fs found))]"
    "unat offset \<le> length (content_at fs found)"
    using assms res by (auto simp: read_file_def all_well_def Let_def split: if_splits)
  then show ?thesis
    using s file_chunks_props [of "drop (unat offset) (content_at fs found)"] by blast
qed

theorem download_is_exact_witness:
  "\<exists>s root found chunks. find_share sample_shares [120] = Inr s \<and> canonicalize sample_tree (sh_root s) = Some root
    \<and> prefix root found \<and> ([RepChunk [2], RepEnd 2] :: file_error file_reply list) = map RepChunk chunks @ [RepEnd (length (content_at sample_tree found))]
    \<and> concat chunks = drop (unat (1 :: u64)) (content_at sample_tree found) \<and> unat (1 :: u64) \<le> length (content_at sample_tree found)
    \<and> list_all (\<lambda>c. c \<noteq> [] \<and> length c \<le> FILE_CHUNK) chunks"
proof -
  have "clean_path ascii_casing [97] = Inr [[97]]"
    by (simp add: clean_path_def ascii_casing_def clean_def clean_part_def starts_with_def ends_with_def is_control_def special_def
        RESERVED_def PART_SUFFIX_def MAX_PATH_def utf8_len_def utf8_len_char_def ascii_lowercase_def ascii_lower_def)
  then have "read_file ascii_casing quiet sample_tree sample_shares [120] [97] 1 = ([RepChunk [2], RepEnd 2], Inr ())"
    by (simp add: read_file_def resolve_existing_def find_share_def sample_shares_def canonical_root_def canonicalize_def
        sample_tree_def MAX_LINKS_def quiet_def is_dir_def content_at_def file_chunks.simps FILE_CHUNK_def MAX_CHUNK_def)
  then show ?thesis
    unfolding list_all_iff by (rule download_is_exact) (simp add: all_well_def quiet_def)
qed

section \<open>Links named like an unfinished upload\<close>

text \<open>
  The hypothesis on links above is needed: the name of the unfinished upload is opened without a check,
  so that a link of that name in the share leads a write request to a file outside it, which is emptied.
\<close>

definition linked_tree :: fs where
  "linked_tree = [[[115]] \<mapsto> Dir, [[111]] \<mapsto> File [7], [[115], [98] @ PART_SUFFIX] \<mapsto> Link [[111]]]"

theorem part_link_leaves_share:
  "\<exists>sv. handle_request ascii_casing quiet (ReqWrite [120] [98] 1 False) (service_new sample_shares) linked_tree
      = ([RepReady 0], sv, linked_tree([[111]] \<mapsto> File []))"
proof -
  have "clean_path ascii_casing [98] = Inr [[98]]"
    by (simp add: clean_path_def ascii_casing_def clean_def clean_part_def starts_with_def ends_with_def is_control_def special_def
        RESERVED_def PART_SUFFIX_def MAX_PATH_def utf8_len_def utf8_len_char_def ascii_lowercase_def ascii_lower_def)
  then have "resolve_new ascii_casing linked_tree sample_shares [120] [98] = Inr [[115], [98]]"
    by (simp add: resolve_new_def find_share_def sample_shares_def canonical_root_def canonicalize_def linked_tree_def
        MAX_LINKS_def PART_SUFFIX_def)
  moreover have "open_place linked_tree MAX_LINKS [[115], 98 # PART_SUFFIX] = Some [[111]]"
    by (simp add: open_place.simps linked_tree_def MAX_LINKS_def is_dir_def PART_SUFFIX_def)
  moreover have "\<not> is_dir linked_tree [[115], [98]]"
    by (simp add: is_dir_def linked_tree_def PART_SUFFIX_def)
  ultimately show ?thesis
    by (simp add: handle_request_def begin_upload_def service_new_def share_writable_def find_share_def sample_shares_def
        part_path_def quiet_def reply_or_error_def Let_def)
qed

end
