(* ===== verification/Host_Watch.thy ===== *)
theory Host_Watch
  imports Host_Files Accounts_Policy "HOL-Library.AList" "HOL-Library.Multiset"
begin

text \<open>
  Folder watch for save sync (\<open>host-core/src/watch.rs\<close>): the look at a folder, what is ready to send,
  and the thread that sends it. Instants are counted in milliseconds; what the file system holds at a
  look, which files can be opened and what reading one gives are arguments.
\<close>

section \<open>Messages\<close>

datatype watch_reply =
    WatchStarted nat
  | WatchFile rstr nat
  | WatchChunk bytes
  | WatchEnd
  | WatchError rstr

section \<open>The look at the folder\<close>

definition DEBOUNCE :: nat where "DEBOUNCE = 2000"
definition POLL_EVERY :: nat where "POLL_EVERY = 500"
definition MAX_FILES :: nat where "MAX_FILES = 5000"
definition MAX_DEPTH :: nat where "MAX_DEPTH = 4"

type_synonym stamp = "nat \<times> u64 option"
type_synonym found = "(rstr \<times> place \<times> stamp) list"

text \<open>What the operating system shows at one look: the time, the tree, its system calls, the openable files.\<close>

record look =
  lk_now :: nat
  lk_fs :: fs
  lk_sys :: system
  lk_opens :: "place \<Rightarrow> bool"

record seen_file =
  se_stamp :: stamp
  se_since :: nat
  se_sent :: "stamp option"

record ready =
  rd_path :: rstr
  rd_file :: place
  rd_size :: nat

record watcher =
  wa_root :: place
  wa_folder :: place
  wa_pattern :: "rstr option"
  wa_debounce :: nat
  wa_seen :: "rstr \<rightharpoonup> seen_file"

type_synonym folders = "(place \<times> rstr \<times> nat) list"

text \<open>
  The names of one folder: what is found grows, folders to look into are pushed. The flag says that the
  walk stops, being full.
\<close>

fun scan_items ::
  "casing \<Rightarrow> look \<Rightarrow> watcher \<Rightarrow> place \<Rightarrow> rstr \<Rightarrow> nat \<Rightarrow> rstr list \<Rightarrow> found \<Rightarrow> folders \<Rightarrow> bool \<times> found \<times> folders" where
  "scan_items cs lk w dir pre depth [] found folders = (False, found, folders)"
| "scan_items cs lk w dir pre depth (name # names) found folders =
     (if MAX_FILES \<le> length found then (True, found, folders)
      else if ends_with PART_SUFFIX (cs_lower cs name) then scan_items cs lk w dir pre depth names found folders
      else case canonicalize (lk_fs lk) (dir @ [name]) of
        None \<Rightarrow> scan_items cs lk w dir pre depth names found folders
      | Some real \<Rightarrow>
          if \<not> prefix (wa_root w) real then scan_items cs lk w dir pre depth names found folders
          else if is_dir (lk_fs lk) real then
            scan_items cs lk w dir pre depth names found
              (if depth < MAX_DEPTH then (real, pre @ name @ lit ''/'', depth + 1) # folders else folders)
          else if (case wa_pattern w of None \<Rightarrow> True | Some p \<Rightarrow> glob_matches (cs_lower cs) p name) then
            scan_items cs lk w dir pre depth names
              (AList.update (pre @ name) (real, length (content_at (lk_fs lk) real), sy_times (lk_sys lk) real) found) folders
          else scan_items cs lk w dir pre depth names found folders)"

lemma scan_items_folders:
  assumes "scan_items cs lk w dir pre depth names found folders = (full, found', folders')"
  shows "\<exists>new. folders' = new @ folders \<and> (\<forall>(d, p, n)\<in>set new. n = depth + 1 \<and> depth < MAX_DEPTH)"
  using assms
proof (induction names arbitrary: found folders)
  case (Cons name names)
  have "folders' = folders \<or> (\<exists>found2 folders2. scan_items cs lk w dir pre depth names found2 folders2 = (full, found', folders')
      \<and> (folders2 = folders \<or> depth < MAX_DEPTH \<and> (\<exists>d p. folders2 = (d, p, depth + 1) # folders)))"
    using Cons.prems by (simp split: if_splits option.splits) blast+
  then show ?case
  proof (elim disjE exE conjE)
    fix found2 folders2 d p
    assume rest: "scan_items cs lk w dir pre depth names found2 folders2 = (full, found', folders')"
    {
      assume "folders2 = folders"
      with Cons.IH [OF rest] show ?case
        by simp
    next
      assume deep: "depth < MAX_DEPTH" and f2: "folders2 = (d, p, depth + 1) # folders"
      obtain new where "folders' = new @ folders2" "\<forall>(d, p, n)\<in>set new. n = depth + 1 \<and> depth < MAX_DEPTH"
        using Cons.IH [OF rest] by blast
      with deep f2 show ?case
        by (intro exI [of _ "new @ [(d, p, depth + 1)]"]) simp
    }
  qed simp
qed simp

text \<open>Each folder is replaced by finitely many deeper ones, and the depth is bounded.\<close>

definition folder_order :: "(folders \<times> folders) set" where
  "folder_order = inv_image (mult less_than) (\<lambda>folders. image_mset (\<lambda>(dir, pre, depth). Suc MAX_DEPTH - depth) (mset folders))"

lemma wf_folder_order: "wf folder_order"
  unfolding folder_order_def by (intro wf_inv_image wf_mult) simp

lemma folder_order_pop: "(folders, x # folders) \<in> folder_order"
  by (simp add: folder_order_def split_beta subset_implies_mult)

lemma folder_order_push:
  assumes "\<forall>(d, p, n)\<in>set new. n = depth + 1 \<and> depth < MAX_DEPTH"
  shows "(new @ folders, (dir, pre, depth) # folders) \<in> folder_order"
proof -
  let ?f = "\<lambda>(dir :: place, pre :: rstr, depth :: nat). Suc MAX_DEPTH - depth"
  have "(image_mset ?f (mset folders) + image_mset ?f (mset new), image_mset ?f (mset folders) + {#?f (dir, pre, depth)#}) \<in> mult less_than"
    by (rule one_step_implies_mult) (use assms in auto)
  then show ?thesis
    by (simp add: folder_order_def add.commute)
qed

function scan_folders :: "casing \<Rightarrow> look \<Rightarrow> watcher \<Rightarrow> folders \<Rightarrow> found \<Rightarrow> found" where
  "scan_folders cs lk w [] found = found"
| "scan_folders cs lk w ((dir, pre, depth) # folders) found =
     (case sy_ls (lk_sys lk) dir of
        None \<Rightarrow> scan_folders cs lk w folders found
      | Some names \<Rightarrow>
          (case scan_items cs lk w dir pre depth names found folders of (full, found, folders) \<Rightarrow>
             if full then found else scan_folders cs lk w folders found))"
  by pat_completeness auto

termination
proof (relation "inv_image folder_order (\<lambda>(cs, lk, w, folders, found). folders)")
  show "wf (inv_image folder_order (\<lambda>(cs, lk, w, folders, found). folders))"
    by (rule wf_inv_image [OF wf_folder_order])
qed (auto simp: folder_order_pop dest!: sym [of _ "scan_items _ _ _ _ _ _ _ _ _"] scan_items_folders intro: folder_order_push)

declare scan_folders.simps(2) [simp del]

definition watch_scan :: "casing \<Rightarrow> look \<Rightarrow> watcher \<Rightarrow> found" where
  "watch_scan cs lk w = scan_folders cs lk w [(wa_folder w, [], 0)] []"

section \<open>The watcher\<close>

definition first_seen :: "bool \<Rightarrow> nat \<Rightarrow> stamp \<Rightarrow> seen_file" where
  "first_seen existing now st = \<lparr>se_stamp = st, se_since = now, se_sent = (if existing then None else Some st)\<rparr>"

datatype watch_error = WatchPath file_error | NotWatchable | BadPattern

definition fresh_watcher :: "place \<Rightarrow> place \<Rightarrow> rstr option \<Rightarrow> nat \<Rightarrow> watcher" where
  "fresh_watcher root folder pattern debounce =
     \<lparr>wa_root = root, wa_folder = folder, wa_pattern = pattern, wa_debounce = debounce, wa_seen = Map.empty\<rparr>"

definition watcher_new ::
  "casing \<Rightarrow> look \<Rightarrow> shares \<Rightarrow> rstr \<Rightarrow> rstr \<Rightarrow> rstr option \<Rightarrow> bool \<Rightarrow> nat \<Rightarrow> watch_error + (watcher \<times> nat)" where
  "watcher_new cs lk ss name path pattern existing debounce =
     (case resolve_existing cs (lk_fs lk) ss name path of
        Inl e \<Rightarrow> Inl (WatchPath e)
      | Inr (folder, root) \<Rightarrow>
          if \<not> is_dir (lk_fs lk) folder then Inl NotWatchable
          else if (case pattern of None \<Rightarrow> False
                   | Some p \<Rightarrow> 128 < utf8_len p \<or> List.member p 47 \<or> List.member p 92) then Inl BadPattern
          else let w = fresh_watcher root folder pattern debounce; found = watch_scan cs lk w
            in Inr (w\<lparr>wa_seen := foldl (\<lambda>seen (path, file, st). seen(path \<mapsto> first_seen existing (lk_now lk) st)) (wa_seen w) found\<rparr>,
                    length found mod 2 ^ 32))"

text \<open>One file found at a look: its entry afterwards, and whether it is ready.\<close>

definition look_entry :: "nat \<Rightarrow> nat \<Rightarrow> bool \<Rightarrow> seen_file option \<Rightarrow> stamp \<Rightarrow> bool \<times> seen_file" where
  "look_entry debounce now opens entry st =
     (let e = (case entry of None \<Rightarrow> \<lparr>se_stamp = st, se_since = now, se_sent = None\<rparr> | Some e \<Rightarrow> e);
          e = (if se_stamp e \<noteq> st then e\<lparr>se_stamp := st, se_since := now\<rparr> else e);
          settled = (debounce \<le> now - se_since e)
      in if settled \<and> se_sent e \<noteq> Some st \<and> opens then (True, e\<lparr>se_sent := Some st\<rparr>) else (False, e))"

fun poll_found :: "look \<Rightarrow> nat \<Rightarrow> found \<Rightarrow> ready list \<times> (rstr \<rightharpoonup> seen_file) \<Rightarrow> ready list \<times> (rstr \<rightharpoonup> seen_file)" where
  "poll_found lk debounce [] acc = acc"
| "poll_found lk debounce ((path, file, st) # found) (ready, seen) =
     (let (r, e) = look_entry debounce (lk_now lk) (lk_opens lk file) (seen path) st
      in poll_found lk debounce found
           (if r then ready @ [\<lparr>rd_path = path, rd_file = file, rd_size = fst st\<rparr>] else ready, seen(path \<mapsto> e)))"

definition watcher_poll :: "casing \<Rightarrow> look \<Rightarrow> watcher \<Rightarrow> ready list \<times> watcher" where
  "watcher_poll cs lk w =
     (let found = watch_scan cs lk w;
          seen = (\<lambda>path. if path \<in> fst ` set found then wa_seen w path else None);
          (ready, seen) = poll_found lk (wa_debounce w) found ([], seen)
      in (sort_key rd_path ready, w\<lparr>wa_seen := seen\<rparr>))"

section \<open>The thread that sends\<close>

text \<open>
  The channel: what has been sent, and how many more messages it takes before it is gone. The flag
  \<open>cancelled\<close> is raised by another thread: what it shows after so many messages is an argument. Reading
  a file gives chunks and then its end or an error.
\<close>

record watch_channel =
  wc_sent :: "watch_reply list"
  wc_room :: "nat option"

definition emit :: "watch_reply \<Rightarrow> watch_channel \<Rightarrow> bool \<times> watch_channel" where
  "emit reply c =
     (if wc_room c = Some 0 then (False, c)
      else (True, c\<lparr>wc_sent := wc_sent c @ [reply], wc_room := map_option (\<lambda>n. n - 1) (wc_room c)\<rparr>))"

datatype reading = Unreadable | Reads "bytes list" bool

datatype streamed = StreamedAll | ChannelGone | StreamError

fun stream_chunks :: "(nat \<Rightarrow> bool) \<Rightarrow> bytes list \<Rightarrow> bool \<Rightarrow> watch_channel \<Rightarrow> streamed \<times> watch_channel" where
  "stream_chunks cancelled [] whole c =
     (if cancelled (length (wc_sent c)) then (ChannelGone, c)
      else if \<not> whole then (StreamError, c)
      else let (sent, c) = emit WatchEnd c in (if sent then StreamedAll else ChannelGone, c))"
| "stream_chunks cancelled (b # bs) whole c =
     (if cancelled (length (wc_sent c)) then (ChannelGone, c)
      else let (sent, c) = emit (WatchChunk b) c
        in if sent then stream_chunks cancelled bs whole c else (ChannelGone, c))"

definition stream_file :: "(nat \<Rightarrow> bool) \<Rightarrow> ready \<Rightarrow> reading \<Rightarrow> watch_channel \<Rightarrow> streamed \<times> watch_channel" where
  "stream_file cancelled r reading c =
     (case reading of
        Unreadable \<Rightarrow> (StreamError, c)
      | Reads chunks whole \<Rightarrow>
          (let (sent, c) = emit (WatchFile (rd_path r) (rd_size r)) c
           in if \<not> sent then (ChannelGone, c) else stream_chunks cancelled chunks whole c))"

fun stream_all :: "(nat \<Rightarrow> bool) \<Rightarrow> (place \<Rightarrow> reading) \<Rightarrow> ready list \<Rightarrow> watch_channel \<Rightarrow> bool \<times> watch_channel" where
  "stream_all cancelled read [] c = (True, c)"
| "stream_all cancelled read (r # rs) c =
     (if cancelled (length (wc_sent c)) then (False, c)
      else case stream_file cancelled r (read (rd_file r)) c of
        (ChannelGone, c) \<Rightarrow> (False, c)
      | (_, c) \<Rightarrow> stream_all cancelled read rs c)"

text \<open>The loop, over the looks that follow one another while it is not cancelled.\<close>

fun watch_loop ::
  "casing \<Rightarrow> (nat \<Rightarrow> bool) \<Rightarrow> (look \<times> (place \<Rightarrow> reading)) list \<Rightarrow> watcher \<Rightarrow> watch_channel \<Rightarrow> watcher \<times> watch_channel" where
  "watch_loop cs cancelled [] w c = (w, c)"
| "watch_loop cs cancelled ((lk, read) # looks) w c =
     (if cancelled (length (wc_sent c)) then (w, c)
      else let (ready, w) = watcher_poll cs lk w; (on, c) = stream_all cancelled read ready c
        in if on then watch_loop cs cancelled looks w c else (w, c))"

definition watch_run ::
  "casing \<Rightarrow> (nat \<Rightarrow> bool) \<Rightarrow> (look \<times> (place \<Rightarrow> reading)) list \<Rightarrow> nat \<Rightarrow> watcher \<Rightarrow> watch_channel \<Rightarrow> watcher \<times> watch_channel" where
  "watch_run cs cancelled looks existing w c =
     (let (sent, c) = emit (WatchStarted existing) c in if sent then watch_loop cs cancelled looks w c else (w, c))"

definition watch_start ::
  "casing \<Rightarrow> (nat \<Rightarrow> bool) \<Rightarrow> look \<Rightarrow> (look \<times> (place \<Rightarrow> reading)) list \<Rightarrow> shares \<Rightarrow> rstr \<Rightarrow> rstr \<Rightarrow> rstr option \<Rightarrow> bool
    \<Rightarrow> watch_channel \<Rightarrow> watch_error + watcher \<times> watch_channel" where
  "watch_start cs cancelled lk looks ss name path pattern existing c =
     (case watcher_new cs lk ss name path pattern existing DEBOUNCE of
        Inl e \<Rightarrow> Inl e
      | Inr (w, n) \<Rightarrow> Inr (watch_run cs cancelled looks n w c))"

section \<open>A look, file by file\<close>

lemma distinct_scan_items:
  "scan_items cs lk w dir pre depth names found folders = (full, found', folders') \<Longrightarrow> distinct (map fst found) \<Longrightarrow> distinct (map fst found')"
proof (induction names arbitrary: found folders)
  case (Cons name names)
  then show ?case
    by (auto simp: distinct_update split: if_splits option.splits)
qed simp

lemma distinct_scan_folders: "distinct (map fst found) \<Longrightarrow> distinct (map fst (scan_folders cs lk w folders found))"
proof (induction cs lk w folders found rule: scan_folders.induct)
  case (2 cs lk w dir pre depth folders found)
  show ?case
  proof (cases "sy_ls (lk_sys lk) dir")
    case None
    with 2 show ?thesis
      by (simp add: scan_folders.simps)
  next
    case (Some names)
    obtain full found' folders' where items: "scan_items cs lk w dir pre depth names found folders = (full, found', folders')"
      by (metis prod_cases3)
    with "2.IH"(2) [OF Some items [symmetric] refl] distinct_scan_items [OF items "2.prems"] Some show ?thesis
      by (simp add: scan_folders.simps)
  qed
qed simp

lemma distinct_scan: "distinct (map fst (watch_scan cs lk w))"
  by (simp add: watch_scan_def distinct_scan_folders)

lemma scan_items_seen: "scan_items cs lk (w\<lparr>wa_seen := s\<rparr>) dir pre depth names found folders = scan_items cs lk w dir pre depth names found folders"
  by (induction names arbitrary: found folders) (auto split: option.split)

lemma scan_folders_seen: "scan_folders cs lk (w\<lparr>wa_seen := s\<rparr>) folders found = scan_folders cs lk w folders found"
proof (induction cs lk w folders found rule: scan_folders.induct)
  case (2 cs lk w dir pre depth folders found)
  show ?case
  proof (cases "sy_ls (lk_sys lk) dir")
    case None
    with 2 show ?thesis
      by (simp add: scan_folders.simps)
  next
    case (Some names)
    obtain full found' folders' where items: "scan_items cs lk w dir pre depth names found folders = (full, found', folders')"
      by (metis prod_cases3)
    with "2.IH"(2) [OF Some items [symmetric] refl] Some show ?thesis
      by (simp add: scan_folders.simps scan_items_seen)
  qed
qed simp

lemma scan_seen [simp]: "watch_scan cs lk (w\<lparr>wa_seen := s\<rparr>) = watch_scan cs lk w"
  by (simp add: watch_scan_def scan_folders_seen)

lemma poll_found_pointwise:
  assumes "distinct (map fst found)"
  shows "poll_found lk debounce found (ready, seen) =
    (ready @ map (\<lambda>(p, file, st). \<lparr>rd_path = p, rd_file = file, rd_size = fst st\<rparr>)
       (filter (\<lambda>(p, file, st). fst (look_entry debounce (lk_now lk) (lk_opens lk file) (seen p) st)) found),
     \<lambda>p. case map_of found p of None \<Rightarrow> seen p
       | Some (file, st) \<Rightarrow> Some (snd (look_entry debounce (lk_now lk) (lk_opens lk file) (seen p) st)))"
  using assms
proof (induction found arbitrary: ready seen)
  case (Cons x found)
  obtain p "file" st where x: "x = (p, file, st)"
    by (cases x)
  have others: "fst y \<noteq> p" if "y \<in> set found" for y
    using Cons.prems that by (auto simp: x)
  have none: "map_of found p = None"
    using Cons.prems by (simp add: x map_of_eq_None_iff)
  show ?case
    using Cons.prems none
    by (simp add: x Cons.IH others split_beta fun_eq_iff cong: filter_cong split: option.split)
qed simp

text \<open>The stamp a look gives a path, and the ready files of a look.\<close>

definition stamp_at :: "casing \<Rightarrow> watcher \<Rightarrow> look \<Rightarrow> rstr \<Rightarrow> stamp option" where
  "stamp_at cs w lk p = map_option snd (map_of (watch_scan cs lk w) p)"

definition watcher_after :: "casing \<Rightarrow> look list \<Rightarrow> watcher \<Rightarrow> watcher" where
  "watcher_after cs looks w = foldl (\<lambda>w lk. snd (watcher_poll cs lk w)) w looks"

definition ready_at :: "casing \<Rightarrow> look list \<Rightarrow> look \<Rightarrow> watcher \<Rightarrow> ready list" where
  "ready_at cs looks lk w = fst (watcher_poll cs lk (watcher_after cs looks w))"

lemma watcher_poll_eq:
  defines "kept \<equiv> \<lambda>cs lk w path. if path \<in> fst ` set (watch_scan cs lk w) then wa_seen w path else None"
  shows "watcher_poll cs lk w =
    (sort_key rd_path (map (\<lambda>(p, file, st). \<lparr>rd_path = p, rd_file = file, rd_size = fst st\<rparr>)
       (filter (\<lambda>(p, file, st). fst (look_entry (wa_debounce w) (lk_now lk) (lk_opens lk file) (kept cs lk w p) st)) (watch_scan cs lk w))),
     w\<lparr>wa_seen := \<lambda>p. case map_of (watch_scan cs lk w) p of None \<Rightarrow> kept cs lk w p
       | Some (file, st) \<Rightarrow> Some (snd (look_entry (wa_debounce w) (lk_now lk) (lk_opens lk file) (kept cs lk w p) st))\<rparr>)"
  unfolding watcher_poll_def kept_def Let_def poll_found_pointwise [OF distinct_scan] by simp

lemma watcher_poll_seen:
  "wa_seen (snd (watcher_poll cs lk w)) p =
    (case map_of (watch_scan cs lk w) p of None \<Rightarrow> None
     | Some (file, st) \<Rightarrow> Some (snd (look_entry (wa_debounce w) (lk_now lk) (lk_opens lk file) (wa_seen w p) st)))"
proof (cases "map_of (watch_scan cs lk w) p")
  case None
  then have "p \<notin> fst ` set (watch_scan cs lk w)"
    by (simp add: map_of_eq_None_iff)
  with None show ?thesis
    by (simp add: watcher_poll_eq)
next
  case (Some x)
  then have "p \<in> fst ` set (watch_scan cs lk w)"
    by (metis domI dom_map_of_conv_image_fst)
  with Some show ?thesis
    by (simp add: watcher_poll_eq split: prod.split)
qed

lemma picked_mem:
  "r \<in> (\<lambda>(p, file, st). f p file st) ` {x \<in> set xs. (\<lambda>(p, file, st). P p file st (if p \<in> fst ` set xs then s p else None)) x}
    \<longleftrightarrow> (\<exists>p file st. (p, file, st) \<in> set xs \<and> r = f p file st \<and> P p file st (s p))"
  (is "?L \<longleftrightarrow> ?R")
proof
  assume ?L
  then obtain p "file" st where "(p, file, st) \<in> set xs" "r = f p file st" "P p file st (if p \<in> fst ` set xs then s p else None)"
    by auto
  moreover from this have "p \<in> fst ` set xs"
    by force
  ultimately show ?R
    by auto
next
  assume ?R
  then obtain p "file" st where "(p, file, st) \<in> set xs" "r = f p file st" "P p file st (s p)"
    by auto
  moreover from this have "p \<in> fst ` set xs"
    by force
  ultimately show ?L
    by (intro image_eqI [of _ _ "(p, file, st)"]) auto
qed

lemma watcher_poll_ready:
  "r \<in> set (fst (watcher_poll cs lk w)) \<longleftrightarrow>
    (\<exists>p file st. map_of (watch_scan cs lk w) p = Some (file, st) \<and> r = \<lparr>rd_path = p, rd_file = file, rd_size = fst st\<rparr>
      \<and> fst (look_entry (wa_debounce w) (lk_now lk) (lk_opens lk file) (wa_seen w p) st))"
  unfolding watcher_poll_eq fst_conv set_sort set_map set_filter map_of_eq_Some_iff [OF distinct_scan]
  by (rule picked_mem)

section \<open>What a watch has seen and sent\<close>

lemma watcher_after_Nil [simp]: "watcher_after cs [] w = w"
  by (simp add: watcher_after_def)

lemma watcher_after_snoc [simp]: "watcher_after cs (looks @ [lk]) w = snd (watcher_poll cs lk (watcher_after cs looks w))"
  by (simp add: watcher_after_def)

lemma watcher_poll_rest: "\<exists>s. snd (watcher_poll cs lk w) = w\<lparr>wa_seen := s\<rparr>"
  unfolding watcher_poll_eq snd_conv by blast

lemma watcher_after_rest: "\<exists>s. watcher_after cs looks w = w\<lparr>wa_seen := s\<rparr>"
proof (induction looks rule: rev_induct)
  case Nil
  show ?case
    by (rule exI [of _ "wa_seen w"]) simp
next
  case (snoc lk looks)
  then obtain s where s: "watcher_after cs looks w = w\<lparr>wa_seen := s\<rparr>"
    by blast
  obtain s' where "snd (watcher_poll cs lk (w\<lparr>wa_seen := s\<rparr>)) = (w\<lparr>wa_seen := s\<rparr>)\<lparr>wa_seen := s'\<rparr>"
    using watcher_poll_rest by blast
  with s show ?case
    by auto
qed

lemma watcher_after_scan [simp]: "watch_scan cs lk (watcher_after cs looks w) = watch_scan cs lk w"
  using watcher_after_rest [of cs looks w] by auto

lemma watcher_after_debounce [simp]: "wa_debounce (watcher_after cs looks w) = wa_debounce w"
  using watcher_after_rest [of cs looks w] by auto

text \<open>The entry a watch keeps of a path, and its next one.\<close>

definition entry_after :: "casing \<Rightarrow> look list \<Rightarrow> watcher \<Rightarrow> rstr \<Rightarrow> seen_file option" where
  "entry_after cs looks w p = wa_seen (watcher_after cs looks w) p"

lemma entry_after_snoc:
  "entry_after cs (looks @ [lk]) w p =
    (case map_of (watch_scan cs lk w) p of None \<Rightarrow> None
     | Some (file, st) \<Rightarrow> Some (snd (look_entry (wa_debounce w) (lk_now lk) (lk_opens lk file) (entry_after cs looks w p) st)))"
  unfolding entry_after_def watcher_after_snoc watcher_poll_seen watcher_after_scan watcher_after_debounce by (rule refl)

lemma ready_at_iff:
  "r \<in> set (ready_at cs looks lk w) \<longleftrightarrow>
    (\<exists>p file st. map_of (watch_scan cs lk w) p = Some (file, st) \<and> r = \<lparr>rd_path = p, rd_file = file, rd_size = fst st\<rparr>
      \<and> fst (look_entry (wa_debounce w) (lk_now lk) (lk_opens lk file) (entry_after cs looks w p) st))"
  unfolding ready_at_def watcher_poll_ready watcher_after_scan watcher_after_debounce entry_after_def by (rule refl)

lemma foldl_seen:
  "distinct (map fst found) \<Longrightarrow>
    foldl (\<lambda>seen (path, file, st). seen(path \<mapsto> f st)) seen0 found p
      = (case map_of found p of None \<Rightarrow> seen0 p | Some (file, st) \<Rightarrow> Some (f st))"
proof (induction found arbitrary: seen0)
  case (Cons x found)
  have "map_of found p = None" if "fst x = p"
    using Cons.prems that by (auto simp: map_of_eq_None_iff)
  with Cons show ?case
    by (cases x) (auto split: option.split)
qed simp

lemma watcher_new_seen:
  assumes "watcher_new cs lk ss name path pattern existing debounce = Inr (w, n)"
  shows "wa_debounce w = debounce"
    and "wa_seen w p = map_option (first_seen existing (lk_now lk)) (stamp_at cs w lk p)"
proof -
  obtain w0 s where w: "w = w0\<lparr>wa_seen := s\<rparr>" and w0: "wa_debounce w0 = debounce" "wa_seen w0 = Map.empty"
    and s: "s = foldl (\<lambda>seen (path, file, st). seen(path \<mapsto> first_seen existing (lk_now lk) st)) (wa_seen w0) (watch_scan cs lk w0)"
  proof -
    obtain folder root where "w = (fresh_watcher root folder pattern debounce)\<lparr>wa_seen := foldl
        (\<lambda>seen (path, file, st). seen(path \<mapsto> first_seen existing (lk_now lk) st))
        (wa_seen (fresh_watcher root folder pattern debounce)) (watch_scan cs lk (fresh_watcher root folder pattern debounce))\<rparr>"
      using assms unfolding watcher_new_def Let_def by (auto split: sum.splits if_splits)
    then show thesis
      by (rule that) (simp_all add: fresh_watcher_def)
  qed
  show "wa_debounce w = debounce"
    by (simp add: w w0)
  show "wa_seen w p = map_option (first_seen existing (lk_now lk)) (stamp_at cs w lk p)"
    by (simp add: w s w0 foldl_seen [OF distinct_scan] stamp_at_def split: option.split prod.split)
qed

text \<open>The looks at which a path has had a stamp, up to now.\<close>

definition stable :: "casing \<Rightarrow> watcher \<Rightarrow> look list \<Rightarrow> rstr \<Rightarrow> stamp \<Rightarrow> bool" where
  "stable cs w looks p st = (looks \<noteq> [] \<and> list_all (\<lambda>lk. stamp_at cs w lk p = Some st) looks)"

lemma entry_is_stable:
  assumes new: "watcher_new cs lk0 ss name path pattern existing debounce = Inr (w, n)"
    and e: "entry_after cs looks w p = Some e"
  shows "\<exists>before since. lk0 # looks = before @ since \<and> stable cs w since p (se_stamp e) \<and> se_since e = lk_now (hd since)"
  using e
proof (induction looks arbitrary: e rule: rev_induct)
  case Nil
  then show ?case
    by (intro exI [of _ "[]"] exI [of _ "[lk0]"]) (auto simp: entry_after_def watcher_new_seen [OF new] first_seen_def stable_def)
next
  case (snoc lk looks)
  obtain fl st where st: "map_of (watch_scan cs lk w) p = Some (fl, st)"
    and e: "e = snd (look_entry (wa_debounce w) (lk_now lk) (lk_opens lk fl) (entry_after cs looks w p) st)"
    using snoc.prems by (auto simp: entry_after_snoc split: option.splits)
  have here: "stamp_at cs w lk p = Some st"
    by (simp add: stamp_at_def st)
  show ?case
  proof (cases "\<exists>e0. entry_after cs looks w p = Some e0 \<and> se_stamp e0 = st")
    case True
    then obtain e0 where e0: "entry_after cs looks w p = Some e0" "se_stamp e0 = st"
      by blast
    obtain before since where bs: "lk0 # looks = before @ since" "stable cs w since p st" "se_since e0 = lk_now (hd since)"
      using snoc.IH [OF e0(1)] e0(2) by auto
    have "lk0 # looks @ [lk] = before @ (since @ [lk])"
      using bs(1) by simp
    moreover have "stable cs w (since @ [lk]) p (se_stamp e)" "se_since e = lk_now (hd (since @ [lk]))"
      using bs(2,3) here e e0 by (auto simp: stable_def look_entry_def)
    ultimately show ?thesis
      by blast
  next
    case False
    then have "se_stamp e = st" "se_since e = lk_now lk"
      using e by (auto simp: look_entry_def Let_def split: option.splits)
    then show ?thesis
      using here by (intro exI [of _ "lk0 # looks"] exI [of _ "[lk]"]) (simp add: stable_def)
  qed
qed

text \<open>
  C36. A watch sends a file only when it has settled: each file that is ready at a look can be opened then,
  and at every look for the whole debounce, this one included, it was there with the same size and
  time of modification.
\<close>

theorem watch_sends_settled_files:
  assumes new: "watcher_new cs lk0 ss name path pattern existing debounce = Inr (w, n)"
    and r: "r \<in> set (ready_at cs looks lk w)"
  shows "\<exists>before since st. lk0 # looks @ [lk] = before @ since \<and> stable cs w since (rd_path r) st
    \<and> debounce \<le> lk_now lk - lk_now (hd since) \<and> lk_opens lk (rd_file r) \<and> rd_size r = fst st"
proof -
  obtain p fl st where st: "map_of (watch_scan cs lk w) p = Some (fl, st)"
    and rr: "r = \<lparr>rd_path = p, rd_file = fl, rd_size = fst st\<rparr>"
    and fires: "fst (look_entry (wa_debounce w) (lk_now lk) (lk_opens lk fl) (entry_after cs looks w p) st)"
    using r unfolding ready_at_iff by blast
  define e where "e = snd (look_entry (wa_debounce w) (lk_now lk) (lk_opens lk fl) (entry_after cs looks w p) st)"
  have "entry_after cs (looks @ [lk]) w p = Some e"
    by (simp add: entry_after_snoc st e_def)
  then obtain before since where bs: "lk0 # looks @ [lk] = before @ since" "stable cs w since p (se_stamp e)"
      "se_since e = lk_now (hd since)"
    using entry_is_stable [OF new] by blast
  moreover have "se_stamp e = st" "debounce \<le> lk_now lk - se_since e" "lk_opens lk fl"
    using fires by (auto simp: e_def look_entry_def Let_def watcher_new_seen(1) [OF new] split: option.splits if_splits)
  ultimately have "lk0 # looks @ [lk] = before @ since \<and> stable cs w since (rd_path r) st
    \<and> debounce \<le> lk_now lk - lk_now (hd since) \<and> lk_opens lk (rd_file r) \<and> rd_size r = fst st"
    by (simp add: rr)
  then show ?thesis
    by blast
qed

lemma stable_has_entry:
  assumes new: "watcher_new cs lk0 ss name path pattern existing debounce = Inr (w, n)"
  shows "lk0 # looks = before @ since \<Longrightarrow> sorted (map lk_now (lk0 # looks)) \<Longrightarrow> stable cs w since p st
    \<Longrightarrow> \<exists>e. entry_after cs looks w p = Some e \<and> se_stamp e = st \<and> se_since e \<le> lk_now (hd since)"
proof (induction looks arbitrary: before since rule: rev_induct)
  case Nil
  then have "since = [lk0]"
    by (cases before) (auto simp: stable_def)
  with Nil show ?case
    by (auto simp: entry_after_def watcher_new_seen [OF new] first_seen_def stable_def)
next
  case (snoc lk looks)
  obtain since' where since: "since = since' @ [lk]"
    using snoc.prems(1,3) by (cases since rule: rev_cases) (auto simp: stable_def simp flip: append_assoc append_Cons)
  have here: "stamp_at cs w lk p = Some st"
    using snoc.prems(3) by (simp add: stable_def since)
  then obtain fl where fl: "map_of (watch_scan cs lk w) p = Some (fl, st)"
    by (auto simp: stamp_at_def)
  have split: "lk0 # looks = before @ since'"
    using snoc.prems(1) by (simp add: since flip: append_assoc append_Cons)
  have times: "sorted (map lk_now (lk0 # looks))" "list_all (\<lambda>l. lk_now l \<le> lk_now lk) (lk0 # looks)"
    using snoc.prems(2) by (auto simp: sorted_append list_all_iff)
  let ?e = "snd (look_entry (wa_debounce w) (lk_now lk) (lk_opens lk fl) (entry_after cs looks w p) st)"
  have e: "entry_after cs (looks @ [lk]) w p = Some ?e"
    by (simp add: entry_after_snoc fl)
  have stamp: "se_stamp ?e = st"
    by (auto simp: look_entry_def Let_def)
  have "se_since ?e \<le> lk_now (hd since)"
  proof (cases "since' = []")
    case True
    have "se_since e0 \<le> lk_now lk" if e0: "entry_after cs looks w p = Some e0" for e0
    proof -
      obtain b s where "lk0 # looks = b @ s" "stable cs w s p (se_stamp e0)" "se_since e0 = lk_now (hd s)"
        using entry_is_stable [OF new e0] by blast
      moreover from this have "hd s \<in> set (lk0 # looks)"
        by (simp add: stable_def)
      ultimately show ?thesis
        using times(2) by (auto simp: list_all_iff)
    qed
    then show ?thesis
      by (auto simp: since True look_entry_def Let_def split: option.split)
  next
    case False
    then have "stable cs w since' p st"
      using snoc.prems(3) by (simp add: stable_def since)
    then obtain e0 where "entry_after cs looks w p = Some e0" "se_stamp e0 = st" "se_since e0 \<le> lk_now (hd since')"
      using snoc.IH [OF split times(1)] by blast
    then show ?thesis
      using False by (simp add: since look_entry_def Let_def)
  qed
  with e stamp show ?case
    by blast
qed

definition sent_at :: "casing \<Rightarrow> watcher \<Rightarrow> look list \<Rightarrow> look \<Rightarrow> rstr \<Rightarrow> stamp \<Rightarrow> bool" where
  "sent_at cs w looks lk p st =
     (stamp_at cs w lk p = Some st \<and> list_ex (\<lambda>r. rd_path r = p \<and> rd_size r = fst st) (ready_at cs looks lk w))"

lemma sent_at_iff:
  "sent_at cs w looks lk p st \<longleftrightarrow>
    (\<exists>file. map_of (watch_scan cs lk w) p = Some (file, st)
      \<and> fst (look_entry (wa_debounce w) (lk_now lk) (lk_opens lk file) (entry_after cs looks w p) st))"
proof
  assume "sent_at cs w looks lk p st"
  then obtain r where "stamp_at cs w lk p = Some st" "r \<in> set (ready_at cs looks lk w)" "rd_path r = p"
    by (auto simp: sent_at_def list_ex_iff)
  then show "\<exists>file. map_of (watch_scan cs lk w) p = Some (file, st)
      \<and> fst (look_entry (wa_debounce w) (lk_now lk) (lk_opens lk file) (entry_after cs looks w p) st)"
    by (auto simp: ready_at_iff stamp_at_def)
next
  assume "\<exists>file. map_of (watch_scan cs lk w) p = Some (file, st)
      \<and> fst (look_entry (wa_debounce w) (lk_now lk) (lk_opens lk file) (entry_after cs looks w p) st)"
  then obtain fl where fl: "map_of (watch_scan cs lk w) p = Some (fl, st)"
      "fst (look_entry (wa_debounce w) (lk_now lk) (lk_opens lk fl) (entry_after cs looks w p) st)"
    by blast
  then have "\<lparr>rd_path = p, rd_file = fl, rd_size = fst st\<rparr> \<in> set (ready_at cs looks lk w)"
    unfolding ready_at_iff by blast
  with fl show "sent_at cs w looks lk p st"
    by (force simp: sent_at_def stamp_at_def list_ex_iff)
qed

lemma sent_was_ready:
  assumes new: "watcher_new cs lk0 ss name path pattern existing debounce = Inr (w, n)"
    and e: "entry_after cs looks w p = Some e" "se_sent e = Some st" and fresh: "existing \<or> stamp_at cs w lk0 p \<noteq> Some st"
  shows "\<exists>h lk rest. looks = h @ lk # rest \<and> sent_at cs w h lk p st"
  using e
proof (induction looks arbitrary: e rule: rev_induct)
  case Nil
  then show ?case
    using fresh by (auto simp: entry_after_def watcher_new_seen [OF new] first_seen_def split: if_splits)
next
  case (snoc lk looks)
  obtain fl st' where fl: "map_of (watch_scan cs lk w) p = Some (fl, st')"
    and e: "e = snd (look_entry (wa_debounce w) (lk_now lk) (lk_opens lk fl) (entry_after cs looks w p) st')"
    using snoc.prems by (auto simp: entry_after_snoc split: option.splits)
  show ?case
  proof (cases "fst (look_entry (wa_debounce w) (lk_now lk) (lk_opens lk fl) (entry_after cs looks w p) st')")
    case True
    then have "st' = st"
      using e snoc.prems(2) by (auto simp: look_entry_def Let_def split: if_splits)
    with True fl have "sent_at cs w looks lk p st"
      by (auto simp: sent_at_iff)
    then show ?thesis
      by blast
  next
    case False
    then obtain e0 where "entry_after cs looks w p = Some e0" "se_sent e0 = Some st"
      using e snoc.prems(2) by (auto simp: look_entry_def Let_def split: option.splits if_splits)
    then obtain h l rest where "looks = h @ l # rest" "sent_at cs w h l p st"
      using snoc.IH by blast
    then have "looks @ [lk] = h @ l # (rest @ [lk]) \<and> sent_at cs w h l p st"
      by simp
    then show ?thesis
      by blast
  qed
qed

text \<open>
  C37. What has settled is put up for sending: when a file has been the same, in size and time, at every look for the
  whole debounce and the place it is found at opens at the last of them, then it has been on the list of files to
  send as it is, at this look or an earlier one; a file that was there when the watch began, and is as it was then,
  only if the watch was asked for such files. (Whether the list is then read and sent is not part of this: a file that
  cannot be read at that moment is not put up again until it changes.)
\<close>

theorem settled_files_are_sent:
  assumes new: "watcher_new cs lk0 ss name path pattern existing debounce = Inr (w, n)"
    and fresh: "existing \<or> stamp_at cs w lk0 p \<noteq> Some st"
    and times: "sorted (map lk_now (lk0 # looks @ [lk]))"
    and since: "lk0 # looks @ [lk] = before @ since" "stable cs w since p st"
    and settled: "debounce \<le> lk_now lk - lk_now (hd since)"
    and opens: "\<And>q. map_of (watch_scan cs lk w) p = Some (q, st) \<Longrightarrow> lk_opens lk q"
  shows "\<exists>h l rest. looks @ [lk] = h @ l # rest \<and> sent_at cs w h l p st"
proof -
  obtain e where e: "entry_after cs (looks @ [lk]) w p = Some e" "se_stamp e = st" "se_since e \<le> lk_now (hd since)"
    using stable_has_entry [OF new since(1) times since(2)] by blast
  then have "debounce \<le> lk_now lk - se_since e"
    using settled by linarith
  moreover obtain q st' where found: "map_of (watch_scan cs lk w) p = Some (q, st')"
    and look: "e = snd (look_entry (wa_debounce w) (lk_now lk) (lk_opens lk q) (entry_after cs looks w p) st')"
    using e(1) by (auto simp: entry_after_snoc split: option.splits)
  moreover have "se_stamp e = st'"
    by (auto simp: look look_entry_def Let_def)
  ultimately have "se_sent e = Some st"
    using opens [of q] e(2) by (auto simp: look_entry_def Let_def watcher_new_seen(1) [OF new] split: if_splits)
  then show ?thesis
    by (rule sent_was_ready [OF new e(1) _ fresh])
qed

text \<open>A sample: a folder with one file, that never changes.\<close>

definition sample_look :: "nat \<Rightarrow> look" where
  "sample_look t = \<lparr>lk_now = t, lk_fs = sample_tree, lk_sys = quiet\<lparr>sy_ls := \<lambda>_. Some [[97]]\<rparr>, lk_opens = \<lambda>_. True\<rparr>"

definition sample_watcher :: watcher where
  "sample_watcher = fresh_watcher [[115]] [[115]] None DEBOUNCE"

lemma sample_scan: "watch_scan ascii_casing (sample_look t) sample_watcher = [([97], [[115], [97]], 2, None)]"
  by (simp add: watch_scan_def scan_folders.simps sample_look_def sample_watcher_def fresh_watcher_def sample_tree_def quiet_def
      MAX_FILES_def PART_SUFFIX_def ends_with_def starts_with_def ascii_casing_def ascii_lowercase_def ascii_lower_def canonicalize_def MAX_LINKS_def
      is_dir_def content_at_def)

lemma sample_watch:
  "watcher_new ascii_casing (sample_look 0) sample_shares [120] [] None True DEBOUNCE
    = Inr (sample_watcher\<lparr>wa_seen := [[97] \<mapsto> first_seen True 0 (2, None)]\<rparr>, 1)"
proof -
  have "resolve_existing ascii_casing sample_tree sample_shares [120] [] = Inr ([[115]], [[115]])"
    by code_simp
  moreover have "lk_fs (sample_look 0) = sample_tree" "lk_now (sample_look 0) = 0" "is_dir sample_tree [[115]]"
    by (simp_all add: sample_look_def is_dir_def sample_tree_def)
  moreover have "wa_seen sample_watcher = Map.empty"
    by (simp add: sample_watcher_def fresh_watcher_def)
  ultimately show ?thesis
    by (simp add: watcher_new_def sample_scan Let_def flip: sample_watcher_def)
qed

lemma sample_ready:
  "ready_at ascii_casing [] (sample_look 2000) (sample_watcher\<lparr>wa_seen := [[97] \<mapsto> first_seen True 0 (2, None)]\<rparr>)
    = [\<lparr>rd_path = [97], rd_file = [[115], [97]], rd_size = 2\<rparr>]"
  by (simp add: ready_at_def watcher_poll_def sample_scan Let_def look_entry_def first_seen_def)
    (simp add: sample_look_def sample_watcher_def fresh_watcher_def DEBOUNCE_def)

lemma sample_stamp: "stamp_at ascii_casing (sample_watcher\<lparr>wa_seen := s\<rparr>) (sample_look t) [97] = Some (2, None)"
  by (simp add: stamp_at_def sample_scan)

theorem watch_sends_settled_files_witness:
  "\<exists>w before since st. watcher_new ascii_casing (sample_look 0) sample_shares [120] [] None True DEBOUNCE = Inr (w, 1)
    \<and> [sample_look 0, sample_look 2000] = before @ since \<and> stable ascii_casing w since [97] st \<and> 2000 \<le> 2000 - lk_now (hd since)"
  using watch_sends_settled_files [OF sample_watch, of "\<lparr>rd_path = [97], rd_file = [[115], [97]], rd_size = 2\<rparr>" "[]" "sample_look 2000"]
  unfolding sample_ready sample_watch by (auto simp: DEBOUNCE_def sample_look_def)

theorem settled_files_are_sent_witness:
  "\<exists>w h l rest. watcher_new ascii_casing (sample_look 0) sample_shares [120] [] None True DEBOUNCE = Inr (w, 1)
    \<and> [sample_look 2000] = h @ l # rest \<and> sent_at ascii_casing w h l [97] (2, None)"
proof -
  let ?w = "sample_watcher\<lparr>wa_seen := [[97] \<mapsto> first_seen True 0 (2, None)]\<rparr>"
  have "\<exists>h l rest. [] @ [sample_look 2000] = h @ l # rest \<and> sent_at ascii_casing ?w h l [97] (2, None)"
    by (rule settled_files_are_sent [OF sample_watch, where before = "[]" and since = "[sample_look 0, sample_look 2000]"])
      (simp_all add: stable_def sample_stamp, simp_all add: sample_look_def DEBOUNCE_def)
  then show ?thesis
    using sample_watch by auto
qed

section \<open>A file is sent once\<close>

lemma sent_entry: "sent_at cs w looks lk p st \<Longrightarrow> \<exists>e. entry_after cs (looks @ [lk]) w p = Some e \<and> se_sent e = Some st"
  by (auto simp: sent_at_iff entry_after_snoc look_entry_def Let_def split: if_splits)

lemma unsent_entry:
  assumes "entry_after cs looks w p = Some e" "se_sent e = Some st"
    and "stamp_at cs w lk p = Some st'" "\<not> sent_at cs w looks lk p st'"
  shows "\<exists>e'. entry_after cs (looks @ [lk]) w p = Some e' \<and> se_sent e' = Some st"
proof -
  obtain fl where fl: "map_of (watch_scan cs lk w) p = Some (fl, st')"
    using assms(3) by (auto simp: stamp_at_def)
  with assms(4) have "\<not> fst (look_entry (wa_debounce w) (lk_now lk) (lk_opens lk fl) (entry_after cs looks w p) st')"
    by (simp add: sent_at_iff)
  with assms(1,2) fl show ?thesis
    by (simp add: entry_after_snoc) (auto simp: look_entry_def Let_def split: if_splits)
qed

text \<open>Between two sends of the same stamp the file was gone at a look, or another stamp was sent.\<close>

fun unsent :: "casing \<Rightarrow> watcher \<Rightarrow> rstr \<Rightarrow> look list \<Rightarrow> look list \<Rightarrow> bool" where
  "unsent cs w p looks [] = True"
| "unsent cs w p looks (l # ls) =
     ((case stamp_at cs w l p of None \<Rightarrow> False | Some st \<Rightarrow> \<not> sent_at cs w looks l p st) \<and> unsent cs w p (looks @ [l]) ls)"

lemma unsent_entries:
  "entry_after cs looks w p = Some e \<Longrightarrow> se_sent e = Some st \<Longrightarrow> unsent cs w p looks between
    \<Longrightarrow> \<exists>e'. entry_after cs (looks @ between) w p = Some e' \<and> se_sent e' = Some st"
proof (induction between arbitrary: looks e)
  case (Cons l between)
  obtain st' where "stamp_at cs w l p = Some st'" "\<not> sent_at cs w looks l p st'"
    using Cons.prems(3) by (auto split: option.splits)
  then obtain e' where "entry_after cs (looks @ [l]) w p = Some e'" "se_sent e' = Some st"
    using unsent_entry [OF Cons.prems(1,2)] by blast
  with Cons.IH [of "looks @ [l]" e'] Cons.prems(3) show ?case
    by simp
qed simp

lemma file_is_sent_once:
  assumes "sent_at cs w looks lk p st" and "unsent cs w p (looks @ [lk]) between"
  shows "\<not> sent_at cs w (looks @ [lk] @ between) lk' p st"
proof -
  obtain e where "entry_after cs (looks @ [lk]) w p = Some e" "se_sent e = Some st"
    using sent_entry [OF assms(1)] by blast
  then have "\<exists>e. entry_after cs (looks @ [lk] @ between) w p = Some e \<and> se_sent e = Some st"
    using unsent_entries [OF _ _ assms(2)] by simp
  then show ?thesis
    by (auto simp: sent_at_iff look_entry_def Let_def split: if_splits)
qed

section \<open>The messages of a watch\<close>

text \<open>What a file's messages are when nothing stops them.\<close>

definition file_messages :: "(place \<Rightarrow> reading) \<Rightarrow> ready \<Rightarrow> watch_reply list" where
  "file_messages read r =
     (case read (rd_file r) of
        Unreadable \<Rightarrow> []
      | Reads chunks whole \<Rightarrow> WatchFile (rd_path r) (rd_size r) # map WatchChunk chunks @ (if whole then [WatchEnd] else []))"

lemma stream_chunks_prefix:
  "\<exists>part. wc_sent (snd (stream_chunks cancelled bs whole c)) = wc_sent c @ part
    \<and> prefix part (map WatchChunk bs @ (if whole then [WatchEnd] else []))
    \<and> (fst (stream_chunks cancelled bs whole c) \<noteq> ChannelGone \<longrightarrow> part = map WatchChunk bs @ (if whole then [WatchEnd] else []))"
proof (induction bs arbitrary: c)
  case Nil
  show ?case
    by (auto simp: emit_def)
next
  case (Cons b bs)
  show ?case
  proof (cases "cancelled (length (wc_sent c)) \<or> wc_room c = Some 0")
    case True
    then show ?thesis
      by (auto simp: emit_def)
  next
    case False
    define c' where "c' = c\<lparr>wc_sent := wc_sent c @ [WatchChunk b], wc_room := map_option (\<lambda>n. n - 1) (wc_room c)\<rparr>"
    have step: "stream_chunks cancelled (b # bs) whole c = stream_chunks cancelled bs whole c'"
      using False by (simp add: emit_def c'_def)
    obtain part where "wc_sent (snd (stream_chunks cancelled bs whole c')) = wc_sent c' @ part"
      "prefix part (map WatchChunk bs @ (if whole then [WatchEnd] else []))"
      "fst (stream_chunks cancelled bs whole c') \<noteq> ChannelGone \<longrightarrow> part = map WatchChunk bs @ (if whole then [WatchEnd] else [])"
      using Cons.IH by blast
    then show ?thesis
      unfolding step by (intro exI [of _ "WatchChunk b # part"]) (simp add: c'_def)
  qed
qed

lemma stream_all_prefix:
  "\<exists>part. wc_sent (snd (stream_all cancelled read rs c)) = wc_sent c @ part
    \<and> prefix part (concat (map (file_messages read) rs))
    \<and> (fst (stream_all cancelled read rs c) \<longrightarrow> part = concat (map (file_messages read) rs))"
proof (induction rs arbitrary: c)
  case (Cons r rs)
  show ?case
  proof (cases "cancelled (length (wc_sent c))")
    case False
    obtain res c' where sf: "stream_file cancelled r (read (rd_file r)) c = (res, c')"
      by (cases "stream_file cancelled r (read (rd_file r)) c")
    have "\<exists>part. wc_sent c' = wc_sent c @ part \<and> prefix part (file_messages read r) \<and> (res \<noteq> ChannelGone \<longrightarrow> part = file_messages read r)"
    proof (cases "read (rd_file r)")
      case Unreadable
      with sf show ?thesis
        by (auto simp: stream_file_def file_messages_def)
    next
      case (Reads chunks whole)
      show ?thesis
      proof (cases "wc_room c = Some 0")
        case True
        with sf Reads show ?thesis
          by (auto simp: stream_file_def emit_def)
      next
        case False
        define c1 where "c1 = c\<lparr>wc_sent := wc_sent c @ [WatchFile (rd_path r) (rd_size r)], wc_room := map_option (\<lambda>n. n - 1) (wc_room c)\<rparr>"
        have "stream_chunks cancelled chunks whole c1 = (res, c')"
          using sf Reads False by (simp add: stream_file_def emit_def c1_def)
        then obtain part where "wc_sent c' = wc_sent c1 @ part" "prefix part (map WatchChunk chunks @ (if whole then [WatchEnd] else []))"
            "res \<noteq> ChannelGone \<longrightarrow> part = map WatchChunk chunks @ (if whole then [WatchEnd] else [])"
          using stream_chunks_prefix [of cancelled chunks whole c1] by auto
        then show ?thesis
          by (intro exI [of _ "WatchFile (rd_path r) (rd_size r) # part"]) (simp add: c1_def file_messages_def Reads)
      qed
    qed
    then obtain part where part: "wc_sent c' = wc_sent c @ part" "prefix part (file_messages read r)"
        "res \<noteq> ChannelGone \<longrightarrow> part = file_messages read r"
      by blast
    obtain part' where part': "wc_sent (snd (stream_all cancelled read rs c')) = wc_sent c' @ part'"
        "prefix part' (concat (map (file_messages read) rs))"
        "fst (stream_all cancelled read rs c') \<longrightarrow> part' = concat (map (file_messages read) rs)"
      using Cons.IH by blast
    show ?thesis
    proof (cases "res = ChannelGone")
      case True
      with False sf part show ?thesis
        by (intro exI [of _ part]) (auto intro: prefix_prefix)
    next
      case gone: False
      then have "stream_all cancelled read (r # rs) c = stream_all cancelled read rs c'"
        using False sf by (cases res) auto
      with gone part part' show ?thesis
        by (intro exI [of _ "part @ part'"]) auto
    qed
  qed auto
qed simp

end
