(* ===== verification/Spec2Isabelle.thy ===== *)
theory Spec2Isabelle
  imports Client_Spacing Gs_Input Gs_Control Gs_Stream Rdp_RemoteApp Discovery Win_Cmdline Gs_Audio Gs_Video Bud_Packet Bud_Reassembly Bud_Recovery Host_Devices Session_Safety Host_Watch
begin

text \<open>
  A verification of windowcast, a remote desktop system in Rust that streams single windows: a host (\<open>host-core\<close>)
  lets paired or signed-in devices in, streams windows to them over one of several carriers, runs commands and keeps
  files for them; a client (\<open>client-core\<close>) asks for windows and shows them. Both also speak GameStream and RDP
  with other programs. The theories follow the crates under \<open>src/\<close>; every definition is named after the
  function or type it translates, and the text before it says where it deviates.

  \<^bold>\<open>Parts and theories.\<close>

  \<^item> Vocabulary: \<open>Prelude\<close> (words, byte order, slices, chunks, the locales \<open>codec\<close> and \<open>prefix_codec\<close>), \<open>Text_Basics\<close>,
    \<open>Text_Numbers\<close>, \<open>Utf8\<close>, \<open>Utf16\<close>, \<open>Float32\<close> and \<open>Sorted_Map\<close>: what the sources use of Rust's strings, numbers
    and ordered maps.
  \<^item> Erasure codes (\<open>fec/src/lib.rs\<close>, \<open>gamestream/src/fec.rs\<close>): \<open>Fec_Field\<close> proves that the table arithmetic is the
    field GF(256), \<open>Fec_Code\<close> that what is recovered is what was encoded, \<open>Fec_Cauchy\<close> and \<open>Gs_Fec\<close> that enough
    shards always suffice. The transport relies on them through the locale \<open>erasure_code\<close>.
  \<^item> The datagram transport (\<open>bud\<close>): \<open>Bud_Header\<close>, \<open>Bud_Replay\<close> (refined to the set of accepted numbers; locale
    \<open>replay_filter\<close>), \<open>Bud_Packet\<close> (sealing and opening), \<open>Bud_Parity\<close>, \<open>Bud_Fragment\<close> and \<open>Bud_Reassembly\<close> (cutting
    frames and putting them together under loss, reordering and repetition, and under whatever a peer sends),
    \<open>Bud_Recovery\<close> (resends, NACKs, loss reports).
  \<^item> Who may connect (\<open>identity\<close>, \<open>accounts\<close>, \<open>host-core/src/lib.rs\<close>): \<open>Identity\<close>, \<open>Accounts_Policy\<close>, \<open>Accounts\<close>,
    \<open>Host_Control\<close> (PIN lockout, sign-in throttle, the gate), \<open>Host_Devices\<close> (registrations, admission, decisions).
  \<^item> A session: \<open>Protocol\<close> (its messages, the choice of a carrier), \<open>Host_Input\<close>, \<open>Host_Session\<close> and \<open>Session_Safety\<close>
    on the host; \<open>Client_Frames\<close>, \<open>Client_Selector\<close>, \<open>Client_Session\<close>, \<open>Client_Messages\<close>, \<open>Client_Safety\<close> and
    \<open>Client_Spacing\<close> on the client; \<open>Command_Stream\<close> for shells and commands on both.
  \<^item> Files (\<open>protocol/src/files.rs\<close>, \<open>host-core/src/files.rs\<close>, \<open>watch.rs\<close>): \<open>Share_Paths\<close>, \<open>Host_Files\<close> on an explicit
    file system with folders, files and links, \<open>Host_Watch\<close>.
  \<^item> Finding each other: \<open>Discovery\<close> on the local network, \<open>Rendezvous\<close> and \<open>Host_Remote\<close> away from it.
  \<^item> GameStream (\<open>gamestream\<close>): \<open>Gs_Xml\<close>, \<open>Gs_Http\<close>, \<open>Gs_Rtsp\<close>, \<open>Gs_Pairing\<close>, \<open>Gs_Server\<close> (the host), \<open>Gs_Client\<close>,
    \<open>Gs_Launch\<close>, \<open>Gs_Stream\<close> (both ends composed), \<open>Gs_Video\<close>, \<open>Gs_Audio\<close>, \<open>Gs_Input\<close>, \<open>Gs_Control\<close>.
  \<^item> \<open>Rdp_RemoteApp\<close> (the windows of a RemoteApp session) and \<open>Win_Cmdline\<close> (Windows command lines).

  \<^bold>\<open>How state and effects are modelled.\<close> A component's state is a record, an operation a function that returns the
  state after it; errors are values (\<open>Inl\<close>), a panic is an outer \<open>None\<close> or a constructor of its own. What runs
  concurrently is an explicit sequence of steps: each step is a task or thread from one wait to the next, a
  sign-in check is two steps with others between, and a run is any list of steps. Random bytes, clocks, the results of
  system calls and the iteration order of hash maps are arguments, so that theorems hold for all of them. Cryptography,
  character case tables, the addresses of the system and the libraries behind RDP, PAM or LDAP are arguments too; the
  laws the code relies on (\<open>aead_laws\<close>, \<open>cipher_ok\<close> and the like) are hypotheses, and the witnesses supply functions
  that satisfy them.

  \<^bold>\<open>What the lemmas show.\<close> Round trips of every wire format (headers, beacons, XML, HTTP, RTSP, input packets,
  command lines, file formats); exact delivery of the datagram, video and audio streams under the losses their parity
  covers, and nothing but what was sent beyond that; invariants of the host's sessions, channels, pairing tables and
  registrations under every sequence of requests; that a client changes nothing outside writable shares, drives no
  window it may not, and gets in only with a proof; that the client keeps a picture through failed switches, resumes
  at keyframes, stops owned windows and spaces its switches; bounds on guesses, resends, queues and waits. Where
  the code does not do what its comments or constants promise, a lemma shows the case
  (\<open>part_link_leaves_share\<close>, \<open>closed_pairing_reopens\<close>, \<open>many_guesses_at_once\<close>, \<open>unsaved_removal_is_undone\<close>,
  \<open>sign_in_drops_device_limit\<close>, \<open>removed_account_keeps_devices\<close>, \<open>glob_misses_star\<close>, \<open>stopped_carrier_takes_the_track\<close>,
  \<open>late_acceptance_takes_the_screen\<close>, \<open>refused_switch_waits_the_least\<close> and others).

  \<^bold>\<open>Loops.\<close> Recursion that is not structural has a termination proof. Where a source loop may run forever it is a
  \<open>partial_function\<close> whose \<open>None\<close> is not returning, and its return is a theorem (the glob loop of the policy, the
  drain loop of the audio receiver). Two loops carry a bound: links are followed at most forty times, as Linux
  does, and \<open>stop_window\<close> descends into owned windows with \<open>2 n + 2\<close> calls of depth for \<open>n\<close> windows shown, which
  \<open>stop_window_takes_the_owned\<close> proves to be enough.

  \<^bold>\<open>Coarser than the code.\<close> The PIN of the host and its failure counter change in one step, where the code clears the
  counter just after it releases the PIN; a command leaves the status list and is marked closed in one step; a switch
  of the client is asked for and its timer kept in one step; the file system changes only through the modelled
  requests. Times are naturals in the unit the code rounds to.

  \<^bold>\<open>Not modelled.\<close> Capture, encoding, decoding and presentation on the operating systems; sockets, TLS, WebRTC and
  QUIC; the handshakes of third-party crates (Noise, SPAKE2); PAM, LDAP, OIDC and Kerberos clients; the VNC server, the
  terminal, the graphical application, its settings and bindings; the adaptive quality controller and chat.
\<close>

end
